(* ===== verification/Kern_Prelude.thy ===== *)
theory Kern_Prelude
  imports Main "HOL-Library.Word"
begin

text \<open>
  What every theory of the development shares.

  \<^item> The machine's integers. A C \<open>uint64_t\<close> or \<open>size_t\<close> is a natural number below
    \<open>2 ^ 64\<close>; every C operation that can leave that range is written with its wrap-around
    (\<open>add64\<close>, \<open>sub64\<close>, \<open>shl64\<close>). Masks that are a power of two minus one are
    written as \<open>mod\<close>, and shifts by a constant as \<open>div\<close> and \<open>*\<close>. Bit masks that are
    really sets of bits (rights, protections, flags, bitmap words) stay machine words.
  \<^item> The kernel's way of failing hard. \<open>panic\<close> and a failed \<open>KASSERT\<close> never return, so
    an operation that contains one returns a \<open>kres\<close>: \<open>Ret\<close> with its result, or
    \<open>Panic\<close> with the message.
  \<^item> The 4 KiB page and its rounding macros (\<open>vm/pmm.h\<close>, repeated in \<open>vm/vm.c\<close>).
  \<^item> Counting lemmas about subsets of an initial segment, for bitmaps and reference counts.
\<close>

named_theorems kres_simps \<open>evaluation of the panic monad\<close>

section \<open>64-bit unsigned arithmetic\<close>

type_synonym u64 = nat

definition add64 :: "u64 \<Rightarrow> u64 \<Rightarrow> u64" where
  "add64 a b = (a + b) mod 2 ^ 64"

definition sub64 :: "u64 \<Rightarrow> u64 \<Rightarrow> u64" where
  "sub64 a b = (a + (2 ^ 64 - b mod 2 ^ 64)) mod 2 ^ 64"

definition shl64 :: "u64 \<Rightarrow> nat \<Rightarrow> u64" where
  "shl64 a k = (a * 2 ^ k) mod 2 ^ 64"

section \<open>Panics\<close>

datatype 'a kres = Ret 'a | Panic string

definition KASSERT :: "bool \<Rightarrow> string \<Rightarrow> 'a kres \<Rightarrow> 'a kres" where
  "KASSERT c msg k = (if c then k else Panic msg)"

primrec kbind :: "'a kres \<Rightarrow> ('a \<Rightarrow> 'b kres) \<Rightarrow> 'b kres" where
  "kbind (Ret x) f = f x"
| "kbind (Panic m) f = Panic m"

section \<open>Pages\<close>

definition PAGE_SHIFT :: nat where "PAGE_SHIFT = 12"

definition PAGE_SIZE :: u64 where "PAGE_SIZE = 2 ^ PAGE_SHIFT"

definition PA_INVALID :: u64 where "PA_INVALID = 0"

definition page_aligned :: "u64 \<Rightarrow> bool" where
  \<comment> \<open>\<open>(x & PAGE_MASK) == 0\<close>\<close>
  "page_aligned x \<longleftrightarrow> x mod PAGE_SIZE = 0"

definition PA_ROUND_DOWN :: "u64 \<Rightarrow> u64" where
  "PA_ROUND_DOWN x = x - x mod PAGE_SIZE"

definition PA_ROUND_UP :: "u64 \<Rightarrow> u64" where
  "PA_ROUND_UP x = PA_ROUND_DOWN (add64 x (PAGE_SIZE - 1))"

text \<open>Protection bits, held in a \<open>uint8_t\<close> by the maps and in a \<open>uint32_t\<close> by the page tables.\<close>

definition VM_PROT_READ :: "'a::len word" where "VM_PROT_READ = 0x01"
definition VM_PROT_WRITE :: "'a::len word" where "VM_PROT_WRITE = 0x02"
definition VM_PROT_EXEC :: "'a::len word" where "VM_PROT_EXEC = 0x04"
definition VM_PROT_USER :: "'a::len word" where "VM_PROT_USER = 0x08"

section \<open>Facts about wrap-around arithmetic\<close>

lemma add64_small: "a + b < 2 ^ 64 \<Longrightarrow> add64 a b = a + b"
  by (simp add: add64_def)

lemma add64_bound [simp]: "add64 a b < 2 ^ 64"
  by (simp add: add64_def)

lemma add64_wrap: "a < 2 ^ 64 \<Longrightarrow> b < 2 ^ 64 \<Longrightarrow> \<not> a + b < 2 ^ 64 \<Longrightarrow> add64 a b = a + b - 2 ^ 64"
  by (simp add: add64_def le_mod_geq)

lemma add64_no_wrap_iff:
  assumes "a < 2 ^ 64" and "b < 2 ^ 64"
  shows "a \<le> add64 a b \<longleftrightarrow> a + b < 2 ^ 64"
  using assms add64_small [of a b] add64_wrap [of a b] by (cases "a + b < 2 ^ 64") auto

lemma sub64_small: "b \<le> a \<Longrightarrow> a < 2 ^ 64 \<Longrightarrow> sub64 a b = a - b"
proof -
  assume le: "b \<le> a" and lt: "a < 2 ^ 64"
  then have eq: "a + (2 ^ 64 - b mod 2 ^ 64) = (a - b) + 2 ^ 64"
    by simp
  show ?thesis
    unfolding sub64_def eq using lt by simp
qed

lemma sub64_bound [simp]: "sub64 a b < 2 ^ 64"
  by (simp add: sub64_def)

lemma shl64_small: "a * 2 ^ k < 2 ^ 64 \<Longrightarrow> shl64 a k = a * 2 ^ k"
  by (simp add: shl64_def)

section \<open>Facts about pages\<close>

lemma PAGE_SIZE_eq: "PAGE_SIZE = 4096"
  by (simp add: PAGE_SIZE_def PAGE_SHIFT_def)

lemma PAGE_SIZE_pos [simp]: "0 < PAGE_SIZE"
  by (simp add: PAGE_SIZE_eq)

lemma PA_ROUND_DOWN_aligned [simp]: "page_aligned (PA_ROUND_DOWN x)"
  by (simp add: page_aligned_def PA_ROUND_DOWN_def flip: minus_mod_eq_mult_div)

lemma PA_ROUND_UP_aligned [simp]: "page_aligned (PA_ROUND_UP x)"
  by (simp add: PA_ROUND_UP_def)

lemma PA_ROUND_DOWN_div: "PA_ROUND_DOWN x = x div PAGE_SIZE * PAGE_SIZE"
  by (simp add: PA_ROUND_DOWN_def minus_mod_eq_div_mult)

lemma PA_ROUND_DOWN_le [simp]: "PA_ROUND_DOWN x \<le> x"
  by (simp add: PA_ROUND_DOWN_def)

lemma page_aligned_div: "page_aligned x \<Longrightarrow> x div PAGE_SIZE * PAGE_SIZE = x"
  by (simp add: page_aligned_def mod_eq_0_iff_dvd)

lemma page_aligned_ROUND_DOWN: "page_aligned x \<Longrightarrow> PA_ROUND_DOWN x = x"
  by (simp add: page_aligned_def PA_ROUND_DOWN_def)

lemma PA_ROUND_UP_le:
  assumes "x + PAGE_SIZE \<le> 2 ^ 64"
  shows "x \<le> PA_ROUND_UP x" and "PA_ROUND_UP x < x + PAGE_SIZE"
proof -
  have eq: "PA_ROUND_UP x = (x + (PAGE_SIZE - 1)) div PAGE_SIZE * PAGE_SIZE"
    using assms by (simp add: PA_ROUND_UP_def PA_ROUND_DOWN_div add64_small PAGE_SIZE_eq)
  have "x + (PAGE_SIZE - 1) =
      (x + (PAGE_SIZE - 1)) div PAGE_SIZE * PAGE_SIZE + (x + (PAGE_SIZE - 1)) mod PAGE_SIZE"
    by simp
  moreover have "(x + (PAGE_SIZE - 1)) mod PAGE_SIZE < PAGE_SIZE"
    by simp
  ultimately show "x \<le> PA_ROUND_UP x" and "PA_ROUND_UP x < x + PAGE_SIZE"
    unfolding eq using PAGE_SIZE_pos by linarith+
qed

section \<open>Facts about the panic monad\<close>

lemma KASSERT_True [simp, kres_simps]: "KASSERT True m k = k"
  by (simp add: KASSERT_def)

lemma KASSERT_False [simp, kres_simps]: "KASSERT False m k = Panic m"
  by (simp add: KASSERT_def)

lemma KASSERT_Ret_iff [simp]: "KASSERT c m k = Ret x \<longleftrightarrow> c \<and> k = Ret x"
  by (simp add: KASSERT_def)

lemma Ret_KASSERT_iff [simp]: "Ret x = KASSERT c m k \<longleftrightarrow> c \<and> k = Ret x"
  by (auto simp: KASSERT_def)

lemma kbind_Ret_iff: "kbind m f = Ret y \<longleftrightarrow> (\<exists>x. m = Ret x \<and> f x = Ret y)"
  by (cases m) auto

lemma kbind_assoc: "kbind (kbind m f) g = kbind m (\<lambda>x. kbind (f x) g)"
  by (cases m) auto

lemma kbindE [elim]:
  assumes "kbind m f = Ret y"
  obtains x where "m = Ret x" and "f x = Ret y"
  using assms by (auto simp: kbind_Ret_iff)

lemma not_panic_iff: "(\<forall>m. r \<noteq> Panic m) \<longleftrightarrow> (\<exists>x. r = Ret x)"
  by (cases r) auto

text \<open>The same call made \<open>n\<close> times, stopping at the first panic.\<close>

primrec kiter :: "nat \<Rightarrow> ('s \<Rightarrow> 's kres) \<Rightarrow> 's \<Rightarrow> 's kres" where
  "kiter 0 f s = Ret s"
| "kiter (Suc n) f s = kbind (f s) (kiter n f)"

text \<open>Rounding an address and comparing it with a frame boundary.\<close>

lemma ROUND_DOWN_le_frame: "PA_ROUND_DOWN x \<le> i * PAGE_SIZE \<longleftrightarrow> x < i * PAGE_SIZE + PAGE_SIZE"
proof -
  have "x div PAGE_SIZE \<le> i \<longleftrightarrow> x < (i + 1) * PAGE_SIZE"
    using div_less_iff_less_mult [OF PAGE_SIZE_pos, of x "i + 1"] by (simp add: less_Suc_eq_le)
  then show ?thesis using PAGE_SIZE_pos by (simp add: PA_ROUND_DOWN_div algebra_simps)
qed

lemma frame_less_ROUND_DOWN: "i * PAGE_SIZE < PA_ROUND_DOWN x \<longleftrightarrow> i * PAGE_SIZE + PAGE_SIZE \<le> x"
  using ROUND_DOWN_le_frame [of x i] by linarith

lemma ROUND_UP_le_frame:
  assumes "x + PAGE_SIZE \<le> 2 ^ 64"
  shows "PA_ROUND_UP x \<le> i * PAGE_SIZE \<longleftrightarrow> x \<le> i * PAGE_SIZE"
proof -
  have "PA_ROUND_UP x = PA_ROUND_DOWN (x + (PAGE_SIZE - 1))"
    using assms by (simp add: PA_ROUND_UP_def add64_small PAGE_SIZE_eq)
  then show ?thesis
    using ROUND_DOWN_le_frame [of "x + (PAGE_SIZE - 1)" i] PAGE_SIZE_pos by linarith
qed

lemma frame_less_ROUND_UP:
  "x + PAGE_SIZE \<le> 2 ^ 64 \<Longrightarrow> i * PAGE_SIZE < PA_ROUND_UP x \<longleftrightarrow> i * PAGE_SIZE < x"
  using ROUND_UP_le_frame [of x i] by (simp only: not_le [symmetric])

end
