(* ===== verification/Memmap.thy ===== *)
theory Memmap
  imports Kern_Prelude "HOL-Library.Multiset"
begin

text \<open>
  \<open>kern/memmap.c\<close>: the bootloader-independent view of physical memory.

  The boot information is read straight out of physical memory, so the parsers take that
  memory, a function from byte addresses to bytes, and read the packed wire structures of
  \<open>multiboot.h\<close> and \<open>pvh.h\<close> field by field. The table is the array
  \<open>memmap_entries[0 .. memmap_nentries)\<close>, a list whose length is \<open>memmap_nentries\<close>.

  Shown here: the in-place insertion sort is a stable sort; what \<open>memmap_init\<close> leaves behind
  is a non-empty, bounded, sorted table with its two byte counts; and for which multiboot2 tag
  chains the tag walk comes to an end.
\<close>

section \<open>The table\<close>

record memmap_entry =
  me_base :: u64
  me_length :: u64
  me_type :: nat
  me_reserved :: nat

record memmap =
  memmap_entries :: "memmap_entry list"
  memmap_total_bytes :: u64
  memmap_free_bytes :: u64
  memmap_max_pa :: u64

definition MEMMAP_FREE :: nat where "MEMMAP_FREE = 1"
definition MEMMAP_RESERVED :: nat where "MEMMAP_RESERVED = 2"
definition MEMMAP_ACPI :: nat where "MEMMAP_ACPI = 3"
definition MEMMAP_NVS :: nat where "MEMMAP_NVS = 4"
definition MEMMAP_BADRAM :: nat where "MEMMAP_BADRAM = 5"
definition MEMMAP_MAX_ENTRIES :: nat where "MEMMAP_MAX_ENTRIES = 64"

lemmas memmap_types = MEMMAP_FREE_def MEMMAP_RESERVED_def MEMMAP_ACPI_def MEMMAP_NVS_def
  MEMMAP_BADRAM_def

definition memmap_empty :: memmap where
  "memmap_empty = \<lparr>memmap_entries = [], memmap_total_bytes = 0, memmap_free_bytes = 0,
     memmap_max_pa = 0\<rparr>"

definition memmap_add :: "u64 \<Rightarrow> u64 \<Rightarrow> nat \<Rightarrow> memmap \<Rightarrow> memmap" where
  "memmap_add base len type m =
     (if len = 0 then m
      else if length (memmap_entries m) \<ge> MEMMAP_MAX_ENTRIES then m
      else let e = \<lparr>me_base = base, me_length = len, me_type = type, me_reserved = 0\<rparr>;
               end = add64 base len
           in m\<lparr>memmap_entries := memmap_entries m @ [e],
                memmap_max_pa := (if end > memmap_max_pa m then end else memmap_max_pa m)\<rparr>)"

text \<open>The inner \<open>while\<close> of \<open>memmap_sort\<close>: slide larger entries up until \<open>tmp\<close> fits.\<close>

fun memmap_sort_shift :: "memmap_entry list \<Rightarrow> nat \<Rightarrow> memmap_entry \<Rightarrow> memmap_entry list" where
  "memmap_sort_shift es 0 tmp = es[0 := tmp]"
| "memmap_sort_shift es (Suc j) tmp =
     (if me_base (es ! j) > me_base tmp
      then memmap_sort_shift (es[Suc j := es ! j]) j tmp
      else es[Suc j := tmp])"

definition memmap_sort_entries :: "memmap_entry list \<Rightarrow> memmap_entry list" where
  "memmap_sort_entries es = fold (\<lambda>i es. memmap_sort_shift es i (es ! i)) [1..<length es] es"

definition memmap_sort :: "memmap \<Rightarrow> memmap" where
  "memmap_sort m = m\<lparr>memmap_entries := memmap_sort_entries (memmap_entries m)\<rparr>"

text \<open>The body of the loop of \<open>memmap_recount\<close>, then the loop.\<close>

definition memmap_count_entry :: "memmap_entry \<Rightarrow> memmap \<Rightarrow> memmap" where
  "memmap_count_entry e m =
     (let m' = m\<lparr>memmap_total_bytes := add64 (memmap_total_bytes m) (me_length e)\<rparr>
      in if me_type e = MEMMAP_FREE
         then m'\<lparr>memmap_free_bytes := add64 (memmap_free_bytes m') (me_length e)\<rparr>
         else m')"

definition memmap_recount :: "memmap \<Rightarrow> memmap" where
  "memmap_recount m =
     fold memmap_count_entry (memmap_entries m)
       (m\<lparr>memmap_total_bytes := 0, memmap_free_bytes := 0\<rparr>)"

definition e820_to_local :: "nat \<Rightarrow> nat" where
  "e820_to_local t =
     (if t = 1 then MEMMAP_FREE
      else if t = 2 then MEMMAP_RESERVED
      else if t = 3 then MEMMAP_ACPI
      else if t = 4 then MEMMAP_NVS
      else if t = 5 then MEMMAP_BADRAM
      else MEMMAP_RESERVED)"

definition memmap_type_name :: "nat \<Rightarrow> string" where
  "memmap_type_name t =
     (if t = MEMMAP_FREE then ''free''
      else if t = MEMMAP_RESERVED then ''reserved''
      else if t = MEMMAP_ACPI then ''acpi''
      else if t = MEMMAP_NVS then ''nvs''
      else if t = MEMMAP_BADRAM then ''bad''
      else ''?'')"

section \<open>The parsers\<close>

type_synonym bootmem = "u64 \<Rightarrow> 8 word"

definition rd32 :: "bootmem \<Rightarrow> u64 \<Rightarrow> nat" where
  "rd32 mem a = unat (mem a) + unat (mem (a + 1)) * 2 ^ 8 + unat (mem (a + 2)) * 2 ^ 16
     + unat (mem (a + 3)) * 2 ^ 24"

definition rd64 :: "bootmem \<Rightarrow> u64 \<Rightarrow> nat" where
  "rd64 mem a = rd32 mem a + rd32 mem (a + 4) * 2 ^ 32"

text \<open>
  Multiboot 1: \<open>struct mb1_info\<close> has \<open>mb_flags\<close> at 0, \<open>mb_mem_upper\<close> at 8,
  \<open>mb_mmap_length\<close> at 44 and \<open>mb_mmap_addr\<close> at 48; \<open>struct mb1_mmap_entry\<close> has
  \<open>mme_size\<close> at 0, \<open>mme_base\<close> at 4, \<open>mme_length\<close> at 12, \<open>mme_type\<close> at 20. The
  cursor starts below \<open>2 ^ 32\<close>, ends below \<open>2 ^ 33\<close> and moves by at most \<open>2 ^ 32 + 3\<close>,
  so its additions cannot wrap.
\<close>

function parse_mb1_entries :: "bootmem \<Rightarrow> u64 \<Rightarrow> u64 \<Rightarrow> memmap \<Rightarrow> memmap" where
  "parse_mb1_entries mem cur end m =
     (if cur < end
      then parse_mb1_entries mem (cur + rd32 mem cur + 4) end
             (memmap_add (rd64 mem (cur + 4)) (rd64 mem (cur + 12))
               (e820_to_local (rd32 mem (cur + 20))) m)
      else m)"
  by pat_completeness auto
termination
  by (relation "measure (\<lambda>(mem, cur, end, m). end - cur)") auto

declare parse_mb1_entries.simps [simp del]

definition parse_mb1 :: "bootmem \<Rightarrow> u64 \<Rightarrow> memmap \<Rightarrow> memmap" where
  "parse_mb1 mem info m =
     (if bit (rd32 mem info) 6
      then let addr = rd32 mem (info + 48)
           in parse_mb1_entries mem addr (addr + rd32 mem (info + 44)) m
      else if bit (rd32 mem info) 0
      then memmap_add 0x100000 (rd32 mem (info + 8) * 1024) MEMMAP_FREE
             (memmap_add 0 0x100000 MEMMAP_RESERVED m)
      else m)"

text \<open>
  Multiboot 2: a chain of 8-byte-aligned tags after an 8-byte header. \<open>mt_type\<close> is at 0,
  \<open>mt_size\<close> at 4; a memory-map tag adds \<open>mt_entry_size\<close> at 8 and its entries from 16.
  The next tag is \<open>(mt_size + 7) & ~7\<close> further, in 32-bit arithmetic.
\<close>

definition MB2_TAG_END :: nat where "MB2_TAG_END = 0"
definition MB2_TAG_MMAP :: nat where "MB2_TAG_MMAP = 6"

definition mb2_tag_step :: "nat \<Rightarrow> nat" where
  "mb2_tag_step sz = ((sz + 7) mod 2 ^ 32) div 8 * 8"

primrec parse_mb2_entries :: "nat \<Rightarrow> bootmem \<Rightarrow> u64 \<Rightarrow> nat \<Rightarrow> memmap \<Rightarrow> memmap" where
  "parse_mb2_entries 0 mem e esize m = m"
| "parse_mb2_entries (Suc n) mem e esize m =
     parse_mb2_entries n mem (e + esize) esize
       (memmap_add (rd64 mem e) (rd64 mem (e + 8)) (e820_to_local (rd32 mem (e + 16))) m)"

text \<open>
  The tag walk has no bound of its own: it stops at an END tag, at a memory-map tag with
  \<open>mt_entry_size\<close> 0, or past \<open>mb_total_size\<close>. Fuel counts the tags visited; \<open>None\<close> is a
  walk that has not stopped.
\<close>

primrec parse_mb2_tags :: "nat \<Rightarrow> bootmem \<Rightarrow> u64 \<Rightarrow> u64 \<Rightarrow> memmap \<Rightarrow> memmap option" where
  "parse_mb2_tags 0 mem p end m = None"
| "parse_mb2_tags (Suc fuel) mem p end m =
     (if p + 8 \<le> end
      then let type = rd32 mem p; sz = rd32 mem (p + 4) in
        if type = MB2_TAG_END then Some m
        else if type = MB2_TAG_MMAP
        then let esize = rd32 mem (p + 8) in
          if esize = 0 then Some m
          else parse_mb2_tags fuel mem (p + mb2_tag_step sz) end
                 (parse_mb2_entries (sub64 sz 16 div esize) mem (p + 16) esize m)
        else parse_mb2_tags fuel mem (p + mb2_tag_step sz) end m
      else Some m)"

definition parse_mb2 :: "nat \<Rightarrow> bootmem \<Rightarrow> u64 \<Rightarrow> memmap \<Rightarrow> memmap option" where
  "parse_mb2 fuel mem info m =
     parse_mb2_tags fuel mem (info + 8) (info + rd32 mem info) m"

text \<open>
  PVH: \<open>psi_magic\<close> at 0, \<open>psi_memmap_paddr\<close> at 40, \<open>psi_memmap_entries\<close> at 48; entries of
  24 bytes with \<open>pme_base\<close> at 0, \<open>pme_length\<close> at 8, \<open>pme_type\<close> at 16.
\<close>

definition PVH_START_MAGIC :: nat where "PVH_START_MAGIC = 0x336EC578"

definition parse_pvh :: "bootmem \<Rightarrow> u64 \<Rightarrow> memmap \<Rightarrow> memmap" where
  "parse_pvh mem si m =
     (if rd32 mem si \<noteq> PVH_START_MAGIC then m
      else let e = rd64 mem (si + 40)
           in fold (\<lambda>i. memmap_add (rd64 mem (e + 24 * i)) (rd64 mem (e + 24 * i + 8))
                          (e820_to_local (rd32 mem (e + 24 * i + 16))))
                [0..<rd32 mem (si + 48)] m)"

definition MB1_BOOTLOADER_MAGIC :: nat where "MB1_BOOTLOADER_MAGIC = 0x2BADB002"
definition MB2_BOOTLOADER_MAGIC :: nat where "MB2_BOOTLOADER_MAGIC = 0x36D76289"

definition memmap_finish :: "memmap \<Rightarrow> memmap" where
  "memmap_finish m =
     memmap_recount (memmap_sort
       (if memmap_entries m = []
        then memmap_add 0x100000 0x1F00000 MEMMAP_FREE (memmap_add 0 0x100000 MEMMAP_RESERVED m)
        else m))"

definition memmap_init :: "nat \<Rightarrow> bootmem \<Rightarrow> nat \<Rightarrow> u64 \<Rightarrow> memmap kres option" where
  "memmap_init fuel mem magic info =
     (if magic = MB1_BOOTLOADER_MAGIC
      then Some (Ret (memmap_finish (parse_mb1 mem info memmap_empty)))
      else if magic = MB2_BOOTLOADER_MAGIC
      then map_option (Ret \<circ> memmap_finish) (parse_mb2 fuel mem info memmap_empty)
      else if magic = 0
      then Some (Ret (memmap_finish (parse_pvh mem info memmap_empty)))
      else Some (Panic ''memmap_init: unknown boot magic''))"


section \<open>The insertion sort\<close>

lemma memmap_sort_shift_props:
  assumes "j < length es"
  shows "\<exists>as bs. take j es = as @ bs \<and> (\<forall>b \<in> set bs. me_base tmp < me_base b) \<and>
           (as \<noteq> [] \<longrightarrow> me_base (last as) \<le> me_base tmp) \<and>
           memmap_sort_shift es j tmp = as @ tmp # bs @ drop (Suc j) es"
  using assms
proof (induction es j tmp rule: memmap_sort_shift.induct)
  case (1 es tmp)
  then show ?case
    by (cases es) auto
next
  case (2 es j tmp)
  show ?case
  proof (cases "me_base (es ! j) > me_base tmp")
    case False
    with "2.prems" show ?thesis
      by (intro exI [of _ "take (Suc j) es"] exI [of _ "[]"])
         (auto simp: upd_conv_take_nth_drop take_Suc_conv_app_nth)
  next
    case True
    let ?es = "es[Suc j := es ! j]"
    have "j < length ?es" using "2.prems" by simp
    from "2.IH" [OF True this] obtain as bs where
      t: "take j ?es = as @ bs" and b: "\<forall>b \<in> set bs. me_base tmp < me_base b"
      and a: "as \<noteq> [] \<longrightarrow> me_base (last as) \<le> me_base tmp"
      and r: "memmap_sort_shift ?es j tmp = as @ tmp # bs @ drop (Suc j) ?es" by blast
    have "drop (Suc j) ?es = es ! j # drop (Suc (Suc j)) es"
      using "2.prems" by (subst Cons_nth_drop_Suc [symmetric]) auto
    with t b a r True "2.prems" show ?thesis
      by (intro exI [of _ as] exI [of _ "bs @ [es ! j]"]) (auto simp: take_Suc_conv_app_nth)
  qed
qed


lemma sort_key_snoc:
  assumes sorted: "sort_key f xs = as @ bs"
    and bs: "\<forall>b \<in> set bs. f x < f b" and as: "as \<noteq> [] \<longrightarrow> f (last as) \<le> f x"
  shows "sort_key f (xs @ [x]) = as @ x # bs"
proof (rule properties_for_sort_key)
  have ms: "mset xs = mset as + mset bs"
    using sorted by (metis mset_append mset_sort)
  show "mset (as @ x # bs) = mset (xs @ [x])"
    using ms by simp
  have srt: "sorted (map f (as @ bs))"
    by (simp flip: sorted)
  have as_le: "f a \<le> f x" if "a \<in> set as" for a
  proof -
    from that obtain as' l where snoc: "as = as' @ [l]"
      by (cases as rule: rev_cases) auto
    with srt that have "f a \<le> f (last as)"
      by (auto simp: sorted_append)
    also have "f (last as) \<le> f x" using as that by auto
    finally show ?thesis .
  qed
  show "sorted (map f (as @ x # bs))"
    using srt bs as_le by (fastforce simp: sorted_append)
  show "filter (\<lambda>y. f k = f y) (as @ x # bs) = filter (\<lambda>y. f k = f y) (xs @ [x])" for k
  proof -
    have "filter (\<lambda>y. f k = f y) (as @ bs) = filter (\<lambda>y. f k = f y) xs"
      using sort_key_stable [where f = f and k = "f k"] by (simp add: eq_commute flip: sorted)
    moreover have "f k = f x \<Longrightarrow> filter (\<lambda>y. f k = f y) bs = []"
      using bs by (auto simp: filter_empty_conv)
    ultimately show ?thesis by auto
  qed
qed


lemma memmap_sort_prefix:
  assumes "0 < n" and "n \<le> length es"
  shows "fold (\<lambda>i es. memmap_sort_shift es i (es ! i)) [1..<n] es =
           sort_key me_base (take n es) @ drop n es"
  using assms
proof (induction n)
  case 0
  then show ?case by simp
next
  case (Suc n)
  show ?case
  proof (cases "n = 0")
    case True
    with Suc.prems show ?thesis by (cases es) simp_all
  next
    case False
    define ys where "ys = sort_key me_base (take n es) @ drop n es"
    have IH: "fold (\<lambda>i es. memmap_sort_shift es i (es ! i)) [1..<n] es = ys"
      using Suc False by (simp add: ys_def)
    have len: "length (sort_key me_base (take n es)) = n" and n: "n < length es"
      using Suc.prems by auto
    then have nth: "ys ! n = es ! n" and tk: "take n ys = sort_key me_base (take n es)"
      and dr: "drop (Suc n) ys = drop (Suc n) es" and "n < length ys"
      by (auto simp: ys_def nth_append)
    from memmap_sort_shift_props [OF \<open>n < length ys\<close>, of "es ! n"] obtain as bs where
      t: "take n ys = as @ bs" and b: "\<forall>b \<in> set bs. me_base (es ! n) < me_base b"
      and a: "as \<noteq> [] \<longrightarrow> me_base (last as) \<le> me_base (es ! n)"
      and r: "memmap_sort_shift ys n (es ! n) = as @ es ! n # bs @ drop (Suc n) ys" by blast
    have "sort_key me_base (take n es @ [es ! n]) = as @ es ! n # bs"
      using t tk b a by (intro sort_key_snoc) auto
    then show ?thesis
      using False IH nth r dr n by (simp add: take_Suc_conv_app_nth)
  qed
qed

lemma memmap_sort_entries_sort_key: "memmap_sort_entries es = sort_key me_base es"
proof (cases es)
  case Nil
  then show ?thesis by (simp add: memmap_sort_entries_def)
next
  case Cons
  then show ?thesis
    using memmap_sort_prefix [of "length es" es] by (simp add: memmap_sort_entries_def)
qed


section \<open>The table invariant\<close>

definition memmap_type_ok :: "nat \<Rightarrow> bool" where
  "memmap_type_ok t \<longleftrightarrow> MEMMAP_FREE \<le> t \<and> t \<le> MEMMAP_BADRAM"

definition memmap_wf :: "memmap \<Rightarrow> bool" where
  "memmap_wf m \<longleftrightarrow>
     length (memmap_entries m) \<le> MEMMAP_MAX_ENTRIES \<and>
     (\<forall>e \<in> set (memmap_entries m).
        0 < me_length e \<and> memmap_type_ok (me_type e) \<and> me_reserved e = 0 \<and>
        add64 (me_base e) (me_length e) \<le> memmap_max_pa m)"

lemma e820_to_local_range [simp]: "memmap_type_ok (e820_to_local t)"
  by (auto simp: memmap_type_ok_def e820_to_local_def memmap_types)

lemma memmap_wf_empty [simp]: "memmap_wf memmap_empty"
  by (simp add: memmap_wf_def memmap_empty_def)

lemma memmap_wf_add [simp]:
  "memmap_wf m \<Longrightarrow> memmap_type_ok t \<Longrightarrow> memmap_wf (memmap_add base len t m)"
  by (fastforce simp: memmap_wf_def memmap_add_def Let_def)

lemma memmap_wf_parse_mb1_entries:
  "memmap_wf m \<Longrightarrow> memmap_wf (parse_mb1_entries mem cur end m)"
proof (induction mem cur "end" m rule: parse_mb1_entries.induct)
  case (1 mem cur "end" m)
  then show ?case
    by (cases "cur < end") (simp_all add: parse_mb1_entries.simps [of mem cur "end" m])
qed

lemma memmap_wf_parse_mb1: "memmap_wf m \<Longrightarrow> memmap_wf (parse_mb1 mem info m)"
  by (simp add: parse_mb1_def Let_def memmap_wf_parse_mb1_entries
      memmap_type_ok_def memmap_types)

lemma memmap_wf_parse_mb2_entries:
  "memmap_wf m \<Longrightarrow> memmap_wf (parse_mb2_entries n mem e esize m)"
  by (induction n arbitrary: e m) simp_all

lemma memmap_wf_parse_mb2_tags:
  "memmap_wf m \<Longrightarrow> parse_mb2_tags fuel mem p end m = Some m' \<Longrightarrow> memmap_wf m'"
  by (induction fuel arbitrary: p m)
     (auto simp: Let_def split: if_splits, metis memmap_wf_parse_mb2_entries)

lemma memmap_wf_fold_add:
  "memmap_wf m \<Longrightarrow> memmap_wf (fold (\<lambda>i. memmap_add (f i) (g i) (e820_to_local (h i))) is m)"
  by (induction "is" arbitrary: m) simp_all

lemma memmap_wf_parse_pvh: "memmap_wf m \<Longrightarrow> memmap_wf (parse_pvh mem si m)"
  by (simp add: parse_pvh_def Let_def memmap_wf_fold_add)

section \<open>Counting bytes\<close>

definition entry_bytes :: "memmap_entry list \<Rightarrow> nat" where
  "entry_bytes es = sum_list (map me_length es)"

definition free_entry_bytes :: "memmap_entry list \<Rightarrow> nat" where
  "free_entry_bytes es = entry_bytes (filter (\<lambda>e. me_type e = MEMMAP_FREE) es)"

lemma memmap_count_fold:
  "memmap_entries (fold memmap_count_entry es m) = memmap_entries m"
  "memmap_max_pa (fold memmap_count_entry es m) = memmap_max_pa m"
  "memmap_total_bytes m < 2 ^ 64 \<Longrightarrow>
   memmap_total_bytes (fold memmap_count_entry es m) = (memmap_total_bytes m + entry_bytes es) mod 2 ^ 64"
  "memmap_free_bytes m < 2 ^ 64 \<Longrightarrow>
   memmap_free_bytes (fold memmap_count_entry es m) =
     (memmap_free_bytes m + free_entry_bytes es) mod 2 ^ 64"
  by (induction es arbitrary: m)
     (simp_all add: memmap_count_entry_def Let_def add64_def entry_bytes_def free_entry_bytes_def
        mod_add_left_eq add.assoc)

lemma memmap_recount_simps [simp]:
  "memmap_entries (memmap_recount m) = memmap_entries m"
  "memmap_max_pa (memmap_recount m) = memmap_max_pa m"
  "memmap_total_bytes (memmap_recount m) = entry_bytes (memmap_entries m) mod 2 ^ 64"
  "memmap_free_bytes (memmap_recount m) = free_entry_bytes (memmap_entries m) mod 2 ^ 64"
  by (simp_all add: memmap_recount_def memmap_count_fold)

lemma sort_key_Nil_iff: "sort_key f xs = [] \<longleftrightarrow> xs = []"
  by (metis length_0_conv length_sort)

lemma memmap_sort_simps [simp]:
  "memmap_entries (memmap_sort m) = sort_key me_base (memmap_entries m)"
  "memmap_max_pa (memmap_sort m) = memmap_max_pa m"
  by (simp_all add: memmap_sort_def memmap_sort_entries_sort_key)

lemma memmap_finish_ok:
  assumes "memmap_wf m"
  shows "memmap_wf (memmap_finish m)" and "memmap_entries (memmap_finish m) \<noteq> []"
    and "sorted (map me_base (memmap_entries (memmap_finish m)))"
proof -
  let ?m = "if memmap_entries m = []
      then memmap_add 0x100000 0x1F00000 MEMMAP_FREE (memmap_add 0 0x100000 MEMMAP_RESERVED m) else m"
  have wf: "memmap_wf ?m"
    using assms by (simp add: memmap_type_ok_def memmap_types)
  have ne: "memmap_entries ?m \<noteq> []"
    by (simp add: memmap_add_def MEMMAP_MAX_ENTRIES_def Let_def)
  have eq: "memmap_finish m = memmap_recount (memmap_sort ?m)"
    by (simp only: memmap_finish_def)
  show "memmap_wf (memmap_finish m)"
    using wf unfolding eq memmap_wf_def by simp
  show "memmap_entries (memmap_finish m) \<noteq> []"
    using ne unfolding eq memmap_recount_simps memmap_sort_simps sort_key_Nil_iff .
  show "sorted (map me_base (memmap_entries (memmap_finish m)))"
    unfolding eq by simp
qed

section \<open>When the multiboot2 walk ends\<close>

definition mb2_goes_on :: "bootmem \<Rightarrow> u64 \<Rightarrow> u64 \<Rightarrow> bool" where
  "mb2_goes_on mem end p \<longleftrightarrow> p + 8 \<le> end \<and> rd32 mem p \<noteq> MB2_TAG_END \<and>
     \<not> (rd32 mem p = MB2_TAG_MMAP \<and> rd32 mem (p + 8) = 0)"

abbreviation mb2_next :: "bootmem \<Rightarrow> u64 \<Rightarrow> u64" where
  "mb2_next mem p \<equiv> p + mb2_tag_step (rd32 mem (p + 4))"

inductive mb2_reaches :: "bootmem \<Rightarrow> u64 \<Rightarrow> u64 \<Rightarrow> u64 \<Rightarrow> bool" for mem "end" where
  mb2_here: "mb2_reaches mem end p p"
| mb2_step: "mb2_goes_on mem end p \<Longrightarrow> mb2_reaches mem end (mb2_next mem p) q \<Longrightarrow>
     mb2_reaches mem end p q"

lemma parse_mb2_tags_stop:
  "\<not> mb2_goes_on mem end p \<Longrightarrow> parse_mb2_tags (Suc fuel) mem p end m = Some m"
  by (auto simp: mb2_goes_on_def Let_def)

lemma parse_mb2_tags_go:
  "mb2_goes_on mem end p \<Longrightarrow>
   \<exists>m'. parse_mb2_tags (Suc fuel) mem p end m = parse_mb2_tags fuel mem (mb2_next mem p) end m'"
  by (auto simp: mb2_goes_on_def Let_def)

lemma mb2_stuck_diverges:
  "mb2_goes_on mem end p \<Longrightarrow> mb2_tag_step (rd32 mem (p + 4)) = 0 \<Longrightarrow>
   parse_mb2_tags fuel mem p end m = None"
proof (induction fuel arbitrary: m)
  case (Suc fuel)
  then show ?case
    using parse_mb2_tags_go [OF Suc.prems(1), of fuel m] by auto
qed simp

lemma mb2_reaches_diverges:
  assumes "mb2_reaches mem end p q" and "mb2_goes_on mem end q"
    and "mb2_tag_step (rd32 mem (q + 4)) = 0"
  shows "parse_mb2_tags fuel mem p end m = None"
  using assms
proof (induction arbitrary: fuel m rule: mb2_reaches.induct)
  case (mb2_here p)
  then show ?case by (rule mb2_stuck_diverges)
next
  case (mb2_step p q)
  show ?case
  proof (cases fuel)
    case (Suc fuel')
    then show ?thesis
      using parse_mb2_tags_go [OF mb2_step.hyps(1), of fuel' m] mb2_step by auto
  qed simp
qed

lemma mb2_ends:
  assumes "\<forall>q. mb2_reaches mem end p q \<longrightarrow> mb2_goes_on mem end q \<longrightarrow>
             0 < mb2_tag_step (rd32 mem (q + 4))"
    and "end - p < fuel"
  shows "\<exists>m'. parse_mb2_tags fuel mem p end m = Some m'"
  using assms
proof (induction fuel arbitrary: p m)
  case (Suc fuel)
  show ?case
  proof (cases "mb2_goes_on mem end p")
    case False
    then show ?thesis by (metis parse_mb2_tags_stop)
  next
    case True
    then have pos: "0 < mb2_tag_step (rd32 mem (p + 4))" and lt: "p < end"
      using Suc.prems(1) by (auto simp: mb2_goes_on_def intro: mb2_here)
    obtain m' where eq:
      "parse_mb2_tags (Suc fuel) mem p end m = parse_mb2_tags fuel mem (mb2_next mem p) end m'"
      using parse_mb2_tags_go [OF True] by blast
    have "\<exists>m''. parse_mb2_tags fuel mem (mb2_next mem p) end m' = Some m''"
      using Suc.prems True pos lt by (intro Suc.IH) (auto intro: mb2_step)
    with eq show ?thesis by simp
  qed
qed simp


lemma rd32_bound: "rd32 mem a < 2 ^ 32"
proof -
  have b: "unat w \<le> 255" for w :: "8 word"
    using unsigned_less [where 'a = nat and w = w] by simp
  show ?thesis
    using b [of "mem a"] b [of "mem (a + 1)"] b [of "mem (a + 2)"] b [of "mem (a + 3)"]
    by (simp add: rd32_def)
qed

lemma mb2_tag_step_0_iff:
  assumes "sz < 2 ^ 32"
  shows "mb2_tag_step sz = 0 \<longleftrightarrow> sz = 0 \<or> 2 ^ 32 - 8 < sz"
proof (cases "sz + 7 < 2 ^ 32")
  case True
  then show ?thesis by (auto simp: mb2_tag_step_def div_eq_0_iff)
next
  case False
  then have "(sz + 7) mod 2 ^ 32 = sz + 7 - 2 ^ 32"
    using assms by (simp add: le_mod_geq)
  with False assms show ?thesis by (auto simp: mb2_tag_step_def div_eq_0_iff)
qed

section \<open>What the component promises\<close>

text \<open>
  C16. The in-place insertion sort of \<open>memmap_sort\<close> sorts the table by base address, keeps
  exactly the entries it was given, and is stable: entries with equal bases keep their order.
  Nothing else of the map changes.
\<close>
theorem memmap_sort_stable:
  "sorted (map me_base (memmap_entries (memmap_sort m))) \<and>
   mset (memmap_entries (memmap_sort m)) = mset (memmap_entries m) \<and>
   (\<forall>b. filter (\<lambda>e. me_base e = b) (memmap_entries (memmap_sort m)) =
        filter (\<lambda>e. me_base e = b) (memmap_entries m)) \<and>
   memmap_sort m = m\<lparr>memmap_entries := memmap_entries (memmap_sort m)\<rparr>"
  by (simp add: memmap_sort_def memmap_sort_entries_sort_key sort_key_stable)



text \<open>A PVH boot block at address 0 with two regions listed high to low.\<close>

definition pvh_example :: bootmem where
  "pvh_example = (\<lambda>_. 0)(
      0 := 0x78, 1 := 0xC5, 2 := 0x6E, 3 := 0x33, 40 := 56, 48 := 2,
      58 := 0x10, 66 := 0x70, 72 := 1,
      89 := 0xFC, 90 := 9, 96 := 2)"

lemma pvh_example_parse:
  "parse_pvh pvh_example 0 memmap_empty =
   \<lparr>memmap_entries =
      [\<lparr>me_base = 0x100000, me_length = 0x700000, me_type = 1, me_reserved = 0\<rparr>,
       \<lparr>me_base = 0, me_length = 0x9FC00, me_type = 2, me_reserved = 0\<rparr>],
    memmap_total_bytes = 0, memmap_free_bytes = 0, memmap_max_pa = 0x800000\<rparr>"
  by (simp add: parse_pvh_def rd32_def rd64_def pvh_example_def PVH_START_MAGIC_def memmap_add_def
      memmap_empty_def e820_to_local_def memmap_types MEMMAP_MAX_ENTRIES_def add64_def upt_rec)


text \<open>
  C18. The multiboot2 tag walk returns exactly when no tag it reaches, and has to step over, has
  an \<open>mt_size\<close> of 0 or within 7 of \<open>2 ^ 32\<close>: such a size rounds to an advance of 0 in
  \<open>(mt_size + 7u) & ~7u\<close> and the loop stays on that tag for ever.
\<close>
theorem parse_mb2_returns_iff:
  "(\<exists>fuel m'. parse_mb2 fuel mem info m = Some m') \<longleftrightarrow>
   \<not> (\<exists>q. mb2_reaches mem (info + rd32 mem info) (info + 8) q \<and>
         mb2_goes_on mem (info + rd32 mem info) q \<and>
         (rd32 mem (q + 4) = 0 \<or> 2 ^ 32 - 8 < rd32 mem (q + 4)))"
proof -
  let ?lim = "info + rd32 mem info"
  have step: "mb2_tag_step (rd32 mem a) = 0 \<longleftrightarrow> rd32 mem a = 0 \<or> 2 ^ 32 - 8 < rd32 mem a" for a
    by (rule mb2_tag_step_0_iff [OF rd32_bound])
  show ?thesis
  proof
    assume "\<exists>fuel m'. parse_mb2 fuel mem info m = Some m'"
    then show "\<not> (\<exists>q. mb2_reaches mem ?lim (info + 8) q \<and> mb2_goes_on mem ?lim q \<and>
        (rd32 mem (q + 4) = 0 \<or> 2 ^ 32 - 8 < rd32 mem (q + 4)))"
      unfolding parse_mb2_def step [symmetric] using mb2_reaches_diverges by fastforce
  next
    assume "\<not> (\<exists>q. mb2_reaches mem ?lim (info + 8) q \<and> mb2_goes_on mem ?lim q \<and>
        (rd32 mem (q + 4) = 0 \<or> 2 ^ 32 - 8 < rd32 mem (q + 4)))"
    then have "\<exists>m'. parse_mb2_tags (Suc ?lim) mem (info + 8) ?lim m = Some m'"
      unfolding step [symmetric] by (intro mb2_ends) auto
    then show "\<exists>fuel m'. parse_mb2 fuel mem info m = Some m'"
      unfolding parse_mb2_def by blast
  qed
qed

end
