(* ===== verification/Pmm.thy ===== *)
theory Pmm
  imports Memmap
begin

unbundle bit_operations_syntax

text \<open>
  \<open>vm/pmm.c\<close>: the physical memory manager, a bitmap of 4 KiB frames with a 16-bit owner
  count beside it. All of its state is under \<open>pmm_lock\<close>, so each public call is one step on
  the record \<open>pmm\<close>, whose fields are the static variables of the file
  (\<open>pmm_bitmap_words\<close> is the length of the bitmap).

  A frame number is an index below \<open>pmm_managed_pages\<close>; a physical address is the frame number
  times the page size. Owner counts are 16-bit values kept as numbers below \<open>2 ^ 16\<close>, with the
  truncation of the C cast written out in \<open>ref_set\<close>. The scans of \<open>pmm_alloc_pages\<close>
  compare \<open>start + npages\<close> with the number of frames: the sum is taken without wrap-around,
  which is exact for every \<open>npages\<close> up to \<open>2 ^ 64 - 2 ^ 18\<close>.
\<close>

section \<open>State\<close>

record pmm =
  pmm_bitmap :: "64 word list"
  pmm_managed_pages :: u64
  pmm_managed_pa_end :: u64
  pmm_alloc_hint :: u64
  pmm_used_count :: u64
  pmm_refs :: "nat list"
  pmm_shared_count :: u64
  pmm_n_ref :: u64
  pmm_n_lastref :: u64

definition PMM_HARD_CAP_BYTES :: u64 where "PMM_HARD_CAP_BYTES = 2 ^ 30"

definition page_index :: "u64 \<Rightarrow> u64" where
  "page_index pa = pa div 2 ^ PAGE_SHIFT"

definition pa_from_index :: "u64 \<Rightarrow> u64" where
  "pa_from_index idx = shl64 idx PAGE_SHIFT"

section \<open>Internals\<close>

definition ref_set :: "u64 \<Rightarrow> nat \<Rightarrow> pmm \<Rightarrow> pmm" where
  "ref_set idx v s =
     (let old = pmm_refs s ! idx;
          shared = (if old > 1 \<and> v \<le> 1 then sub64 (pmm_shared_count s) 1
                    else if old \<le> 1 \<and> v > 1 then add64 (pmm_shared_count s) 1
                    else pmm_shared_count s)
      in s\<lparr>pmm_refs := (pmm_refs s)[idx := v mod 2 ^ 16], pmm_shared_count := shared\<rparr>)"

definition mark_used :: "u64 \<Rightarrow> pmm \<Rightarrow> pmm" where
  "mark_used idx s =
     (let w = idx div 64; b = idx mod 64
      in s\<lparr>pmm_bitmap := (pmm_bitmap s)[w := pmm_bitmap s ! w OR push_bit b 1]\<rparr>)"

definition mark_free :: "u64 \<Rightarrow> pmm \<Rightarrow> pmm" where
  "mark_free idx s =
     (let w = idx div 64; b = idx mod 64
      in s\<lparr>pmm_bitmap := (pmm_bitmap s)[w := pmm_bitmap s ! w AND NOT (push_bit b 1)]\<rparr>)"

definition is_used :: "pmm \<Rightarrow> u64 \<Rightarrow> bool" where
  "is_used s idx = (pmm_bitmap s ! (idx div 64) AND push_bit (idx mod 64) 1 \<noteq> 0)"

text \<open>The loop of \<open>mark_range_used\<close>; \<open>pa\<close> stays below the cap, so it cannot wrap.\<close>

function mark_range_loop :: "u64 \<Rightarrow> u64 \<Rightarrow> pmm \<Rightarrow> pmm" where
  "mark_range_loop pa end s =
     (if pa < end
      then mark_range_loop (pa + PAGE_SIZE) end
             (let idx = page_index pa
              in if \<not> is_used s idx
                 then (mark_used idx s)\<lparr>pmm_used_count := add64 (pmm_used_count s) 1\<rparr>
                 else s)
      else s)"
  by pat_completeness auto
termination
  by (relation "measure (\<lambda>(pa, end, s). end - pa)") (auto simp: PAGE_SIZE_eq)

declare mark_range_loop.simps [simp del]

definition mark_range_used :: "u64 \<Rightarrow> u64 \<Rightarrow> pmm \<Rightarrow> pmm" where
  "mark_range_used base len s =
     (if len = 0 then s
      else let start = PA_ROUND_DOWN base; end = PA_ROUND_UP (add64 base len)
           in if start \<ge> pmm_managed_pa_end s then s
              else mark_range_loop start
                     (if end > pmm_managed_pa_end s then pmm_managed_pa_end s else end) s)"

primrec carve_bitmap_storage ::
  "memmap_entry list \<Rightarrow> u64 \<Rightarrow> u64 \<Rightarrow> u64 \<Rightarrow> u64 \<Rightarrow> u64" where
  "carve_bitmap_storage [] kernel_start kernel_end pa_end bytes_needed = PA_INVALID"
| "carve_bitmap_storage (e # es) kernel_start kernel_end pa_end bytes_needed =
     (let next = carve_bitmap_storage es kernel_start kernel_end pa_end bytes_needed in
      if me_type e \<noteq> MEMMAP_FREE then next
      else let kstart = PA_ROUND_DOWN kernel_start; kend = PA_ROUND_UP kernel_end;
               base0 = PA_ROUND_UP (me_base e);
               end0 = PA_ROUND_DOWN (add64 (me_base e) (me_length e));
               base1 = (if base0 < 0x100000 then 0x100000 else base0);
               base = (if base1 < kend \<and> end0 > kstart then kend else base1);
               end = (if end0 > pa_end then pa_end else end0)
           in if base \<ge> end then next
              else if end - base < bytes_needed then next
              else base)"

section \<open>Initialisation\<close>

definition max_free_end :: "memmap_entry list \<Rightarrow> u64" where
  "max_free_end es =
     fold (\<lambda>e acc. if me_type e \<noteq> MEMMAP_FREE then acc
                   else let end = add64 (me_base e) (me_length e) in if end > acc then end else acc)
       es 0"

function free_region_loop :: "u64 \<Rightarrow> u64 \<Rightarrow> pmm \<Rightarrow> pmm" where
  "free_region_loop pa end s =
     (if pa < end
      then free_region_loop (pa + PAGE_SIZE) end
             (let idx = page_index pa
              in if is_used s idx
                 then (mark_free idx s)\<lparr>pmm_used_count := sub64 (pmm_used_count s) 1\<rparr>
                 else s)
      else s)"
  by pat_completeness auto
termination
  by (relation "measure (\<lambda>(pa, end, s). end - pa)") (auto simp: PAGE_SIZE_eq)

declare free_region_loop.simps [simp del]

definition free_region :: "memmap_entry \<Rightarrow> pmm \<Rightarrow> pmm" where
  "free_region e s =
     (if me_type e \<noteq> MEMMAP_FREE then s
      else let base = PA_ROUND_UP (me_base e);
               end0 = PA_ROUND_DOWN (add64 (me_base e) (me_length e));
               end = (if end0 > pmm_managed_pa_end s then pmm_managed_pa_end s else end0)
           in if base \<ge> end then s else free_region_loop base end s)"

definition pmm_init :: "memmap \<Rightarrow> u64 \<Rightarrow> u64 \<Rightarrow> pmm kres" where
  "pmm_init mm kernel_start kernel_end =
     (if memmap_max_pa mm = 0 then Panic ''pmm_init: memmap_init was not called''
      else let max_end = max_free_end (memmap_entries mm) in
      if max_end = 0 then Panic ''pmm_init: no FREE regions in memmap''
      else let
        pa_end = PA_ROUND_UP (if max_end > PMM_HARD_CAP_BYTES then PMM_HARD_CAP_BYTES else max_end);
        pages = pa_end div 2 ^ PAGE_SHIFT;
        words = (pages + 63) div 64;
        bm_bytes = words * 8;
        rc_bytes = pages * 2;
        carve_bytes = PA_ROUND_UP bm_bytes + rc_bytes;
        bm_pa = carve_bitmap_storage (memmap_entries mm) kernel_start kernel_end pa_end carve_bytes
      in if bm_pa = PA_INVALID then Panic ''pmm_init: no usable region big enough''
      else let
        s0 = \<lparr>pmm_bitmap = replicate words (NOT 0), pmm_managed_pages = pages,
              pmm_managed_pa_end = pa_end, pmm_alloc_hint = 0, pmm_used_count = pages,
              pmm_refs = replicate pages 0, pmm_shared_count = 0, pmm_n_ref = 0,
              pmm_n_lastref = 0\<rparr>;
        s1 = fold free_region (memmap_entries mm) s0;
        s2 = mark_range_used 0 0x100000 s1;
        kstart = PA_ROUND_DOWN kernel_start;
        kend = PA_ROUND_UP kernel_end;
        s3 = mark_range_used kstart (sub64 kend kstart) s2;
        s4 = mark_range_used bm_pa carve_bytes s3
      in Ret (s4\<lparr>pmm_alloc_hint := 0\<rparr>))"

section \<open>Allocation\<close>

function alloc_page_scan :: "pmm \<Rightarrow> u64 \<Rightarrow> u64 \<Rightarrow> u64 option" where
  "alloc_page_scan s start i =
     (if i < pmm_managed_pages s
      then let idx0 = add64 start i;
               idx = (if idx0 \<ge> pmm_managed_pages s then sub64 idx0 (pmm_managed_pages s) else idx0)
           in if \<not> is_used s idx then Some idx else alloc_page_scan s start (Suc i)
      else None)"
  by pat_completeness auto
termination
  by (relation "measure (\<lambda>(s, start, i). pmm_managed_pages s - i)") auto

declare alloc_page_scan.simps [simp del]

definition pmm_alloc_page :: "pmm \<Rightarrow> pmm \<times> u64" where
  "pmm_alloc_page s =
     (case alloc_page_scan s (pmm_alloc_hint s) 0 of
        None \<Rightarrow> (s, PA_INVALID)
      | Some idx \<Rightarrow>
          let s1 = ref_set idx 1 (mark_used idx s);
              hint = add64 idx 1
          in (s1\<lparr>pmm_used_count := add64 (pmm_used_count s1) 1,
                 pmm_alloc_hint := (if hint \<ge> pmm_managed_pages s then 0 else hint)\<rparr>,
              pa_from_index idx))"

function free_run :: "pmm \<Rightarrow> u64 \<Rightarrow> nat \<Rightarrow> nat \<Rightarrow> nat" where
  "free_run s start npages run =
     (if run < npages \<and> \<not> is_used s (start + run) then free_run s start npages (Suc run) else run)"
  by pat_completeness auto
termination
  by (relation "measure (\<lambda>(s, start, npages, run). npages - run)") auto

declare free_run.simps [simp del]

function alloc_run_scan :: "pmm \<Rightarrow> nat \<Rightarrow> u64 \<Rightarrow> u64 \<Rightarrow> u64 option" where
  "alloc_run_scan s npages limit start =
     (if start + npages \<le> limit
      then let run = free_run s start npages 0
           in if run = npages then Some start
              else alloc_run_scan s npages limit (start + run + 1)
      else None)"
  by pat_completeness auto
termination
  by (relation "measure (\<lambda>(s, npages, limit, start). Suc limit - start)") auto

declare alloc_run_scan.simps [simp del]

text \<open>What both scan loops do with a run they found.\<close>

definition claim_run :: "u64 \<Rightarrow> nat \<Rightarrow> pmm \<Rightarrow> pmm" where
  "claim_run start npages s =
     (let s1 = fold (\<lambda>j s. ref_set (start + j) 1 (mark_used (start + j) s)) [0..<npages] s
      in s1\<lparr>pmm_used_count := add64 (pmm_used_count s1) npages,
            pmm_alloc_hint := start + npages\<rparr>)"

definition pmm_alloc_pages :: "pmm \<Rightarrow> nat \<Rightarrow> pmm \<times> u64" where
  "pmm_alloc_pages s npages =
     (if npages = 0 then (s, PA_INVALID)
      else if npages = 1 then pmm_alloc_page s
      else case alloc_run_scan s npages (pmm_managed_pages s) (pmm_alloc_hint s) of
        Some start \<Rightarrow> (claim_run start npages s, pa_from_index start)
      | None \<Rightarrow>
         (case alloc_run_scan s npages (pmm_alloc_hint s) 0 of
            Some start \<Rightarrow> (claim_run start npages s, pa_from_index start)
          | None \<Rightarrow> (s, PA_INVALID)))"

section \<open>Release and sharing\<close>

definition pmm_free_page :: "u64 \<Rightarrow> pmm \<Rightarrow> pmm kres" where
  "pmm_free_page pa s =
     KASSERT (page_aligned pa) ''pmm_free_page: unaligned PA''
     (KASSERT (pa < pmm_managed_pa_end s) ''pmm_free_page: PA out of range''
     (let idx = page_index pa in
      KASSERT (is_used s idx) ''pmm_free_page: double-free''
      (KASSERT (pmm_refs s ! idx \<noteq> 0) ''pmm_free_page: frame was reserved, not allocated''
      (let s1 = ref_set idx (pmm_refs s ! idx - 1) s in
       if pmm_refs s1 ! idx \<noteq> 0 then Ret s1
       else let s2 = mark_free idx (s1\<lparr>pmm_n_lastref := add64 (pmm_n_lastref s1) 1\<rparr>)
            in Ret (s2\<lparr>pmm_used_count := sub64 (pmm_used_count s2) 1,
                       pmm_alloc_hint := (if idx < pmm_alloc_hint s2 then idx
                                          else pmm_alloc_hint s2)\<rparr>)))))"

primrec free_pages_loop :: "u64 list \<Rightarrow> pmm \<Rightarrow> pmm kres" where
  "free_pages_loop [] s = Ret s"
| "free_pages_loop (idx # is) s =
     KASSERT (idx < pmm_managed_pages s) ''pmm_free_pages: range overruns managed area''
     (KASSERT (is_used s idx) ''pmm_free_pages: double-free''
     (KASSERT (pmm_refs s ! idx = 1) ''pmm_free_pages: frame inside a run has other owners''
     (free_pages_loop is (mark_free idx (ref_set idx 0 s)))))"

definition pmm_free_pages :: "u64 \<Rightarrow> nat \<Rightarrow> pmm \<Rightarrow> pmm kres" where
  "pmm_free_pages pa npages s =
     KASSERT (page_aligned pa) ''pmm_free_pages: unaligned PA''
     (kbind (free_pages_loop (map (\<lambda>j. page_index pa + j) [0..<npages]) s)
       (\<lambda>s1. Ret (s1\<lparr>pmm_used_count := sub64 (pmm_used_count s1) npages,
                     pmm_n_lastref := add64 (pmm_n_lastref s1) npages,
                     pmm_alloc_hint := (if page_index pa < pmm_alloc_hint s1 then page_index pa
                                        else pmm_alloc_hint s1)\<rparr>)))"

definition pmm_page_ref :: "u64 \<Rightarrow> pmm \<Rightarrow> pmm kres" where
  "pmm_page_ref pa s =
     KASSERT (page_aligned pa) ''pmm_page_ref: unaligned PA''
     (KASSERT (pa < pmm_managed_pa_end s) ''pmm_page_ref: PA out of range''
     (let idx = page_index pa in
      KASSERT (is_used s idx \<and> pmm_refs s ! idx \<noteq> 0) ''pmm_page_ref: frame is not allocated''
      (KASSERT (pmm_refs s ! idx \<noteq> 0xFFFF) ''pmm_page_ref: owner count would wrap''
      (let s1 = ref_set idx (pmm_refs s ! idx + 1) s
       in Ret (s1\<lparr>pmm_n_ref := add64 (pmm_n_ref s1) 1\<rparr>)))))"

definition pmm_page_refs :: "u64 \<Rightarrow> pmm \<Rightarrow> nat" where
  "pmm_page_refs pa s =
     (if \<not> page_aligned pa \<or> pa \<ge> pmm_managed_pa_end s then 0 else pmm_refs s ! page_index pa)"

definition pmm_shared_pages :: "pmm \<Rightarrow> nat" where
  "pmm_shared_pages s = pmm_shared_count s"

definition pmm_reserve :: "u64 \<Rightarrow> u64 \<Rightarrow> pmm \<Rightarrow> pmm" where
  "pmm_reserve base len s = mark_range_used base len s"

definition pmm_total_pages :: "pmm \<Rightarrow> nat" where
  "pmm_total_pages s = pmm_managed_pages s"

definition pmm_free_pages_count :: "pmm \<Rightarrow> nat" where
  "pmm_free_pages_count s = sub64 (pmm_managed_pages s) (pmm_used_count s)"

definition pmm_used_pages :: "pmm \<Rightarrow> nat" where
  "pmm_used_pages s = pmm_used_count s"

section \<open>Bitmap facts\<close>

named_theorems pmm_simps \<open>effect of the frame operations on the fields of the state\<close>

lemma is_used_bit: "is_used s idx \<longleftrightarrow> bit (pmm_bitmap s ! (idx div 64)) (idx mod 64)"
  by (simp add: is_used_def bit_iff_and_push_bit_not_eq_0)

definition bitmap_covers :: "pmm \<Rightarrow> bool" where
  "bitmap_covers s \<longleftrightarrow> pmm_managed_pages s \<le> 64 * length (pmm_bitmap s)"

lemma bitmap_covers_index:
  "bitmap_covers s \<Longrightarrow> idx < pmm_managed_pages s \<Longrightarrow> idx div 64 < length (pmm_bitmap s)"
  by (simp add: bitmap_covers_def less_mult_imp_div_less mult.commute)

lemma bit_set_bit: "bit (w OR 2 ^ b :: 64 word) n \<longleftrightarrow> bit w n \<or> n = b \<and> b < 64"
  by (auto simp: bit_or_iff bit_exp_iff)

lemma bit_clear_bit: "bit (w AND NOT (2 ^ b) :: 64 word) n \<longleftrightarrow> bit w n \<and> n \<noteq> b"
  by (auto simp: bit_and_iff bit_not_iff bit_exp_iff dest: bit_imp_possible_bit)

lemma div_mod_64_eq: "(i::nat) div 64 = j div 64 \<and> i mod 64 = j mod 64 \<longleftrightarrow> i = j"
  by (metis div_mult_mod_eq)

lemma is_used_mark_used:
  assumes "bitmap_covers s" and "idx < pmm_managed_pages s"
  shows "is_used (mark_used idx s) i \<longleftrightarrow> is_used s i \<or> i = idx"
  using bitmap_covers_index [OF assms] div_mod_64_eq [of i idx]
  by (auto simp: is_used_bit mark_used_def Let_def nth_list_update bit_set_bit)

lemma is_used_mark_free:
  assumes "bitmap_covers s" and "idx < pmm_managed_pages s"
  shows "is_used (mark_free idx s) i \<longleftrightarrow> is_used s i \<and> i \<noteq> idx"
  using bitmap_covers_index [OF assms] div_mod_64_eq [of i idx]
  by (auto simp: is_used_bit mark_free_def Let_def nth_list_update bit_clear_bit)

lemma is_used_cong: "pmm_bitmap s = pmm_bitmap t \<Longrightarrow> is_used s = is_used t"
  by (simp add: is_used_def fun_eq_iff)

lemma mark_used_fields [simp]:
  "pmm_managed_pages (mark_used idx s) = pmm_managed_pages s"
  "pmm_managed_pa_end (mark_used idx s) = pmm_managed_pa_end s"
  "pmm_alloc_hint (mark_used idx s) = pmm_alloc_hint s"
  "pmm_used_count (mark_used idx s) = pmm_used_count s"
  "pmm_refs (mark_used idx s) = pmm_refs s"
  "pmm_shared_count (mark_used idx s) = pmm_shared_count s"
  "length (pmm_bitmap (mark_used idx s)) = length (pmm_bitmap s)"
  by (simp_all add: mark_used_def Let_def)

lemma mark_free_fields [simp]:
  "pmm_managed_pages (mark_free idx s) = pmm_managed_pages s"
  "pmm_managed_pa_end (mark_free idx s) = pmm_managed_pa_end s"
  "pmm_alloc_hint (mark_free idx s) = pmm_alloc_hint s"
  "pmm_used_count (mark_free idx s) = pmm_used_count s"
  "pmm_refs (mark_free idx s) = pmm_refs s"
  "pmm_shared_count (mark_free idx s) = pmm_shared_count s"
  "length (pmm_bitmap (mark_free idx s)) = length (pmm_bitmap s)"
  by (simp_all add: mark_free_def Let_def)

lemma ref_set_fields [simp]:
  "pmm_managed_pages (ref_set idx v s) = pmm_managed_pages s"
  "pmm_managed_pa_end (ref_set idx v s) = pmm_managed_pa_end s"
  "pmm_alloc_hint (ref_set idx v s) = pmm_alloc_hint s"
  "pmm_used_count (ref_set idx v s) = pmm_used_count s"
  "pmm_bitmap (ref_set idx v s) = pmm_bitmap s"
  "pmm_refs (ref_set idx v s) = (pmm_refs s)[idx := v mod 2 ^ 16]"
  by (simp_all add: ref_set_def Let_def)

lemma is_used_ref_set [simp]: "is_used (ref_set idx v s) i = is_used s i"
  by (simp add: is_used_def)

lemma is_used_fields [simp]:
  "is_used (s\<lparr>pmm_used_count := a\<rparr>) i = is_used s i"
  "is_used (s\<lparr>pmm_alloc_hint := b\<rparr>) i = is_used s i"
  "is_used (s\<lparr>pmm_n_ref := c\<rparr>) i = is_used s i"
  "is_used (s\<lparr>pmm_n_lastref := d\<rparr>) i = is_used s i"
  by (simp_all add: is_used_def)

lemma bitmap_covers_ops [simp]:
  "bitmap_covers (mark_used idx s) = bitmap_covers s"
  "bitmap_covers (mark_free idx s) = bitmap_covers s"
  "bitmap_covers (ref_set idx v s) = bitmap_covers s"
  "bitmap_covers (s\<lparr>pmm_used_count := a\<rparr>) = bitmap_covers s"
  "bitmap_covers (s\<lparr>pmm_alloc_hint := b\<rparr>) = bitmap_covers s"
  "bitmap_covers (s\<lparr>pmm_n_ref := c\<rparr>) = bitmap_covers s"
  "bitmap_covers (s\<lparr>pmm_n_lastref := d\<rparr>) = bitmap_covers s"
  by (simp_all add: bitmap_covers_def)

section \<open>The invariant\<close>

definition used_frames :: "pmm \<Rightarrow> nat set" where
  "used_frames s = {i. i < pmm_managed_pages s \<and> is_used s i}"

definition shared_frames :: "pmm \<Rightarrow> nat set" where
  "shared_frames s = {i. i < pmm_managed_pages s \<and> 1 < pmm_refs s ! i}"

definition pmm_shape :: "pmm \<Rightarrow> bool" where
  "pmm_shape s \<longleftrightarrow>
     bitmap_covers s \<and> length (pmm_refs s) = pmm_managed_pages s \<and>
     pmm_managed_pa_end s = pmm_managed_pages s * PAGE_SIZE \<and>
     0 < pmm_managed_pages s \<and> pmm_managed_pages s \<le> 2 ^ 18 \<and>
     pmm_alloc_hint s \<le> pmm_managed_pages s"

text \<open>
  \<open>pmm_core\<close> is everything but the used count, which the run operations bring up to date only
  once at their end.
\<close>

definition pmm_core :: "pmm \<Rightarrow> bool" where
  "pmm_core s \<longleftrightarrow>
     pmm_shape s \<and>
     pmm_shared_count s = card (shared_frames s) \<and>
     (\<forall>i < pmm_managed_pages s. pmm_refs s ! i < 2 ^ 16) \<and>
     (\<forall>i < pmm_managed_pages s. pmm_refs s ! i \<noteq> 0 \<longrightarrow> is_used s i) \<and>
     is_used s 0 \<and> pmm_refs s ! 0 = 0"

definition pmm_inv :: "pmm \<Rightarrow> bool" where
  "pmm_inv s \<longleftrightarrow> pmm_core s \<and> pmm_used_count s = card (used_frames s)"

section \<open>Frames, abstractly\<close>

datatype frame = Free | Reserved | Owned nat

definition frame_of :: "pmm \<Rightarrow> nat \<Rightarrow> frame" where
  "frame_of s i =
     (if i < pmm_managed_pages s \<and> \<not> is_used s i then Free
      else if i < pmm_managed_pages s \<and> pmm_refs s ! i \<noteq> 0 then Owned (pmm_refs s ! i)
      else Reserved)"

section \<open>One frame at a time\<close>

lemma frames_finite [simp]: "finite (used_frames s)" "finite (shared_frames s)"
  by (simp_all add: used_frames_def shared_frames_def)

lemma card_frames_le:
  "card (used_frames s) \<le> pmm_managed_pages s" "card (shared_frames s) \<le> pmm_managed_pages s"
  using card_mono [of "{..<pmm_managed_pages s}" "used_frames s"]
    card_mono [of "{..<pmm_managed_pages s}" "shared_frames s"]
  by (auto simp: used_frames_def shared_frames_def)

lemma used_frames_fields [simp]:
  "used_frames (s\<lparr>pmm_used_count := a\<rparr>) = used_frames s"
  "used_frames (s\<lparr>pmm_alloc_hint := b\<rparr>) = used_frames s"
  "used_frames (s\<lparr>pmm_n_ref := c\<rparr>) = used_frames s"
  "used_frames (s\<lparr>pmm_n_lastref := d\<rparr>) = used_frames s"
  "used_frames (ref_set idx v s) = used_frames s"
  by (simp_all add: used_frames_def)

lemma shared_frames_fields [simp]:
  "shared_frames (s\<lparr>pmm_used_count := a\<rparr>) = shared_frames s"
  "shared_frames (s\<lparr>pmm_alloc_hint := b\<rparr>) = shared_frames s"
  "shared_frames (s\<lparr>pmm_n_ref := c\<rparr>) = shared_frames s"
  "shared_frames (s\<lparr>pmm_n_lastref := d\<rparr>) = shared_frames s"
  "shared_frames (mark_used idx s) = shared_frames s"
  "shared_frames (mark_free idx s) = shared_frames s"
  by (simp_all add: shared_frames_def)

lemma frame_of_fields [simp]:
  "frame_of (s\<lparr>pmm_used_count := a\<rparr>) = frame_of s"
  "frame_of (s\<lparr>pmm_alloc_hint := b\<rparr>) = frame_of s"
  "frame_of (s\<lparr>pmm_n_ref := c\<rparr>) = frame_of s"
  "frame_of (s\<lparr>pmm_n_lastref := d\<rparr>) = frame_of s"
  by (simp_all add: frame_of_def fun_eq_iff)

lemma pmm_shape_fields [simp]:
  "pmm_shape (s\<lparr>pmm_used_count := a\<rparr>) = pmm_shape s"
  "pmm_shape (s\<lparr>pmm_n_ref := c\<rparr>) = pmm_shape s"
  "pmm_shape (s\<lparr>pmm_n_lastref := d\<rparr>) = pmm_shape s"
  "pmm_shape (mark_used idx s) = pmm_shape s"
  "pmm_shape (mark_free idx s) = pmm_shape s"
  "pmm_shape (ref_set idx v s) = pmm_shape s"
  "pmm_shape s \<Longrightarrow> pmm_shape (s\<lparr>pmm_alloc_hint := b\<rparr>) = (b \<le> pmm_managed_pages s)"
  by (simp_all add: pmm_shape_def)

lemma pmm_core_fields [simp]:
  "pmm_core (s\<lparr>pmm_used_count := a\<rparr>) = pmm_core s"
  "pmm_core (s\<lparr>pmm_n_ref := c\<rparr>) = pmm_core s"
  "pmm_core (s\<lparr>pmm_n_lastref := d\<rparr>) = pmm_core s"
  "pmm_core s \<Longrightarrow> pmm_core (s\<lparr>pmm_alloc_hint := b\<rparr>) = (b \<le> pmm_managed_pages s)"
  by (simp_all add: pmm_core_def)

lemma pmm_coreD:
  assumes "pmm_core s"
  shows "bitmap_covers s" "length (pmm_refs s) = pmm_managed_pages s"
    "pmm_managed_pa_end s = pmm_managed_pages s * PAGE_SIZE"
    "0 < pmm_managed_pages s" "pmm_managed_pages s \<le> 2 ^ 18"
    "pmm_alloc_hint s \<le> pmm_managed_pages s"
    "pmm_shared_count s = card (shared_frames s)"
    "i < pmm_managed_pages s \<Longrightarrow> pmm_refs s ! i < 2 ^ 16"
    "i < pmm_managed_pages s \<Longrightarrow> pmm_refs s ! i \<noteq> 0 \<Longrightarrow> is_used s i"
    "is_used s 0" "pmm_refs s ! 0 = 0"
  using assms by (auto simp: pmm_core_def pmm_shape_def)

lemma used_frames_mark_used:
  "pmm_core s \<Longrightarrow> idx < pmm_managed_pages s \<Longrightarrow>
   used_frames (mark_used idx s) = insert idx (used_frames s)"
  by (auto simp: used_frames_def is_used_mark_used pmm_coreD)

lemma used_frames_mark_free:
  "pmm_core s \<Longrightarrow> idx < pmm_managed_pages s \<Longrightarrow>
   used_frames (mark_free idx s) = used_frames s - {idx}"
  by (auto simp: used_frames_def is_used_mark_free pmm_coreD)

lemma shared_frames_ref_set:
  "pmm_core s \<Longrightarrow> idx < pmm_managed_pages s \<Longrightarrow> v < 2 ^ 16 \<Longrightarrow>
   shared_frames (ref_set idx v s) =
     (if 1 < v then insert idx (shared_frames s) else shared_frames s - {idx})"
  by (auto simp: shared_frames_def pmm_coreD nth_list_update split: if_splits)

lemma ref_set_shared_count:
  assumes "pmm_core s" and idx: "idx < pmm_managed_pages s" and "v < 2 ^ 16"
  shows "pmm_shared_count (ref_set idx v s) = card (shared_frames (ref_set idx v s))"
proof -
  have cnt: "pmm_shared_count s = card (shared_frames s)" and le: "card (shared_frames s) \<le> 2 ^ 18"
    using assms card_frames_le(2) [of s] pmm_coreD [OF assms(1)] by auto
  have mem: "idx \<in> shared_frames s \<longleftrightarrow> 1 < pmm_refs s ! idx"
    using idx by (simp add: shared_frames_def)
  have "0 < card (shared_frames s)" if "1 < pmm_refs s ! idx"
    using that mem by (auto simp: card_gt_0_iff)
  then have "pmm_shared_count (ref_set idx v s) =
      card (if 1 < v then insert idx (shared_frames s) else shared_frames s - {idx})"
    using assms mem cnt le
    by (auto simp: ref_set_def Let_def add64_small sub64_small
        card_insert_if card_Diff_singleton_if)
  then show ?thesis
    using assms by (simp only: shared_frames_ref_set)
qed

lemma frame_of_Owned_iff:
  "pmm_core s \<Longrightarrow> frame_of s i = Owned n \<longleftrightarrow>
   i < pmm_managed_pages s \<and> is_used s i \<and> pmm_refs s ! i = n \<and> n \<noteq> 0"
  by (auto simp: frame_of_def pmm_coreD)

lemma frame_of_Free_iff:
  "frame_of s i = Free \<longleftrightarrow> i < pmm_managed_pages s \<and> \<not> is_used s i"
  by (auto simp: frame_of_def)

lemma frame_of_mark_used:
  "pmm_core s \<Longrightarrow> idx < pmm_managed_pages s \<Longrightarrow> \<not> is_used s idx \<Longrightarrow>
   frame_of (mark_used idx s) = (frame_of s)(idx := Reserved)"
  by (auto simp: frame_of_def fun_eq_iff is_used_mark_used pmm_coreD)

lemma frame_of_take:
  "pmm_core s \<Longrightarrow> idx < pmm_managed_pages s \<Longrightarrow> 0 < v \<Longrightarrow> v < 2 ^ 16 \<Longrightarrow>
   frame_of (ref_set idx v (mark_used idx s)) = (frame_of s)(idx := Owned v)"
  by (auto simp: frame_of_def fun_eq_iff is_used_mark_used pmm_coreD nth_list_update)

lemma frame_of_ref_set:
  "pmm_core s \<Longrightarrow> idx < pmm_managed_pages s \<Longrightarrow> is_used s idx \<Longrightarrow> 0 < v \<Longrightarrow> v < 2 ^ 16 \<Longrightarrow>
   frame_of (ref_set idx v s) = (frame_of s)(idx := Owned v)"
  by (auto simp: frame_of_def fun_eq_iff pmm_coreD nth_list_update)

lemma frame_of_drop:
  "pmm_core s \<Longrightarrow> idx < pmm_managed_pages s \<Longrightarrow>
   frame_of (mark_free idx (ref_set idx 0 s)) = (frame_of s)(idx := Free)"
  by (auto simp: frame_of_def fun_eq_iff is_used_mark_free bitmap_covers_ops pmm_coreD nth_list_update)

lemma pmm_core_mark_used:
  "pmm_core s \<Longrightarrow> idx < pmm_managed_pages s \<Longrightarrow> pmm_core (mark_used idx s)"
  by (auto simp: pmm_core_def pmm_shape_def is_used_mark_used)

lemma pmm_core_ref_set:
  "pmm_core s \<Longrightarrow> 0 < idx \<Longrightarrow> idx < pmm_managed_pages s \<Longrightarrow> is_used s idx \<Longrightarrow> v < 2 ^ 16 \<Longrightarrow>
   pmm_core (ref_set idx v s)"
  using ref_set_shared_count [of s idx v]
  by (auto simp: pmm_core_def nth_list_update pmm_shape_def)

lemma pmm_core_drop:
  assumes "pmm_core s" "0 < idx" "idx < pmm_managed_pages s" "pmm_refs s ! idx = 0"
  shows "pmm_core (mark_free idx s)"
  using assms
  by (auto simp: pmm_core_def pmm_shape_def is_used_mark_free)

section \<open>Addresses and frame numbers\<close>

lemma pa_from_index_small: "idx < 2 ^ 18 \<Longrightarrow> pa_from_index idx = idx * PAGE_SIZE"
  by (simp add: pa_from_index_def PAGE_SIZE_def PAGE_SHIFT_def shl64_small)

lemma page_index_pa_from_index [simp]: "idx < 2 ^ 18 \<Longrightarrow> page_index (pa_from_index idx) = idx"
  by (simp add: pa_from_index_small page_index_def PAGE_SIZE_def)

lemma pa_from_index_aligned [simp]: "idx < 2 ^ 18 \<Longrightarrow> page_aligned (pa_from_index idx)"
  by (simp add: pa_from_index_small page_aligned_def)

lemma pa_from_index_valid [simp]: "0 < idx \<Longrightarrow> idx < 2 ^ 18 \<Longrightarrow> pa_from_index idx \<noteq> PA_INVALID"
  by (simp add: pa_from_index_small PA_INVALID_def PAGE_SIZE_eq)

lemma page_index_bound:
  "pmm_core s \<Longrightarrow> pa < pmm_managed_pa_end s \<Longrightarrow> page_index pa < pmm_managed_pages s"
  by (simp add: pmm_coreD page_index_def PAGE_SIZE_def less_mult_imp_div_less)

lemma page_index_in_range:
  assumes "pmm_core s" "page_aligned pa"
  shows "pa < pmm_managed_pa_end s \<longleftrightarrow> page_index pa < pmm_managed_pages s"
proof
  assume "page_index pa < pmm_managed_pages s"
  moreover have "pa = page_index pa * PAGE_SIZE"
    using assms(2) by (auto simp: page_aligned_def page_index_def PAGE_SIZE_def)
  ultimately show "pa < pmm_managed_pa_end s"
    using assms(1) PAGE_SIZE_pos by (metis mult_less_mono1 pmm_coreD(3))
qed (rule page_index_bound [OF assms(1)])

lemma page_index_inj:
  "page_aligned a \<Longrightarrow> page_aligned b \<Longrightarrow> page_index a = page_index b \<Longrightarrow> a = b"
  by (auto simp: page_aligned_def page_index_def PAGE_SIZE_def)

section \<open>Single-page allocation\<close>

definition scan_index :: "pmm \<Rightarrow> nat \<Rightarrow> nat \<Rightarrow> nat" where
  "scan_index s start i =
     (if start + i \<ge> pmm_managed_pages s then start + i - pmm_managed_pages s else start + i)"

lemma scan_index_bound:
  "start \<le> pmm_managed_pages s \<Longrightarrow> i < pmm_managed_pages s \<Longrightarrow>
   scan_index s start i < pmm_managed_pages s"
  by (auto simp: scan_index_def)

lemma scan_index_onto:
  "start \<le> pmm_managed_pages s \<Longrightarrow> idx < pmm_managed_pages s \<Longrightarrow>
   \<exists>i < pmm_managed_pages s. scan_index s start i = idx"
  by (rule exI [of _ "if start \<le> idx then idx - start else idx + pmm_managed_pages s - start"])
    (auto simp: scan_index_def)

lemma alloc_page_scan_step:
  assumes "pmm_managed_pages s \<le> 2 ^ 18" "start \<le> pmm_managed_pages s"
  shows "alloc_page_scan s start i =
     (if i < pmm_managed_pages s
      then if \<not> is_used s (scan_index s start i) then Some (scan_index s start i)
           else alloc_page_scan s start (Suc i)
      else None)"
  using assms
  by (subst alloc_page_scan.simps) (simp add: Let_def scan_index_def add64_small sub64_small)

lemma alloc_page_scan_Some:
  "alloc_page_scan s start i = Some idx \<Longrightarrow> start \<le> pmm_managed_pages s \<Longrightarrow>
   pmm_managed_pages s \<le> 2 ^ 18 \<Longrightarrow> idx < pmm_managed_pages s \<and> \<not> is_used s idx"
proof (induction "pmm_managed_pages s - i" arbitrary: i)
  case 0
  then show ?case by (simp add: alloc_page_scan_step [of s start i])
next
  case (Suc n)
  have "n = pmm_managed_pages s - Suc i" using Suc.hyps(2) by simp
  then show ?case
    using Suc.hyps(1) [of "Suc i"] Suc.prems
    by (auto simp: alloc_page_scan_step [of s start i] scan_index_bound split: if_splits)
qed

lemma alloc_page_scan_None:
  "alloc_page_scan s start i = None \<Longrightarrow> start \<le> pmm_managed_pages s \<Longrightarrow>
   pmm_managed_pages s \<le> 2 ^ 18 \<Longrightarrow> i \<le> j \<Longrightarrow> j < pmm_managed_pages s \<Longrightarrow>
   is_used s (scan_index s start j)"
proof (induction "pmm_managed_pages s - i" arbitrary: i)
  case (Suc n)
  then have "n = pmm_managed_pages s - Suc i" "alloc_page_scan s start (Suc i) = None"
    "is_used s (scan_index s start i)"
    by (auto simp: alloc_page_scan_step [of s start i] split: if_splits)
  then show ?case
    using Suc.hyps(1) [of "Suc i"] Suc.prems by (cases "i = j") auto
qed simp

lemma alloc_page_scan_None_iff:
  assumes "pmm_core s"
  shows "alloc_page_scan s (pmm_alloc_hint s) 0 = None \<longleftrightarrow> (\<forall>i < pmm_managed_pages s. is_used s i)"
proof
  assume none: "alloc_page_scan s (pmm_alloc_hint s) 0 = None"
  show "\<forall>i < pmm_managed_pages s. is_used s i"
    using scan_index_onto [of "pmm_alloc_hint s" s] alloc_page_scan_None [OF none] pmm_coreD [OF assms]
    by fastforce
next
  assume "\<forall>i < pmm_managed_pages s. is_used s i"
  then show "alloc_page_scan s (pmm_alloc_hint s) 0 = None"
    using alloc_page_scan_Some [of s "pmm_alloc_hint s" 0] pmm_coreD [OF assms]
    by (cases "alloc_page_scan s (pmm_alloc_hint s) 0") auto
qed

lemma pmm_alloc_page_cases:
  assumes inv: "pmm_inv s" and alloc: "pmm_alloc_page s = (s', pa)"
  obtains (none) "pa = PA_INVALID" "s' = s" "\<forall>i. frame_of s i \<noteq> Free"
  | (some) idx where "pa = pa_from_index idx" "frame_of s idx = Free" "0 < idx" "idx < pmm_managed_pages s"
      "frame_of s' = (frame_of s)(idx := Owned 1)" "pmm_inv s'"
      "pmm_managed_pages s' = pmm_managed_pages s"
proof (cases "alloc_page_scan s (pmm_alloc_hint s) 0")
  case None
  then show ?thesis
    using alloc alloc_page_scan_None_iff [of s] inv
    by (intro none) (auto simp: pmm_alloc_page_def pmm_inv_def frame_of_Free_iff)
next
  case (Some idx)
  have core: "pmm_core s" using inv by (simp add: pmm_inv_def)
  then have idx: "idx < pmm_managed_pages s" "\<not> is_used s idx"
    using alloc_page_scan_Some [OF Some] pmm_coreD [OF core] by auto
  then have "0 < idx" using core pmm_coreD(10) by (cases "idx = 0") auto
  have le: "card (used_frames s) < 2 ^ 64"
    using card_frames_le(1) [of s] pmm_coreD(5) [OF core] by simp
  let ?t = "ref_set idx 1 (mark_used idx s)"
  have "pmm_core ?t"
    using core idx \<open>0 < idx\<close> by (simp add: pmm_core_ref_set pmm_core_mark_used is_used_mark_used pmm_coreD)
  moreover have "used_frames ?t = insert idx (used_frames s)"
    using core idx by (simp add: used_frames_mark_used)
  moreover have "idx \<notin> used_frames s" using idx by (simp add: used_frames_def)
  moreover have "add64 idx 1 = Suc idx" "add64 (card (used_frames s)) 1 = Suc (card (used_frames s))"
    using idx le pmm_coreD(5) [OF core] card_frames_le(1) [of s] by (auto simp: add64_small)
  ultimately have "pmm_inv s'"
    using alloc Some inv idx by (auto simp: pmm_alloc_page_def pmm_inv_def Let_def)
  then show ?thesis
    using alloc Some idx core \<open>0 < idx\<close>
    by (intro some) (auto simp: pmm_alloc_page_def Let_def frame_of_Free_iff frame_of_take)
qed

section \<open>Release and sharing of one frame\<close>

definition drop_owner :: "frame \<Rightarrow> frame" where
  "drop_owner f = (case f of Owned n \<Rightarrow> if n = 1 then Free else Owned (n - 1) | _ \<Rightarrow> f)"

definition add_owner :: "frame \<Rightarrow> frame" where
  "add_owner f = (case f of Owned n \<Rightarrow> Owned (n + 1) | _ \<Rightarrow> f)"

lemma frame_of_outside: "\<not> i < pmm_managed_pages s \<Longrightarrow> frame_of s i = Reserved"
  by (simp add: frame_of_def)

lemma Owned_frame_pos: "pmm_core s \<Longrightarrow> frame_of s i = Owned n \<Longrightarrow> 0 < i"
  using pmm_coreD(11) [of s] by (cases "i = 0") (auto simp: frame_of_Owned_iff)

lemma used_frames_card_pos: "i < pmm_managed_pages s \<Longrightarrow> is_used s i \<Longrightarrow> 0 < card (used_frames s)"
  by (auto simp: card_gt_0_iff used_frames_def)

lemma pmm_free_page_Ret_iff:
  assumes core: "pmm_core s"
  shows "(\<exists>s'. pmm_free_page pa s = Ret s') \<longleftrightarrow>
         page_aligned pa \<and> (\<exists>n. frame_of s (page_index pa) = Owned n)"
  using page_index_in_range [OF core, of pa]
  by (auto simp: pmm_free_page_def Let_def KASSERT_Ret_iff Ret_KASSERT_iff frame_of_Owned_iff [OF core])

lemma free_last:
  assumes inv: "pmm_inv s" and idx: "frame_of s idx = Owned 1" and h: "h \<le> pmm_managed_pages s"
  shows "pmm_inv ((mark_free idx ((ref_set idx 0 s)\<lparr>pmm_n_lastref := l\<rparr>))
           \<lparr>pmm_used_count := sub64 (pmm_used_count s) 1, pmm_alloc_hint := h\<rparr>)"
    and "frame_of (mark_free idx ((ref_set idx 0 s)\<lparr>pmm_n_lastref := l\<rparr>)) = (frame_of s)(idx := Free)"
proof -
  have core: "pmm_core s" using inv by (simp add: pmm_inv_def)
  have used: "0 < idx" "idx < pmm_managed_pages s" "is_used s idx" "pmm_refs s ! idx = 1"
    using idx core Owned_frame_pos by (auto simp: frame_of_Owned_iff)
  let ?t = "(ref_set idx 0 s)\<lparr>pmm_n_lastref := l\<rparr>"
  have t: "pmm_core ?t" "pmm_refs ?t ! idx = 0"
    using core used by (simp_all add: pmm_core_ref_set pmm_coreD)
  have "used_frames (mark_free idx ?t) = used_frames s - {idx}"
    using used_frames_mark_free [OF t(1), of idx] used by simp
  moreover have "idx \<in> used_frames s" using used by (simp add: used_frames_def)
  moreover have "card (used_frames s) < 2 ^ 64"
    using card_frames_le(1) [of s] pmm_coreD(5) [OF core] by simp
  ultimately show "pmm_inv ((mark_free idx ?t)\<lparr>pmm_used_count := sub64 (pmm_used_count s) 1, pmm_alloc_hint := h\<rparr>)"
    using t used h inv used_frames_card_pos [of idx s]
    by (simp add: pmm_inv_def pmm_core_drop sub64_small)
  show "frame_of (mark_free idx ?t) = (frame_of s)(idx := Free)"
    using core used by (auto simp: frame_of_def fun_eq_iff is_used_mark_free pmm_coreD)
qed

lemma pmm_free_page_step:
  assumes inv: "pmm_inv s" and free: "pmm_free_page pa s = Ret s'"
  shows "pmm_inv s'" and "frame_of s' = (frame_of s)(page_index pa := drop_owner (frame_of s (page_index pa)))"
    and "pmm_managed_pages s' = pmm_managed_pages s"
proof -
  have core: "pmm_core s" using inv by (simp add: pmm_inv_def)
  let ?i = "page_index pa"
  obtain n where n: "frame_of s ?i = Owned n"
    using pmm_free_page_Ret_iff [OF core, of pa] free by auto
  then have facts: "0 < ?i" "?i < pmm_managed_pages s" "is_used s ?i" "pmm_refs s ! ?i = n" "n \<noteq> 0" "n < 2 ^ 16"
    using core Owned_frame_pos pmm_coreD(8) [OF core] by (auto simp: frame_of_Owned_iff)
  have "pmm_inv s' \<and> frame_of s' = (frame_of s)(?i := drop_owner (Owned n)) \<and>
        pmm_managed_pages s' = pmm_managed_pages s"
  proof (cases "n = 1")
    case True
    then show ?thesis
      using free facts free_last [OF inv] n pmm_coreD [OF core]
      by (auto simp: pmm_free_page_def KASSERT_Ret_iff Let_def drop_owner_def)
  next
    case False
    then have "s' = ref_set ?i (n - 1) s"
      using free facts pmm_coreD [OF core]
      by (auto simp: pmm_free_page_def KASSERT_Ret_iff Let_def)
    then show ?thesis
      using facts False inv core pmm_core_ref_set [of s ?i "n - 1"]
      by (auto simp: drop_owner_def frame_of_ref_set pmm_inv_def)
  qed
  then show "pmm_inv s'" "frame_of s' = (frame_of s)(?i := drop_owner (frame_of s ?i))"
    "pmm_managed_pages s' = pmm_managed_pages s"
    using n by auto
qed

lemma pmm_page_ref_Ret_iff:
  assumes core: "pmm_core s"
  shows "(\<exists>s'. pmm_page_ref pa s = Ret s') \<longleftrightarrow>
         page_aligned pa \<and> (\<exists>n. frame_of s (page_index pa) = Owned n \<and> n \<noteq> 2 ^ 16 - 1)"
  using page_index_in_range [OF core, of pa]
  by (auto simp: pmm_page_ref_def Let_def KASSERT_Ret_iff Ret_KASSERT_iff frame_of_Owned_iff [OF core])

lemma pmm_page_ref_step:
  assumes inv: "pmm_inv s" and ref: "pmm_page_ref pa s = Ret s'"
  shows "pmm_inv s'" and "frame_of s' = (frame_of s)(page_index pa := add_owner (frame_of s (page_index pa)))"
    and "pmm_managed_pages s' = pmm_managed_pages s"
proof -
  have core: "pmm_core s" using inv by (simp add: pmm_inv_def)
  let ?i = "page_index pa"
  obtain n where n: "frame_of s ?i = Owned n" "n \<noteq> 2 ^ 16 - 1"
    using pmm_page_ref_Ret_iff [OF core, of pa] ref by auto
  then have facts: "0 < ?i" "?i < pmm_managed_pages s" "is_used s ?i" "pmm_refs s ! ?i = n" "n + 1 < 2 ^ 16"
    using core Owned_frame_pos pmm_coreD(8) [OF core, of ?i] by (auto simp: frame_of_Owned_iff)
  then have "s' = (ref_set ?i (n + 1) s)\<lparr>pmm_n_ref := add64 (pmm_n_ref (ref_set ?i (n + 1) s)) 1\<rparr>"
    using ref by (auto simp: pmm_page_ref_def KASSERT_Ret_iff Let_def)
  then show "pmm_inv s'" "frame_of s' = (frame_of s)(?i := add_owner (frame_of s ?i))"
    "pmm_managed_pages s' = pmm_managed_pages s"
    using facts inv core pmm_core_ref_set [of s ?i "n + 1"] n
    by (simp_all add: add_owner_def frame_of_ref_set pmm_inv_def)
qed

section \<open>Contiguous runs\<close>

lemma free_run_spec:
  "run \<le> n \<Longrightarrow> \<forall>k < run. \<not> is_used s (start + k) \<Longrightarrow>
   free_run s start n run \<le> n \<and>
   (\<forall>k < free_run s start n run. \<not> is_used s (start + k)) \<and>
   (free_run s start n run < n \<longrightarrow> is_used s (start + free_run s start n run))"
proof (induction s start n run rule: free_run.induct)
  case (1 s start n run)
  show ?case
  proof (cases "run < n \<and> \<not> is_used s (start + run)")
    case True
    then have "free_run s start n run = free_run s start n (Suc run)"
      by (subst free_run.simps) simp
    then show ?thesis using 1 True by (simp add: less_Suc_eq)
  next
    case False
    then have "free_run s start n run = run"
      by (subst free_run.simps) auto
    then show ?thesis using 1(2,3) False by auto
  qed
qed

lemma free_run_0:
  "free_run s start n 0 \<le> n"
  "k < free_run s start n 0 \<Longrightarrow> \<not> is_used s (start + k)"
  "free_run s start n 0 < n \<Longrightarrow> is_used s (start + free_run s start n 0)"
  using free_run_spec [of 0 n s start] by auto

lemma alloc_run_scan_Some:
  "alloc_run_scan s n limit start = Some st \<Longrightarrow>
   start \<le> st \<and> st + n \<le> limit \<and> (\<forall>k < n. \<not> is_used s (st + k))"
proof (induction s n limit start rule: alloc_run_scan.induct)
  case (1 s n limit start)
  show ?case
  proof (cases "start + n \<le> limit \<and> free_run s start n 0 \<noteq> n")
    case True
    then show ?thesis using 1 by (auto simp: alloc_run_scan.simps [of s n limit start] Let_def)
  next
    case False
    then show ?thesis
      using "1.prems" free_run_0(2) [of _ s start n]
      by (auto simp: alloc_run_scan.simps [of s n limit start] Let_def split: if_splits)
  qed
qed

lemma alloc_run_scan_None:
  "alloc_run_scan s n limit start = None \<Longrightarrow> start \<le> st \<Longrightarrow> st + n \<le> limit \<Longrightarrow>
   \<exists>k < n. is_used s (st + k)"
proof (induction s n limit start rule: alloc_run_scan.induct)
  case (1 s n limit start)
  let ?r = "free_run s start n 0"
  have r: "?r < n" "is_used s (start + ?r)" and none: "alloc_run_scan s n limit (start + ?r + 1) = None"
    using 1(2-4) free_run_0(1) [of s start n] free_run_0(3) [of s start n]
    by (auto simp: alloc_run_scan.simps [of s n limit start] Let_def split: if_splits)
  show ?case
  proof (cases "st \<le> start + ?r")
    case True
    then show ?thesis using r 1(3) by (intro exI [of _ "start + ?r - st"]) auto
  next
    case False
    then show ?thesis using 1 none r by auto
  qed
qed

definition take_run :: "nat \<Rightarrow> nat \<Rightarrow> (nat \<Rightarrow> frame) \<Rightarrow> nat \<Rightarrow> frame" where
  "take_run start n f i = (if start \<le> i \<and> i < start + n then Owned 1 else f i)"

definition drop_run :: "nat \<Rightarrow> nat \<Rightarrow> (nat \<Rightarrow> frame) \<Rightarrow> nat \<Rightarrow> frame" where
  "drop_run start n f i = (if start \<le> i \<and> i < start + n then Free else f i)"

lemma claim_run_loop:
  assumes "pmm_core s" "0 < start" "start + n \<le> pmm_managed_pages s"
  defines "t \<equiv> fold (\<lambda>j s. ref_set (start + j) 1 (mark_used (start + j) s)) [0..<n] s"
  shows "pmm_core t \<and> used_frames t = used_frames s \<union> {start..<start + n} \<and>
     frame_of t = take_run start n (frame_of s) \<and> pmm_managed_pages t = pmm_managed_pages s \<and>
     pmm_used_count t = pmm_used_count s"
  using assms(3) unfolding t_def
proof (induction n)
  case 0
  show ?case using assms(1) by (auto simp: take_run_def fun_eq_iff)
next
  case (Suc n)
  define u where "u = fold (\<lambda>j s. ref_set (start + j) 1 (mark_used (start + j) s)) [0..<n] s"
  have u: "pmm_core u" "used_frames u = used_frames s \<union> {start..<start + n}"
    "frame_of u = take_run start n (frame_of s)" "pmm_managed_pages u = pmm_managed_pages s"
    "pmm_used_count u = pmm_used_count s"
    using Suc by (simp_all add: u_def)
  have idx: "0 < start + n" "start + n < pmm_managed_pages u" using Suc.prems assms(2) u by simp_all
  have "pmm_core (ref_set (start + n) 1 (mark_used (start + n) u))"
    using u(1) idx by (simp add: pmm_core_ref_set pmm_core_mark_used is_used_mark_used pmm_coreD)
  moreover have "frame_of (ref_set (start + n) 1 (mark_used (start + n) u)) =
      take_run start (Suc n) (frame_of s)"
    using u(3) frame_of_take [OF u(1) idx(2), of 1] by (auto simp: take_run_def fun_eq_iff)
  moreover have "used_frames (mark_used (start + n) u) = used_frames s \<union> {start..<start + Suc n}"
    using used_frames_mark_used [OF u(1) idx(2)] u(2) by auto
  ultimately show ?case
    using u(4,5) by (simp add: u_def)
qed

lemma claim_run_inv:
  assumes inv: "pmm_inv s" and "0 < n" and run: "start + n \<le> pmm_managed_pages s"
    and free: "\<And>k. k < n \<Longrightarrow> \<not> is_used s (start + k)"
  shows "pmm_inv (claim_run start n s)" "frame_of (claim_run start n s) = take_run start n (frame_of s)"
    "pmm_managed_pages (claim_run start n s) = pmm_managed_pages s" "0 < start"
proof -
  have core: "pmm_core s" using inv by (simp add: pmm_inv_def)
  show pos: "0 < start" using free [of 0] \<open>0 < n\<close> pmm_coreD(10) [OF core] by (cases start) auto
  note loop = claim_run_loop [OF core pos run]
  have "used_frames s \<inter> {start..<start + n} = {}"
  proof -
    have "\<not> is_used s i" if "start \<le> i" "i < start + n" for i
      using free [of "i - start"] that by simp
    then show ?thesis by (auto simp: used_frames_def)
  qed
  then have card: "card (used_frames s \<union> {start..<start + n}) = card (used_frames s) + n"
    by (simp add: card_Un_disjoint)
  have "card (used_frames s) + n < 2 ^ 64"
    using card_frames_le(1) [of s] pmm_coreD(5) [OF core] run by simp
  then show "pmm_inv (claim_run start n s)"
    using loop inv run card by (simp add: claim_run_def Let_def pmm_inv_def add64_small)
  show "frame_of (claim_run start n s) = take_run start n (frame_of s)"
    "pmm_managed_pages (claim_run start n s) = pmm_managed_pages s"
    using loop by (simp_all add: claim_run_def Let_def)
qed

definition free_at :: "pmm \<Rightarrow> nat \<Rightarrow> nat \<Rightarrow> bool" where
  "free_at s start n \<longleftrightarrow> (\<forall>k < n. frame_of s (start + k) = Free)"

lemma free_at_iff:
  "0 < n \<Longrightarrow> free_at s start n \<longleftrightarrow>
   start + n \<le> pmm_managed_pages s \<and> (\<forall>k < n. \<not> is_used s (start + k))"
  unfolding free_at_def frame_of_Free_iff
  by (cases n) (auto simp: less_Suc_eq)

lemma pmm_alloc_pages_run:
  assumes inv: "pmm_inv s" and n: "1 < n" and alloc: "pmm_alloc_pages s n = (s', pa)"
  obtains (none) "pa = PA_INVALID" "s' = s"
      "\<forall>start. free_at s start n \<longrightarrow> start < pmm_alloc_hint s \<and> pmm_alloc_hint s < start + n"
  | (some) start where "pa = pa_from_index start" "free_at s start n" "0 < start"
      "start + n \<le> pmm_managed_pages s" "frame_of s' = take_run start n (frame_of s)" "pmm_inv s'"
      "pmm_managed_pages s' = pmm_managed_pages s"
proof (cases "\<exists>start. free_at s start n \<and> s' = claim_run start n s \<and> pa = pa_from_index start")
  case True
  then obtain start where "free_at s start n" "s' = claim_run start n s" "pa = pa_from_index start"
    by blast
  then show ?thesis
    using n claim_run_inv [OF inv, of n start] by (intro some [of start]) (auto simp: free_at_iff)
next
  case False
  have hint: "pmm_alloc_hint s \<le> pmm_managed_pages s"
    using inv by (simp add: pmm_inv_def pmm_coreD)
  show ?thesis
  proof (cases "alloc_run_scan s n (pmm_managed_pages s) (pmm_alloc_hint s)")
    case (Some st)
    then show ?thesis
      using False n alloc alloc_run_scan_Some [OF Some]
      by (auto simp: pmm_alloc_pages_def free_at_iff)
  next
    case first: None
    show ?thesis
    proof (cases "alloc_run_scan s n (pmm_alloc_hint s) 0")
      case (Some st)
      then show ?thesis
        using False n alloc first alloc_run_scan_Some [OF Some] hint
        by (auto simp: pmm_alloc_pages_def free_at_iff)
    next
      case None
      have "start < pmm_alloc_hint s \<and> pmm_alloc_hint s < start + n" if "free_at s start n" for start
      proof (rule ccontr)
        assume "\<not> ?thesis"
        then consider "pmm_alloc_hint s \<le> start" | "start + n \<le> pmm_alloc_hint s" by linarith
        then show False
          using that n alloc_run_scan_None [OF first, of start] alloc_run_scan_None [OF None, of start]
          by cases (auto simp: free_at_iff)
      qed
      then show ?thesis
        using None first alloc n by (intro none) (auto simp: pmm_alloc_pages_def)
    qed
  qed
qed

lemma free_pages_loop_Ret:
  assumes "free_pages_loop is s = Ret t" "pmm_core s"
  shows "pmm_core t \<and> distinct is \<and> (\<forall>i \<in> set is. frame_of s i = Owned 1) \<and>
     used_frames t = used_frames s - set is \<and>
     frame_of t = (\<lambda>i. if i \<in> set is then Free else frame_of s i) \<and>
     pmm_managed_pages t = pmm_managed_pages s \<and> pmm_used_count t = pmm_used_count s \<and>
     pmm_n_lastref t = pmm_n_lastref s"
  using assms
proof (induction "is" arbitrary: s)
  case (Cons idx idxs)
  let ?u = "mark_free idx (ref_set idx 0 s)"
  have idx: "idx < pmm_managed_pages s" "is_used s idx" "pmm_refs s ! idx = 1"
    and rest: "free_pages_loop idxs ?u = Ret t"
    using Cons.prems(1) by (auto simp: KASSERT_Ret_iff)
  have own: "frame_of s idx = Owned 1" using idx Cons.prems(2) by (simp add: frame_of_Owned_iff)
  then have "0 < idx" using Cons.prems(2) Owned_frame_pos by blast
  then have r: "pmm_core (ref_set idx 0 s)"
    using Cons.prems(2) idx by (simp add: pmm_core_ref_set)
  then have "pmm_core ?u"
    using \<open>0 < idx\<close> idx Cons.prems(2) by (simp add: pmm_core_drop pmm_coreD)
  note IH = Cons.IH [OF rest this]
  have fr: "frame_of ?u = (frame_of s)(idx := Free)"
    using frame_of_drop Cons.prems(2) idx by blast
  then have "idx \<notin> set idxs" using IH by auto
  moreover have "used_frames ?u = used_frames s - {idx}"
    using used_frames_mark_free [OF r, of idx] idx by simp
  moreover have "pmm_n_lastref ?u = pmm_n_lastref s"
    by (simp add: mark_free_def ref_set_def Let_def)
  ultimately show ?case
    using IH fr own by (auto simp: fun_eq_iff split: if_splits)
qed auto

lemma free_pages_loop_ok:
  assumes "distinct is" "\<forall>i \<in> set is. frame_of s i = Owned 1" "pmm_core s"
  shows "\<exists>t. free_pages_loop is s = Ret t"
  using assms
proof (induction "is" arbitrary: s)
  case (Cons idx idxs)
  let ?u = "mark_free idx (ref_set idx 0 s)"
  have idx: "0 < idx" "idx < pmm_managed_pages s" "is_used s idx" "pmm_refs s ! idx = 1"
    using Cons.prems Owned_frame_pos by (auto simp: frame_of_Owned_iff)
  then have "pmm_core (ref_set idx 0 s)"
    using Cons.prems(3) idx by (simp add: pmm_core_ref_set)
  then have "pmm_core ?u"
    using idx Cons.prems(3) by (simp add: pmm_core_drop pmm_coreD)
  moreover have "frame_of ?u = (frame_of s)(idx := Free)"
    using frame_of_drop Cons.prems(3) idx by blast
  then have "\<forall>i \<in> set idxs. frame_of ?u i = Owned 1"
    using Cons.prems(1,2) by auto
  ultimately have "\<exists>t. free_pages_loop idxs ?u = Ret t"
    using Cons.IH [of ?u] Cons.prems(1) by simp
  then show ?case
    using idx by (simp add: KASSERT_Ret_iff)
qed simp

lemma pmm_free_pages_Ret_iff:
  assumes core: "pmm_core s"
  shows "(\<exists>s'. pmm_free_pages pa n s = Ret s') \<longleftrightarrow>
         page_aligned pa \<and> (\<forall>k < n. frame_of s (page_index pa + k) = Owned 1)"
proof -
  let ?is = "map (\<lambda>j. page_index pa + j) [0..<n]"
  have "(\<exists>t. free_pages_loop ?is s = Ret t) \<longleftrightarrow> (\<forall>i \<in> set ?is. frame_of s i = Owned 1)"
    using free_pages_loop_Ret [of ?is s] free_pages_loop_ok [of ?is s] core
    by (auto simp: distinct_map)
  also have "\<dots> \<longleftrightarrow> (\<forall>k < n. frame_of s (page_index pa + k) = Owned 1)"
    by (simp only: set_map set_upt ball_simps(9)) auto
  finally have "(\<exists>t. free_pages_loop ?is s = Ret t) \<longleftrightarrow>
      (\<forall>k < n. frame_of s (page_index pa + k) = Owned 1)" .
  then show ?thesis
    by (auto simp: pmm_free_pages_def KASSERT_Ret_iff kbind_Ret_iff)
qed

lemma pmm_free_pages_step:
  assumes inv: "pmm_inv s" and free: "pmm_free_pages pa n s = Ret s'"
  shows "pmm_inv s'" and "frame_of s' = drop_run (page_index pa) n (frame_of s)"
    and "pmm_managed_pages s' = pmm_managed_pages s"
proof -
  have core: "pmm_core s" using inv by (simp add: pmm_inv_def)
  let ?i = "page_index pa"
  let ?is = "map (\<lambda>j. ?i + j) [0..<n]"
  have set: "set ?is = {?i..<?i + n}"
    by auto
  obtain t where loop: "free_pages_loop ?is s = Ret t"
    and s': "s' = t\<lparr>pmm_used_count := sub64 (pmm_used_count t) n,
                   pmm_n_lastref := add64 (pmm_n_lastref t) n,
                   pmm_alloc_hint := (if ?i < pmm_alloc_hint t then ?i else pmm_alloc_hint t)\<rparr>"
    using free by (auto simp: pmm_free_pages_def KASSERT_Ret_iff kbind_Ret_iff)
  note t = free_pages_loop_Ret [OF loop core, unfolded set]
  have sub: "{?i..<?i + n} \<subseteq> used_frames s"
    using t core by (auto simp: used_frames_def frame_of_Owned_iff)
  have "card (used_frames s - {?i..<?i + n}) = card (used_frames s) - n"
    using sub by (simp add: card_Diff_subset)
  moreover have "n \<le> card (used_frames s)" using card_mono [OF _ sub] by simp
  moreover have "card (used_frames s) < 2 ^ 64"
    using card_frames_le(1) [of s] pmm_coreD(5) [OF core] by simp
  ultimately show "pmm_inv s'"
    using t inv pmm_coreD(6) [of t] unfolding s' by (auto simp: pmm_inv_def sub64_small)
  show "frame_of s' = drop_run ?i n (frame_of s)" "pmm_managed_pages s' = pmm_managed_pages s"
    using t unfolding s' by (auto simp: drop_run_def fun_eq_iff)
qed

section \<open>Reserving and freeing address ranges\<close>

text \<open>
  Before the first megabyte is reserved the invariant does not hold yet: frame 0 may be free. What
  holds throughout the boot is \<open>pmm_boot\<close>.
\<close>

definition pmm_boot :: "pmm \<Rightarrow> bool" where
  "pmm_boot s \<longleftrightarrow> pmm_shape s \<and> pmm_used_count s = card (used_frames s)"

definition in_span :: "u64 \<Rightarrow> u64 \<Rightarrow> nat \<Rightarrow> bool" where
  "in_span lo hi i \<longleftrightarrow> lo \<le> i * PAGE_SIZE \<and> i * PAGE_SIZE < hi"

definition same_refs :: "pmm \<Rightarrow> pmm \<Rightarrow> bool" where
  "same_refs s t \<longleftrightarrow> pmm_refs t = pmm_refs s \<and> pmm_shared_count t = pmm_shared_count s \<and>
     pmm_managed_pages t = pmm_managed_pages s \<and> pmm_managed_pa_end t = pmm_managed_pa_end s \<and>
     pmm_alloc_hint t = pmm_alloc_hint s"

lemma same_refs_trans: "same_refs s t \<Longrightarrow> same_refs t u \<Longrightarrow> same_refs s u"
  by (simp add: same_refs_def)

lemma pmm_bootD:
  assumes "pmm_boot s"
  shows "bitmap_covers s" "pmm_managed_pa_end s = pmm_managed_pages s * PAGE_SIZE"
    "pmm_managed_pages s \<le> 2 ^ 18" "pmm_used_count s = card (used_frames s)" "pmm_shape s"
    "card (used_frames s) \<le> 2 ^ 18"
  using assms card_frames_le(1) [of s] by (auto simp: pmm_boot_def pmm_shape_def)

lemma aligned_index:
  "page_aligned pa \<Longrightarrow> page_index pa * PAGE_SIZE = pa"
  by (auto simp: page_aligned_def page_index_def PAGE_SIZE_def)

lemma in_span_step:
  assumes "page_aligned pa" "pa < hi"
  shows "in_span pa hi i \<longleftrightarrow> i = page_index pa \<or> in_span (pa + PAGE_SIZE) hi i"
proof -
  obtain k where k: "pa = k * PAGE_SIZE" using aligned_index [OF assms(1)] by metis
  then have "page_index pa = k" by (simp add: page_index_def PAGE_SIZE_def)
  moreover have "k * PAGE_SIZE \<le> i * PAGE_SIZE \<longleftrightarrow> i = k \<or> (k + 1) * PAGE_SIZE \<le> i * PAGE_SIZE"
    unfolding mult_le_cancel2 using PAGE_SIZE_pos by auto
  ultimately show ?thesis
    using assms(2) k by (auto simp: in_span_def algebra_simps)
qed

lemma mark_used_boot:
  assumes "pmm_boot s" "idx < pmm_managed_pages s"
  defines "t \<equiv> (if \<not> is_used s idx then (mark_used idx s)\<lparr>pmm_used_count := add64 (pmm_used_count s) 1\<rparr> else s)"
  shows "pmm_boot t" "same_refs s t" "is_used t i \<longleftrightarrow> is_used s i \<or> i = idx"
proof -
  show used: "is_used t i \<longleftrightarrow> is_used s i \<or> i = idx" for i
    using assms by (auto simp: t_def is_used_mark_used pmm_bootD)
  have "used_frames t = insert idx (used_frames s)"
    using used assms(2) by (auto simp: used_frames_def t_def)
  then show "pmm_boot t"
    using assms pmm_bootD [OF assms(1)]
    by (auto simp: pmm_boot_def t_def add64_small card_insert_if) (auto simp: used_frames_def)
qed (simp add: t_def same_refs_def)

lemma mark_free_boot:
  assumes "pmm_boot s" "idx < pmm_managed_pages s"
  defines "t \<equiv> (if is_used s idx then (mark_free idx s)\<lparr>pmm_used_count := sub64 (pmm_used_count s) 1\<rparr> else s)"
  shows "pmm_boot t" "same_refs s t" "is_used t i \<longleftrightarrow> is_used s i \<and> i \<noteq> idx"
proof -
  show used: "is_used t i \<longleftrightarrow> is_used s i \<and> i \<noteq> idx" for i
    using assms by (auto simp: t_def is_used_mark_free pmm_bootD)
  have "used_frames t = used_frames s - {idx}"
    using used assms(2) by (auto simp: used_frames_def t_def)
  moreover have "idx \<in> used_frames s \<longleftrightarrow> is_used s idx"
    using assms(2) by (simp add: used_frames_def)
  ultimately have "card (used_frames t) = (if is_used s idx then card (used_frames s) - 1 else card (used_frames s))"
    by (simp add: card_Diff_singleton_if)
  moreover have "pmm_shape t" "card (used_frames s) < 2 ^ 64"
    using pmm_bootD(5,6) [OF assms(1)] by (simp_all add: t_def)
  moreover have "pmm_used_count t = (if is_used s idx then sub64 (card (used_frames s)) 1 else card (used_frames s))"
    using pmm_bootD(4) [OF assms(1)] by (simp add: t_def)
  ultimately show "pmm_boot t"
    using used_frames_card_pos [OF assms(2)]
    by (cases "is_used s idx") (simp_all add: pmm_boot_def sub64_small)
qed (simp add: t_def same_refs_def)

lemma mark_range_loop_boot:
  "pmm_boot s \<Longrightarrow> page_aligned pa \<Longrightarrow> hi \<le> pmm_managed_pa_end s \<Longrightarrow>
   pmm_boot (mark_range_loop pa hi s) \<and> same_refs s (mark_range_loop pa hi s) \<and>
   (\<forall>i. is_used (mark_range_loop pa hi s) i \<longleftrightarrow> is_used s i \<or> in_span pa hi i)"
proof (induction pa hi s rule: mark_range_loop.induct)
  case (1 pa hi s)
  show ?case
  proof (cases "pa < hi")
    case True
    define t where "t = (let idx = page_index pa in if \<not> is_used s idx
                then (mark_used idx s)\<lparr>pmm_used_count := add64 (pmm_used_count s) 1\<rparr> else s)"
    have idx: "page_index pa < pmm_managed_pages s"
      using True 1(2-4) aligned_index [OF 1(3)] pmm_bootD(2) [OF 1(2)]
      by (metis mult_less_cancel2 order_less_le_trans)
    have t: "pmm_boot t" "same_refs s t" "is_used t i \<longleftrightarrow> is_used s i \<or> i = page_index pa" for i
      using mark_used_boot [OF 1(2) idx] by (simp_all add: t_def Let_def)
    have "page_aligned (pa + PAGE_SIZE)" using 1(3) by (simp add: page_aligned_def)
    then have "pmm_boot (mark_range_loop (pa + PAGE_SIZE) hi t) \<and>
        same_refs t (mark_range_loop (pa + PAGE_SIZE) hi t) \<and>
        (\<forall>i. is_used (mark_range_loop (pa + PAGE_SIZE) hi t) i \<longleftrightarrow>
             is_used t i \<or> in_span (pa + PAGE_SIZE) hi i)"
      using "1.IH" [OF True] t 1(4) by (simp add: t_def same_refs_def)
    moreover have "mark_range_loop pa hi s = mark_range_loop (pa + PAGE_SIZE) hi t"
      using True by (subst mark_range_loop.simps) (simp add: t_def)
    ultimately show ?thesis
      using t same_refs_trans [OF t(2)] in_span_step [OF 1(3) True] by simp
  next
    case False
    then have "mark_range_loop pa hi s = s" by (subst mark_range_loop.simps) simp
    then show ?thesis
      using 1(2) False by (auto simp: same_refs_def in_span_def)
  qed
qed

lemma free_region_loop_boot:
  "pmm_boot s \<Longrightarrow> page_aligned pa \<Longrightarrow> hi \<le> pmm_managed_pa_end s \<Longrightarrow>
   pmm_boot (free_region_loop pa hi s) \<and> same_refs s (free_region_loop pa hi s) \<and>
   (\<forall>i. is_used (free_region_loop pa hi s) i \<longleftrightarrow> is_used s i \<and> \<not> in_span pa hi i)"
proof (induction pa hi s rule: free_region_loop.induct)
  case (1 pa hi s)
  show ?case
  proof (cases "pa < hi")
    case True
    define t where "t = (let idx = page_index pa in if is_used s idx
                then (mark_free idx s)\<lparr>pmm_used_count := sub64 (pmm_used_count s) 1\<rparr> else s)"
    have idx: "page_index pa < pmm_managed_pages s"
      using True 1(2-4) aligned_index [OF 1(3)] pmm_bootD(2) [OF 1(2)]
      by (metis mult_less_cancel2 order_less_le_trans)
    have t: "pmm_boot t" "same_refs s t" "is_used t i \<longleftrightarrow> is_used s i \<and> i \<noteq> page_index pa" for i
      using mark_free_boot [OF 1(2) idx] by (simp_all add: t_def Let_def)
    have "page_aligned (pa + PAGE_SIZE)" using 1(3) by (simp add: page_aligned_def)
    then have "pmm_boot (free_region_loop (pa + PAGE_SIZE) hi t) \<and>
        same_refs t (free_region_loop (pa + PAGE_SIZE) hi t) \<and>
        (\<forall>i. is_used (free_region_loop (pa + PAGE_SIZE) hi t) i \<longleftrightarrow>
             is_used t i \<and> \<not> in_span (pa + PAGE_SIZE) hi i)"
      using "1.IH" [OF True] t 1(4) by (simp add: t_def same_refs_def)
    moreover have "free_region_loop pa hi s = free_region_loop (pa + PAGE_SIZE) hi t"
      using True by (subst free_region_loop.simps) (simp add: t_def)
    ultimately show ?thesis
      using t same_refs_trans [OF t(2)] in_span_step [OF 1(3) True] by simp
  next
    case False
    then have "free_region_loop pa hi s = s" by (subst free_region_loop.simps) simp
    then show ?thesis
      using 1(2) False by (auto simp: same_refs_def in_span_def)
  qed
qed

lemma in_span_below_end:
  "pmm_boot s \<Longrightarrow> i < pmm_managed_pages s \<Longrightarrow>
   in_span lo (min hi (pmm_managed_pa_end s)) i \<longleftrightarrow> in_span lo hi i"
  using PAGE_SIZE_pos by (simp add: in_span_def pmm_bootD)

text \<open>
  The frames a call of \<open>mark_range_used\<close> reserves, and the frames a memory-map entry makes free.
\<close>

definition range_touches :: "u64 \<Rightarrow> u64 \<Rightarrow> nat \<Rightarrow> bool" where
  "range_touches base len i \<longleftrightarrow>
     len \<noteq> 0 \<and> in_span (PA_ROUND_DOWN base) (PA_ROUND_UP (add64 base len)) i"

definition entry_frees :: "memmap_entry \<Rightarrow> nat \<Rightarrow> bool" where
  "entry_frees e i \<longleftrightarrow> me_type e = MEMMAP_FREE \<and>
     in_span (PA_ROUND_UP (me_base e)) (PA_ROUND_DOWN (add64 (me_base e) (me_length e))) i"

lemma mark_range_used_boot:
  fixes base len :: u64
  assumes boot: "pmm_boot s"
  defines "t \<equiv> mark_range_used base len s"
  shows "pmm_boot t" "same_refs s t"
    "i < pmm_managed_pages s \<Longrightarrow> is_used t i \<longleftrightarrow> is_used s i \<or> range_touches base len i"
proof -
  let ?lo = "PA_ROUND_DOWN base" and ?hi = "PA_ROUND_UP (add64 base len)" and ?pe = "pmm_managed_pa_end s"
  have loop: "pmm_boot (mark_range_loop ?lo (min ?hi ?pe) s) \<and>
      same_refs s (mark_range_loop ?lo (min ?hi ?pe) s) \<and>
      (\<forall>i. is_used (mark_range_loop ?lo (min ?hi ?pe) s) i \<longleftrightarrow> is_used s i \<or> in_span ?lo (min ?hi ?pe) i)"
    using boot by (intro mark_range_loop_boot) (auto simp: PA_ROUND_DOWN_aligned)
  have none: "\<not> in_span ?lo hi i" if "?pe \<le> ?lo" "i < pmm_managed_pages s" for i hi
  proof -
    have "i * PAGE_SIZE < ?pe" using that(2) PAGE_SIZE_pos by (simp add: pmm_bootD(2) [OF boot])
    then show ?thesis using that(1) by (simp add: in_span_def)
  qed
  have t: "t = (if len = 0 \<or> ?pe \<le> ?lo then s else mark_range_loop ?lo (min ?hi ?pe) s)"
    by (auto simp: t_def mark_range_used_def Let_def min_def)
  then show "pmm_boot t" "same_refs s t"
    using loop boot by (auto simp: same_refs_def)
  show "is_used t i \<longleftrightarrow> is_used s i \<or> range_touches base len i" if "i < pmm_managed_pages s"
    using that t loop none [OF _ that] in_span_below_end [OF boot that] by (auto simp: range_touches_def)
qed

lemma free_region_boot:
  fixes e :: memmap_entry
  assumes boot: "pmm_boot s"
  defines "t \<equiv> free_region e s"
  shows "pmm_boot t" "same_refs s t"
    "i < pmm_managed_pages s \<Longrightarrow> is_used t i \<longleftrightarrow> is_used s i \<and> \<not> entry_frees e i"
proof -
  let ?lo = "PA_ROUND_UP (me_base e)" and ?pe = "pmm_managed_pa_end s"
  let ?hi = "PA_ROUND_DOWN (add64 (me_base e) (me_length e))"
  have loop: "pmm_boot (free_region_loop ?lo (min ?hi ?pe) s) \<and>
      same_refs s (free_region_loop ?lo (min ?hi ?pe) s) \<and>
      (\<forall>i. is_used (free_region_loop ?lo (min ?hi ?pe) s) i \<longleftrightarrow> is_used s i \<and> \<not> in_span ?lo (min ?hi ?pe) i)"
    using boot by (intro free_region_loop_boot) (auto simp: PA_ROUND_UP_aligned)
  have none: "\<not> in_span ?lo (min ?hi ?pe) i" if "min ?hi ?pe \<le> ?lo" for i
    using that by (auto simp: in_span_def)
  have t: "t = (if me_type e \<noteq> MEMMAP_FREE \<or> min ?hi ?pe \<le> ?lo then s
                else free_region_loop ?lo (min ?hi ?pe) s)"
    by (auto simp: t_def free_region_def Let_def min_def)
  then show "pmm_boot t" "same_refs s t"
    using loop boot by (auto simp: same_refs_def)
  show "is_used t i \<longleftrightarrow> is_used s i \<and> \<not> entry_frees e i" if "i < pmm_managed_pages s"
    using t loop none [of i] in_span_below_end [OF boot that] by (auto simp: entry_frees_def)
qed

lemma free_regions_boot:
  assumes "pmm_boot s"
  shows "pmm_boot (fold free_region es s) \<and> same_refs s (fold free_region es s) \<and>
    (\<forall>i < pmm_managed_pages s. is_used (fold free_region es s) i \<longleftrightarrow>
       is_used s i \<and> \<not> (\<exists>e \<in> set es. entry_frees e i))"
  using assms
proof (induction es arbitrary: s)
  case (Cons e es)
  note step = free_region_boot [where e = e, OF Cons.prems]
  have "pmm_managed_pages (free_region e s) = pmm_managed_pages s"
    using step(2) by (simp add: same_refs_def)
  then show ?case
    using Cons.IH [OF step(1)] step(3) same_refs_trans [OF step(2)] by auto
qed (simp add: same_refs_def)

lemma mark_range_used_inv:
  fixes base len :: u64
  assumes inv: "pmm_inv s"
  defines "t \<equiv> mark_range_used base len s"
  shows "pmm_inv t"
    "frame_of t i = (if frame_of s i = Free \<and> range_touches base len i then Reserved else frame_of s i)"
    "pmm_managed_pages t = pmm_managed_pages s"
proof -
  have boot: "pmm_boot s" using inv by (simp add: pmm_inv_def pmm_boot_def pmm_core_def)
  note t = mark_range_used_boot [where base = base and len = len, OF boot, folded t_def]
  then have same: "pmm_refs t = pmm_refs s" "pmm_shared_count t = pmm_shared_count s"
      "pmm_managed_pages t = pmm_managed_pages s"
    by (simp_all add: same_refs_def)
  then have "shared_frames t = shared_frames s" by (simp add: shared_frames_def)
  then have "pmm_core t"
    using inv t(1,3) same pmm_bootD(5) [OF t(1)] pmm_coreD(4) [of s]
    by (auto simp: pmm_inv_def pmm_core_def)
  then show "pmm_inv t" using t(1) by (simp add: pmm_inv_def pmm_boot_def)
  show "frame_of t i = (if frame_of s i = Free \<and> range_touches base len i then Reserved else frame_of s i)"
    using t(3) [of i] same inv by (auto simp: frame_of_def pmm_inv_def pmm_core_def)
  show "pmm_managed_pages t = pmm_managed_pages s" by (rule same)
qed

section \<open>The state after boot\<close>

lemma carve_bitmap_storage_sound:
  assumes "carve_bitmap_storage es ks ke pa_end need = pa" "pa \<noteq> PA_INVALID"
  shows "\<exists>e \<in> set es. me_type e = MEMMAP_FREE \<and> PA_ROUND_UP (me_base e) \<le> pa \<and>
     pa + need \<le> PA_ROUND_DOWN (add64 (me_base e) (me_length e)) \<and> pa + need \<le> pa_end \<and>
     (PA_ROUND_UP ke \<le> pa \<or> pa + need \<le> PA_ROUND_DOWN ks)"
  using assms
proof (induction es)
  case (Cons e es)
  then show ?case
    by (simp add: Let_def split: if_splits) (auto split: if_splits)
qed simp

lemma carve_bitmap_storage_aligned:
  "carve_bitmap_storage es ks ke pa_end need = pa \<Longrightarrow> pa \<noteq> PA_INVALID \<Longrightarrow> page_aligned pa"
proof (induction es)
  case (Cons e es)
  moreover have "page_aligned 0x100000" by (simp add: page_aligned_def PAGE_SIZE_eq)
  ultimately show ?case
    by (auto simp: Let_def PA_ROUND_UP_aligned split: if_splits)
qed simp

definition pmm_pa_end :: "memmap_entry list \<Rightarrow> u64" where
  "pmm_pa_end es = PA_ROUND_UP (if max_free_end es > PMM_HARD_CAP_BYTES then PMM_HARD_CAP_BYTES
                                else max_free_end es)"

definition pmm_carve_bytes :: "memmap_entry list \<Rightarrow> u64" where
  "pmm_carve_bytes es =
     (let pages = pmm_pa_end es div 2 ^ PAGE_SHIFT
      in PA_ROUND_UP ((pages + 63) div 64 * 8) + pages * 2)"

definition pmm_carve_pa :: "memmap_entry list \<Rightarrow> u64 \<Rightarrow> u64 \<Rightarrow> u64" where
  "pmm_carve_pa es ks ke = carve_bitmap_storage es ks ke (pmm_pa_end es) (pmm_carve_bytes es)"

lemma pmm_pa_end_facts:
  assumes "0 < max_free_end es"
  shows "page_aligned (pmm_pa_end es)" "0 < pmm_pa_end es" "pmm_pa_end es \<le> 2 ^ 30"
proof -
  let ?m = "if max_free_end es > PMM_HARD_CAP_BYTES then PMM_HARD_CAP_BYTES else max_free_end es"
  have m: "?m \<le> 2 ^ 30" "0 < ?m" using assms by (auto simp: PMM_HARD_CAP_BYTES_def)
  then have nw: "?m + PAGE_SIZE \<le> 2 ^ 64" by (simp add: PAGE_SIZE_eq)
  show al: "page_aligned (pmm_pa_end es)" by (simp add: pmm_pa_end_def PA_ROUND_UP_aligned)
  show "0 < pmm_pa_end es" using PA_ROUND_UP_le(1) [OF nw] m(2) unfolding pmm_pa_end_def by linarith
  have "pmm_pa_end es < 2 ^ 30 + PAGE_SIZE" using PA_ROUND_UP_le [OF nw] m by (simp add: pmm_pa_end_def)
  moreover obtain k where "pmm_pa_end es = k * PAGE_SIZE" using al aligned_index by metis
  ultimately have "k * 4096 < 262145 * 4096" by (simp add: PAGE_SIZE_eq)
  then show "pmm_pa_end es \<le> 2 ^ 30"
    using \<open>pmm_pa_end es = k * PAGE_SIZE\<close> by (simp add: PAGE_SIZE_eq)
qed


text \<open>The record \<open>pmm_init\<close> starts from: every frame used, no owners.\<close>

definition pmm_all_used :: "u64 \<Rightarrow> pmm" where
  "pmm_all_used pa_end =
     (let pages = pa_end div 2 ^ PAGE_SHIFT in
      \<lparr>pmm_bitmap = replicate ((pages + 63) div 64) (NOT 0), pmm_managed_pages = pages,
       pmm_managed_pa_end = pa_end, pmm_alloc_hint = 0, pmm_used_count = pages,
       pmm_refs = replicate pages 0, pmm_shared_count = 0, pmm_n_ref = 0, pmm_n_lastref = 0\<rparr>)"

lemma pmm_all_used_boot:
  assumes "page_aligned pe" "0 < pe" "pe \<le> 2 ^ 30"
  shows "pmm_boot (pmm_all_used pe)"
    "i < pmm_managed_pages (pmm_all_used pe) \<Longrightarrow> is_used (pmm_all_used pe) i"
proof -
  let ?s = "pmm_all_used pe"
  have pages: "pmm_managed_pages ?s = page_index pe"
    by (simp add: pmm_all_used_def page_index_def Let_def)
  have idx: "page_index pe * PAGE_SIZE = pe" using aligned_index [OF assms(1)] .
  then have "0 < page_index pe" "page_index pe \<le> 2 ^ 18"
    using assms(2,3) by (auto simp: page_index_def PAGE_SHIFT_def intro: gr0I)
  moreover have cov: "bitmap_covers ?s"
    by (simp add: bitmap_covers_def pmm_all_used_def Let_def)
  ultimately have shape: "pmm_shape ?s"
    using idx by (simp add: pmm_shape_def pmm_all_used_def Let_def page_index_def)
  show used: "is_used ?s i" if "i < pmm_managed_pages ?s" for i
    using bitmap_covers_index [OF cov that]
    by (simp add: is_used_bit pmm_all_used_def Let_def bit_not_iff)
  then have "used_frames ?s = {..<page_index pe}" by (auto simp: used_frames_def pages)
  then show "pmm_boot ?s"
    using shape by (simp add: pmm_boot_def) (simp add: pmm_all_used_def Let_def page_index_def)
qed

lemma pmm_init_eq:
  assumes "memmap_max_pa mm \<noteq> 0" "max_free_end (memmap_entries mm) \<noteq> 0"
    "pmm_carve_pa (memmap_entries mm) ks ke \<noteq> PA_INVALID"
  shows "pmm_init mm ks ke = Ret
    ((mark_range_used (pmm_carve_pa (memmap_entries mm) ks ke) (pmm_carve_bytes (memmap_entries mm))
       (mark_range_used (PA_ROUND_DOWN ks) (sub64 (PA_ROUND_UP ke) (PA_ROUND_DOWN ks))
         (mark_range_used 0 0x100000
           (fold free_region (memmap_entries mm) (pmm_all_used (pmm_pa_end (memmap_entries mm)))))))
     \<lparr>pmm_alloc_hint := 0\<rparr>)"
  using assms
  by (simp add: pmm_init_def Let_def pmm_all_used_def pmm_carve_pa_def pmm_carve_bytes_def pmm_pa_end_def)

lemma pmm_init_Ret_iff:
  "(\<exists>s. pmm_init mm ks ke = Ret s) \<longleftrightarrow>
   memmap_max_pa mm \<noteq> 0 \<and> max_free_end (memmap_entries mm) \<noteq> 0 \<and>
   pmm_carve_pa (memmap_entries mm) ks ke \<noteq> PA_INVALID"
proof
  assume "\<exists>s. pmm_init mm ks ke = Ret s"
  then show "memmap_max_pa mm \<noteq> 0 \<and> max_free_end (memmap_entries mm) \<noteq> 0 \<and>
      pmm_carve_pa (memmap_entries mm) ks ke \<noteq> PA_INVALID"
    by (auto simp: pmm_init_def Let_def pmm_carve_pa_def pmm_carve_bytes_def pmm_pa_end_def
        split: if_splits)
qed (use pmm_init_eq in auto)

lemma no_owner_inv:
  assumes "pmm_boot s" "is_used s 0" "\<And>i. i < pmm_managed_pages s \<Longrightarrow> pmm_refs s ! i = 0"
    "pmm_shared_count s = 0"
  shows "pmm_inv s"
proof -
  have "shared_frames s = {}" using assms(3) by (auto simp: shared_frames_def)
  then show ?thesis
    using assms by (auto simp: pmm_inv_def pmm_core_def pmm_boot_def pmm_shape_def)
qed

lemma pmm_init_step:
  assumes init: "pmm_init mm ks ke = Ret s"
  defines "es \<equiv> memmap_entries mm"
  shows "pmm_inv s" "pmm_managed_pages s = page_index (pmm_pa_end es)"
    "frame_of s i = (if i < pmm_managed_pages s \<and> (\<exists>e \<in> set es. entry_frees e i) \<and>
         \<not> range_touches 0 0x100000 i \<and>
         \<not> range_touches (PA_ROUND_DOWN ks) (sub64 (PA_ROUND_UP ke) (PA_ROUND_DOWN ks)) i \<and>
         \<not> range_touches (pmm_carve_pa es ks ke) (pmm_carve_bytes es) i
       then Free else Reserved)"
proof -
  have ok: "memmap_max_pa mm \<noteq> 0" "max_free_end es \<noteq> 0" "pmm_carve_pa es ks ke \<noteq> PA_INVALID"
    using pmm_init_Ret_iff [of mm ks ke] init by (auto simp: es_def)
  let ?n = "page_index (pmm_pa_end es)" and ?s0 = "pmm_all_used (pmm_pa_end es)"
  have s0: "pmm_boot ?s0" "\<And>i. i < ?n \<Longrightarrow> is_used ?s0 i" "pmm_managed_pages ?s0 = ?n"
    using pmm_all_used_boot [OF pmm_pa_end_facts] ok(2)
    by (auto simp: pmm_all_used_def page_index_def Let_def)
  define s1 where "s1 = fold free_region es ?s0"
  define s2 where "s2 = mark_range_used 0 0x100000 s1"
  define s3 where "s3 = mark_range_used (PA_ROUND_DOWN ks) (sub64 (PA_ROUND_UP ke) (PA_ROUND_DOWN ks)) s2"
  define s4 where "s4 = mark_range_used (pmm_carve_pa es ks ke) (pmm_carve_bytes es) s3"
  note s1 = free_regions_boot [OF s0(1), of es, folded s1_def]
  note s2 = mark_range_used_boot [where s = s1 and base = 0 and len = "0x100000", folded s2_def]
  note s3 = mark_range_used_boot [where s = s2 and base = "PA_ROUND_DOWN ks"
      and len = "sub64 (PA_ROUND_UP ke) (PA_ROUND_DOWN ks)", folded s3_def]
  note s4 = mark_range_used_boot [where s = s3 and base = "pmm_carve_pa es ks ke"
      and len = "pmm_carve_bytes es", folded s4_def]
  have boot: "pmm_boot s1" "pmm_boot s2" "pmm_boot s3" "pmm_boot s4"
    using s1 s2(1) s3(1) s4(1) by auto
  have same: "same_refs ?s0 s1" "same_refs s1 s2" "same_refs s2 s3" "same_refs s3 s4"
    using s1 s2(2) s3(2) s4(2) boot by auto
  then have n: "pmm_managed_pages s1 = ?n" "pmm_managed_pages s2 = ?n" "pmm_managed_pages s3 = ?n"
    "pmm_managed_pages s4 = ?n" and refs: "pmm_refs s4 = replicate ?n 0" "pmm_shared_count s4 = 0"
    using s0(3) by (simp_all add: same_refs_def pmm_all_used_def page_index_def Let_def)
  have s: "s = s4\<lparr>pmm_alloc_hint := 0\<rparr>"
    using init pmm_init_eq [of mm ks ke] ok by (simp add: s4_def s3_def s2_def s1_def es_def)
  have used: "is_used s4 i \<longleftrightarrow> \<not> ((\<exists>e \<in> set es. entry_frees e i) \<and>
         \<not> range_touches 0 0x100000 i \<and>
         \<not> range_touches (PA_ROUND_DOWN ks) (sub64 (PA_ROUND_UP ke) (PA_ROUND_DOWN ks)) i \<and>
         \<not> range_touches (pmm_carve_pa es ks ke) (pmm_carve_bytes es) i)" if "i < ?n" for i
    using that s0 s1 s2(3) [OF boot(1), of i] s3(3) [OF boot(2), of i] s4(3) [OF boot(3), of i] n by auto
  have "range_touches 0 0x100000 0"
    by (simp add: range_touches_def in_span_def PA_ROUND_DOWN_def PA_ROUND_UP_def add64_def PAGE_SIZE_eq)
  then have "is_used s4 0" using used [of 0] boot(4) n by (auto simp: pmm_boot_def pmm_shape_def)
  then have "pmm_inv s4" using boot(4) refs n by (intro no_owner_inv) auto
  then show "pmm_inv s" unfolding s by (simp add: pmm_inv_def)
  show pn: "pmm_managed_pages s = ?n" unfolding s using n by simp
  show "frame_of s i = (if i < pmm_managed_pages s \<and> (\<exists>e \<in> set es. entry_frees e i) \<and>
         \<not> range_touches 0 0x100000 i \<and>
         \<not> range_touches (PA_ROUND_DOWN ks) (sub64 (PA_ROUND_UP ke) (PA_ROUND_DOWN ks)) i \<and>
         \<not> range_touches (pmm_carve_pa es ks ke) (pmm_carve_bytes es) i
       then Free else Reserved)"
    using used [of i] refs n unfolding s by (auto simp: frame_of_def)
qed

section \<open>The allocator as the rest of the kernel sees it\<close>

text \<open>
  What the address-space code relies on: a page handed out was free and now has one owner, a
  reference adds an owner, a release takes one away and frees the frame with the last one, and no
  other frame is affected. The addresses are frame addresses; \<open>frames\<close> reads a frame's standing.
\<close>

locale frame_allocator =
  fixes inv :: "'s \<Rightarrow> bool"
    and frames :: "'s \<Rightarrow> nat \<Rightarrow> frame"
    and alloc :: "'s \<Rightarrow> 's \<times> u64"
    and release :: "u64 \<Rightarrow> 's \<Rightarrow> 's kres"
    and retain :: "u64 \<Rightarrow> 's \<Rightarrow> 's kres"
  assumes alloc_some: "inv s \<Longrightarrow> alloc s = (s', pa) \<Longrightarrow> pa \<noteq> PA_INVALID \<Longrightarrow>
      inv s' \<and> page_aligned pa \<and> frames s (page_index pa) = Free \<and>
      frames s' = (frames s)(page_index pa := Owned 1)"
    and alloc_none: "inv s \<Longrightarrow> alloc s = (s', PA_INVALID) \<Longrightarrow> s' = s \<and> (\<forall>i. frames s i \<noteq> Free)"
    and release_ok: "inv s \<Longrightarrow> page_aligned pa \<Longrightarrow> frames s (page_index pa) = Owned n \<Longrightarrow>
      \<exists>s'. release pa s = Ret s' \<and> inv s' \<and>
        frames s' = (frames s)(page_index pa := if n = 1 then Free else Owned (n - 1))"
    and release_bad: "inv s \<Longrightarrow> (\<forall>n. frames s (page_index pa) \<noteq> Owned n) \<Longrightarrow> \<exists>m. release pa s = Panic m"
    and retain_ok: "inv s \<Longrightarrow> page_aligned pa \<Longrightarrow> frames s (page_index pa) = Owned n \<Longrightarrow>
      n + 1 < 2 ^ 16 \<Longrightarrow>
      \<exists>s'. retain pa s = Ret s' \<and> inv s' \<and> frames s' = (frames s)(page_index pa := Owned (n + 1))"
begin

lemma retain_n:
  assumes "inv s" "page_aligned pa" "frames s (page_index pa) = Owned n" "n + k < 2 ^ 16"
  shows "\<exists>t. kiter k (retain pa) s = Ret t \<and> inv t \<and> frames t = (frames s)(page_index pa := Owned (n + k))"
  using assms
proof (induction k arbitrary: s n)
  case 0
  then show ?case by (auto simp: fun_eq_iff)
next
  case (Suc k)
  obtain s1 where s1: "retain pa s = Ret s1" "inv s1" "frames s1 = (frames s)(page_index pa := Owned (n + 1))"
    using retain_ok [OF Suc.prems(1-3)] Suc.prems(4) by auto
  have "frames s1 (page_index pa) = Owned (n + 1)" by (simp add: s1(3))
  moreover have "n + 1 + k < 2 ^ 16" using Suc.prems(4) by simp
  ultimately obtain t where t: "kiter k (retain pa) s1 = Ret t" "inv t"
      "frames t = (frames s1)(page_index pa := Owned (n + 1 + k))"
    using Suc.IH [OF s1(2) Suc.prems(2)] by blast
  then show ?case
    using s1(1,3) by (intro exI [of _ t]) simp
qed

lemma release_n:
  assumes "inv s" "page_aligned pa" "frames s (page_index pa) = Owned n" "k < n"
  shows "\<exists>t. kiter k (release pa) s = Ret t \<and> inv t \<and> frames t = (frames s)(page_index pa := Owned (n - k))"
  using assms
proof (induction k arbitrary: s n)
  case 0
  then show ?case by (auto simp: fun_eq_iff)
next
  case (Suc k)
  obtain s1 where s1: "release pa s = Ret s1" "inv s1" "frames s1 = (frames s)(page_index pa := Owned (n - 1))"
    using release_ok [OF Suc.prems(1-3)] Suc.prems(4) by auto
  have "frames s1 (page_index pa) = Owned (n - 1)" by (simp add: s1(3))
  moreover have "k < n - 1" using Suc.prems(4) by simp
  ultimately obtain t where t: "kiter k (release pa) s1 = Ret t" "inv t"
      "frames t = (frames s1)(page_index pa := Owned (n - 1 - k))"
    using Suc.IH [OF s1(2) Suc.prems(2)] by blast
  then show ?case
    using s1(1,3) by (intro exI [of _ t]) simp
qed

lemma release_all:
  assumes "inv s" "page_aligned pa" "frames s (page_index pa) = Owned (Suc k)"
  shows "\<exists>t. kiter (Suc k) (release pa) s = Ret t \<and> inv t \<and> frames t = (frames s)(page_index pa := Free)"
  using assms
proof (induction k arbitrary: s)
  case 0
  then show ?case using release_ok [OF 0] by auto
next
  case (Suc k)
  obtain s1 where s1: "release pa s = Ret s1" "inv s1"
      "frames s1 = (frames s)(page_index pa := Owned (Suc k))"
    using release_ok [OF Suc.prems] by auto
  have "frames s1 (page_index pa) = Owned (Suc k)" by (simp add: s1(3))
  from Suc.IH [OF s1(2) Suc.prems(2) this]
  obtain t where "kiter (Suc k) (release pa) s1 = Ret t" "inv t"
      "frames t = (frames s1)(page_index pa := Free)"
    by blast
  then show ?case
    using s1(1,3) by (intro exI [of _ t]) simp
qed

text \<open>A frame allocated, shared with \<open>k\<close> more owners and released by all of them is free again.\<close>

lemma share_cycle:
  assumes "inv s" "alloc s = (s1, pa)" "pa \<noteq> PA_INVALID" "k + 1 < 2 ^ 16"
  shows "\<exists>t u m. kiter k (retain pa) s1 = Ret t \<and> kiter (Suc k) (release pa) t = Ret u \<and>
    inv u \<and> frames u = frames s \<and> release pa u = Panic m"
proof -
  have s1: "inv s1" "page_aligned pa" "frames s (page_index pa) = Free"
    "frames s1 = (frames s)(page_index pa := Owned 1)"
    using alloc_some [OF assms(1-3)] by auto
  obtain t where t: "kiter k (retain pa) s1 = Ret t" "inv t"
      "frames t = (frames s)(page_index pa := Owned (Suc k))"
    using retain_n [OF s1(1,2), of 1 k] s1(4) assms(4) by auto
  obtain u where u: "kiter (Suc k) (release pa) t = Ret u" "inv u"
      "frames u = (frames s)(page_index pa := Free)"
    using release_all [OF t(2) s1(2), of k] t(3) by auto
  then have "frames u = frames s" using s1(3) by (auto simp: fun_eq_iff)
  moreover obtain m where "release pa u = Panic m"
    using release_bad [OF u(2), of pa] u(3) by auto
  ultimately show ?thesis using t u by blast
qed

lemma allocs_distinct:
  assumes "inv s" "alloc s = (s1, pa)" "pa \<noteq> PA_INVALID" "alloc s1 = (s2, pb)" "pb \<noteq> PA_INVALID"
  shows "page_index pa \<noteq> page_index pb \<and> frames s2 (page_index pa) = Owned 1"
proof -
  have s1: "inv s1" "frames s1 = (frames s)(page_index pa := Owned 1)"
    using alloc_some [OF assms(1-3)] by auto
  have "frames s1 (page_index pb) = Free" "frames s2 = (frames s1)(page_index pb := Owned 1)"
    using alloc_some [OF s1(1) assms(4,5)] by auto
  then show ?thesis using s1(2) by (auto split: if_splits)
qed

end

lemma pmm_page_standing:
  "pmm_inv s \<Longrightarrow> frame_of s i = Owned n \<Longrightarrow> 0 < n \<and> n < 2 ^ 16 \<and> i < pmm_managed_pages s"
  using pmm_coreD(8) [of s i] by (auto simp: pmm_inv_def frame_of_Owned_iff)

lemma frame_index_lt: "pmm_inv s \<Longrightarrow> i < pmm_managed_pages s \<Longrightarrow> i < 2 ^ 18"
  using pmm_coreD(5) [of s] by (simp add: pmm_inv_def)

interpretation pf: frame_allocator pmm_inv frame_of pmm_alloc_page pmm_free_page pmm_page_ref
proof (unfold_locales, goal_cases)
  case (1 s s' pa)
  then show ?case
    using frame_index_lt [OF 1(1)] by (cases rule: pmm_alloc_page_cases [OF 1(1,2)]) auto
next
  case (2 s s')
  then show ?case
    using frame_index_lt [OF 2(1)]
    by (cases rule: pmm_alloc_page_cases [OF 2]) (auto dest: sym)
next
  case (3 s pa n)
  then obtain s' where s': "pmm_free_page pa s = Ret s'"
    using pmm_free_page_Ret_iff [of s pa] by (auto simp: pmm_inv_def)
  then show ?case
    using pmm_free_page_step [OF 3(1) s'] 3(3) by (auto simp: drop_owner_def)
next
  case (4 s pa)
  then have "\<not> (\<exists>s'. pmm_free_page pa s = Ret s')"
    using pmm_free_page_Ret_iff [of s pa] by (auto simp: pmm_inv_def)
  then show ?case by (cases "pmm_free_page pa s") auto
next
  case (5 s pa n)
  then have "n \<noteq> 2 ^ 16 - 1" by simp
  then obtain s' where s': "pmm_page_ref pa s = Ret s'"
    using 5 pmm_page_ref_Ret_iff [of s pa] by (auto simp: pmm_inv_def)
  then show ?case
    using pmm_page_ref_step [OF 5(1) s'] 5(3) by (auto simp: add_owner_def)
qed

section \<open>What the component promises\<close>

definition frame_within :: "u64 \<Rightarrow> u64 \<Rightarrow> nat \<Rightarrow> bool" where
  "frame_within lo hi i \<longleftrightarrow> lo \<le> i * PAGE_SIZE \<and> i * PAGE_SIZE + PAGE_SIZE \<le> hi"

definition frame_meets :: "u64 \<Rightarrow> u64 \<Rightarrow> nat \<Rightarrow> bool" where
  "frame_meets lo hi i \<longleftrightarrow> lo < i * PAGE_SIZE + PAGE_SIZE \<and> i * PAGE_SIZE < hi"

lemma entry_frees_within:
  "me_base e + me_length e + PAGE_SIZE \<le> 2 ^ 64 \<Longrightarrow>
   entry_frees e i \<longleftrightarrow> me_type e = MEMMAP_FREE \<and> frame_within (me_base e) (me_base e + me_length e) i"
  using add64_small [of "me_base e" "me_length e"]
  by (auto simp: entry_frees_def frame_within_def in_span_def frame_less_ROUND_DOWN
      ROUND_UP_le_frame PAGE_SIZE_eq [symmetric]) (auto simp: PAGE_SIZE_eq)

lemma range_touches_meets:
  "0 < len \<Longrightarrow> base + len + PAGE_SIZE \<le> 2 ^ 64 \<Longrightarrow>
   range_touches base len i \<longleftrightarrow> frame_meets base (base + len) i"
  using add64_small [of base len] frame_less_ROUND_UP [of "base + len" i] PAGE_SIZE_pos
  by (simp add: range_touches_def frame_meets_def in_span_def ROUND_DOWN_le_frame)

lemma kernel_touches_meets:
  assumes "ks < ke" "ke \<le> 2 ^ 63"
  shows "range_touches (PA_ROUND_DOWN ks) (sub64 (PA_ROUND_UP ke) (PA_ROUND_DOWN ks)) i \<longleftrightarrow>
         frame_meets ks ke i"
proof -
  have nw: "ke + PAGE_SIZE \<le> 2 ^ 64" using assms(2) by (simp add: PAGE_SIZE_eq)
  have lt: "PA_ROUND_DOWN ks < PA_ROUND_UP ke"
    using assms(1) PA_ROUND_UP_le(1) [OF nw] PA_ROUND_DOWN_le [of ks] by linarith
  have up: "PA_ROUND_UP ke + PAGE_SIZE \<le> 2 ^ 64"
    using PA_ROUND_UP_le(2) [OF nw] assms(2) by (simp add: PAGE_SIZE_eq)
  then have "sub64 (PA_ROUND_UP ke) (PA_ROUND_DOWN ks) = PA_ROUND_UP ke - PA_ROUND_DOWN ks"
    using lt by (simp add: sub64_small PAGE_SIZE_eq)
  then have "range_touches (PA_ROUND_DOWN ks) (sub64 (PA_ROUND_UP ke) (PA_ROUND_DOWN ks)) i \<longleftrightarrow>
      frame_meets (PA_ROUND_DOWN ks) (PA_ROUND_UP ke) i"
    using range_touches_meets [of "PA_ROUND_UP ke - PA_ROUND_DOWN ks" "PA_ROUND_DOWN ks" i] lt up by simp
  moreover have "PA_ROUND_DOWN ks < i * PAGE_SIZE + PAGE_SIZE \<longleftrightarrow> ks < i * PAGE_SIZE + PAGE_SIZE"
    using ROUND_DOWN_le_frame [of ks i] ROUND_DOWN_le_frame [of "PA_ROUND_DOWN ks" i]
    by (simp add: page_aligned_ROUND_DOWN)
  ultimately show ?thesis
    by (simp add: frame_meets_def frame_less_ROUND_UP [OF nw])
qed

lemma carve_fits:
  assumes "max_free_end es \<noteq> 0" "pmm_carve_pa es ks ke \<noteq> PA_INVALID"
  shows "pmm_carve_pa es ks ke + pmm_carve_bytes es \<le> 2 ^ 30" "0 < pmm_carve_bytes es"
proof -
  show "pmm_carve_pa es ks ke + pmm_carve_bytes es \<le> 2 ^ 30"
    using carve_bitmap_storage_sound [OF refl assms(2) [unfolded pmm_carve_pa_def]]
      pmm_pa_end_facts(3) [of es] assms(1) by (auto simp: pmm_carve_pa_def)
  have "0 < page_index (pmm_pa_end es)"
    using pmm_pa_end_facts [of es] assms(1) aligned_index [of "pmm_pa_end es"] by (cases "page_index (pmm_pa_end es)") auto
  then show "0 < pmm_carve_bytes es"
    by (simp add: pmm_carve_bytes_def Let_def page_index_def)
qed

text \<open>
  C19. The frames that \<open>pmm_init\<close> leaves free are exactly the managed frames that lie wholly inside a
  FREE region of the memory map, at or above 1 MiB, and clear of the kernel image and of the bitmap
  and owner-count storage; every other frame is reserved and none has an owner. The state satisfies
  the allocator's invariant (counters equal to the number of used and of shared frames, owner counts
  in range, frame 0 never handed out). The memory map's regions must not wrap around.
\<close>
theorem pmm_init_frames:
  assumes "pmm_init mm ks ke = Ret s" and "ks < ke" and "ke \<le> 2 ^ 63"
    and "\<forall>e \<in> set (memmap_entries mm). me_base e + me_length e + PAGE_SIZE \<le> 2 ^ 64"
  shows "pmm_inv s \<and>
    (\<forall>i. frame_of s i =
       (if i < pmm_managed_pages s \<and>
           (\<exists>e \<in> set (memmap_entries mm).
              me_type e = MEMMAP_FREE \<and> frame_within (me_base e) (me_base e + me_length e) i) \<and>
           0x100000 \<le> i * PAGE_SIZE \<and> \<not> frame_meets ks ke i \<and>
           \<not> frame_meets (pmm_carve_pa (memmap_entries mm) ks ke)
               (pmm_carve_pa (memmap_entries mm) ks ke + pmm_carve_bytes (memmap_entries mm)) i
        then Free else Reserved))"
proof -
  let ?es = "memmap_entries mm"
  have ok: "max_free_end ?es \<noteq> 0" "pmm_carve_pa ?es ks ke \<noteq> PA_INVALID"
    using pmm_init_Ret_iff [of mm ks ke] assms(1) by auto
  have free: "(\<exists>e \<in> set ?es. entry_frees e i) \<longleftrightarrow> (\<exists>e \<in> set ?es.
      me_type e = MEMMAP_FREE \<and> frame_within (me_base e) (me_base e + me_length e) i)" for i
    using entry_frees_within assms(4) by auto
  have low: "range_touches 0 0x100000 i \<longleftrightarrow> \<not> 0x100000 \<le> i * PAGE_SIZE" for i
    using range_touches_meets [of "0x100000" 0 i] PAGE_SIZE_pos
    by (auto simp: frame_meets_def PAGE_SIZE_eq)
  have store: "range_touches (pmm_carve_pa ?es ks ke) (pmm_carve_bytes ?es) i \<longleftrightarrow>
      frame_meets (pmm_carve_pa ?es ks ke) (pmm_carve_pa ?es ks ke + pmm_carve_bytes ?es) i" for i
    using carve_fits [OF ok] by (intro range_touches_meets) (simp_all add: PAGE_SIZE_eq)
  show ?thesis
    using pmm_init_step(1) [OF assms(1)]
    unfolding pmm_init_step(3) [OF assms(1)] free low kernel_touches_meets [OF assms(2,3)] store
    by simp
qed

definition example_memmap :: memmap where
  "example_memmap =
     memmap_finish (memmap_add 0x100000 0x700000 MEMMAP_FREE
       (memmap_add 0 0x9FC00 MEMMAP_FREE memmap_empty))"

lemma example_memmap_entries:
  "memmap_entries example_memmap =
     [\<lparr>me_base = 0, me_length = 0x9FC00, me_type = MEMMAP_FREE, me_reserved = 0\<rparr>,
      \<lparr>me_base = 0x100000, me_length = 0x700000, me_type = MEMMAP_FREE, me_reserved = 0\<rparr>]"
  "memmap_max_pa example_memmap = 0x800000"
  by (simp_all add: example_memmap_def memmap_finish_def memmap_sort_def memmap_sort_entries_def
      memmap_add_def memmap_empty_def MEMMAP_MAX_ENTRIES_def memmap_recount_def memmap_count_entry_def
      Let_def upt_rec add64_def)

lemma example_memmap_carve:
  "max_free_end (memmap_entries example_memmap) = 0x800000"
  "pmm_pa_end (memmap_entries example_memmap) = 0x800000"
  "pmm_carve_bytes (memmap_entries example_memmap) = 0x2000"
  "pmm_carve_pa (memmap_entries example_memmap) 0x100000 0x200000 = 0x200000"
proof -
  note es = example_memmap_entries(1)
  show me: "max_free_end (memmap_entries example_memmap) = 0x800000"
    by (simp add: es max_free_end_def add64_def)
  show pe: "pmm_pa_end (memmap_entries example_memmap) = 0x800000"
    by (simp add: pmm_pa_end_def me PMM_HARD_CAP_BYTES_def PA_ROUND_UP_def PA_ROUND_DOWN_def add64_def
        PAGE_SIZE_eq)
  show bytes: "pmm_carve_bytes (memmap_entries example_memmap) = 0x2000"
    by (simp add: pmm_carve_bytes_def pe PAGE_SHIFT_def PA_ROUND_UP_def PA_ROUND_DOWN_def add64_def
        PAGE_SIZE_eq)
  show "pmm_carve_pa (memmap_entries example_memmap) 0x100000 0x200000 = 0x200000"
    unfolding pmm_carve_pa_def pe bytes
    by (simp add: es PA_ROUND_UP_def PA_ROUND_DOWN_def add64_def PAGE_SIZE_eq Let_def)
qed

lemma example_memmap_init:
  obtains s where "pmm_init example_memmap 0x100000 0x200000 = Ret s" "pmm_managed_pages s = 0x800"
proof -
  obtain s where s: "pmm_init example_memmap 0x100000 0x200000 = Ret s"
    using pmm_init_Ret_iff [of example_memmap "0x100000" "0x200000"]
    by (auto simp: example_memmap_entries(2) example_memmap_carve PA_INVALID_def)
  then show ?thesis
    using pmm_init_step(2) [OF s] by (intro that) (simp_all add: example_memmap_carve page_index_def PAGE_SHIFT_def)
qed

theorem pmm_init_frames_witness:
  "\<exists>s. pmm_init example_memmap 0x100000 0x200000 = Ret s \<and> pmm_inv s \<and>
       frame_of s 0x300 = Free \<and> frame_of s 0x150 = Reserved \<and> frame_of s 0x10 = Reserved"
proof -
  obtain s where s: "pmm_init example_memmap 0x100000 0x200000 = Ret s" "pmm_managed_pages s = 0x800"
    by (rule example_memmap_init)
  then show ?thesis
    using pmm_init_frames [OF s(1)]
    by (simp add: example_memmap_entries(1) frame_within_def frame_meets_def example_memmap_carve(3,4)
        [unfolded example_memmap_entries(1)] PAGE_SIZE_eq)
qed

text \<open>
  C20. The storage \<open>pmm_init\<close> carves for the bitmap and the owner counts is page aligned, lies inside
  one FREE region and below the end of the managed memory, holds both tables, does not overlap the
  kernel image, and none of its frames is ever free after boot.
\<close>
theorem pmm_init_storage:
  assumes "pmm_init mm ks ke = Ret s" and "ks < ke" and "ke \<le> 2 ^ 63"
  defines "pa \<equiv> pmm_carve_pa (memmap_entries mm) ks ke"
    and "bytes \<equiv> pmm_carve_bytes (memmap_entries mm)"
  shows "page_aligned pa \<and> pa + bytes \<le> pmm_managed_pa_end s \<and>
    8 * ((pmm_managed_pages s + 63) div 64) + 2 * pmm_managed_pages s \<le> bytes \<and>
    (\<exists>e \<in> set (memmap_entries mm). me_type e = MEMMAP_FREE \<and>
       PA_ROUND_UP (me_base e) \<le> pa \<and>
       pa + bytes \<le> PA_ROUND_DOWN (add64 (me_base e) (me_length e))) \<and>
    (ke \<le> pa \<or> pa + bytes \<le> ks) \<and>
    (\<forall>i. frame_meets pa (pa + bytes) i \<longrightarrow> frame_of s i = Reserved)"
proof -
  let ?es = "memmap_entries mm"
  have ok: "max_free_end ?es \<noteq> 0" "pmm_carve_pa ?es ks ke \<noteq> PA_INVALID"
    using pmm_init_Ret_iff [of mm ks ke] assms(1) by auto
  have pe: "pmm_managed_pa_end s = pmm_pa_end ?es"
    using pmm_init_step(1,2) [OF assms(1)] aligned_index [OF pmm_pa_end_facts(1), of ?es] ok(1)
    by (simp add: pmm_inv_def pmm_coreD)
  have pages: "pmm_managed_pages s = pmm_pa_end ?es div 2 ^ PAGE_SHIFT" "pmm_managed_pages s \<le> 2 ^ 18"
    using pmm_init_step(1,2) [OF assms(1)] pmm_coreD(5) [of s] by (auto simp: page_index_def pmm_inv_def)
  have "(pmm_managed_pages s + 63) div 64 * 8 + PAGE_SIZE \<le> 2 ^ 64"
    using pages(2) by (simp add: PAGE_SIZE_eq)
  then have room: "8 * ((pmm_managed_pages s + 63) div 64) + 2 * pmm_managed_pages s \<le> bytes"
    using PA_ROUND_UP_le(1) unfolding bytes_def pmm_carve_bytes_def Let_def pages(1) [symmetric]
    by (metis add_le_mono1 mult.commute)
  have nw: "ke + PAGE_SIZE \<le> 2 ^ 64" using assms(3) by (simp add: PAGE_SIZE_eq)
  obtain e where e: "e \<in> set ?es" "me_type e = MEMMAP_FREE" "PA_ROUND_UP (me_base e) \<le> pa"
    "pa + bytes \<le> PA_ROUND_DOWN (add64 (me_base e) (me_length e))" "pa + bytes \<le> pmm_pa_end ?es"
    "PA_ROUND_UP ke \<le> pa \<or> pa + bytes \<le> PA_ROUND_DOWN ks"
    using carve_bitmap_storage_sound [OF refl ok(2) [unfolded pmm_carve_pa_def]]
    by (auto simp: pa_def bytes_def pmm_carve_pa_def)
  have "ke \<le> pa \<or> pa + bytes \<le> ks"
    using e(6) PA_ROUND_UP_le(1) [OF nw] PA_ROUND_DOWN_le [of ks] by linarith
  moreover have "range_touches pa bytes i" if "frame_meets pa (pa + bytes) i" for i
    using that carve_fits [OF ok] range_touches_meets [of bytes pa i]
    by (simp add: pa_def bytes_def PAGE_SIZE_eq)
  then have "\<forall>i. frame_meets pa (pa + bytes) i \<longrightarrow> frame_of s i = Reserved"
    by (auto simp: pmm_init_step(3) [OF assms(1)] pa_def bytes_def)
  moreover have "page_aligned pa"
    using carve_bitmap_storage_aligned [OF refl ok(2) [unfolded pmm_carve_pa_def]]
    by (simp add: pa_def pmm_carve_pa_def)
  ultimately show ?thesis using e pe room by auto
qed

theorem pmm_init_storage_witness:
  "\<exists>s. pmm_init example_memmap 0x100000 0x200000 = Ret s \<and>
       0x200000 + 0x2000 \<le> pmm_managed_pa_end s \<and> frame_of s 0x201 = Reserved"
proof -
  obtain s where s: "pmm_init example_memmap 0x100000 0x200000 = Ret s" "pmm_managed_pages s = 0x800"
    by (rule example_memmap_init)
  then show ?thesis
    using pmm_init_storage [OF s(1)] unfolding example_memmap_carve
    by (simp add: frame_meets_def PAGE_SIZE_eq)
qed

lemma pmm_free_pages_count_card:
  assumes "pmm_inv s"
  shows "pmm_free_pages_count s = card {i. frame_of s i = Free}"
proof -
  have core: "pmm_core s" and cnt: "pmm_used_count s = card (used_frames s)"
    using assms by (auto simp: pmm_inv_def)
  have "{i. frame_of s i = Free} = {..<pmm_managed_pages s} - used_frames s"
    by (auto simp: frame_of_Free_iff used_frames_def)
  moreover have "used_frames s \<subseteq> {..<pmm_managed_pages s}" by (auto simp: used_frames_def)
  ultimately have "card {i. frame_of s i = Free} = pmm_managed_pages s - card (used_frames s)"
    by (simp add: card_Diff_subset)
  then show ?thesis
    using cnt card_frames_le(1) [of s] pmm_coreD(5) [OF core]
    by (simp add: pmm_free_pages_count_def sub64_small)
qed

text \<open>A machine of five frames, all free but frame 0.\<close>

definition five_frames :: "64 word \<Rightarrow> u64 \<Rightarrow> u64 \<Rightarrow> nat list \<Rightarrow> u64 \<Rightarrow> pmm" where
  "five_frames w hint used refs lastref =
     \<lparr>pmm_bitmap = [w], pmm_managed_pages = 5, pmm_managed_pa_end = 0x5000, pmm_alloc_hint = hint,
      pmm_used_count = used, pmm_refs = refs, pmm_shared_count = 0, pmm_n_ref = 0,
      pmm_n_lastref = lastref\<rparr>"

definition example_pmm :: pmm where
  "example_pmm = five_frames 1 0 1 [0, 0, 0, 0, 0] 0"

lemma example_pmm_used: "i < 5 \<Longrightarrow> is_used example_pmm i \<longleftrightarrow> i = 0"
  by (simp add: is_used_bit example_pmm_def five_frames_def bit_1_iff)

lemma example_pmm_inv: "pmm_inv example_pmm"
proof (rule no_owner_inv)
  have "used_frames example_pmm = {0}"
    using example_pmm_used by (auto simp: used_frames_def example_pmm_def five_frames_def)
  then show "pmm_boot example_pmm"
    by (simp add: pmm_boot_def) (simp add: example_pmm_def five_frames_def pmm_shape_def bitmap_covers_def PAGE_SIZE_eq)
  show "is_used example_pmm 0" by (simp add: example_pmm_used)
qed (auto simp: example_pmm_def five_frames_def nth_Cons')

lemma example_pmm_frame: "frame_of example_pmm i = (if 0 < i \<and> i < 5 then Free else Reserved)"
  using example_pmm_used [of i]
  by (auto simp: frame_of_def) (simp_all add: example_pmm_def five_frames_def)

text \<open>
  C21. \<open>pmm_alloc_page\<close> fails, changing nothing, exactly when no frame is free. Otherwise it returns
  the address of a frame that was free, which now has one owner; no other frame changes, the free
  count drops by one and the invariant is kept.
\<close>
theorem pmm_alloc_page_correct:
  assumes "pmm_inv s" and "pmm_alloc_page s = (s', pa)"
  shows "if pa = PA_INVALID then s' = s \<and> (\<forall>i. frame_of s i \<noteq> Free)
     else page_aligned pa \<and> frame_of s (page_index pa) = Free \<and>
          frame_of s' = (frame_of s)(page_index pa := Owned 1) \<and> pmm_inv s' \<and>
          pmm_free_pages_count s = pmm_free_pages_count s' + 1"
proof (cases "pa = PA_INVALID")
  case True
  then show ?thesis using pf.alloc_none [of s s'] assms by simp
next
  case False
  note ok = pf.alloc_some [OF assms False]
  have "{i. frame_of s i = Free} = insert (page_index pa) {i. frame_of s' i = Free}"
    using ok by auto
  moreover have "page_index pa \<notin> {i. frame_of s' i = Free}" using ok by simp
  moreover have "finite {i. frame_of s' i = Free}"
    by (rule finite_subset [of _ "{..<pmm_managed_pages s'}"]) (auto simp: frame_of_Free_iff)
  ultimately have "card {i. frame_of s i = Free} = card {i. frame_of s' i = Free} + 1" by simp
  then show ?thesis using ok assms False by (simp add: pmm_free_pages_count_card)
qed

lemma example_pmm_alloc: "snd (pmm_alloc_page example_pmm) \<noteq> PA_INVALID"
  using pf.alloc_none [of example_pmm "fst (pmm_alloc_page example_pmm)"] example_pmm_inv
    example_pmm_frame [of 1]
  by (cases "pmm_alloc_page example_pmm") auto

theorem pmm_alloc_page_correct_witness:
  "\<exists>s' pa. pmm_alloc_page example_pmm = (s', pa) \<and> pa \<noteq> PA_INVALID \<and> frame_of s' (page_index pa) = Owned 1"
  using pmm_alloc_page_correct [OF example_pmm_inv] example_pmm_alloc
  by (cases "pmm_alloc_page example_pmm") auto

text \<open>
  C22. \<open>pmm_free_page\<close> returns exactly when the address is a frame boundary and the frame has an
  owner, and then takes away one owner, freeing the frame with the last one and touching no other
  frame. Every other call (unaligned, outside the managed memory, free already, or reserved) panics.
\<close>
theorem pmm_free_page_correct:
  assumes "pmm_inv s"
  shows "case pmm_free_page pa s of
      Ret s' \<Rightarrow> page_aligned pa \<and> pmm_inv s' \<and>
        (\<exists>n. frame_of s (page_index pa) = Owned n \<and>
             frame_of s' = (frame_of s)(page_index pa := if n = 1 then Free else Owned (n - 1)))
    | Panic msg \<Rightarrow> \<not> page_aligned pa \<or> (\<forall>n. frame_of s (page_index pa) \<noteq> Owned n)"
proof (cases "pmm_free_page pa s")
  case (Ret s')
  moreover obtain n where "page_aligned pa" "frame_of s (page_index pa) = Owned n"
    using Ret assms pmm_free_page_Ret_iff [of s pa] by (auto simp: pmm_inv_def)
  ultimately show ?thesis using pf.release_ok [OF assms, of pa n] by auto
next
  case (Panic msg)
  then show ?thesis using assms pmm_free_page_Ret_iff [of s pa] by (auto simp: pmm_inv_def)
qed

theorem pmm_free_page_correct_witness:
  "pmm_inv example_pmm \<and>
   (\<exists>msg. pmm_free_page 0x1000 example_pmm = Panic msg \<and> frame_of example_pmm (page_index 0x1000) = Free)"
  using pmm_free_page_correct [OF example_pmm_inv, of "0x1000"] example_pmm_inv
  by (cases "pmm_free_page 0x1000 example_pmm")
    (auto simp: example_pmm_frame page_index_def PAGE_SHIFT_def)

text \<open>
  C23. \<open>pmm_page_ref\<close> returns exactly when the frame has an owner and fewer than 65535 of them, and
  then adds one owner and touches no other frame; the sixteen-bit count never wraps. Every other call
  panics.
\<close>
theorem pmm_page_ref_correct:
  assumes "pmm_inv s"
  shows "case pmm_page_ref pa s of
      Ret s' \<Rightarrow> page_aligned pa \<and> pmm_inv s' \<and>
        (\<exists>n < 2 ^ 16 - 1. frame_of s (page_index pa) = Owned n \<and>
             frame_of s' = (frame_of s)(page_index pa := Owned (n + 1)))
    | Panic msg \<Rightarrow> \<not> page_aligned pa \<or> (\<forall>n < 2 ^ 16 - 1. frame_of s (page_index pa) \<noteq> Owned n)"
proof (cases "pmm_page_ref pa s")
  case (Ret s')
  moreover obtain n where n: "page_aligned pa" "frame_of s (page_index pa) = Owned n" "n \<noteq> 2 ^ 16 - 1"
    using Ret assms pmm_page_ref_Ret_iff [of s pa] by (auto simp: pmm_inv_def)
  then have "n < 2 ^ 16 - 1" using pmm_page_standing [OF assms n(2)] by simp
  ultimately show ?thesis using n pf.retain_ok [OF assms, of pa n] by auto
next
  case (Panic msg)
  then show ?thesis using assms pmm_page_ref_Ret_iff [of s pa] by (auto simp: pmm_inv_def)
qed

theorem pmm_page_ref_correct_witness:
  "\<exists>s' pa s''. pmm_alloc_page example_pmm = (s', pa) \<and> pmm_page_ref pa s' = Ret s'' \<and>
     frame_of s'' (page_index pa) = Owned (1 + 1)"
proof -
  obtain s' pa where a: "pmm_alloc_page example_pmm = (s', pa)" by force
  then have "pmm_inv s'" "page_aligned pa" "frame_of s' (page_index pa) = Owned 1"
    using pf.alloc_some [OF example_pmm_inv a] example_pmm_alloc by auto
  then show ?thesis
    using a pmm_page_ref_correct [of s' pa] by (cases "pmm_page_ref pa s'") (auto dest: spec [of _ 1])
qed

text \<open>
  C24. A frame allocated, then given \<open>k\<close> further owners with \<open>pmm_page_ref\<close>, is freed by exactly
  \<open>k + 1\<close> calls of \<open>pmm_free_page\<close>: after them every frame stands as before the allocation, and one
  more release panics.
\<close>
theorem pmm_share_cycle:
  assumes "pmm_inv s" and "pmm_alloc_page s = (s1, pa)" and "pa \<noteq> PA_INVALID" and "k + 1 < 2 ^ 16"
  shows "\<exists>t u msg. kiter k (pmm_page_ref pa) s1 = Ret t \<and> kiter (Suc k) (pmm_free_page pa) t = Ret u \<and>
    pmm_inv u \<and> frame_of u = frame_of s \<and> pmm_free_page pa u = Panic msg"
  by (rule pf.share_cycle [OF assms])

theorem pmm_share_cycle_witness:
  "\<exists>s1 pa t u msg. pmm_alloc_page example_pmm = (s1, pa) \<and> kiter 3 (pmm_page_ref pa) s1 = Ret t \<and>
     kiter (Suc 3) (pmm_free_page pa) t = Ret u \<and> frame_of u = frame_of example_pmm \<and>
     pmm_free_page pa u = Panic msg"
proof -
  obtain s1 pa where a: "pmm_alloc_page example_pmm = (s1, pa)" by force
  then have "pa \<noteq> PA_INVALID" using example_pmm_alloc by simp
  then show ?thesis using pmm_share_cycle [OF example_pmm_inv a, of 3] a by auto
qed



lemmas pmm_eval =
  pmm_alloc_page_def alloc_page_scan.simps pmm_alloc_pages_def alloc_run_scan.simps free_run.simps
  claim_run_def pmm_free_page_def mark_used_def mark_free_def ref_set_def is_used_def
  page_index_def pa_from_index_def page_aligned_def shl64_def add64_def sub64_def
  PAGE_SIZE_eq PAGE_SHIFT_def KASSERT_def

lemma five_frames_run:
  "pmm_alloc_page example_pmm = (five_frames 3 2 2 [0, 1, 0, 0, 0] 0, 0x1000)"
  "pmm_alloc_page (five_frames 3 2 2 [0, 1, 0, 0, 0] 0) = (five_frames 7 3 3 [0, 1, 1, 0, 0] 0, 0x2000)"
  "pmm_free_page 0x1000 (five_frames 7 3 3 [0, 1, 1, 0, 0] 0) = Ret (five_frames 5 1 2 [0, 0, 1, 0, 0] 1)"
  "pmm_alloc_pages (five_frames 5 1 2 [0, 0, 1, 0, 0] 1) 2 = (five_frames 29 5 4 [0, 0, 1, 1, 1] 1, 0x3000)"
  "pmm_free_page 0x2000 (five_frames 29 5 4 [0, 0, 1, 1, 1] 1) = Ret (five_frames 25 2 3 [0, 0, 0, 1, 1] 2)"
  "pmm_alloc_pages (five_frames 25 2 3 [0, 0, 0, 1, 1] 2) 2 = (five_frames 25 2 3 [0, 0, 0, 1, 1] 2, PA_INVALID)"
  by (simp_all add: example_pmm_def five_frames_def pmm_eval Let_def upt_rec)

text \<open>
  C20. The search of \<open>pmm_alloc_pages\<close> is not complete: in a state the allocator itself reaches from
  four free frames (two allocated one by one, the first of them freed, a pair allocated, the second
  freed) frames 1 and 2 are both free, and yet a request for two frames fails. The second scan stops
  at runs that end at the hint, so a run across the hint is seen by neither scan.
\<close>
theorem pmm_alloc_pages_misses_run:
  "pmm_inv example_pmm \<and>
   (\<exists>s. kbind (pmm_free_page 0x1000 (fst (pmm_alloc_page (fst (pmm_alloc_page example_pmm)))))
          (\<lambda>s1. pmm_free_page 0x2000 (fst (pmm_alloc_pages s1 2))) = Ret s \<and>
        frame_of s 1 = Free \<and> frame_of s 2 = Free \<and> pmm_alloc_pages s 2 = (s, PA_INVALID))"
proof (intro conjI exI [of _ "five_frames 25 2 3 [0, 0, 0, 1, 1] 2"])
  let ?s = "five_frames 25 2 3 [0, 0, 0, 1, 1] 2"
  show "pmm_inv example_pmm" by (rule example_pmm_inv)
  show "kbind (pmm_free_page 0x1000 (fst (pmm_alloc_page (fst (pmm_alloc_page example_pmm)))))
          (\<lambda>s1. pmm_free_page 0x2000 (fst (pmm_alloc_pages s1 2))) = Ret ?s"
    by (simp only: five_frames_run fst_conv kbind.simps)
  show "frame_of ?s 1 = Free" "frame_of ?s 2 = Free"
    by (simp_all add: frame_of_Free_iff is_used_def five_frames_def)
qed (rule five_frames_run)

text \<open>
  C21. \<open>pmm_free_pages\<close> undoes \<open>pmm_alloc_pages\<close>: the run just allocated can be freed, and then every
  frame stands as it did before the allocation. If one frame of the run has meanwhile got a second
  owner, \<open>pmm_free_pages\<close> panics instead of freeing it under that owner.
\<close>
theorem pmm_run_roundtrip:
  assumes "pmm_inv s" and "1 < n" and "pmm_alloc_pages s n = (s1, pa)" and "pa \<noteq> PA_INVALID"
  shows "(\<exists>s2. pmm_free_pages pa n s1 = Ret s2 \<and> pmm_inv s2 \<and> frame_of s2 = frame_of s) \<and>
    (\<forall>k < n. \<forall>t. pmm_page_ref (pa_from_index (page_index pa + k)) s1 = Ret t \<longrightarrow>
       (\<exists>msg. pmm_free_pages pa n t = Panic msg))"
  using assms(1-3)
proof (cases rule: pmm_alloc_pages_run)
  case (some start)
  have small: "start + k < 2 ^ 18" if "k < n" for k
    using that some(4) pmm_coreD(5) [of s] assms(1) by (simp add: pmm_inv_def)
  then have pa: "page_index pa = start" "page_aligned pa"
    using some(1) small [of 0] assms(2) by simp_all
  have own: "\<forall>k < n. frame_of s1 (start + k) = Owned 1"
    using some(5) by (simp add: take_run_def)
  then obtain s2 where s2: "pmm_free_pages pa n s1 = Ret s2"
    using pmm_free_pages_Ret_iff [of s1 pa n] some(6) pa by (auto simp: pmm_inv_def)
  have "drop_run start n (take_run start n (frame_of s)) i = frame_of s i" for i
    using some(2) by (auto simp: drop_run_def take_run_def free_at_def) (metis le_Suc_ex nat_add_left_cancel_less)
  then have "pmm_inv s2" "frame_of s2 = frame_of s"
    using pmm_free_pages_step [OF some(6) s2] some(5) pa by (auto simp: fun_eq_iff)
  moreover have "\<exists>msg. pmm_free_pages pa n t = Panic msg"
    if k: "k < n" and ref: "pmm_page_ref (pa_from_index (start + k)) s1 = Ret t" for k t
  proof -
    have "pmm_inv t" "frame_of t (start + k) = Owned 2"
      using pmm_page_ref_step [OF some(6) ref] small [OF k] own k by (simp_all add: add_owner_def)
    then have "\<not> (\<exists>u. pmm_free_pages pa n t = Ret u)"
      using pmm_free_pages_Ret_iff [of t pa n] pa(1) k by (auto simp: pmm_inv_def)
    then show ?thesis by (cases "pmm_free_pages pa n t") auto
  qed
  ultimately show ?thesis using s2 pa(1) by blast
qed (use assms(4) in simp)

theorem pmm_run_roundtrip_witness:
  "\<exists>s1 pa s2. pmm_alloc_pages example_pmm 3 = (s1, pa) \<and> pmm_free_pages pa 3 s1 = Ret s2 \<and>
     frame_of s2 = frame_of example_pmm"
proof -
  obtain s1 pa where a: "pmm_alloc_pages example_pmm 3 = (s1, pa)" by force
  have "pa \<noteq> PA_INVALID"
    using a by (auto simp: example_pmm_def five_frames_def pmm_eval Let_def PA_INVALID_def)
  then show ?thesis using pmm_run_roundtrip [OF example_pmm_inv _ a] a by auto
qed

end
