(* ===== verification/Pmap.thy ===== *)
theory Pmap
  imports Pmm
begin

unbundle bit_operations_syntax

text \<open>
  \<open>arch/amd64/pmap.c\<close>: four-level page tables. Physical memory is a function from frame number and
  slot to the 64-bit word in it, since the kernel reaches a frame through the boot identity map
  (\<open>pmm_kva_from_pa\<close>): a page of data is 512 words, and so is a page table. The state \<open>mstate\<close> holds
  the frame allocator, the memory, and the pages whose translation was dropped with \<open>pmap_invlpg\<close>,
  latest first. How the invalidation reaches the other processors is not modelled here.

  A page table is named by the frame it is in; a table pointer \<open>NULL\<close> is \<open>None\<close>. The pmap's own
  lock is held across each operation. The kernel's pmap is the argument \<open>kp\<close>.
\<close>

section \<open>State\<close>

record mstate =
  ms_pmm :: pmm
  ms_mem :: "nat \<Rightarrow> nat \<Rightarrow> 64 word"
  ms_inval :: "u64 list"

record pmap =
  pm_pml4_pa :: u64
  pm_leafs :: u64
  pm_intermediates :: u64
  pm_is_kernel :: bool

definition PTE_P :: "64 word" where "PTE_P = push_bit 0 1"
definition PTE_RW :: "64 word" where "PTE_RW = push_bit 1 1"
definition PTE_US :: "64 word" where "PTE_US = push_bit 2 1"
definition PTE_PWT :: "64 word" where "PTE_PWT = push_bit 3 1"
definition PTE_PCD :: "64 word" where "PTE_PCD = push_bit 4 1"
definition PTE_PS :: "64 word" where "PTE_PS = push_bit 7 1"
definition PTE_G :: "64 word" where "PTE_G = push_bit 8 1"
definition PTE_NX :: "64 word" where "PTE_NX = push_bit 63 1"
definition PTE_PA_MASK :: "64 word" where "PTE_PA_MASK = 0x000FFFFFFFFFF000"

definition PMAP_NOCACHE :: "32 word" where "PMAP_NOCACHE = 0x100"
definition PMAP_GLOBAL :: "32 word" where "PMAP_GLOBAL = 0x200"

definition pml4_idx :: "u64 \<Rightarrow> nat" where "pml4_idx va = va div 2 ^ 39 mod 512"
definition pdpt_idx :: "u64 \<Rightarrow> nat" where "pdpt_idx va = va div 2 ^ 30 mod 512"
definition pd_idx :: "u64 \<Rightarrow> nat" where "pd_idx va = va div 2 ^ 21 mod 512"
definition pt_idx :: "u64 \<Rightarrow> nat" where "pt_idx va = va div 2 ^ 12 mod 512"

section \<open>Memory\<close>

definition set_slot :: "nat \<Rightarrow> nat \<Rightarrow> 64 word \<Rightarrow> mstate \<Rightarrow> mstate" where
  "set_slot f i w s = s\<lparr>ms_mem := (ms_mem s)(f := (ms_mem s f)(i := w))\<rparr>"

text \<open>A loop that stores zero into the 512 words of a frame.\<close>

definition zero_frame :: "nat \<Rightarrow> mstate \<Rightarrow> mstate" where
  "zero_frame f s = s\<lparr>ms_mem := (ms_mem s)(f := (\<lambda>i. if i < 512 then 0 else ms_mem s f i))\<rparr>"

definition pmap_invlpg :: "u64 \<Rightarrow> mstate \<Rightarrow> mstate" where
  "pmap_invlpg va s = s\<lparr>ms_inval := va # ms_inval s\<rparr>"

definition present :: "64 word \<Rightarrow> bool" where "present e \<longleftrightarrow> e AND PTE_P \<noteq> 0"
definition huge :: "64 word \<Rightarrow> bool" where "huge e \<longleftrightarrow> e AND PTE_PS \<noteq> 0"

text \<open>\<open>table_va\<close>: the frame of the table an entry names.\<close>

definition table_va :: "64 word \<Rightarrow> nat" where
  "table_va e = page_index (unat (e AND PTE_PA_MASK))"

definition pml4_frame :: "pmap \<Rightarrow> nat" where
  "pml4_frame pm = page_index (pm_pml4_pa pm)"

section \<open>Walking and changing the tables\<close>

definition ensure_table ::
  "nat \<Rightarrow> nat \<Rightarrow> bool \<Rightarrow> pmap \<Rightarrow> mstate \<Rightarrow> nat option \<times> pmap \<times> mstate" where
  "ensure_table parent idx user pm s =
     (let e = ms_mem s parent idx in
      if present e then
        if huge e then (None, pm, s)
        else let s1 = (if user \<and> e AND PTE_US = 0
                       then pmap_invlpg (parent * PAGE_SIZE) (set_slot parent idx (e OR PTE_US) s)
                       else s)
             in (Some (table_va e), pm, s1)
      else case pmm_alloc_page (ms_pmm s) of (a, pa) \<Rightarrow>
        if pa = PA_INVALID then (None, pm, s\<lparr>ms_pmm := a\<rparr>)
        else let tbl = page_index pa;
                 s1 = zero_frame tbl (s\<lparr>ms_pmm := a\<rparr>);
                 s2 = set_slot parent idx
                        (of_nat pa OR PTE_P OR PTE_RW OR (if user then PTE_US else 0)) s1
             in (Some tbl, pm\<lparr>pm_intermediates := add64 (pm_intermediates pm) 1\<rparr>, s2))"

definition leaf_flags :: "32 word \<Rightarrow> 64 word" where
  "leaf_flags prot =
     PTE_P OR (if prot AND VM_PROT_WRITE \<noteq> 0 then PTE_RW else 0)
       OR (if prot AND VM_PROT_EXEC = 0 then PTE_NX else 0)
       OR (if prot AND VM_PROT_USER \<noteq> 0 then PTE_US else 0)
       OR (if prot AND PMAP_NOCACHE \<noteq> 0 then PTE_PCD OR PTE_PWT else 0)
       OR (if prot AND PMAP_GLOBAL \<noteq> 0 then PTE_G else 0)"

definition pmap_enter_locked ::
  "pmap \<Rightarrow> u64 \<Rightarrow> u64 \<Rightarrow> 32 word \<Rightarrow> mstate \<Rightarrow> (bool \<times> pmap \<times> mstate) kres" where
  "pmap_enter_locked pm va pa prot s =
     KASSERT (page_aligned va) ''pmap_enter: unaligned VA''
     (KASSERT (page_aligned pa) ''pmap_enter: unaligned PA''
     (let user = (prot AND VM_PROT_USER \<noteq> 0) in
      case ensure_table (pml4_frame pm) (pml4_idx va) user pm s of
        (None, pm1, s1) \<Rightarrow> Ret (False, pm1, s1)
      | (Some pdpt, pm1, s1) \<Rightarrow>
      (case ensure_table pdpt (pdpt_idx va) user pm1 s1 of
         (None, pm2, s2) \<Rightarrow> Ret (False, pm2, s2)
       | (Some pd, pm2, s2) \<Rightarrow>
       (case ensure_table pd (pd_idx va) user pm2 s2 of
          (None, pm3, s3) \<Rightarrow> Ret (False, pm3, s3)
        | (Some pt, pm3, s3) \<Rightarrow>
            let old = ms_mem s3 pt (pt_idx va);
                s4 = set_slot pt (pt_idx va) ((of_nat pa AND PTE_PA_MASK) OR leaf_flags prot) s3
            in if present old then Ret (True, pm3, pmap_invlpg va s4)
               else Ret (True, pm3\<lparr>pm_leafs := add64 (pm_leafs pm3) 1\<rparr>, s4)))))"

definition pmap_enter ::
  "pmap \<Rightarrow> u64 \<Rightarrow> u64 \<Rightarrow> 32 word \<Rightarrow> mstate \<Rightarrow> (bool \<times> pmap \<times> mstate) kres" where
  "pmap_enter pm va pa prot s = pmap_enter_locked pm va pa prot s"

text \<open>One step down: the table an entry names, unless it is absent or a huge page.\<close>

definition descend :: "mstate \<Rightarrow> nat \<Rightarrow> nat \<Rightarrow> nat option" where
  "descend s f i = (let e = ms_mem s f i in if \<not> present e \<or> huge e then None else Some (table_va e))"

definition pmap_remove_locked :: "pmap \<Rightarrow> u64 \<Rightarrow> mstate \<Rightarrow> bool \<times> pmap \<times> mstate" where
  "pmap_remove_locked pm va s =
     (case descend s (pml4_frame pm) (pml4_idx va) of
        None \<Rightarrow> (False, pm, s)
      | Some pdpt \<Rightarrow>
      (case descend s pdpt (pdpt_idx va) of
         None \<Rightarrow> (False, pm, s)
       | Some pd \<Rightarrow>
       (case descend s pd (pd_idx va) of
          None \<Rightarrow> (False, pm, s)
        | Some pt \<Rightarrow>
            if \<not> present (ms_mem s pt (pt_idx va)) then (False, pm, s)
            else (True, pm\<lparr>pm_leafs := sub64 (pm_leafs pm) 1\<rparr>,
                  pmap_invlpg va (set_slot pt (pt_idx va) 0 s)))))"

definition pmap_remove :: "pmap \<Rightarrow> u64 \<Rightarrow> mstate \<Rightarrow> bool \<times> pmap \<times> mstate" where
  "pmap_remove pm va s = pmap_remove_locked pm va s"

definition pmap_extract_locked :: "pmap \<Rightarrow> u64 \<Rightarrow> mstate \<Rightarrow> u64" where
  "pmap_extract_locked pm va s =
     (let e4 = ms_mem s (pml4_frame pm) (pml4_idx va) in
      if \<not> present e4 then PA_INVALID
      else let e3 = ms_mem s (table_va e4) (pdpt_idx va) in
      if \<not> present e3 then PA_INVALID
      else if huge e3 then unat ((e3 AND PTE_PA_MASK) OR of_nat (va mod 2 ^ 30))
      else let e2 = ms_mem s (table_va e3) (pd_idx va) in
      if \<not> present e2 then PA_INVALID
      else if huge e2 then unat ((e2 AND PTE_PA_MASK) OR of_nat (va mod 2 ^ 21))
      else let e1 = ms_mem s (table_va e2) (pt_idx va) in
      if \<not> present e1 then PA_INVALID
      else unat ((e1 AND PTE_PA_MASK) OR of_nat (va mod PAGE_SIZE)))"

definition pmap_extract :: "pmap \<Rightarrow> u64 \<Rightarrow> mstate \<Rightarrow> u64" where
  "pmap_extract pm va s = pmap_extract_locked pm va s"

definition pmap_kenter :: "pmap \<Rightarrow> u64 \<Rightarrow> u64 \<Rightarrow> 32 word \<Rightarrow> mstate \<Rightarrow> (bool \<times> pmap \<times> mstate) kres" where
  "pmap_kenter kp va pa flags s = pmap_enter kp va pa flags s"

definition pmap_kremove :: "pmap \<Rightarrow> u64 \<Rightarrow> mstate \<Rightarrow> bool \<times> pmap \<times> mstate" where
  "pmap_kremove kp va s = pmap_remove kp va s"

definition pmap_kextract :: "pmap \<Rightarrow> u64 \<Rightarrow> mstate \<Rightarrow> u64" where
  "pmap_kextract kp va s = pmap_extract kp va s"

section \<open>Creating and destroying a task's tables\<close>

definition free_frame :: "u64 \<Rightarrow> mstate \<Rightarrow> mstate kres" where
  "free_frame pa s = kbind (pmm_free_page pa (ms_pmm s)) (\<lambda>a. Ret (s\<lparr>ms_pmm := a\<rparr>))"

definition pmap_create :: "bool \<Rightarrow> pmap \<Rightarrow> mstate \<Rightarrow> (pmap option \<times> mstate) kres" where
  "pmap_create kmalloc_ok kp s =
     (if \<not> kmalloc_ok then Ret (None, s)
      else case pmm_alloc_page (ms_pmm s) of (a1, pml4_pa) \<Rightarrow>
        let s1 = s\<lparr>ms_pmm := a1\<rparr> in
        if pml4_pa = PA_INVALID then Ret (None, s1)
        else case pmm_alloc_page (ms_pmm s1) of (a2, pdpt_pa) \<Rightarrow>
          let s2 = s1\<lparr>ms_pmm := a2\<rparr> in
          if pdpt_pa = PA_INVALID then kbind (free_frame pml4_pa s2) (\<lambda>s3. Ret (None, s3))
          else
            let f4 = page_index pml4_pa; f3 = page_index pdpt_pa; kf = pml4_frame kp;
                s3 = zero_frame f3 (zero_frame f4 s2);
                s4 = fold (\<lambda>i s. set_slot f4 i (ms_mem s kf i) s) [1..<512] s3;
                e = ms_mem s4 kf 0
            in if \<not> present e \<or> huge e
               then kbind (free_frame pdpt_pa s4) (\<lambda>s5.
                      kbind (free_frame pml4_pa s5) (\<lambda>s6. Ret (None, s6)))
               else
                 let s5 = fold (\<lambda>i s. set_slot f3 i (ms_mem s (table_va e) i) s) [0..<512] s4;
                     s6 = set_slot f4 0 (of_nat pdpt_pa OR PTE_P OR PTE_RW OR PTE_US) s5
                 in Ret (Some \<lparr>pm_pml4_pa = pml4_pa, pm_leafs = 0, pm_intermediates = 1,
                               pm_is_kernel = False\<rparr>, s6))"

text \<open>The inner loop of \<open>pmap_destroy\<close> over a page directory, then the loop over the PDPT.\<close>

primrec destroy_pd :: "nat \<Rightarrow> nat list \<Rightarrow> mstate \<Rightarrow> mstate kres" where
  "destroy_pd pd [] s = Ret s"
| "destroy_pd pd (j # js) s =
     (let pd_e = ms_mem s pd j in
      if \<not> present pd_e \<or> huge pd_e then destroy_pd pd js s
      else kbind (free_frame (unat (pd_e AND PTE_PA_MASK)) s) (destroy_pd pd js))"

primrec destroy_pdpt :: "nat option \<Rightarrow> nat \<Rightarrow> nat list \<Rightarrow> mstate \<Rightarrow> mstate kres" where
  "destroy_pdpt kern_pdpt0 pdpt [] s = Ret s"
| "destroy_pdpt kern_pdpt0 pdpt (i # is) s =
     (let pdpt_e = ms_mem s pdpt i in
      if \<not> present pdpt_e \<or> huge pdpt_e then destroy_pdpt kern_pdpt0 pdpt is s
      else if (case kern_pdpt0 of None \<Rightarrow> False | Some kf \<Rightarrow> ms_mem s kf i = pdpt_e)
      then destroy_pdpt kern_pdpt0 pdpt is s
      else kbind (destroy_pd (table_va pdpt_e) [0..<512] s) (\<lambda>s1.
             kbind (free_frame (unat (pdpt_e AND PTE_PA_MASK)) s1) (destroy_pdpt kern_pdpt0 pdpt is)))"

definition pmap_destroy :: "pmap \<Rightarrow> pmap \<Rightarrow> mstate \<Rightarrow> mstate kres" where
  "pmap_destroy kp pm s =
     (if pm_is_kernel pm then Panic ''pmap_destroy: attempt to destroy kernel_pmap''
      else
        let kern_pml4_e = ms_mem s (pml4_frame kp) 0;
            kern_pdpt0 = (if present kern_pml4_e \<and> \<not> huge kern_pml4_e then Some (table_va kern_pml4_e)
                          else None);
            pml4_e = ms_mem s (pml4_frame pm) 0
        in kbind
             (if present pml4_e \<and> \<not> huge pml4_e
              then kbind (destroy_pdpt kern_pdpt0 (table_va pml4_e) [0..<512] s)
                     (free_frame (unat (pml4_e AND PTE_PA_MASK)))
              else Ret s)
             (free_frame (pm_pml4_pa pm)))"

section \<open>Page-table entries\<close>

lemma present_bit: "present e \<longleftrightarrow> bit e 0"
  by (simp add: present_def PTE_P_def bit_iff_and_push_bit_not_eq_0)

lemma huge_bit: "huge e \<longleftrightarrow> bit e 7"
  using bit_iff_and_push_bit_not_eq_0 [of e 7] by (simp add: huge_def PTE_PS_def)

lemma PTE_PA_MASK_eq: "PTE_PA_MASK = mask 52 AND NOT (mask 12)"
  by (simp add: PTE_PA_MASK_def mask_eq_exp_minus_1)

lemma bit_PA_MASK: "bit PTE_PA_MASK n \<longleftrightarrow> 12 \<le> n \<and> n < 52"
  by (auto simp: PTE_PA_MASK_eq bit_and_iff bit_not_iff bit_mask_iff)

lemma bit_of_nat_frame:
  assumes "page_aligned pa" "bit (of_nat pa :: 64 word) n"
  shows "12 \<le> n"
proof (rule ccontr)
  assume "\<not> 12 \<le> n"
  have "take_bit 12 (of_nat pa :: 64 word) = of_nat (take_bit 12 pa)"
    by (simp add: take_bit_of_nat)
  also have "take_bit 12 pa = 0"
    using assms(1) by (simp add: page_aligned_def PAGE_SIZE_eq take_bit_eq_mod)
  finally have "\<not> bit (take_bit 12 (of_nat pa :: 64 word)) n" by simp
  then show False using assms(2) \<open>\<not> 12 \<le> n\<close> by (simp add: bit_take_bit_iff)
qed

lemma of_nat_and_PA_MASK:
  assumes "page_aligned pa" "pa < 2 ^ 52"
  shows "(of_nat pa :: 64 word) AND PTE_PA_MASK = of_nat pa"
proof (rule bit_eqI)
  fix n
  have "n < 52" if "bit (of_nat pa :: 64 word) n"
  proof -
    have "take_bit 52 pa = pa" using assms(2) by (simp add: take_bit_nat_eq_self)
    then have "take_bit 52 (of_nat pa :: 64 word) = of_nat pa" by (simp add: take_bit_of_nat)
    then show ?thesis using that by (metis bit_take_bit_iff)
  qed
  then show "bit ((of_nat pa :: 64 word) AND PTE_PA_MASK) n = bit (of_nat pa :: 64 word) n"
    using bit_of_nat_frame [OF assms(1)] by (auto simp: bit_and_iff bit_PA_MASK)
qed

lemma unat_of_nat_pa: "pa < 2 ^ 52 \<Longrightarrow> unat (of_nat pa :: 64 word) = pa"
  by (simp add: unsigned_of_nat take_bit_nat_eq_self)

text \<open>An entry that names frame \<open>pa\<close> with flag bits outside the address field.\<close>

lemma pte_address:
  assumes "page_aligned pa" "pa < 2 ^ 52" "fl AND PTE_PA_MASK = 0"
  shows "unat ((of_nat pa OR fl) AND PTE_PA_MASK) = pa"
proof -
  have "(of_nat pa OR fl) AND PTE_PA_MASK = (of_nat pa AND PTE_PA_MASK) OR (fl AND PTE_PA_MASK)"
    by (simp add: bit.conj_disj_distrib2)
  then show ?thesis using assms by (simp add: of_nat_and_PA_MASK unat_of_nat_pa)
qed

definition table_flags :: "bool \<Rightarrow> 64 word" where
  "table_flags user = PTE_P OR PTE_RW OR (if user then PTE_US else 0)"

lemma table_flags_facts:
  "table_flags user AND PTE_PA_MASK = 0" "bit (table_flags user) 0" "\<not> bit (table_flags user) 7"
  by (cases user; simp add: table_flags_def PTE_P_def PTE_RW_def PTE_US_def PTE_PA_MASK_def bit_or_iff)+

lemma leaf_flags_facts: "leaf_flags prot AND PTE_PA_MASK = 0" "bit (leaf_flags prot) 0"
  by (simp_all add: leaf_flags_def PTE_P_def PTE_RW_def PTE_US_def PTE_NX_def PTE_PCD_def PTE_PWT_def
      PTE_G_def PTE_PA_MASK_def bit_or_iff bit.conj_disj_distrib2)

lemma table_entry:
  fixes user :: bool
  assumes "page_aligned pa" "pa < 2 ^ 52"
  defines "e \<equiv> of_nat pa OR PTE_P OR PTE_RW OR (if user then PTE_US else 0)"
  shows "present e" "\<not> huge e" "table_va e = page_index pa"
proof -
  have e: "e = of_nat pa OR table_flags user" by (simp add: e_def table_flags_def or.assoc)
  show "present e" by (simp add: e present_bit bit_or_iff table_flags_facts)
  show "\<not> huge e" using bit_of_nat_frame [OF assms(1), of 7]
    by (auto simp: e huge_bit bit_or_iff table_flags_facts)
  show "table_va e = page_index pa"
    unfolding e table_va_def using pte_address [OF assms(1,2) table_flags_facts(1)] by simp
qed

lemma leaf_entry:
  fixes prot :: "32 word"
  assumes "page_aligned pa" "pa < 2 ^ 52"
  defines "e \<equiv> (of_nat pa AND PTE_PA_MASK) OR leaf_flags prot"
  shows "present e" "unat (e AND PTE_PA_MASK) = pa"
proof -
  have e: "e = of_nat pa OR leaf_flags prot" using assms by (simp add: of_nat_and_PA_MASK)
  show "present e" by (simp add: e present_bit bit_or_iff leaf_flags_facts)
  show "unat (e AND PTE_PA_MASK) = pa"
    unfolding e by (rule pte_address [OF assms(1,2) leaf_flags_facts(1)])
qed

lemma promote_entry:
  "present (e OR PTE_US) = present e" "huge (e OR PTE_US) = huge e" "table_va (e OR PTE_US) = table_va e"
proof -
  have "PTE_US AND PTE_PA_MASK = 0" by (simp add: PTE_US_def PTE_PA_MASK_def)
  then have "(e OR PTE_US) AND PTE_PA_MASK = e AND PTE_PA_MASK"
    by (simp add: bit.conj_disj_distrib2)
  then show "table_va (e OR PTE_US) = table_va e" by (simp add: table_va_def)
qed (simp_all add: present_bit huge_bit bit_or_iff PTE_US_def bit_push_bit_iff bit_exp_iff)

lemma zero_entry [simp]: "\<not> present 0"
  by (simp add: present_def)

section \<open>Tables\<close>

text \<open>The table reached from a root by a path of slots.\<close>

fun table_at :: "mstate \<Rightarrow> nat \<Rightarrow> nat list \<Rightarrow> nat option" where
  "table_at s root [] = Some root"
| "table_at s root (i # p) = (case descend s root i of None \<Rightarrow> None | Some f \<Rightarrow> table_at s f p)"

lemma table_at_snoc:
  "table_at s root (p @ [i]) = (case table_at s root p of None \<Rightarrow> None | Some f \<Rightarrow> descend s f i)"
  by (induction p arbitrary: root) (auto split: option.splits)

lemma table_at_prefix: "table_at s root (p @ q) = Some f \<Longrightarrow> \<exists>g. table_at s root p = Some g"
  by (induction p arbitrary: root) (auto split: option.splits)

text \<open>
  A set of paths closed under prefixes, of the depth of the tree. The paths of all addresses form
  such a set, and so do those of the user window.
\<close>

definition paths :: "nat list set \<Rightarrow> bool" where
  "paths V \<longleftrightarrow> [] \<in> V \<and> (\<forall>p i. p @ [i] \<in> V \<longrightarrow> p \<in> V \<and> length p < 3 \<and> i < 512)"

definition all_paths :: "nat list set" where
  "all_paths = {p. length p \<le> 3 \<and> (\<forall>i \<in> set p. i < 512)}"

definition user_paths :: "nat list set" where
  "user_paths = {[], [0], [0, 1]} \<union> {[0, 1, j] | j. j < 512}"

lemma paths_all: "paths all_paths"
  by (auto simp: paths_def all_paths_def)

lemma paths_user: "paths user_paths"
proof -
  have "p \<in> user_paths \<and> length p < 3 \<and> i < 512" if "p @ [i] \<in> user_paths" for p i
    using that by (cases p rule: rev_cases; cases "butlast p" rule: rev_cases)
      (auto simp: user_paths_def append_eq_Cons_conv Cons_eq_append_conv)
  then show ?thesis by (simp add: paths_def) (simp add: user_paths_def)
qed

definition tables :: "mstate \<Rightarrow> nat set \<Rightarrow> nat list set \<Rightarrow> nat set" where
  "tables s R V = {f. \<exists>r \<in> R. \<exists>p \<in> V. table_at s r p = Some f}"

text \<open>
  The tables reached from the roots \<open>R\<close> along the paths \<open>V\<close> form trees without sharing, and none of
  them is a free frame.
\<close>

definition pt_ok :: "mstate \<Rightarrow> nat set \<Rightarrow> nat list set \<Rightarrow> bool" where
  "pt_ok s R V \<longleftrightarrow> pmm_inv (ms_pmm s) \<and>
     (\<forall>r \<in> R. \<forall>r' \<in> R. \<forall>p \<in> V. \<forall>q \<in> V. \<forall>f.
        table_at s r p = Some f \<longrightarrow> table_at s r' q = Some f \<longrightarrow> r = r' \<and> p = q) \<and>
     (\<forall>f \<in> tables s R V. frame_of (ms_pmm s) f \<noteq> Free)"

lemma pt_okD:
  assumes "pt_ok s R V"
  shows "pmm_inv (ms_pmm s)"
    "r \<in> R \<Longrightarrow> r' \<in> R \<Longrightarrow> p \<in> V \<Longrightarrow> q \<in> V \<Longrightarrow> table_at s r p = Some f \<Longrightarrow> table_at s r' q = Some f \<Longrightarrow>
     r = r' \<and> p = q"
    "r \<in> R \<Longrightarrow> p \<in> V \<Longrightarrow> table_at s r p = Some f \<Longrightarrow> frame_of (ms_pmm s) f \<noteq> Free"
  using assms unfolding pt_ok_def tables_def by blast+

lemma set_slot_simps [simp]:
  "ms_pmm (set_slot f i w s) = ms_pmm s"
  "ms_mem (set_slot f i w s) = (ms_mem s)(f := (ms_mem s f)(i := w))"
  "ms_inval (set_slot f i w s) = ms_inval s"
  by (simp_all add: set_slot_def)

lemma zero_frame_simps [simp]:
  "ms_pmm (zero_frame f s) = ms_pmm s"
  "ms_mem (zero_frame f s) = (ms_mem s)(f := (\<lambda>i. if i < 512 then 0 else ms_mem s f i))"
  "ms_inval (zero_frame f s) = ms_inval s"
  by (simp_all add: zero_frame_def)

lemma pmap_invlpg_simps [simp]:
  "ms_pmm (pmap_invlpg va s) = ms_pmm s" "ms_mem (pmap_invlpg va s) = ms_mem s"
  "ms_inval (pmap_invlpg va s) = va # ms_inval s"
  by (simp_all add: pmap_invlpg_def)

lemma descend_mem: "ms_mem s f i = ms_mem s' f' i' \<Longrightarrow> descend s f i = descend s' f' i'"
  by (simp add: descend_def)

text \<open>If no step of the walk has changed, neither has the walk.\<close>

lemma table_at_cong:
  assumes "paths V" "p \<in> V"
    and "\<And>q i f. q @ [i] \<in> V \<Longrightarrow> table_at s r q = Some f \<Longrightarrow> descend s' f i = descend s f i"
  shows "table_at s' r p = table_at s r p"
  using assms(2)
proof (induction p rule: rev_induct)
  case (snoc i q)
  then have "q \<in> V" using assms(1) by (auto simp: paths_def)
  then show ?case
    using snoc assms(3) [of q i] by (auto simp: table_at_snoc split: option.splits)
qed simp

lemma pt_ok_transfer:
  assumes "pt_ok s R V" "pmm_inv (ms_pmm s')"
    and "\<And>r p. r \<in> R \<Longrightarrow> p \<in> V \<Longrightarrow> table_at s' r p = table_at s r p"
    and "\<And>f. f \<in> tables s R V \<Longrightarrow> frame_of (ms_pmm s) f \<noteq> Free \<Longrightarrow> frame_of (ms_pmm s') f \<noteq> Free"
  shows "pt_ok s' R V"
proof -
  have "tables s' R V = tables s R V" using assms(3) by (auto simp: tables_def)
  then show ?thesis using assms unfolding pt_ok_def by auto
qed

text \<open>What filling in one table entry leaves behind.\<close>

definition grown :: "nat set \<Rightarrow> nat list set \<Rightarrow> nat \<Rightarrow> nat list \<Rightarrow> nat \<Rightarrow> mstate \<Rightarrow> mstate \<Rightarrow> bool" where
  "grown R V root p t s s' \<longleftrightarrow>
     (\<forall>r \<in> R. \<forall>q \<in> V. table_at s' r q = (if r = root \<and> q = p then Some t else table_at s r q)) \<and>
     (table_at s root p = Some t \<and> frame_of (ms_pmm s') = frame_of (ms_pmm s) \<or>
      table_at s root p = None \<and> frame_of (ms_pmm s) t = Free \<and> (\<forall>i < 512. ms_mem s' t i = 0) \<and>
      frame_of (ms_pmm s') = (frame_of (ms_pmm s))(t := Owned 1))"

lemma ensure_table_present:
  assumes "present (ms_mem s f i)" "\<not> huge (ms_mem s f i)"
    "ensure_table f i user pm s = (r, pm', s')"
  shows "r = descend s f i" "pm' = pm" "ms_pmm s' = ms_pmm s" "descend s' g j = descend s g j"
    "g \<noteq> f \<or> j \<noteq> i \<Longrightarrow> ms_mem s' g j = ms_mem s g j"
  using assms
  by (auto simp: ensure_table_def descend_def Let_def promote_entry split: if_splits)

lemma ensure_table_absent:
  assumes "\<not> present (ms_mem s f i)" "pmm_inv (ms_pmm s)"
    "ensure_table f i user pm s = (r, pm', s')"
  obtains (none) "r = None" "s' = s" "pm' = pm" "\<forall>g. frame_of (ms_pmm s) g \<noteq> Free"
  | (new) t e where "r = Some t" "frame_of (ms_pmm s) t = Free" "pmm_inv (ms_pmm s')"
      "frame_of (ms_pmm s') = (frame_of (ms_pmm s))(t := Owned 1)"
      "f \<noteq> t \<Longrightarrow> ms_mem s' f i = e"
      "\<And>g j. g \<noteq> t \<Longrightarrow> g \<noteq> f \<or> j \<noteq> i \<Longrightarrow> ms_mem s' g j = ms_mem s g j"
      "\<And>j. f \<noteq> t \<Longrightarrow> j < 512 \<Longrightarrow> ms_mem s' t j = 0"
      "present e" "\<not> huge e" "table_va e = t" "pml4_frame pm' = pml4_frame pm"
      "pm' = pm\<lparr>pm_intermediates := add64 (pm_intermediates pm) 1\<rparr>"
proof -
  obtain a pa where a: "pmm_alloc_page (ms_pmm s) = (a, pa)" by force
  show thesis
  proof (cases "pa = PA_INVALID")
    case True
    then have "a = ms_pmm s" "\<forall>g. frame_of (ms_pmm s) g \<noteq> Free"
      using pf.alloc_none [OF assms(2)] a by auto
    then show thesis using True a assms(1,3) by (intro none) (auto simp: ensure_table_def)
  next
    case False
    note al = pf.alloc_some [OF assms(2) a False]
    have "page_index pa < 2 ^ 18"
      using al frame_index_lt [OF assms(2)] by (auto simp: frame_of_Free_iff)
    then have "pa < 2 ^ 52"
      by (simp add: page_index_def PAGE_SHIFT_def)
    note e = table_entry [OF _ this, of user]
    let ?e = "of_nat pa OR PTE_P OR PTE_RW OR (if user then PTE_US else 0)"
    show thesis
      using False a assms(1,3) al e by (intro new [of "page_index pa" ?e])
        (auto simp: ensure_table_def Let_def pml4_frame_def)
  qed
qed

lemma ensure_table_None:
  assumes "pmm_inv (ms_pmm s)" "ensure_table f i user pm s = (None, pm', s')"
  shows "s' = s" "pm' = pm"
proof -
  have "s' = s \<and> pm' = pm"
  proof (cases "present (ms_mem s f i)")
    case True
    then show ?thesis using assms(2) by (auto simp: ensure_table_def Let_def split: if_splits)
  next
    case False
    then show ?thesis by (rule ensure_table_absent [OF _ assms]) auto
  qed
  then show "s' = s" "pm' = pm" by auto
qed

lemma ensure_table_grows:
  assumes V: "paths V" and ok: "pt_ok s R V" and r: "root \<in> R" and p: "p @ [i] \<in> V"
    and f: "table_at s root p = Some f"
    and e: "ensure_table f i user pm s = (Some t, pm', s')"
  shows "grown R V root (p @ [i]) t s s' \<and> pt_ok s' R V \<and> pml4_frame pm' = pml4_frame pm \<and>
    (\<forall>g. g \<noteq> f \<longrightarrow> frame_of (ms_pmm s) g \<noteq> Free \<longrightarrow> ms_mem s' g = ms_mem s g)"
proof (cases "present (ms_mem s f i)")
  case True
  then have nh: "\<not> huge (ms_mem s f i)"
    using e by (auto simp: ensure_table_def Let_def split: if_splits)
  note en = ensure_table_present [OF True nh e]
  have at: "table_at s' r q = table_at s r q" if "q \<in> V" for r q
    using that en(4) by (intro table_at_cong [OF V]) auto
  have "table_at s root (p @ [i]) = Some t" using f en(1) by (simp add: table_at_snoc)
  then have "grown R V root (p @ [i]) t s s'" using at en(3) by (auto simp: grown_def)
  moreover have "pt_ok s' R V" using at en(3) ok pt_okD(1) [OF ok] by (intro pt_ok_transfer [OF ok]) auto
  ultimately show ?thesis using en(2,5) by auto
next
  case False
  have pV: "p \<in> V" using V p by (auto simp: paths_def)
  have used: "frame_of (ms_pmm s) f \<noteq> Free" using pt_okD(3) [OF ok r pV f] .
  show ?thesis
    using False pt_okD(1) [OF ok] e
  proof (cases rule: ensure_table_absent)
    case (new t' w)
    then have t: "t' = t" by simp
    note new = new [unfolded t]
    have ft: "f \<noteq> t" using used new(2) by auto
    have none: "table_at s root (p @ [i]) = None" using f False by (simp add: table_at_snoc descend_def)
    have node_ne: "g \<noteq> t" if "r \<in> R" "q \<in> V" "table_at s r q = Some g" for r q g
      using pt_okD(3) [OF ok that] new(2) by auto
    have step: "descend s' g j = descend s g j"
      if "r \<in> R" "q @ [j] \<in> V" "table_at s r q = Some g" "\<not> (r = root \<and> q @ [j] = p @ [i])" for r q g j
    proof -
      have qV: "q \<in> V" using V that(2) by (auto simp: paths_def)
      have "g \<noteq> f \<or> j \<noteq> i"
        using pt_okD(2) [OF ok that(1) r qV pV that(3)] f that(4) by auto
      then show ?thesis
        using new(6) node_ne [OF that(1) qV that(3)] by (intro descend_mem) auto
    qed
    have at: "table_at s' r q = (if r = root \<and> q = p @ [i] then Some t else table_at s r q)"
      if "r \<in> R" "q \<in> V" for r q
      using that(2)
    proof (induction q rule: rev_induct)
      case Nil
      then show ?case by simp
    next
      case (snoc j q)
      then have q: "q \<in> V" "j < 512" using V by (auto simp: paths_def)
      show ?case
      proof (cases "r = root \<and> q @ [j] = p @ [i]")
        case True
        have "table_at s' root p = Some f"
          using snoc.IH q True f by auto
        then show ?thesis
          using True new(5) [OF ft] new(8-10) by (simp add: table_at_snoc descend_def)
      next
        case other: False
        show ?thesis
        proof (cases "r = root \<and> q = p @ [i]")
          case True
          then have "table_at s' r q = Some t" using snoc.IH q by simp
          then have "table_at s' r (q @ [j]) = None"
            using new(7) [OF ft q(2)] by (simp add: table_at_snoc descend_def)
          moreover have "table_at s r q = None" using True none by simp
          then have "table_at s r (q @ [j]) = None" by (simp only: table_at_snoc option.case)
          ultimately show ?thesis using other by auto
        next
          case False
          then have "table_at s' r q = table_at s r q" using snoc.IH q by auto
          then show ?thesis
            using step [OF that(1) snoc.prems] other by (auto simp: table_at_snoc split: option.splits)
        qed
      qed
    qed
    have zero: "\<forall>k < 512. ms_mem s' t k = 0" using new(7) [OF ft] by blast
    have grown: "grown R V root (p @ [i]) t s s'"
      using at none new(2,4) zero unfolding grown_def by simp
    have "pt_ok s' R V"
      unfolding pt_ok_def tables_def
    proof (intro conjI ballI allI impI)
      show "pmm_inv (ms_pmm s')" by (rule new(3))
    next
      fix r1 r2 q1 q2 g
      assume a: "r1 \<in> R" "r2 \<in> R" "q1 \<in> V" "q2 \<in> V"
        "table_at s' r1 q1 = Some g" "table_at s' r2 q2 = Some g"
      then show "r1 = r2" "q1 = q2"
        using at [OF a(1,3)] at [OF a(2,4)] node_ne [OF a(1,3)] node_ne [OF a(2,4)] pt_okD(2) [OF ok a(1-4)]
        by (auto split: if_splits)
    next
      fix g assume "g \<in> {f. \<exists>r \<in> R. \<exists>p \<in> V. table_at s' r p = Some f}"
      then obtain r q where "r \<in> R" "q \<in> V" "table_at s' r q = Some g" by blast
      then show "frame_of (ms_pmm s') g \<noteq> Free"
        using at pt_okD(3) [OF ok] new(4) by (auto split: if_splits)
    qed
    moreover have "ms_mem s' g = ms_mem s g" if "g \<noteq> f" "frame_of (ms_pmm s) g \<noteq> Free" for g
    proof -
      have "g \<noteq> t" using that(2) new(2) by auto
      then show ?thesis using that(1) new(6) by (simp add: fun_eq_iff)
    qed
    ultimately show ?thesis using grown new by blast
  qed simp
qed

section \<open>Translations\<close>

definition path_of :: "u64 \<Rightarrow> nat list" where
  "path_of va = [pml4_idx va, pdpt_idx va, pd_idx va]"

text \<open>The 4 KiB leaf entry that translates an address, if there is one.\<close>

definition pmap_leaf :: "mstate \<Rightarrow> nat \<Rightarrow> u64 \<Rightarrow> 64 word option" where
  "pmap_leaf s root va =
     (case table_at s root (path_of va) of
        None \<Rightarrow> None
      | Some pt \<Rightarrow> let e = ms_mem s pt (pt_idx va) in if present e then Some e else None)"

definition same_page :: "u64 \<Rightarrow> u64 \<Rightarrow> bool" where
  "same_page va va' \<longleftrightarrow> path_of va = path_of va' \<and> pt_idx va = pt_idx va'"

text \<open>
  Growing the tables keeps every translation, every frame that is neither free nor a table, and the
  standing of every frame that was not free; only frames that were free become tables, each with one
  owner, and no other frame is taken.
\<close>

definition kept :: "nat set \<Rightarrow> nat list set \<Rightarrow> mstate \<Rightarrow> mstate \<Rightarrow> bool" where
  "kept R V s s' \<longleftrightarrow>
     (\<forall>r \<in> R. \<forall>va. path_of va \<in> V \<longrightarrow> pmap_leaf s' r va = pmap_leaf s r va) \<and>
     (\<forall>g. g \<notin> tables s R V \<longrightarrow> frame_of (ms_pmm s) g \<noteq> Free \<longrightarrow> ms_mem s' g = ms_mem s g) \<and>
     (\<forall>g. frame_of (ms_pmm s) g \<noteq> Free \<longrightarrow> frame_of (ms_pmm s') g = frame_of (ms_pmm s) g) \<and>
     tables s R V \<subseteq> tables s' R V \<and>
     (\<forall>g \<in> tables s' R V. g \<in> tables s R V \<or> frame_of (ms_pmm s) g = Free) \<and>
     (\<forall>g. frame_of (ms_pmm s) g = Free \<longrightarrow>
        frame_of (ms_pmm s') g = (if g \<in> tables s' R V - tables s R V then Owned 1 else Free))"

lemma kept_refl [simp]: "kept R V s s"
  by (simp add: kept_def)

lemma kept_trans:
  assumes "kept R V s t" "kept R V t u"
  shows "kept R V s u"
  unfolding kept_def
proof (intro conjI ballI allI impI)
  fix g assume g: "g \<notin> tables s R V" "frame_of (ms_pmm s) g \<noteq> Free"
  then have "g \<notin> tables t R V" "frame_of (ms_pmm t) g \<noteq> Free" using assms(1) by (auto simp: kept_def)
  then show "ms_mem u g = ms_mem s g" using assms g by (auto simp: kept_def)
next
  fix g assume "g \<in> tables u R V"
  then have "g \<in> tables t R V \<or> frame_of (ms_pmm t) g = Free" using assms(2) by (auto simp: kept_def)
  then show "g \<in> tables s R V \<or> frame_of (ms_pmm s) g = Free"
    using assms(1) unfolding kept_def by metis
next
  fix g assume g: "frame_of (ms_pmm s) g = Free"
  have sub: "tables s R V \<subseteq> tables t R V" "tables t R V \<subseteq> tables u R V" using assms by (auto simp: kept_def)
  show "frame_of (ms_pmm u) g = (if g \<in> tables u R V - tables s R V then Owned 1 else Free)"
  proof (cases "g \<in> tables t R V - tables s R V")
    case True
    then have "frame_of (ms_pmm t) g = Owned 1" using assms(1) g by (simp add: kept_def)
    then show ?thesis using assms(2) True sub by (auto simp: kept_def)
  next
    case False
    then have "frame_of (ms_pmm t) g = Free" using assms(1) g by (auto simp: kept_def)
    then show ?thesis using assms(2) False sub by (auto simp: kept_def)
  qed
qed (use assms in \<open>auto simp: kept_def\<close>)

lemma path_of_length [simp]: "length (path_of va) = 3"
  by (simp add: path_of_def)

lemma pt_idx_bound [simp]: "pt_idx va < 512" "pd_idx va < 512" "pdpt_idx va < 512" "pml4_idx va < 512"
  by (simp_all add: pt_idx_def pd_idx_def pdpt_idx_def pml4_idx_def)

lemma paths_short: "paths V \<Longrightarrow> p @ [i] \<in> V \<Longrightarrow> length p < 3 \<and> p \<in> V"
  by (auto simp: paths_def)

lemma ensure_table_kept:
  assumes V: "paths V" and ok: "pt_ok s R V" and r: "root \<in> R" and p: "p @ [i] \<in> V"
    and f: "table_at s root p = Some f"
    and e: "ensure_table f i user pm s = (res, pm', s')"
  shows "pt_ok s' R V" "kept R V s s'" "pml4_frame pm' = pml4_frame pm"
    "res = Some t \<Longrightarrow> table_at s' root (p @ [i]) = Some t"
    "table_at s root q = Some g \<Longrightarrow> q \<in> V \<Longrightarrow> table_at s' root q = Some g"
proof -
  have "pt_ok s' R V \<and> kept R V s s' \<and> pml4_frame pm' = pml4_frame pm \<and>
    (\<forall>t. res = Some t \<longrightarrow> table_at s' root (p @ [i]) = Some t) \<and>
    (\<forall>q g. table_at s root q = Some g \<longrightarrow> q \<in> V \<longrightarrow> table_at s' root q = Some g)"
  proof (cases res)
    case None
    then have "s' = s" "pm' = pm" using ensure_table_None [OF pt_okD(1) [OF ok] e [unfolded None]] by auto
    then show ?thesis using ok None by simp
  next
    case (Some t)
    note gr = ensure_table_grows [OF V ok r p f e [unfolded Some]]
    have pV: "p \<in> V" "length p < 3" using paths_short [OF V p] by auto
    have at: "table_at s' r' q = (if r' = root \<and> q = p @ [i] then Some t else table_at s r' q)"
      if "r' \<in> R" "q \<in> V" for r' q
      using gr that by (simp add: grown_def)
    have mem: "ms_mem s' g = ms_mem s g" if "g \<noteq> f" "frame_of (ms_pmm s) g \<noteq> Free" for g
      using gr that by blast
    have old_or_free: "table_at s root (p @ [i]) = Some t \<or> table_at s root (p @ [i]) = None \<and>
        frame_of (ms_pmm s) t = Free \<and> (\<forall>k < 512. ms_mem s' t k = 0)"
      using gr by (auto simp: grown_def)
    have leaf: "pmap_leaf s' r' va = pmap_leaf s r' va" if "r' \<in> R" "path_of va \<in> V" for r' va
    proof (cases "table_at s r' (path_of va)")
      case (Some g)
      have "g \<noteq> f" using pt_okD(2) [OF ok that(1) r that(2) pV(1) Some] f pV(2) by auto
      then have "ms_mem s' g = ms_mem s g" using mem pt_okD(3) [OF ok that Some] by blast
      moreover have "table_at s' r' (path_of va) = Some g"
        using at [OF that] Some old_or_free by (auto split: if_splits)
      ultimately show ?thesis using Some by (simp add: pmap_leaf_def)
    next
      case None
      then have "table_at s' r' (path_of va) = None \<or>
          table_at s' r' (path_of va) = Some t \<and> (\<forall>k < 512. ms_mem s' t k = 0)"
        using at [OF that] old_or_free by (auto split: if_splits)
      then show ?thesis using None by (auto simp: pmap_leaf_def)
    qed
    have sub: "tables s R V \<subseteq> tables s' R V"
    proof
      fix g assume "g \<in> tables s R V"
      then obtain r' q where rq: "r' \<in> R" "q \<in> V" "table_at s r' q = Some g" by (auto simp: tables_def)
      then have "table_at s' r' q = Some g" using at [OF rq(1,2)] old_or_free by (auto split: if_splits)
      then show "g \<in> tables s' R V" using rq by (auto simp: tables_def)
    qed
    have sup: "g \<in> tables s R V \<or> frame_of (ms_pmm s) g = Free" if gin: "g \<in> tables s' R V" for g
    proof -
      obtain r' q where rq: "r' \<in> R" "q \<in> V" "table_at s' r' q = Some g"
        using gin by (auto simp: tables_def)
      then show ?thesis
        using at [OF rq(1,2)] old_or_free r p by (auto simp: tables_def split: if_splits)
    qed
    have fT: "f \<in> tables s R V" using r pV f by (auto simp: tables_def)
    have "kept R V s s'"
      unfolding kept_def
    proof (intro conjI ballI allI impI)
      fix g assume g: "g \<notin> tables s R V" "frame_of (ms_pmm s) g \<noteq> Free"
      then have "g \<noteq> f" using fT by auto
      then show "ms_mem s' g = ms_mem s g" using mem g(2) by simp
    next
      fix g assume "frame_of (ms_pmm s) g \<noteq> Free"
      then show "frame_of (ms_pmm s') g = frame_of (ms_pmm s) g" using gr by (auto simp: grown_def)
    next
      fix g assume g: "frame_of (ms_pmm s) g = Free"
      have tT: "t \<in> tables s' R V" using at [OF r p] r p by (auto simp: tables_def)
      have gT: "g \<notin> tables s R V" using g ok by (auto simp: pt_ok_def)
      have "g = t" if gin: "g \<in> tables s' R V"
      proof -
        obtain r' q where rq: "r' \<in> R" "q \<in> V" "table_at s' r' q = Some g" using gin by (auto simp: tables_def)
        then show ?thesis using at [OF rq(1,2)] gT by (auto simp: tables_def split: if_splits)
      qed
      then show "frame_of (ms_pmm s') g = (if g \<in> tables s' R V - tables s R V then Owned 1 else Free)"
        using gr g tT gT sub pt_okD(3) [OF ok r p] by (auto simp: grown_def)
    qed (use leaf sub sup in auto)
    moreover have "table_at s' root q = Some g" if "table_at s root q = Some g" "q \<in> V" for q g
      using at [OF r that(2)] that old_or_free by (auto split: if_splits)
    moreover have "\<forall>t'. res = Some t' \<longrightarrow> table_at s' root (p @ [i]) = Some t'"
      using at [OF r p] Some by simp
    ultimately show ?thesis using gr by blast
  qed
  then show "pt_ok s' R V" "kept R V s s'" "pml4_frame pm' = pml4_frame pm"
    "res = Some t \<Longrightarrow> table_at s' root (p @ [i]) = Some t"
    "table_at s root q = Some g \<Longrightarrow> q \<in> V \<Longrightarrow> table_at s' root q = Some g" by auto
qed

lemma path_prefixes:
  assumes "paths V" "path_of va \<in> V"
  shows "[pml4_idx va] \<in> V" "[pml4_idx va, pdpt_idx va] \<in> V" "[] \<in> V"
proof -
  show "[] \<in> V" using assms(1) by (simp add: paths_def)
  have "path_of va = [pml4_idx va, pdpt_idx va] @ [pd_idx va]" by (simp add: path_of_def)
  then show two: "[pml4_idx va, pdpt_idx va] \<in> V" using paths_short [OF assms(1)] assms(2) by metis
  have "[pml4_idx va, pdpt_idx va] = [pml4_idx va] @ [pdpt_idx va]" by simp
  then show "[pml4_idx va] \<in> V" using paths_short [OF assms(1)] two by metis
qed

text \<open>Storing a leaf entry: no table moves, and only this page's translation changes.\<close>

lemma set_leaf:
  fixes w :: "64 word"
  assumes V: "paths V" and ok: "pt_ok s R V" and r: "root \<in> R" and va: "path_of va \<in> V"
    and pt: "table_at s root (path_of va) = Some pt"
  defines "s' \<equiv> set_slot pt (pt_idx va) w s"
  shows "q \<in> V \<Longrightarrow> r' \<in> R \<Longrightarrow> table_at s' r' q = table_at s r' q"
    "pt_ok s' R V"
    "r' \<in> R \<Longrightarrow> path_of x \<in> V \<Longrightarrow> pmap_leaf s' r' x =
       (if r' = root \<and> same_page va x then if present w then Some w else None else pmap_leaf s r' x)"
    "g \<notin> tables s R V \<Longrightarrow> ms_mem s' g = ms_mem s g"
    "tables s' R V = tables s R V"
proof -
  have at: "table_at s' r' q = table_at s r' q" if "q \<in> V" "r' \<in> R" for q r'
  proof (rule table_at_cong [OF V that(1)])
    fix p i f assume p: "p @ [i] \<in> V" "table_at s r' p = Some f"
    then have "length p < 3" "p \<in> V" using paths_short [OF V] by auto
    then have "f \<noteq> pt" using pt_okD(2) [OF ok that(2) r _ va p(2)] pt by auto
    then show "descend s' f i = descend s f i" by (simp add: s'_def descend_def)
  qed
  then show "q \<in> V \<Longrightarrow> r' \<in> R \<Longrightarrow> table_at s' r' q = table_at s r' q" .
  show T: "tables s' R V = tables s R V" using at by (auto simp: tables_def)
  show "pt_ok s' R V" using pt_okD(1) [OF ok] at by (intro pt_ok_transfer [OF ok]) (auto simp: s'_def)
  have "pt \<in> tables s R V" using r va pt by (auto simp: tables_def)
  then show "g \<notin> tables s R V \<Longrightarrow> ms_mem s' g = ms_mem s g" by (auto simp: s'_def)
  show "pmap_leaf s' r' x =
       (if r' = root \<and> same_page va x then if present w then Some w else None else pmap_leaf s r' x)"
    if x: "r' \<in> R" "path_of x \<in> V"
  proof (cases "table_at s r' (path_of x)")
    case None
    then have "\<not> (r' = root \<and> same_page va x)" using pt by (auto simp: same_page_def)
    then show ?thesis using None at [OF x(2,1)] by (auto simp: pmap_leaf_def)
  next
    case (Some g)
    have "g = pt \<longleftrightarrow> r' = root \<and> path_of x = path_of va"
      using pt_okD(2) [OF ok x(1) r x(2) va Some] pt Some by auto
    then show ?thesis
      using Some at [OF x(2,1)] by (auto simp: pmap_leaf_def same_page_def s'_def)
  qed
qed

text \<open>The tables depend on the memory and the allocator only.\<close>

lemma table_at_mem: "ms_mem s = ms_mem s' \<Longrightarrow> table_at s r p = table_at s' r p"
  by (induction p arbitrary: r) (auto simp: descend_def split: option.splits)

lemma pmap_leaf_mem: "ms_mem s = ms_mem s' \<Longrightarrow> pmap_leaf s r va = pmap_leaf s' r va"
  by (simp add: pmap_leaf_def table_at_mem [of s s'] cong: option.case_cong)

lemma tables_mem: "ms_mem s = ms_mem s' \<Longrightarrow> tables s R V = tables s' R V"
  by (simp add: tables_def table_at_mem [of s s'])

lemma pt_ok_mem: "ms_mem s = ms_mem s' \<Longrightarrow> ms_pmm s = ms_pmm s' \<Longrightarrow> pt_ok s R V \<longleftrightarrow> pt_ok s' R V"
  by (simp add: pt_ok_def table_at_mem [of s s'] tables_mem [of s s'])

lemma pmap_enter_panics:
  "(\<exists>msg. pmap_enter pm va pa prot s = Panic msg) \<longleftrightarrow> \<not> page_aligned va \<or> \<not> page_aligned pa"
  by (auto simp: pmap_enter_def pmap_enter_locked_def KASSERT_def Let_def split: prod.splits option.splits)

lemma pmap_enter_step:
  assumes V: "paths V" and ok: "pt_ok s R V" and r: "pml4_frame pm \<in> R" and va: "path_of va \<in> V"
    and enter: "pmap_enter pm va pa prot s = Ret (res, pm', s')"
  shows "pml4_frame pm' = pml4_frame pm" "pt_ok s' R V"
    "\<not> res \<Longrightarrow> kept R V s s'"
    "res \<Longrightarrow> \<exists>u pt. kept R V s u \<and> pt_ok u R V \<and> table_at u (pml4_frame pm) (path_of va) = Some pt \<and>
        ms_mem s' = ms_mem (set_slot pt (pt_idx va) ((of_nat pa AND PTE_PA_MASK) OR leaf_flags prot) u) \<and>
        ms_pmm s' = ms_pmm u"
proof -
  let ?root = "pml4_frame pm" and ?user = "prot AND VM_PROT_USER \<noteq> 0"
  note pre = path_prefixes [OF V va]
  obtain r1 pm1 s1 where e1: "ensure_table ?root (pml4_idx va) ?user pm s = (r1, pm1, s1)"
    using prod_cases3 by blast
  have p1: "[] @ [pml4_idx va] \<in> V" and t0: "table_at s ?root [] = Some ?root" using pre(1) by simp_all
  note k1 = ensure_table_kept [OF V ok r p1 t0 e1]
  have "pml4_frame pm' = ?root \<and> pt_ok s' R V \<and> (\<not> res \<longrightarrow> kept R V s s') \<and>
    (res \<longrightarrow> (\<exists>u pt. kept R V s u \<and> pt_ok u R V \<and> table_at u ?root (path_of va) = Some pt \<and>
        ms_mem s' = ms_mem (set_slot pt (pt_idx va) ((of_nat pa AND PTE_PA_MASK) OR leaf_flags prot) u) \<and>
        ms_pmm s' = ms_pmm u))"
  proof (cases r1)
    case None
    then show ?thesis using enter e1 k1
      by (auto simp: pmap_enter_def pmap_enter_locked_def KASSERT_Ret_iff Let_def)
  next
    case r1: (Some pdpt)
    obtain r2 pm2 s2 where e2: "ensure_table pdpt (pdpt_idx va) ?user pm1 s1 = (r2, pm2, s2)"
      using prod_cases3 by blast
    have t1: "table_at s1 ?root [pml4_idx va] = Some pdpt" using k1(4) r1 by simp
    have p2: "[pml4_idx va] @ [pdpt_idx va] \<in> V" using pre(2) by simp
    note k2 = ensure_table_kept [OF V k1(1) r p2 t1 e2]
    show ?thesis
    proof (cases r2)
      case None
      then show ?thesis using enter e1 e2 r1 k1 k2 kept_trans [OF k1(2) k2(2)]
        by (auto simp: pmap_enter_def pmap_enter_locked_def KASSERT_Ret_iff Let_def)
    next
      case r2: (Some pd)
      obtain r3 pm3 s3 where e3: "ensure_table pd (pd_idx va) ?user pm2 s2 = (r3, pm3, s3)"
        using prod_cases3 by blast
      have t2: "table_at s2 ?root ([pml4_idx va] @ [pdpt_idx va]) = Some pd" using k2(4) r2 by simp
      have p3: "([pml4_idx va] @ [pdpt_idx va]) @ [pd_idx va] \<in> V" using va by (simp add: path_of_def)
      note k3 = ensure_table_kept [OF V k2(1) r p3 t2 e3]
      note k = kept_trans [OF kept_trans [OF k1(2) k2(2)] k3(2)]
      show ?thesis
      proof (cases r3)
        case None
        then show ?thesis using enter e1 e2 e3 r1 r2 k1 k2 k3 k
          by (auto simp: pmap_enter_def pmap_enter_locked_def KASSERT_Ret_iff Let_def)
      next
        case r3: (Some pt)
        have t3: "table_at s3 ?root (path_of va) = Some pt" using k3(4) r3 by (simp add: path_of_def)
        let ?w = "(of_nat pa AND PTE_PA_MASK) OR leaf_flags prot"
        have res: "res" "ms_mem s' = ms_mem (set_slot pt (pt_idx va) ?w s3)" "ms_pmm s' = ms_pmm s3"
          "pml4_frame pm' = pml4_frame pm3"
          using enter e1 e2 e3 r1 r2 r3
          by (auto simp: pmap_enter_def pmap_enter_locked_def KASSERT_Ret_iff Let_def pml4_frame_def
              split: if_splits)
        have "pt_ok (set_slot pt (pt_idx va) ?w s3) R V"
          using set_leaf(2) [OF V k3(1) r va t3] .
        then have "pt_ok s' R V"
          using pt_ok_mem [OF res(2)] res(3) by simp
        moreover have "pml4_frame pm' = ?root" using res(4) k1(3) k2(3) k3(3) by simp
        moreover have "\<exists>u pt. kept R V s u \<and> pt_ok u R V \<and> table_at u ?root (path_of va) = Some pt \<and>
            ms_mem s' = ms_mem (set_slot pt (pt_idx va) ?w u) \<and> ms_pmm s' = ms_pmm u"
          using k k3(1) t3 res(2,3) by (intro exI [of _ s3] exI [of _ pt] conjI)
        ultimately show ?thesis using res(1) by blast
      qed
    qed
  qed
  then show "pml4_frame pm' = pml4_frame pm" "pt_ok s' R V" "\<not> res \<Longrightarrow> kept R V s s'"
    "res \<Longrightarrow> \<exists>u pt. kept R V s u \<and> pt_ok u R V \<and> table_at u (pml4_frame pm) (path_of va) = Some pt \<and>
        ms_mem s' = ms_mem (set_slot pt (pt_idx va) ((of_nat pa AND PTE_PA_MASK) OR leaf_flags prot) u) \<and>
        ms_pmm s' = ms_pmm u"
    by auto
qed

section \<open>No huge page on the way\<close>

definition no_huge :: "mstate \<Rightarrow> nat set \<Rightarrow> nat list set \<Rightarrow> bool" where
  "no_huge s R V \<longleftrightarrow> (\<forall>r \<in> R. \<forall>p i f. p @ [i] \<in> V \<longrightarrow> table_at s r p = Some f \<longrightarrow>
     present (ms_mem s f i) \<longrightarrow> \<not> huge (ms_mem s f i))"

lemma no_hugeD:
  "no_huge s R V \<Longrightarrow> r \<in> R \<Longrightarrow> p @ [i] \<in> V \<Longrightarrow> table_at s r p = Some f \<Longrightarrow>
   present (ms_mem s f i) \<Longrightarrow> \<not> huge (ms_mem s f i)"
  by (auto simp: no_huge_def)

lemma descend_no_huge:
  "descend s f i = Some t \<Longrightarrow> \<not> huge (ms_mem s f i)"
  by (auto simp: descend_def Let_def split: if_splits)

lemma ensure_no_huge:
  assumes V: "paths V" and ok: "pt_ok s R V" and nh: "no_huge s R V" and r: "root \<in> R" and p: "p @ [i] \<in> V"
    and f: "table_at s root p = Some f"
    and e: "ensure_table f i user pm s = (res, pm', s')"
  shows "no_huge s' R V"
proof (cases res)
  case None
  then show ?thesis using ensure_table_None [OF pt_okD(1) [OF ok]] e nh by metis
next
  case (Some t)
  note gr = ensure_table_grows [OF V ok r p f e [unfolded Some]]
  have at: "table_at s' r' q = (if r' = root \<and> q = p @ [i] then Some t else table_at s r' q)"
    if "r' \<in> R" "q \<in> V" for r' q
    using gr that by (simp add: grown_def)
  have pV: "p \<in> V" using paths_short [OF V p] by blast
  have tab: "table_at s' root (p @ [i]) = Some t" using at [OF r p] by simp
  have atp: "table_at s' root p = Some f" using at [OF r pV] f by simp
  have fi: "\<not> huge (ms_mem s' f i)"
    using tab atp descend_no_huge by (simp add: table_at_snoc)
  have zero: "table_at s root (p @ [i]) = Some t \<or> frame_of (ms_pmm s) t = Free \<and> (\<forall>k < 512. ms_mem s' t k = 0)"
    using gr by (auto simp: grown_def)
  have other: "ms_mem s' g j = ms_mem s g j" if "g \<noteq> f \<or> j \<noteq> i" "frame_of (ms_pmm s) g \<noteq> Free" for g j
  proof (cases "present (ms_mem s f i)")
    case True
    then show ?thesis
      using ensure_table_present(5) [OF True _ e that(1)] no_hugeD [OF nh r p f True] by simp
  next
    case False
    show ?thesis using False pt_okD(1) [OF ok] e
    proof (cases rule: ensure_table_absent)
      case (new t' w)
      then show ?thesis using that by metis
    qed simp
  qed
  show ?thesis
    unfolding no_huge_def
  proof (intro ballI allI impI)
    fix r' q j g
    assume a: "r' \<in> R" "q @ [j] \<in> V" "table_at s' r' q = Some g" "present (ms_mem s' g j)"
    have qV: "q \<in> V" and j: "j < 512" using V a(2) by (auto simp: paths_def)
    show "\<not> huge (ms_mem s' g j)"
    proof (cases "table_at s r' q = Some g")
      case True
      show ?thesis
      proof (cases "g = f \<and> j = i")
        case False
        then have "ms_mem s' g j = ms_mem s g j" using other pt_okD(3) [OF ok a(1) qV True] by blast
        then show ?thesis using no_hugeD [OF nh a(1,2) True] a(4) by simp
      qed (use fi in simp)
    next
      case False
      then have "r' = root \<and> q = p @ [i] \<and> g = t" using at [OF a(1) qV] a(3) by (auto split: if_splits)
      then show ?thesis using zero False j a(4) by auto
    qed
  qed
qed

lemma no_huge_mem: "ms_mem s = ms_mem s' \<Longrightarrow> no_huge s R V \<longleftrightarrow> no_huge s' R V"
  by (simp add: no_huge_def table_at_mem [of s s'])

lemma set_leaf_no_huge:
  assumes V: "paths V" and ok: "pt_ok s R V" and nh: "no_huge s R V" and r: "root \<in> R"
    and va: "path_of va \<in> V" and pt: "table_at s root (path_of va) = Some pt"
  shows "no_huge (set_slot pt (pt_idx va) w s) R V"
  unfolding no_huge_def
proof (intro ballI allI impI)
  fix r' q j g
  assume a: "r' \<in> R" "q @ [j] \<in> V" "table_at (set_slot pt (pt_idx va) w s) r' q = Some g"
    "present (ms_mem (set_slot pt (pt_idx va) w s) g j)"
  have q: "q \<in> V" "length q < 3" using paths_short [OF V a(2)] by auto
  have g: "table_at s r' q = Some g" using set_leaf(1) [OF V ok r va pt q(1) a(1)] a(3) by simp
  then have "g \<noteq> pt" using pt_okD(2) [OF ok a(1) r q(1) va g] pt q(2) by auto
  then show "\<not> huge (ms_mem (set_slot pt (pt_idx va) w s) g j)"
    using no_hugeD [OF nh a(1,2) g] a(4) by simp
qed

lemma ensure_table_full:
  assumes "pt_ok s R V" "no_huge s R V" "root \<in> R" "p @ [i] \<in> V" "table_at s root p = Some f"
    "ensure_table f i user pm s = (None, pm', s')"
  shows "\<forall>g. frame_of (ms_pmm s') g \<noteq> Free"
proof (cases "present (ms_mem s f i)")
  case True
  then show ?thesis
    using ensure_table_present(1) [OF True _ assms(6)] no_hugeD [OF assms(2-5) True]
    by (simp add: descend_def)
next
  case False
  show ?thesis using False pt_okD(1) [OF assms(1)] assms(6)
    by (cases rule: ensure_table_absent) auto
qed

lemma pmap_enter_no_huge:
  assumes V: "paths V" and ok: "pt_ok s R V" and nh: "no_huge s R V" and r: "pml4_frame pm \<in> R"
    and va: "path_of va \<in> V" and enter: "pmap_enter pm va pa prot s = Ret (res, pm', s')"
  shows "no_huge s' R V" "\<not> res \<Longrightarrow> \<forall>g. frame_of (ms_pmm s') g \<noteq> Free"
proof -
  let ?root = "pml4_frame pm" and ?user = "prot AND VM_PROT_USER \<noteq> 0"
  note pre = path_prefixes [OF V va]
  obtain r1 pm1 s1 where e1: "ensure_table ?root (pml4_idx va) ?user pm s = (r1, pm1, s1)"
    using prod_cases3 by blast
  have p1: "[] @ [pml4_idx va] \<in> V" and t0: "table_at s ?root [] = Some ?root" using pre(1) by simp_all
  note k1 = ensure_table_kept [OF V ok r p1 t0 e1] and n1 = ensure_no_huge [OF V ok nh r p1 t0 e1]
    and f1 = ensure_table_full [OF ok nh r p1 t0]
  have "no_huge s' R V \<and> (\<not> res \<longrightarrow> (\<forall>g. frame_of (ms_pmm s') g \<noteq> Free))"
  proof (cases r1)
    case None
    then show ?thesis using enter e1 n1 f1
      by (auto simp: pmap_enter_def pmap_enter_locked_def KASSERT_Ret_iff Let_def)
  next
    case r1: (Some pdpt)
    obtain r2 pm2 s2 where e2: "ensure_table pdpt (pdpt_idx va) ?user pm1 s1 = (r2, pm2, s2)"
      using prod_cases3 by blast
    have t1: "table_at s1 ?root [pml4_idx va] = Some pdpt" using k1(4) r1 by simp
    have p2: "[pml4_idx va] @ [pdpt_idx va] \<in> V" using pre(2) by simp
    note k2 = ensure_table_kept [OF V k1(1) r p2 t1 e2] and n2 = ensure_no_huge [OF V k1(1) n1 r p2 t1 e2]
    and f2 = ensure_table_full [OF k1(1) n1 r p2 t1]
    show ?thesis
    proof (cases r2)
      case None
      then show ?thesis using enter e1 e2 r1 n2 f2
        by (auto simp: pmap_enter_def pmap_enter_locked_def KASSERT_Ret_iff Let_def)
    next
      case r2: (Some pd)
      obtain r3 pm3 s3 where e3: "ensure_table pd (pd_idx va) ?user pm2 s2 = (r3, pm3, s3)"
        using prod_cases3 by blast
      have t2: "table_at s2 ?root ([pml4_idx va] @ [pdpt_idx va]) = Some pd" using k2(4) r2 by simp
      have p3: "([pml4_idx va] @ [pdpt_idx va]) @ [pd_idx va] \<in> V" using va by (simp add: path_of_def)
      note k3 = ensure_table_kept [OF V k2(1) r p3 t2 e3] and n3 = ensure_no_huge [OF V k2(1) n2 r p3 t2 e3]
    and f3 = ensure_table_full [OF k2(1) n2 r p3 t2]
      show ?thesis
      proof (cases r3)
        case None
        then show ?thesis using enter e1 e2 e3 r1 r2 n3 f3
          by (auto simp: pmap_enter_def pmap_enter_locked_def KASSERT_Ret_iff Let_def)
      next
        case r3: (Some pt)
        have t3: "table_at s3 ?root (path_of va) = Some pt" using k3(4) r3 by (simp add: path_of_def)
        let ?w = "(of_nat pa AND PTE_PA_MASK) OR leaf_flags prot"
        have mem: "ms_mem s' = ms_mem (set_slot pt (pt_idx va) ?w s3)" and res: "res"
          using enter e1 e2 e3 r1 r2 r3
          by (auto simp: pmap_enter_def pmap_enter_locked_def KASSERT_Ret_iff Let_def split: if_splits)
        then show ?thesis
          using set_leaf_no_huge [OF V k3(1) n3 r va t3] no_huge_mem [OF mem] res by simp
      qed
    qed
  qed
  then show "no_huge s' R V" "\<not> res \<Longrightarrow> \<forall>g. frame_of (ms_pmm s') g \<noteq> Free" by auto
qed

section \<open>Address spaces of tasks\<close>

text \<open>The window that tasks' maps are created with, which is slot 1 of the private PDPT.\<close>

definition user_va :: "u64 \<Rightarrow> bool" where
  "user_va va \<longleftrightarrow> 0x40000000 \<le> va \<and> va < 0x80000000"

definition spaces_ok :: "mstate \<Rightarrow> nat set \<Rightarrow> bool" where
  "spaces_ok s R \<longleftrightarrow> pt_ok s R user_paths \<and> no_huge s R user_paths"

definition pte_pa :: "64 word \<Rightarrow> u64" where
  "pte_pa e = unat (e AND PTE_PA_MASK)"

definition leaf_pte :: "u64 \<Rightarrow> 32 word \<Rightarrow> 64 word" where
  "leaf_pte pa prot = (of_nat pa AND PTE_PA_MASK) OR leaf_flags prot"

lemma user_va_idx:
  assumes "user_va va"
  shows "pml4_idx va = 0" "pdpt_idx va = 1" "pd_idx va < 512"
proof -
  have "va div 2 ^ 39 = 0" using assms by (simp add: user_va_def)
  then show "pml4_idx va = 0" by (simp add: pml4_idx_def)
  have "va div 2 ^ 30 = 1"
    using assms by (intro div_nat_eqI) (auto simp: user_va_def)
  then show "pdpt_idx va = 1" by (simp add: pdpt_idx_def)
qed simp

lemma user_path: "user_va va \<Longrightarrow> path_of va \<in> user_paths"
  by (simp add: path_of_def user_va_idx user_paths_def)

lemma same_page_user:
  assumes "user_va a" "user_va b"
  shows "same_page a b \<longleftrightarrow> a div PAGE_SIZE = b div PAGE_SIZE"
proof -
  have page: "x div PAGE_SIZE = (pdpt_idx x * 512 + pd_idx x) * 512 + pt_idx x" if "user_va x" for x
  proof -
    have "x div 2 ^ 30 = pdpt_idx x" using user_va_idx [OF that] that
      by (intro div_nat_eqI) (auto simp: user_va_def)
    moreover have "x div 2 ^ 21 = x div 2 ^ 30 * 512 + pd_idx x"
      using div_mult_mod_eq [of "x div 2 ^ 21" 512] div_mult2_eq [of x "2 ^ 21" 512]
      by (simp add: pd_idx_def)
    moreover have "x div 2 ^ 12 = x div 2 ^ 21 * 512 + pt_idx x"
      using div_mult_mod_eq [of "x div 2 ^ 12" 512] div_mult2_eq [of x "2 ^ 12" 512]
      by (simp add: pt_idx_def)
    ultimately show ?thesis by (simp add: PAGE_SIZE_eq)
  qed
  show ?thesis
  proof
    assume "same_page a b"
    then show "a div PAGE_SIZE = b div PAGE_SIZE"
      using page assms by (simp add: same_page_def path_of_def)
  next
    assume *: "a div PAGE_SIZE = b div PAGE_SIZE"
    have eq: "x div 2 ^ 21 = x div PAGE_SIZE div 512" "x div 2 ^ 12 = x div PAGE_SIZE" for x
      using div_mult2_eq [of x "2 ^ 12" 512] by (simp_all add: PAGE_SIZE_eq)
    show "same_page a b"
      using * user_va_idx [OF assms(1)] user_va_idx [OF assms(2)]
      by (simp add: same_page_def path_of_def pd_idx_def pt_idx_def eq [simplified])
  qed
qed

lemma leaf_pte_facts:
  assumes "page_aligned pa" "pa < 2 ^ 52"
  shows "present (leaf_pte pa prot)" "pte_pa (leaf_pte pa prot) = pa"
  using leaf_entry [OF assms] by (simp_all add: leaf_pte_def pte_pa_def)

lemma or_zero_offset: "page_aligned va \<Longrightarrow> e OR of_nat (va mod PAGE_SIZE) = e" for e :: "64 word"
  by (simp add: page_aligned_def)

lemma pmap_extract_leaf:
  assumes "spaces_ok s R" "pml4_frame pm \<in> R" "user_va va" "page_aligned va"
  shows "pmap_extract pm va s =
    (case pmap_leaf s (pml4_frame pm) va of None \<Rightarrow> PA_INVALID | Some e \<Rightarrow> pte_pa e)"
proof -
  let ?r = "pml4_frame pm"
  have nh: "no_huge s R user_paths" using assms(1) by (simp add: spaces_ok_def)
  note pre = path_prefixes [OF paths_user user_path [OF assms(3)]]
  have n4: "present (ms_mem s ?r (pml4_idx va)) \<Longrightarrow> \<not> huge (ms_mem s ?r (pml4_idx va))"
    using no_hugeD [OF nh assms(2), of "[]" "pml4_idx va" ?r] pre(1) by simp
  have n3: "\<not> huge (ms_mem s f (pdpt_idx va))"
    if "descend s ?r (pml4_idx va) = Some f" "present (ms_mem s f (pdpt_idx va))" for f
    using no_hugeD [OF nh assms(2), of "[pml4_idx va]" "pdpt_idx va" f] pre(2) that by simp
  have n2: "\<not> huge (ms_mem s g (pd_idx va))"
    if "descend s ?r (pml4_idx va) = Some f" "descend s f (pdpt_idx va) = Some g"
      "present (ms_mem s g (pd_idx va))" for f g
    using no_hugeD [OF nh assms(2), of "[pml4_idx va, pdpt_idx va]" "pd_idx va" g]
      user_path [OF assms(3)] that by (simp add: path_of_def)
  show ?thesis
    using n4 n3 n2 or_zero_offset [OF assms(4)]
    by (auto simp: pmap_extract_def pmap_extract_locked_def pmap_leaf_def path_of_def descend_def Let_def
        pte_pa_def split: if_splits option.splits)
qed

text \<open>What entering a page does to the address spaces, and what it leaves alone.\<close>

lemma enter_true:
  assumes ok: "spaces_ok s R" and r: "pml4_frame pm \<in> R" and va: "user_va va"
    and enter: "pmap_enter pm va pa prot s = Ret (True, pm', s')"
    and pa: "page_aligned pa" "pa < 2 ^ 52"
  shows "spaces_ok s' R \<and> pml4_frame pm' = pml4_frame pm \<and>
    (\<forall>r \<in> R. \<forall>x. user_va x \<longrightarrow> pmap_leaf s' r x =
       (if r = pml4_frame pm \<and> x div PAGE_SIZE = va div PAGE_SIZE then Some (leaf_pte pa prot)
        else pmap_leaf s r x)) \<and>
    (\<forall>g. g \<notin> tables s R user_paths \<longrightarrow> frame_of (ms_pmm s) g \<noteq> Free \<longrightarrow> ms_mem s' g = ms_mem s g) \<and>
    (\<forall>g. frame_of (ms_pmm s) g \<noteq> Free \<longrightarrow> frame_of (ms_pmm s') g = frame_of (ms_pmm s) g) \<and>
    tables s R user_paths \<subseteq> tables s' R user_paths \<and>
    (\<forall>g \<in> tables s' R user_paths. g \<in> tables s R user_paths \<or> frame_of (ms_pmm s) g = Free) \<and>
    (\<forall>g. frame_of (ms_pmm s) g = Free \<longrightarrow> frame_of (ms_pmm s') g =
       (if g \<in> tables s' R user_paths - tables s R user_paths then Owned 1 else Free))"
proof -
  let ?V = user_paths and ?root = "pml4_frame pm" and ?w = "leaf_pte pa prot"
  have pt: "pt_ok s R ?V" and nh: "no_huge s R ?V" using ok by (auto simp: spaces_ok_def)
  note step = pmap_enter_step [OF paths_user pt r user_path [OF va] enter]
  obtain u t where u: "kept R ?V s u" "pt_ok u R ?V" "table_at u ?root (path_of va) = Some t"
    "ms_mem s' = ms_mem (set_slot t (pt_idx va) ?w u)" "ms_pmm s' = ms_pmm u"
    using step(4) by (auto simp: leaf_pte_def)
  note leaf = set_leaf [OF paths_user u(2) r user_path [OF va] u(3)]
  have "pmap_leaf s' r' x = (if r' = ?root \<and> x div PAGE_SIZE = va div PAGE_SIZE then Some ?w
        else pmap_leaf s r' x)" if "r' \<in> R" "user_va x" for r' x
    using leaf(3) [OF that(1) user_path [OF that(2)], of ?w] u(1) that pmap_leaf_mem [OF u(4)]
      same_page_user [OF va that(2)] leaf_pte_facts(1) [OF pa] user_path [OF that(2)]
    by (auto simp: kept_def)
  moreover have "ms_mem s' g = ms_mem s g"
    if g: "g \<notin> tables s R ?V" "frame_of (ms_pmm s) g \<noteq> Free" for g
  proof -
    have "g \<notin> tables u R ?V" using u(1) g by (auto simp: kept_def)
    then have "ms_mem s' g = ms_mem u g" using leaf(4) u(4) by simp
    then show ?thesis using u(1) g by (auto simp: kept_def)
  qed
  moreover have "tables s' R ?V = tables u R ?V"
    using leaf(5) [of ?w] tables_mem [OF u(4)] by simp
  ultimately show ?thesis
    using step pmap_enter_no_huge(1) [OF paths_user pt nh r user_path [OF va] enter] u(1,5)
    by (auto simp: spaces_ok_def kept_def)
qed

lemma enter_false:
  assumes ok: "spaces_ok s R" and r: "pml4_frame pm \<in> R" and va: "user_va va"
    and enter: "pmap_enter pm va pa prot s = Ret (False, pm', s')"
  shows "spaces_ok s' R \<and> pml4_frame pm' = pml4_frame pm \<and> kept R user_paths s s' \<and>
    (\<forall>g. frame_of (ms_pmm s') g \<noteq> Free)"
  using pmap_enter_step [OF paths_user _ r user_path [OF va] enter]
    pmap_enter_no_huge [OF paths_user _ _ r user_path [OF va] enter] ok
  by (auto simp: spaces_ok_def)

lemma remove_user:
  assumes ok: "spaces_ok s R" and r: "pml4_frame pm \<in> R" and va: "user_va va"
    and remove: "pmap_remove pm va s = (res, pm', s')"
  shows "spaces_ok s' R \<and> pml4_frame pm' = pml4_frame pm \<and> (res \<longleftrightarrow> pmap_leaf s (pml4_frame pm) va \<noteq> None) \<and>
    (\<forall>r \<in> R. \<forall>x. user_va x \<longrightarrow> pmap_leaf s' r x =
       (if r = pml4_frame pm \<and> x div PAGE_SIZE = va div PAGE_SIZE then None else pmap_leaf s r x)) \<and>
    (\<forall>g. g \<notin> tables s R user_paths \<longrightarrow> ms_mem s' g = ms_mem s g) \<and>
    ms_pmm s' = ms_pmm s \<and> tables s' R user_paths = tables s R user_paths"
proof -
  let ?V = user_paths and ?root = "pml4_frame pm"
  have pt: "pt_ok s R ?V" and nh: "no_huge s R ?V" using ok by (auto simp: spaces_ok_def)
  show ?thesis
  proof (cases "pmap_leaf s ?root va")
    case None
    then have "res = False" "pm' = pm" "s' = s"
      using remove by (auto simp: pmap_remove_def pmap_remove_locked_def pmap_leaf_def path_of_def Let_def
          split: option.splits if_splits)
    moreover have "pmap_leaf s ?root x = None" if "user_va x" "x div PAGE_SIZE = va div PAGE_SIZE" for x
    proof -
      have "path_of x = path_of va" "pt_idx x = pt_idx va"
        using same_page_user [OF va that(1)] that by (auto simp: same_page_def)
      then show ?thesis using None by (auto simp: pmap_leaf_def split: option.splits)
    qed
    ultimately show ?thesis using None ok by auto
  next
    case (Some e)
    then obtain t where t: "table_at s ?root (path_of va) = Some t" "present (ms_mem s t (pt_idx va))"
      by (auto simp: pmap_leaf_def Let_def split: option.splits if_splits)
    then have res: "res" "pm' = pm\<lparr>pm_leafs := sub64 (pm_leafs pm) 1\<rparr>"
      "s' = pmap_invlpg va (set_slot t (pt_idx va) 0 s)"
      using remove by (auto simp: pmap_remove_def pmap_remove_locked_def path_of_def split: option.splits)
    have mem: "ms_mem s' = ms_mem (set_slot t (pt_idx va) 0 s)" "ms_pmm s' = ms_pmm (set_slot t (pt_idx va) 0 s)"
      using res(3) by simp_all
    note leaf = set_leaf [OF paths_user pt r user_path [OF va] t(1)]
    have "pmap_leaf s' r' x = (if r' = ?root \<and> x div PAGE_SIZE = va div PAGE_SIZE then None
        else pmap_leaf s r' x)" if "r' \<in> R" "user_va x" for r' x
      using leaf(3) [OF that(1) user_path [OF that(2)], of 0] pmap_leaf_mem [OF mem(1)]
        same_page_user [OF va that(2)] by auto
    moreover have "spaces_ok s' R"
      using leaf(2) pt_ok_mem [OF mem] no_huge_mem [OF mem(1)]
        set_leaf_no_huge [OF paths_user pt nh r user_path [OF va] t(1)] by (simp add: spaces_ok_def)
    moreover have "ms_mem s' g = ms_mem s g" if "g \<notin> tables s R ?V" for g
      using leaf(4) [OF that] mem(1) by metis
    moreover have "tables s' R ?V = tables s R ?V" using leaf(5) tables_mem [OF mem(1)] by simp
    ultimately show ?thesis using res Some by (simp add: pml4_frame_def)
  qed
qed

section \<open>The page tables as a translation map\<close>

text \<open>
  What changing one page leaves alone: the contents of every frame in use that is not one of the
  tables, and the standing of every frame in use; only free frames become tables.
\<close>

definition undisturbed :: "mstate \<Rightarrow> nat set \<Rightarrow> mstate \<Rightarrow> bool" where
  "undisturbed s R s' \<longleftrightarrow>
     (\<forall>g. g \<notin> tables s R user_paths \<longrightarrow> frame_of (ms_pmm s) g \<noteq> Free \<longrightarrow> ms_mem s' g = ms_mem s g) \<and>
     (\<forall>g. frame_of (ms_pmm s) g \<noteq> Free \<longrightarrow> frame_of (ms_pmm s') g = frame_of (ms_pmm s) g) \<and>
     tables s R user_paths \<subseteq> tables s' R user_paths \<and>
     (\<forall>g \<in> tables s' R user_paths. g \<in> tables s R user_paths \<or> frame_of (ms_pmm s) g = Free) \<and>
     (\<forall>g. frame_of (ms_pmm s) g = Free \<longrightarrow> frame_of (ms_pmm s') g =
        (if g \<in> tables s' R user_paths - tables s R user_paths then Owned 1 else Free))"

lemma undisturbed_refl: "undisturbed s R s"
  by (simp add: undisturbed_def)

lemma undisturbed_trans:
  assumes "undisturbed s R t" "undisturbed t R u"
  shows "undisturbed s R u"
  unfolding undisturbed_def
proof (intro conjI ballI allI impI)
  note st = assms(1) [unfolded undisturbed_def] and tu = assms(2) [unfolded undisturbed_def]
  fix g
  show "ms_mem u g = ms_mem s g" if "g \<notin> tables s R user_paths" "frame_of (ms_pmm s) g \<noteq> Free"
    using st tu that by metis
  show "frame_of (ms_pmm u) g = frame_of (ms_pmm s) g" if "frame_of (ms_pmm s) g \<noteq> Free"
    using st tu that by metis
  show "tables s R user_paths \<subseteq> tables u R user_paths" using st tu by blast
  show "g \<in> tables s R user_paths \<or> frame_of (ms_pmm s) g = Free" if "g \<in> tables u R user_paths"
    using st tu that by metis
  assume g: "frame_of (ms_pmm s) g = Free"
  show "frame_of (ms_pmm u) g = (if g \<in> tables u R user_paths - tables s R user_paths then Owned 1 else Free)"
  proof (cases "g \<in> tables t R user_paths - tables s R user_paths")
    case True
    then have "frame_of (ms_pmm t) g = Owned 1" using st g by simp
    then show ?thesis using tu True by auto
  next
    case False
    then have "frame_of (ms_pmm t) g = Free" using st g by auto
    then show ?thesis using tu False st by auto
  qed
qed

text \<open>Requests to a family of address spaces, and how the code serves a sequence of them.\<close>

datatype pm_request = PmEnter nat u64 u64 "32 word" | PmRemove nat u64

fun pm_run ::
  "('p \<Rightarrow> u64 \<Rightarrow> u64 \<Rightarrow> 32 word \<Rightarrow> 'm \<Rightarrow> (bool \<times> 'p \<times> 'm) kres) \<Rightarrow>
   ('p \<Rightarrow> u64 \<Rightarrow> 'm \<Rightarrow> bool \<times> 'p \<times> 'm) \<Rightarrow>
   pm_request list \<Rightarrow> (nat \<Rightarrow> 'p) \<Rightarrow> 'm \<Rightarrow> (bool list \<times> (nat \<Rightarrow> 'p) \<times> 'm) kres" where
  "pm_run enter remove [] pms s = Ret ([], pms, s)"
| "pm_run enter remove (PmEnter k va pa prot # qs) pms s =
     kbind (enter (pms k) va pa prot s) (\<lambda>(b, pm, s1).
       kbind (pm_run enter remove qs (pms(k := pm)) s1) (\<lambda>(bs, r). Ret (b # bs, r)))"
| "pm_run enter remove (PmRemove k va # qs) pms s =
     (case remove (pms k) va s of (b, pm, s1) \<Rightarrow>
       kbind (pm_run enter remove qs (pms(k := pm)) s1) (\<lambda>(bs, r). Ret (b # bs, r)))"

fun request_ok :: "pm_request \<Rightarrow> bool" where
  "request_ok (PmEnter k va pa prot) \<longleftrightarrow> user_va va \<and> page_aligned va \<and> page_aligned pa \<and> pa < 2 ^ 52"
| "request_ok (PmRemove k va) \<longleftrightarrow> user_va va \<and> page_aligned va"

text \<open>
  The specification: each address space, named by its root, is a partial map from page numbers to
  entries. An enter either updates one page or fails for want of a table; a remove empties one page
  and tells whether there was an entry.
\<close>

type_synonym trans_map = "nat \<Rightarrow> nat \<Rightarrow> 64 word option"

definition set_page :: "trans_map \<Rightarrow> nat \<Rightarrow> u64 \<Rightarrow> 64 word option \<Rightarrow> trans_map" where
  "set_page T r va w = T(r := (T r)(va div PAGE_SIZE := w))"

inductive spec_run :: "(nat \<Rightarrow> nat) \<Rightarrow> trans_map \<Rightarrow> pm_request list \<Rightarrow> bool list \<Rightarrow> trans_map \<Rightarrow> bool"
  for root where
  Done: "spec_run root T [] [] T"
| Entered: "spec_run root (set_page T (root k) va (Some (leaf_pte pa prot))) qs bs T' \<Longrightarrow>
    spec_run root T (PmEnter k va pa prot # qs) (True # bs) T'"
| No_table: "spec_run root T qs bs T' \<Longrightarrow> spec_run root T (PmEnter k va pa prot # qs) (False # bs) T'"
| Removed: "spec_run root (set_page T (root k) va None) qs bs T' \<Longrightarrow>
    b = (T (root k) (va div PAGE_SIZE) \<noteq> None) \<Longrightarrow> spec_run root T (PmRemove k va # qs) (b # bs) T'"

locale address_spaces =
  fixes inv :: "'m \<Rightarrow> nat set \<Rightarrow> bool"
    and root :: "'p \<Rightarrow> nat"
    and leaf :: "'m \<Rightarrow> nat \<Rightarrow> u64 \<Rightarrow> 64 word option"
    and preserves :: "'m \<Rightarrow> nat set \<Rightarrow> 'm \<Rightarrow> bool"
    and enter :: "'p \<Rightarrow> u64 \<Rightarrow> u64 \<Rightarrow> 32 word \<Rightarrow> 'm \<Rightarrow> (bool \<times> 'p \<times> 'm) kres"
    and remove :: "'p \<Rightarrow> u64 \<Rightarrow> 'm \<Rightarrow> bool \<times> 'p \<times> 'm"
    and translate :: "'p \<Rightarrow> u64 \<Rightarrow> 'm \<Rightarrow> u64"
  assumes preserves_refl: "preserves s R s"
    and preserves_trans: "preserves s R t \<Longrightarrow> preserves t R u \<Longrightarrow> preserves s R u"
    and enter_law: "inv s R \<Longrightarrow> root pm \<in> R \<Longrightarrow> user_va va \<Longrightarrow> page_aligned va \<Longrightarrow>
      page_aligned pa \<Longrightarrow> pa < 2 ^ 52 \<Longrightarrow>
      \<exists>b pm' s'. enter pm va pa prot s = Ret (b, pm', s') \<and> inv s' R \<and> root pm' = root pm \<and> preserves s R s' \<and>
        (\<forall>r \<in> R. \<forall>x. user_va x \<longrightarrow> leaf s' r x =
           (if b \<and> r = root pm \<and> x div PAGE_SIZE = va div PAGE_SIZE then Some (leaf_pte pa prot)
            else leaf s r x))"
    and remove_law: "inv s R \<Longrightarrow> root pm \<in> R \<Longrightarrow> user_va va \<Longrightarrow> page_aligned va \<Longrightarrow>
      remove pm va s = (b, pm', s') \<Longrightarrow>
      inv s' R \<and> root pm' = root pm \<and> preserves s R s' \<and> (b \<longleftrightarrow> leaf s (root pm) va \<noteq> None) \<and>
        (\<forall>r \<in> R. \<forall>x. user_va x \<longrightarrow> leaf s' r x =
           (if r = root pm \<and> x div PAGE_SIZE = va div PAGE_SIZE then None else leaf s r x))"
    and translate_law: "inv s R \<Longrightarrow> root pm \<in> R \<Longrightarrow> user_va va \<Longrightarrow> page_aligned va \<Longrightarrow>
      translate pm va s = (case leaf s (root pm) va of None \<Rightarrow> PA_INVALID | Some e \<Rightarrow> pte_pa e)"
begin

definition shows_map :: "nat set \<Rightarrow> trans_map \<Rightarrow> 'm \<Rightarrow> bool" where
  "shows_map R T s \<longleftrightarrow> (\<forall>r \<in> R. \<forall>x. user_va x \<longrightarrow> leaf s r x = T r (x div PAGE_SIZE))"

text \<open>Serving requests on the tables implements the specification.\<close>

lemma run_refines:
  assumes "inv s R" "\<And>k. root (pms k) \<in> R" "\<forall>q \<in> set qs. request_ok q" "shows_map R T s"
  shows "\<exists>bs pms' s' T'. pm_run enter remove qs pms s = Ret (bs, pms', s') \<and> inv s' R \<and> preserves s R s' \<and>
    (\<forall>k. root (pms' k) = root (pms k)) \<and> spec_run (\<lambda>k. root (pms k)) T qs bs T' \<and> shows_map R T' s'"
  using assms
proof (induction qs arbitrary: pms s T)
  case Nil
  then show ?case by (auto intro: preserves_refl spec_run.Done)
next
  case (Cons q qs)
  have step: "\<exists>bs pms' s' T'. pm_run enter remove (q # qs) pms s = Ret (bs, pms', s') \<and> inv s' R \<and> preserves s R s' \<and>
    (\<forall>k. root (pms' k) = root (pms k)) \<and> spec_run (\<lambda>k. root (pms k)) T (q # qs) bs T' \<and> shows_map R T' s'"
    if one: "\<And>r. pm_run enter remove qs (pms(k := pm)) s1 = Ret r \<Longrightarrow>
        pm_run enter remove (q # qs) pms s = Ret (b # fst r, snd r)"
      and s1: "inv s1 R" "preserves s R s1" "root pm = root (pms k)" "shows_map R T1 s1"
      and sp: "\<And>bs T'. spec_run (\<lambda>k. root (pms k)) T1 qs bs T' \<Longrightarrow>
        spec_run (\<lambda>k. root (pms k)) T (q # qs) (b # bs) T'"
    for k pm s1 b T1
  proof -
    have roots: "root ((pms(k := pm)) j) = root (pms j)" for j using s1(3) by simp
    then have "\<And>j. root ((pms(k := pm)) j) \<in> R" using Cons.prems(2) by simp
    moreover have "\<forall>q \<in> set qs. request_ok q" using Cons.prems(3) by simp
    ultimately obtain bs pms' s' T' where r: "pm_run enter remove qs (pms(k := pm)) s1 = Ret (bs, pms', s')"
        "inv s' R" "preserves s1 R s'" "\<forall>j. root (pms' j) = root (pms j)"
        "spec_run (\<lambda>j. root (pms j)) T1 qs bs T'" "shows_map R T' s'"
      using Cons.IH [OF s1(1) _ _ s1(4), of "pms(k := pm)"] unfolding roots by blast
    show ?thesis
      using one [OF r(1)] r preserves_trans [OF s1(2) r(3)] sp [OF r(5)]
      by (intro exI [of _ "b # bs"] exI [of _ pms'] exI [of _ s'] exI [of _ T']) simp
  qed
  show ?case
  proof (cases q)
    case (PmEnter k va pa prot)
    then obtain b pm s1 where e: "enter (pms k) va pa prot s = Ret (b, pm, s1)" "inv s1 R"
        "root pm = root (pms k)" "preserves s R s1"
        "\<forall>r \<in> R. \<forall>x. user_va x \<longrightarrow> leaf s1 r x =
           (if b \<and> r = root (pms k) \<and> x div PAGE_SIZE = va div PAGE_SIZE then Some (leaf_pte pa prot)
            else leaf s r x)"
      using enter_law [OF Cons.prems(1,2)] Cons.prems(3) by (metis list.set_intros(1) request_ok.simps(1))
    let ?T = "if b then set_page T (root (pms k)) va (Some (leaf_pte pa prot)) else T"
    have "shows_map R ?T s1"
      using e(5) Cons.prems(4) by (simp add: shows_map_def set_page_def)
    moreover have "spec_run (\<lambda>k. root (pms k)) T (q # qs) (b # bs) T'"
      if "spec_run (\<lambda>k. root (pms k)) ?T qs bs T'" for bs T'
      using that PmEnter by (cases b) (simp_all add: spec_run.Entered spec_run.No_table)
    ultimately show ?thesis
      using step [of k pm s1 b ?T] e PmEnter by (simp add: split_beta)
  next
    case (PmRemove k va)
    obtain b pm s1 where e: "remove (pms k) va s = (b, pm, s1)" by (cases "remove (pms k) va s")
    note law = remove_law [OF Cons.prems(1,2) _ _ e]
    have va: "user_va va" "page_aligned va" using PmRemove Cons.prems(3) by auto
    let ?T = "set_page T (root (pms k)) va None"
    have "shows_map R ?T s1"
      using law va Cons.prems(4) by (simp add: shows_map_def set_page_def)
    moreover have "spec_run (\<lambda>k. root (pms k)) T (q # qs) (b # bs) T'"
      if "spec_run (\<lambda>k. root (pms k)) ?T qs bs T'" for bs T'
      using spec_run.Removed [OF that] law va Cons.prems(2,4) PmRemove by (simp add: shows_map_def)
    ultimately show ?thesis
      using step [of k pm s1 b ?T] e law va PmRemove by (simp add: split_beta)
  qed
qed

lemma translate_shows:
  assumes "inv s R" "root pm \<in> R" "user_va va" "page_aligned va" "shows_map R T s"
  shows "translate pm va s = (case T (root pm) (va div PAGE_SIZE) of None \<Rightarrow> PA_INVALID | Some e \<Rightarrow> pte_pa e)"
  using translate_law [OF assms(1-4)] assms by (simp add: shows_map_def)

end

interpretation asp: address_spaces spaces_ok pml4_frame pmap_leaf undisturbed pmap_enter pmap_remove pmap_extract
proof unfold_locales
  fix s R t u
  show "undisturbed s R s" by (rule undisturbed_refl)
  show "undisturbed s R t \<Longrightarrow> undisturbed t R u \<Longrightarrow> undisturbed s R u" by (rule undisturbed_trans)
next
  fix s R pm va pa prot
  assume a: "spaces_ok s R" "pml4_frame pm \<in> R" "user_va va" "page_aligned va" "page_aligned pa" "pa < 2 ^ 52"
  then obtain b pm' s' where e: "pmap_enter pm va pa prot s = Ret (b, pm', s')"
    using pmap_enter_panics [of pm va pa prot s] by (cases "pmap_enter pm va pa prot s") auto
  moreover have "spaces_ok s' R \<and> pml4_frame pm' = pml4_frame pm \<and> undisturbed s R s' \<and>
      (\<forall>r \<in> R. \<forall>x. user_va x \<longrightarrow> pmap_leaf s' r x =
         (if b \<and> r = pml4_frame pm \<and> x div PAGE_SIZE = va div PAGE_SIZE then Some (leaf_pte pa prot)
          else pmap_leaf s r x))"
  proof (cases b)
    case True
    then show ?thesis using enter_true [OF a(1-3) _ a(5,6)] e by (simp add: undisturbed_def)
  next
    case False
    then show ?thesis using enter_false [OF a(1-3)] e
      by (auto simp: undisturbed_def kept_def user_path)
  qed
  ultimately show "\<exists>b pm' s'. pmap_enter pm va pa prot s = Ret (b, pm', s') \<and> spaces_ok s' R \<and>
      pml4_frame pm' = pml4_frame pm \<and> undisturbed s R s' \<and>
      (\<forall>r \<in> R. \<forall>x. user_va x \<longrightarrow> pmap_leaf s' r x =
         (if b \<and> r = pml4_frame pm \<and> x div PAGE_SIZE = va div PAGE_SIZE then Some (leaf_pte pa prot)
          else pmap_leaf s r x))" by blast
next
  fix s R pm va b pm' s'
  assume a: "spaces_ok s R" "pml4_frame pm \<in> R" "user_va va" "pmap_remove pm va s = (b, pm', s')"
  show "spaces_ok s' R \<and> pml4_frame pm' = pml4_frame pm \<and> undisturbed s R s' \<and>
      (b \<longleftrightarrow> pmap_leaf s (pml4_frame pm) va \<noteq> None) \<and>
      (\<forall>r \<in> R. \<forall>x. user_va x \<longrightarrow> pmap_leaf s' r x =
         (if r = pml4_frame pm \<and> x div PAGE_SIZE = va div PAGE_SIZE then None else pmap_leaf s r x))"
    using remove_user [OF a] by (simp add: undisturbed_def)
next
  fix s R pm va
  assume "spaces_ok s R" "pml4_frame pm \<in> R" "user_va va" "page_aligned va"
  then show "pmap_extract pm va s =
      (case pmap_leaf s (pml4_frame pm) va of None \<Rightarrow> PA_INVALID | Some e \<Rightarrow> pte_pa e)"
    by (rule pmap_extract_leaf)
qed

lemma tables_I: "r \<in> R \<Longrightarrow> p \<in> V \<Longrightarrow> table_at s r p = Some f \<Longrightarrow> f \<in> tables s R V"
  by (auto simp: tables_def)

lemma tables_insert: "tables s (insert r R) V = tables s {r} V \<union> tables s R V"
  by (auto simp: tables_def)

text \<open>A change that touches no table keeps the address spaces as they are.\<close>

lemma spaces_transfer:
  assumes ok: "spaces_ok s R" and inv: "pmm_inv (ms_pmm s')"
    and mem: "\<And>g. g \<in> tables s R user_paths \<Longrightarrow> ms_mem s' g = ms_mem s g"
    and used: "\<And>g. g \<in> tables s R user_paths \<Longrightarrow> frame_of (ms_pmm s') g \<noteq> Free"
  shows "spaces_ok s' R" "tables s' R user_paths = tables s R user_paths"
    "r \<in> R \<Longrightarrow> user_va x \<Longrightarrow> pmap_leaf s' r x = pmap_leaf s r x"
proof -
  have pt: "pt_ok s R user_paths" and nh: "no_huge s R user_paths" using ok by (auto simp: spaces_ok_def)
  have tab: "f \<in> tables s R user_paths" if "r \<in> R" "p \<in> user_paths" "table_at s r p = Some f" for r p f
    using that by (auto simp: tables_def)
  have at: "table_at s' r p = table_at s r p" if "r \<in> R" "p \<in> user_paths" for r p
  proof (rule table_at_cong [OF paths_user that(2)])
    fix q i f assume "q @ [i] \<in> user_paths" "table_at s r q = Some f"
    then have "ms_mem s' f = ms_mem s f" using mem tab [OF that(1)] paths_short [OF paths_user] by blast
    then show "descend s' f i = descend s f i" by (simp add: descend_def)
  qed
  then show tabs: "tables s' R user_paths = tables s R user_paths" by (auto simp: tables_def)
  have "pt_ok s' R user_paths" using pt_ok_transfer [OF pt inv at used] by blast
  moreover have "no_huge s' R user_paths"
    unfolding no_huge_def
  proof (intro ballI allI impI)
    fix r p i f assume a: "r \<in> R" "p @ [i] \<in> user_paths" "table_at s' r p = Some f" "present (ms_mem s' f i)"
    have p: "p \<in> user_paths" using paths_short [OF paths_user a(2)] by blast
    have f: "table_at s r p = Some f" using a(3) at [OF a(1) p] by simp
    have "ms_mem s' f = ms_mem s f" using mem [OF tab [OF a(1) p f]] .
    then show "\<not> huge (ms_mem s' f i)" using no_hugeD [OF nh a(1,2) f] a(4) by simp
  qed
  ultimately show "spaces_ok s' R" by (simp add: spaces_ok_def)
  show "pmap_leaf s' r x = pmap_leaf s r x" if "r \<in> R" "user_va x"
    using at [OF that(1) user_path [OF that(2)]] mem tab [OF that(1) user_path [OF that(2)]]
    by (auto simp: pmap_leaf_def split: option.splits)
qed

lemma tables_used: "spaces_ok s R \<Longrightarrow> g \<in> tables s R user_paths \<Longrightarrow> frame_of (ms_pmm s) g \<noteq> Free"
  by (auto simp: spaces_ok_def pt_ok_def)

lemma spaces_pmm: "spaces_ok s R \<Longrightarrow> pmm_inv (ms_pmm s)"
  by (auto simp: spaces_ok_def pt_ok_def)

lemma root_table: "r \<in> R \<Longrightarrow> r \<in> tables s R user_paths"
  by (auto simp: tables_def user_paths_def intro!: bexI [of _ r] bexI [of _ "[]"])

section \<open>A new address space\<close>

lemma copy_slots:
  assumes "g \<noteq> f"
  shows "fold (\<lambda>i s. set_slot f i (ms_mem s g i) s) is s =
    s\<lparr>ms_mem := (ms_mem s)(f := (\<lambda>i. if i \<in> set is then ms_mem s g i else ms_mem s f i))\<rparr>"
  using assms
proof (induction "is" arbitrary: s)
  case (Cons i "is")
  then show ?case by (simp add: set_slot_def fun_eq_iff)
qed simp

lemma free_frame_owned:
  assumes "pmm_inv (ms_pmm s)" "page_aligned pa" "frame_of (ms_pmm s) (page_index pa) = Owned n"
  obtains s' where "free_frame pa s = Ret s'" "pmm_inv (ms_pmm s')" "ms_mem s' = ms_mem s" "ms_inval s' = ms_inval s"
    "frame_of (ms_pmm s') = (frame_of (ms_pmm s))(page_index pa := if n = 1 then Free else Owned (n - 1))"
  using pf.release_ok [OF assms] by (auto simp: free_frame_def)

text \<open>
  The kernel's tables as \<open>pmap_create\<close> relies on them: the first slot of the top table holds the
  low PDPT, whose slot for the tasks' window is empty.
\<close>

definition kernel_tables :: "pmap \<Rightarrow> mstate \<Rightarrow> nat \<Rightarrow> bool" where
  "kernel_tables kp s k3 \<longleftrightarrow> descend s (pml4_frame kp) 0 = Some k3 \<and>
     frame_of (ms_pmm s) (pml4_frame kp) \<noteq> Free \<and> frame_of (ms_pmm s) k3 \<noteq> Free \<and>
     \<not> present (ms_mem s k3 1)"

lemma frame_pa_lt:
  assumes "pmm_inv a" "frame_of a (page_index pa) \<noteq> Reserved"
  shows "pa < 2 ^ 52"
proof -
  have "page_index pa < 2 ^ 18"
    using frame_of_outside assms frame_index_lt by metis
  then have "pa < 2 ^ 18 * PAGE_SIZE" by (simp add: page_index_def PAGE_SHIFT_def PAGE_SIZE_eq div_less_iff_less_mult)
  then show ?thesis by (simp add: PAGE_SIZE_eq)
qed

lemma pmap_create_Some:
  assumes ok: "spaces_ok s R" and k: "kernel_tables kp s k3"
    and create: "pmap_create ok1 kp s = Ret (Some pm, s')"
  shows "spaces_ok s' (insert (pml4_frame pm) R)"
    "frame_of (ms_pmm s) (pml4_frame pm) = Free"
    "frame_of (ms_pmm s) g \<noteq> Free \<Longrightarrow> ms_mem s' g = ms_mem s g"
    "r \<in> R \<Longrightarrow> user_va x \<Longrightarrow> pmap_leaf s' r x = pmap_leaf s r x"
    "user_va x \<Longrightarrow> pmap_leaf s' (pml4_frame pm) x = None"
    "0 < i \<Longrightarrow> i < 512 \<Longrightarrow> ms_mem s' (pml4_frame pm) i = ms_mem s (pml4_frame kp) i"
    "\<exists>f3. descend s' (pml4_frame pm) 0 = Some f3 \<and> frame_of (ms_pmm s) f3 = Free \<and> f3 \<noteq> pml4_frame pm \<and>
       frame_of (ms_pmm s') = (frame_of (ms_pmm s))(pml4_frame pm := Owned 1, f3 := Owned 1) \<and>
       (\<forall>i < 512. ms_mem s' f3 i = ms_mem s k3 i)"
proof -
  obtain a1 pa4 where al1: "pmm_alloc_page (ms_pmm s) = (a1, pa4)" by force
  obtain a2 pa3 where al2: "pmm_alloc_page a1 = (a2, pa3)" by force
  let ?kf = "pml4_frame kp" and ?f4 = "page_index pa4" and ?f3 = "page_index pa3"
  have ok4: "pa4 \<noteq> PA_INVALID" and ok3: "pa3 \<noteq> PA_INVALID" and "ok1"
    using create al1 al2
    by (auto simp: pmap_create_def Let_def kbind_Ret_iff split: if_splits)
  note inv = spaces_pmm [OF ok]
  note p4 = pf.alloc_some [OF inv al1 ok4]
  have inv1: "pmm_inv a1" using p4 by blast
  note p3 = pf.alloc_some [OF inv1 al2 ok3]
  have fr: "frame_of (ms_pmm s) ?f4 = Free" "frame_of (ms_pmm s) ?f3 = Free" "?f3 \<noteq> ?f4"
    using p4 p3 by (auto split: if_splits)
  have ne: "?kf \<noteq> ?f4" "?kf \<noteq> ?f3" "k3 \<noteq> ?f4" "k3 \<noteq> ?f3" using k fr by (auto simp: kernel_tables_def)
  define s2 where "s2 = zero_frame ?f3 (zero_frame ?f4 (s\<lparr>ms_pmm := a2\<rparr>))"
  define s4 where "s4 = fold (\<lambda>i s. set_slot ?f4 i (ms_mem s ?kf i) s) [1..<512] s2"
  have s2k: "ms_mem s2 ?kf = ms_mem s ?kf" "ms_mem s2 k3 = ms_mem s k3" using ne by (simp_all add: s2_def)
  have s4: "s4 = s2\<lparr>ms_mem := (ms_mem s2)(?f4 := (\<lambda>i. if 1 \<le> i \<and> i < 512 then ms_mem s ?kf i else ms_mem s2 ?f4 i))\<rparr>"
    using copy_slots [OF ne(1), of "[1..<512]" s2] ne by (simp add: s4_def s2k cong: if_cong)
  have e: "ms_mem s4 ?kf 0 = ms_mem s ?kf 0" using ne by (simp add: s4 s2_def)
  have k3: "present (ms_mem s ?kf 0)" "\<not> huge (ms_mem s ?kf 0)" "table_va (ms_mem s ?kf 0) = k3"
    using k by (auto simp: kernel_tables_def descend_def Let_def split: if_splits)
  define w where "w = of_nat pa3 OR PTE_P OR PTE_RW OR PTE_US"
  define s5 where "s5 = fold (\<lambda>i s. set_slot ?f3 i (ms_mem s k3 i) s) [0..<512] s4"
  have s4k: "ms_mem s4 k3 = ms_mem s k3" using ne by (simp add: s4 s2k)
  have s5: "s5 = s4\<lparr>ms_mem := (ms_mem s4)(?f3 := (\<lambda>i. if i < 512 then ms_mem s k3 i else ms_mem s4 ?f3 i))\<rparr>"
    using copy_slots [OF ne(4), of "[0..<512]" s4] ne by (simp add: s5_def s4k cong: if_cong)
  have res: "s' = set_slot ?f4 0 w s5" "pm = \<lparr>pm_pml4_pa = pa4, pm_leafs = 0, pm_intermediates = 1, pm_is_kernel = False\<rparr>"
    using create al1 al2 ok4 ok3 \<open>ok1\<close> e k3
    by (simp_all add: pmap_create_def Let_def s2_def [symmetric] s4_def [symmetric] s5_def [symmetric] w_def del: One_nat_def cong: if_cong)
  have f4: "pml4_frame pm = ?f4" by (simp add: res(2) pml4_frame_def)
  have mem: "ms_mem s' = (ms_mem s)(
      ?f4 := (\<lambda>i. if i = 0 then w else if i < 512 then ms_mem s ?kf i else ms_mem s ?f4 i),
      ?f3 := (\<lambda>i. if i < 512 then ms_mem s k3 i else ms_mem s ?f3 i))"
    using ne fr(3) by (auto simp: res(1) s5 s4 s2_def fun_eq_iff)
  have pmm: "ms_pmm s' = a2" by (simp add: res(1) s5 s4 s2_def)
  have frames: "frame_of (ms_pmm s') = (frame_of (ms_pmm s))(?f4 := Owned 1, ?f3 := Owned 1)"
    using p4 p3 by (simp add: pmm)
  have w: "present w" "\<not> huge w" "table_va w = ?f3"
    using table_entry [of pa3 True] p3 frame_pa_lt [OF inv1, of pa3] by (simp_all add: w_def)
  have tab: "g \<noteq> ?f4 \<and> g \<noteq> ?f3" if "g \<in> tables s R user_paths" for g
    using tables_used [OF ok that] fr by auto
  note tr = spaces_transfer [OF ok, of s']
  have inv': "pmm_inv (ms_pmm s')" using p3 pmm by simp
  have memt: "ms_mem s' g = ms_mem s g" if "g \<in> tables s R user_paths" for g
    using tab [OF that] by (simp add: mem)
  have usedt: "frame_of (ms_pmm s') g \<noteq> Free" if "g \<in> tables s R user_paths" for g
    using tab [OF that] tables_used [OF ok that] by (simp add: frames)
  note tr = spaces_transfer [OF ok inv' memt usedt]
  have d0: "descend s' ?f4 0 = Some ?f3" using w fr(3) by (simp add: descend_def mem)
  have d1: "descend s' ?f3 1 = None" using k by (simp add: descend_def mem kernel_tables_def)
  have at: "table_at s' ?f4 p = (if p = [] then Some ?f4 else if p = [0] then Some ?f3 else None)"
    if "p \<in> user_paths" for p
    using that d0 d1 by (auto simp: user_paths_def)
  have nR: "?f4 \<notin> R" using root_table [of ?f4 R s] tab by blast
  have at_new: "r \<in> R \<Longrightarrow> p \<in> user_paths \<Longrightarrow> table_at s' r p = Some f \<Longrightarrow> f \<noteq> ?f4 \<and> f \<noteq> ?f3" for r p f
    using tables_I [of r R p user_paths s' f] tab tr(2) by blast
  have tabs': "tables s' (insert ?f4 R) user_paths = insert ?f4 (insert ?f3 (tables s R user_paths))"
  proof -
    have "tables s' {?f4} user_paths = {?f4, ?f3}" using at by (auto simp: tables_def user_paths_def)
    then show ?thesis using tables_insert [of s' ?f4 R user_paths] tr(2) by simp
  qed
  have "pt_ok s' (insert ?f4 R) user_paths"
    unfolding pt_ok_def
  proof (intro conjI ballI allI impI)
    show "pmm_inv (ms_pmm s')" by (rule inv')
    show "frame_of (ms_pmm s') g \<noteq> Free" if "g \<in> tables s' (insert ?f4 R) user_paths" for g
      using that usedt [of g] unfolding tabs' by (auto simp: frames)
    fix r r' p q f
    assume a: "r \<in> insert ?f4 R" "r' \<in> insert ?f4 R" "p \<in> user_paths" "q \<in> user_paths"
      "table_at s' r p = Some f" "table_at s' r' q = Some f"
    have R: "pt_ok s' R user_paths" using tr(1) by (simp add: spaces_ok_def)
    show "r = r'" "p = q"
      using a at [OF a(3)] at [OF a(4)] at_new [of r p f] at_new [of r' q f] pt_okD(2) [OF R, of r r' p q f] fr(3)
      by (auto split: if_splits)
  qed
  moreover have "no_huge s' (insert ?f4 R) user_paths"
    unfolding no_huge_def
  proof (intro ballI allI impI)
    fix r p i f
    assume a: "r \<in> insert ?f4 R" "p @ [i] \<in> user_paths" "table_at s' r p = Some f" "present (ms_mem s' f i)"
    show "\<not> huge (ms_mem s' f i)"
    proof (cases "r \<in> R")
      case True
      then show ?thesis using tr(1) a(2-4) no_hugeD [of s' R user_paths r p i f] by (simp add: spaces_ok_def)
    next
      case False
      then have "p = [] \<and> f = ?f4 \<or> p = [0] \<and> f = ?f3"
        using a at [of p] paths_short [OF paths_user a(2)] by (auto split: if_splits)
      then show ?thesis using a(2,4) w fr(3) k by (auto simp: mem user_paths_def kernel_tables_def)
    qed
  qed
  ultimately show "spaces_ok s' (insert (pml4_frame pm) R)" by (simp add: f4 spaces_ok_def)
  show "frame_of (ms_pmm s) (pml4_frame pm) = Free" using f4 fr by simp
  show "ms_mem s' g = ms_mem s g" if "frame_of (ms_pmm s) g \<noteq> Free"
    using fr that by (auto simp: mem)
  show "pmap_leaf s' r x = pmap_leaf s r x" if "r \<in> R" "user_va x" using tr(3) that by blast
  show "pmap_leaf s' (pml4_frame pm) x = None" if "user_va x"
    using at [OF user_path [OF that]] by (simp add: f4 pmap_leaf_def path_of_def)
  show "ms_mem s' (pml4_frame pm) i = ms_mem s (pml4_frame kp) i" if "0 < i" "i < 512"
    using that fr(3) by (simp add: f4 mem)
  show "\<exists>f3. descend s' (pml4_frame pm) 0 = Some f3 \<and> frame_of (ms_pmm s) f3 = Free \<and> f3 \<noteq> pml4_frame pm \<and>
       frame_of (ms_pmm s') = (frame_of (ms_pmm s))(pml4_frame pm := Owned 1, f3 := Owned 1) \<and>
       (\<forall>i < 512. ms_mem s' f3 i = ms_mem s k3 i)"
    using d0 fr frames by (intro exI [of _ ?f3]) (simp add: f4 mem)
qed

lemma pmap_create_None:
  assumes inv: "pmm_inv (ms_pmm s)" and k: "kernel_tables kp s k3"
    and create: "pmap_create ok1 kp s = Ret (None, s')"
  shows "s' = s\<lparr>ms_pmm := ms_pmm s'\<rparr>" "frame_of (ms_pmm s') = frame_of (ms_pmm s)" "pmm_inv (ms_pmm s')"
    "ok1 \<Longrightarrow> card {f. frame_of (ms_pmm s) f = Free} < 2"
proof -
  obtain a1 pa4 where al1: "pmm_alloc_page (ms_pmm s) = (a1, pa4)" by force
  obtain a2 pa3 where al2: "pmm_alloc_page a1 = (a2, pa3)" by force
  have "s' = s\<lparr>ms_pmm := ms_pmm s'\<rparr> \<and> frame_of (ms_pmm s') = frame_of (ms_pmm s) \<and> pmm_inv (ms_pmm s') \<and>
    (ok1 \<longrightarrow> card {f. frame_of (ms_pmm s) f = Free} < 2)"
  proof (cases "ok1")
    case False
    then show ?thesis using create inv by (simp add: pmap_create_def)
  next
    case ok: True
    show ?thesis
    proof (cases "pa4 = PA_INVALID")
      case True
      then have "a1 = ms_pmm s" "\<forall>g. frame_of (ms_pmm s) g \<noteq> Free" using pf.alloc_none [OF inv] al1 by auto
      then show ?thesis using True ok create inv al1 by (simp add: pmap_create_def)
    next
      case ok4: False
      note p4 = pf.alloc_some [OF inv al1 ok4]
      have pa3: "pa3 = PA_INVALID"
      proof (rule ccontr)
        assume ok3: "pa3 \<noteq> PA_INVALID"
        note p3 = pf.alloc_some [OF _ al2 ok3]
        define s2 where "s2 = zero_frame (page_index pa3) (zero_frame (page_index pa4) (s\<lparr>ms_pmm := a2\<rparr>))"
        let ?kf = "pml4_frame kp"
        have ne: "?kf \<noteq> page_index pa4" "?kf \<noteq> page_index pa3"
          using k p4 p3 by (auto simp: kernel_tables_def split: if_splits)
        have "ms_mem (fold (\<lambda>i s. set_slot (page_index pa4) i (ms_mem s ?kf i) s) [1..<512] s2) ?kf 0 = ms_mem s ?kf 0"
          using ne by (simp add: copy_slots s2_def)
        then show False
          using create al1 al2 ok4 ok3 ok k
          by (simp add: pmap_create_def Let_def s2_def [symmetric] kernel_tables_def descend_def del: One_nat_def
              split: if_splits)
      qed
      then have full: "a2 = a1" "\<forall>g. frame_of a1 g \<noteq> Free" using pf.alloc_none [of a1 a2] p4 al2 by auto
      have own: "frame_of (ms_pmm (s\<lparr>ms_pmm := a2\<rparr>)) (page_index pa4) = Owned 1" using p4 full by simp
      obtain s3 where s3: "free_frame pa4 (s\<lparr>ms_pmm := a2\<rparr>) = Ret s3" "pmm_inv (ms_pmm s3)"
          "ms_mem s3 = ms_mem s" "ms_inval s3 = ms_inval s"
          "frame_of (ms_pmm s3) = (frame_of a1)(page_index pa4 := Free)"
        using free_frame_owned [OF _ _ own] p4 full(1) by auto
      have "{f. frame_of (ms_pmm s) f = Free} \<subseteq> {page_index pa4}" using full(2) p4 by (auto split: if_splits)
      then have "card {f. frame_of (ms_pmm s) f = Free} \<le> card {page_index pa4}" by (intro card_mono) auto
      moreover have "s' = s3" using s3(1) create al1 al2 ok4 pa3 ok by (simp add: pmap_create_def)
      ultimately show ?thesis using s3 p4 by (auto simp: fun_eq_iff)
    qed
  qed
  then show "s' = s\<lparr>ms_pmm := ms_pmm s'\<rparr>" "frame_of (ms_pmm s') = frame_of (ms_pmm s)" "pmm_inv (ms_pmm s')"
    "ok1 \<Longrightarrow> card {f. frame_of (ms_pmm s) f = Free} < 2" by auto
qed

section \<open>Destroying an address space\<close>

lemma descend_pa:
  assumes "present e" "\<not> huge e" "e = ms_mem s f i"
  shows "descend s f i = Some (page_index (unat (e AND PTE_PA_MASK)))"
  using assms by (simp add: descend_def table_va_def)

lemma entry_pa_aligned: "page_aligned (unat (e AND PTE_PA_MASK))"
proof -
  have "take_bit 12 (e AND PTE_PA_MASK) = 0"
    by (rule bit_eqI) (simp add: bit_take_bit_iff bit_and_iff bit_PA_MASK)
  then have "unat (take_bit 12 (e AND PTE_PA_MASK)) = 0" by simp
  then have "take_bit 12 (unat (e AND PTE_PA_MASK)) = 0" by (simp only: unsigned_take_bit_eq)
  then show ?thesis by (simp add: page_aligned_def PAGE_SIZE_eq take_bit_eq_mod)
qed

lemma descend_mem_eq: "ms_mem s' = ms_mem s \<Longrightarrow> descend s' = descend s"
  by (simp add: descend_def fun_eq_iff)

lemma destroy_pd_frees:
  assumes "pmm_inv (ms_pmm s)" "distinct js"
    and "\<And>j g. j \<in> set js \<Longrightarrow> descend s pd j = Some g \<Longrightarrow> frame_of (ms_pmm s) g = Owned 1"
    and "\<And>j j' g. j \<in> set js \<Longrightarrow> j' \<in> set js \<Longrightarrow> descend s pd j = Some g \<Longrightarrow> descend s pd j' = Some g \<Longrightarrow> j = j'"
  shows "\<exists>s'. destroy_pd pd js s = Ret s' \<and> pmm_inv (ms_pmm s') \<and> ms_mem s' = ms_mem s \<and>
    frame_of (ms_pmm s') = (\<lambda>g. if \<exists>j \<in> set js. descend s pd j = Some g then Free else frame_of (ms_pmm s) g)"
  using assms
proof (induction js arbitrary: s)
  case Nil
  then show ?case by auto
next
  case (Cons j js)
  let ?e = "ms_mem s pd j"
  show ?case
  proof (cases "present ?e \<and> \<not> huge ?e")
    case False
    then have none: "descend s pd j = None" by (auto simp: descend_def)
    then show ?thesis using False Cons.IH [OF Cons.prems(1)] Cons.prems(2-4) by auto
  next
    case True
    let ?pa = "unat (?e AND PTE_PA_MASK)"
    have d: "descend s pd j = Some (page_index ?pa)" using descend_pa True by blast
    have own: "frame_of (ms_pmm s) (page_index ?pa) = Owned 1" using Cons.prems(3) d by auto
    obtain s1 where s1: "free_frame ?pa s = Ret s1" "pmm_inv (ms_pmm s1)" "ms_mem s1 = ms_mem s"
        "frame_of (ms_pmm s1) = (frame_of (ms_pmm s))(page_index ?pa := Free)"
      using free_frame_owned [OF Cons.prems(1) entry_pa_aligned own] by auto
    have ds: "descend s1 = descend s" using descend_mem_eq [OF s1(3)] .
    have ne: "g \<noteq> page_index ?pa" if "j' \<in> set js" "descend s pd j' = Some g" for j' g
      using Cons.prems(2,4) d that by auto
    have "\<exists>s'. destroy_pd pd js s1 = Ret s' \<and> pmm_inv (ms_pmm s') \<and> ms_mem s' = ms_mem s1 \<and>
      frame_of (ms_pmm s') = (\<lambda>g. if \<exists>j \<in> set js. descend s1 pd j = Some g then Free else frame_of (ms_pmm s1) g)"
      using Cons.prems ne by (intro Cons.IH [OF s1(2)]) (auto simp: ds s1(4))
    then show ?thesis
      using True s1(1,3,4) d by (auto simp: ds fun_eq_iff)
  qed
qed

lemma destroy_pdpt_skip:
  assumes "\<And>i. i \<in> set is \<Longrightarrow> descend s f i = None \<or> ms_mem s k3 i = ms_mem s f i"
  shows "destroy_pdpt (Some k3) f is s = Ret s"
  using assms
proof (induction "is")
  case (Cons i "is")
  then have "destroy_pdpt (Some k3) f is s = Ret s" by simp
  moreover have "descend s f i = None \<or> ms_mem s k3 i = ms_mem s f i" using Cons.prems by simp
  ultimately show ?case by (auto simp: descend_def Let_def split: if_splits)
qed simp

lemma destroy_pdpt_append:
  "destroy_pdpt k f (xs @ ys) s = kbind (destroy_pdpt k f xs s) (destroy_pdpt k f ys)"
proof (induction xs arbitrary: s)
  case (Cons i xs)
  have "destroy_pdpt k f (xs @ ys) = (\<lambda>s. kbind (destroy_pdpt k f xs s) (destroy_pdpt k f ys))"
    using Cons.IH by blast
  then show ?case by (simp add: Let_def kbind_assoc)
qed simp

text \<open>
  The tables of a task: a PDPT of its own whose slots are the kernel's but for the tasks' window, and
  below that slot tables of its own, each with one owner.
\<close>

definition task_tables :: "pmap \<Rightarrow> pmap \<Rightarrow> mstate \<Rightarrow> bool" where
  "task_tables kp pm s \<longleftrightarrow> \<not> pm_is_kernel pm \<and> page_aligned (pm_pml4_pa pm) \<and>
     (\<exists>k3 f3. kernel_tables kp s k3 \<and> descend s (pml4_frame pm) 0 = Some f3 \<and>
        (\<forall>i < 512. i \<noteq> 1 \<longrightarrow> ms_mem s f3 i = ms_mem s k3 i)) \<and>
     (\<forall>g \<in> tables s {pml4_frame pm} user_paths. frame_of (ms_pmm s) g = Owned 1)"

lemma pmap_create_task_tables:
  assumes ok: "spaces_ok s R" and k: "kernel_tables kp s k3" and create: "pmap_create ok1 kp s = Ret (Some pm, s')"
  shows "task_tables kp pm s'"
proof -
  note new = pmap_create_Some [OF ok k create]
  obtain f3 where f3: "descend s' (pml4_frame pm) 0 = Some f3" "frame_of (ms_pmm s) f3 = Free"
      "frame_of (ms_pmm s') = (frame_of (ms_pmm s))(pml4_frame pm := Owned 1, f3 := Owned 1)"
      "\<forall>i < 512. ms_mem s' f3 i = ms_mem s k3 i"
    using new(7) by blast
  have kmem: "ms_mem s' (pml4_frame kp) = ms_mem s (pml4_frame kp)" "ms_mem s' k3 = ms_mem s k3"
    using new(3) k by (auto simp: kernel_tables_def)
  have k': "kernel_tables kp s' k3"
    using k kmem new(2) f3(2,3) by (auto simp: kernel_tables_def descend_def)
  have d1: "descend s' f3 1 = None" using f3(4) k by (simp add: descend_def kernel_tables_def)
  have "\<forall>g \<in> tables s' {pml4_frame pm} user_paths. frame_of (ms_pmm s') g = Owned 1"
    using f3(1,3) d1 by (auto simp: tables_def user_paths_def)
  moreover have "\<not> pm_is_kernel pm \<and> page_aligned (pm_pml4_pa pm)"
  proof -
    obtain a1 pa4 where al1: "pmm_alloc_page (ms_pmm s) = (a1, pa4)" by force
    then have "\<not> pm_is_kernel pm \<and> pm_pml4_pa pm = pa4 \<and> pa4 \<noteq> PA_INVALID"
      using create by (auto simp: pmap_create_def Let_def kbind_Ret_iff split: if_splits prod.splits)
    then show ?thesis using pf.alloc_some [OF spaces_pmm [OF ok] al1] by auto
  qed
  ultimately show ?thesis
    using f3(1,4) k' kmem unfolding task_tables_def by fastforce
qed

lemma upt_512:
  obtains xs where "[0..<512] = [0] @ 1 # xs" "\<And>i. i \<in> set xs \<Longrightarrow> i \<noteq> 1 \<and> i < 512"
proof
  have "[0..<512] = 0 # [Suc 0..<512]" by (rule upt_conv_Cons) simp
  moreover have "[Suc 0..<512] = Suc 0 # [Suc (Suc 0)..<512]" by (rule upt_conv_Cons) simp
  ultimately show "[0..<512] = [0] @ 1 # [Suc (Suc 0)..<512]" by (simp only: append.simps One_nat_def)
  show "i \<noteq> 1 \<and> i < 512" if "i \<in> set [Suc (Suc 0)..<512]" for i
    using that unfolding set_upt by simp
qed

lemma pmap_destroy_frees:
  assumes ok: "spaces_ok s {pml4_frame pm}" and task: "task_tables kp pm s"
  shows "\<exists>s'. pmap_destroy kp pm s = Ret s' \<and> pmm_inv (ms_pmm s') \<and> ms_mem s' = ms_mem s \<and>
    frame_of (ms_pmm s') =
      (\<lambda>g. if g \<in> tables s {pml4_frame pm} user_paths then Free else frame_of (ms_pmm s) g)"
proof -
  let ?r = "pml4_frame pm"
  obtain k3 f3 where k: "kernel_tables kp s k3" "descend s ?r 0 = Some f3" "\<forall>i < 512. i \<noteq> 1 \<longrightarrow> ms_mem s f3 i = ms_mem s k3 i"
    and own: "\<forall>g \<in> tables s {?r} user_paths. frame_of (ms_pmm s) g = Owned 1"
    and pm: "\<not> pm_is_kernel pm" "page_aligned (pm_pml4_pa pm)"
    using task unfolding task_tables_def by blast
  have pt: "pt_ok s {?r} user_paths" and nh: "no_huge s {?r} user_paths" using ok by (auto simp: spaces_ok_def)
  note inv = pt_okD(1) [OF pt]
  have at0: "table_at s ?r [0] = Some f3" using k(2) by simp
  have at1: "table_at s ?r [0, 1] = descend s f3 1" using k(2) by (simp split: option.splits)
  have at2: "table_at s ?r [0, 1, j] = (case descend s f3 1 of None \<Rightarrow> None | Some pd \<Rightarrow> descend s pd j)" for j
    using k(2) by (simp split: option.splits)
  have V: "[] \<in> user_paths" "[0] \<in> user_paths" "[0, 1] \<in> user_paths" "\<And>j. j < 512 \<Longrightarrow> [0, 1, j] \<in> user_paths"
    by (auto simp: user_paths_def)
  have tabs: "g \<in> tables s {?r} user_paths \<longleftrightarrow> g = ?r \<or> g = f3 \<or> descend s f3 1 = Some g \<or>
      (\<exists>pd. descend s f3 1 = Some pd \<and> (\<exists>j < 512. descend s pd j = Some g))" for g
    using at0 at1 at2 unfolding tables_def user_paths_def by (auto split: option.splits)
  have below: "\<exists>s1. destroy_pdpt (Some k3) f3 [0..<512] s = Ret s1 \<and> pmm_inv (ms_pmm s1) \<and> ms_mem s1 = ms_mem s \<and>
      frame_of (ms_pmm s1) =
        (\<lambda>g. if g \<in> tables s {?r} user_paths - {?r, f3} then Free else frame_of (ms_pmm s) g)"
  proof -
    obtain xs where xs: "[0..<512] = [0] @ 1 # xs" "\<And>i. i \<in> set xs \<Longrightarrow> i \<noteq> 1 \<and> i < 512"
      using upt_512 by blast
    have skip: "destroy_pdpt (Some k3) f3 js u = Ret u"
      if "ms_mem u = ms_mem s" "\<And>i. i \<in> set js \<Longrightarrow> i \<noteq> 1 \<and> i < 512" for u js
      using k(3) that by (intro destroy_pdpt_skip) auto
    have first: "destroy_pdpt (Some k3) f3 [0] s = Ret s" by (rule skip) auto
    show ?thesis
    proof (cases "descend s f3 1")
      case None
      then have "destroy_pdpt (Some k3) f3 (1 # xs) s = Ret s"
        using skip [OF refl xs(2)] by (auto simp: descend_def Let_def split: if_splits)
      then show ?thesis
        using None inv unfolding xs(1) destroy_pdpt_append first by (auto simp: tabs)
    next
      case (Some pd)
      let ?e = "ms_mem s f3 1"
      have e: "present ?e" "\<not> huge ?e" "table_va ?e = pd" "page_index (unat (?e AND PTE_PA_MASK)) = pd"
        using Some by (auto simp: descend_def table_va_def Let_def split: if_splits)
      have kern: "ms_mem s k3 1 \<noteq> ?e" using k(1) e(1) by (auto simp: kernel_tables_def)
      have at: "table_at s ?r [0, 1] = Some pd" using at1 Some by simp
      have leaf: "table_at s ?r [0, 1, j] = descend s pd j" for j using at2 Some by simp
      have inj: "j = j'" if "j < 512" "j' < 512" "descend s pd j = Some g" "descend s pd j' = Some g" for j j' g
        using pt_okD(2) [OF pt, of ?r ?r "[0, 1, j]" "[0, 1, j']" g] V(4) that leaf by auto
      have pdj: "g \<noteq> pd" if "j < 512" "descend s pd j = Some g" for j g
        using pt_okD(2) [OF pt, of ?r ?r "[0, 1, j]" "[0, 1]" g] V that leaf at by auto
      have ownj: "frame_of (ms_pmm s) g = Owned 1" if "j < 512" "descend s pd j = Some g" for j g
        using own tabs Some that by blast
      obtain s1 where s1: "destroy_pd pd [0..<512] s = Ret s1" "pmm_inv (ms_pmm s1)" "ms_mem s1 = ms_mem s"
          "frame_of (ms_pmm s1) = (\<lambda>g. if \<exists>j \<in> set [0..<512]. descend s pd j = Some g then Free else frame_of (ms_pmm s) g)"
        using destroy_pd_frees [OF inv distinct_upt, of 0 512 pd] inj ownj unfolding set_upt atLeastLessThan_iff by blast
      have "frame_of (ms_pmm s1) pd = Owned 1"
      proof -
        have "\<not> (\<exists>j \<in> set [0..<512]. descend s pd j = Some pd)"
          using pdj unfolding set_upt by force
        moreover have "frame_of (ms_pmm s) pd = Owned 1" using own tabs Some by blast
        ultimately show ?thesis using s1(4) by (simp only: if_False)
      qed
      then obtain s2 where s2: "free_frame (unat (?e AND PTE_PA_MASK)) s1 = Ret s2" "pmm_inv (ms_pmm s2)"
          "ms_mem s2 = ms_mem s1" "frame_of (ms_pmm s2) = (frame_of (ms_pmm s1))(pd := Free)"
        using free_frame_owned [OF s1(2) entry_pa_aligned, of "?e" 1] e(4) by auto
      have "destroy_pdpt (Some k3) f3 xs s2 = Ret s2"
        using skip xs(2) s1(3) s2(3) by simp
      then have "destroy_pdpt (Some k3) f3 (1 # xs) s = Ret s2"
        using e kern s1(1) s2(1) by (simp only: destroy_pdpt.simps Let_def) simp
      then have whole: "destroy_pdpt (Some k3) f3 [0..<512] s = Ret s2"
        unfolding xs(1) destroy_pdpt_append first by simp
      have away: "g \<noteq> ?r \<and> g \<noteq> f3" if "g = pd \<or> (\<exists>j < 512. descend s pd j = Some g)" for g
      proof -
        obtain p where p: "p \<in> user_paths" "table_at s ?r p = Some g" "p \<noteq> []" "p \<noteq> [0]"
        proof (cases "g = pd")
          case True
          then show ?thesis using that [of "[0, 1]"] V(3) at by simp
        next
          case False
          then obtain j where "j < 512" "descend s pd j = Some g" using \<open>g = pd \<or> _\<close> by blast
          then show ?thesis using that [of "[0, 1, j]"] V(4) leaf [of j] by simp
        qed
        have "g \<noteq> ?r" using pt_okD(2) [OF pt _ _ p(1) V(1) p(2)] p(3) by auto
        moreover have "g \<noteq> f3" using pt_okD(2) [OF pt _ _ p(1) V(2) p(2)] p(4) at0 by auto
        ultimately show ?thesis by simp
      qed
      have rest: "g \<in> tables s {?r} user_paths - {?r, f3} \<longleftrightarrow>
          g = pd \<or> (\<exists>j \<in> set [0..<512]. descend s pd j = Some g)" for g
      proof -
        have "g = pd \<or> (\<exists>j < 512. descend s pd j = Some g) \<longrightarrow> g \<noteq> ?r \<and> g \<noteq> f3" using away by blast
        then show ?thesis using tabs [of g] Some unfolding set_upt by auto
      qed
      have "frame_of (ms_pmm s2) =
          (\<lambda>g. if g \<in> tables s {?r} user_paths - {?r, f3} then Free else frame_of (ms_pmm s) g)"
        unfolding s2(4) s1(4) rest by (rule ext) (simp only: fun_upd_apply split: if_split, blast)
      then show ?thesis using whole s2(2,3) s1(3) by simp
    qed
  qed
  then obtain s1 where s1: "destroy_pdpt (Some k3) f3 [0..<512] s = Ret s1" "pmm_inv (ms_pmm s1)" "ms_mem s1 = ms_mem s"
      "frame_of (ms_pmm s1) = (\<lambda>g. if g \<in> tables s {?r} user_paths - {?r, f3} then Free else frame_of (ms_pmm s) g)"
    by blast
  let ?e = "ms_mem s ?r 0" and ?k = "ms_mem s (pml4_frame kp) 0"
  have e: "present ?e" "\<not> huge ?e" "table_va ?e = f3" "page_index (unat (?e AND PTE_PA_MASK)) = f3"
    using k(2) by (auto simp: descend_def table_va_def Let_def split: if_splits)
  have kern: "present ?k" "\<not> huge ?k" "table_va ?k = k3"
    using k(1) by (auto simp: kernel_tables_def descend_def Let_def split: if_splits)
  have own3: "frame_of (ms_pmm s1) f3 = Owned 1" "frame_of (ms_pmm s1) ?r = Owned 1"
    using own tabs s1(4) by auto
  have ne: "f3 \<noteq> ?r" using pt_okD(2) [OF pt, of ?r ?r "[0]" "[]" f3] V at0 by auto
  obtain s2 where s2: "free_frame (unat (?e AND PTE_PA_MASK)) s1 = Ret s2" "pmm_inv (ms_pmm s2)" "ms_mem s2 = ms_mem s1"
      "frame_of (ms_pmm s2) = (frame_of (ms_pmm s1))(f3 := Free)"
    using free_frame_owned [OF s1(2) entry_pa_aligned, of "?e" 1] e(4) own3(1) by auto
  have "frame_of (ms_pmm s2) (page_index (pm_pml4_pa pm)) = Owned 1"
    using s2(4) ne own3(2) by (simp add: pml4_frame_def)
  then obtain s3 where s3: "free_frame (pm_pml4_pa pm) s2 = Ret s3" "pmm_inv (ms_pmm s3)" "ms_mem s3 = ms_mem s2"
      "frame_of (ms_pmm s3) = (frame_of (ms_pmm s2))(?r := Free)"
    using free_frame_owned [OF s2(2) pm(2), of 1] by (auto simp: pml4_frame_def)
  have "pmap_destroy kp pm s = Ret s3"
    using pm(1) e kern s1(1) s2(1) s3(1) by (simp add: pmap_destroy_def Let_def)
  moreover have "frame_of (ms_pmm s3) = (\<lambda>g. if g \<in> tables s {?r} user_paths then Free else frame_of (ms_pmm s) g)"
    using s1(4) s2(4) s3(4) tabs by (auto simp: fun_eq_iff)
  ultimately show ?thesis using s1(3) s2(3) s3(2,3) by auto
qed

lemma pmap_create_returns:
  assumes inv: "pmm_inv (ms_pmm s)" and k: "kernel_tables kp s k3"
  shows "\<exists>pm s'. pmap_create ok1 kp s = Ret (pm, s')"
proof -
  obtain a1 pa4 where al1: "pmm_alloc_page (ms_pmm s) = (a1, pa4)" by force
  obtain a2 pa3 where al2: "pmm_alloc_page a1 = (a2, pa3)" by force
  consider "\<not> ok1 \<or> pa4 = PA_INVALID" | "ok1" "pa4 \<noteq> PA_INVALID" "pa3 = PA_INVALID"
    | "ok1" "pa4 \<noteq> PA_INVALID" "pa3 \<noteq> PA_INVALID" by blast
  then show ?thesis
  proof cases
    case 1
    then show ?thesis using al1 by (cases "ok1") (simp_all add: pmap_create_def)
  next
    case 2
    note p4 = pf.alloc_some [OF inv al1 2(2)]
    have "a2 = a1" using pf.alloc_none [of a1 a2] p4 al2 2(3) by auto
    then have own: "frame_of (ms_pmm (s\<lparr>ms_pmm := a2\<rparr>)) (page_index pa4) = Owned 1" using p4 by simp
    obtain s3 where "free_frame pa4 (s\<lparr>ms_pmm := a2\<rparr>) = Ret s3"
      using free_frame_owned [OF _ _ own] p4 \<open>a2 = a1\<close> by auto
    then show ?thesis using 2 al1 al2 by (simp add: pmap_create_def)
  next
    case 3
    note p4 = pf.alloc_some [OF inv al1 3(2)]
    then have p3: "frame_of a1 (page_index pa3) = Free" using pf.alloc_some [OF _ al2 3(3)] by blast
    define s2 where "s2 = zero_frame (page_index pa3) (zero_frame (page_index pa4) (s\<lparr>ms_pmm := a2\<rparr>))"
    let ?kf = "pml4_frame kp"
    have ne: "?kf \<noteq> page_index pa4" "?kf \<noteq> page_index pa3"
      using k p4 p3 by (auto simp: kernel_tables_def split: if_splits)
    have "ms_mem (fold (\<lambda>i s. set_slot (page_index pa4) i (ms_mem s ?kf i) s) [1..<512] s2) ?kf 0 = ms_mem s ?kf 0"
      using ne by (simp add: copy_slots s2_def)
    then show ?thesis
      using al1 al2 3 k
      by (simp add: pmap_create_def Let_def s2_def [symmetric] kernel_tables_def descend_def del: One_nat_def
          split: if_splits)
  qed
qed

section \<open>What the component promises\<close>

text \<open>C31. The page tables implement a partial map per address space. Any sequence of \<open>pmap_enter\<close> and
  \<open>pmap_remove\<close> on pages of the tasks' window, in any of a family of address spaces, returns without
  a panic; its results and the translations it leaves are those of the specification \<open>spec_run\<close>, in
  which an enter sets one page of one space or fails, and a remove clears one page and reports
  whether it was set. Afterwards \<open>pmap_extract\<close> reads the specification's map, and no frame in use
  other than a table was written, nor was any but a free frame taken.\<close>

theorem pmap_refines_map:
  assumes "spaces_ok s R" "\<And>k. pml4_frame (pms k) \<in> R" "\<forall>q \<in> set qs. request_ok q"
    and "\<And>r x. r \<in> R \<Longrightarrow> user_va x \<Longrightarrow> pmap_leaf s r x = T r (x div PAGE_SIZE)"
  shows "\<exists>bs pms' s' T'. pm_run pmap_enter pmap_remove qs pms s = Ret (bs, pms', s') \<and>
    spaces_ok s' R \<and> undisturbed s R s' \<and> spec_run (\<lambda>k. pml4_frame (pms k)) T qs bs T' \<and>
    (\<forall>k va. user_va va \<longrightarrow> page_aligned va \<longrightarrow> pmap_extract (pms' k) va s' =
       (case T' (pml4_frame (pms k)) (va div PAGE_SIZE) of None \<Rightarrow> PA_INVALID | Some e \<Rightarrow> pte_pa e))"
proof -
  have "asp.shows_map R T s" using assms(4) by (simp add: asp.shows_map_def)
  from asp.run_refines [of s R pms qs T, OF assms(1-3) this]
  obtain bs pms' s' T' where r: "pm_run pmap_enter pmap_remove qs pms s = Ret (bs, pms', s')"
      "spaces_ok s' R" "undisturbed s R s'" "\<forall>k. pml4_frame (pms' k) = pml4_frame (pms k)"
      "spec_run (\<lambda>k. pml4_frame (pms k)) T qs bs T'" "asp.shows_map R T' s'"
    by blast
  then have "pmap_extract (pms' k) va s' =
      (case T' (pml4_frame (pms k)) (va div PAGE_SIZE) of None \<Rightarrow> PA_INVALID | Some e \<Rightarrow> pte_pa e)"
    if "user_va va" "page_aligned va" for k va
    using asp.translate_shows [OF r(2) _ that r(6), of "pms' k"] assms(2) by simp
  then show ?thesis using r by blast
qed

text \<open>One address space whose top table is empty, in the memory of \<open>example_pmm\<close>.\<close>

definition example_pm :: pmap where
  "example_pm = \<lparr>pm_pml4_pa = snd (pmm_alloc_page example_pmm), pm_leafs = 0, pm_intermediates = 0, pm_is_kernel = False\<rparr>"

definition example_ms :: mstate where
  "example_ms = \<lparr>ms_pmm = fst (pmm_alloc_page example_pmm), ms_mem = (\<lambda>_ _. 0), ms_inval = []\<rparr>"

lemma example_ms_table_at: "table_at example_ms r p = (if p = [] then Some r else None)"
  by (cases p) (simp_all add: descend_def present_def example_ms_def)

lemma example_ms_frames:
  "pmm_inv (ms_pmm example_ms)"
  "frame_of (ms_pmm example_ms) = (frame_of example_pmm)(pml4_frame example_pm := Owned 1)"
  "frame_of example_pmm (pml4_frame example_pm) = Free"
  using pf.alloc_some [OF example_pmm_inv _ example_pmm_alloc, of "fst (pmm_alloc_page example_pmm)"]
  by (simp_all add: example_ms_def example_pm_def pml4_frame_def)

lemma example_ms_ok: "spaces_ok example_ms {pml4_frame example_pm}"
  using example_ms_frames
  by (auto simp: spaces_ok_def pt_ok_def tables_def no_huge_def example_ms_table_at)
     (simp add: example_ms_def present_def)

lemma example_ms_leaf: "pmap_leaf example_ms r x = None"
  by (simp add: pmap_leaf_def example_ms_table_at path_of_def del: table_at.simps)

theorem pmap_refines_map_witness:
  "\<exists>bs pms' s' T'. pm_run pmap_enter pmap_remove
      [PmEnter 0 0x40000000 0x7000 7, PmRemove 0 0x40001000, PmEnter 0 0x40000000 0x8000 5]
      (\<lambda>_. example_pm) example_ms = Ret (bs, pms', s') \<and>
    spec_run (\<lambda>_. pml4_frame example_pm) (\<lambda>_ _. None)
      [PmEnter 0 0x40000000 0x7000 7, PmRemove 0 0x40001000, PmEnter 0 0x40000000 0x8000 5] bs T'"
proof -
  have "\<forall>q \<in> set [PmEnter 0 0x40000000 0x7000 7, PmRemove 0 0x40001000, PmEnter 0 0x40000000 0x8000 5]. request_ok q"
    by (simp add: user_va_def page_aligned_def PAGE_SIZE_eq)
  from pmap_refines_map [OF example_ms_ok _ this, of "\<lambda>_. example_pm" "\<lambda>_ _. None"]
  show ?thesis by (auto simp: example_ms_leaf)
qed

text \<open>C32. On an aligned page of the tasks' window \<open>pmap_enter\<close> returns. Either the page then has the
  entry for the given frame and protection and no other translation of any address space changed, or
  it reports failure, no translation changed at all, and memory is full: no frame is left free.
  Either way only free frames became tables and no other frame was written or taken.\<close>

theorem pmap_enter_correct:
  assumes "spaces_ok s R" "pml4_frame pm \<in> R" "user_va va" "page_aligned va" "page_aligned pa" "pa < 2 ^ 52"
  shows "\<exists>b pm' s'. pmap_enter pm va pa prot s = Ret (b, pm', s') \<and> spaces_ok s' R \<and> undisturbed s R s' \<and>
    (\<not> b \<longrightarrow> (\<forall>f. frame_of (ms_pmm s') f \<noteq> Free)) \<and>
    (\<forall>r \<in> R. \<forall>x. user_va x \<longrightarrow> pmap_leaf s' r x =
       (if b \<and> r = pml4_frame pm \<and> x div PAGE_SIZE = va div PAGE_SIZE then Some (leaf_pte pa prot)
        else pmap_leaf s r x))"
proof -
  obtain b pm' s' where e: "pmap_enter pm va pa prot s = Ret (b, pm', s')" "spaces_ok s' R"
      "undisturbed s R s'" "\<forall>r \<in> R. \<forall>x. user_va x \<longrightarrow> pmap_leaf s' r x =
       (if b \<and> r = pml4_frame pm \<and> x div PAGE_SIZE = va div PAGE_SIZE then Some (leaf_pte pa prot)
        else pmap_leaf s r x)"
    using asp.enter_law [OF assms] by blast
  moreover have "\<not> b \<longrightarrow> (\<forall>f. frame_of (ms_pmm s') f \<noteq> Free)"
    using enter_false [OF assms(1-3)] e(1) by (cases b) auto
  ultimately show ?thesis by blast
qed

theorem pmap_enter_correct_witness:
  "\<exists>b pm' s'. pmap_enter example_pm 0x40000000 0x7000 7 example_ms = Ret (b, pm', s') \<and>
    pmap_leaf s' (pml4_frame example_pm) 0x40000000 = (if b then Some (leaf_pte 0x7000 7) else None) \<and>
    pmap_leaf s' (pml4_frame example_pm) 0x40001000 = None"
proof -
  have va: "user_va 0x40000000" "user_va 0x40001000" "page_aligned 0x40000000" "page_aligned 0x7000"
    "0x40001000 div PAGE_SIZE \<noteq> 0x40000000 div PAGE_SIZE"
    by (simp_all add: user_va_def page_aligned_def PAGE_SIZE_eq)
  have "(0x7000 :: nat) < 2 ^ 52" by simp
  from pmap_enter_correct [OF example_ms_ok _ va(1,3,4) this, of example_pm 7]
  obtain b pm' s' where "pmap_enter example_pm 0x40000000 0x7000 7 example_ms = Ret (b, pm', s')"
    "\<forall>x. user_va x \<longrightarrow> pmap_leaf s' (pml4_frame example_pm) x =
       (if b \<and> pml4_frame example_pm = pml4_frame example_pm \<and> x div PAGE_SIZE = 0x40000000 div PAGE_SIZE
        then Some (leaf_pte 0x7000 7) else pmap_leaf example_ms (pml4_frame example_pm) x)"
    by blast
  then show ?thesis using va by (auto simp: example_ms_leaf)
qed

text \<open>C30. \<open>pmap_create\<close> makes an address space with a fresh top table and a fresh PDPT that carry the
  kernel's entries: it is empty in the tasks' window, shares every other slot with the kernel, joins
  the existing address spaces without changing any of their translations or any frame in use, and takes
  exactly two frames. When it fails, nothing but allocator bookkeeping changed and every frame has the
  standing it had; given its kernel memory, it fails only with fewer than two free frames.\<close>

theorem pmap_create_correct:
  assumes "spaces_ok s R" "kernel_tables kp s k3"
  shows "case pmap_create kmalloc_ok kp s of
    Panic msg \<Rightarrow> False
  | Ret (None, s') \<Rightarrow> s' = s\<lparr>ms_pmm := ms_pmm s'\<rparr> \<and> frame_of (ms_pmm s') = frame_of (ms_pmm s) \<and>
      (kmalloc_ok \<longrightarrow> card {f. frame_of (ms_pmm s) f = Free} < 2)
  | Ret (Some pm, s') \<Rightarrow> spaces_ok s' (insert (pml4_frame pm) R) \<and> task_tables kp pm s' \<and>
      (\<forall>x. user_va x \<longrightarrow> pmap_leaf s' (pml4_frame pm) x = None) \<and>
      (\<forall>r \<in> R. \<forall>x. user_va x \<longrightarrow> pmap_leaf s' r x = pmap_leaf s r x) \<and>
      (\<forall>f. frame_of (ms_pmm s) f \<noteq> Free \<longrightarrow> ms_mem s' f = ms_mem s f) \<and>
      (\<forall>i. 0 < i \<longrightarrow> i < 512 \<longrightarrow> ms_mem s' (pml4_frame pm) i = ms_mem s (pml4_frame kp) i) \<and>
      (\<exists>f3. f3 \<noteq> pml4_frame pm \<and> frame_of (ms_pmm s) f3 = Free \<and> frame_of (ms_pmm s) (pml4_frame pm) = Free \<and>
         frame_of (ms_pmm s') = (frame_of (ms_pmm s))(pml4_frame pm := Owned 1, f3 := Owned 1))"
proof (cases "pmap_create kmalloc_ok kp s")
  case (Panic msg)
  then show ?thesis using pmap_create_returns [OF spaces_pmm [OF assms(1)] assms(2), of kmalloc_ok] by (metis kres.distinct(1))
next
  case (Ret r)
  obtain opm s' where r: "r = (opm, s')" by (cases r)
  show ?thesis
  proof (cases opm)
    case None
    then have c: "pmap_create kmalloc_ok kp s = Ret (None, s')" using Ret r by simp
    show ?thesis using pmap_create_None [OF spaces_pmm [OF assms(1)] assms(2) c] unfolding c by simp
  next
    case (Some pm)
    have c: "pmap_create kmalloc_ok kp s = Ret (Some pm, s')" using Ret r Some by simp
    note new = pmap_create_Some [OF assms c] and task = pmap_create_task_tables [OF assms c]
    obtain f3 where "f3 \<noteq> pml4_frame pm" "frame_of (ms_pmm s) f3 = Free"
      "frame_of (ms_pmm s') = (frame_of (ms_pmm s))(pml4_frame pm := Owned 1, f3 := Owned 1)"
      using new(7) by blast
    then show ?thesis using new(1-6) task unfolding c by auto
  qed
qed

text \<open>The kernel's tables outside the managed memory, and no address space yet.\<close>

definition example_kp :: pmap where
  "example_kp = \<lparr>pm_pml4_pa = 100 * 4096, pm_leafs = 0, pm_intermediates = 1, pm_is_kernel = True\<rparr>"

definition example_boot :: mstate where
  "example_boot = \<lparr>ms_pmm = example_pmm, ms_mem = (\<lambda>_ _. 0)(100 := (\<lambda>_. 0)(0 := 0x65003)), ms_inval = []\<rparr>"

lemma example_boot_ok: "spaces_ok example_boot {}" "kernel_tables example_kp example_boot 101"
proof -
  show "spaces_ok example_boot {}"
    using example_pmm_inv by (simp add: spaces_ok_def pt_ok_def tables_def no_huge_def example_boot_def)
  have "present 0x65003" "\<not> huge 0x65003" "table_va 0x65003 = 101"
    by (simp_all add: present_def huge_def table_va_def PTE_P_def PTE_PS_def PTE_PA_MASK_def page_index_def PAGE_SHIFT_def)
  then show "kernel_tables example_kp example_boot 101"
    by (simp add: kernel_tables_def descend_def example_boot_def example_kp_def pml4_frame_def page_index_def
        PAGE_SHIFT_def example_pmm_frame present_def)
qed

theorem pmap_create_correct_witness:
  "\<exists>pm s'. pmap_create True example_kp example_boot = Ret (Some pm, s') \<and> spaces_ok s' {pml4_frame pm} \<and>
     task_tables example_kp pm s' \<and> pmap_leaf s' (pml4_frame pm) 0x40000000 = None"
proof -
  have "{f. frame_of (ms_pmm example_boot) f = Free} = {1, 2, 3, 4}"
    by (auto simp: example_boot_def example_pmm_frame)
  then show ?thesis
    using pmap_create_correct [OF example_boot_ok, of True]
    by (auto simp: user_va_def split: kres.splits prod.splits option.splits)
qed

text \<open>C33. \<open>pmap_destroy\<close> of a task's address space returns to the allocator exactly the frames of its
  own tables, the top table and those below the tasks' window included, and neither the kernel's
  shared tables nor the frames the pages mapped; memory is not written.\<close>

theorem pmap_destroy_correct:
  assumes "spaces_ok s {pml4_frame pm}" "task_tables kp pm s"
  shows "\<exists>s'. pmap_destroy kp pm s = Ret s' \<and> ms_mem s' = ms_mem s \<and>
    frame_of (ms_pmm s') =
      (\<lambda>f. if f \<in> tables s {pml4_frame pm} user_paths then Free else frame_of (ms_pmm s) f)"
  using pmap_destroy_frees [OF assms] by blast

theorem pmap_destroy_correct_witness:
  "\<exists>pm s s'. pmap_create True example_kp example_boot = Ret (Some pm, s) \<and> pmap_destroy example_kp pm s = Ret s' \<and>
     frame_of (ms_pmm s') (pml4_frame pm) = Free"
proof -
  have "{f. frame_of (ms_pmm example_boot) f = Free} = {1, 2, 3, 4}"
    by (auto simp: example_boot_def example_pmm_frame)
  then have four: "\<not> card {f. frame_of (ms_pmm example_boot) f = Free} < 2" by simp
  note inv = spaces_pmm [OF example_boot_ok(1)]
  obtain pm s where "pmap_create True example_kp example_boot = Ret (pm, s)"
    using pmap_create_returns [OF inv example_boot_ok(2)] by blast
  then obtain pm s where c: "pmap_create True example_kp example_boot = Ret (Some pm, s)"
    using pmap_create_None(4) [OF inv example_boot_ok(2)] four by (cases pm) auto
  have "spaces_ok s {pml4_frame pm}" using pmap_create_Some(1) [OF example_boot_ok c] by simp
  from pmap_destroy_correct [OF this pmap_create_task_tables [OF example_boot_ok c]]
  show ?thesis using c root_table by fastforce
qed

end
