(* ===== verification/Vm_Frames.thy ===== *)
theory Vm_Frames
  imports Pmap
begin

text \<open>
  Accounting for frames across address spaces. A frame's owner count in the allocator pays for the pages
  that map it and for the references held elsewhere: by a fault that is still copying, by a payload in
  flight, by a loop between two calls. The lemmas say how each operation of the allocator and of the
  page tables moves one reference: \<open>acc_alloc\<close> and \<open>acc_ref\<close> make a held reference, \<open>acc_free\<close>
  drops one, \<open>acc_enter\<close> turns a held one into a mapping and hands back what the page mapped before,
  \<open>acc_remove\<close> turns a mapping into a held reference. The operations of \<open>vm.c\<close> are sequences of these.
\<close>

section \<open>Who maps a frame\<close>

definition leaf_frame :: "64 word \<Rightarrow> nat" where
  "leaf_frame e = page_index (pte_pa e)"

definition mappers :: "mstate \<Rightarrow> nat set \<Rightarrow> nat \<Rightarrow> (nat \<times> u64) set" where
  "mappers s R f = {(r, va). r \<in> R \<and> user_va va \<and> page_aligned va \<and>
     (\<exists>e. pmap_leaf s r va = Some e \<and> leaf_frame e = f)}"

text \<open>
  The accounting invariant. Every frame has at least as many owners as there are pages of the address
  spaces \<open>R\<close> that map it together with the references \<open>h\<close> held elsewhere; nothing that is mapped or held
  is free, or one of the tables. A borrowed frame, which the allocator does not count, can be mapped but
  not held.
\<close>

definition accounted :: "(nat \<Rightarrow> nat) \<Rightarrow> mstate \<Rightarrow> nat set \<Rightarrow> bool" where
  "accounted h s R \<longleftrightarrow> finite R \<and> spaces_ok s R \<and>
     (\<forall>f n. frame_of (ms_pmm s) f = Owned n \<longrightarrow> card (mappers s R f) + h f \<le> n) \<and>
     (\<forall>f. mappers s R f \<noteq> {} \<or> 0 < h f \<longrightarrow> frame_of (ms_pmm s) f \<noteq> Free \<and> f \<notin> tables s R user_paths) \<and>
     (\<forall>f. 0 < h f \<longrightarrow> frame_of (ms_pmm s) f \<noteq> Reserved)"

lemma mappers_finite: "finite R \<Longrightarrow> finite (mappers s R f)"
  by (rule finite_subset [of _ "R \<times> {..<0x80000000}"]) (auto simp: mappers_def user_va_def)

lemma accountedD:
  assumes "accounted h s R"
  shows "finite R" "spaces_ok s R" "pmm_inv (ms_pmm s)" "finite (mappers s R f)"
    "frame_of (ms_pmm s) f = Owned n \<Longrightarrow> card (mappers s R f) + h f \<le> n"
    "0 < h f \<Longrightarrow> \<exists>n. frame_of (ms_pmm s) f = Owned n" "0 < h f \<Longrightarrow> f \<notin> tables s R user_paths"
    "mappers s R f \<noteq> {} \<Longrightarrow> frame_of (ms_pmm s) f \<noteq> Free \<and> f \<notin> tables s R user_paths"
proof -
  show "finite R" "spaces_ok s R" "frame_of (ms_pmm s) f = Owned n \<Longrightarrow> card (mappers s R f) + h f \<le> n"
    "0 < h f \<Longrightarrow> f \<notin> tables s R user_paths"
    "mappers s R f \<noteq> {} \<Longrightarrow> frame_of (ms_pmm s) f \<noteq> Free \<and> f \<notin> tables s R user_paths"
    using assms by (simp_all add: accounted_def)
  then show "pmm_inv (ms_pmm s)" "finite (mappers s R f)" by (simp_all add: spaces_pmm mappers_finite)
  show "0 < h f \<Longrightarrow> \<exists>n. frame_of (ms_pmm s) f = Owned n"
    using assms by (cases "frame_of (ms_pmm s) f") (auto simp: accounted_def)
qed

lemma accounted_leaf:
  assumes "accounted h s R" "r \<in> R" "user_va va" "page_aligned va" "pmap_leaf s r va = Some e"
  shows "(r, va) \<in> mappers s R (leaf_frame e)" "frame_of (ms_pmm s) (leaf_frame e) \<noteq> Free"
    "leaf_frame e \<notin> tables s R user_paths"
proof -
  show m: "(r, va) \<in> mappers s R (leaf_frame e)" using assms by (auto simp: mappers_def)
  then show "frame_of (ms_pmm s) (leaf_frame e) \<noteq> Free" "leaf_frame e \<notin> tables s R user_paths"
    using accountedD(8) [OF assms(1)] by blast+
qed

lemma mappers_cong:
  assumes "\<And>r x. r \<in> R \<Longrightarrow> user_va x \<Longrightarrow> pmap_leaf s' r x = pmap_leaf s r x"
  shows "mappers s' R f = mappers s R f"
  using assms by (auto simp: mappers_def)

lemma aligned_page_eq: "page_aligned x \<Longrightarrow> page_aligned y \<Longrightarrow> x div PAGE_SIZE = y div PAGE_SIZE \<longleftrightarrow> x = y"
  by (metis page_aligned_def add.right_neutral div_mult_mod_eq)

lemma mappers_set_page:
  assumes leaf: "\<forall>r \<in> R. \<forall>x. user_va x \<longrightarrow> pmap_leaf s' r x =
      (if r = root \<and> x div PAGE_SIZE = va div PAGE_SIZE then w else pmap_leaf s r x)"
    and "root \<in> R" "user_va va" "page_aligned va"
  shows "mappers s' R f = (mappers s R f - {(root, va)}) \<union>
    (case w of None \<Rightarrow> {} | Some e \<Rightarrow> if leaf_frame e = f then {(root, va)} else {})"
proof -
  have eq: "pmap_leaf s' r x = (if (r, x) = (root, va) then w else pmap_leaf s r x)"
    if "r \<in> R" "user_va x" "page_aligned x" for r x
    using leaf that aligned_page_eq [OF that(3) assms(4)] by auto
  have "p \<in> mappers s' R f \<longleftrightarrow> p \<in> (mappers s R f - {(root, va)}) \<union>
    (case w of None \<Rightarrow> {} | Some e \<Rightarrow> if leaf_frame e = f then {(root, va)} else {})" for p
  proof (cases p)
    case (Pair r x)
    show ?thesis
    proof (cases "r \<in> R \<and> user_va x \<and> page_aligned x")
      case True
      show ?thesis
      proof (cases "(r, x) = (root, va)")
        case root: True
        then have "pmap_leaf s' r x = w" using eq [of r x] True by simp
        then show ?thesis using Pair True root by (simp add: mappers_def split: option.splits)
      next
        case False
        then have "pmap_leaf s' r x = pmap_leaf s r x" using eq [of r x] True by auto
        then show ?thesis using Pair True False by (auto simp: mappers_def split: option.splits)
      qed
    qed (use Pair assms(2-4) in \<open>auto simp: mappers_def split: option.splits\<close>)
  qed
  then show ?thesis by blast
qed

text \<open>A change that writes no table and keeps the standing of what is mapped or held.\<close>

lemma accounted_frames:
  assumes acc: "accounted h s R" and inv: "pmm_inv (ms_pmm s')"
    and mem: "\<And>g. g \<in> tables s R user_paths \<Longrightarrow> ms_mem s' g = ms_mem s g"
    and used: "\<And>g. g \<in> tables s R user_paths \<Longrightarrow> frame_of (ms_pmm s') g \<noteq> Free"
    and own: "\<And>f n. frame_of (ms_pmm s') f = Owned n \<Longrightarrow> card (mappers s R f) + h' f \<le> n"
    and live: "\<And>f. mappers s R f \<noteq> {} \<or> 0 < h' f \<Longrightarrow> frame_of (ms_pmm s') f \<noteq> Free \<and> f \<notin> tables s R user_paths"
    and held: "\<And>f. 0 < h' f \<Longrightarrow> frame_of (ms_pmm s') f \<noteq> Reserved"
  shows "accounted h' s' R" "tables s' R user_paths = tables s R user_paths"
    "r \<in> R \<Longrightarrow> user_va x \<Longrightarrow> pmap_leaf s' r x = pmap_leaf s r x"
proof -
  note tr = spaces_transfer [OF accountedD(2) [OF acc] inv mem used]
  have m: "mappers s' R f = mappers s R f" for f using tr(3) by (rule mappers_cong)
  show "tables s' R user_paths = tables s R user_paths" by (rule tr(2))
  show "pmap_leaf s' r x = pmap_leaf s r x" if "r \<in> R" "user_va x" using tr(3) that by blast
  show "accounted h' s' R"
    using accountedD(1) [OF acc] tr(1,2) own live held by (simp add: accounted_def m)
qed

section \<open>Taking, sharing and dropping references\<close>

lemma acc_alloc:
  assumes acc: "accounted h s R" and al: "pmm_alloc_page (ms_pmm s) = (a, pa)" "pa \<noteq> PA_INVALID"
    and s': "ms_pmm s' = a" "\<forall>g. g \<noteq> page_index pa \<longrightarrow> ms_mem s' g = ms_mem s g"
  shows "accounted (h(page_index pa := 1)) s' R" "page_aligned pa" "pa < 2 ^ 52" "h (page_index pa) = 0"
    "frame_of (ms_pmm s) (page_index pa) = Free" "mappers s R (page_index pa) = {}"
    "frame_of (ms_pmm s') = (frame_of (ms_pmm s))(page_index pa := Owned 1)"
    "tables s' R user_paths = tables s R user_paths" "page_index pa \<notin> tables s R user_paths"
    "r \<in> R \<Longrightarrow> user_va x \<Longrightarrow> pmap_leaf s' r x = pmap_leaf s r x"
proof -
  let ?f = "page_index pa"
  note inv = accountedD(3) [OF acc]
  note p = pf.alloc_some [OF inv al]
  show free: "frame_of (ms_pmm s) ?f = Free" and "page_aligned pa" using p by auto
  show "pa < 2 ^ 52" using frame_pa_lt [OF inv] free by simp
  show h0: "h ?f = 0" using accountedD(6) [OF acc, of ?f] free by auto
  show m0: "mappers s R ?f = {}" using accountedD(8) [OF acc, of ?f] free by auto
  show nt: "?f \<notin> tables s R user_paths" using tables_used [OF accountedD(2) [OF acc]] free by blast
  show frames: "frame_of (ms_pmm s') = (frame_of (ms_pmm s))(?f := Owned 1)" using p s'(1) by simp
  have own: "card (mappers s R f) + (h(?f := 1)) f \<le> n" if "frame_of (ms_pmm s') f = Owned n" for f n
    using that accountedD(5) [OF acc, of f] m0 by (auto simp: frames split: if_splits)
  have live: "frame_of (ms_pmm s') f \<noteq> Free \<and> f \<notin> tables s R user_paths"
    if "mappers s R f \<noteq> {} \<or> 0 < (h(?f := 1)) f" for f
    using that accountedD(6-8) [OF acc, of f] nt by (auto simp: frames split: if_splits)
  have held: "frame_of (ms_pmm s') f \<noteq> Reserved" if "0 < (h(?f := 1)) f" for f
    using that accountedD(6) [OF acc, of f] by (auto simp: frames split: if_splits)
  have mem: "ms_mem s' g = ms_mem s g" if "g \<in> tables s R user_paths" for g using that nt s'(2) by metis
  have used: "frame_of (ms_pmm s') g \<noteq> Free" if "g \<in> tables s R user_paths" for g
    using tables_used [OF accountedD(2) [OF acc] that] by (auto simp: frames)
  have inv': "pmm_inv (ms_pmm s')" using p s'(1) by simp
  note fr = accounted_frames [OF acc inv' mem used own live held]
  show "accounted (h(?f := 1)) s' R" "tables s' R user_paths = tables s R user_paths" using fr by blast+
  show "pmap_leaf s' r x = pmap_leaf s r x" if "r \<in> R" "user_va x" using fr(3) that by blast
qed

lemma acc_free:
  assumes acc: "accounted h s R" and h: "0 < h (page_index pa)" and pa: "page_aligned pa"
  obtains s' n where "free_frame pa s = Ret s'" "accounted (h(page_index pa := h (page_index pa) - 1)) s' R"
    "ms_mem s' = ms_mem s" "frame_of (ms_pmm s) (page_index pa) = Owned n"
    "frame_of (ms_pmm s') = (frame_of (ms_pmm s))(page_index pa := if n = 1 then Free else Owned (n - 1))"
    "tables s' R user_paths = tables s R user_paths"
    "\<And>r x. r \<in> R \<Longrightarrow> user_va x \<Longrightarrow> pmap_leaf s' r x = pmap_leaf s r x"
proof -
  let ?f = "page_index pa" and ?h = "h(page_index pa := h (page_index pa) - 1)"
  obtain n where n: "frame_of (ms_pmm s) ?f = Owned n" using accountedD(6) [OF acc h] by blast
  obtain s' where s': "free_frame pa s = Ret s'" "pmm_inv (ms_pmm s')" "ms_mem s' = ms_mem s"
      "frame_of (ms_pmm s') = (frame_of (ms_pmm s))(?f := if n = 1 then Free else Owned (n - 1))"
    using free_frame_owned [OF accountedD(3) [OF acc] pa n] by blast
  have nt: "?f \<notin> tables s R user_paths" using accountedD(7) [OF acc h] .
  have cnt: "card (mappers s R ?f) + h ?f \<le> n" using accountedD(5) [OF acc n] .
  have own: "card (mappers s R f) + ?h f \<le> m" if "frame_of (ms_pmm s') f = Owned m" for f m
    using that accountedD(5) [OF acc, of f] cnt h by (auto simp: s'(4) split: if_splits)
  have live: "frame_of (ms_pmm s') f \<noteq> Free \<and> f \<notin> tables s R user_paths"
    if f: "mappers s R f \<noteq> {} \<or> 0 < ?h f" for f
  proof (cases "f = ?f")
    case True
    then have "0 < card (mappers s R ?f) + (h ?f - 1)"
      using f accountedD(4) [OF acc, of ?f] by (auto simp: card_gt_0_iff)
    then have "n \<noteq> 1" using cnt h by linarith
    then show ?thesis using True nt by (simp add: s'(4))
  next
    case False
    then show ?thesis using f accountedD(6-8) [OF acc, of f] by (auto simp: s'(4))
  qed
  have held: "frame_of (ms_pmm s') f \<noteq> Reserved" if "0 < ?h f" for f
    using that accountedD(6) [OF acc, of f] by (auto simp: s'(4) split: if_splits)
  have used: "frame_of (ms_pmm s') g \<noteq> Free" if "g \<in> tables s R user_paths" for g
    using tables_used [OF accountedD(2) [OF acc] that] nt that by (auto simp: s'(4))
  have mem: "ms_mem s' g = ms_mem s g" if "g \<in> tables s R user_paths" for g by (simp add: s'(3))
  note fr = accounted_frames [OF acc s'(2) mem used own live held]
  have acc': "accounted ?h s' R" and tabs: "tables s' R user_paths = tables s R user_paths" using fr(1,2) by blast+
  have leaf: "pmap_leaf s' r x = pmap_leaf s r x" if "r \<in> R" "user_va x" for r x using fr(3) that by blast
  show thesis by (rule that [OF s'(1) acc' s'(3) n s'(4) tabs leaf])
qed

lemma acc_ref:
  assumes acc: "accounted h s R" and pa: "page_aligned pa" and own1: "frame_of (ms_pmm s) (page_index pa) = Owned n"
    and lt: "n + 1 < 2 ^ 16" and nt: "page_index pa \<notin> tables s R user_paths"
  obtains a where "pmm_page_ref pa (ms_pmm s) = Ret a"
    "accounted (h(page_index pa := Suc (h (page_index pa)))) (s\<lparr>ms_pmm := a\<rparr>) R"
    "frame_of a = (frame_of (ms_pmm s))(page_index pa := Owned (n + 1))"
    "tables (s\<lparr>ms_pmm := a\<rparr>) R user_paths = tables s R user_paths"
    "\<And>r x. r \<in> R \<Longrightarrow> user_va x \<Longrightarrow> pmap_leaf (s\<lparr>ms_pmm := a\<rparr>) r x = pmap_leaf s r x"
proof -
  let ?f = "page_index pa" and ?h = "h(page_index pa := Suc (h (page_index pa)))"
  obtain a where a: "pmm_page_ref pa (ms_pmm s) = Ret a" "pmm_inv a"
      "frame_of a = (frame_of (ms_pmm s))(?f := Owned (n + 1))"
    using pf.retain_ok [OF accountedD(3) [OF acc] pa own1 lt] by blast
  let ?s = "s\<lparr>ms_pmm := a\<rparr>"
  have own: "card (mappers s R f) + ?h f \<le> m" if "frame_of (ms_pmm ?s) f = Owned m" for f m
    using that accountedD(5) [OF acc, of f] own1 by (auto simp: a(3) split: if_splits)
  have live: "frame_of (ms_pmm ?s) f \<noteq> Free \<and> f \<notin> tables s R user_paths" if "mappers s R f \<noteq> {} \<or> 0 < ?h f" for f
    using that accountedD(6-8) [OF acc, of f] nt by (auto simp: a(3) split: if_splits)
  have held: "frame_of (ms_pmm ?s) f \<noteq> Reserved" if "0 < ?h f" for f
    using that accountedD(6) [OF acc, of f] by (auto simp: a(3) split: if_splits)
  have used: "frame_of (ms_pmm ?s) g \<noteq> Free" if "g \<in> tables s R user_paths" for g
    using tables_used [OF accountedD(2) [OF acc] that] by (auto simp: a(3))
  have inv': "pmm_inv (ms_pmm ?s)" using a(2) by simp
  have mem: "ms_mem ?s g = ms_mem s g" if "g \<in> tables s R user_paths" for g by simp
  note fr = accounted_frames [OF acc inv' mem used own live held]
  have acc': "accounted ?h ?s R" and tabs: "tables ?s R user_paths = tables s R user_paths" using fr(1,2) by blast+
  have leaf: "pmap_leaf ?s r x = pmap_leaf s r x" if "r \<in> R" "user_va x" for r x using fr(3) that by blast
  show thesis by (rule that [OF a(1) acc' a(3) tabs leaf])
qed

section \<open>Mapping and unmapping\<close>

lemma acc_remap:
  assumes acc: "accounted h s R" and ok: "spaces_ok s' R" and und: "undisturbed s R s'"
    and cnt: "\<And>g n. frame_of (ms_pmm s) g = Owned n \<Longrightarrow>
      card (mappers s' R g) + h' g \<le> card (mappers s R g) + h g"
    and used: "\<And>g. mappers s' R g \<noteq> {} \<or> 0 < h' g \<Longrightarrow> frame_of (ms_pmm s) g \<noteq> Free \<and> g \<notin> tables s R user_paths"
    and held: "\<And>g. 0 < h' g \<Longrightarrow> frame_of (ms_pmm s) g \<noteq> Reserved"
  shows "accounted h' s' R"
proof -
  have same: "frame_of (ms_pmm s') g = frame_of (ms_pmm s) g" if "frame_of (ms_pmm s) g \<noteq> Free" for g
    using und that by (simp add: undisturbed_def)
  have new: "g \<in> tables s' R user_paths \<Longrightarrow> g \<in> tables s R user_paths \<or> frame_of (ms_pmm s) g = Free" for g
    using und by (simp add: undisturbed_def)
  show ?thesis
    unfolding accounted_def
  proof (intro conjI allI impI)
    show "finite R" "spaces_ok s' R" using accountedD(1) [OF acc] ok by auto
  next
    fix g n assume n: "frame_of (ms_pmm s') g = Owned n"
    show "card (mappers s' R g) + h' g \<le> n"
    proof (cases "frame_of (ms_pmm s) g = Free")
      case True
      then have "\<not> (mappers s' R g \<noteq> {} \<or> 0 < h' g)" using used by blast
      then show ?thesis by simp
    next
      case False
      then have "frame_of (ms_pmm s) g = Owned n" using same n by simp
      then show ?thesis using cnt accountedD(5) [OF acc] by (meson order_trans)
    qed
  next
    fix g assume g: "mappers s' R g \<noteq> {} \<or> 0 < h' g"
    show "frame_of (ms_pmm s') g \<noteq> Free" "g \<notin> tables s' R user_paths"
      using used [OF g] same new by auto
  next
    fix g assume "0 < h' g"
    then show "frame_of (ms_pmm s') g \<noteq> Reserved" using held used same by metis
  qed
qed

lemma acc_same:
  assumes acc: "accounted h s R" and ok: "spaces_ok s' R" and und: "undisturbed s R s'"
    and m: "\<And>g. mappers s' R g = mappers s R g"
  shows "accounted h s' R"
proof (rule acc_remap [OF acc ok und])
  show "frame_of (ms_pmm s) g \<noteq> Reserved" if "0 < h g" for g using accountedD(6) [OF acc that] by auto
  show "frame_of (ms_pmm s) g \<noteq> Free \<and> g \<notin> tables s R user_paths" if "mappers s' R g \<noteq> {} \<or> 0 < h g" for g
    using that m accountedD(6-8) [OF acc, of g] by auto
qed (simp add: m)

text \<open>The reference a page's entry stands for, handed to whoever drops the entry.\<close>

definition take_over :: "mstate \<Rightarrow> nat \<Rightarrow> u64 \<Rightarrow> (nat \<Rightarrow> nat) \<Rightarrow> nat \<Rightarrow> nat" where
  "take_over s r va h =
     (case pmap_leaf s r va of
        None \<Rightarrow> h
      | Some e \<Rightarrow>
          if frame_of (ms_pmm s) (leaf_frame e) = Reserved then h
          else h(leaf_frame e := Suc (h (leaf_frame e))))"

lemma leaf_frame_pte:
  assumes "page_aligned pa" "pa < 2 ^ 52"
  shows "leaf_frame (leaf_pte pa prot) = page_index pa"
  using leaf_pte_facts [OF assms] by (simp add: leaf_frame_def)

lemma set_page_counts:
  assumes acc: "accounted h s R" and r: "root \<in> R" and va: "user_va va" "page_aligned va"
    and leaf: "\<forall>r \<in> R. \<forall>x. user_va x \<longrightarrow> pmap_leaf s' r x =
      (if r = root \<and> x div PAGE_SIZE = va div PAGE_SIZE then w else pmap_leaf s r x)"
    and w: "\<And>e. w = Some e \<Longrightarrow> 0 < h (leaf_frame e) \<or>
      frame_of (ms_pmm s) (leaf_frame e) = Reserved \<and> leaf_frame e \<notin> tables s R user_paths"
  defines "h0 \<equiv> (case w of None \<Rightarrow> h | Some e \<Rightarrow> h(leaf_frame e := h (leaf_frame e) - 1))"
  shows "frame_of (ms_pmm s) g = Owned n \<Longrightarrow>
      card (mappers s' R g) + take_over s root va h0 g = card (mappers s R g) + h g"
    "mappers s' R g \<noteq> {} \<or> 0 < take_over s root va h0 g \<Longrightarrow>
      frame_of (ms_pmm s) g \<noteq> Free \<and> g \<notin> tables s R user_paths"
    "0 < take_over s root va h0 g \<Longrightarrow> frame_of (ms_pmm s) g \<noteq> Reserved"
proof -
  let ?p = "(root, va)"
  note m = mappers_set_page [OF leaf r va]
  have fin: "finite (mappers s R g)" by (rule accountedD(4) [OF acc])
  have p: "?p \<in> mappers s R g \<longleftrightarrow> (\<exists>e. pmap_leaf s root va = Some e \<and> leaf_frame e = g)"
    using r va by (simp add: mappers_def)
  have hold: "frame_of (ms_pmm s) g \<noteq> Reserved" if "0 < h g" using accountedD(6) [OF acc that] by auto
  have t: "take_over s root va h0 g = h0 g + (if ?p \<in> mappers s R g \<and> frame_of (ms_pmm s) g \<noteq> Reserved then 1 else 0)"
    using p by (auto simp: take_over_def split: option.splits)
  have h0: "h0 g = h g - (if \<exists>e. w = Some e \<and> leaf_frame e = g then 1 else 0)"
    by (auto simp: h0_def split: option.splits)
  have m': "mappers s' R g = (if \<exists>e. w = Some e \<and> leaf_frame e = g then insert ?p (mappers s R g) else mappers s R g - {?p})"
    unfolding m by (auto split: option.splits)
  show "frame_of (ms_pmm s) g \<noteq> Free \<and> g \<notin> tables s R user_paths"
    if "mappers s' R g \<noteq> {} \<or> 0 < take_over s root va h0 g"
  proof -
    have "mappers s R g \<noteq> {} \<or> 0 < h g \<or> frame_of (ms_pmm s) g = Reserved \<and> g \<notin> tables s R user_paths"
      using that w by (auto simp: m' t h0 split: if_splits)
    then show ?thesis using accountedD(6-8) [OF acc, of g] by auto
  qed
  show "frame_of (ms_pmm s) g \<noteq> Reserved" if "0 < take_over s root va h0 g"
    using that hold by (auto simp: t h0 split: if_splits)
  assume own: "frame_of (ms_pmm s) g = Owned n"
  show "card (mappers s' R g) + take_over s root va h0 g = card (mappers s R g) + h g"
  proof (cases "\<exists>e. w = Some e \<and> leaf_frame e = g")
    case True
    then have "0 < h g" using w own by auto
    then show ?thesis using True own fin by (simp add: m' t h0 card_insert_if)
  next
    case False
    have "card (mappers s R g - {?p}) + (if ?p \<in> mappers s R g then 1 else 0) = card (mappers s R g)"
      using fin card_Suc_Diff1 [of "mappers s R g" ?p] by auto
    moreover have "mappers s' R g = mappers s R g - {?p}" "h0 g = h g"
      using False by (simp_all only: m' h0 if_False diff_zero)
    ultimately show ?thesis using own by (simp only: t) simp
  qed
qed

lemma acc_enter:
  assumes acc: "accounted h s R" and r: "pml4_frame pm \<in> R" and va: "user_va va" "page_aligned va"
    and pa: "page_aligned pa" "pa < 2 ^ 52"
    and h: "0 < h (page_index pa) \<or>
      frame_of (ms_pmm s) (page_index pa) = Reserved \<and> page_index pa \<notin> tables s R user_paths"
  obtains (entered) pm' s' where "pmap_enter pm va pa prot s = Ret (True, pm', s')"
      "pml4_frame pm' = pml4_frame pm" "undisturbed s R s'"
      "accounted (take_over s (pml4_frame pm) va (h(page_index pa := h (page_index pa) - 1))) s' R"
      "\<forall>r \<in> R. \<forall>x. user_va x \<longrightarrow> pmap_leaf s' r x =
         (if r = pml4_frame pm \<and> x div PAGE_SIZE = va div PAGE_SIZE then Some (leaf_pte pa prot) else pmap_leaf s r x)"
  | (full) pm' s' where "pmap_enter pm va pa prot s = Ret (False, pm', s')"
      "pml4_frame pm' = pml4_frame pm" "undisturbed s R s'" "accounted h s' R"
      "\<forall>r \<in> R. \<forall>x. user_va x \<longrightarrow> pmap_leaf s' r x = pmap_leaf s r x"
proof -
  obtain b pm' s' where e: "pmap_enter pm va pa prot s = Ret (b, pm', s')" "spaces_ok s' R"
      "pml4_frame pm' = pml4_frame pm" "undisturbed s R s'"
      "\<forall>r \<in> R. \<forall>x. user_va x \<longrightarrow> pmap_leaf s' r x =
         (if b \<and> r = pml4_frame pm \<and> x div PAGE_SIZE = va div PAGE_SIZE then Some (leaf_pte pa prot) else pmap_leaf s r x)"
    using asp.enter_law [OF accountedD(2) [OF acc] r va pa] by blast
  show thesis
  proof (cases b)
    case True
    let ?h = "take_over s (pml4_frame pm) va (h(page_index pa := h (page_index pa) - 1))"
    have leaf: "\<forall>r \<in> R. \<forall>x. user_va x \<longrightarrow> pmap_leaf s' r x =
         (if r = pml4_frame pm \<and> x div PAGE_SIZE = va div PAGE_SIZE then Some (leaf_pte pa prot) else pmap_leaf s r x)"
      using e(5) True by simp
    have w: "0 < h (leaf_frame e) \<or> frame_of (ms_pmm s) (leaf_frame e) = Reserved \<and> leaf_frame e \<notin> tables s R user_paths"
      if "Some (leaf_pte pa prot) = Some e" for e
      using that h leaf_frame_pte [OF pa] by auto
    note c = set_page_counts [OF acc r va leaf w, unfolded option.case leaf_frame_pte [OF pa]]
    have "accounted ?h s' R"
      using c by (intro acc_remap [OF acc e(2,4)]) (auto simp: leaf_frame_pte [OF pa] simp del: fun_upd_apply)
    then show thesis using entered [of pm' s'] e(1,3,4) True leaf by simp
  next
    case False
    then have leaf: "\<forall>r \<in> R. \<forall>x. user_va x \<longrightarrow> pmap_leaf s' r x = pmap_leaf s r x" using e(5) by simp
    then have m: "mappers s' R g = mappers s R g" for g by (intro mappers_cong) auto
    have "accounted h s' R" by (rule acc_same [OF acc e(2,4) m])
    then show thesis using full [of pm' s'] e(1,3,4) False leaf by simp
  qed
qed

text \<open>Entering the frame a page already maps, with another protection, moves no reference.\<close>

lemma acc_reprotect:
  assumes acc: "accounted h s R" and r: "pml4_frame pm \<in> R" and va: "user_va va" "page_aligned va"
    and pa: "page_aligned pa" "pa < 2 ^ 52"
    and old: "pmap_leaf s (pml4_frame pm) va = Some e" "leaf_frame e = page_index pa"
  obtains b pm' s' where "pmap_enter pm va pa prot s = Ret (b, pm', s')"
      "pml4_frame pm' = pml4_frame pm" "undisturbed s R s'" "accounted h s' R"
      "\<forall>r \<in> R. \<forall>x. user_va x \<longrightarrow> pmap_leaf s' r x =
         (if b \<and> r = pml4_frame pm \<and> x div PAGE_SIZE = va div PAGE_SIZE then Some (leaf_pte pa prot) else pmap_leaf s r x)"
proof -
  obtain b pm' s' where e: "pmap_enter pm va pa prot s = Ret (b, pm', s')" "spaces_ok s' R"
      "pml4_frame pm' = pml4_frame pm" "undisturbed s R s'"
      "\<forall>r \<in> R. \<forall>x. user_va x \<longrightarrow> pmap_leaf s' r x =
         (if b \<and> r = pml4_frame pm \<and> x div PAGE_SIZE = va div PAGE_SIZE then Some (leaf_pte pa prot) else pmap_leaf s r x)"
    using asp.enter_law [OF accountedD(2) [OF acc] r va pa] by blast
  have m: "mappers s' R g = mappers s R g" for g
  proof (cases b)
    case True
    then have leaf: "\<forall>r \<in> R. \<forall>x. user_va x \<longrightarrow> pmap_leaf s' r x =
         (if r = pml4_frame pm \<and> x div PAGE_SIZE = va div PAGE_SIZE then Some (leaf_pte pa prot) else pmap_leaf s r x)"
      using e(5) by simp
    have "(pml4_frame pm, va) \<in> mappers s R g \<longleftrightarrow> leaf_frame (leaf_pte pa prot) = g"
      using r va old leaf_frame_pte [OF pa] by (auto simp: mappers_def)
    then show ?thesis using mappers_set_page [OF leaf r va, of g] by auto
  next
    case False
    then show ?thesis using e(5) by (intro mappers_cong) auto
  qed
  have "accounted h s' R" by (rule acc_same [OF acc e(2,4) m])
  then show thesis using that e by blast
qed

lemma acc_remove:
  assumes acc: "accounted h s R" and r: "pml4_frame pm \<in> R" and va: "user_va va" "page_aligned va"
  obtains b pm' s' where "pmap_remove pm va s = (b, pm', s')" "pml4_frame pm' = pml4_frame pm" "undisturbed s R s'"
      "accounted (take_over s (pml4_frame pm) va h) s' R" "b \<longleftrightarrow> pmap_leaf s (pml4_frame pm) va \<noteq> None"
      "ms_pmm s' = ms_pmm s"
      "\<forall>r \<in> R. \<forall>x. user_va x \<longrightarrow> pmap_leaf s' r x =
         (if r = pml4_frame pm \<and> x div PAGE_SIZE = va div PAGE_SIZE then None else pmap_leaf s r x)"
proof -
  obtain b pm' s' where e: "pmap_remove pm va s = (b, pm', s')" using prod_cases3 by blast
  note law = asp.remove_law [OF accountedD(2) [OF acc] r va e]
  have leaf: "\<forall>r \<in> R. \<forall>x. user_va x \<longrightarrow> pmap_leaf s' r x =
         (if r = pml4_frame pm \<and> x div PAGE_SIZE = va div PAGE_SIZE then None else pmap_leaf s r x)"
    using law by blast
  have w: "0 < h (leaf_frame e) \<or> frame_of (ms_pmm s) (leaf_frame e) = Reserved \<and> leaf_frame e \<notin> tables s R user_paths"
    if "None = Some e" for e using that by simp
  note c = set_page_counts [OF acc r va leaf w, unfolded option.case]
  have ok: "spaces_ok s' R" and und: "undisturbed s R s'" using law by blast+
  have "accounted (take_over s (pml4_frame pm) va h) s' R"
    using c by (intro acc_remap [OF acc ok und]) simp_all
  moreover have "ms_pmm s' = ms_pmm s" using remove_user [OF accountedD(2) [OF acc] r va(1) e] by blast
  ultimately show thesis using that [OF e] law leaf by blast
qed

end
