(* ===== verification/Vm_Object.thy ===== *)
theory Vm_Object
  imports Kern_Prelude
begin

text \<open>
  \<open>vm/vm_object.c\<close>: the pager objects. An object is a resolved file with a count of the references
  to it; it lives in a store indexed by its address. The last \<open>vm_object_deref\<close> gives the file back:
  \<open>vo_closed\<close> lists the handles passed to \<open>fs_close\<close>, latest first.

  The filesystem is an argument: whether \<open>fs_hold\<close> succeeds, and what \<open>fs_pread\<close> does to the page
  buffer (its result, the number of bytes it delivered, and the buffer afterwards). Whether
  \<open>kmalloc\<close> has memory is an argument too, and a fresh object's address is the argument \<open>i\<close>.
  A \<open>NULL\<close> object is \<open>None\<close>.
\<close>

section \<open>State\<close>

record fs_handle =
  fh_id :: u64
  fh_size :: u64
  fh_ino :: u64
  fh_gen :: u64
  fh_xid :: u64
  fh_kind :: nat

definition FS_HANDLE_NONE :: nat where "FS_HANDLE_NONE = 0"

record vm_object =
  vo_handle :: fs_handle
  vo_size :: u64
  vo_n_page :: u64
  vo_refs :: nat
  vo_path :: string

record vo_store =
  vo_objs :: "nat \<Rightarrow> vm_object option"
  vo_closed :: "fs_handle list"

definition VM_OBJ_PATH_MAX :: nat where "VM_OBJ_PATH_MAX = 256"
definition VM_OBJ_PAGE_BYTES :: nat where "VM_OBJ_PAGE_BYTES = 4096"

section \<open>Operations\<close>

text \<open>The bytes \<open>path_copy\<close> leaves before the terminating NUL.\<close>

definition path_copy :: "string \<Rightarrow> nat \<Rightarrow> string" where
  "path_copy src cap = take (cap - 1) (takeWhile (\<lambda>c. c \<noteq> CHR 0x00) src)"

definition vm_object_file ::
  "nat \<Rightarrow> bool \<Rightarrow> bool \<Rightarrow> fs_handle option \<Rightarrow> string option \<Rightarrow> vo_store \<Rightarrow> nat option \<times> vo_store" where
  "vm_object_file i kmalloc_ok hold_ok h path st =
     (case h of
        None \<Rightarrow> (None, st)
      | Some fh \<Rightarrow>
          if fh_kind fh = FS_HANDLE_NONE then (None, st)
          else if \<not> kmalloc_ok then (None, st)
          else if \<not> hold_ok then (None, st)
          else (Some i, st\<lparr>vo_objs := (vo_objs st)(i \<mapsto>
                 \<lparr>vo_handle = fh, vo_size = fh_size fh, vo_n_page = 0, vo_refs = 1,
                  vo_path = path_copy (case path of None \<Rightarrow> ''?'' | Some p \<Rightarrow> p) VM_OBJ_PATH_MAX\<rparr>)\<rparr>))"

text \<open>References are 32-bit counts. A reference to an address that holds no object changes nothing.\<close>

definition vm_object_ref :: "nat option \<Rightarrow> vo_store \<Rightarrow> vo_store" where
  "vm_object_ref obj st =
     (case obj of
        None \<Rightarrow> st
      | Some i \<Rightarrow>
          (case vo_objs st i of
             None \<Rightarrow> st
           | Some o' \<Rightarrow> st\<lparr>vo_objs := (vo_objs st)(i \<mapsto> o'\<lparr>vo_refs := (vo_refs o' + 1) mod 2 ^ 32\<rparr>)\<rparr>))"

definition vm_object_deref :: "nat option \<Rightarrow> vo_store \<Rightarrow> vo_store" where
  "vm_object_deref obj st =
     (case obj of
        None \<Rightarrow> st
      | Some i \<Rightarrow>
          (case vo_objs st i of
             None \<Rightarrow> st
           | Some o' \<Rightarrow>
               let refs = (vo_refs o' + (2 ^ 32 - 1)) mod 2 ^ 32
               in if refs \<noteq> 0 then st\<lparr>vo_objs := (vo_objs st)(i \<mapsto> o'\<lparr>vo_refs := refs\<rparr>)\<rparr>
                  else st\<lparr>vo_objs := (vo_objs st)(i := None), vo_closed := vo_handle o' # vo_closed st\<rparr>))"

text \<open>The result is 0 or -1, with the page buffer and the store afterwards.\<close>

definition vm_object_page ::
  "(fs_handle \<Rightarrow> u64 \<Rightarrow> 'page \<Rightarrow> nat \<Rightarrow> bool \<times> nat \<times> 'page) \<Rightarrow> nat option \<Rightarrow> u64 \<Rightarrow> 'page \<Rightarrow>
   vo_store \<Rightarrow> int \<times> 'page \<times> vo_store" where
  "vm_object_page fs_pread obj off page st =
     (case obj of
        None \<Rightarrow> (- 1, page, st)
      | Some i \<Rightarrow>
          (case vo_objs st i of
             None \<Rightarrow> (- 1, page, st)
           | Some o' \<Rightarrow>
               if off \<ge> vo_size o' then (0, page, st)
               else let want = (if vo_size o' - off < VM_OBJ_PAGE_BYTES then vo_size o' - off
                                else VM_OBJ_PAGE_BYTES)
                    in case fs_pread (vo_handle o') off page want of
                         (ok, got, page') \<Rightarrow>
                           if \<not> ok \<or> got \<noteq> want then (- 1, page', st)
                           else (0, page',
                                 st\<lparr>vo_objs := (vo_objs st)(i \<mapsto>
                                   o'\<lparr>vo_n_page := add64 (vo_n_page o') 1\<rparr>)\<rparr>)))"

section \<open>References\<close>

definition obj_refs :: "vo_store \<Rightarrow> nat \<Rightarrow> nat" where
  "obj_refs st i = (case vo_objs st i of None \<Rightarrow> 0 | Some o' \<Rightarrow> vo_refs o')"

text \<open>A live object has a reference, and fewer than \<open>2 ^ 32\<close> of them.\<close>

definition vo_wf :: "vo_store \<Rightarrow> bool" where
  "vo_wf st \<longleftrightarrow> (\<forall>i o'. vo_objs st i = Some o' \<longrightarrow> 0 < vo_refs o' \<and> vo_refs o' < 2 ^ 32)"

lemma obj_refs_live: "vo_wf st \<Longrightarrow> vo_objs st i = None \<longleftrightarrow> obj_refs st i = 0"
  by (auto simp: vo_wf_def obj_refs_def split: option.splits)

lemma vm_object_ref_None [simp]: "vm_object_ref None st = st"
  by (simp add: vm_object_ref_def)

lemma vm_object_deref_None [simp]: "vm_object_deref None st = st"
  by (simp add: vm_object_deref_def)

lemma vm_object_ref_step:
  assumes "vo_wf st" "obj_refs st i \<noteq> 0" "obj_refs st i + 1 < 2 ^ 32"
  shows "vo_wf (vm_object_ref (Some i) st)"
    "obj_refs (vm_object_ref (Some i) st) = (obj_refs st)(i := obj_refs st i + 1)"
    "vo_closed (vm_object_ref (Some i) st) = vo_closed st"
  using assms
  by (auto simp: vm_object_ref_def obj_refs_def vo_wf_def fun_eq_iff split: option.splits)

lemma vm_object_deref_step:
  assumes "vo_wf st" "obj_refs st i \<noteq> 0"
  shows "vo_wf (vm_object_deref (Some i) st)"
    "obj_refs (vm_object_deref (Some i) st) = (obj_refs st)(i := obj_refs st i - 1)"
    "vo_closed (vm_object_deref (Some i) st) =
       (if obj_refs st i = 1 then vo_handle (the (vo_objs st i)) # vo_closed st else vo_closed st)"
proof -
  obtain ob where ob: "vo_objs st i = Some ob" "obj_refs st i = vo_refs ob"
    using assms(2) by (auto simp: obj_refs_def split: option.splits)
  then have b: "0 < vo_refs ob" "vo_refs ob < 2 ^ 32" using assms(1) by (auto simp: vo_wf_def)
  have m: "(vo_refs ob + (2 ^ 32 - 1)) mod 2 ^ 32 = vo_refs ob - 1"
    using b le_mod_geq [of "2 ^ 32" "vo_refs ob + (2 ^ 32 - 1)"] by simp
  have d: "vm_object_deref (Some i) st =
      (if vo_refs ob \<noteq> 1 then st\<lparr>vo_objs := (vo_objs st)(i \<mapsto> ob\<lparr>vo_refs := vo_refs ob - 1\<rparr>)\<rparr>
       else st\<lparr>vo_objs := (vo_objs st)(i := None), vo_closed := vo_handle ob # vo_closed st\<rparr>)"
    using b ob(1) unfolding vm_object_deref_def by (simp add: Let_def m [simplified])
  have "0 < vo_refs ob - 1 \<and> vo_refs ob - 1 < 2 ^ 32" if "vo_refs ob \<noteq> 1"
    using that b by linarith
  then show "vo_wf (vm_object_deref (Some i) st)"
    using assms(1) unfolding d vo_wf_def by simp
  show "obj_refs (vm_object_deref (Some i) st) = (obj_refs st)(i := obj_refs st i - 1)"
    using ob unfolding d by (auto simp: obj_refs_def fun_eq_iff)
  show "vo_closed (vm_object_deref (Some i) st) =
       (if obj_refs st i = 1 then vo_handle (the (vo_objs st i)) # vo_closed st else vo_closed st)"
    using ob unfolding d by simp
qed

end
