(* ===== verification/Vm_Map.thy ===== *)
theory Vm_Map
  imports Vm_Object
begin

unbundle bit_operations_syntax

text \<open>
  The map half of \<open>vm/vm.c\<close>: a task's address-space map as a list of entries sorted by address, and
  the operations that enter, look up, cut, remove and search. The page tables are not touched here;
  the operations that also move frames are in the theory \<open>Vm\<close>.

  A linked list is a HOL list in the order of the \<open>vme_next\<close> links. \<open>vm_lock\<close> is held across each
  operation of this theory, so each is one step. Operations that free an entry also give back its
  object reference and so take the object store of \<open>Vm_Object\<close>. Whether \<open>kmalloc\<close> has memory is the
  argument \<open>ok\<close>. The map argument is present: the code's \<open>NULL\<close> tests on it have no counterpart.
\<close>

section \<open>State\<close>

definition VME_F_ANON :: "8 word" where "VME_F_ANON = 0x01"
definition VME_F_COW :: "8 word" where "VME_F_COW = 0x02"
definition VME_F_LAZY :: "8 word" where "VME_F_LAZY = 0x04"

record vm_map_entry =
  vme_start :: u64
  vme_end :: u64
  vme_offset :: u64
  vme_object :: "nat option"
  vme_prot :: "8 word"
  vme_flags :: "8 word"

record vm_map =
  vm_lo :: u64
  vm_hi :: u64
  vm_hint :: u64
  vm_entries :: "vm_map_entry list"
  vm_count :: nat

definition VM_USER_VA_LO :: u64 where "VM_USER_VA_LO = 0x40000000"
definition VM_USER_VA_HI :: u64 where "VM_USER_VA_HI = 0x80000000"

section \<open>Creating and emptying a map\<close>

definition entry_free :: "vm_map_entry \<Rightarrow> vo_store \<Rightarrow> vo_store" where
  "entry_free e st = vm_object_deref (vme_object e) st"

definition vm_map_create :: "bool \<Rightarrow> u64 \<Rightarrow> u64 \<Rightarrow> vm_map option" where
  "vm_map_create ok lo hi =
     (if lo \<ge> hi \<or> \<not> page_aligned lo \<or> \<not> page_aligned hi then None
      else if \<not> ok then None
      else Some \<lparr>vm_lo = lo, vm_hi = hi, vm_hint = lo, vm_entries = [], vm_count = 0\<rparr>)"

definition vm_map_destroy :: "vm_map \<Rightarrow> vo_store \<Rightarrow> vo_store" where
  "vm_map_destroy m st = fold entry_free (vm_entries m) st"

definition vm_map_reset :: "vm_map \<Rightarrow> vo_store \<Rightarrow> vm_map \<times> vo_store" where
  "vm_map_reset m st =
     (m\<lparr>vm_entries := [], vm_count := 0, vm_hint := vm_lo m\<rparr>, fold entry_free (vm_entries m) st)"

section \<open>Lookup\<close>

text \<open>The position of the entry \<open>vm_map_lookup\<close> returns a pointer to, then the entry itself.\<close>

fun lookup_index :: "vm_map_entry list \<Rightarrow> u64 \<Rightarrow> nat option" where
  "lookup_index [] va = None"
| "lookup_index (e # es) va =
     (if vme_start e > va then None
      else if vme_end e > va then Some 0
      else map_option Suc (lookup_index es va))"

definition vm_map_lookup :: "vm_map \<Rightarrow> u64 \<Rightarrow> vm_map_entry option" where
  "vm_map_lookup m va = map_option (\<lambda>i. vm_entries m ! i) (lookup_index (vm_entries m) va)"

section \<open>Entering a range\<close>

fun vm_range_free_loop :: "vm_map_entry list \<Rightarrow> u64 \<Rightarrow> u64 \<Rightarrow> bool" where
  "vm_range_free_loop [] va end = True"
| "vm_range_free_loop (e # es) va end =
     (if vme_start e \<ge> end then True
      else if vme_end e \<le> va then vm_range_free_loop es va end
      else False)"

definition vm_range_free_locked :: "vm_map \<Rightarrow> u64 \<Rightarrow> u64 \<Rightarrow> bool" where
  "vm_range_free_locked m va sz = vm_range_free_loop (vm_entries m) va (add64 va sz)"

fun insert_entry :: "vm_map_entry \<Rightarrow> vm_map_entry list \<Rightarrow> vm_map_entry list" where
  "insert_entry ne [] = [ne]"
| "insert_entry ne (e # es) =
     (if vme_start e < vme_start ne then e # insert_entry ne es else ne # e # es)"

definition vm_map_enter_backed ::
  "bool \<Rightarrow> vm_map \<Rightarrow> u64 \<Rightarrow> u64 \<Rightarrow> 8 word \<Rightarrow> 8 word \<Rightarrow> nat option \<Rightarrow> u64 \<Rightarrow> vm_map \<times> bool" where
  "vm_map_enter_backed ok m va sz prot flags obj off =
     (if sz = 0 then (m, False)
      else if \<not> page_aligned va \<or> \<not> page_aligned sz then (m, False)
      else let end = add64 va sz in
      if end \<le> va then (m, False)
      else if va < vm_lo m \<or> end > vm_hi m then (m, False)
      else if \<not> ok then (m, False)
      else let ne = \<lparr>vme_start = va, vme_end = end, vme_offset = off, vme_object = obj,
                     vme_prot = prot, vme_flags = flags\<rparr> in
      if \<not> vm_range_free_locked m va sz then (m, False)
      else (m\<lparr>vm_entries := insert_entry ne (vm_entries m), vm_count := vm_count m + 1\<rparr>, True))"

definition vm_map_enter ::
  "bool \<Rightarrow> vm_map \<Rightarrow> u64 \<Rightarrow> u64 \<Rightarrow> 8 word \<Rightarrow> 8 word \<Rightarrow> vm_map \<times> bool" where
  "vm_map_enter ok m va sz prot flags = vm_map_enter_backed ok m va sz prot flags None 0"

section \<open>Cutting an entry\<close>

definition vm_entry_split_locked ::
  "bool \<Rightarrow> vm_map \<Rightarrow> nat \<Rightarrow> u64 \<Rightarrow> vo_store \<Rightarrow> (vm_map \<times> vo_store \<times> bool) kres" where
  "vm_entry_split_locked ok m i at st =
     (let e = vm_entries m ! i in
      KASSERT (vme_start e < at \<and> at < vme_end e)
        ''vm_entry_split_locked: the cut is not inside the entry''
      (KASSERT (page_aligned at) ''vm_entry_split_locked: the cut is not page-aligned''
      (if \<not> ok then Ret (m, st, False)
       else let ne = \<lparr>vme_start = at, vme_end = vme_end e,
                      vme_offset = add64 (vme_offset e) (at - vme_start e),
                      vme_object = vme_object e, vme_prot = vme_prot e, vme_flags = vme_flags e\<rparr>
            in Ret (m\<lparr>vm_entries := take i (vm_entries m) @ [e\<lparr>vme_end := at\<rparr>, ne]
                                      @ drop (Suc i) (vm_entries m),
                        vm_count := vm_count m + 1\<rparr>,
                    vm_object_ref (vme_object ne) st, True))))"

definition vm_map_clip_locked ::
  "bool \<Rightarrow> vm_map \<Rightarrow> u64 \<Rightarrow> vo_store \<Rightarrow> (vm_map \<times> vo_store \<times> bool) kres" where
  "vm_map_clip_locked ok m at st =
     (case lookup_index (vm_entries m) at of
        None \<Rightarrow> Ret (m, st, True)
      | Some i \<Rightarrow>
          if vme_start (vm_entries m ! i) = at then Ret (m, st, True)
          else vm_entry_split_locked ok m i at st)"

section \<open>Removing a range\<close>

text \<open>
  The unlinking loop: the entries that stay, and the chain \<open>gone\<close> of those unlinked, latest first.
\<close>

fun remove_loop ::
  "u64 \<Rightarrow> u64 \<Rightarrow> vm_map_entry list \<Rightarrow> vm_map_entry list \<Rightarrow> vm_map_entry list \<times> vm_map_entry list" where
  "remove_loop va end [] gone = ([], gone)"
| "remove_loop va end (e # es) gone =
     (if vme_start e \<ge> end then (e # es, gone)
      else if vme_start e \<ge> va \<and> vme_end e \<le> end then remove_loop va end es (e # gone)
      else case remove_loop va end es gone of (kept, gone') \<Rightarrow> (e # kept, gone'))"

definition vm_map_remove :: "vm_map \<Rightarrow> u64 \<Rightarrow> u64 \<Rightarrow> vo_store \<Rightarrow> vm_map \<times> vo_store \<times> nat" where
  "vm_map_remove m va sz st =
     (if sz = 0 then (m, st, 0)
      else case remove_loop va (add64 va sz) (vm_entries m) [] of (kept, gone) \<Rightarrow>
        (m\<lparr>vm_entries := kept, vm_count := vm_count m - length gone\<rparr>,
         fold entry_free gone st, length gone))"

section \<open>Finding a hole\<close>

fun vm_hole_loop :: "u64 \<Rightarrow> vm_map_entry list \<Rightarrow> u64 \<Rightarrow> u64" where
  "vm_hole_loop sz [] cur = cur"
| "vm_hole_loop sz (e # es) cur =
     (if vme_end e \<le> cur then vm_hole_loop sz es cur
      else if vme_start e \<ge> add64 cur sz then cur
      else vm_hole_loop sz es (vme_end e))"

definition vm_hole_locked :: "vm_map \<Rightarrow> u64 \<Rightarrow> u64 \<Rightarrow> u64" where
  "vm_hole_locked m sz from =
     (let cur = vm_hole_loop sz (vm_entries m) (if from < vm_lo m then vm_lo m else from)
      in if add64 cur sz > vm_hi m then 0 else cur)"

definition vm_map_find_space :: "vm_map \<Rightarrow> u64 \<Rightarrow> vm_map \<times> u64 option" where
  "vm_map_find_space m sz0 =
     (if sz0 = 0 then (m, None)
      else let sz = PA_ROUND_UP sz0;
               va0 = vm_hole_locked m sz (vm_hint m);
               va = (if va0 = 0 \<and> vm_hint m > vm_lo m then vm_hole_locked m sz (vm_lo m) else va0)
           in if va = 0 then (m, None) else (m\<lparr>vm_hint := add64 va sz\<rparr>, Some va))"

section \<open>Reporting\<close>

record mach_vm_region_entry =
  mvr_start :: u64
  mvr_end :: u64
  mvr_offset :: u64
  mvr_prot :: "8 word"
  mvr_flags :: "8 word"

definition vm_map_snapshot :: "vm_map \<Rightarrow> nat \<Rightarrow> mach_vm_region_entry list" where
  "vm_map_snapshot m max_entries =
     List.map (\<lambda>e. \<lparr>mvr_start = vme_start e, mvr_end = vme_end e, mvr_offset = vme_offset e,
                    mvr_prot = vme_prot e, mvr_flags = vme_flags e\<rparr>)
       (take max_entries (vm_entries m))"

definition vm_map_region_count :: "vm_map \<Rightarrow> nat" where
  "vm_map_region_count m = vm_count m"

section \<open>The invariant\<close>

definition entry_ok :: "u64 \<Rightarrow> u64 \<Rightarrow> vm_map_entry \<Rightarrow> bool" where
  "entry_ok lo hi e \<longleftrightarrow> page_aligned (vme_start e) \<and> page_aligned (vme_end e) \<and>
     vme_start e < vme_end e \<and> lo \<le> vme_start e \<and> vme_end e \<le> hi"

definition before :: "vm_map_entry \<Rightarrow> vm_map_entry \<Rightarrow> bool" where
  "before a b \<longleftrightarrow> vme_end a \<le> vme_start b"

definition entries_ok :: "u64 \<Rightarrow> u64 \<Rightarrow> vm_map_entry list \<Rightarrow> bool" where
  "entries_ok lo hi es \<longleftrightarrow> (\<forall>e \<in> set es. entry_ok lo hi e) \<and> sorted_wrt before es"

definition vm_map_wf :: "vm_map \<Rightarrow> bool" where
  "vm_map_wf m \<longleftrightarrow> page_aligned (vm_lo m) \<and> page_aligned (vm_hi m) \<and> 0 < vm_lo m \<and>
     vm_lo m < vm_hi m \<and> vm_hi m \<le> 2 ^ 63 \<and> page_aligned (vm_hint m) \<and> vm_hint m \<le> vm_hi m \<and>
     entries_ok (vm_lo m) (vm_hi m) (vm_entries m) \<and> vm_count m = length (vm_entries m)"

definition covers :: "vm_map_entry \<Rightarrow> u64 \<Rightarrow> bool" where
  "covers e va \<longleftrightarrow> vme_start e \<le> va \<and> va < vme_end e"

text \<open>
  What a map says of an address: the object behind it, the offset into the object, the protection
  and the flags. How the entries are cut is not part of it.
\<close>

definition entry_says :: "vm_map_entry \<Rightarrow> u64 \<Rightarrow> nat option \<times> u64 \<times> 8 word \<times> 8 word" where
  "entry_says e va =
     (vme_object e, add64 (vme_offset e) (va - vme_start e), vme_prot e, vme_flags e)"

definition view :: "vm_map \<Rightarrow> u64 \<Rightarrow> (nat option \<times> u64 \<times> 8 word \<times> 8 word) option" where
  "view m va = map_option (\<lambda>e. entry_says e va) (find (\<lambda>e. covers e va) (vm_entries m))"

lemma entries_ok_Cons [simp]:
  "entries_ok lo hi (e # es) \<longleftrightarrow> entry_ok lo hi e \<and> (\<forall>e' \<in> set es. before e e') \<and> entries_ok lo hi es"
  by (auto simp: entries_ok_def)

lemma entries_ok_Nil [simp]: "entries_ok lo hi []"
  by (simp add: entries_ok_def)

lemma entries_ok_append:
  "entries_ok lo hi (as @ bs) \<longleftrightarrow>
   entries_ok lo hi as \<and> entries_ok lo hi bs \<and> (\<forall>a \<in> set as. \<forall>b \<in> set bs. before a b)"
  by (auto simp: entries_ok_def sorted_wrt_append)

lemma entries_ok_filter: "entries_ok lo hi es \<Longrightarrow> entries_ok lo hi (filter P es)"
  by (auto simp: entries_ok_def sorted_wrt_filter)

lemma entry_okD: "entry_ok lo hi e \<Longrightarrow> vme_start e < vme_end e" "entry_ok lo hi e \<Longrightarrow> vme_end e \<le> hi"
    "entry_ok lo hi e \<Longrightarrow> lo \<le> vme_start e"
  by (auto simp: entry_ok_def)

lemma covers_unique:
  assumes "entries_ok lo hi es" "e \<in> set es" "f \<in> set es" "covers e va" "covers f va"
  shows "e = f"
  using assms
proof (induction es)
  case (Cons g es)
  have "\<not> covers h va" if "covers g va" "h \<in> set es" for h
  proof -
    have "vme_end g \<le> vme_start h" using that(2) Cons.prems(1) by (simp add: before_def)
    then show ?thesis using that(1) by (simp add: covers_def)
  qed
  then show ?case using Cons by auto
qed simp

lemma find_covers:
  assumes "entries_ok lo hi es"
  shows "find (\<lambda>e. covers e va) es = Some e \<longleftrightarrow> e \<in> set es \<and> covers e va"
proof
  assume "find (\<lambda>e. covers e va) es = Some e"
  then show "e \<in> set es \<and> covers e va" by (auto simp: find_Some_iff)
next
  assume e: "e \<in> set es \<and> covers e va"
  then obtain f where f: "find (\<lambda>e. covers e va) es = Some f"
    by (cases "find (\<lambda>e. covers e va) es") (auto simp: find_None_iff)
  then have "f \<in> set es" "covers f va" by (auto simp: find_Some_iff)
  then show "find (\<lambda>e. covers e va) es = Some e"
    using covers_unique [OF assms] e f by blast
qed

lemma lookup_index_find:
  assumes "entries_ok lo hi es"
  shows "map_option (\<lambda>i. es ! i) (lookup_index es va) = find (\<lambda>e. covers e va) es"
  using assms
proof (induction es)
  case (Cons e es)
  have none: "find (\<lambda>e. covers e va) es = None" if "vme_start e > va"
    using that Cons.prems by (force simp: find_None_iff covers_def before_def entry_ok_def)
  show ?case
    using Cons none by (auto simp: covers_def option.map_comp comp_def)
qed simp

lemma lookup_index_bound: "lookup_index es va = Some i \<Longrightarrow> i < length es"
  by (induction es arbitrary: i) (auto split: if_splits)

lemma vm_map_lookup_find:
  "vm_map_wf m \<Longrightarrow> vm_map_lookup m va = find (\<lambda>e. covers e va) (vm_entries m)"
  using lookup_index_find [of "vm_lo m" "vm_hi m" "vm_entries m" va]
  by (simp add: vm_map_lookup_def vm_map_wf_def)

lemma view_None_iff: "view m va = None \<longleftrightarrow> (\<forall>e \<in> set (vm_entries m). \<not> covers e va)"
  by (auto simp: view_def find_None_iff)

lemma view_Some:
  "vm_map_wf m \<Longrightarrow> e \<in> set (vm_entries m) \<Longrightarrow> covers e va \<Longrightarrow> view m va = Some (entry_says e va)"
  using find_covers [of "vm_lo m" "vm_hi m" "vm_entries m" va e] by (simp add: view_def vm_map_wf_def)

text \<open>Two maps say the same of an address if their covering entries do.\<close>

lemma view_eqI:
  assumes "vm_map_wf m" "vm_map_wf m'"
    and "\<And>e. e \<in> set (vm_entries m) \<Longrightarrow> covers e va \<Longrightarrow>
          \<exists>e' \<in> set (vm_entries m'). covers e' va \<and> entry_says e' va = entry_says e va"
    and "\<And>e'. e' \<in> set (vm_entries m') \<Longrightarrow> covers e' va \<Longrightarrow> \<exists>e \<in> set (vm_entries m). covers e va"
  shows "view m' va = view m va"
proof (cases "\<exists>e \<in> set (vm_entries m). covers e va")
  case True
  then obtain e where e: "e \<in> set (vm_entries m)" "covers e va" by blast
  then obtain e' where "e' \<in> set (vm_entries m')" "covers e' va" "entry_says e' va = entry_says e va"
    using assms(3) by blast
  then show ?thesis using view_Some [OF assms(1) e] view_Some [OF assms(2)] by simp
next
  case False
  then have "view m va = None" "view m' va = None" using assms(4) by (auto simp: view_None_iff)
  then show ?thesis by simp
qed

section \<open>Entering\<close>

lemma vm_range_free_loop_iff:
  "entries_ok lo hi es \<Longrightarrow> va < lim \<Longrightarrow>
   vm_range_free_loop es va lim \<longleftrightarrow> (\<forall>e \<in> set es. vme_end e \<le> va \<or> lim \<le> vme_start e)"
proof (induction es)
  case (Cons e es)
  have "lim \<le> vme_start f" if "lim \<le> vme_start e" "f \<in> set es" for f
  proof -
    have "vme_end e \<le> vme_start f" "vme_start e < vme_end e"
      using that(2) Cons.prems(1) by (auto simp: before_def entry_ok_def)
    then show ?thesis using that(1) by simp
  qed
  then show ?case using Cons by auto
qed simp

lemma set_insert_entry [simp]: "set (insert_entry ne es) = insert ne (set es)"
  by (induction es) auto

lemma length_insert_entry [simp]: "length (insert_entry ne es) = Suc (length es)"
  by (induction es) auto

lemma entries_ok_insert:
  "entries_ok lo hi es \<Longrightarrow> entry_ok lo hi ne \<Longrightarrow>
   \<forall>e \<in> set es. vme_end e \<le> vme_start ne \<or> vme_end ne \<le> vme_start e \<Longrightarrow>
   entries_ok lo hi (insert_entry ne es)"
proof (induction es)
  case (Cons e es)
  have "before ne f" if "\<not> vme_start e < vme_start ne" "f \<in> set (e # es)" for f
  proof -
    have "vme_end ne \<le> vme_start e"
      using that(1) Cons.prems by (auto simp: entry_ok_def)
    moreover have "vme_start e \<le> vme_start f"
      using that(2) Cons.prems(1) by (auto simp: entry_ok_def before_def)
    ultimately show ?thesis by (simp add: before_def)
  qed
  moreover have "before e ne" if "vme_start e < vme_start ne"
    using that Cons.prems by (auto simp: before_def entry_ok_def)
  ultimately show ?case using Cons by auto
qed simp

lemma page_aligned_add: "page_aligned a \<Longrightarrow> page_aligned b \<Longrightarrow> page_aligned (a + b)"
  by (simp add: page_aligned_def mod_add_eq [symmetric, of a b])

definition range_clear :: "vm_map \<Rightarrow> u64 \<Rightarrow> u64 \<Rightarrow> bool" where
  "range_clear m va lim \<longleftrightarrow> (\<forall>x. va \<le> x \<and> x < lim \<longrightarrow> view m x = None)"

lemma entry_clear_iff:
  assumes "vme_start e < vme_end e" "va < lim"
  shows "(\<forall>x. va \<le> x \<and> x < lim \<longrightarrow> \<not> covers e x) \<longleftrightarrow> vme_end e \<le> va \<or> lim \<le> vme_start e"
proof
  assume *: "\<forall>x. va \<le> x \<and> x < lim \<longrightarrow> \<not> covers e x"
  show "vme_end e \<le> va \<or> lim \<le> vme_start e"
  proof (rule ccontr)
    assume "\<not> ?thesis"
    then have "va \<le> max va (vme_start e)" "max va (vme_start e) < lim" "covers e (max va (vme_start e))"
      using assms by (auto simp: covers_def)
    then show False using * by blast
  qed
qed (auto simp: covers_def)

lemma range_clear_iff:
  assumes "vm_map_wf m" "va < lim"
  shows "range_clear m va lim \<longleftrightarrow> (\<forall>e \<in> set (vm_entries m). vme_end e \<le> va \<or> lim \<le> vme_start e)"
proof -
  have "range_clear m va lim \<longleftrightarrow> (\<forall>e \<in> set (vm_entries m). \<forall>x. va \<le> x \<and> x < lim \<longrightarrow> \<not> covers e x)"
    by (auto simp: range_clear_def view_None_iff)
  moreover have "vme_start e < vme_end e" if "e \<in> set (vm_entries m)" for e
    using that assms(1) by (auto simp: vm_map_wf_def entries_ok_def entry_ok_def)
  ultimately show ?thesis using entry_clear_iff [OF _ assms(2)] by auto
qed

definition enter_guard :: "vm_map \<Rightarrow> u64 \<Rightarrow> u64 \<Rightarrow> bool" where
  "enter_guard m va sz \<longleftrightarrow> 0 < sz \<and> page_aligned va \<and> page_aligned sz \<and>
     vm_lo m \<le> va \<and> va + sz \<le> vm_hi m"

lemma enter_no_wrap:
  assumes "vm_map_wf m" "va < 2 ^ 64" "sz < 2 ^ 64" "va < add64 va sz" "add64 va sz \<le> vm_hi m"
  shows "add64 va sz = va + sz"
proof (rule ccontr)
  assume "add64 va sz \<noteq> va + sz"
  then have "\<not> va + sz < 2 ^ 64" using add64_small [of va sz] by blast
  then have "add64 va sz = va + sz - 2 ^ 64" by (rule add64_wrap [OF assms(2,3)])
  then show False using assms(3,4) by linarith
qed

lemma vm_map_enter_backed_step:
  assumes wf: "vm_map_wf m" and "va < 2 ^ 64" "sz < 2 ^ 64"
    and enter: "vm_map_enter_backed ok m va sz prot flags obj off = (m', r)"
  shows "r \<longleftrightarrow> ok \<and> enter_guard m va sz \<and> range_clear m va (va + sz)"
    and "\<not> r \<Longrightarrow> m' = m"
    and "r \<Longrightarrow> vm_map_wf m'"
    and "r \<Longrightarrow> vm_entries m' = insert_entry
           \<lparr>vme_start = va, vme_end = va + sz, vme_offset = off, vme_object = obj,
            vme_prot = prot, vme_flags = flags\<rparr> (vm_entries m)"
    and "r \<Longrightarrow> vm_lo m' = vm_lo m \<and> vm_hi m' = vm_hi m"
    and "r \<Longrightarrow> view m' x = (if va \<le> x \<and> x < va + sz then Some (obj, add64 off (x - va), prot, flags)
                       else view m x)"
proof -
  let ?ne = "\<lparr>vme_start = va, vme_end = va + sz, vme_offset = off, vme_object = obj,
              vme_prot = prot, vme_flags = flags\<rparr>"
  have hi: "vm_hi m < 2 ^ 64" using wf by (simp add: vm_map_wf_def)
  have es: "entries_ok (vm_lo m) (vm_hi m) (vm_entries m)" using wf by (simp add: vm_map_wf_def)
  have free: "vm_range_free_locked m va sz \<longleftrightarrow> range_clear m va (va + sz)"
    if "0 < sz" "add64 va sz = va + sz"
    using that range_clear_iff [OF wf, of va "va + sz"] vm_range_free_loop_iff [OF es, of va "va + sz"]
    by (simp add: vm_range_free_locked_def)
  have guard: "enter_guard m va sz \<longleftrightarrow> sz \<noteq> 0 \<and> page_aligned va \<and> page_aligned sz \<and>
      \<not> add64 va sz \<le> va \<and> \<not> (va < vm_lo m \<or> add64 va sz > vm_hi m)"
    using enter_no_wrap [OF wf assms(2,3)] hi by (auto simp: enter_guard_def add64_small)
  have pos: "0 < sz" if "enter_guard m va sz" using that by (simp add: enter_guard_def)
  have nw: "add64 va sz = va + sz" if "enter_guard m va sz"
    using that hi by (simp add: enter_guard_def add64_small)
  have "(m', r) = (if enter_guard m va sz \<and> ok \<and> vm_range_free_locked m va sz
      then (m\<lparr>vm_entries := insert_entry (?ne\<lparr>vme_end := add64 va sz\<rparr>) (vm_entries m),
              vm_count := vm_count m + 1\<rparr>, True)
      else (m, False))"
    unfolding guard enter [symmetric] vm_map_enter_backed_def Let_def by simp
  then have m': "(m', r) = (if enter_guard m va sz \<and> ok \<and> range_clear m va (va + sz)
      then (m\<lparr>vm_entries := insert_entry ?ne (vm_entries m), vm_count := vm_count m + 1\<rparr>, True)
      else (m, False))"
    using free nw pos by (cases "enter_guard m va sz") simp_all
  then show r: "r \<longleftrightarrow> ok \<and> enter_guard m va sz \<and> range_clear m va (va + sz)"
    and "\<not> r \<Longrightarrow> m' = m"
    by (auto split: if_splits)
  assume r
  then have ok: "enter_guard m va sz" "range_clear m va (va + sz)" using r by auto
  have eq: "m' = m\<lparr>vm_entries := insert_entry ?ne (vm_entries m), vm_count := vm_count m + 1\<rparr>"
    using m' ok \<open>r\<close> by (auto split: if_splits)
  then show "vm_entries m' = insert_entry ?ne (vm_entries m)" "vm_lo m' = vm_lo m \<and> vm_hi m' = vm_hi m"
    by simp_all
  have "va < va + sz" using ok by (simp add: enter_guard_def)
  then have "\<forall>e \<in> set (vm_entries m). vme_end e \<le> va \<or> va + sz \<le> vme_start e"
    using ok(2) range_clear_iff [OF wf, of va "va + sz"] by simp
  then have "entries_ok (vm_lo m) (vm_hi m) (insert_entry ?ne (vm_entries m))"
    using ok es by (intro entries_ok_insert) (auto simp: entry_ok_def enter_guard_def page_aligned_add)
  then show wf': "vm_map_wf m'" using wf eq by (simp add: vm_map_wf_def)
  show "view m' x = (if va \<le> x \<and> x < va + sz then Some (obj, add64 off (x - va), prot, flags)
                       else view m x)"
  proof (cases "va \<le> x \<and> x < va + sz")
    case True
    then have "view m' x = Some (entry_says ?ne x)"
      using eq by (intro view_Some [OF wf']) (auto simp: covers_def)
    then show ?thesis using True by (simp add: entry_says_def)
  next
    case False
    then have "view m' x = view m x"
      using eq by (intro view_eqI [OF wf wf']) (auto simp: covers_def)
    then show ?thesis using False by auto
  qed
qed

section \<open>Cutting\<close>

lemma split_list_at: "i < length xs \<Longrightarrow> xs = take i xs @ xs ! i # drop (Suc i) xs"
  by (simp add: id_take_nth_drop [symmetric])

lemma vm_entry_split_step:
  assumes wf: "vm_map_wf m" and i: "i < length (vm_entries m)"
    and inside: "vme_start (vm_entries m ! i) < at" "at < vme_end (vm_entries m ! i)"
    and al: "page_aligned at"
    and split: "vm_entry_split_locked True m i at st = Ret (m', st', r)"
  shows "r" "vm_map_wf m'" "view m' x = view m x"
    "vm_entries m' = take i (vm_entries m) @
       [(vm_entries m ! i)\<lparr>vme_end := at\<rparr>,
        \<lparr>vme_start = at, vme_end = vme_end (vm_entries m ! i),
         vme_offset = add64 (vme_offset (vm_entries m ! i)) (at - vme_start (vm_entries m ! i)),
         vme_object = vme_object (vm_entries m ! i), vme_prot = vme_prot (vm_entries m ! i),
         vme_flags = vme_flags (vm_entries m ! i)\<rparr>] @ drop (Suc i) (vm_entries m)"
    "st' = vm_object_ref (vme_object (vm_entries m ! i)) st"
    "vm_lo m' = vm_lo m \<and> vm_hi m' = vm_hi m \<and> vm_hint m' = vm_hint m"
proof -
  let ?es = "vm_entries m" and ?e = "vm_entries m ! i"
  let ?a = "?e\<lparr>vme_end := at\<rparr>"
  let ?b = "\<lparr>vme_start = at, vme_end = vme_end ?e, vme_offset = add64 (vme_offset ?e) (at - vme_start ?e),
             vme_object = vme_object ?e, vme_prot = vme_prot ?e, vme_flags = vme_flags ?e\<rparr>"
  have m': "m' = m\<lparr>vm_entries := take i ?es @ [?a, ?b] @ drop (Suc i) ?es, vm_count := vm_count m + 1\<rparr>"
    and st': "st' = vm_object_ref (vme_object ?e) st" and r: "r"
    using split inside al by (auto simp: vm_entry_split_locked_def Let_def KASSERT_Ret_iff)
  show "r" by (rule r)
  show "st' = vm_object_ref (vme_object ?e) st" by (rule st')
  show "vm_lo m' = vm_lo m \<and> vm_hi m' = vm_hi m \<and> vm_hint m' = vm_hint m"
    "vm_entries m' = take i ?es @ [?a, ?b] @ drop (Suc i) ?es"
    using m' by simp_all
  have es: "?es = take i ?es @ ?e # drop (Suc i) ?es" by (rule split_list_at [OF i])
  have ok: "entries_ok (vm_lo m) (vm_hi m) (take i ?es @ ?e # drop (Suc i) ?es)"
    using wf es by (simp add: vm_map_wf_def)
  then have "entries_ok (vm_lo m) (vm_hi m) (take i ?es @ [?a, ?b] @ drop (Suc i) ?es)"
    using inside al by (auto simp: entries_ok_append entry_ok_def before_def)
  then show wf': "vm_map_wf m'" using wf i unfolding m' by (simp add: vm_map_wf_def)
  have set: "set ?es = insert ?e (set (take i ?es) \<union> set (drop (Suc i) ?es))"
    by (subst es) auto
  have set': "set (vm_entries m') = {?a, ?b} \<union> (set (take i ?es) \<union> set (drop (Suc i) ?es))"
    unfolding m' by auto
  show "view m' x = view m x"
  proof (rule view_eqI [OF wf wf'])
    fix e assume e: "e \<in> set ?es" "covers e x"
    show "\<exists>e' \<in> set (vm_entries m'). covers e' x \<and> entry_says e' x = entry_says e x"
    proof (cases "e = ?e")
      case True
      then show ?thesis
      proof (cases "x < at")
        case True
        then have "covers ?a x" "entry_says ?a x = entry_says ?e x"
          using e \<open>e = ?e\<close> by (simp_all add: covers_def entry_says_def)
        then show ?thesis using set' \<open>e = ?e\<close> by auto
      next
        case False
        then have "covers ?b x" using e \<open>e = ?e\<close> by (simp add: covers_def)
        moreover have "(at - vme_start ?e) + (x - at) = x - vme_start ?e" using False inside by simp
        then have "entry_says ?b x = entry_says ?e x"
          by (simp add: entry_says_def add64_def mod_simps add.assoc)
        ultimately show ?thesis using set' \<open>e = ?e\<close> by auto
      qed
    next
      case False
      then show ?thesis using e set set' by auto
    qed
  next
    fix e' assume "e' \<in> set (vm_entries m')" "covers e' x"
    then show "\<exists>e \<in> set ?es. covers e x"
      unfolding set set' using inside by (auto simp: covers_def)
  qed
qed

text \<open>\<open>at\<close> is a boundary: no entry has it strictly inside.\<close>

definition boundary :: "vm_map \<Rightarrow> u64 \<Rightarrow> bool" where
  "boundary m at \<longleftrightarrow> (\<forall>e \<in> set (vm_entries m). \<not> (vme_start e < at \<and> at < vme_end e))"

lemma lookup_index_Some:
  assumes "vm_map_wf m" "lookup_index (vm_entries m) at = Some i"
  shows "i < length (vm_entries m)" "covers (vm_entries m ! i) at"
proof -
  show "i < length (vm_entries m)" by (rule lookup_index_bound [OF assms(2)])
  have "find (\<lambda>e. covers e at) (vm_entries m) = Some (vm_entries m ! i)"
    using lookup_index_find [of "vm_lo m" "vm_hi m" "vm_entries m" at] assms by (simp add: vm_map_wf_def)
  then show "covers (vm_entries m ! i) at" by (auto simp: find_Some_iff)
qed

lemma lookup_index_None:
  "vm_map_wf m \<Longrightarrow> lookup_index (vm_entries m) at = None \<Longrightarrow> e \<in> set (vm_entries m) \<Longrightarrow> \<not> covers e at"
  using lookup_index_find [of "vm_lo m" "vm_hi m" "vm_entries m" at]
    find_None_iff [of "\<lambda>e. covers e at" "vm_entries m"]
  by (auto simp: vm_map_wf_def)

lemma clip_no_panic:
  assumes "vm_map_wf m" "page_aligned at"
  shows "\<exists>m' st' r. vm_map_clip_locked ok m at st = Ret (m', st', r)"
proof (cases "lookup_index (vm_entries m) at")
  case None
  then show ?thesis by (auto simp: vm_map_clip_locked_def)
next
  case (Some i)
  then show ?thesis
    using lookup_index_Some [OF assms(1) Some] assms(2)
    by (auto simp: vm_map_clip_locked_def vm_entry_split_locked_def Let_def covers_def KASSERT_def)
qed

lemma vm_map_clip_step:
  assumes wf: "vm_map_wf m" and al: "page_aligned at"
    and clip: "vm_map_clip_locked ok m at st = Ret (m', st', r)"
  shows "vm_map_wf m'" "view m' x = view m x" "r \<Longrightarrow> boundary m' at"
    "boundary m b \<Longrightarrow> boundary m' b" "\<not> r \<Longrightarrow> m' = m \<and> st' = st \<and> \<not> ok"
    "vm_lo m' = vm_lo m" "vm_hi m' = vm_hi m"
proof -
  consider (noop) "m' = m" "st' = st" "r" "boundary m at"
    | (fail) "m' = m" "st' = st" "\<not> r" "\<not> ok"
    | (cut) i where "lookup_index (vm_entries m) at = Some i" "vme_start (vm_entries m ! i) \<noteq> at"
        "vm_entry_split_locked True m i at st = Ret (m', st', r)" "ok"
  proof (cases "lookup_index (vm_entries m) at")
    case None
    then have "boundary m at"
      using lookup_index_None [OF wf None] by (auto simp: boundary_def covers_def)
    then show ?thesis using clip None noop by (auto simp: vm_map_clip_locked_def)
  next
    case (Some i)
    let ?e = "vm_entries m ! i"
    note i = lookup_index_Some [OF wf Some]
    show ?thesis
    proof (cases "vme_start ?e = at")
      case True
      have "boundary m at"
      proof (unfold boundary_def, intro ballI notI)
        fix e assume e: "e \<in> set (vm_entries m)" "vme_start e < at \<and> at < vme_end e"
        then have "e = ?e"
          using covers_unique [of "vm_lo m" "vm_hi m" "vm_entries m" e ?e at] i wf
          by (auto simp: vm_map_wf_def covers_def)
        then show False using e True by simp
      qed
      then show ?thesis using clip Some True noop by (auto simp: vm_map_clip_locked_def)
    next
      case False
      show ?thesis
      proof (cases ok)
        case True
        then show ?thesis using clip Some False cut by (auto simp: vm_map_clip_locked_def)
      next
        case not_ok: False
        then have "m' = m \<and> st' = st \<and> \<not> r"
          using clip Some False by (auto simp: vm_map_clip_locked_def vm_entry_split_locked_def Let_def
              KASSERT_Ret_iff)
        then show ?thesis using fail not_ok by blast
      qed
    qed
  qed
  then have "vm_map_wf m' \<and> view m' x = view m x \<and> (r \<longrightarrow> boundary m' at) \<and>
    (boundary m b \<longrightarrow> boundary m' b) \<and> (\<not> r \<longrightarrow> m' = m \<and> st' = st \<and> \<not> ok) \<and> vm_lo m' = vm_lo m \<and>
    vm_hi m' = vm_hi m"
  proof cases
    case (cut i)
    let ?es = "vm_entries m" and ?e = "vm_entries m ! i"
    note i = lookup_index_Some [OF wf cut(1)]
    have inside: "vme_start ?e < at" "at < vme_end ?e" using i cut(2) by (auto simp: covers_def)
    note split = vm_entry_split_step [OF wf i(1) inside al cut(3)]
    have es: "set ?es = insert ?e (set (take i ?es) \<union> set (drop (Suc i) ?es))"
      by (subst split_list_at [OF i(1)]) auto
    have other: "\<not> (vme_start e < at \<and> at < vme_end e)"
      if "e \<in> set (take i ?es) \<union> set (drop (Suc i) ?es)" for e
    proof -
      have "entries_ok (vm_lo m) (vm_hi m) (take i ?es @ ?e # drop (Suc i) ?es)"
        using wf split_list_at [OF i(1)] by (simp add: vm_map_wf_def)
      then have "before e ?e \<or> before ?e e" using that by (auto simp: entries_ok_append)
      then show ?thesis using inside by (auto simp: before_def)
    qed
    have "boundary m' at"
      using other unfolding boundary_def split(4) by auto
    moreover have "boundary m' b" if "boundary m b"
      using that inside unfolding boundary_def split(4) es by auto
    ultimately show ?thesis using split cut by simp
  qed (use wf in auto)
  then show "vm_map_wf m'" "view m' x = view m x" "r \<Longrightarrow> boundary m' at"
    "boundary m b \<Longrightarrow> boundary m' b" "\<not> r \<Longrightarrow> m' = m \<and> st' = st \<and> \<not> ok"
    "vm_lo m' = vm_lo m" "vm_hi m' = vm_hi m"
    by auto
qed

section \<open>Removing\<close>

definition inside :: "u64 \<Rightarrow> u64 \<Rightarrow> vm_map_entry \<Rightarrow> bool" where
  "inside va lim e \<longleftrightarrow> va \<le> vme_start e \<and> vme_end e \<le> lim"

lemma remove_loop_eq:
  "entries_ok lo hi es \<Longrightarrow>
   remove_loop va lim es gone = (filter (\<lambda>e. \<not> inside va lim e) es, rev (filter (inside va lim) es) @ gone)"
proof (induction es arbitrary: gone)
  case (Cons e es)
  show ?case
  proof (cases "vme_start e \<ge> lim")
    case True
    have "\<not> inside va lim f" if "f \<in> set (e # es)" for f
    proof -
      have "vme_start f < vme_end f" "vme_start e \<le> vme_start f"
        using that Cons.prems by (auto simp: before_def entry_ok_def entries_ok_def)
      then show ?thesis using True by (simp add: inside_def)
    qed
    then have "filter (inside va lim) (e # es) = []" "filter (\<lambda>f. \<not> inside va lim f) (e # es) = e # es"
      by (auto simp: filter_empty_conv filter_id_conv)
    then show ?thesis using True by (simp only: remove_loop.simps if_True) simp
  next
    case False
    then show ?thesis using Cons by (auto simp: inside_def)
  qed
qed simp

lemma vm_map_remove_step:
  assumes wf: "vm_map_wf m" and sz: "0 < sz" "va + sz < 2 ^ 64"
    and remove: "vm_map_remove m va sz st = (m', st', n)"
  shows "vm_map_wf m'" "vm_entries m' = filter (\<lambda>e. \<not> inside va (va + sz) e) (vm_entries m)"
    "st' = fold entry_free (rev (filter (inside va (va + sz)) (vm_entries m))) st"
    "n = length (filter (inside va (va + sz)) (vm_entries m))"
    "vm_lo m' = vm_lo m \<and> vm_hi m' = vm_hi m"
proof -
  have es: "entries_ok (vm_lo m) (vm_hi m) (vm_entries m)" using wf by (simp add: vm_map_wf_def)
  have eq: "m' = m\<lparr>vm_entries := filter (\<lambda>e. \<not> inside va (va + sz) e) (vm_entries m),
                vm_count := vm_count m - length (filter (inside va (va + sz)) (vm_entries m))\<rparr>"
    "st' = fold entry_free (rev (filter (inside va (va + sz)) (vm_entries m))) st"
    "n = length (filter (inside va (va + sz)) (vm_entries m))"
    using remove sz by (auto simp: vm_map_remove_def remove_loop_eq [OF es] add64_small)
  then show "vm_entries m' = filter (\<lambda>e. \<not> inside va (va + sz) e) (vm_entries m)"
    "st' = fold entry_free (rev (filter (inside va (va + sz)) (vm_entries m))) st"
    "n = length (filter (inside va (va + sz)) (vm_entries m))"
    "vm_lo m' = vm_lo m \<and> vm_hi m' = vm_hi m" by simp_all
  have "length (filter (inside va (va + sz)) (vm_entries m)) +
      length (filter (\<lambda>e. \<not> inside va (va + sz) e) (vm_entries m)) = length (vm_entries m)"
    by (rule sum_length_filter_compl)
  then show "vm_map_wf m'" using wf entries_ok_filter [OF es] unfolding eq by (simp add: vm_map_wf_def)
qed

lemma vm_map_remove_view:
  assumes wf: "vm_map_wf m" and sz: "0 < sz" "va + sz < 2 ^ 64" and b: "boundary m va" "boundary m (va + sz)"
    and remove: "vm_map_remove m va sz st = (m', st', n)"
  shows "view m' x = (if va \<le> x \<and> x < va + sz then None else view m x)"
proof -
  note r = vm_map_remove_step [OF wf sz remove]
  have ok: "vme_start e < vme_end e" if "e \<in> set (vm_entries m)" for e
    using that wf by (auto simp: vm_map_wf_def entries_ok_def entry_ok_def)
  have in_or_out: "inside va (va + sz) e \<or> vme_end e \<le> va \<or> va + sz \<le> vme_start e"
    if "e \<in> set (vm_entries m)" for e
    using b ok that by (force simp: boundary_def inside_def not_less)
  show ?thesis
  proof (cases "va \<le> x \<and> x < va + sz")
    case True
    then have "view m' x = None"
      using in_or_out by (force simp: view_None_iff r(2) covers_def inside_def)
    then show ?thesis using True by simp
  next
    case False
    then have "view m' x = view m x"
      by (intro view_eqI [OF wf r(1)]) (auto simp: r(2) covers_def inside_def)
    then show ?thesis using False by auto
  qed
qed

section \<open>Finding a hole\<close>

definition fits :: "vm_map_entry list \<Rightarrow> u64 \<Rightarrow> u64 \<Rightarrow> bool" where
  "fits es sz a \<longleftrightarrow> (\<forall>e \<in> set es. vme_end e \<le> a \<or> a + sz \<le> vme_start e)"

lemma vm_hole_loop_props:
  assumes "entries_ok lo hi es" "cur \<le> hi" "page_aligned cur" "0 < sz" "hi + sz < 2 ^ 64"
  shows "cur \<le> vm_hole_loop sz es cur \<and> vm_hole_loop sz es cur \<le> hi \<and>
    page_aligned (vm_hole_loop sz es cur) \<and> fits es sz (vm_hole_loop sz es cur) \<and>
    (\<forall>a \<ge> cur. fits es sz a \<longrightarrow> vm_hole_loop sz es cur \<le> a)"
  using assms
proof (induction es arbitrary: cur)
  case (Cons e es)
  have nw: "add64 cur sz = cur + sz" using Cons.prems by (simp add: add64_small)
  have e: "entry_ok lo hi e" "\<forall>f \<in> set es. before e f" "entries_ok lo hi es" using Cons.prems(1) by auto
  consider (past) "vme_end e \<le> cur" | (here) "\<not> vme_end e \<le> cur" "cur + sz \<le> vme_start e"
    | (slide) "\<not> vme_end e \<le> cur" "\<not> cur + sz \<le> vme_start e" by blast
  then show ?case
  proof cases
    case past
    then show ?thesis
      using Cons.IH [OF e(3) Cons.prems(2-5)] nw by (auto simp: fits_def)
  next
    case here
    have "cur + sz \<le> vme_start f" if "f \<in> set es" for f
      using that e here by (force simp: before_def entry_ok_def)
    then show ?thesis using here nw Cons.prems by (auto simp: fits_def)
  next
    case slide
    have "vme_end e \<le> hi" "page_aligned (vme_end e)" using e(1) by (auto simp: entry_ok_def)
    note IH = Cons.IH [OF e(3) this Cons.prems(4,5)]
    have "vme_end e \<le> a" if "cur \<le> a" "fits (e # es) sz a" for a
      using that slide by (auto simp: fits_def)
    then show ?thesis using IH slide nw by (auto simp: fits_def)
  qed
qed (simp add: fits_def)

lemma vm_hole_locked_props:
  assumes wf: "vm_map_wf m" and sz: "0 < sz" "sz < 2 ^ 63" and lb: "lb0 \<le> vm_hi m" "page_aligned lb0"
  defines "va \<equiv> vm_hole_locked m sz lb0"
  shows "va \<noteq> 0 \<Longrightarrow> page_aligned va \<and> vm_lo m \<le> va \<and> va + sz \<le> vm_hi m \<and> fits (vm_entries m) sz va"
    and "va = 0 \<Longrightarrow> max lb0 (vm_lo m) \<le> a \<Longrightarrow> a + sz \<le> vm_hi m \<Longrightarrow> \<not> fits (vm_entries m) sz a"
proof -
  let ?cur = "if lb0 < vm_lo m then vm_lo m else lb0"
  let ?r = "vm_hole_loop sz (vm_entries m) ?cur"
  have es: "entries_ok (vm_lo m) (vm_hi m) (vm_entries m)" and lo: "0 < vm_lo m"
    using wf by (auto simp: vm_map_wf_def)
  have cur: "?cur \<le> vm_hi m" "page_aligned ?cur" "vm_hi m + sz < 2 ^ 64"
    using wf lb sz by (auto simp: vm_map_wf_def)
  note r = vm_hole_loop_props [OF es cur(1,2) sz(1) cur(3)]
  have nw: "add64 ?r sz = ?r + sz" using r cur(3) by (intro add64_small) linarith
  have va: "va = (if ?r + sz > vm_hi m then 0 else ?r)"
    by (simp add: va_def vm_hole_locked_def Let_def nw)
  show "page_aligned va \<and> vm_lo m \<le> va \<and> va + sz \<le> vm_hi m \<and> fits (vm_entries m) sz va" if "va \<noteq> 0"
    using that r va by (auto split: if_splits)
  show "\<not> fits (vm_entries m) sz a" if "va = 0" "max lb0 (vm_lo m) \<le> a" "a + sz \<le> vm_hi m"
  proof
    assume "fits (vm_entries m) sz a"
    then have "?r \<le> a" using r that(2) by (auto simp: max_def split: if_splits)
    moreover have "vm_lo m \<le> ?r" using r by (auto split: if_splits)
    ultimately show False using that va lo by (auto split: if_splits)
  qed
qed

lemma fits_iff: "vm_map_wf m \<Longrightarrow> 0 < sz \<Longrightarrow> fits (vm_entries m) sz a \<longleftrightarrow> range_clear m a (a + sz)"
  by (simp add: fits_def range_clear_iff)

section \<open>Object references\<close>

definition naming :: "vm_map_entry list \<Rightarrow> nat \<Rightarrow> nat" where
  "naming es i = length (filter (\<lambda>e. vme_object e = Some i) es)"

lemma naming_simps [simp]:
  "naming [] i = 0"
  "naming (e # es) i = (if vme_object e = Some i then 1 else 0) + naming es i"
  "naming (as @ bs) i = naming as i + naming bs i"
  "naming (rev es) i = naming es i"
  by (simp_all add: naming_def rev_filter [symmetric])

lemma naming_insert [simp]:
  "naming (insert_entry ne es) i = (if vme_object ne = Some i then 1 else 0) + naming es i"
  by (induction es) auto

lemma naming_filter_compl: "naming (filter P es) i + naming (filter (\<lambda>e. \<not> P e) es) i = naming es i"
  by (induction es) auto

text \<open>The references on an object cover the entries that name it.\<close>

definition refs_cover :: "vm_map_entry list \<Rightarrow> vo_store \<Rightarrow> bool" where
  "refs_cover es st \<longleftrightarrow> vo_wf st \<and> (\<forall>i. naming es i \<le> obj_refs st i)"

lemma entry_free_step:
  assumes "refs_cover (e # es) st"
  shows "refs_cover es (entry_free e st)"
    "obj_refs (entry_free e st) i = obj_refs st i - naming [e] i"
proof -
  have *: "vo_wf (entry_free e st) \<and> (\<forall>i. obj_refs (entry_free e st) i = obj_refs st i - naming [e] i)"
  proof (cases "vme_object e")
    case None
    then show ?thesis using assms by (simp add: entry_free_def refs_cover_def)
  next
    case (Some j)
    then have "obj_refs st j \<noteq> 0" using assms by (auto simp: refs_cover_def dest: spec [of _ j])
    then show ?thesis
      using vm_object_deref_step [of st j] Some assms by (auto simp: entry_free_def refs_cover_def)
  qed
  then show "obj_refs (entry_free e st) i = obj_refs st i - naming [e] i" by blast
  have "naming es i \<le> obj_refs st i - naming [e] i" for i
    using assms by (auto simp: refs_cover_def dest: spec [of _ i])
  then show "refs_cover es (entry_free e st)" using * by (simp add: refs_cover_def)
qed

lemma entry_free_fold:
  "refs_cover (gone @ es) st \<Longrightarrow>
   refs_cover es (fold entry_free gone st) \<and>
   (\<forall>i. obj_refs (fold entry_free gone st) i = obj_refs st i - naming gone i)"
proof (induction gone arbitrary: st)
  case (Cons e gone)
  then have "refs_cover (gone @ es) (entry_free e st)" using entry_free_step by simp
  then show ?case using Cons.IH entry_free_step(2) [of e "gone @ es" st] Cons.prems by simp
qed simp

text \<open>The references beyond those of the map's own entries.\<close>

definition other_refs :: "vm_map \<Rightarrow> vo_store \<Rightarrow> nat \<Rightarrow> nat" where
  "other_refs m st i = obj_refs st i - naming (vm_entries m) i"

lemma clip_refs:
  assumes wf: "vm_map_wf m" and al: "page_aligned at" and cov: "refs_cover (vm_entries m) st"
    and room: "\<forall>i. obj_refs st i + 1 < 2 ^ 32"
    and clip: "vm_map_clip_locked ok m at st = Ret (m', st', r)"
  shows "refs_cover (vm_entries m') st' \<and> other_refs m' st' i = other_refs m st i"
proof (cases "\<exists>k. lookup_index (vm_entries m) at = Some k \<and> vme_start (vm_entries m ! k) \<noteq> at \<and> ok")
  case False
  then have "m' = m \<and> st' = st"
    using clip by (auto simp: vm_map_clip_locked_def vm_entry_split_locked_def Let_def KASSERT_Ret_iff
        split: option.splits if_splits)
  then show ?thesis using cov by simp
next
  case True
  then obtain k where k: "lookup_index (vm_entries m) at = Some k" "vme_start (vm_entries m ! k) \<noteq> at" ok
    by blast
  let ?es = "vm_entries m" and ?e = "vm_entries m ! k"
  note idx = lookup_index_Some [OF wf k(1)]
  have inside: "vme_start ?e < at" "at < vme_end ?e" using idx k(2) by (auto simp: covers_def)
  have "vm_entry_split_locked True m k at st = Ret (m', st', r)"
    using clip k by (simp add: vm_map_clip_locked_def)
  note split = vm_entry_split_step [OF wf idx(1) inside al this]
  have n: "naming (vm_entries m') j = naming ?es j + naming [?e] j" for j
    unfolding split(4) by (subst (3) split_list_at [OF idx(1)]) simp
  have "vo_wf st' \<and> (\<forall>j. obj_refs st' j = obj_refs st j + naming [?e] j)"
  proof (cases "vme_object ?e")
    case None
    then show ?thesis using split(5) cov by (simp add: refs_cover_def)
  next
    case (Some j)
    have "0 < naming ?es j"
      using Some idx(1) by (auto simp: naming_def filter_empty_conv)
    then have "obj_refs st j \<noteq> 0" using cov by (auto simp: refs_cover_def dest: spec [of _ j])
    then show ?thesis
      using vm_object_ref_step [of st j] Some cov room split(5) by (auto simp: refs_cover_def)
  qed
  then show ?thesis using n cov by (auto simp: refs_cover_def other_refs_def)
qed

lemma remove_refs:
  assumes wf: "vm_map_wf m" and sz: "0 < sz" "va + sz < 2 ^ 64" and cov: "refs_cover (vm_entries m) st"
    and remove: "vm_map_remove m va sz st = (m', st', n)"
  shows "refs_cover (vm_entries m') st' \<and> other_refs m' st' i = other_refs m st i"
proof -
  note r = vm_map_remove_step [OF wf sz remove]
  let ?in = "filter (inside va (va + sz)) (vm_entries m)"
    and ?out = "filter (\<lambda>e. \<not> inside va (va + sz) e) (vm_entries m)"
  have n: "naming ?in j + naming ?out j = naming (vm_entries m) j" for j by (rule naming_filter_compl)
  then have "refs_cover (rev ?in @ ?out) st" using cov by (simp add: refs_cover_def)
  then have "refs_cover ?out st'" "\<forall>j. obj_refs st' j = obj_refs st j - naming ?in j"
    using entry_free_fold [of "rev ?in" ?out st] r(3) by simp_all
  then show ?thesis using n [of i] r(2) by (simp add: other_refs_def)
qed

lemma reset_refs:
  assumes cov: "refs_cover (vm_entries m) st" and reset: "vm_map_reset m st = (m', st')"
  shows "refs_cover [] st' \<and> obj_refs st' i = other_refs m st i"
  using entry_free_fold [of "vm_entries m" "[]" st] cov reset
  by (auto simp: vm_map_reset_def other_refs_def)

section \<open>What the component promises\<close>

text \<open>The map of a task with one anonymous page and one page of an object.\<close>

definition example_map :: vm_map where
  "example_map = \<lparr>vm_lo = 0x40000000, vm_hi = 0x80000000, vm_hint = 0x40000000,
     vm_entries =
       [\<lparr>vme_start = 0x40000000, vme_end = 0x40001000, vme_offset = 0, vme_object = None,
         vme_prot = 0x0B, vme_flags = 0x01\<rparr>,
        \<lparr>vme_start = 0x40004000, vme_end = 0x40008000, vme_offset = 0x2000, vme_object = Some 7,
         vme_prot = 0x09, vme_flags = 0x05\<rparr>],
     vm_count = 2\<rparr>"

definition example_store :: vo_store where
  "example_store = \<lparr>vo_objs = [7 \<mapsto> \<lparr>vo_handle = \<lparr>fh_id = 1, fh_size = 0x9000, fh_ino = 1, fh_gen = 0,
      fh_xid = 0, fh_kind = 1\<rparr>, vo_size = 0x9000, vo_n_page = 0, vo_refs = 2, vo_path = ''lib''\<rparr>],
     vo_closed = []\<rparr>"

lemma example_map_wf: "vm_map_wf example_map"
  by (simp add: example_map_def vm_map_wf_def entry_ok_def before_def page_aligned_def PAGE_SIZE_eq)

lemma example_cover: "refs_cover (vm_entries example_map) example_store"
  by (auto simp: refs_cover_def vo_wf_def example_map_def example_store_def obj_refs_def split: if_splits)

text \<open>
  C26. \<open>vm_map_lookup\<close> returns an entry exactly when that entry is in the map and the address lies in
  its range; so it finds nothing exactly in the holes, although it stops at the first entry past
  the address.
\<close>
theorem vm_map_lookup_correct:
  assumes "vm_map_wf m"
  shows "vm_map_lookup m va = Some e \<longleftrightarrow>
         e \<in> set (vm_entries m) \<and> vme_start e \<le> va \<and> va < vme_end e"
  using find_covers [of "vm_lo m" "vm_hi m" "vm_entries m" va e] assms vm_map_lookup_find [OF assms, of va]
  by (simp add: vm_map_wf_def covers_def)

theorem vm_map_lookup_correct_witness:
  "vm_map_wf example_map \<and> vm_map_lookup example_map 0x40005123 = Some (vm_entries example_map ! 1)"
  using vm_map_lookup_correct [OF example_map_wf, of "0x40005123" "vm_entries example_map ! 1"] example_map_wf
  by (simp add: example_map_def)

text \<open>
  C27. \<open>vm_map_enter_backed\<close> succeeds exactly when memory is available, the range is aligned, not
  empty, inside the map's window and overlaps no entry. Then the map stays well formed (sorted,
  disjoint, aligned, counted), the new range says what was asked for, page by page into the object,
  and every other address says what it said before. On failure the map is unchanged.
\<close>
theorem vm_map_enter_backed_correct:
  assumes "vm_map_wf m" and "va < 2 ^ 64" and "sz < 2 ^ 64"
    and "vm_map_enter_backed ok m va sz prot flags obj off = (m', r)"
  shows "(r \<longleftrightarrow> ok \<and> 0 < sz \<and> page_aligned va \<and> page_aligned sz \<and> vm_lo m \<le> va \<and> va + sz \<le> vm_hi m \<and>
              (\<forall>x. va \<le> x \<and> x < va + sz \<longrightarrow> view m x = None)) \<and>
    (if r then vm_map_wf m' \<and>
            (\<forall>x. view m' x = (if va \<le> x \<and> x < va + sz then Some (obj, add64 off (x - va), prot, flags)
                              else view m x))
     else m' = m)"
  using vm_map_enter_backed_step [OF assms] by (auto simp: enter_guard_def range_clear_def)

theorem vm_map_enter_backed_correct_witness:
  "\<exists>m'. vm_map_enter_backed True example_map 0x40001000 0x3000 0x0B 0x05 (Some 9) 0x6000 = (m', True) \<and>
        view m' 0x40002008 = Some (Some 9, 0x7008, 0x0B, 0x05) \<and> view m' 0x40008000 = None"
proof -
  obtain m' r where e: "vm_map_enter_backed True example_map 0x40001000 0x3000 0x0B 0x05 (Some 9) 0x6000 = (m', r)"
    by force
  have clear: "\<forall>x. 0x40001000 \<le> x \<and> x < 0x40001000 + 0x3000 \<longrightarrow> view example_map x = None"
    by (auto simp: view_None_iff example_map_def covers_def)
  have "view example_map 0x40008000 = None"
    by (simp add: view_None_iff example_map_def covers_def)
  then show ?thesis
    using vm_map_enter_backed_correct [OF example_map_wf _ _ e] clear e
    by (auto simp: example_map_def page_aligned_def PAGE_SIZE_eq add64_def split: if_splits)
qed

text \<open>
  C28. Cutting at an address (\<open>vm_map_clip_locked\<close>) never panics and changes what the map says of no
  address: in particular the second half of a cut entry still names the right offset of its object.
  If it succeeds the address is an entry boundary; it fails, changing nothing, only without memory.
  Every object keeps exactly one reference per entry that names it, beside the references others
  hold.
\<close>
theorem vm_map_clip_correct:
  assumes "vm_map_wf m" and "page_aligned at" and "refs_cover (vm_entries m) st"
    and "\<forall>i. obj_refs st i + 1 < 2 ^ 32"
  shows "\<exists>m' st' r. vm_map_clip_locked ok m at st = Ret (m', st', r) \<and> vm_map_wf m' \<and>
    (\<forall>x. view m' x = view m x) \<and> (r \<longrightarrow> boundary m' at) \<and> (\<not> r \<longrightarrow> \<not> ok \<and> m' = m \<and> st' = st) \<and>
    refs_cover (vm_entries m') st' \<and> (\<forall>i. other_refs m' st' i = other_refs m st i)"
proof -
  obtain m' st' r where c: "vm_map_clip_locked ok m at st = Ret (m', st', r)"
    using clip_no_panic [OF assms(1,2)] by blast
  then show ?thesis
    using vm_map_clip_step [OF assms(1,2) c] clip_refs [OF assms c] by blast
qed

theorem vm_map_clip_correct_witness:
  "\<exists>m' st' r. vm_map_clip_locked True example_map 0x40006000 example_store = Ret (m', st', r) \<and> r \<and>
     boundary m' 0x40006000 \<and> view m' 0x40006000 = Some (Some 7, 0x4000, 0x09, 0x05) \<and>
     refs_cover (vm_entries m') st'"
proof -
  have "page_aligned 0x40006000" by (simp add: page_aligned_def PAGE_SIZE_eq)
  moreover have "\<forall>i. obj_refs example_store i + 1 < 2 ^ 32" by (simp add: obj_refs_def example_store_def)
  ultimately obtain m' st' r where r: "vm_map_clip_locked True example_map 0x40006000 example_store = Ret (m', st', r)"
    "\<forall>x. view m' x = view example_map x" "r \<longrightarrow> boundary m' 0x40006000" "\<not> r \<longrightarrow> False"
    "refs_cover (vm_entries m') st'"
    using vm_map_clip_correct [OF example_map_wf _ example_cover, of "0x40006000" True] by blast
  moreover have "view example_map 0x40006000 = Some (Some 7, 0x4000, 0x09, 0x05)"
    by (simp add: view_def example_map_def covers_def entry_says_def add64_def)
  ultimately show ?thesis by auto
qed

text \<open>
  C29. \<open>vm_map_remove\<close> takes away exactly the entries that lie wholly inside the range, although it
  stops at the first entry past it, and gives back one object reference for each; the others stay.
  If both ends of the range are entry boundaries, then afterwards the map says nothing of the range
  and what it said of every other address.
\<close>
theorem vm_map_remove_correct:
  assumes "vm_map_wf m" and "0 < sz" and "va + sz < 2 ^ 64" and "refs_cover (vm_entries m) st"
    and "vm_map_remove m va sz st = (m', st', n)"
  shows "vm_map_wf m' \<and> refs_cover (vm_entries m') st' \<and> (\<forall>i. other_refs m' st' i = other_refs m st i) \<and>
    vm_entries m' = filter (\<lambda>e. \<not> (va \<le> vme_start e \<and> vme_end e \<le> va + sz)) (vm_entries m) \<and>
    n + length (vm_entries m') = length (vm_entries m) \<and>
    (boundary m va \<and> boundary m (va + sz) \<longrightarrow>
       (\<forall>x. view m' x = (if va \<le> x \<and> x < va + sz then None else view m x)))"
  using vm_map_remove_step [OF assms(1-3,5)] remove_refs [OF assms]
    vm_map_remove_view [OF assms(1-3) _ _ assms(5)]
    sum_length_filter_compl [of "inside va (va + sz)" "vm_entries m"]
  by (simp add: inside_def)

theorem vm_map_remove_correct_witness:
  "\<exists>m' st'. vm_map_remove example_map 0x40004000 0x4000 example_store = (m', st', 1) \<and>
     vm_entries m' = [vm_entries example_map ! 0] \<and> refs_cover (vm_entries m') st'"
proof -
  obtain m' st' n where r: "vm_map_remove example_map 0x40004000 0x4000 example_store = (m', st', n)"
    using prod_cases3 by blast
  then show ?thesis
    using vm_map_remove_correct [OF example_map_wf _ _ example_cover r] by (auto simp: example_map_def)
qed

text \<open>
  C30. For requests below \<open>2 ^ 62\<close> bytes \<open>vm_map_find_space\<close> returns a page-aligned address at which
  the rounded-up size fits: inside the window and with no entry in it. It fails only if there is no
  such hole anywhere in the window, wherever the hint stands. No entry changes.
\<close>
theorem vm_map_find_space_correct:
  assumes "vm_map_wf m" and "0 < sz" and "sz < 2 ^ 62" and "vm_map_find_space m sz = (m', r)"
  shows "vm_map_wf m' \<and> vm_entries m' = vm_entries m \<and>
    (case r of
       Some va \<Rightarrow> page_aligned va \<and> vm_lo m \<le> va \<and> va + PA_ROUND_UP sz \<le> vm_hi m \<and>
                 (\<forall>x. va \<le> x \<and> x < va + PA_ROUND_UP sz \<longrightarrow> view m x = None)
     | None \<Rightarrow> m' = m \<and> (\<forall>a. vm_lo m \<le> a \<and> a + PA_ROUND_UP sz \<le> vm_hi m \<longrightarrow>
                 \<not> (\<forall>x. a \<le> x \<and> x < a + PA_ROUND_UP sz \<longrightarrow> view m x = None)))"
proof -
  let ?sz = "PA_ROUND_UP sz"
  have "sz + PAGE_SIZE \<le> 2 ^ 64" using assms(3) by (simp add: PAGE_SIZE_eq)
  then have sz: "0 < ?sz" "?sz < 2 ^ 63"
    using PA_ROUND_UP_le [of sz] assms(2,3) by (auto simp: PAGE_SIZE_eq)
  have hint: "vm_hint m \<le> vm_hi m" "page_aligned (vm_hint m)" "vm_lo m \<le> vm_hi m" "page_aligned (vm_lo m)"
    "0 < vm_lo m" "vm_hi m < 2 ^ 64"
    using assms(1) by (auto simp: vm_map_wf_def)
  note h1 = vm_hole_locked_props [OF assms(1) sz hint(1,2)]
    and h2 = vm_hole_locked_props [OF assms(1) sz hint(3,4)]
  let ?v1 = "vm_hole_locked m ?sz (vm_hint m)"
  let ?va = "if ?v1 = 0 \<and> vm_hint m > vm_lo m then vm_hole_locked m ?sz (vm_lo m) else ?v1"
  have eq: "(m', r) = (if ?va = 0 then (m, None) else (m\<lparr>vm_hint := add64 ?va ?sz\<rparr>, Some ?va))"
    using assms(2,4) by (simp add: vm_map_find_space_def Let_def)
  have clear: "fits (vm_entries m) ?sz a \<longleftrightarrow> (\<forall>x. a \<le> x \<and> x < a + ?sz \<longrightarrow> view m x = None)" for a
    using fits_iff [OF assms(1) sz(1)] by (simp add: range_clear_def)
  show ?thesis
  proof (cases "?va = 0")
    case True
    then have "\<not> fits (vm_entries m) ?sz a" if "vm_lo m \<le> a" "a + ?sz \<le> vm_hi m" for a
      using that h1(2) [of a] h2(2) [of a] by (auto split: if_splits)
    then show ?thesis using True eq assms(1) clear by auto
  next
    case False
    then have va: "page_aligned ?va \<and> vm_lo m \<le> ?va \<and> ?va + ?sz \<le> vm_hi m \<and> fits (vm_entries m) ?sz ?va"
      using h1(1) h2(1) by (auto split: if_splits)
    then have "add64 ?va ?sz = ?va + ?sz" using hint(6) by (intro add64_small) linarith
    then have "vm_map_wf m'"
      using va False eq assms(1) by (auto simp: vm_map_wf_def page_aligned_add)
    then show ?thesis using False eq va clear by auto
  qed
qed

theorem vm_map_find_space_correct_witness:
  "\<exists>m' va. vm_map_find_space example_map 0x2800 = (m', Some va) \<and> vm_map_wf m' \<and> page_aligned va"
proof -
  have "vm_map_find_space example_map 0x2800 = (example_map\<lparr>vm_hint := 0x40004000\<rparr>, Some 0x40001000)"
    by (simp add: example_map_def vm_map_find_space_def vm_hole_locked_def PA_ROUND_UP_def PA_ROUND_DOWN_def
        add64_def PAGE_SIZE_eq Let_def)
  note f = this
  show ?thesis using f vm_map_find_space_correct [OF example_map_wf _ _ f] by simp
qed

text \<open>
  C27. Without that bound the search is wrong: in the empty map of a new task a request for
  \<open>2 ^ 64 - 2 ^ 30\<close> bytes, far more than the window, succeeds, because \<open>cur + size\<close> wraps to 0
  before it is compared with the ceiling.
\<close>
theorem vm_map_find_space_wraps:
  "\<exists>m m'. vm_map_create True VM_USER_VA_LO VM_USER_VA_HI = Some m \<and>
     vm_map_find_space m (2 ^ 64 - 2 ^ 30) = (m', Some VM_USER_VA_LO) \<and>
     2 ^ 64 - 2 ^ 30 > vm_hi m - vm_lo m"
  by (simp add: vm_map_create_def VM_USER_VA_LO_def VM_USER_VA_HI_def vm_map_find_space_def
      vm_hole_locked_def page_aligned_def PA_ROUND_UP_def PA_ROUND_DOWN_def add64_def PAGE_SIZE_eq Let_def)

end
