(* ===== verification/Vm.thy ===== *)
theory Vm
  imports Vm_Frames Vm_Map
begin

unbundle bit_operations_syntax

text \<open>
  The half of \<open>vm/vm.c\<close> that moves frames: releasing a range, sharing an address space on fork,
  carrying pages between address spaces, mapping a program image, and the page fault.

  The state is the machine state of \<open>Pmap\<close> (allocator, memory, invalidations), a task's map and pmap,
  and the object store. Protections are passed to the page tables as 32-bit values (\<open>ucast\<close>).
  Where the fault and the capture of a payload drop the map lock and take it again, what other
  threads do meanwhile is an argument (\<open>env\<close>); \<open>vm_map_release\<close> also unmaps its pages between two
  holds of the lock, and there no other thread is considered. The outcomes of \<open>kmalloc\<close> are arguments, and so are the bytes behind a pointer that the
  kernel copies from. The diagnostic counters (\<open>vm_n_*\<close>, \<open>vm_us_*\<close>) are left out.
\<close>

section \<open>Pages of a range\<close>

definition page_range :: "u64 \<Rightarrow> u64 \<Rightarrow> u64 list" where
  "page_range lo hi = map (\<lambda>k. lo + k * PAGE_SIZE) [0..<(hi - lo + (PAGE_SIZE - 1)) div PAGE_SIZE]"

text \<open>The 64-bit word in slot \<open>k\<close> of a page with the given bytes (little endian).\<close>

definition word_of_bytes :: "(nat \<Rightarrow> 8 word) \<Rightarrow> nat \<Rightarrow> 64 word" where
  "word_of_bytes f k = foldr (\<lambda>j acc. push_bit 8 acc OR ucast (f (8 * k + j))) [0..<8] 0"

definition fill_frame :: "nat \<Rightarrow> (nat \<Rightarrow> 8 word) \<Rightarrow> mstate \<Rightarrow> mstate" where
  "fill_frame f bytes s =
     s\<lparr>ms_mem := (ms_mem s)(f := (\<lambda>k. if k < 512 then word_of_bytes bytes k else ms_mem s f k))\<rparr>"

definition has :: "8 word \<Rightarrow> 8 word \<Rightarrow> bool" where
  "has w b \<longleftrightarrow> w AND b \<noteq> 0"

section \<open>Releasing\<close>

text \<open>The loop that unmaps each present page and drops its reference.\<close>

primrec release_pages :: "u64 list \<Rightarrow> pmap \<Rightarrow> mstate \<Rightarrow> (pmap \<times> mstate) kres" where
  "release_pages [] pm s = Ret (pm, s)"
| "release_pages (v # vs) pm s =
     (let pa = pmap_extract pm v s in
      if pa = PA_INVALID then release_pages vs pm s
      else case pmap_remove pm v s of (_, pm1, s1) \<Rightarrow>
        kbind (free_frame pa s1) (\<lambda>s2. release_pages vs pm1 s2))"

primrec release_anon_entries :: "vm_map_entry list \<Rightarrow> pmap \<Rightarrow> mstate \<Rightarrow> (pmap \<times> mstate) kres" where
  "release_anon_entries [] pm s = Ret (pm, s)"
| "release_anon_entries (e # es) pm s =
     (if \<not> has (vme_flags e) VME_F_ANON then release_anon_entries es pm s
      else kbind (release_pages (page_range (vme_start e) (vme_end e)) pm s)
             (\<lambda>(pm1, s1). release_anon_entries es pm1 s1))"

definition vm_map_release_anon :: "vm_map \<Rightarrow> pmap \<Rightarrow> mstate \<Rightarrow> (pmap \<times> mstate) kres" where
  "vm_map_release_anon m pm s = release_anon_entries (vm_entries m) pm s"

text \<open>The check of \<open>vm_map_release\<close>: how far the range is covered by anonymous entries.\<close>

fun release_covered :: "vm_map_entry list \<Rightarrow> u64 \<Rightarrow> u64 \<Rightarrow> u64" where
  "release_covered [] end covered = covered"
| "release_covered (e # es) end covered =
     (if \<not> covered < end then covered
      else if vme_end e \<le> covered then release_covered es end covered
      else if vme_start e > covered then covered
      else if \<not> has (vme_flags e) VME_F_ANON then covered
      else release_covered es end (vme_end e))"

definition vm_map_release ::
  "bool \<Rightarrow> bool \<Rightarrow> vm_map \<Rightarrow> pmap \<Rightarrow> u64 \<Rightarrow> u64 \<Rightarrow> vo_store \<Rightarrow> mstate \<Rightarrow>
   (bool \<times> vm_map \<times> pmap \<times> vo_store \<times> mstate) kres" where
  "vm_map_release ok1 ok2 m pm va sz st s =
     (if sz = 0 then Ret (False, m, pm, st, s)
      else if \<not> page_aligned va \<or> \<not> page_aligned sz then Ret (False, m, pm, st, s)
      else let end = add64 va sz in
      if end < va then Ret (False, m, pm, st, s)
      else if va < vm_lo m \<or> end > vm_hi m then Ret (False, m, pm, st, s)
      else if release_covered (vm_entries m) end va < end then Ret (False, m, pm, st, s)
      else kbind (vm_map_clip_locked ok1 m va st) (\<lambda>(m1, st1, r1).
        if \<not> r1 then Ret (False, m1, pm, st1, s)
        else kbind (vm_map_clip_locked ok2 m1 end st1) (\<lambda>(m2, st2, r2).
          if \<not> r2 then Ret (False, m2, pm, st2, s)
          else kbind (release_pages (page_range va end) pm s) (\<lambda>(pm1, s1).
            case vm_map_remove m2 va sz st2 of (m3, st3, _) \<Rightarrow> Ret (True, m3, pm1, st3, s1)))))"

section \<open>Sharing on fork\<close>

text \<open>The inner loop of \<open>vm_map_fork_share\<close> over the pages of one entry.\<close>

primrec fork_pages ::
  "u64 list \<Rightarrow> bool \<Rightarrow> bool \<Rightarrow> 8 word \<Rightarrow> pmap \<Rightarrow> pmap \<Rightarrow> mstate \<Rightarrow>
   (bool \<times> pmap \<times> pmap \<times> mstate) kres" where
  "fork_pages [] owned writable prot spm dpm s = Ret (True, spm, dpm, s)"
| "fork_pages (va # vas) owned writable prot spm dpm s =
     (let pa = pmap_extract spm va s in
      if pa = PA_INVALID then fork_pages vas owned writable prot spm dpm s
      else kbind (if owned then kbind (pmm_page_ref pa (ms_pmm s)) (\<lambda>a. Ret (s\<lparr>ms_pmm := a\<rparr>)) else Ret s)
        (\<lambda>s1. kbind (pmap_enter dpm va pa (ucast prot) s1) (\<lambda>(r, dpm1, s2).
           if \<not> r then
             kbind (if owned then free_frame pa s2 else Ret s2) (\<lambda>s3. Ret (False, spm, dpm1, s3))
           else if writable then
             kbind (pmap_enter spm va pa (ucast prot) s2) (\<lambda>(r2, spm1, s3).
               if \<not> r2 then Ret (False, spm1, dpm1, s3)
               else fork_pages vas owned writable prot spm1 dpm1 s3)
           else fork_pages vas owned writable prot spm dpm1 s2)))"

text \<open>The outer loop, over the positions of the source's entries.\<close>

primrec fork_entries ::
  "nat list \<Rightarrow> (nat \<Rightarrow> bool) \<Rightarrow> vm_map \<Rightarrow> pmap \<Rightarrow> vm_map \<Rightarrow> pmap \<Rightarrow> vo_store \<Rightarrow> mstate \<Rightarrow>
   (bool \<times> vm_map \<times> pmap \<times> vm_map \<times> pmap \<times> vo_store \<times> mstate) kres" where
  "fork_entries [] ok src spm dst dpm st s = Ret (True, src, spm, dst, dpm, st, s)"
| "fork_entries (i # is) ok src spm dst dpm st s =
     (let e = vm_entries src ! i;
          writable = has (vme_prot e) VM_PROT_WRITE;
          flags = (if writable then vme_flags e OR VME_F_COW else vme_flags e);
          prot = (if writable then vme_prot e AND NOT VM_PROT_WRITE else vme_prot e);
          st1 = vm_object_ref (vme_object e) st
      in case vm_map_enter_backed (ok i) dst (vme_start e) (vme_end e - vme_start e) (vme_prot e) flags
                (vme_object e) (vme_offset e) of
           (dst1, r) \<Rightarrow>
             if \<not> r then Ret (False, src, spm, dst1, dpm, vm_object_deref (vme_object e) st1, s)
             else let src1 = src\<lparr>vm_entries := (vm_entries src)[i := e\<lparr>vme_flags := flags\<rparr>]\<rparr>;
                      owned = has flags VME_F_ANON
                  in kbind (fork_pages (page_range (vme_start e) (vme_end e)) owned writable prot spm dpm s)
                       (\<lambda>(r2, spm1, dpm1, s1).
                          if \<not> r2 then Ret (False, src1, spm1, dst1, dpm1, st1, s1)
                          else fork_entries is ok src1 spm1 dst1 dpm1 st1 s1))"

definition vm_map_fork_share ::
  "(nat \<Rightarrow> bool) \<Rightarrow> vm_map \<Rightarrow> pmap \<Rightarrow> vm_map \<Rightarrow> pmap \<Rightarrow> vo_store \<Rightarrow> mstate \<Rightarrow>
   (bool \<times> vm_map \<times> pmap \<times> vm_map \<times> pmap \<times> vo_store \<times> mstate) kres" where
  "vm_map_fork_share ok src spm dst dpm st s =
     fork_entries [0..<length (vm_entries src)] ok src spm dst dpm st s"

section \<open>Payloads of pages\<close>

definition page_from_bytes :: "(nat \<Rightarrow> 8 word) \<Rightarrow> u64 \<Rightarrow> u64 \<Rightarrow> mstate \<Rightarrow> u64 \<times> mstate" where
  "page_from_bytes src off sz s =
     (case pmm_alloc_page (ms_pmm s) of (a, pa) \<Rightarrow>
        if pa = PA_INVALID then (PA_INVALID, s\<lparr>ms_pmm := a\<rparr>)
        else let have = (if sz - off > PAGE_SIZE then PAGE_SIZE else sz - off)
             in (pa, fill_frame (page_index pa) (\<lambda>i. if i < have then src (off + i) else 0)
                       (s\<lparr>ms_pmm := a\<rparr>)))"

primrec vm_pages_release :: "u64 list \<Rightarrow> mstate \<Rightarrow> mstate kres" where
  "vm_pages_release [] s = Ret s"
| "vm_pages_release (pa # pas) s =
     (if pa \<noteq> PA_INVALID then kbind (free_frame pa s) (vm_pages_release pas)
      else vm_pages_release pas s)"

text \<open>The loop of \<open>vm_pages_capture_kernel\<close>; \<open>got\<close> holds the pages filled so far.\<close>

primrec capture_kernel_loop ::
  "nat list \<Rightarrow> (nat \<Rightarrow> 8 word) \<Rightarrow> u64 \<Rightarrow> u64 list \<Rightarrow> mstate \<Rightarrow> (u64 list option \<times> mstate) kres" where
  "capture_kernel_loop [] src sz got s = Ret (Some got, s)"
| "capture_kernel_loop (i # is) src sz got s =
     (case page_from_bytes src (i * PAGE_SIZE) sz s of (pa, s1) \<Rightarrow>
        if pa = PA_INVALID then kbind (vm_pages_release got s1) (\<lambda>s2. Ret (None, s2))
        else capture_kernel_loop is src sz (got @ [pa]) s1)"

definition vm_pages_capture_kernel ::
  "(nat \<Rightarrow> 8 word) \<Rightarrow> u64 \<Rightarrow> nat \<Rightarrow> mstate \<Rightarrow> (u64 list option \<times> mstate) kres" where
  "vm_pages_capture_kernel src sz max_pages s =
     (if sz = 0 then Ret (None, s)
      else let npages = PA_ROUND_UP sz div PAGE_SIZE
           in if npages > max_pages then Ret (None, s)
              else capture_kernel_loop [0..<npages] src sz [] s)"

text \<open>
  The first pass of \<open>vm_pages_capture_user\<close>: claim the pages that can be shared. The list holds
  \<open>PA_INVALID\<close> where a page was not taken.
\<close>

primrec capture_shared ::
  "nat list \<Rightarrow> u64 \<Rightarrow> u64 \<Rightarrow> 8 word \<Rightarrow> pmap \<Rightarrow> mstate \<Rightarrow> u64 list \<Rightarrow>
   (pmap \<times> mstate \<times> u64 list) kres" where
  "capture_shared [] addr sz prot pm s out = Ret (pm, s, out)"
| "capture_shared (i # is) addr sz prot pm s out =
     (if (i + 1) * PAGE_SIZE > sz then Ret (pm, s, out)
      else let va = add64 addr (i * PAGE_SIZE); pa = pmap_extract pm va s in
      if pa = PA_INVALID then capture_shared is addr sz prot pm s out
      else kbind (pmm_page_ref pa (ms_pmm s)) (\<lambda>a. let s1 = s\<lparr>ms_pmm := a\<rparr> in
        if has prot VM_PROT_WRITE then
          kbind (pmap_enter pm va pa (ucast (prot AND NOT VM_PROT_WRITE)) s1) (\<lambda>(r, pm1, s2).
            if \<not> r then kbind (free_frame pa s2) (\<lambda>s3. capture_shared is addr sz prot pm1 s3 out)
            else capture_shared is addr sz prot pm1 s2 (out[i := pa]))
        else capture_shared is addr sz prot pm s1 (out[i := pa])))"

text \<open>The second pass: copy what sharing could not take.\<close>

primrec capture_copied ::
  "nat list \<Rightarrow> (nat \<Rightarrow> 8 word) \<Rightarrow> u64 \<Rightarrow> u64 list \<Rightarrow> mstate \<Rightarrow> (u64 list option \<times> mstate) kres" where
  "capture_copied [] src sz out s = Ret (Some out, s)"
| "capture_copied (i # is) src sz out s =
     (if out ! i \<noteq> PA_INVALID then capture_copied is src sz out s
      else case page_from_bytes src (i * PAGE_SIZE) sz s of (pa, s1) \<Rightarrow>
        if pa = PA_INVALID then kbind (vm_pages_release (out[i := pa]) s1) (\<lambda>s2. Ret (None, s2))
        else capture_copied is src sz (out[i := pa]) s1)"

definition vm_pages_capture_user ::
  "(nat \<Rightarrow> 8 word) \<Rightarrow> (mstate \<Rightarrow> mstate) \<Rightarrow> vm_map \<Rightarrow> pmap \<Rightarrow> u64 \<Rightarrow> u64 \<Rightarrow> nat \<Rightarrow> mstate \<Rightarrow>
   (u64 list option \<times> vm_map \<times> pmap \<times> mstate) kres" where
  "vm_pages_capture_user src env m pm addr sz max_pages s =
     (if sz = 0 then Ret (None, m, pm, s)
      else let npages = PA_ROUND_UP sz div PAGE_SIZE in
      if npages > max_pages then Ret (None, m, pm, s)
      else let out = replicate npages PA_INVALID in
      kbind
        (if \<not> page_aligned addr then Ret (m, pm, s, out)
         else case lookup_index (vm_entries m) addr of
           None \<Rightarrow> Ret (m, pm, s, out)
         | Some i \<Rightarrow>
             let e = vm_entries m ! i in
             if has (vme_flags e) VME_F_ANON \<and> vme_end e \<ge> add64 addr (npages * PAGE_SIZE) then
               kbind (capture_shared [0..<npages] addr sz (vme_prot e) pm s out) (\<lambda>(pm1, s1, out1).
                 let taken = length (filter (\<lambda>pa. pa \<noteq> PA_INVALID) out1);
                     m1 = (if taken \<noteq> 0 \<and> has (vme_prot e) VM_PROT_WRITE
                           then m\<lparr>vm_entries := (vm_entries m)[i := e\<lparr>vme_flags := vme_flags e OR VME_F_COW\<rparr>]\<rparr>
                           else m)
                 in Ret (m1, pm1, s1, out1))
             else Ret (m, pm, s, out))
        (\<lambda>(m1, pm1, s1, out1).
           kbind (capture_copied [0..<npages] src sz out1 (env s1)) (\<lambda>(r, s2). Ret (r, m1, pm1, s2))))"

text \<open>The mapping loop of \<open>vm_pages_install\<close> and its undo loop.\<close>

primrec install_undo :: "nat \<Rightarrow> u64 \<Rightarrow> pmap \<Rightarrow> mstate \<Rightarrow> pmap \<times> mstate" where
  "install_undo 0 landing pm s = (pm, s)"
| "install_undo (Suc i) landing pm s =
     (case pmap_remove pm (landing + i * PAGE_SIZE) s of (_, pm1, s1) \<Rightarrow> install_undo i landing pm1 s1)"

primrec install_pages ::
  "u64 list \<Rightarrow> nat \<Rightarrow> u64 \<Rightarrow> pmap \<Rightarrow> mstate \<Rightarrow> (bool \<times> pmap \<times> mstate) kres" where
  "install_pages [] i landing pm s = Ret (True, pm, s)"
| "install_pages (pa # pas) i landing pm s =
     kbind (pmap_enter pm (landing + i * PAGE_SIZE) pa (VM_PROT_READ OR VM_PROT_USER) s) (\<lambda>(r, pm1, s1).
       if r then install_pages pas (Suc i) landing pm1 s1
       else case install_undo i landing pm1 s1 of (pm2, s2) \<Rightarrow> Ret (False, pm2, s2))"

definition vm_pages_install ::
  "bool \<Rightarrow> vm_map \<Rightarrow> pmap \<Rightarrow> u64 list \<Rightarrow> vo_store \<Rightarrow> mstate \<Rightarrow>
   (u64 option \<times> vm_map \<times> pmap \<times> vo_store \<times> mstate) kres" where
  "vm_pages_install ok m pm pas st s =
     (if pas = [] then Ret (None, m, pm, st, s)
      else let span = length pas * PAGE_SIZE in
      case vm_map_find_space m span of
        (m1, None) \<Rightarrow> Ret (None, m1, pm, st, s)
      | (m1, Some landing) \<Rightarrow>
          (case vm_map_enter ok m1 landing span (VM_PROT_READ OR VM_PROT_WRITE OR VM_PROT_USER)
                  (VME_F_ANON OR VME_F_COW) of
             (m2, r) \<Rightarrow>
               if \<not> r then Ret (None, m2, pm, st, s)
               else kbind (install_pages pas 0 landing pm s) (\<lambda>(r2, pm1, s1).
                      if r2 then Ret (Some landing, m2, pm1, st, s1)
                      else case vm_map_remove m2 landing span st of
                             (m3, st3, _) \<Rightarrow> Ret (None, m3, pm1, st3, s1))))"

section \<open>Mapping a program image\<close>

datatype vm_image_result = VM_IMAGE_OK | VM_IMAGE_NOMEM | VM_IMAGE_MAP

text \<open>
  The page loop of \<open>vm_map_image\<close>: \<open>src\<close> are the bytes of the image, which starts at the physical
  address \<open>img_pa\<close>; pages in \<open>[bs, be)\<close> are borrowed, the others filled.
\<close>

primrec image_pages ::
  "u64 list \<Rightarrow> (nat \<Rightarrow> 8 word) \<Rightarrow> u64 \<Rightarrow> u64 \<Rightarrow> u64 \<Rightarrow> u64 \<Rightarrow> u64 \<Rightarrow> 8 word \<Rightarrow> pmap \<Rightarrow> mstate \<Rightarrow>
   (vm_image_result \<times> pmap \<times> mstate) kres" where
  "image_pages [] src img_pa seg_va filesize bs be prot pm s = Ret (VM_IMAGE_OK, pm, s)"
| "image_pages (va # vas) src img_pa seg_va filesize bs be prot pm s =
     (if va \<ge> bs \<and> va < be then
        kbind (pmap_enter pm va (add64 img_pa (sub64 va seg_va)) (ucast prot) s) (\<lambda>(r, pm1, s1).
          if \<not> r then Ret (VM_IMAGE_MAP, pm1, s1)
          else image_pages vas src img_pa seg_va filesize bs be prot pm1 s1)
      else case pmm_alloc_page (ms_pmm s) of (a, pa) \<Rightarrow>
        if pa = PA_INVALID then Ret (VM_IMAGE_NOMEM, pm, s\<lparr>ms_pmm := a\<rparr>)
        else
          let lo = (if va > seg_va then va else seg_va);
              hi0 = va + PAGE_SIZE;
              hi = (if hi0 > add64 seg_va filesize then add64 seg_va filesize else hi0);
              s1 = fill_frame (page_index pa)
                     (\<lambda>i. if lo \<le> va + i \<and> va + i < hi then src (va + i - seg_va) else 0)
                     (s\<lparr>ms_pmm := a\<rparr>)
          in kbind (pmap_enter pm va pa (ucast prot) s1) (\<lambda>(r, pm1, s2).
               if \<not> r then kbind (free_frame pa s2) (\<lambda>s3. Ret (VM_IMAGE_MAP, pm1, s3))
               else image_pages vas src img_pa seg_va filesize bs be prot pm1 s2))"

text \<open>The range of pages that can be borrowed; empty when start and end are equal.\<close>

definition image_borrow :: "u64 \<Rightarrow> u64 \<Rightarrow> u64 \<Rightarrow> 8 word \<Rightarrow> u64 \<times> u64" where
  "image_borrow img_pa seg_va filesize prot =
     (let va_start = PA_ROUND_DOWN seg_va in
      if \<not> has prot VM_PROT_WRITE \<and> img_pa mod PAGE_SIZE = seg_va mod PAGE_SIZE
      then let bs = PA_ROUND_UP seg_va; be = PA_ROUND_DOWN (add64 seg_va filesize)
           in if be \<le> bs then (va_start, va_start) else (bs, be)
      else (va_start, va_start))"

definition image_entries ::
  "(nat \<Rightarrow> bool) \<Rightarrow> vm_map \<Rightarrow> u64 \<Rightarrow> u64 \<Rightarrow> u64 \<Rightarrow> u64 \<Rightarrow> 8 word \<Rightarrow> vm_map \<times> bool" where
  "image_entries ok m va_start va_end bs be prot =
     (if be > bs then
        case (if bs > va_start then vm_map_enter (ok 0) m va_start (bs - va_start) prot VME_F_ANON
              else (m, True)) of
          (m1, r1) \<Rightarrow>
            if \<not> r1 then (m1, False)
            else (case vm_map_enter (ok 1) m1 bs (be - bs) prot 0 of
                    (m2, r2) \<Rightarrow>
                      if \<not> r2 then (m2, False)
                      else if va_end > be then vm_map_enter (ok 2) m2 be (va_end - be) prot VME_F_ANON
                      else (m2, True))
      else vm_map_enter (ok 0) m va_start (sub64 va_end va_start) prot VME_F_ANON)"

definition vm_map_image ::
  "(nat \<Rightarrow> bool) \<Rightarrow> (nat \<Rightarrow> 8 word) \<Rightarrow> u64 \<Rightarrow> vm_map \<Rightarrow> pmap \<Rightarrow> u64 \<Rightarrow> u64 \<Rightarrow> u64 \<Rightarrow> 8 word \<Rightarrow> mstate \<Rightarrow>
   (vm_image_result \<times> vm_map \<times> pmap \<times> mstate) kres" where
  "vm_map_image ok src img_pa m pm seg_va vmsize filesize prot s =
     (if filesize > vmsize then Ret (VM_IMAGE_MAP, m, pm, s)
      else if vmsize = 0 then Ret (VM_IMAGE_OK, m, pm, s)
      else let va_start = PA_ROUND_DOWN seg_va;
               va_end = PA_ROUND_UP (add64 seg_va vmsize)
      in case image_borrow img_pa seg_va filesize prot of (bs, be) \<Rightarrow>
         (case image_entries ok m va_start va_end bs be prot of (m1, r) \<Rightarrow>
            if \<not> r then Ret (VM_IMAGE_MAP, m1, pm, s)
            else kbind (image_pages (page_range va_start va_end) src img_pa seg_va filesize bs be prot pm s)
                   (\<lambda>(res, pm1, s1). Ret (res, m1, pm1, s1))))"

section \<open>The page fault\<close>

datatype vm_fault_result = VM_FAULT_OK | VM_FAULT_NOMAP | VM_FAULT_PROT | VM_FAULT_IO | VM_FAULT_NOMEM

type_synonym vm_state = "vm_map \<times> pmap \<times> vo_store \<times> mstate"

text \<open>
  The copy of a shared page, from the point where the lock is dropped. \<open>env1\<close> and \<open>env2\<close> are what
  other threads do before the copy and between the copy and the second look.
\<close>

definition fault_cow ::
  "(vm_state \<Rightarrow> vm_state) \<Rightarrow> (vm_state \<Rightarrow> vm_state) \<Rightarrow> u64 \<Rightarrow> u64 \<Rightarrow> vm_state \<Rightarrow>
   (vm_fault_result \<times> vm_state) kres" where
  "fault_cow env1 env2 page old vs =
     (case env1 vs of (m, pm, st, s) \<Rightarrow>
      case pmm_alloc_page (ms_pmm s) of (a, pa) \<Rightarrow>
        if pa = PA_INVALID then Ret (VM_FAULT_NOMEM, m, pm, st, s\<lparr>ms_pmm := a\<rparr>)
        else
          let s1 = s\<lparr>ms_pmm := a\<rparr>;
              s2 = s1\<lparr>ms_mem := (ms_mem s1)(page_index pa :=
                     (\<lambda>i. if i < 512 then ms_mem s1 (page_index old) i else ms_mem s1 (page_index pa) i))\<rparr>
          in case env2 (m, pm, st, s2) of (m3, pm3, st3, s3) \<Rightarrow>
            (case vm_map_lookup m3 page of
               None \<Rightarrow> kbind (free_frame pa s3) (\<lambda>s4. Ret (VM_FAULT_OK, m3, pm3, st3, s4))
             | Some e \<Rightarrow>
                 if pmap_extract pm3 page s3 \<noteq> old
                 then kbind (free_frame pa s3) (\<lambda>s4. Ret (VM_FAULT_OK, m3, pm3, st3, s4))
                 else kbind (pmap_enter pm3 page pa (ucast (vme_prot e)) s3) (\<lambda>(r, pm4, s4).
                   if \<not> r then kbind (free_frame pa s4) (\<lambda>s5. Ret (VM_FAULT_NOMEM, m3, pm4, st3, s5))
                   else kbind (free_frame old s4) (\<lambda>s5. Ret (VM_FAULT_OK, m3, pm4, st3, s5)))))"

text \<open>Filling a page of a lazy entry, from the point where the lock is dropped.\<close>

definition fault_fill ::
  "(fs_handle \<Rightarrow> u64 \<Rightarrow> (nat \<Rightarrow> 64 word) \<Rightarrow> nat \<Rightarrow> bool \<times> nat \<times> (nat \<Rightarrow> 64 word)) \<Rightarrow>
   (vm_state \<Rightarrow> vm_state) \<Rightarrow> (vm_state \<Rightarrow> vm_state) \<Rightarrow> u64 \<Rightarrow> nat option \<Rightarrow> u64 \<Rightarrow> vm_state \<Rightarrow>
   (vm_fault_result \<times> vm_state) kres" where
  "fault_fill fs_pread env1 env2 page obj off vs =
     (case env1 vs of (m, pm, st, s) \<Rightarrow>
      case pmm_alloc_page (ms_pmm s) of (a, pa) \<Rightarrow>
        if pa = PA_INVALID then Ret (VM_FAULT_NOMEM, m, pm, vm_object_deref obj st, s\<lparr>ms_pmm := a\<rparr>)
        else
          let f = page_index pa;
              s1 = zero_frame f (s\<lparr>ms_pmm := a\<rparr>);
              (rv, page1, st1) = (if obj \<noteq> None then vm_object_page fs_pread obj off (ms_mem s1 f) st
                                  else (0, ms_mem s1 f, st));
              s2 = s1\<lparr>ms_mem := (ms_mem s1)(f := page1)\<rparr>
          in if rv \<noteq> 0
             then kbind (free_frame pa s2) (\<lambda>s3. Ret (VM_FAULT_IO, m, pm, vm_object_deref obj st1, s3))
             else case env2 (m, pm, st1, s2) of (m3, pm3, st3, s3) \<Rightarrow>
               (case vm_map_lookup m3 page of
                  None \<Rightarrow> kbind (free_frame pa s3) (\<lambda>s4.
                            Ret (VM_FAULT_NOMAP, m3, pm3, vm_object_deref obj st3, s4))
                | Some e \<Rightarrow>
                    if \<not> has (vme_flags e) VME_F_LAZY
                    then kbind (free_frame pa s3) (\<lambda>s4.
                           Ret (VM_FAULT_NOMAP, m3, pm3, vm_object_deref obj st3, s4))
                    else if pmap_extract pm3 page s3 \<noteq> PA_INVALID
                    then kbind (free_frame pa s3) (\<lambda>s4.
                           Ret (VM_FAULT_OK, m3, pm3, vm_object_deref obj st3, s4))
                    else kbind (pmap_enter pm3 page pa (ucast (vme_prot e)) s3) (\<lambda>(r, pm4, s4).
                      if \<not> r
                      then kbind (free_frame pa s4) (\<lambda>s5.
                             Ret (VM_FAULT_NOMEM, m3, pm4, vm_object_deref obj st3, s5))
                      else Ret (VM_FAULT_OK, m3, pm4, vm_object_deref obj st3, s4))))"

definition vm_fault ::
  "(fs_handle \<Rightarrow> u64 \<Rightarrow> (nat \<Rightarrow> 64 word) \<Rightarrow> nat \<Rightarrow> bool \<times> nat \<times> (nat \<Rightarrow> 64 word)) \<Rightarrow>
   (vm_state \<Rightarrow> vm_state) \<Rightarrow> (vm_state \<Rightarrow> vm_state) \<Rightarrow> u64 \<Rightarrow> bool \<Rightarrow> vm_state \<Rightarrow>
   (vm_fault_result \<times> vm_state) kres" where
  "vm_fault fs_pread env1 env2 va write vs =
     (case vs of (m, pm, st, s) \<Rightarrow>
      let page = PA_ROUND_DOWN va in
      case vm_map_lookup m page of
        None \<Rightarrow> Ret (VM_FAULT_NOMAP, vs)
      | Some e \<Rightarrow>
          if vme_prot e AND (VM_PROT_READ OR VM_PROT_WRITE OR VM_PROT_EXEC) = 0 \<or>
             write \<and> \<not> has (vme_prot e) VM_PROT_WRITE
          then Ret (VM_FAULT_PROT, vs)
          else let old = pmap_extract pm page s in
          if old \<noteq> PA_INVALID then
            if \<not> write \<or> \<not> has (vme_flags e) VME_F_COW then Ret (VM_FAULT_PROT, vs)
            else KASSERT (has (vme_flags e) VME_F_ANON)
              ''copy-on-write on a range whose frames are borrowed''
              (if pmm_page_refs old (ms_pmm s) = 1
               then kbind (pmap_enter pm page old (ucast (vme_prot e)) s) (\<lambda>(r, pm1, s1).
                      Ret (if r then VM_FAULT_OK else VM_FAULT_NOMEM, m, pm1, st, s1))
               else fault_cow env1 env2 page old vs)
          else if \<not> has (vme_flags e) VME_F_LAZY then Ret (VM_FAULT_NOMAP, vs)
          else fault_fill fs_pread env1 env2 page (vme_object e)
                 (add64 (vme_offset e) (page - vme_start e))
                 (m, pm, vm_object_ref (vme_object e) st, s))"

end
