(* ===== verification/Vm_Fault.thy ===== *)
theory Vm_Fault
  imports Vm
begin

unbundle bit_operations_syntax

text \<open>
  The page fault of \<open>vm.c\<close> with its interference. \<open>task_ok\<close> is the invariant of a task's map, page tables
  and frames; \<open>harmless\<close> is what is assumed of other threads while the fault has dropped the map lock.
  The section \<open>The page fault keeps the accounts\<close> follows one reference through every branch of
  \<open>vm_fault\<close>; the last sections state the two claims and evaluate them on a task with one shared page.
\<close>

section \<open>The state of a task under fault\<close>

text \<open>
  A page of an anonymous entry never maps a borrowed frame, and only anonymous entries are
  copy-on-write.
\<close>

definition anon_ok :: "vm_map \<Rightarrow> mstate \<Rightarrow> nat \<Rightarrow> bool" where
  "anon_ok m s r \<longleftrightarrow> (\<forall>e \<in> set (vm_entries m).
     (has (vme_flags e) VME_F_COW \<longrightarrow> has (vme_flags e) VME_F_ANON) \<and>
     (has (vme_flags e) VME_F_ANON \<longrightarrow> (\<forall>va w. covers e va \<longrightarrow> page_aligned va \<longrightarrow>
        pmap_leaf s r va = Some w \<longrightarrow> frame_of (ms_pmm s) (leaf_frame w) \<noteq> Reserved)))"

text \<open>
  A task whose address space has root \<open>r\<close>, among the address spaces \<open>R\<close>; \<open>B\<close> are the frames the
  allocator does not manage, \<open>h\<close> the references held outside the page tables.
\<close>

definition task_ok :: "nat set \<Rightarrow> nat set \<Rightarrow> nat \<Rightarrow> (nat \<Rightarrow> nat) \<Rightarrow> vm_state \<Rightarrow> bool" where
  "task_ok B R r h vs = (case vs of (m, pm, st, s) \<Rightarrow>
     accounted h s R \<and> r \<in> R \<and> pml4_frame pm = r \<and> vm_map_wf m \<and> VM_USER_VA_LO \<le> vm_lo m \<and> vm_hi m \<le> VM_USER_VA_HI \<and>
     (\<forall>f. frame_of (ms_pmm s) f = Reserved \<longleftrightarrow> f \<in> B) \<and> anon_ok m s r)"

lemma task_okD:
  assumes "task_ok B R r h (m, pm, st, s)"
  shows "accounted h s R" "r \<in> R" "pml4_frame pm = r" "pml4_frame pm \<in> R" "vm_map_wf m"
    "VM_USER_VA_LO \<le> vm_lo m" "vm_hi m \<le> VM_USER_VA_HI"
    "frame_of (ms_pmm s) f = Reserved \<longleftrightarrow> f \<in> B" "anon_ok m s r"
  using assms by (auto simp: task_ok_def)

lemma task_lookup:
  assumes "task_ok B R r h (m, pm, st, s)" "vm_map_lookup m va = Some e"
  shows "e \<in> set (vm_entries m)" "covers e va" "user_va va"
proof -
  have f: "find (\<lambda>e. covers e va) (vm_entries m) = Some e"
    using vm_map_lookup_find [OF task_okD(5) [OF assms(1)]] assms(2) by simp
  then show e: "e \<in> set (vm_entries m)" "covers e va" by (auto simp: find_Some_iff)
  have "entry_ok (vm_lo m) (vm_hi m) e"
    using task_okD(5) [OF assms(1)] e(1) by (auto simp: vm_map_wf_def entries_ok_def)
  then show "user_va va"
    using e(2) task_okD(6,7) [OF assms(1)]
    by (auto simp: entry_ok_def covers_def user_va_def VM_USER_VA_LO_def VM_USER_VA_HI_def)
qed

lemma pte_pa_lt: "pte_pa e < 2 ^ 52"
proof -
  have "take_bit 52 (e AND PTE_PA_MASK) = e AND PTE_PA_MASK"
    by (rule bit_eqI) (auto simp: bit_take_bit_iff bit_and_iff bit_PA_MASK)
  then have "take_bit 52 (pte_pa e) = pte_pa e" by (metis pte_pa_def unsigned_take_bit_eq)
  then show ?thesis by (metis take_bit_nat_less_exp)
qed

lemma pte_pa_aligned: "page_aligned (pte_pa e)"
  using entry_pa_aligned by (simp add: pte_pa_def)

lemma task_extract:
  assumes "task_ok B R r h (m, pm, st, s)" "user_va va" "page_aligned va"
  shows "pmap_extract pm va s = (case pmap_leaf s r va of None \<Rightarrow> PA_INVALID | Some w \<Rightarrow> pte_pa w)"
  using asp.translate_law [OF accountedD(2) [OF task_okD(1) [OF assms(1)]] task_okD(4) [OF assms(1)] assms(2,3)]
    task_okD(3) [OF assms(1)] by simp

lemma task_extract_valid:
  assumes "task_ok B R r h (m, pm, st, s)" "user_va va" "page_aligned va" "pmap_extract pm va s = pa" "pa \<noteq> PA_INVALID"
  obtains w where "pmap_leaf s r va = Some w" "pte_pa w = pa" "leaf_frame w = page_index pa" "page_aligned pa" "pa < 2 ^ 52"
  using task_extract [OF assms(1-3)] assms(4,5) pte_pa_lt pte_pa_aligned
  by (cases "pmap_leaf s r va") (auto simp: leaf_frame_def)

lemma reserved_undisturbed:
  assumes "undisturbed s R s'"
  shows "frame_of (ms_pmm s') f = Reserved \<longleftrightarrow> frame_of (ms_pmm s) f = Reserved"
  using assms by (cases "frame_of (ms_pmm s) f = Free") (auto simp: undisturbed_def split: if_splits)

lemma anon_okD:
  assumes "anon_ok m s r" "e \<in> set (vm_entries m)"
  shows "has (vme_flags e) VME_F_COW \<Longrightarrow> has (vme_flags e) VME_F_ANON"
    "has (vme_flags e) VME_F_ANON \<Longrightarrow> covers e va \<Longrightarrow> page_aligned va \<Longrightarrow> pmap_leaf s r va = Some w \<Longrightarrow>
     frame_of (ms_pmm s) (leaf_frame w) \<noteq> Reserved"
  using assms by (auto simp: anon_ok_def)

text \<open>A step of the machine that keeps every leaf of the task, or sets one page to a counted frame.\<close>

lemma task_machine:
  assumes ok: "task_ok B R r h (m, pm, st, s)" and acc: "accounted h' s' R" and pm: "pml4_frame pm' = r"
    and res: "\<And>f. frame_of (ms_pmm s') f = Reserved \<longleftrightarrow> frame_of (ms_pmm s) f = Reserved"
    and leaf: "\<And>x. user_va x \<Longrightarrow> page_aligned x \<Longrightarrow> pmap_leaf s' r x = pmap_leaf s r x \<or>
      (\<exists>w. pmap_leaf s' r x = Some w \<and> frame_of (ms_pmm s) (leaf_frame w) \<noteq> Reserved)"
  shows "task_ok B R r h' (m, pm', st', s')"
proof -
  have "anon_ok m s' r"
    unfolding anon_ok_def
  proof (intro ballI conjI impI allI)
    fix e assume e: "e \<in> set (vm_entries m)"
    show "has (vme_flags e) VME_F_ANON" if "has (vme_flags e) VME_F_COW"
      using anon_okD(1) [OF task_okD(9) [OF ok] e that] .
    fix va w assume a: "has (vme_flags e) VME_F_ANON" "covers e va" "page_aligned va" "pmap_leaf s' r va = Some w"
    have "entry_ok (vm_lo m) (vm_hi m) e"
      using task_okD(5) [OF ok] e by (auto simp: vm_map_wf_def entries_ok_def)
    then have "user_va va"
      using a(2) task_okD(6,7) [OF ok]
      by (auto simp: entry_ok_def covers_def user_va_def VM_USER_VA_LO_def VM_USER_VA_HI_def)
    then show "frame_of (ms_pmm s') (leaf_frame w) \<noteq> Reserved"
      using leaf [OF _ a(3)] a res anon_okD(2) [OF task_okD(9) [OF ok] e a(1-3)] by fastforce
  qed
  then show ?thesis
    using task_okD [OF ok] acc pm res by (simp add: task_ok_def)
qed

lemma task_undisturbed:
  assumes ok: "task_ok B R r h (m, pm, st, s)" and acc: "accounted h' s' R" and pm: "pml4_frame pm' = r"
    and und: "undisturbed s R s'"
    and leaf: "\<forall>r \<in> R. \<forall>x. user_va x \<longrightarrow> pmap_leaf s' r x =
      (if b \<and> r = root \<and> x div PAGE_SIZE = va div PAGE_SIZE then w else pmap_leaf s r x)"
    and w: "\<And>e. w = Some e \<Longrightarrow> frame_of (ms_pmm s) (leaf_frame e) \<noteq> Reserved"
    and none: "w = None \<Longrightarrow> \<not> b"
  shows "task_ok B R r h' (m, pm', st', s')"
proof (rule task_machine [OF ok acc pm])
  show "frame_of (ms_pmm s') f = Reserved \<longleftrightarrow> frame_of (ms_pmm s) f = Reserved" for f
    by (rule reserved_undisturbed [OF und])
  fix x assume "user_va x"
  then show "pmap_leaf s' r x = pmap_leaf s r x \<or>
      (\<exists>w. pmap_leaf s' r x = Some w \<and> frame_of (ms_pmm s) (leaf_frame w) \<noteq> Reserved)"
    using leaf task_okD(2) [OF ok] w none by (cases w) auto
qed

lemma task_store: "task_ok B R r h (m, pm, st, s) \<Longrightarrow> task_ok B R r h (m, pm, st', s)"
  by (simp add: task_ok_def)

lemma task_alloc:
  assumes ok: "task_ok B R r h (m, pm, st, s)" and al: "pmm_alloc_page (ms_pmm s) = (a, pa)" "pa \<noteq> PA_INVALID"
    and s': "ms_pmm s' = a" "\<forall>g. g \<noteq> page_index pa \<longrightarrow> ms_mem s' g = ms_mem s g"
  shows "task_ok B R r (h(page_index pa := 1)) (m, pm, st', s')"
    "h (page_index pa) = 0" "page_aligned pa" "pa < 2 ^ 52" "page_index pa \<notin> B"
proof -
  note al' = acc_alloc [OF task_okD(1) [OF ok] al s']
  show "h (page_index pa) = 0" "page_aligned pa" "pa < 2 ^ 52" using al'(2-4) by blast+
  show "page_index pa \<notin> B" using al'(5) task_okD(8) [OF ok, of "page_index pa"] by simp
  show "task_ok B R r (h(page_index pa := 1)) (m, pm, st', s')"
  proof (rule task_machine [OF ok al'(1) task_okD(3) [OF ok]])
    show "frame_of (ms_pmm s') f = Reserved \<longleftrightarrow> frame_of (ms_pmm s) f = Reserved" for f
      using al'(5,7) by simp
    show "pmap_leaf s' r x = pmap_leaf s r x \<or>
      (\<exists>w. pmap_leaf s' r x = Some w \<and> frame_of (ms_pmm s) (leaf_frame w) \<noteq> Reserved)" if "user_va x" for x
      using al'(10) [OF task_okD(2) [OF ok] that] by blast
  qed
qed

lemma task_alloc_none:
  assumes "task_ok B R r h (m, pm, st, s)" "pmm_alloc_page (ms_pmm s) = (a, PA_INVALID)"
  shows "s\<lparr>ms_pmm := a\<rparr> = s"
  using pf.alloc_none [OF accountedD(3) [OF task_okD(1) [OF assms(1)]] assms(2)] by simp

lemma task_free:
  assumes ok: "task_ok B R r h (m, pm, st, s)" and h: "0 < h (page_index pa)" and pa: "page_aligned pa"
  obtains s' where "free_frame pa s = Ret s'"
    "task_ok B R r (h(page_index pa := h (page_index pa) - 1)) (m, pm, st', s')"
proof -
  from acc_free [OF task_okD(1) [OF ok] h pa]
  obtain s' n where s': "free_frame pa s = Ret s'" "accounted (h(page_index pa := h (page_index pa) - 1)) s' R"
    "frame_of (ms_pmm s) (page_index pa) = Owned n"
    "frame_of (ms_pmm s') = (frame_of (ms_pmm s))(page_index pa := if n = 1 then Free else Owned (n - 1))"
    "\<And>r x. r \<in> R \<Longrightarrow> user_va x \<Longrightarrow> pmap_leaf s' r x = pmap_leaf s r x"
    by metis
  have "task_ok B R r (h(page_index pa := h (page_index pa) - 1)) (m, pm, st', s')"
  proof (rule task_machine [OF ok s'(2) task_okD(3) [OF ok]])
    show "frame_of (ms_pmm s') f = Reserved \<longleftrightarrow> frame_of (ms_pmm s) f = Reserved" for f
      using s'(3,4) by simp
    show "pmap_leaf s' r x = pmap_leaf s r x \<or>
      (\<exists>w. pmap_leaf s' r x = Some w \<and> frame_of (ms_pmm s) (leaf_frame w) \<noteq> Reserved)" if "user_va x" for x
      using s'(5) [OF task_okD(2) [OF ok] that] by blast
  qed
  then show thesis using that s'(1) by blast
qed

lemma task_drop:
  assumes "task_ok B R r (h(page_index pa := Suc (h (page_index pa)))) (m, pm, st, s)" "page_aligned pa"
  obtains s' where "free_frame pa s = Ret s'" "task_ok B R r h (m, pm, st', s')"
proof -
  let ?h = "h(page_index pa := Suc (h (page_index pa)))"
  have "0 < ?h (page_index pa)" "?h(page_index pa := ?h (page_index pa) - 1) = h" by simp_all
  then show thesis using task_free [OF assms(1) _ assms(2), of st'] that by metis
qed

text \<open>Giving back a frame that was taken for this fault alone.\<close>

lemma task_undo:
  assumes "task_ok B R r (h(page_index pa := 1)) (m, pm, st, s)" "h (page_index pa) = 0" "page_aligned pa"
  obtains s' where "free_frame pa s = Ret s'" "task_ok B R r h (m, pm, st', s')"
proof (rule task_drop)
  show "task_ok B R r (h(page_index pa := Suc (h (page_index pa)))) (m, pm, st, s)" using assms(1,2) by simp
qed (rule assms(3), rule that)

text \<open>Mapping the frame taken for this fault, which hands back what the page mapped.\<close>

lemma task_enter:
  assumes ok: "task_ok B R r (h(page_index pa := 1)) (m, pm, st, s)" and h: "h (page_index pa) = 0"
    and va: "user_va va" "page_aligned va" and pa: "page_aligned pa" "pa < 2 ^ 52"
  obtains (entered) pm' s' where "pmap_enter pm va pa prot s = Ret (True, pm', s')"
      "task_ok B R r (take_over s r va h) (m, pm', st', s')"
      "pmap_leaf s' r va = Some (leaf_pte pa prot)"
  | (full) pm' s' where "pmap_enter pm va pa prot s = Ret (False, pm', s')"
      "task_ok B R r (h(page_index pa := 1)) (m, pm', st', s')"
proof -
  note r = task_okD(3) [OF ok]
  have hp: "0 < (h(page_index pa := 1)) (page_index pa)" by simp
  have less: "(h(page_index pa := 1))(page_index pa := (h(page_index pa := 1)) (page_index pa) - 1) = h"
    using h by (simp add: fun_upd_idem)
  have own: "frame_of (ms_pmm s) (page_index pa) \<noteq> Reserved"
    using accountedD(6) [OF task_okD(1) [OF ok] hp] by auto
  have "0 < (h(page_index pa := 1)) (page_index pa) \<or>
      frame_of (ms_pmm s) (page_index pa) = Reserved \<and> page_index pa \<notin> tables s R user_paths" using hp by blast
  note enter = acc_enter [OF task_okD(1) [OF ok] task_okD(4) [OF ok] va pa this, of prot, unfolded r less]
  show thesis
  proof (rule enter)
    fix pm' s'
    assume e: "pmap_enter pm va pa prot s = Ret (True, pm', s')" "pml4_frame pm' = r" "undisturbed s R s'"
      "accounted (take_over s r va h) s' R"
      "\<forall>r' \<in> R. \<forall>x. user_va x \<longrightarrow> pmap_leaf s' r' x =
        (if r' = r \<and> x div PAGE_SIZE = va div PAGE_SIZE then Some (leaf_pte pa prot) else pmap_leaf s r' x)"
    have leaf: "\<forall>r' \<in> R. \<forall>x. user_va x \<longrightarrow> pmap_leaf s' r' x =
        (if True \<and> r' = r \<and> x div PAGE_SIZE = va div PAGE_SIZE then Some (leaf_pte pa prot) else pmap_leaf s r' x)"
      using e(5) by simp
    have "task_ok B R r (take_over s r va h) (m, pm', st', s')"
      using own leaf_frame_pte [OF pa] by (intro task_undisturbed [OF ok e(4,2,3) leaf]) auto
    moreover have "pmap_leaf s' r va = Some (leaf_pte pa prot)" using e(5) va task_okD(2) [OF ok] by simp
    ultimately show thesis using entered [OF e(1)] by blast
  next
    fix pm' s'
    assume e: "pmap_enter pm va pa prot s = Ret (False, pm', s')" "pml4_frame pm' = r" "undisturbed s R s'"
      "accounted (h(page_index pa := 1)) s' R" "\<forall>r \<in> R. \<forall>x. user_va x \<longrightarrow> pmap_leaf s' r x = pmap_leaf s r x"
    have leaf: "\<forall>r' \<in> R. \<forall>x. user_va x \<longrightarrow> pmap_leaf s' r' x =
        (if False \<and> r' = r \<and> x div PAGE_SIZE = va div PAGE_SIZE then None else pmap_leaf s r' x)"
      using e(5) by simp
    have "task_ok B R r (h(page_index pa := 1)) (m, pm', st', s')"
      by (rule task_undisturbed [OF ok e(4,2,3) leaf]) auto
    then show thesis using full [OF e(1)] by blast
  qed
qed

section \<open>The page fault keeps the accounts\<close>

text \<open>What other threads may do while the fault holds no lock: anything that keeps every account.\<close>

definition harmless :: "nat set \<Rightarrow> nat set \<Rightarrow> nat \<Rightarrow> (vm_state \<Rightarrow> vm_state) \<Rightarrow> bool" where
  "harmless B R r env \<longleftrightarrow> (\<forall>h vs. task_ok B R r h vs \<longrightarrow> task_ok B R r h (env vs))"

lemma harmlessD: "harmless B R r env \<Longrightarrow> task_ok B R r h vs \<Longrightarrow> task_ok B R r h (env vs)"
  unfolding harmless_def by blast

lemma copy_page_alloc:
  assumes "task_ok B R r h (m, pm, st, s)" "pmm_alloc_page (ms_pmm s) = (a, pa)" "pa \<noteq> PA_INVALID"
  shows "task_ok B R r (h(page_index pa := 1))
    (m, pm, st', s\<lparr>ms_pmm := a, ms_mem := (ms_mem s)(page_index pa := c)\<rparr>)"
    "h (page_index pa) = 0" "page_aligned pa" "pa < 2 ^ 52"
  using task_alloc [OF assms, of "s\<lparr>ms_pmm := a, ms_mem := (ms_mem s)(page_index pa := c)\<rparr>"] by simp_all

lemma fault_cow_ok:
  assumes ok: "task_ok B R r h vs" and env: "harmless B R r env1" "harmless B R r env2"
    and page: "user_va page" "page_aligned page" and old: "page_index old \<notin> B" "page_aligned old" "old \<noteq> PA_INVALID"
  shows "\<exists>res vs'. fault_cow env1 env2 page old vs = Ret (res, vs') \<and> task_ok B R r h vs'"
proof -
  obtain m pm st s where e1: "env1 vs = (m, pm, st, s)" by (metis prod_cases4)
  have ok1: "task_ok B R r h (m, pm, st, s)" using harmlessD [OF env(1) ok] e1 by simp
  obtain a pa where al: "pmm_alloc_page (ms_pmm s) = (a, pa)" by force
  show ?thesis
  proof (cases "pa = PA_INVALID")
    case True
    then show ?thesis using ok1 e1 al task_alloc_none [OF ok1] by (simp add: fault_cow_def)
  next
    case False
    let ?f = "page_index pa"
    define c where "c = (\<lambda>i. if i < 512 then ms_mem s (page_index old) i else ms_mem s ?f i)"
    define s2 where "s2 = s\<lparr>ms_pmm := a, ms_mem := (ms_mem s)(?f := c)\<rparr>"
    note ca = copy_page_alloc(1) [OF ok1 al False, of _ c, folded s2_def] copy_page_alloc(2-4) [OF ok1 al False]
    obtain m3 pm3 st3 s3 where e2: "env2 (m, pm, st, s2) = (m3, pm3, st3, s3)" by (metis prod_cases4)
    have ok3: "task_ok B R r (h(?f := 1)) (m3, pm3, st3, s3)" using harmlessD [OF env(2) ca(1)] e2 by metis
    have body: "fault_cow env1 env2 page old vs =
      (case vm_map_lookup m3 page of
         None \<Rightarrow> kbind (free_frame pa s3) (\<lambda>s4. Ret (VM_FAULT_OK, m3, pm3, st3, s4))
       | Some e \<Rightarrow>
           if pmap_extract pm3 page s3 \<noteq> old
           then kbind (free_frame pa s3) (\<lambda>s4. Ret (VM_FAULT_OK, m3, pm3, st3, s4))
           else kbind (pmap_enter pm3 page pa (ucast (vme_prot e)) s3) (\<lambda>(r, pm4, s4).
             if \<not> r then kbind (free_frame pa s4) (\<lambda>s5. Ret (VM_FAULT_NOMEM, m3, pm4, st3, s5))
             else kbind (free_frame old s4) (\<lambda>s5. Ret (VM_FAULT_OK, m3, pm4, st3, s5))))"
      using e1 al False e2 by (simp add: fault_cow_def Let_def s2_def c_def cong: if_cong)
    obtain s4 where undo: "free_frame pa s3 = Ret s4" "task_ok B R r h (m3, pm3, st3, s4)"
      using task_undo [OF ok3 ca(2,3)] by blast
    show ?thesis
    proof (cases "vm_map_lookup m3 page = None \<or> pmap_extract pm3 page s3 \<noteq> old")
      case True
      then show ?thesis using body undo by (auto split: option.splits)
    next
      case False
      then obtain e where e: "vm_map_lookup m3 page = Some e" "pmap_extract pm3 page s3 = old" by auto
      obtain w where w: "pmap_leaf s3 r page = Some w" "leaf_frame w = page_index old"
        using task_extract_valid [OF ok3 page e(2) old(3)] by metis
      have take: "take_over s3 r page h = h(page_index old := Suc (h (page_index old)))"
        using w old(1) task_okD(8) [OF ok3] by (simp add: take_over_def)
      from ok3 ca(2) page ca(3,4) show ?thesis
      proof (cases rule: task_enter [where prot = "ucast (vme_prot e)" and st' = st3])
        case (entered pm4 s5)
        obtain s6 where "free_frame old s5 = Ret s6" "task_ok B R r h (m3, pm4, st3, s6)"
          using task_drop [OF entered(2) [unfolded take] old(2)] by blast
        then show ?thesis using body e entered(1) by auto
      next
        case (full pm4 s5)
        obtain s6 where "free_frame pa s5 = Ret s6" "task_ok B R r h (m3, pm4, st3, s6)"
          using task_undo [OF full(2) ca(2,3)] by blast
        then show ?thesis using body e full(1) by auto
      qed
    qed
  qed
qed

lemma frame_0: "pmm_inv a \<Longrightarrow> frame_of a 0 = Reserved"
  by (auto simp: pmm_inv_def frame_of_def pmm_coreD)

lemma fault_fill_ok:
  assumes ok: "task_ok B R r h vs" and env: "harmless B R r env1" "harmless B R r env2"
    and page: "user_va page" "page_aligned page"
  shows "\<exists>res vs'. fault_fill fs_pread env1 env2 page obj off vs = Ret (res, vs') \<and> task_ok B R r h vs'"
proof -
  obtain m pm st s where e1: "env1 vs = (m, pm, st, s)" by (metis prod_cases4)
  have ok1: "task_ok B R r h (m, pm, st, s)" using harmlessD [OF env(1) ok] e1 by simp
  obtain a pa where al: "pmm_alloc_page (ms_pmm s) = (a, pa)" by force
  show ?thesis
  proof (cases "pa = PA_INVALID")
    case True
    then show ?thesis using task_store [OF ok1] e1 al task_alloc_none [OF ok1] by (simp add: fault_fill_def)
  next
    case False
    let ?f = "page_index pa"
    define s1 where "s1 = zero_frame ?f (s\<lparr>ms_pmm := a\<rparr>)"
    obtain rv page1 st1 where pg: "(if obj \<noteq> None then vm_object_page fs_pread obj off (ms_mem s1 ?f) st
        else (0, ms_mem s1 ?f, st)) = (rv, page1, st1)" using prod_cases3 by blast
    define s2 where "s2 = s1\<lparr>ms_mem := (ms_mem s1)(?f := page1)\<rparr>"
    have s2: "s2 = s\<lparr>ms_pmm := a, ms_mem := (ms_mem s)(?f := page1)\<rparr>"
      by (simp add: s2_def s1_def zero_frame_def)
    note ca = copy_page_alloc(1) [OF ok1 al False, of _ page1, folded s2] copy_page_alloc(2-4) [OF ok1 al False]
    obtain m3 pm3 st3 s3 where e2: "env2 (m, pm, st1, s2) = (m3, pm3, st3, s3)" by (metis prod_cases4)
    have ok3: "task_ok B R r (h(?f := 1)) (m3, pm3, st3, s3)" using harmlessD [OF env(2) ca(1)] e2 by metis
    let ?drop = "\<lambda>code m pm st s. kbind (free_frame pa s) (\<lambda>s'. Ret (code, m, pm, vm_object_deref obj st, s'))"
    have body: "fault_fill fs_pread env1 env2 page obj off vs =
      (if rv \<noteq> 0 then ?drop VM_FAULT_IO m pm st1 s2
       else case vm_map_lookup m3 page of
          None \<Rightarrow> ?drop VM_FAULT_NOMAP m3 pm3 st3 s3
        | Some e \<Rightarrow>
            if \<not> has (vme_flags e) VME_F_LAZY then ?drop VM_FAULT_NOMAP m3 pm3 st3 s3
            else if pmap_extract pm3 page s3 \<noteq> PA_INVALID then ?drop VM_FAULT_OK m3 pm3 st3 s3
            else kbind (pmap_enter pm3 page pa (ucast (vme_prot e)) s3) (\<lambda>(r, pm4, s4).
              if \<not> r then ?drop VM_FAULT_NOMEM m3 pm4 st3 s4
              else Ret (VM_FAULT_OK, m3, pm4, vm_object_deref obj st3, s4)))"
      unfolding fault_fill_def e1 al prod.case Let_def s1_def [symmetric] pg s2_def [symmetric] e2
      using False by simp
    have drop: "\<exists>res vs'. ?drop code m' pm' st' s' = Ret (res, vs') \<and> task_ok B R r h vs'"
      if t: "task_ok B R r (h(?f := 1)) (m', pm', st', s')" for code m' pm' st' s'
    proof -
      obtain s4 where "free_frame pa s' = Ret s4" "task_ok B R r h (m', pm', vm_object_deref obj st', s4)"
        using task_undo [OF t ca(2,3)] by blast
      then show ?thesis by auto
    qed
    show ?thesis
    proof (cases "rv \<noteq> 0")
      case True
      then show ?thesis unfolding body using drop [OF ca(1)] by simp
    next
      case rv: False
      show ?thesis
      proof (cases "\<exists>e. vm_map_lookup m3 page = Some e \<and> has (vme_flags e) VME_F_LAZY \<and> pmap_extract pm3 page s3 = PA_INVALID")
        case False
        then show ?thesis unfolding body using rv drop [OF ok3] by (auto split: option.splits)
      next
        case True
        then obtain e where e: "vm_map_lookup m3 page = Some e" "has (vme_flags e) VME_F_LAZY"
          "pmap_extract pm3 page s3 = PA_INVALID" by blast
        have take: "take_over s3 r page h = h"
        proof (cases "pmap_leaf s3 r page")
          case (Some w)
          then have "pte_pa w = PA_INVALID" using task_extract [OF ok3 page] e(3) by simp
          then have "leaf_frame w \<in> B"
            using frame_0 [OF accountedD(3) [OF task_okD(1) [OF ok3]]] task_okD(8) [OF ok3]
            by (simp add: leaf_frame_def PA_INVALID_def page_index_def)
          then show ?thesis using Some task_okD(8) [OF ok3] by (simp add: take_over_def)
        qed (simp add: take_over_def)
        from ok3 ca(2) page ca(3,4) show ?thesis
        proof (cases rule: task_enter [where prot = "ucast (vme_prot e)" and st' = "vm_object_deref obj st3"])
          case (entered pm4 s5)
          then show ?thesis unfolding body using rv e take by simp
        next
          case (full pm4 s5)
          then show ?thesis unfolding body using rv e drop [OF task_store [OF full(2)], of _ st3] by simp
        qed
      qed
    qed
  qed
qed

lemma vm_fault_ok:
  assumes ok: "task_ok B R r h vs" and env: "harmless B R r env1" "harmless B R r env2"
  shows "\<exists>res vs'. vm_fault fs_pread env1 env2 va write vs = Ret (res, vs') \<and> task_ok B R r h vs'"
proof -
  obtain m pm st s where vs: "vs = (m, pm, st, s)" by (metis prod_cases4)
  note ok1 = ok [unfolded vs]
  let ?page = "PA_ROUND_DOWN va"
  have al: "page_aligned ?page" by simp
  show ?thesis
  proof (cases "vm_map_lookup m ?page")
    case None
    then show ?thesis using ok by (simp add: vm_fault_def vs)
  next
    case (Some e)
    note lk = task_lookup [OF ok1 Some]
    have fill: "task_ok B R r h (m, pm, vm_object_ref (vme_object e) st, s)" by (rule task_store [OF ok1])
    let ?old = "pmap_extract pm ?page s"
    show ?thesis
    proof (cases "?old = PA_INVALID")
      case True
      then show ?thesis
        using Some ok1 fault_fill_ok [OF fill env lk(3) al] by (auto simp: vm_fault_def vs Let_def)
    next
      case False
      obtain w where w: "pmap_leaf s r ?page = Some w" "leaf_frame w = page_index ?old" "page_aligned ?old" "?old < 2 ^ 52"
        using task_extract_valid [OF ok1 lk(3) al refl False] by metis
      show ?thesis
      proof (cases "write \<and> has (vme_prot e) VM_PROT_WRITE \<and> has (vme_flags e) VME_F_COW \<and>
          vme_prot e AND (VM_PROT_READ OR VM_PROT_WRITE OR VM_PROT_EXEC) \<noteq> 0")
        case no: False
        then show ?thesis using Some ok1 False by (auto simp: vm_fault_def vs Let_def)
      next
        case cow: True
        have anon: "has (vme_flags e) VME_F_ANON" using anon_okD(1) [OF task_okD(9) [OF ok1] lk(1)] cow by blast
        have nB: "page_index ?old \<notin> B"
          using anon_okD(2) [OF task_okD(9) [OF ok1] lk(1) anon lk(2) al w(1)] w(2) task_okD(8) [OF ok1] by metis
        have guard: "vm_fault fs_pread env1 env2 va write vs =
          (if pmm_page_refs ?old (ms_pmm s) = 1
           then kbind (pmap_enter pm ?page ?old (ucast (vme_prot e)) s) (\<lambda>(r, pm1, s1).
                  Ret (if r then VM_FAULT_OK else VM_FAULT_NOMEM, m, pm1, st, s1))
           else fault_cow env1 env2 ?page ?old vs)"
          using Some False cow anon by (simp add: vm_fault_def vs Let_def KASSERT_def)
        show ?thesis
        proof (cases "pmm_page_refs ?old (ms_pmm s) = 1")
          case True
          have leaf: "pmap_leaf s (pml4_frame pm) ?page = Some w" using w(1) task_okD(3) [OF ok1] by simp
          obtain b pm' s' where e': "pmap_enter pm ?page ?old (ucast (vme_prot e)) s = Ret (b, pm', s')"
              "pml4_frame pm' = pml4_frame pm" "undisturbed s R s'" "accounted h s' R"
              "\<forall>r \<in> R. \<forall>x. user_va x \<longrightarrow> pmap_leaf s' r x =
                (if b \<and> r = pml4_frame pm \<and> x div PAGE_SIZE = ?page div PAGE_SIZE
                 then Some (leaf_pte ?old (ucast (vme_prot e))) else pmap_leaf s r x)"
            using acc_reprotect [OF task_okD(1,4) [OF ok1] lk(3) al w(3,4) leaf w(2)] by metis
          have "task_ok B R r h (m, pm', st, s')"
            using e'(2) task_okD(3) [OF ok1] leaf_frame_pte [OF w(3,4)] nB task_okD(8) [OF ok1]
            by (intro task_undisturbed [OF ok1 e'(4) _ e'(3) e'(5)]) auto
          then show ?thesis unfolding guard using True e'(1) by simp
        next
          case copy: False
          then show ?thesis unfolding guard using fault_cow_ok [OF ok env lk(3) al nB w(3) False] by simp
        qed
      qed
    qed
  qed
qed

lemma page_refs_owned:
  assumes "pmm_inv a" "page_aligned pa" "frame_of a (page_index pa) = Owned n"
  shows "pmm_page_refs pa a = n"
proof -
  have core: "pmm_core a" using assms(1) by (simp add: pmm_inv_def)
  then have "page_index pa < pmm_managed_pages a" "pmm_refs a ! page_index pa = n"
    using assms(3) frame_of_Owned_iff by auto
  then show ?thesis using page_index_in_range [OF core assms(2)] assms(2) by (simp add: pmm_page_refs_def)
qed

text \<open>What a successful or failed copy leaves behind, when no other thread interferes.\<close>

lemma fault_cow_alone:
  assumes ok: "task_ok B R r h (m, pm, st, s)" and page: "user_va page" "page_aligned page"
    and lk: "vm_map_lookup m page = Some e"
    and w: "pmap_leaf s r page = Some w" "pte_pa w \<noteq> PA_INVALID"
    and own: "frame_of (ms_pmm s) (leaf_frame w) = Owned n" "n \<noteq> 1"
  shows "\<exists>res pm' s'. fault_cow (\<lambda>v. v) (\<lambda>v. v) page (pte_pa w) (m, pm, st, s) = Ret (res, m, pm', st, s') \<and>
    (\<forall>r' \<in> R. \<forall>x. user_va x \<longrightarrow> \<not> (r' = r \<and> x div PAGE_SIZE = page div PAGE_SIZE) \<longrightarrow>
       pmap_leaf s' r' x = pmap_leaf s r' x) \<and>
    (\<forall>g. frame_of (ms_pmm s) g \<noteq> Free \<longrightarrow> g \<notin> tables s R user_paths \<longrightarrow> ms_mem s' g = ms_mem s g) \<and>
    (res = VM_FAULT_NOMEM \<and> pmap_leaf s' r page = Some w \<or>
     res = VM_FAULT_OK \<and> (\<exists>pa. pmap_leaf s' r page = Some (leaf_pte pa (ucast (vme_prot e))) \<and>
       page_aligned pa \<and> pa < 2 ^ 52 \<and> frame_of (ms_pmm s) (page_index pa) = Free \<and>
       frame_of (ms_pmm s') (page_index pa) = Owned 1 \<and> frame_of (ms_pmm s') (leaf_frame w) = Owned (n - 1) \<and>
       (\<forall>i < 512. ms_mem s' (page_index pa) i = ms_mem s (leaf_frame w) i)))"
proof -
  let ?old = "pte_pa w" and ?fo = "leaf_frame w"
  have fo: "page_index ?old = ?fo" by (simp add: leaf_frame_def)
  obtain a pa where al: "pmm_alloc_page (ms_pmm s) = (a, pa)" by force
  show ?thesis
  proof (cases "pa = PA_INVALID")
    case True
    then show ?thesis using al task_alloc_none [OF ok] w by (simp add: fault_cow_def)
  next
    case False
    let ?f = "page_index pa"
    define c where "c = (\<lambda>i. if i < 512 then ms_mem s (page_index ?old) i else ms_mem s ?f i)"
    define s2 where "s2 = s\<lparr>ms_pmm := a, ms_mem := (ms_mem s)(?f := c)\<rparr>"
    have s2: "ms_pmm s2 = a" "\<forall>g. g \<noteq> ?f \<longrightarrow> ms_mem s2 g = ms_mem s g" "ms_mem s2 ?f = c"
      by (simp_all add: s2_def)
    note aa = acc_alloc [OF task_okD(1) [OF ok] al False s2(1,2)]
    note ca = copy_page_alloc(1) [OF ok al False, of _ c, folded s2_def]
    have leaf2: "pmap_leaf s2 r' x = pmap_leaf s r' x" if "r' \<in> R" "user_va x" for r' x using aa(10) that by blast
    have w2: "pmap_leaf s2 r page = Some w" using leaf2 [OF task_okD(2) [OF ok] page(1)] w by simp
    have ext: "pmap_extract pm page s2 = ?old" using task_extract [OF ca page] w2 by simp
    have ne: "?fo \<noteq> ?f" using own(1) aa(5) by auto
    have body: "fault_cow (\<lambda>v. v) (\<lambda>v. v) page ?old (m, pm, st, s) =
       kbind (pmap_enter pm page pa (ucast (vme_prot e)) s2) (\<lambda>(r, pm4, s4).
         if \<not> r then kbind (free_frame pa s4) (\<lambda>s5. Ret (VM_FAULT_NOMEM, m, pm4, st, s5))
         else kbind (free_frame ?old s4) (\<lambda>s5. Ret (VM_FAULT_OK, m, pm4, st, s5)))"
      using al False lk ext by (simp add: fault_cow_def Let_def s2_def c_def cong: if_cong)
    have used2: "frame_of (ms_pmm s2) g \<noteq> Free" if "frame_of (ms_pmm s) g \<noteq> Free" for g using that aa(7) by auto
    have mem2: "ms_mem s2 g = ms_mem s g" if "frame_of (ms_pmm s) g \<noteq> Free" for g using that s2(2) aa(5) by metis
    have hp: "0 < (h(?f := 1)) ?f \<or> frame_of (ms_pmm s2) ?f = Reserved \<and> ?f \<notin> tables s2 R user_paths" by simp
    show ?thesis
    proof (rule acc_enter [OF aa(1) task_okD(4) [OF ok] page aa(2,3) hp])
      fix pm' s'
      assume e: "pmap_enter pm page pa (ucast (vme_prot e)) s2 = Ret (False, pm', s')" "undisturbed s2 R s'"
        "accounted (h(?f := 1)) s' R" "\<forall>r \<in> R. \<forall>x. user_va x \<longrightarrow> pmap_leaf s' r x = pmap_leaf s2 r x"
      have "0 < (h(?f := 1)) ?f" by simp
      from acc_free [OF e(3) this aa(2)] obtain s5 where s5: "free_frame pa s' = Ret s5" "ms_mem s5 = ms_mem s'"
        "\<And>r x. r \<in> R \<Longrightarrow> user_va x \<Longrightarrow> pmap_leaf s5 r x = pmap_leaf s' r x" by metis
      have "ms_mem s5 g = ms_mem s g" if "frame_of (ms_pmm s) g \<noteq> Free" "g \<notin> tables s R user_paths" for g
        using that e(2) used2 mem2 aa(8) s5(2) by (auto simp: undisturbed_def)
      then show ?thesis
        using body e(1,4) s5(1,3) leaf2 w2 page task_okD(2) [OF ok] by simp
    next
      fix pm' s'
      assume e: "pmap_enter pm page pa (ucast (vme_prot e)) s2 = Ret (True, pm', s')" "undisturbed s2 R s'"
        "accounted (take_over s2 (pml4_frame pm) page ((h(?f := 1))(?f := (h(?f := 1)) ?f - 1))) s' R"
        "\<forall>r \<in> R. \<forall>x. user_va x \<longrightarrow> pmap_leaf s' r x =
           (if r = pml4_frame pm \<and> x div PAGE_SIZE = page div PAGE_SIZE then Some (leaf_pte pa (ucast (vme_prot e)))
            else pmap_leaf s2 r x)"
      have own2: "frame_of (ms_pmm s2) ?fo = Owned n" using own(1) ne aa(7) by simp
      then have own': "frame_of (ms_pmm s') ?fo = Owned n" using e(2) by (auto simp: undisturbed_def)
      have pos: "0 < take_over s2 (pml4_frame pm) page ((h(?f := 1))(?f := (h(?f := 1)) ?f - 1)) (page_index ?old)"
        using w2 own2 task_okD(3) [OF ok] fo by (simp add: take_over_def)
      from acc_free [OF e(3) pos pte_pa_aligned] obtain s5 k where s5: "free_frame ?old s' = Ret s5" "ms_mem s5 = ms_mem s'"
        "frame_of (ms_pmm s') (page_index ?old) = Owned k"
        "frame_of (ms_pmm s5) = (frame_of (ms_pmm s'))(page_index ?old := if k = 1 then Free else Owned (k - 1))"
        "\<And>r x. r \<in> R \<Longrightarrow> user_va x \<Longrightarrow> pmap_leaf s5 r x = pmap_leaf s' r x" by metis
      have k: "k = n" using s5(3) own' fo by simp
      have frame: "frame_of (ms_pmm s5) ?f = Owned 1"
        using s5(4) fo ne e(2) aa(7) by (auto simp: undisturbed_def)
      have nt: "?f \<notin> tables s2 R user_paths" using aa(8,9) by simp
      have "ms_mem s' ?f = c" using e(2) aa(7) nt s2(3) by (auto simp: undisturbed_def)
      then have copy: "\<forall>i < 512. ms_mem s5 ?f i = ms_mem s ?fo i" using s5(2) fo by (simp add: c_def)
      have mem: "ms_mem s5 g = ms_mem s g" if "frame_of (ms_pmm s) g \<noteq> Free" "g \<notin> tables s R user_paths" for g
        using that e(2) used2 mem2 aa(8) s5(2) by (auto simp: undisturbed_def)
      have "pmap_leaf s5 r page = Some (leaf_pte pa (ucast (vme_prot e)))"
        using e(4) s5(5) page task_okD(2,3) [OF ok] by simp
      moreover have "pmap_leaf s5 r' x = pmap_leaf s r' x"
        if "r' \<in> R" "user_va x" "\<not> (r' = r \<and> x div PAGE_SIZE = page div PAGE_SIZE)" for r' x
        using e(4) s5(5) leaf2 that task_okD(3) [OF ok] by auto
      moreover have "frame_of (ms_pmm s5) ?fo = Owned (n - 1)" using s5(4) fo k own(2) by simp
      ultimately show ?thesis
        using body e(1) s5(1) mem frame copy aa(2,3,5) by (intro exI [of _ VM_FAULT_OK] exI [of _ pm'] exI [of _ s5]) auto
    qed
  qed
qed

section \<open>A task with one shared page\<close>

text \<open>
  The tables are frames 100 to 103, which the allocator does not manage; the first page of the window
  maps a frame with two owners, read-only, under a copy-on-write entry.
\<close>

definition shared_pa :: u64 where "shared_pa = snd (pmm_alloc_page example_pmm)"

definition shared_pmm :: pmm where
  "shared_pmm = (case pmm_page_ref shared_pa (fst (pmm_alloc_page example_pmm)) of Ret a \<Rightarrow> a | Panic _ \<Rightarrow> example_pmm)"

definition shared_leaf :: "64 word" where "shared_leaf = leaf_pte shared_pa (VM_PROT_READ OR VM_PROT_USER)"

definition shared_ms :: mstate where
  "shared_ms = \<lparr>ms_pmm = shared_pmm,
     ms_mem = (\<lambda>_ _. 0)(100 := (\<lambda>_. 0)(0 := 0x65007), 101 := (\<lambda>_. 0)(1 := 0x66007), 102 := (\<lambda>_. 0)(0 := 0x67007),
       103 := (\<lambda>_. 0)(0 := shared_leaf)), ms_inval = []\<rparr>"

definition shared_pm :: pmap where
  "shared_pm = \<lparr>pm_pml4_pa = 100 * 4096, pm_leafs = 1, pm_intermediates = 3, pm_is_kernel = False\<rparr>"

definition shared_entry :: vm_map_entry where
  "shared_entry = \<lparr>vme_start = 0x40000000, vme_end = 0x40001000, vme_offset = 0, vme_object = None,
     vme_prot = VM_PROT_READ OR VM_PROT_WRITE OR VM_PROT_USER, vme_flags = VME_F_ANON OR VME_F_COW\<rparr>"

definition shared_map :: vm_map where
  "shared_map = \<lparr>vm_lo = VM_USER_VA_LO, vm_hi = VM_USER_VA_HI, vm_hint = VM_USER_VA_LO,
     vm_entries = [shared_entry], vm_count = 1\<rparr>"

lemma shared_frames:
  "pmm_inv shared_pmm" "page_aligned shared_pa" "shared_pa < 2 ^ 52" "shared_pa \<noteq> PA_INVALID"
  "frame_of shared_pmm = (frame_of example_pmm)(page_index shared_pa := Owned 2)"
  "frame_of example_pmm (page_index shared_pa) = Free"
proof -
  let ?a = "fst (pmm_alloc_page example_pmm)"
  have al: "pmm_alloc_page example_pmm = (?a, shared_pa)" by (simp add: shared_pa_def)
  show ne: "shared_pa \<noteq> PA_INVALID" using example_pmm_alloc by (simp add: shared_pa_def)
  note p = pf.alloc_some [OF example_pmm_inv al ne]
  then show "page_aligned shared_pa" and free: "frame_of example_pmm (page_index shared_pa) = Free" by auto
  show "shared_pa < 2 ^ 52" using frame_pa_lt [OF example_pmm_inv] free by simp
  have own: "frame_of ?a (page_index shared_pa) = Owned 1" using p by simp
  obtain a where a: "pmm_page_ref shared_pa ?a = Ret a" "pmm_inv a"
      "frame_of a = (frame_of ?a)(page_index shared_pa := Owned (1 + 1))"
    using pf.retain_ok [OF _ _ own] p by auto
  then show "pmm_inv shared_pmm" "frame_of shared_pmm = (frame_of example_pmm)(page_index shared_pa := Owned 2)"
    using p by (simp_all add: shared_pmm_def numeral_2_eq_2)
qed

lemma shared_entries:
  "present 0x65007" "\<not> huge 0x65007" "table_va 0x65007 = 101"
  "present 0x66007" "\<not> huge 0x66007" "table_va 0x66007 = 102"
  "present 0x67007" "\<not> huge 0x67007" "table_va 0x67007 = 103"
  by (simp_all add: present_def huge_def table_va_def PTE_P_def PTE_PS_def PTE_PA_MASK_def page_index_def PAGE_SHIFT_def)

lemma not_present_0: "\<not> present 0"
  by (simp add: present_def)

lemma shared_descend:
  "descend shared_ms 100 i = (if i = 0 then Some 101 else None)"
  "descend shared_ms 101 i = (if i = 1 then Some 102 else None)"
  "descend shared_ms 102 i = (if i = 0 then Some 103 else None)"
  by (simp_all add: descend_def shared_ms_def shared_entries not_present_0)

lemma shared_table_at:
  assumes "p \<in> user_paths"
  shows "table_at shared_ms 100 p = (if p = [] then Some 100 else if p = [0] then Some 101 else if p = [0, 1] then Some 102
    else if p = [0, 1, 0] then Some 103 else None)"
  using assms by (auto simp: user_paths_def shared_descend split: if_splits)

lemma shared_pmm_of: "ms_pmm shared_ms = shared_pmm"
  by (simp add: shared_ms_def)

lemma shared_spaces: "spaces_ok shared_ms {100}" "tables shared_ms {100} user_paths = {100, 101, 102, 103}"
proof -
  have frame: "frame_of shared_pmm g = Reserved" if "5 \<le> g" for g
    using that shared_frames(5,6) by (auto simp: example_pmm_frame)
  show tabs: "tables shared_ms {100} user_paths = {100, 101, 102, 103}"
    by (auto simp: tables_def shared_table_at user_paths_def)
  have "pt_ok shared_ms {100} user_paths"
    unfolding pt_ok_def tabs using shared_frames(1) frame
    by (auto simp: shared_table_at shared_pmm_of split: if_splits)
  moreover have "no_huge shared_ms {100} user_paths"
    unfolding no_huge_def
  proof (intro ballI allI impI)
    fix r p i f assume a: "r \<in> {100}" "p @ [i] \<in> user_paths" "table_at shared_ms r p = Some f"
    then have "p \<in> user_paths" "length p < 3" using paths_short [OF paths_user] by auto
    then have "f \<in> {100, 101, 102}" using a shared_table_at [of p] by (auto split: if_splits)
    then show "\<not> huge (ms_mem shared_ms f i)"
      by (auto simp: shared_ms_def shared_entries) (simp_all add: huge_def)
  qed
  ultimately show "spaces_ok shared_ms {100}" by (simp add: spaces_ok_def)
qed

lemma shared_leaf_at:
  assumes "user_va x"
  shows "pmap_leaf shared_ms 100 x = (if x div PAGE_SIZE = 0x40000 then Some shared_leaf else None)"
proof -
  have u: "user_va 0x40000000" by (simp add: user_va_def)
  have "same_page x 0x40000000 \<longleftrightarrow> x div PAGE_SIZE = 0x40000"
    using same_page_user [OF assms u] by (simp add: PAGE_SIZE_eq)
  moreover have "same_page x 0x40000000 \<longleftrightarrow> pd_idx x = 0 \<and> pt_idx x = 0"
    using user_va_idx [OF assms] user_va_idx [OF u] by (simp add: same_page_def path_of_def pd_idx_def pt_idx_def)
  moreover have "present shared_leaf" using leaf_pte_facts(1) shared_frames(2,3) by (simp add: shared_leaf_def)
  ultimately show ?thesis
    using user_va_idx [OF assms] shared_table_at [OF user_path [OF assms]]
    by (auto simp: pmap_leaf_def path_of_def) (simp_all add: shared_ms_def not_present_0)
qed

lemma shared_leaf_frame: "leaf_frame shared_leaf = page_index shared_pa" "pte_pa shared_leaf = shared_pa"
  using leaf_frame_pte leaf_pte_facts(2) shared_frames(2,3) by (simp_all add: shared_leaf_def)

lemma shared_mappers:
  "mappers shared_ms {100} f = (if f = page_index shared_pa then {(100, 0x40000000)} else {})"
proof -
  have page: "x div PAGE_SIZE = 0x40000 \<longleftrightarrow> x = 0x40000000" if "page_aligned x" for x
    using aligned_page_eq [OF that, of "0x40000000"] by (simp add: page_aligned_def PAGE_SIZE_eq)
  have "user_va 0x40000000" "page_aligned 0x40000000" by (simp_all add: user_va_def page_aligned_def PAGE_SIZE_eq)
  then show ?thesis
    using page by (auto simp: mappers_def shared_leaf_at shared_leaf_frame split: if_splits)
qed

definition shared_hold :: "nat \<Rightarrow> nat" where
  "shared_hold = (\<lambda>_. 0)(page_index shared_pa := 1)"

lemma shared_task:
  "task_ok {f. frame_of shared_pmm f = Reserved} {100} 100 shared_hold (shared_map, shared_pm, st, shared_ms)"
proof -
  have own: "frame_of shared_pmm (page_index shared_pa) = Owned 2" using shared_frames(5) by simp
  have nt: "page_index shared_pa \<notin> {100, 101, 102, 103}"
    using shared_frames(6) by (auto simp: example_pmm_frame split: if_splits)
  have "accounted shared_hold shared_ms {100}"
    unfolding accounted_def shared_spaces(2) using shared_spaces(1) own nt shared_frames(5,6)
    by (auto simp: shared_mappers shared_pmm_of shared_hold_def)
  moreover have "vm_map_wf shared_map"
    by (simp add: vm_map_wf_def shared_map_def shared_entry_def entries_ok_def entry_ok_def VM_USER_VA_LO_def
        VM_USER_VA_HI_def page_aligned_def PAGE_SIZE_eq)
  moreover have "anon_ok shared_map shared_ms 100"
    using own shared_leaf_frame
    by (auto simp: anon_ok_def shared_map_def shared_entry_def has_def VME_F_ANON_def VME_F_COW_def shared_pmm_of
        covers_def shared_leaf_at user_va_def split: if_splits)
  ultimately show ?thesis
    by (simp add: task_ok_def shared_pmm_of shared_map_def shared_pm_def pml4_frame_def page_index_def PAGE_SHIFT_def)
qed

lemma prot_has_write: "has p VM_PROT_WRITE \<Longrightarrow> p AND (VM_PROT_READ OR VM_PROT_WRITE OR VM_PROT_EXEC) \<noteq> 0"
proof
  assume "has p VM_PROT_WRITE" "p AND (VM_PROT_READ OR VM_PROT_WRITE OR VM_PROT_EXEC) = 0"
  then have "(p AND (VM_PROT_READ OR VM_PROT_WRITE OR VM_PROT_EXEC)) AND VM_PROT_WRITE = 0" "p AND VM_PROT_WRITE \<noteq> 0"
    by (simp_all add: has_def)
  moreover have "(VM_PROT_READ OR VM_PROT_WRITE OR VM_PROT_EXEC) AND VM_PROT_WRITE = (VM_PROT_WRITE :: 8 word)"
    by (simp add: VM_PROT_READ_def VM_PROT_WRITE_def VM_PROT_EXEC_def)
  ultimately show False by (metis and.assoc)
qed

section \<open>What the page fault promises\<close>



text \<open>C35. A write to a copy-on-write page gives the writer a page of its own. If the frame has one owner it is
  kept and made writable; if it has more, the page gets a fresh frame with the same 512 words, the entry's
  protection and one owner, and the old frame loses one owner. No other page of any address space changes
  its translation, and no frame in use other than a page table is written, so every other owner of the
  old frame keeps its contents. When memory is full the fault says so and the page stays as it was.\<close>

theorem vm_fault_cow_correct:
  assumes ok: "task_ok B R r h (m, pm, st, s)" and lk: "vm_map_lookup m (PA_ROUND_DOWN va) = Some e"
    and e: "has (vme_flags e) VME_F_COW" "has (vme_prot e) VM_PROT_WRITE"
    and w: "pmap_leaf s r (PA_ROUND_DOWN va) = Some w" "pte_pa w \<noteq> PA_INVALID"
    and own: "frame_of (ms_pmm s) (leaf_frame w) = Owned n"
  shows "\<exists>res pm' s'. vm_fault fs_pread (\<lambda>v. v) (\<lambda>v. v) va True (m, pm, st, s) = Ret (res, m, pm', st, s') \<and>
    (\<forall>r' \<in> R. \<forall>x. user_va x \<longrightarrow> \<not> (r' = r \<and> x div PAGE_SIZE = PA_ROUND_DOWN va div PAGE_SIZE) \<longrightarrow>
       pmap_leaf s' r' x = pmap_leaf s r' x) \<and>
    (\<forall>g. frame_of (ms_pmm s) g \<noteq> Free \<longrightarrow> g \<notin> tables s R user_paths \<longrightarrow> ms_mem s' g = ms_mem s g) \<and>
    (res = VM_FAULT_NOMEM \<and> pmap_leaf s' r (PA_ROUND_DOWN va) = Some w \<or>
     res = VM_FAULT_OK \<and> (\<exists>pa. pmap_leaf s' r (PA_ROUND_DOWN va) = Some (leaf_pte pa (ucast (vme_prot e))) \<and>
       (\<forall>i < 512. ms_mem s' (page_index pa) i = ms_mem s (leaf_frame w) i) \<and>
       frame_of (ms_pmm s') (page_index pa) = Owned 1 \<and>
       (if n = 1 then page_index pa = leaf_frame w
        else frame_of (ms_pmm s) (page_index pa) = Free \<and> frame_of (ms_pmm s') (leaf_frame w) = Owned (n - 1))))"
proof -
  let ?page = "PA_ROUND_DOWN va" and ?old = "pte_pa w"
  note l = task_lookup [OF ok lk]
  have ext: "pmap_extract pm ?page s = ?old" using task_extract [OF ok l(3)] w(1) by simp
  have anon: "has (vme_flags e) VME_F_ANON" using anon_okD(1) [OF task_okD(9) [OF ok] l(1)] e by blast
  have prot: "vme_prot e AND (VM_PROT_READ OR VM_PROT_WRITE OR VM_PROT_EXEC) \<noteq> 0"
    using e(2) by (rule prot_has_write)
  have fo: "page_index ?old = leaf_frame w" by (simp add: leaf_frame_def)
  have refs: "pmm_page_refs ?old (ms_pmm s) = n"
    using page_refs_owned [OF accountedD(3) [OF task_okD(1) [OF ok]] pte_pa_aligned] own fo by simp
  have guard: "vm_fault fs_pread (\<lambda>v. v) (\<lambda>v. v) va True (m, pm, st, s) =
      (if n = 1
       then kbind (pmap_enter pm ?page ?old (ucast (vme_prot e)) s) (\<lambda>(r, pm1, s1).
              Ret (if r then VM_FAULT_OK else VM_FAULT_NOMEM, m, pm1, st, s1))
       else fault_cow (\<lambda>v. v) (\<lambda>v. v) ?page ?old (m, pm, st, s))"
    using lk ext w(2) e anon prot refs by (simp add: vm_fault_def Let_def KASSERT_def)
  show ?thesis
  proof (cases "n = 1")
    case False
    show ?thesis
      unfolding guard using False fault_cow_alone [OF ok l(3) _ lk w own False] by (auto 4 4)
  next
    case True
    have leaf: "pmap_leaf s (pml4_frame pm) ?page = Some w" using w(1) task_okD(3) [OF ok] by simp
    obtain b pm' s' where e': "pmap_enter pm ?page ?old (ucast (vme_prot e)) s = Ret (b, pm', s')" "undisturbed s R s'"
        "\<forall>r \<in> R. \<forall>x. user_va x \<longrightarrow> pmap_leaf s' r x =
          (if b \<and> r = pml4_frame pm \<and> x div PAGE_SIZE = ?page div PAGE_SIZE
           then Some (leaf_pte ?old (ucast (vme_prot e))) else pmap_leaf s r x)"
      using acc_reprotect [OF task_okD(1,4) [OF ok] l(3) PA_ROUND_DOWN_aligned pte_pa_aligned pte_pa_lt leaf fo [symmetric]]
      by metis
    have und: "ms_mem s' g = ms_mem s g" if "frame_of (ms_pmm s) g \<noteq> Free" "g \<notin> tables s R user_paths" for g
      using e'(2) that by (simp add: undisturbed_def)
    have nt: "leaf_frame w \<notin> tables s R user_paths"
      using accounted_leaf(3) [OF task_okD(1,2) [OF ok] l(3) PA_ROUND_DOWN_aligned w(1)] .
    have keep: "frame_of (ms_pmm s') (leaf_frame w) = Owned 1" "ms_mem s' (leaf_frame w) = ms_mem s (leaf_frame w)"
      using e'(2) own True und [OF _ nt] by (simp_all add: undisturbed_def)
    show ?thesis
      unfolding guard using True e'(1,3) und keep fo w(1) l(3) task_okD(2,3) [OF ok]
      by (cases b) (auto intro!: exI [of _ ?old])
  qed
qed

theorem vm_fault_cow_correct_witness:
  "\<exists>res pm' s'. vm_fault (\<lambda>_ _ p _. (True, 0, p)) (\<lambda>v. v) (\<lambda>v. v) 0x40000123 True
      (shared_map, shared_pm, example_store, shared_ms) = Ret (res, shared_map, pm', example_store, s') \<and>
    ms_mem s' (page_index shared_pa) = ms_mem shared_ms (page_index shared_pa)"
proof -
  have rd: "PA_ROUND_DOWN 0x40000123 = 0x40000000" by (simp add: PA_ROUND_DOWN_def PAGE_SIZE_eq)
  have lk: "vm_map_lookup shared_map (PA_ROUND_DOWN 0x40000123) = Some shared_entry"
    unfolding rd by (simp add: vm_map_lookup_def shared_map_def shared_entry_def)
  have fl: "has (vme_flags shared_entry) VME_F_COW" "has (vme_prot shared_entry) VM_PROT_WRITE"
    by (simp_all add: has_def shared_entry_def VME_F_ANON_def VME_F_COW_def VM_PROT_READ_def VM_PROT_WRITE_def VM_PROT_USER_def)
  have leaf: "pmap_leaf shared_ms 100 (PA_ROUND_DOWN 0x40000123) = Some shared_leaf"
    unfolding rd by (simp add: shared_leaf_at user_va_def PAGE_SIZE_eq)
  have own: "frame_of (ms_pmm shared_ms) (leaf_frame shared_leaf) = Owned 2"
    using shared_frames(5) by (simp add: shared_pmm_of shared_leaf_frame)
  have "page_index shared_pa \<notin> tables shared_ms {100} user_paths"
    using shared_frames(6) shared_spaces(2) by (auto simp: example_pmm_frame split: if_splits)
  then show ?thesis
    using vm_fault_cow_correct [OF shared_task lk fl leaf _ own, of _ example_store] shared_frames(4) own
    by (fastforce simp: shared_leaf_frame)
qed

end
