(* ===== verification/Vm_Release.thy ===== *)
theory Vm_Release
  imports Vm_Fault
begin

text \<open>
  Releasing a range of a task's memory (\<open>vm_map_release\<close> of src/vm/vm.c). The map is cut at the two ends of
  the range, every page of the range is unmapped and gives its frame back, and the entries are removed.
  The lemmas follow the loop over the pages with the frame accounting of \<open>Vm_Frames\<close> and put it together
  with the steps of \<open>Vm_Map\<close> on the task invariant of \<open>Vm_Fault\<close>.
\<close>

unbundle bit_operations_syntax

section \<open>Releasing pages\<close>

definition maps_to :: "mstate \<Rightarrow> nat \<Rightarrow> nat \<Rightarrow> u64 \<Rightarrow> bool" where
  "maps_to s r f v \<longleftrightarrow> (\<exists>e. pmap_leaf s r v = Some e \<and> leaf_frame e = f)"

text \<open>How many pages of a list map a frame, and a frame that loses that many owners.\<close>

definition map_count :: "mstate \<Rightarrow> nat \<Rightarrow> u64 list \<Rightarrow> nat \<Rightarrow> nat" where
  "map_count s r vs f = length (filter (maps_to s r f) vs)"

fun drop_owners :: "nat \<Rightarrow> frame \<Rightarrow> frame" where
  "drop_owners k (Owned n) = (if n \<le> k then Free else Owned (n - k))"
| "drop_owners k f = f"

lemma drop_owners_0: "pmm_inv a \<Longrightarrow> drop_owners 0 (frame_of a f) = frame_of a f"
proof (cases "frame_of a f")
  case (Owned n)
  assume "pmm_inv a"
  then have "n \<noteq> 0" using Owned frame_of_Owned_iff [of a f n] by (simp add: pmm_inv_def)
  then show ?thesis using Owned by simp
qed simp_all

lemma drop_owners_add: "drop_owners k (drop_owners j fr) = drop_owners (j + k) fr"
  by (cases fr) auto

definition pages_ok :: "mstate \<Rightarrow> nat \<Rightarrow> u64 list \<Rightarrow> bool" where
  "pages_ok s r vs \<longleftrightarrow> distinct vs \<and> (\<forall>v \<in> set vs. user_va v \<and> page_aligned v) \<and>
     (\<forall>v \<in> set vs. \<forall>e. pmap_leaf s r v = Some e \<longrightarrow> frame_of (ms_pmm s) (leaf_frame e) \<noteq> Reserved)"

lemma leaf_valid:
  assumes "pmm_inv (ms_pmm s)" "frame_of (ms_pmm s) (leaf_frame e) \<noteq> Reserved"
  shows "pte_pa e \<noteq> PA_INVALID"
proof
  assume "pte_pa e = PA_INVALID"
  then have "leaf_frame e = 0" by (simp add: leaf_frame_def PA_INVALID_def page_index_def)
  then show False using assms frame_0 by simp
qed

lemma release_pages_ok:
  assumes "accounted h s R" "pml4_frame pm = r" "r \<in> R" "pages_ok s r vs"
  shows "\<exists>pm' s'. release_pages vs pm s = Ret (pm', s') \<and> pml4_frame pm' = r \<and> accounted h s' R \<and>
    (\<forall>r' \<in> R. \<forall>x. user_va x \<longrightarrow> pmap_leaf s' r' x =
       (if r' = r \<and> (\<exists>v \<in> set vs. x div PAGE_SIZE = v div PAGE_SIZE) then None else pmap_leaf s r' x)) \<and>
    tables s' R user_paths = tables s R user_paths \<and>
    (\<forall>g. g \<notin> tables s R user_paths \<longrightarrow> ms_mem s' g = ms_mem s g) \<and>
    (\<forall>f. frame_of (ms_pmm s') f = drop_owners (map_count s r vs f) (frame_of (ms_pmm s) f))"
  using assms
proof (induction vs arbitrary: pm s)
  case Nil
  then show ?case using drop_owners_0 accountedD(3) by (fastforce simp: map_count_def)
next
  case (Cons v vs)
  note acc = Cons.prems(1)
  have v: "user_va v" "page_aligned v" and dist: "v \<notin> set vs" using Cons.prems(4) by (auto simp: pages_ok_def)
  have ext: "pmap_extract pm v s = (case pmap_leaf s r v of None \<Rightarrow> PA_INVALID | Some e \<Rightarrow> pte_pa e)"
    using asp.translate_law [OF accountedD(2) [OF acc] _ v, of pm] Cons.prems(2,3) by simp
  show ?case
  proof (cases "pmap_leaf s r v")
    case None
    have page: "pmap_leaf s r x = None" if "user_va x" "x div PAGE_SIZE = v div PAGE_SIZE" for x
      using None that same_page_user [OF that(1) v(1)]
      by (auto simp: pmap_leaf_def same_page_def split: option.splits)
    have "pages_ok s r vs" using Cons.prems(4) by (simp add: pages_ok_def)
    from Cons.IH [OF acc Cons.prems(2,3) this]
    obtain pm' s' where ih: "release_pages vs pm s = Ret (pm', s')" "pml4_frame pm' = r" "accounted h s' R"
      "\<forall>r' \<in> R. \<forall>x. user_va x \<longrightarrow> pmap_leaf s' r' x =
         (if r' = r \<and> (\<exists>v \<in> set vs. x div PAGE_SIZE = v div PAGE_SIZE) then None else pmap_leaf s r' x)"
      "tables s' R user_paths = tables s R user_paths"
      "\<forall>g. g \<notin> tables s R user_paths \<longrightarrow> ms_mem s' g = ms_mem s g"
      "\<forall>f. frame_of (ms_pmm s') f = drop_owners (map_count s r vs f) (frame_of (ms_pmm s) f)" by blast
    moreover have "map_count s r (v # vs) f = map_count s r vs f" for f using None by (simp add: map_count_def maps_to_def)
    ultimately show ?thesis
      using None ext page by (intro exI [of _ pm'] exI [of _ s']) auto
  next
    case (Some e)
    let ?f = "leaf_frame e" and ?pa = "pte_pa e"
    have own: "frame_of (ms_pmm s) ?f \<noteq> Reserved" using Cons.prems(4) Some by (auto simp: pages_ok_def)
    have pa: "?pa \<noteq> PA_INVALID" "page_index ?pa = ?f"
      using leaf_valid [OF accountedD(3) [OF acc] own] by (simp_all add: leaf_frame_def)
    have rR: "pml4_frame pm \<in> R" using Cons.prems(2,3) by simp
    obtain b pm1 s1 where rm: "pmap_remove pm v s = (b, pm1, s1)" "pml4_frame pm1 = pml4_frame pm"
        "accounted (take_over s (pml4_frame pm) v h) s1 R" "ms_pmm s1 = ms_pmm s"
        "\<forall>r' \<in> R. \<forall>x. user_va x \<longrightarrow> pmap_leaf s1 r' x =
          (if r' = pml4_frame pm \<and> x div PAGE_SIZE = v div PAGE_SIZE then None else pmap_leaf s r' x)"
      using acc_remove [OF acc rR v] by metis
    have mem1: "\<forall>g. g \<notin> tables s R user_paths \<longrightarrow> ms_mem s1 g = ms_mem s g"
        "tables s1 R user_paths = tables s R user_paths"
      using remove_user [OF accountedD(2) [OF acc] rR v(1) rm(1)] by blast+
    have take: "take_over s (pml4_frame pm) v h = h(?f := Suc (h ?f))"
      using Some own Cons.prems(2) by (simp add: take_over_def)
    have pos: "0 < (h(?f := Suc (h ?f))) (page_index ?pa)" using pa(2) by simp
    from acc_free [OF rm(3) [unfolded take] pos pte_pa_aligned]
    obtain s2 n where s2: "free_frame ?pa s1 = Ret s2"
        "accounted ((h(?f := Suc (h ?f)))(page_index ?pa := (h(?f := Suc (h ?f))) (page_index ?pa) - 1)) s2 R"
        "ms_mem s2 = ms_mem s1" "frame_of (ms_pmm s1) (page_index ?pa) = Owned n"
        "frame_of (ms_pmm s2) = (frame_of (ms_pmm s1))(page_index ?pa := if n = 1 then Free else Owned (n - 1))"
        "tables s2 R user_paths = tables s1 R user_paths"
        "\<And>r x. r \<in> R \<Longrightarrow> user_va x \<Longrightarrow> pmap_leaf s2 r x = pmap_leaf s1 r x" by metis
    have acc2: "accounted h s2 R" using s2(2) by (simp add: pa(2))
    have leaf2: "pmap_leaf s2 r' x = (if r' = r \<and> x div PAGE_SIZE = v div PAGE_SIZE then None else pmap_leaf s r' x)"
      if "r' \<in> R" "user_va x" for r' x
      using s2(7) rm(5) that Cons.prems(2) by simp
    have other: "pmap_leaf s2 r x = pmap_leaf s r x" if "x \<in> set vs" for x
    proof -
      have x: "user_va x" "page_aligned x" "x \<noteq> v" using Cons.prems(4) that dist by (auto simp: pages_ok_def)
      then show ?thesis using leaf2 [OF Cons.prems(3) x(1)] aligned_page_eq [OF x(2) v(2)] by simp
    qed
    have frame2: "frame_of (ms_pmm s2) f = drop_owners (if f = ?f then 1 else 0) (frame_of (ms_pmm s) f)" for f
      using s2(4,5) rm(4) pa(2) drop_owners_0 [OF accountedD(3) [OF acc], of f]
        accountedD(3) [OF acc] frame_of_Owned_iff [of "ms_pmm s" ?f n] by (auto simp: pmm_inv_def)
    have "pages_ok s2 r vs"
      unfolding pages_ok_def
    proof (intro conjI ballI allI impI)
      show "distinct vs" using Cons.prems(4) by (simp add: pages_ok_def)
      show "user_va x" "page_aligned x" if "x \<in> set vs" for x using Cons.prems(4) that by (auto simp: pages_ok_def)
      fix x e' assume x: "x \<in> set vs" "pmap_leaf s2 r x = Some e'"
      then have "frame_of (ms_pmm s) (leaf_frame e') \<noteq> Reserved"
        using other Cons.prems(4) by (auto simp: pages_ok_def)
      then show "frame_of (ms_pmm s2) (leaf_frame e') \<noteq> Reserved"
        unfolding frame2 by (cases "frame_of (ms_pmm s) (leaf_frame e')") auto
    qed
    from Cons.IH [OF acc2 _ Cons.prems(3) this, of pm1]
    obtain pm' s' where ih: "release_pages vs pm1 s2 = Ret (pm', s')" "pml4_frame pm' = r" "accounted h s' R"
      "\<forall>r' \<in> R. \<forall>x. user_va x \<longrightarrow> pmap_leaf s' r' x =
         (if r' = r \<and> (\<exists>v \<in> set vs. x div PAGE_SIZE = v div PAGE_SIZE) then None else pmap_leaf s2 r' x)"
      "tables s' R user_paths = tables s2 R user_paths"
      "\<forall>g. g \<notin> tables s2 R user_paths \<longrightarrow> ms_mem s' g = ms_mem s2 g"
      "\<forall>f. frame_of (ms_pmm s') f = drop_owners (map_count s2 r vs f) (frame_of (ms_pmm s2) f)"
      using rm(2) Cons.prems(2) by auto
    have count: "map_count s r (v # vs) f = (if f = ?f then 1 else 0) + map_count s2 r vs f" for f
    proof -
      have "filter (maps_to s2 r f) vs = filter (maps_to s r f) vs"
        using other by (intro filter_cong) (auto simp: maps_to_def)
      then show ?thesis using Some by (auto simp: map_count_def maps_to_def)
    qed
    have "release_pages (v # vs) pm s = Ret (pm', s')"
      using ext Some pa(1) rm(1) s2(1) ih(1) by simp
    moreover have "pmap_leaf s' r' x =
         (if r' = r \<and> (\<exists>u \<in> set (v # vs). x div PAGE_SIZE = u div PAGE_SIZE) then None else pmap_leaf s r' x)"
      if "r' \<in> R" "user_va x" for r' x
      using ih(4) leaf2 that by auto
    moreover have "frame_of (ms_pmm s') f = drop_owners (map_count s r (v # vs) f) (frame_of (ms_pmm s) f)" for f
      using ih(7) by (simp only: frame2 drop_owners_add count) 
    ultimately show ?thesis
      using ih(2,3,5,6) mem1 s2(3,6) by (intro exI [of _ pm'] exI [of _ s']) auto
  qed
qed

section \<open>Pages of a range\<close>

lemma page_range_aligned:
  assumes "page_aligned lo" "page_aligned hi" "lo \<le> hi"
  shows "page_range lo hi = map (\<lambda>k. lo + k * PAGE_SIZE) [0..<(hi - lo) div PAGE_SIZE]"
proof -
  have "(hi - lo) mod PAGE_SIZE = 0" using assms(1,2) unfolding page_aligned_def mod_eq_0_iff_dvd by (rule dvd_diff_nat [rotated])
  then have "(hi - lo + (PAGE_SIZE - 1)) div PAGE_SIZE = (hi - lo) div PAGE_SIZE"
    using PAGE_SIZE_pos by (auto simp: mod_eq_0_iff_dvd elim!: dvdE)
  then show ?thesis by (simp add: page_range_def)
qed

lemma in_page_range:
  assumes "page_aligned lo" "page_aligned hi" "lo \<le> hi"
  shows "v \<in> set (page_range lo hi) \<longleftrightarrow> page_aligned v \<and> lo \<le> v \<and> v < hi"
proof -
  obtain a b where ab: "lo = a * PAGE_SIZE" "hi = b * PAGE_SIZE"
    using assms by (metis page_aligned_def div_mult_mod_eq add.right_neutral)
  have "a \<le> b" using assms(3) PAGE_SIZE_pos ab by simp
  then have n: "(hi - lo) div PAGE_SIZE = b - a"
    using PAGE_SIZE_pos by (simp add: ab diff_mult_distrib [symmetric])
  have "v \<in> set (page_range lo hi) \<longleftrightarrow> (\<exists>k < b - a. v = (a + k) * PAGE_SIZE)"
    unfolding page_range_aligned [OF assms] n by (auto simp: ab add_mult_distrib)
  also have "\<dots> \<longleftrightarrow> (\<exists>j. a \<le> j \<and> j < b \<and> v = j * PAGE_SIZE)"
    (is "?l \<longleftrightarrow> ?r")
  proof
    assume ?l
    then obtain k where "k < b - a" "v = (a + k) * PAGE_SIZE" by blast
    then show ?r by (intro exI [of _ "a + k"]) simp
  next
    assume ?r
    then obtain j where "a \<le> j" "j < b" "v = j * PAGE_SIZE" by blast
    then show ?l by (intro exI [of _ "j - a"]) auto
  qed
  also have "\<dots> \<longleftrightarrow> page_aligned v \<and> lo \<le> v \<and> v < hi"
    using PAGE_SIZE_pos
    by (auto simp: ab page_aligned_def elim!: dvdE simp del: PAGE_SIZE_pos simp flip: dvd_eq_mod_eq_0)
  finally show ?thesis .
qed

lemma page_range_distinct:
  "page_aligned lo \<Longrightarrow> page_aligned hi \<Longrightarrow> lo \<le> hi \<Longrightarrow> distinct (page_range lo hi)"
  using PAGE_SIZE_pos by (auto simp: page_range_aligned distinct_map intro!: inj_onI)

lemma page_range_pages:
  assumes "page_aligned lo" "page_aligned hi" "lo \<le> hi"
  shows "(\<exists>v \<in> set (page_range lo hi). x div PAGE_SIZE = v div PAGE_SIZE) \<longleftrightarrow> lo \<le> x \<and> x < hi"
proof
  assume "\<exists>v \<in> set (page_range lo hi). x div PAGE_SIZE = v div PAGE_SIZE"
  then obtain v where v: "page_aligned v" "lo \<le> v" "v < hi" "x div PAGE_SIZE = v div PAGE_SIZE"
    using in_page_range [OF assms] by blast
  have "PA_ROUND_DOWN x = v" using v(1,4) page_aligned_ROUND_DOWN [of v] by (simp add: PA_ROUND_DOWN_div)
  then have le: "v \<le> x" using PA_ROUND_DOWN_le [of x] by simp
  have "hi div PAGE_SIZE * PAGE_SIZE = hi" using assms(2) page_aligned_ROUND_DOWN [of hi] by (simp add: PA_ROUND_DOWN_div)
  then have "x < hi"
    using v(3,4) PAGE_SIZE_pos by (metis div_le_mono leI le_antisym less_irrefl div_times_less_eq_dividend nat_less_le page_aligned_ROUND_DOWN PA_ROUND_DOWN_div v(1))
  then show "lo \<le> x \<and> x < hi" using v(2) le by simp
next
  assume x: "lo \<le> x \<and> x < hi"
  have "lo \<le> PA_ROUND_DOWN x"
    using x assms(1) page_aligned_ROUND_DOWN [of lo] by (metis PA_ROUND_DOWN_div div_le_mono mult_le_mono1)
  moreover have "PA_ROUND_DOWN x < hi" using x PA_ROUND_DOWN_le [of x] by linarith
  ultimately have "PA_ROUND_DOWN x \<in> set (page_range lo hi)" using in_page_range [OF assms] by simp
  moreover have "x div PAGE_SIZE = PA_ROUND_DOWN x div PAGE_SIZE" using PAGE_SIZE_pos by (simp add: PA_ROUND_DOWN_div)
  ultimately show "\<exists>v \<in> set (page_range lo hi). x div PAGE_SIZE = v div PAGE_SIZE" by blast
qed

section \<open>Releasing a range of a map\<close>

definition anon_at :: "vm_map \<Rightarrow> u64 \<Rightarrow> bool" where
  "anon_at m x \<longleftrightarrow> (\<exists>ob off p fl. view m x = Some (ob, off, p, fl) \<and> has fl VME_F_ANON)"

lemma anon_at_entry:
  assumes "vm_map_wf m"
  shows "anon_at m x \<longleftrightarrow> (\<exists>e \<in> set (vm_entries m). covers e x \<and> has (vme_flags e) VME_F_ANON)"
proof
  assume "anon_at m x"
  then show "\<exists>e \<in> set (vm_entries m). covers e x \<and> has (vme_flags e) VME_F_ANON"
    by (auto simp: anon_at_def view_def find_Some_iff entry_says_def)
next
  assume "\<exists>e \<in> set (vm_entries m). covers e x \<and> has (vme_flags e) VME_F_ANON"
  then show "anon_at m x" using view_Some [OF assms] by (auto simp: anon_at_def entry_says_def)
qed

lemma release_covered_iff:
  assumes "entries_ok lo hi es" "covered \<le> lim"
  shows "lim \<le> release_covered es lim covered \<longleftrightarrow>
    (\<forall>x. covered \<le> x \<and> x < lim \<longrightarrow> (\<exists>e \<in> set es. covers e x \<and> has (vme_flags e) VME_F_ANON))"
  using assms
proof (induction es arbitrary: covered)
  case Nil
  then show ?case by (auto simp: not_le)
next
  case (Cons e es)
  have e: "vme_start e < vme_end e" using Cons.prems(1) by (simp add: entry_ok_def)
  have later: "vme_end e \<le> vme_start e'" if "e' \<in> set es" for e' using Cons.prems(1) that by (auto simp: before_def)
  have es: "entries_ok lo hi es" using Cons.prems(1) by simp
  have rest: "(\<exists>e' \<in> set (e # es). covers e' x \<and> has (vme_flags e') VME_F_ANON) \<longleftrightarrow>
      (\<exists>e' \<in> set es. covers e' x \<and> has (vme_flags e') VME_F_ANON)" if "vme_end e \<le> x" for x
    using that by (auto simp: covers_def)
  have none: "\<not> (\<exists>e' \<in> set es. covers e' x \<and> has (vme_flags e') VME_F_ANON)" if "x < vme_end e" for x
    using later that by (fastforce simp: covers_def)
  consider "covered = lim" | "covered < lim" "vme_end e \<le> covered" | "covered < lim" "covered < vme_end e" "covered < vme_start e"
    | "covered < lim" "covered < vme_end e" "vme_start e \<le> covered" "\<not> has (vme_flags e) VME_F_ANON"
    | "covered < lim" "covered < vme_end e" "vme_start e \<le> covered" "has (vme_flags e) VME_F_ANON"
    using Cons.prems(2) by linarith
  then show ?case
  proof cases
    case 1
    then show ?thesis by auto
  next
    case 2
    then show ?thesis using Cons.IH [OF es Cons.prems(2)] rest by (auto simp del: list.set)
  next
    case 3
    then have "\<not> (\<exists>e' \<in> set (e # es). covers e' covered \<and> has (vme_flags e') VME_F_ANON)"
      using none by (auto simp: covers_def)
    then show ?thesis using 3 by (auto simp del: list.set)
  next
    case 4
    then have "\<not> (\<exists>e' \<in> set (e # es). covers e' covered \<and> has (vme_flags e') VME_F_ANON)" using none by auto
    then show ?thesis using 4 by (auto simp del: list.set)
  next
    case 5
    have eq: "release_covered (e # es) lim covered = release_covered es lim (vme_end e)" using 5 by simp
    show ?thesis
    proof (cases "vme_end e \<le> lim")
      case True
      have all: "(\<forall>x. covered \<le> x \<and> x < lim \<longrightarrow> P x) \<longleftrightarrow> (\<forall>x. vme_end e \<le> x \<and> x < lim \<longrightarrow> Q x)"
        if "\<forall>x. vme_end e \<le> x \<longrightarrow> P x = Q x" "\<forall>x. covered \<le> x \<and> x < vme_end e \<longrightarrow> P x" for P Q
        using that 5(2) by (meson leI less_imp_le_nat order_trans)
      have "(\<forall>x. covered \<le> x \<and> x < lim \<longrightarrow> (\<exists>e' \<in> set (e # es). covers e' x \<and> has (vme_flags e') VME_F_ANON)) \<longleftrightarrow>
          (\<forall>x. vme_end e \<le> x \<and> x < lim \<longrightarrow> (\<exists>e' \<in> set es. covers e' x \<and> has (vme_flags e') VME_F_ANON))"
        by (rule all, use rest in blast) (use 5 in \<open>auto simp: covers_def\<close>)
      then show ?thesis unfolding eq Cons.IH [OF es True] by (rule sym)
    next
      case False
      have "release_covered es lim (vme_end e) = vme_end e" using False by (cases es) simp_all
      moreover have "\<exists>e' \<in> set (e # es). covers e' x \<and> has (vme_flags e') VME_F_ANON" if "covered \<le> x" "x < lim" for x
        using that 5 False unfolding covers_def by (intro bexI [of _ e]) simp_all
      moreover have "lim \<le> vme_end e" using False by simp
      ultimately show ?thesis unfolding eq by metis
    qed
  qed
qed

lemma view_SomeD:
  assumes "view m va = Some (ob, off, p, fl)"
  obtains e where "e \<in> set (vm_entries m)" "covers e va" "vme_flags e = fl" "vme_prot e = p"
proof -
  obtain e where "find (\<lambda>e. covers e va) (vm_entries m) = Some e" "entry_says e va = (ob, off, p, fl)"
    using assms by (auto simp: view_def)
  then show thesis using that [of e] find_Some_iff [of _ "vm_entries m" e] by (auto simp: entry_says_def)
qed

text \<open>The condition on anonymous memory, by what the map says of each page.\<close>

lemma anon_ok_view:
  assumes wf: "vm_map_wf m"
  shows "anon_ok m s r \<longleftrightarrow> (\<forall>va ob off p fl. page_aligned va \<longrightarrow> view m va = Some (ob, off, p, fl) \<longrightarrow>
    (has fl VME_F_COW \<longrightarrow> has fl VME_F_ANON) \<and>
    (has fl VME_F_ANON \<longrightarrow> (\<forall>w. pmap_leaf s r va = Some w \<longrightarrow> frame_of (ms_pmm s) (leaf_frame w) \<noteq> Reserved)))"
    (is "_ \<longleftrightarrow> ?v")
proof
  assume ok: "anon_ok m s r"
  show ?v
  proof (intro allI impI)
    fix va ob off p fl assume va: "page_aligned va" "view m va = Some (ob, off, p, fl)"
    then obtain e where e: "e \<in> set (vm_entries m)" "covers e va" "vme_flags e = fl" using view_SomeD by blast
    then show "(has fl VME_F_COW \<longrightarrow> has fl VME_F_ANON) \<and>
      (has fl VME_F_ANON \<longrightarrow> (\<forall>w. pmap_leaf s r va = Some w \<longrightarrow> frame_of (ms_pmm s) (leaf_frame w) \<noteq> Reserved))"
      using anon_okD [OF ok e(1)] va(1) by blast
  qed
next
  assume v: ?v
  show "anon_ok m s r"
    unfolding anon_ok_def
  proof (intro ballI conjI impI allI)
    fix e assume e: "e \<in> set (vm_entries m)"
    have eok: "entry_ok (vm_lo m) (vm_hi m) e" using wf e by (auto simp: vm_map_wf_def entries_ok_def)
    have start: "covers e (vme_start e)" "page_aligned (vme_start e)" using eok by (auto simp: covers_def entry_ok_def)
    show "has (vme_flags e) VME_F_ANON" if "has (vme_flags e) VME_F_COW"
      using v start(2) view_Some [OF wf e start(1)] that by (auto simp: entry_says_def)
    fix va w assume a: "has (vme_flags e) VME_F_ANON" "covers e va" "page_aligned va" "pmap_leaf s r va = Some w"
    show "frame_of (ms_pmm s) (leaf_frame w) \<noteq> Reserved"
      using v a view_Some [OF wf e a(2)] by (auto simp: entry_says_def)
  qed
qed

lemma task_recut:
  assumes "task_ok B R r h (m, pm, st, s)" "vm_map_wf m'" "\<And>x. view m' x = view m x" "vm_lo m' = vm_lo m" "vm_hi m' = vm_hi m"
  shows "task_ok B R r h (m', pm, st', s)"
  using assms task_okD [OF assms(1)] anon_ok_view [OF assms(2)] anon_ok_view [OF task_okD(5) [OF assms(1)]]
  by (simp add: task_ok_def)

text \<open>What \<open>vm_map_release\<close> asks of its range.\<close>

definition releasable :: "vm_map \<Rightarrow> u64 \<Rightarrow> u64 \<Rightarrow> bool" where
  "releasable m va sz \<longleftrightarrow> 0 < sz \<and> page_aligned va \<and> page_aligned sz \<and> vm_lo m \<le> va \<and> va + sz \<le> vm_hi m \<and>
     (\<forall>x. va \<le> x \<and> x < va + sz \<longrightarrow> anon_at m x)"

lemma release_refused:
  assumes wf: "vm_map_wf m" and b: "va < 2 ^ 64" "sz < 2 ^ 64" and no: "\<not> releasable m va sz"
  shows "vm_map_release ok1 ok2 m pm va sz st s = Ret (False, m, pm, st, s)"
proof (cases "sz = 0 \<or> \<not> page_aligned va \<or> \<not> page_aligned sz \<or> add64 va sz < va \<or> va < vm_lo m \<or> vm_hi m < add64 va sz")
  case True
  then show ?thesis by (auto simp: vm_map_release_def Let_def)
next
  case False
  then have sum: "add64 va sz = va + sz" using add64_no_wrap_iff [OF b] add64_small by (simp add: not_less)
  then have "\<not> (\<forall>x. va \<le> x \<and> x < va + sz \<longrightarrow> anon_at m x)" using False no by (auto simp: releasable_def)
  then have "release_covered (vm_entries m) (va + sz) va < va + sz"
    using release_covered_iff [of "vm_lo m" "vm_hi m" "vm_entries m" va "va + sz"] wf
    by (auto simp: anon_at_entry [OF wf] vm_map_wf_def not_le)
  then show ?thesis using False sum by (auto simp: vm_map_release_def Let_def)
qed

lemma release_admitted:
  assumes wf: "vm_map_wf m" and yes: "releasable m va sz"
  shows "vm_map_release ok1 ok2 m pm va sz st s =
    kbind (vm_map_clip_locked ok1 m va st) (\<lambda>(m1, st1, r1).
      if \<not> r1 then Ret (False, m1, pm, st1, s)
      else kbind (vm_map_clip_locked ok2 m1 (va + sz) st1) (\<lambda>(m2, st2, r2).
        if \<not> r2 then Ret (False, m2, pm, st2, s)
        else kbind (release_pages (page_range va (va + sz)) pm s) (\<lambda>(pm1, s1).
          case vm_map_remove m2 va sz st2 of (m3, st3, _) \<Rightarrow> Ret (True, m3, pm1, st3, s1))))"
proof -
  have "va + sz < 2 ^ 64" using yes wf by (auto simp: releasable_def vm_map_wf_def)
  then have sum: "add64 va sz = va + sz" by (rule add64_small)
  have "va + sz \<le> release_covered (vm_entries m) (va + sz) va"
    using release_covered_iff [of "vm_lo m" "vm_hi m" "vm_entries m" va "va + sz"] wf yes
    by (auto simp: anon_at_entry [OF wf] vm_map_wf_def releasable_def)
  then show ?thesis using yes by (simp add: vm_map_release_def Let_def sum releasable_def)
qed

lemma releasable_pages:
  assumes ok: "task_ok B R r h (m, pm, st, s)" and yes: "releasable m va sz"
  shows "pages_ok s r (page_range va (va + sz))"
proof -
  have al: "page_aligned va" "page_aligned (va + sz)" "va \<le> va + sz"
    using yes by (auto simp: releasable_def page_aligned_def)
  show ?thesis
    unfolding pages_ok_def
  proof (intro conjI ballI allI impI)
    show "distinct (page_range va (va + sz))" by (rule page_range_distinct [OF al])
    fix v assume "v \<in> set (page_range va (va + sz))"
    then have v: "page_aligned v" "va \<le> v" "v < va + sz" using in_page_range [OF al] by auto
    then show "page_aligned v" "user_va v"
      using yes task_okD(6,7) [OF ok] by (auto simp: releasable_def user_va_def VM_USER_VA_LO_def VM_USER_VA_HI_def)
    fix e assume "pmap_leaf s r v = Some e"
    then show "frame_of (ms_pmm s) (leaf_frame e) \<noteq> Reserved"
      using yes v anon_ok_view [OF task_okD(5) [OF ok]] task_okD(9) [OF ok] by (auto simp: releasable_def anon_at_def)
  qed
qed

lemma release_range:
  assumes ok: "task_ok B R r h (m, pm, st, s)" and yes: "releasable m va sz"
  obtains pm' s' where "release_pages (page_range va (va + sz)) pm s = Ret (pm', s')" "pml4_frame pm' = r" "accounted h s' R"
    "\<forall>r' \<in> R. \<forall>x. user_va x \<longrightarrow> pmap_leaf s' r' x =
       (if r' = r \<and> va \<le> x \<and> x < va + sz then None else pmap_leaf s r' x)"
    "\<forall>g. g \<notin> tables s R user_paths \<longrightarrow> ms_mem s' g = ms_mem s g"
    "\<forall>f. frame_of (ms_pmm s') f = drop_owners (map_count s r (page_range va (va + sz)) f) (frame_of (ms_pmm s) f)"
proof -
  have al: "page_aligned va" "page_aligned (va + sz)" "va \<le> va + sz"
    using yes by (auto simp: releasable_def page_aligned_def)
  show thesis
    using that release_pages_ok [OF task_okD(1,3,2) [OF ok] releasable_pages [OF ok yes]]
    unfolding page_range_pages [OF al] by blast
qed

text \<open>
  The task after the pages of a range have been released and the range taken out of its map.
\<close>

lemma released_task:
  assumes ok: "task_ok B R r h (m, pm, st, s)" and acc: "accounted h s' R" and pm: "pml4_frame pm' = r"
    and wf: "vm_map_wf m'" "vm_lo m' = vm_lo m" "vm_hi m' = vm_hi m"
    and view: "\<And>x. view m' x = (if lo \<le> x \<and> x < hi then None else view m x)"
    and leaf: "\<And>x. user_va x \<Longrightarrow> pmap_leaf s' r x = (if lo \<le> x \<and> x < hi then None else pmap_leaf s r x)"
    and frames: "\<And>f. frame_of (ms_pmm s') f = drop_owners (k f) (frame_of (ms_pmm s) f)"
  shows "task_ok B R r h (m', pm', st', s')"
proof -
  have res: "frame_of (ms_pmm s') f = Reserved \<longleftrightarrow> frame_of (ms_pmm s) f = Reserved" for f
    using frames [of f] by (cases "frame_of (ms_pmm s) f") auto
  have "anon_ok m' s' r"
    unfolding anon_ok_view [OF wf(1)]
  proof (intro allI impI)
    fix va ob off p fl assume va: "page_aligned va" "view m' va = Some (ob, off, p, fl)"
    then have out: "\<not> (lo \<le> va \<and> va < hi)" "view m va = Some (ob, off, p, fl)" using view [of va] by (auto split: if_splits)
    then obtain e where e: "e \<in> set (vm_entries m)" "covers e va" using view_SomeD by blast
    then have "user_va va"
      using task_okD(5-7) [OF ok]
      by (fastforce simp: vm_map_wf_def entries_ok_def entry_ok_def covers_def user_va_def VM_USER_VA_LO_def VM_USER_VA_HI_def)
    then have same: "pmap_leaf s' r va = pmap_leaf s r va" using leaf out(1) by auto
    show "(has fl VME_F_COW \<longrightarrow> has fl VME_F_ANON) \<and>
      (has fl VME_F_ANON \<longrightarrow> (\<forall>w. pmap_leaf s' r va = Some w \<longrightarrow> frame_of (ms_pmm s') (leaf_frame w) \<noteq> Reserved))"
      unfolding same res using anon_ok_view [OF task_okD(5) [OF ok]] task_okD(9) [OF ok] va(1) out(2) by blast
  qed
  then show ?thesis using task_okD [OF ok] acc pm wf res by (simp add: task_ok_def)
qed

text \<open>C36. \<open>vm_map_release\<close> never panics and keeps the task and the accounts of frames. Given memory for the two cuts it
  succeeds exactly on a non-empty aligned range of the map that anonymous entries cover without a gap. When it
  succeeds, the range is empty in the map and in the page tables and nothing else of any address space has
  changed, every frame has lost exactly as many owners as pages of the range mapped it, becoming free with
  the last one, and no memory outside the page tables was written; when it refuses, the tables and frames are
  untouched and the map says what it said, even where one cut was made.\<close>

theorem vm_map_release_correct:
  assumes ok: "task_ok B R r h (m, pm, st, s)" and b: "va < 2 ^ 64" "sz < 2 ^ 64"
  shows "\<exists>done' m' pm' st' s'. vm_map_release ok1 ok2 m pm va sz st s = Ret (done', m', pm', st', s') \<and>
    task_ok B R r h (m', pm', st', s') \<and>
    (ok1 \<and> ok2 \<longrightarrow> done' = releasable m va sz) \<and> (done' \<longrightarrow> releasable m va sz) \<and>
    (if done' then
       (\<forall>x. view m' x = (if va \<le> x \<and> x < va + sz then None else view m x)) \<and>
       (\<forall>r' \<in> R. \<forall>x. user_va x \<longrightarrow> pmap_leaf s' r' x =
          (if r' = r \<and> va \<le> x \<and> x < va + sz then None else pmap_leaf s r' x)) \<and>
       (\<forall>f. frame_of (ms_pmm s') f =
          drop_owners (map_count s r (page_range va (va + sz)) f) (frame_of (ms_pmm s) f)) \<and>
       (\<forall>g. g \<notin> tables s R user_paths \<longrightarrow> ms_mem s' g = ms_mem s g)
     else pm' = pm \<and> s' = s \<and> (\<forall>x. view m' x = view m x))"
proof (cases "releasable m va sz")
  case False
  then show ?thesis using release_refused [OF task_okD(5) [OF ok] b False] ok by auto
next
  case yes: True
  note wf = task_okD(5) [OF ok]
  have al: "page_aligned va" "page_aligned (va + sz)" "va \<le> va + sz" and sz: "0 < sz" "va + sz < 2 ^ 64"
    using yes wf by (auto simp: releasable_def page_aligned_def vm_map_wf_def)
  note admitted = release_admitted [OF wf yes, of ok1 ok2 pm st s]
  obtain m1 st1 r1 where c1: "vm_map_clip_locked ok1 m va st = Ret (m1, st1, r1)" using clip_no_panic [OF wf al(1)] by blast
  note k1 = vm_map_clip_step [OF wf al(1) c1]
  obtain m2 st2 r2 where c2: "vm_map_clip_locked ok2 m1 (va + sz) st1 = Ret (m2, st2, r2)"
    using clip_no_panic [OF k1(1) al(2)] by blast
  note k2 = vm_map_clip_step [OF k1(1) al(2) c2]
  have view2: "view m2 x = view m x" for x using k1(2) k2(2) by simp
  consider "\<not> r1" | "r1" "\<not> r2" | "r1" "r2" by blast
  then show ?thesis
  proof cases
    case 1
    then show ?thesis using admitted c1 k1(5) ok by auto
  next
    case 2
    have "task_ok B R r h (m2, pm, st2, s)" by (rule task_recut [OF ok k2(1) view2]) (simp_all add: k1(6,7) k2(6,7))
    then show ?thesis using 2 admitted c1 c2 k2(5) view2 by auto
  next
    case 3
    obtain pm' s' where rel: "release_pages (page_range va (va + sz)) pm s = Ret (pm', s')" "pml4_frame pm' = r"
        "accounted h s' R"
        "\<forall>r' \<in> R. \<forall>x. user_va x \<longrightarrow> pmap_leaf s' r' x =
          (if r' = r \<and> va \<le> x \<and> x < va + sz then None else pmap_leaf s r' x)"
        "\<forall>g. g \<notin> tables s R user_paths \<longrightarrow> ms_mem s' g = ms_mem s g"
        "\<forall>f. frame_of (ms_pmm s') f = drop_owners (map_count s r (page_range va (va + sz)) f) (frame_of (ms_pmm s) f)"
      by (rule release_range [OF ok yes]) (rule that)
    obtain m3 st3 n where rm: "vm_map_remove m2 va sz st2 = (m3, st3, n)" by (cases "vm_map_remove m2 va sz st2") auto
    note k3 = vm_map_remove_step [OF k2(1) sz rm]
    have view3: "view m3 x = (if va \<le> x \<and> x < va + sz then None else view m x)" for x
      using vm_map_remove_view [OF k2(1) sz k2(4) [OF k1(3) [OF 3(1)]] k2(3) [OF 3(2)] rm] view2 by simp
    have "task_ok B R r h (m3, pm', st3, s')"
      by (rule released_task [OF ok rel(3,2) k3(1) _ _ view3])
        (use k1(6,7) k2(6,7) k3(5) rel(4,6) task_okD(2) [OF ok] in simp_all)
    then show ?thesis using 3 yes admitted c1 c2 rel rm view3 by auto
  qed
qed

theorem vm_map_release_correct_witness:
  "\<exists>m' pm' st' s'. vm_map_release True True shared_map shared_pm 0x40000000 0x1000 example_store shared_ms =
      Ret (True, m', pm', st', s') \<and> view m' 0x40000000 = None \<and> pmap_leaf s' 100 0x40000000 = None \<and>
      frame_of (ms_pmm s') (page_index shared_pa) = Owned 1"
proof -
  have wf: "vm_map_wf shared_map" using task_okD(5) [OF shared_task] .
  have rel: "releasable shared_map 0x40000000 0x1000"
    by (auto simp: releasable_def anon_at_entry [OF wf] page_aligned_def PAGE_SIZE_eq)
      (auto simp: shared_map_def shared_entry_def covers_def has_def VME_F_ANON_def VME_F_COW_def VM_USER_VA_LO_def VM_USER_VA_HI_def)
  have rng: "page_range 0x40000000 (0x40000000 + 0x1000) = [0x40000000]" by (simp add: page_range_def PAGE_SIZE_eq)
  have count: "map_count shared_ms 100 [0x40000000] (page_index shared_pa) = 1"
    by (simp add: map_count_def maps_to_def shared_leaf_at user_va_def PAGE_SIZE_eq shared_leaf_frame)
  have own: "frame_of (ms_pmm shared_ms) (page_index shared_pa) = Owned 2" using shared_frames(5) by (simp add: shared_pmm_of)
  show ?thesis
    using vm_map_release_correct [OF shared_task, of "0x40000000" "0x1000" True True example_store] rel own
    unfolding rng by (auto simp: count user_va_def)
qed

end
