(* ===== verification/Vm_Fork.thy ===== *)
theory Vm_Fork
  imports Vm_Release
begin

text \<open>
  Sharing a task's memory with a child (\<open>vm_map_fork_share\<close> of src/vm/vm.c): every page the parent has is
  entered in the child with the same frame, a writable range loses its write access on both sides and is
  marked copy-on-write, and each shared frame gains one owner. The loop over the pages of an entry and the
  loop over the entries each have one lemma, over the relation \<open>forked\<close> between the machine before and after.
\<close>

unbundle bit_operations_syntax

section \<open>Sharing pages\<close>

fun gain_owners :: "nat \<Rightarrow> frame \<Rightarrow> frame" where
  "gain_owners k (Owned n) = Owned (n + k)"
| "gain_owners k f = f"

lemma gain_owners_0 [simp]: "gain_owners 0 fr = fr"
  by (cases fr) auto

lemma gain_owners_add: "gain_owners k (gain_owners j fr) = gain_owners (j + k) fr"
  by (cases fr) auto

lemma gain_owners_state [simp]: "gain_owners k fr = Free \<longleftrightarrow> fr = Free" "gain_owners k fr = Reserved \<longleftrightarrow> fr = Reserved"
  by (cases fr; simp)+

text \<open>
  How the machine changes when the pages \<open>vs\<close> of the address space \<open>sr\<close> are shared with \<open>dr\<close>: a page of
  \<open>dr\<close> gets the frame of the same page of \<open>sr\<close> with the protection \<open>pr\<close>, and where \<open>W\<close> holds the page of
  \<open>sr\<close> gets that protection too; each frame gains one owner per new page; only frames that were free become
  page tables.
\<close>

definition forked ::
  "nat set \<Rightarrow> nat \<Rightarrow> nat \<Rightarrow> (u64 \<Rightarrow> 32 word) \<Rightarrow> (u64 \<Rightarrow> bool) \<Rightarrow> u64 list \<Rightarrow> mstate \<Rightarrow> mstate \<Rightarrow> bool" where
  "forked R sr dr pr W vs s s' \<longleftrightarrow>
     (\<forall>r \<in> R. r \<noteq> sr \<longrightarrow> r \<noteq> dr \<longrightarrow> (\<forall>x. user_va x \<longrightarrow> page_aligned x \<longrightarrow> pmap_leaf s' r x = pmap_leaf s r x)) \<and>
     (\<forall>x. user_va x \<longrightarrow> page_aligned x \<longrightarrow> pmap_leaf s' sr x = pmap_leaf s sr x \<or>
        x \<in> set vs \<and> W x \<and> (\<exists>e. pmap_leaf s sr x = Some e \<and> pmap_leaf s' sr x = Some (leaf_pte (pte_pa e) (pr x)))) \<and>
     (\<forall>x. user_va x \<longrightarrow> page_aligned x \<longrightarrow> pmap_leaf s' dr x = pmap_leaf s dr x \<or>
        x \<in> set vs \<and> (\<exists>e. pmap_leaf s sr x = Some e \<and> pmap_leaf s' dr x = Some (leaf_pte (pte_pa e) (pr x)))) \<and>
     (\<forall>f. frame_of (ms_pmm s) f \<noteq> Free \<longrightarrow>
        frame_of (ms_pmm s') f = gain_owners (map_count s' dr vs f) (frame_of (ms_pmm s) f)) \<and>
     (\<forall>f. frame_of (ms_pmm s) f = Free \<longrightarrow> frame_of (ms_pmm s') f =
        (if f \<in> tables s' R user_paths then Owned 1 else Free)) \<and>
     tables s R user_paths \<subseteq> tables s' R user_paths \<and>
     (\<forall>g \<in> tables s' R user_paths. g \<in> tables s R user_paths \<or> frame_of (ms_pmm s) g = Free) \<and>
     (\<forall>g. g \<notin> tables s R user_paths \<longrightarrow> frame_of (ms_pmm s) g \<noteq> Free \<longrightarrow> ms_mem s' g = ms_mem s g)"

lemma forkedD:
  assumes "forked R sr dr pr W vs s s'"
  shows "r \<in> R \<Longrightarrow> r \<noteq> sr \<Longrightarrow> r \<noteq> dr \<Longrightarrow> user_va x \<Longrightarrow> page_aligned x \<Longrightarrow> pmap_leaf s' r x = pmap_leaf s r x"
    "user_va x \<Longrightarrow> page_aligned x \<Longrightarrow> pmap_leaf s' sr x = pmap_leaf s sr x \<or>
        x \<in> set vs \<and> W x \<and> (\<exists>e. pmap_leaf s sr x = Some e \<and> pmap_leaf s' sr x = Some (leaf_pte (pte_pa e) (pr x)))"
    "user_va x \<Longrightarrow> page_aligned x \<Longrightarrow> pmap_leaf s' dr x = pmap_leaf s dr x \<or>
        x \<in> set vs \<and> (\<exists>e. pmap_leaf s sr x = Some e \<and> pmap_leaf s' dr x = Some (leaf_pte (pte_pa e) (pr x)))"
    "frame_of (ms_pmm s) f \<noteq> Free \<Longrightarrow>
        frame_of (ms_pmm s') f = gain_owners (map_count s' dr vs f) (frame_of (ms_pmm s) f)"
    "frame_of (ms_pmm s) f = Free \<Longrightarrow> frame_of (ms_pmm s') f = (if f \<in> tables s' R user_paths then Owned 1 else Free)"
    "tables s R user_paths \<subseteq> tables s' R user_paths"
    "g \<in> tables s' R user_paths \<Longrightarrow> g \<in> tables s R user_paths \<or> frame_of (ms_pmm s) g = Free"
    "g \<notin> tables s R user_paths \<Longrightarrow> frame_of (ms_pmm s) g \<noteq> Free \<Longrightarrow> ms_mem s' g = ms_mem s g"
  using assms by (auto simp: forked_def)

lemma map_count_append: "map_count s r (vs @ ws) f = map_count s r vs f + map_count s r ws f"
  by (simp add: map_count_def)

lemma map_count_cong: "(\<And>v. v \<in> set vs \<Longrightarrow> pmap_leaf s' r v = pmap_leaf s r v) \<Longrightarrow> map_count s' r vs f = map_count s r vs f"
  unfolding map_count_def maps_to_def by (rule arg_cong [where f = length], rule filter_cong) auto

lemma map_count_pos:
  "0 < map_count s r vs f \<longleftrightarrow> (\<exists>v \<in> set vs. \<exists>e. pmap_leaf s r v = Some e \<and> leaf_frame e = f)"
  by (auto simp: map_count_def maps_to_def filter_empty_conv)

lemma forked_trans:
  assumes f1: "forked R sr dr pr W vs s s1" and f2: "forked R sr dr pr W ws s1 s2"
    and acc: "accounted h s1 R" "accounted h' s2 R" and dr: "dr \<in> R"
    and pages: "\<forall>v \<in> set (vs @ ws). user_va v \<and> page_aligned v" and disj: "set vs \<inter> set ws = {}"
  shows "forked R sr dr pr W (vs @ ws) s s2"
proof -
  have src: "pmap_leaf s1 sr x = pmap_leaf s sr x" if "user_va x" "page_aligned x" "x \<in> set ws" for x
    using forkedD(2) [OF f1 that(1,2)] disj that(3) by blast
  have dst: "pmap_leaf s2 dr x = pmap_leaf s1 dr x" if "x \<in> set vs" for x
    using forkedD(3) [OF f2, of x] pages disj that by auto
  have count: "map_count s2 dr (vs @ ws) f = map_count s1 dr vs f + map_count s2 dr ws f" for f
    using map_count_cong [of vs s2 dr s1 f] dst by (simp add: map_count_append)
  have notab: "map_count s2 dr ws f = 0" if "f \<in> tables s2 R user_paths" for f
  proof (rule ccontr)
    assume "map_count s2 dr ws f \<noteq> 0"
    then obtain v e where v: "v \<in> set ws" "pmap_leaf s2 dr v = Some e" "leaf_frame e = f" using map_count_pos [of s2 dr ws f] by auto
    then show False using accounted_leaf(3) [OF acc(2) dr _ _ v(2)] pages that by auto
  qed
  show ?thesis
    unfolding forked_def
  proof (intro conjI ballI allI impI)
    show "pmap_leaf s2 r x = pmap_leaf s r x" if "r \<in> R" "r \<noteq> sr" "r \<noteq> dr" "user_va x" "page_aligned x" for r x
      using forkedD(1) [OF f1 that] forkedD(1) [OF f2 that] by simp
    show "pmap_leaf s2 sr x = pmap_leaf s sr x \<or> x \<in> set (vs @ ws) \<and> W x \<and>
        (\<exists>e. pmap_leaf s sr x = Some e \<and> pmap_leaf s2 sr x = Some (leaf_pte (pte_pa e) (pr x)))"
      if "user_va x" "page_aligned x" for x
      using forkedD(2) [OF f1 that] forkedD(2) [OF f2 that] src [OF that] by (cases "x \<in> set ws") auto
    show "pmap_leaf s2 dr x = pmap_leaf s dr x \<or> x \<in> set (vs @ ws) \<and>
        (\<exists>e. pmap_leaf s sr x = Some e \<and> pmap_leaf s2 dr x = Some (leaf_pte (pte_pa e) (pr x)))"
      if "user_va x" "page_aligned x" for x
      using forkedD(3) [OF f1 that] forkedD(3) [OF f2 that] src [OF that] dst [of x] by (cases "x \<in> set ws") auto
    show "frame_of (ms_pmm s2) f = gain_owners (map_count s2 dr (vs @ ws) f) (frame_of (ms_pmm s) f)"
      if "frame_of (ms_pmm s) f \<noteq> Free" for f
      using forkedD(4) [OF f1 that] forkedD(4) [OF f2, of f] that by (simp add: count gain_owners_add)
    show "frame_of (ms_pmm s2) f = (if f \<in> tables s2 R user_paths then Owned 1 else Free)"
      if "frame_of (ms_pmm s) f = Free" for f
      using forkedD(5) [OF f1 that] forkedD(5) [OF f2, of f] forkedD(4) [OF f2, of f] forkedD(6) [OF f2] notab [of f]
      by (auto split: if_splits)
    show "tables s R user_paths \<subseteq> tables s2 R user_paths" using forkedD(6) [OF f1] forkedD(6) [OF f2] by blast
    show "g \<in> tables s R user_paths \<or> frame_of (ms_pmm s) g = Free" if "g \<in> tables s2 R user_paths" for g
      using forkedD(7) [OF f2 that] forkedD(7) [OF f1, of g] forkedD(4) [OF f1, of g] by (cases "frame_of (ms_pmm s) g = Free") auto
    show "ms_mem s2 g = ms_mem s g" if "g \<notin> tables s R user_paths" "frame_of (ms_pmm s) g \<noteq> Free" for g
      using forkedD(8) [OF f1 that] forkedD(8) [OF f2, of g] forkedD(7) [OF f1, of g] forkedD(4) [OF f1 that(2)] that by auto
  qed
qed

lemma forked_refl:
  assumes "accounted h s R" "\<forall>f. map_count s dr vs f = 0"
  shows "forked R sr dr pr W vs s s"
proof -
  have "frame_of (ms_pmm s) g \<noteq> Free" if "g \<in> tables s R user_paths" for g
    using that accountedD(2) [OF assms(1)] by (auto simp: spaces_ok_def pt_ok_def)
  then show ?thesis using assms(2) by (auto simp: forked_def)
qed

text \<open>The reference that \<open>vm_map_fork_share\<close> takes before it enters the page in the child.\<close>

lemma fork_ref:
  assumes acc: "accounted h s R" and leaf: "sr \<in> R" "user_va v" "page_aligned v" "pmap_leaf s sr v = Some e"
    and fr: "if owned then frame_of (ms_pmm s) (leaf_frame e) = Owned n \<and> n + 1 < 2 ^ 16
             else frame_of (ms_pmm s) (leaf_frame e) = Reserved"
  obtains s1 h1 where
    "(if owned then kbind (pmm_page_ref (pte_pa e) (ms_pmm s)) (\<lambda>a. Ret (s\<lparr>ms_pmm := a\<rparr>)) else Ret s) = Ret s1"
    "accounted h1 s1 R" "ms_mem s1 = ms_mem s" "tables s1 R user_paths = tables s R user_paths"
    "frame_of (ms_pmm s1) = (frame_of (ms_pmm s))(leaf_frame e := gain_owners 1 (frame_of (ms_pmm s) (leaf_frame e)))"
    "\<forall>r \<in> R. \<forall>x. user_va x \<longrightarrow> pmap_leaf s1 r x = pmap_leaf s r x"
    "0 < h1 (page_index (pte_pa e)) \<or>
      frame_of (ms_pmm s1) (page_index (pte_pa e)) = Reserved \<and> page_index (pte_pa e) \<notin> tables s1 R user_paths"
    "h1(page_index (pte_pa e) := h1 (page_index (pte_pa e)) - 1) = h" "owned \<longrightarrow> 0 < h1 (page_index (pte_pa e))"
    "\<not> owned \<longrightarrow> h1 = h"
proof (cases owned)
  case True
  have nt: "page_index (pte_pa e) \<notin> tables s R user_paths"
    using accounted_leaf(3) [OF acc leaf] by (simp add: leaf_frame_def)
  obtain a where a: "pmm_page_ref (pte_pa e) (ms_pmm s) = Ret a"
      "accounted (h(page_index (pte_pa e) := Suc (h (page_index (pte_pa e))))) (s\<lparr>ms_pmm := a\<rparr>) R"
      "frame_of a = (frame_of (ms_pmm s))(page_index (pte_pa e) := Owned (n + 1))"
      "tables (s\<lparr>ms_pmm := a\<rparr>) R user_paths = tables s R user_paths"
      "\<And>r x. r \<in> R \<Longrightarrow> user_va x \<Longrightarrow> pmap_leaf (s\<lparr>ms_pmm := a\<rparr>) r x = pmap_leaf s r x"
    using acc_ref [OF acc pte_pa_aligned, of e n] fr True nt by (metis leaf_frame_def)
  show thesis
    by (rule that [OF _ a(2) _ a(4)]) (use a True fr in \<open>auto simp: leaf_frame_def\<close>)
next
  case False
  have "h (leaf_frame e) = 0" using accountedD(6) [OF acc, of "leaf_frame e"] fr False by force
  then show thesis
    using False fr acc accounted_leaf(3) [OF acc leaf] by (intro that [of s h]) (auto simp: leaf_frame_def)
qed

text \<open>Sharing one page, from the leaf entries before and after.\<close>

lemma forked_one:
  assumes acc: "accounted h s R"
    and s1: "ms_mem s1 = ms_mem s" "tables s1 R user_paths = tables s R user_paths"
      "frame_of (ms_pmm s1) = (frame_of (ms_pmm s))(f := gain_owners 1 (frame_of (ms_pmm s) f))"
    and f: "frame_of (ms_pmm s) f \<noteq> Free" and und: "undisturbed s1 R s2"
    and other: "\<And>r x. r \<in> R \<Longrightarrow> r \<noteq> sr \<Longrightarrow> r \<noteq> dr \<Longrightarrow> user_va x \<Longrightarrow> page_aligned x \<Longrightarrow> pmap_leaf s2 r x = pmap_leaf s r x"
    and src: "\<And>x. user_va x \<Longrightarrow> page_aligned x \<Longrightarrow> pmap_leaf s2 sr x = pmap_leaf s sr x \<or>
      x = v \<and> W v \<and> (\<exists>e. pmap_leaf s sr v = Some e \<and> pmap_leaf s2 sr v = Some (leaf_pte (pte_pa e) (pr v)))"
    and dst: "\<And>x. user_va x \<Longrightarrow> page_aligned x \<Longrightarrow> x \<noteq> v \<Longrightarrow> pmap_leaf s2 dr x = pmap_leaf s dr x"
    and leaf: "pmap_leaf s sr v = Some e" "leaf_frame e = f" "pmap_leaf s2 dr v = Some (leaf_pte (pte_pa e) (pr v))"
  shows "forked R sr dr pr W [v] s s2"
proof -
  have "leaf_frame (leaf_pte (pte_pa e) (pr v)) = f"
    using leaf_frame_pte [OF pte_pa_aligned pte_pa_lt] leaf(2) by (simp add: leaf_frame_def)
  then have cnt: "map_count s2 dr [v] g = (if g = f then 1 else 0)" for g
    using leaf(3) by (auto simp: map_count_def maps_to_def)
  have used: "frame_of (ms_pmm s) g \<noteq> Free" if "g \<in> tables s R user_paths" for g using tables_used [OF accountedD(2) [OF acc] that] .
  have free: "frame_of (ms_pmm s1) g = Free \<longleftrightarrow> frame_of (ms_pmm s) g = Free" for g using s1(3) by simp
  show ?thesis
    unfolding forked_def
  proof (intro conjI ballI allI impI)
    show "pmap_leaf s2 r x = pmap_leaf s r x" if "r \<in> R" "r \<noteq> sr" "r \<noteq> dr" "user_va x" "page_aligned x" for r x
      using other that .
    show "pmap_leaf s2 sr x = pmap_leaf s sr x \<or> x \<in> set [v] \<and> W x \<and>
        (\<exists>e. pmap_leaf s sr x = Some e \<and> pmap_leaf s2 sr x = Some (leaf_pte (pte_pa e) (pr x)))"
      if "user_va x" "page_aligned x" for x using src [OF that] by auto
    show "pmap_leaf s2 dr x = pmap_leaf s dr x \<or> x \<in> set [v] \<and>
        (\<exists>e. pmap_leaf s sr x = Some e \<and> pmap_leaf s2 dr x = Some (leaf_pte (pte_pa e) (pr x)))"
      if "user_va x" "page_aligned x" for x using dst [OF that] leaf by auto
    show "frame_of (ms_pmm s2) g = gain_owners (map_count s2 dr [v] g) (frame_of (ms_pmm s) g)"
      if "frame_of (ms_pmm s) g \<noteq> Free" for g
      using und that free [of g] s1(3) by (auto simp: undisturbed_def cnt)
    show "frame_of (ms_pmm s2) g = (if g \<in> tables s2 R user_paths then Owned 1 else Free)"
      if "frame_of (ms_pmm s) g = Free" for g
      using und that free [of g] s1(2) used [of g] by (auto simp: undisturbed_def)
    show "tables s R user_paths \<subseteq> tables s2 R user_paths" using und s1(2) by (simp add: undisturbed_def)
    show "g \<in> tables s R user_paths \<or> frame_of (ms_pmm s) g = Free" if "g \<in> tables s2 R user_paths" for g
      using und that s1(2) free by (auto simp: undisturbed_def)
    show "ms_mem s2 g = ms_mem s g" if "g \<notin> tables s R user_paths" "frame_of (ms_pmm s) g \<noteq> Free" for g
      using und that s1(1,2) free by (simp add: undisturbed_def)
  qed
qed

text \<open>A page that could not be entered in the child leaves everything as it was, new page tables apart.\<close>

lemma forked_none:
  assumes acc: "accounted h s R"
    and s1: "ms_mem s1 = ms_mem s" "tables s1 R user_paths = tables s R user_paths"
      "frame_of (ms_pmm s1) = (frame_of (ms_pmm s))(f := gain_owners 1 (frame_of (ms_pmm s) f))"
    and f: "frame_of (ms_pmm s) f \<noteq> Free" and und: "undisturbed s1 R s2"
    and s3: "ms_mem s3 = ms_mem s2" "tables s3 R user_paths = tables s2 R user_paths"
      "frame_of (ms_pmm s3) = (frame_of (ms_pmm s2))(f := frame_of (ms_pmm s) f)"
    and leafs: "\<And>r x. r \<in> R \<Longrightarrow> user_va x \<Longrightarrow> pmap_leaf s3 r x = pmap_leaf s r x"
    and R: "sr \<in> R" "dr \<in> R" and v: "user_va v" "pmap_leaf s dr v = None"
  shows "forked R sr dr pr W [v] s s3"
proof -
  have cnt: "map_count s3 dr [v] g = 0" for g using leafs [OF R(2) v(1)] v(2) by (simp add: map_count_def maps_to_def)
  have used: "frame_of (ms_pmm s) g \<noteq> Free" if "g \<in> tables s R user_paths" for g using tables_used [OF accountedD(2) [OF acc] that] .
  have free: "frame_of (ms_pmm s1) g = Free \<longleftrightarrow> frame_of (ms_pmm s) g = Free" for g using s1(3) by simp
  show ?thesis
    unfolding forked_def
  proof (intro conjI ballI allI impI)
    show "frame_of (ms_pmm s3) g = gain_owners (map_count s3 dr [v] g) (frame_of (ms_pmm s) g)"
      if "frame_of (ms_pmm s) g \<noteq> Free" for g
      using und that free [of g] s1(3) s3(3) by (auto simp: undisturbed_def cnt)
    show "frame_of (ms_pmm s3) g = (if g \<in> tables s3 R user_paths then Owned 1 else Free)"
      if "frame_of (ms_pmm s) g = Free" for g
      using und that free [of g] s1(2) used [of g] s3(2,3) f by (auto simp: undisturbed_def)
    show "tables s R user_paths \<subseteq> tables s3 R user_paths" using und s1(2) s3(2) by (simp add: undisturbed_def)
    show "g \<in> tables s R user_paths \<or> frame_of (ms_pmm s) g = Free" if "g \<in> tables s3 R user_paths" for g
      using und that s1(2) s3(2) free by (auto simp: undisturbed_def)
    show "ms_mem s3 g = ms_mem s g" if "g \<notin> tables s R user_paths" "frame_of (ms_pmm s) g \<noteq> Free" for g
      using und that s1(1,2) s3(1) free by (simp add: undisturbed_def)
  qed (use leafs R in auto)
qed

definition shareable :: "bool \<Rightarrow> mstate \<Rightarrow> nat \<Rightarrow> u64 \<Rightarrow> bool" where
  "shareable owned s r v \<longleftrightarrow> (\<forall>e. pmap_leaf s r v = Some e \<longrightarrow> pte_pa e \<noteq> PA_INVALID \<and>
     (frame_of (ms_pmm s) (leaf_frame e) = Reserved \<longleftrightarrow> \<not> owned))"

lemma fork_page_ok:
  assumes acc: "accounted h s R" and R: "sr \<in> R" "dr \<in> R" "sr \<noteq> dr" and pm: "pml4_frame spm = sr" "pml4_frame dpm = dr"
    and v: "user_va v" "page_aligned v" and dst: "pmap_leaf s dr v = None"
    and leaf: "pmap_leaf s sr v = Some e" and share: "shareable owned s sr v"
    and lim: "\<forall>n. frame_of (ms_pmm s) (leaf_frame e) = Owned n \<longrightarrow> n + 1 < 2 ^ 16"
  obtains b spm1 dpm1 s1 where
    "fork_pages (v # vs) owned writable prot spm dpm s =
       (if b then fork_pages vs owned writable prot spm1 dpm1 s1 else Ret (False, spm1, dpm1, s1))"
    "accounted h s1 R" "pml4_frame spm1 = sr" "pml4_frame dpm1 = dr"
    "forked R sr dr (\<lambda>_. ucast prot) (\<lambda>_. writable) [v] s s1"
    "b \<longrightarrow> pmap_leaf s1 dr v = Some (leaf_pte (pte_pa e) (ucast prot)) \<and>
       (writable \<longrightarrow> pmap_leaf s1 sr v = Some (leaf_pte (pte_pa e) (ucast prot)))"
proof -
  let ?pa = "pte_pa e" and ?f = "leaf_frame e" and ?new = "leaf_pte (pte_pa e) (ucast prot)"
  have pa: "?pa \<noteq> PA_INVALID" and res: "frame_of (ms_pmm s) ?f = Reserved \<longleftrightarrow> \<not> owned"
    using share leaf by (auto simp: shareable_def)
  have fpa: "page_index ?pa = ?f" by (simp add: leaf_frame_def)
  have ext: "pmap_extract spm v s = ?pa"
    using asp.translate_law [OF accountedD(2) [OF acc] _ v, of spm] R(1) pm(1) leaf by simp
  have nfree: "frame_of (ms_pmm s) ?f \<noteq> Free" using accounted_leaf(2) [OF acc R(1) v leaf] .
  obtain n where fr: "if owned then frame_of (ms_pmm s) ?f = Owned n \<and> n + 1 < 2 ^ 16 else frame_of (ms_pmm s) ?f = Reserved"
    using lim res nfree by (cases "frame_of (ms_pmm s) ?f") auto
  obtain s1 h1 where s1: "(if owned then kbind (pmm_page_ref ?pa (ms_pmm s)) (\<lambda>a. Ret (s\<lparr>ms_pmm := a\<rparr>)) else Ret s) = Ret s1"
    "accounted h1 s1 R" "ms_mem s1 = ms_mem s" "tables s1 R user_paths = tables s R user_paths"
    "frame_of (ms_pmm s1) = (frame_of (ms_pmm s))(?f := gain_owners 1 (frame_of (ms_pmm s) ?f))"
    "\<forall>r \<in> R. \<forall>x. user_va x \<longrightarrow> pmap_leaf s1 r x = pmap_leaf s r x"
    "0 < h1 (page_index ?pa) \<or> frame_of (ms_pmm s1) (page_index ?pa) = Reserved \<and> page_index ?pa \<notin> tables s1 R user_paths"
    "h1(page_index ?pa := h1 (page_index ?pa) - 1) = h" "owned \<longrightarrow> 0 < h1 (page_index ?pa)" "\<not> owned \<longrightarrow> h1 = h"
    by (rule fork_ref [OF acc R(1) v leaf fr]) (rule that)
  have dR: "pml4_frame dpm \<in> R" using R(2) pm(2) by simp
  have page: "x div PAGE_SIZE = v div PAGE_SIZE \<longleftrightarrow> x = v" if "page_aligned x" for x using aligned_page_eq [OF that v(2)] .
  note step = ext pa s1(1)
  show thesis
  proof (rule acc_enter [OF s1(2) dR v pte_pa_aligned pte_pa_lt s1(7), where prot = "ucast prot"])
    fix dpm1 s2 assume en: "pmap_enter dpm v ?pa (ucast prot) s1 = Ret (True, dpm1, s2)" "pml4_frame dpm1 = pml4_frame dpm"
      "undisturbed s1 R s2" "accounted (take_over s1 (pml4_frame dpm) v (h1(page_index ?pa := h1 (page_index ?pa) - 1))) s2 R"
      "\<forall>r \<in> R. \<forall>x. user_va x \<longrightarrow> pmap_leaf s2 r x =
         (if r = pml4_frame dpm \<and> x div PAGE_SIZE = v div PAGE_SIZE then Some ?new else pmap_leaf s1 r x)"
    have acc2: "accounted h s2 R" using en(4) [unfolded s1(8)] s1(6) R(2) v(1) dst pm(2) by (simp add: take_over_def)
    have leaf2: "pmap_leaf s2 r x = (if r = dr \<and> x = v then Some ?new else pmap_leaf s r x)"
      if "r \<in> R" "user_va x" "page_aligned x" for r x
      using en(5) s1(6) that pm(2) page by simp
    have leaf2v: "pmap_leaf s2 (pml4_frame spm) v = Some e" using leaf2 [OF R(1) v] R(3) leaf pm(1) by simp
    show thesis
    proof (cases writable)
      case False
      show thesis
      proof (rule that [of True spm dpm1 s2])
        show "forked R sr dr (\<lambda>_. ucast prot) (\<lambda>_. writable) [v] s s2"
          by (rule forked_one [OF acc s1(3,4,5) nfree en(3) _ _ _ leaf refl]) (use leaf2 R v in auto)
      qed (use step en(1,2) False acc2 pm leaf2 [OF R(2) v] in simp_all)
    next
      case True
      have sR: "pml4_frame spm \<in> R" using R(1) pm(1) by simp
      obtain b spm1 s3 where re: "pmap_enter spm v ?pa (ucast prot) s2 = Ret (b, spm1, s3)"
          "pml4_frame spm1 = pml4_frame spm" "undisturbed s2 R s3" "accounted h s3 R"
          "\<forall>r \<in> R. \<forall>x. user_va x \<longrightarrow> pmap_leaf s3 r x =
             (if b \<and> r = pml4_frame spm \<and> x div PAGE_SIZE = v div PAGE_SIZE then Some ?new else pmap_leaf s2 r x)"
        by (rule acc_reprotect [OF acc2 sR v pte_pa_aligned pte_pa_lt leaf2v fpa [symmetric]]) (rule that)
      have leaf3: "pmap_leaf s3 r x = (if x = v \<and> (r = dr \<or> b \<and> r = sr) then Some ?new else pmap_leaf s r x)"
        if "r \<in> R" "user_va x" "page_aligned x" for r x
        using re(5) leaf2 that pm(1) page R(3) by auto
      show thesis
      proof (rule that [of b spm1 dpm1 s3])
        show "forked R sr dr (\<lambda>_. ucast prot) (\<lambda>_. writable) [v] s s3"
          by (rule forked_one [OF acc s1(3,4,5) nfree undisturbed_trans [OF en(3) re(3)] _ _ _ leaf refl])
            (use leaf3 R v True leaf in auto)
      qed (use step en(1,2) True re(1,2,4) pm leaf3 R v in simp_all)
    qed
  next
    fix dpm1 s2 assume en: "pmap_enter dpm v ?pa (ucast prot) s1 = Ret (False, dpm1, s2)" "pml4_frame dpm1 = pml4_frame dpm"
      "undisturbed s1 R s2" "accounted h1 s2 R" "\<forall>r \<in> R. \<forall>x. user_va x \<longrightarrow> pmap_leaf s2 r x = pmap_leaf s1 r x"
    have gained: "frame_of (ms_pmm s2) ?f = gain_owners 1 (frame_of (ms_pmm s) ?f)"
      using en(3) nfree s1(5) by (simp add: undisturbed_def)
    obtain s3 where s3: "(if owned then free_frame ?pa s2 else Ret s2) = Ret s3" "accounted h s3 R" "ms_mem s3 = ms_mem s2"
        "tables s3 R user_paths = tables s2 R user_paths"
        "frame_of (ms_pmm s3) = (frame_of (ms_pmm s2))(?f := frame_of (ms_pmm s) ?f)"
        "\<forall>r \<in> R. \<forall>x. user_va x \<longrightarrow> pmap_leaf s3 r x = pmap_leaf s2 r x"
    proof (cases owned)
      case True
      obtain s3 n where f: "free_frame ?pa s2 = Ret s3" "accounted (h1(page_index ?pa := h1 (page_index ?pa) - 1)) s3 R"
          "ms_mem s3 = ms_mem s2" "frame_of (ms_pmm s2) (page_index ?pa) = Owned n"
          "frame_of (ms_pmm s3) = (frame_of (ms_pmm s2))(page_index ?pa := if n = 1 then Free else Owned (n - 1))"
          "tables s3 R user_paths = tables s2 R user_paths"
          "\<And>r x. r \<in> R \<Longrightarrow> user_va x \<Longrightarrow> pmap_leaf s3 r x = pmap_leaf s2 r x"
        by (rule acc_free [OF en(4) s1(9) [rule_format, OF True] pte_pa_aligned]) (rule that)
      obtain k where k: "frame_of (ms_pmm s) ?f = Owned k" "0 < k"
        using res True nfree accountedD(3) [OF acc] frame_of_Owned_iff [of "ms_pmm s" ?f]
        by (cases "frame_of (ms_pmm s) ?f") (auto simp: pmm_inv_def)
      have "(if n = 1 then Free else Owned (n - 1)) = frame_of (ms_pmm s) ?f" using gained f(4) k by (simp add: fpa)
      then show thesis using that [of s3] f(1,3,5,6,7) f(2) [unfolded s1(8)] True by (simp add: fpa)
    next
      case False
      then show thesis using that [of s2] en(4) s1(10) gained res by (simp add: fun_upd_idem)
    qed
    show thesis
    proof (rule that [of False spm dpm1 s3])
      show "forked R sr dr (\<lambda>_. ucast prot) (\<lambda>_. writable) [v] s s3"
        by (rule forked_none [OF acc s1(3,4,5) nfree en(3) s3(3,4,5) _ R(1,2) v(1) dst]) (use s3(6) en(5) s1(6) in simp)
    qed (use step en(1,2) s3(1,2) pm in simp_all)
  qed
qed

definition sharing_ok :: "bool \<Rightarrow> mstate \<Rightarrow> nat \<Rightarrow> nat \<Rightarrow> u64 list \<Rightarrow> bool" where
  "sharing_ok owned s sr dr vs \<longleftrightarrow>
     (\<forall>v \<in> set vs. user_va v \<and> page_aligned v \<and> pmap_leaf s dr v = None \<and> shareable owned s sr v)"

text \<open>No frame gets more owners than the allocator can count, 16 bits of them.\<close>

definition countable_owners :: "mstate \<Rightarrow> nat \<Rightarrow> u64 list \<Rightarrow> bool" where
  "countable_owners s sr vs \<longleftrightarrow> (\<forall>f n. frame_of (ms_pmm s) f = Owned n \<longrightarrow> n + map_count s sr vs f < 2 ^ 16)"

lemma forked_count_le:
  assumes "forked R sr dr pr W vs s s'" "\<forall>v \<in> set vs. user_va v \<and> page_aligned v \<and> pmap_leaf s dr v = None"
  shows "map_count s' dr vs f \<le> map_count s sr vs f"
proof -
  have "maps_to s sr f v" if v: "v \<in> set vs" "maps_to s' dr f v" for v
  proof -
    have "pmap_leaf s' dr v \<noteq> pmap_leaf s dr v" using v assms(2) by (auto simp: maps_to_def)
    then obtain e where e: "pmap_leaf s sr v = Some e" "pmap_leaf s' dr v = Some (leaf_pte (pte_pa e) (pr v))"
      using forkedD(3) [OF assms(1), of v] assms(2) v(1) by blast
    then show ?thesis
      using v(2) leaf_frame_pte [OF pte_pa_aligned pte_pa_lt, of e] by (auto simp: maps_to_def leaf_frame_def)
  qed
  then show ?thesis
    unfolding map_count_def by (induction vs) (auto simp: le_SucI)
qed

text \<open>What the pages still to be shared keep while others are.\<close>

lemma forked_rest:
  assumes f: "forked R sr dr pr W vs s s1" and acc: "accounted h s R" "accounted h1 s1 R" and R: "sr \<in> R" "dr \<in> R"
    and vs: "\<forall>v \<in> set vs. user_va v \<and> page_aligned v \<and> pmap_leaf s dr v = None"
    and ws: "\<forall>v \<in> set ws. user_va v \<and> page_aligned v" and disj: "set vs \<inter> set ws = {}"
  shows "\<And>v. v \<in> set ws \<Longrightarrow> pmap_leaf s1 sr v = pmap_leaf s sr v"
    "\<And>v. v \<in> set ws \<Longrightarrow> pmap_leaf s1 dr v = pmap_leaf s dr v"
    "\<And>v owned. v \<in> set ws \<Longrightarrow> shareable owned s sr v \<Longrightarrow> shareable owned s1 sr v"
    "countable_owners s sr (vs @ ws) \<Longrightarrow> countable_owners s1 sr ws"
proof -
  show src: "pmap_leaf s1 sr v = pmap_leaf s sr v" if "v \<in> set ws" for v
    using forkedD(2) [OF f, of v] ws disj that by blast
  show "pmap_leaf s1 dr v = pmap_leaf s dr v" if "v \<in> set ws" for v
    using forkedD(3) [OF f, of v] ws disj that by blast
  show "shareable owned s1 sr v" if v: "v \<in> set ws" "shareable owned s sr v" for v owned
  proof -
    have "frame_of (ms_pmm s1) (leaf_frame e) = Reserved \<longleftrightarrow> frame_of (ms_pmm s) (leaf_frame e) = Reserved"
      if "pmap_leaf s sr v = Some e" for e
      using forkedD(4) [OF f accounted_leaf(2) [OF acc(1) R(1) _ _ that]] ws v(1) by auto
    then show ?thesis using v src by (auto simp: shareable_def)
  qed
  show "countable_owners s1 sr ws" if lim: "countable_owners s sr (vs @ ws)"
    unfolding countable_owners_def
  proof (intro allI impI)
    fix f' n assume n: "frame_of (ms_pmm s1) f' = Owned n"
    have cnt: "map_count s1 sr ws f' = map_count s sr ws f'" by (rule map_count_cong) (rule src)
    show "n + map_count s1 sr ws f' < 2 ^ 16"
    proof (cases "frame_of (ms_pmm s) f'")
      case Free
      then have "map_count s sr ws f' = 0"
        using accounted_leaf(2) [OF acc(1) R(1)] ws map_count_pos [of s sr ws f'] by fastforce
      moreover have "n = 1" using forkedD(5) [OF f Free] n by (auto split: if_splits)
      ultimately show ?thesis using cnt by simp
    next
      case Reserved
      then show ?thesis using forkedD(4) [OF f, of f'] n by simp
    next
      case (Owned k)
      then have "n = k + map_count s1 dr vs f'" using forkedD(4) [OF f, of f'] n by simp
      moreover have "k + (map_count s sr vs f' + map_count s sr ws f') < 2 ^ 16"
        using lim Owned unfolding countable_owners_def map_count_append by blast
      ultimately show ?thesis using forked_count_le [OF f vs, of f'] cnt by simp
    qed
  qed
qed

lemma fork_pages_ok:
  assumes "accounted h s R" "pml4_frame spm = sr" "pml4_frame dpm = dr" and R: "sr \<in> R" "dr \<in> R" "sr \<noteq> dr"
    and "distinct vs" "sharing_ok owned s sr dr vs" "countable_owners s sr vs"
  shows "\<exists>b spm' dpm' s'. fork_pages vs owned writable prot spm dpm s = Ret (b, spm', dpm', s') \<and>
    accounted h s' R \<and> pml4_frame spm' = sr \<and> pml4_frame dpm' = dr \<and>
    forked R sr dr (\<lambda>_. ucast prot) (\<lambda>_. writable) vs s s' \<and>
    (b \<longrightarrow> (\<forall>v \<in> set vs.
       pmap_leaf s' dr v = map_option (\<lambda>e. leaf_pte (pte_pa e) (ucast prot)) (pmap_leaf s sr v) \<and>
       (writable \<longrightarrow> pmap_leaf s' sr v = map_option (\<lambda>e. leaf_pte (pte_pa e) (ucast prot)) (pmap_leaf s sr v))))"
  using assms(1-3,7-9)
proof (induction vs arbitrary: spm dpm s)
  case Nil
  then show ?case using forked_refl [of h s R dr "[]"] by (auto simp: map_count_def)
next
  case (Cons v vs)
  note acc = Cons.prems(1) and pm = Cons.prems(2,3)
  let ?F = "forked R sr dr (\<lambda>_. ucast prot) (\<lambda>_. writable)"
  have v: "user_va v" "page_aligned v" "pmap_leaf s dr v = None" "shareable owned s sr v"
    and vs: "\<forall>v \<in> set vs. user_va v \<and> page_aligned v \<and> pmap_leaf s dr v = None \<and> shareable owned s sr v"
    using Cons.prems(5) by (auto simp: sharing_ok_def)
  have disj: "set [v] \<inter> set vs = {}" and dist: "distinct vs" using Cons.prems(4) by auto
  have pages: "\<forall>u \<in> set ([v] @ vs). user_va u \<and> page_aligned u" using v vs by auto
  have one: "\<forall>u \<in> set [v]. user_va u \<and> page_aligned u \<and> pmap_leaf s dr u = None" using v by simp
  obtain b spm1 dpm1 s1 where st: "fork_pages (v # vs) owned writable prot spm dpm s =
        (if b then fork_pages vs owned writable prot spm1 dpm1 s1 else Ret (False, spm1, dpm1, s1))"
      "accounted h s1 R" "pml4_frame spm1 = sr" "pml4_frame dpm1 = dr" "?F [v] s s1"
      "b \<longrightarrow> pmap_leaf s1 dr v = map_option (\<lambda>e. leaf_pte (pte_pa e) (ucast prot)) (pmap_leaf s sr v) \<and>
         (writable \<longrightarrow> pmap_leaf s1 sr v = map_option (\<lambda>e. leaf_pte (pte_pa e) (ucast prot)) (pmap_leaf s sr v))"
  proof (cases "pmap_leaf s sr v")
    case None
    have "pmap_extract spm v s = PA_INVALID"
      using asp.translate_law [OF accountedD(2) [OF acc] _ v(1,2), of spm] R(1) pm(1) None by simp
    moreover have "?F [v] s s" by (rule forked_refl [OF acc]) (simp add: map_count_def maps_to_def v(3))
    ultimately show thesis using that [of True spm dpm s] acc pm None v(3) by simp
  next
    case (Some e)
    have "\<forall>n. frame_of (ms_pmm s) (leaf_frame e) = Owned n \<longrightarrow> n + 1 < 2 ^ 16"
      using Cons.prems(6) Some by (fastforce simp: countable_owners_def map_count_def maps_to_def)
    then show thesis
      by (rule fork_page_ok [OF acc R pm v(1-3) Some v(4)]) (rule that, use Some in simp_all)
  qed
  note rest = forked_rest [OF st(5) acc st(2) R(1,2) one _ disj]
  have ws: "\<forall>u \<in> set vs. user_va u \<and> page_aligned u" using vs by simp
  show ?case
  proof (cases b)
    case False
    have "map_count s1 dr vs f = 0" for f
      using rest(2) [OF ws] vs map_count_pos [of s1 dr vs f] by fastforce
    then have "?F ([v] @ vs) s s1"
      using forked_trans [OF st(5) forked_refl [OF st(2)] st(2,2) R(2) pages disj] by blast
    then show ?thesis using st(1-4) False by auto
  next
    case True
    have "sharing_ok owned s1 sr dr vs" unfolding sharing_ok_def using vs rest(2,3) [OF ws] by simp
    moreover have "countable_owners s1 sr vs" using rest(4) [OF ws] Cons.prems(6) by simp
    ultimately obtain b' spm' dpm' s' where ih: "fork_pages vs owned writable prot spm1 dpm1 s1 = Ret (b', spm', dpm', s')"
        "accounted h s' R" "pml4_frame spm' = sr" "pml4_frame dpm' = dr" "?F vs s1 s'"
        "b' \<longrightarrow> (\<forall>v \<in> set vs.
           pmap_leaf s' dr v = map_option (\<lambda>e. leaf_pte (pte_pa e) (ucast prot)) (pmap_leaf s1 sr v) \<and>
           (writable \<longrightarrow> pmap_leaf s' sr v = map_option (\<lambda>e. leaf_pte (pte_pa e) (ucast prot)) (pmap_leaf s1 sr v)))"
      using Cons.IH [OF st(2-4) dist] by blast
    have "?F ([v] @ vs) s s'" by (rule forked_trans [OF st(5) ih(5) st(2) ih(2) R(2) pages disj])
    moreover have "pmap_leaf s' sr v = pmap_leaf s1 sr v" "pmap_leaf s' dr v = pmap_leaf s1 dr v"
      using forkedD(2,3) [OF ih(5) v(1,2)] disj by auto
    ultimately show ?thesis using st(1,6) True ih rest(1) [OF ws] by auto
  qed
qed

section \<open>Sharing a map\<close>

text \<open>An entry after a fork, its pages, and the protection they are shared with.\<close>

definition writable :: "vm_map_entry \<Rightarrow> bool" where
  "writable e \<longleftrightarrow> has (vme_prot e) VM_PROT_WRITE"

definition cow_entry :: "vm_map_entry \<Rightarrow> vm_map_entry" where
  "cow_entry e = (if writable e then e\<lparr>vme_flags := vme_flags e OR VME_F_COW\<rparr> else e)"

definition entry_pages :: "vm_map_entry \<Rightarrow> u64 list" where
  "entry_pages e = page_range (vme_start e) (vme_end e)"

definition shared_prot :: "vm_map_entry \<Rightarrow> 32 word" where
  "shared_prot e = ucast (if writable e then vme_prot e AND NOT VM_PROT_WRITE else vme_prot e)"

definition entries_view :: "vm_map_entry list \<Rightarrow> u64 \<Rightarrow> (nat option \<times> u64 \<times> 8 word \<times> 8 word) option" where
  "entries_view es x = map_option (\<lambda>e. entry_says e x) (find (\<lambda>e. covers e x) es)"

lemma view_entries: "view m = entries_view (vm_entries m)"
  by (rule ext) (simp add: view_def entries_view_def)

lemma entries_view_Cons [simp]:
  "entries_view (e # es) x = (if covers e x then Some (entry_says e x) else entries_view es x)"
  by (simp add: entries_view_def)

lemma entries_view_Nil [simp]: "entries_view [] x = None"
  by (simp add: entries_view_def)

lemma entries_view_None: "entries_view es x = None \<longleftrightarrow> (\<forall>e \<in> set es. \<not> covers e x)"
  by (induction es) auto

lemma cow_entry_simps [simp]:
  "vme_start (cow_entry e) = vme_start e" "vme_end (cow_entry e) = vme_end e" "vme_prot (cow_entry e) = vme_prot e"
  "vme_object (cow_entry e) = vme_object e" "vme_offset (cow_entry e) = vme_offset e" "covers (cow_entry e) x = covers e x"
  by (simp_all add: cow_entry_def covers_def)

lemma has_or_COW [simp]: "has (fl OR VME_F_COW) VME_F_ANON = has fl VME_F_ANON" "has (fl OR VME_F_COW) VME_F_COW"
proof -
  have "VME_F_COW AND VME_F_ANON = 0" "VME_F_COW AND VME_F_COW = VME_F_COW" "VME_F_COW \<noteq> 0" by (simp_all add: VME_F_COW_def VME_F_ANON_def)
  then show "has (fl OR VME_F_COW) VME_F_ANON = has fl VME_F_ANON" "has (fl OR VME_F_COW) VME_F_COW"
    by (simp_all add: has_def bit.conj_disj_distrib2)
qed

lemma cow_entry_anon [simp]: "has (vme_flags (cow_entry e)) VME_F_ANON = has (vme_flags e) VME_F_ANON"
  by (simp add: cow_entry_def)

lemma entries_ok_cong:
  "entries_ok lo hi (as @ e # bs) \<Longrightarrow> vme_start e' = vme_start e \<Longrightarrow> vme_end e' = vme_end e \<Longrightarrow> entries_ok lo hi (as @ e' # bs)"
  by (auto simp: entries_ok_append entry_ok_def before_def)

lemma entry_pages_facts:
  assumes "entry_ok lo hi e" "VM_USER_VA_LO \<le> lo" "hi \<le> VM_USER_VA_HI"
  shows "distinct (entry_pages e)" "v \<in> set (entry_pages e) \<longleftrightarrow> page_aligned v \<and> covers e v"
    "v \<in> set (entry_pages e) \<Longrightarrow> user_va v"
proof -
  have a: "page_aligned (vme_start e)" "page_aligned (vme_end e)" "vme_start e \<le> vme_end e" using assms by (auto simp: entry_ok_def)
  show "distinct (entry_pages e)" unfolding entry_pages_def by (rule page_range_distinct [OF a])
  show mem: "v \<in> set (entry_pages e) \<longleftrightarrow> page_aligned v \<and> covers e v"
    unfolding entry_pages_def in_page_range [OF a] by (auto simp: covers_def)
  show "user_va v" if "v \<in> set (entry_pages e)"
    using that assms unfolding mem by (auto simp: covers_def entry_ok_def user_va_def VM_USER_VA_LO_def VM_USER_VA_HI_def)
qed

lemma entry_pages_disjoint:
  assumes "entries_ok lo hi (e # es)" "VM_USER_VA_LO \<le> lo" "hi \<le> VM_USER_VA_HI"
  shows "set (entry_pages e) \<inter> set (concat (map entry_pages es)) = {}"
proof -
  have "entry_ok lo hi e" and later: "\<forall>e' \<in> set es. before e e' \<and> entry_ok lo hi e'" using assms(1) by (auto simp: entries_ok_def)
  then show ?thesis using entry_pages_facts(2) [OF _ assms(2,3)] by (fastforce simp: before_def covers_def)
qed

lemma forked_cong:
  "(\<And>x. x \<in> set vs \<Longrightarrow> pr x = pr' x \<and> W x = W' x) \<Longrightarrow> forked R sr dr pr W vs s s' = forked R sr dr pr' W' vs s s'"
  unfolding forked_def by (intro conj_cong refl all_cong imp_cong disj_cong ex_cong) auto

lemma forked_extend:
  assumes "forked R sr dr pr W vs s s1" "accounted h s R" "accounted h1 s1 R" "sr \<in> R" "dr \<in> R"
    and "\<forall>v \<in> set vs. user_va v \<and> page_aligned v \<and> pmap_leaf s dr v = None"
    and "\<forall>v \<in> set ws. user_va v \<and> page_aligned v \<and> pmap_leaf s dr v = None" and disj: "set vs \<inter> set ws = {}"
  shows "forked R sr dr pr W (vs @ ws) s s1"
proof -
  have "pmap_leaf s1 dr v = None" if "v \<in> set ws" for v
    using forked_rest(2) [OF assms(1-6) _ disj] assms(7) that by auto
  then have "\<forall>f. map_count s1 dr ws f = 0" using map_count_pos [of s1 dr ws] by fastforce
  from forked_trans [OF assms(1) forked_refl [OF assms(3) this] assms(3,3,5) _ disj] show ?thesis using assms(6,7) by auto
qed

lemma fork_entries_step:
  assumes "vm_entries src = ds @ e # es"
  shows "fork_entries (length ds # is) ok src spm dst dpm st s =
    (case vm_map_enter_backed (ok (length ds)) dst (vme_start e) (vme_end e - vme_start e) (vme_prot e)
            (vme_flags (cow_entry e)) (vme_object e) (vme_offset e) of
       (dst1, r) \<Rightarrow>
         if \<not> r then Ret (False, src, spm, dst1, dpm, vm_object_deref (vme_object e) (vm_object_ref (vme_object e) st), s)
         else kbind (fork_pages (entry_pages e) (has (vme_flags e) VME_F_ANON) (writable e)
                       (if writable e then vme_prot e AND NOT VM_PROT_WRITE else vme_prot e) spm dpm s)
                (\<lambda>(r2, spm1, dpm1, s1).
                   if \<not> r2 then Ret (False, src\<lparr>vm_entries := ds @ cow_entry e # es\<rparr>, spm1, dst1, dpm1,
                                     vm_object_ref (vme_object e) st, s1)
                   else fork_entries is ok (src\<lparr>vm_entries := ds @ cow_entry e # es\<rparr>) spm1 dst1 dpm1
                          (vm_object_ref (vme_object e) st) s1))"
proof -
  have nth: "vm_entries src ! length ds = e" using assms by simp
  have cow: "e\<lparr>vme_flags := vme_flags (cow_entry e)\<rparr> = cow_entry e"
    "(if writable e then vme_flags e OR VME_F_COW else vme_flags e) = vme_flags (cow_entry e)"
    by (simp_all add: cow_entry_def)
  have upd: "(vm_entries src)[length ds := x] = ds @ x # es" for x using assms by simp
  show ?thesis
    unfolding fork_entries.simps Let_def nth cow upd cow_entry_anon writable_def [symmetric] entry_pages_def [symmetric] ..
qed

lemma wf_cow:
  assumes "vm_map_wf m" "vm_entries m = ds @ e # es"
  shows "vm_map_wf (m\<lparr>vm_entries := ds @ cow_entry e # es\<rparr>)"
  using assms entries_ok_cong [of "vm_lo m" "vm_hi m" ds e es "cow_entry e"] by (simp add: vm_map_wf_def)

definition shares_ok :: "mstate \<Rightarrow> nat \<Rightarrow> nat \<Rightarrow> vm_map_entry list \<Rightarrow> bool" where
  "shares_ok s sr dr es \<longleftrightarrow> (\<forall>e \<in> set es. sharing_ok (has (vme_flags e) VME_F_ANON) s sr dr (entry_pages e)) \<and>
     countable_owners s sr (concat (map entry_pages es))"

lemma entered_view:
  assumes "vm_map_wf m" "entry_ok lo hi e" "hi \<le> VM_USER_VA_HI"
    and enter: "vm_map_enter_backed ok m (vme_start e) (vme_end e - vme_start e) (vme_prot e)
            (vme_flags (cow_entry e)) (vme_object e) (vme_offset e) = (m', r)"
  shows "\<not> r \<Longrightarrow> m' = m" "vm_map_wf m'" "vm_lo m' = vm_lo m" "vm_hi m' = vm_hi m"
    "r \<Longrightarrow> view m' x = (if covers e x then Some (entry_says (cow_entry e) x) else view m x)"
proof -
  have b: "vme_start e < 2 ^ 64" "vme_end e - vme_start e < 2 ^ 64" "vme_start e + (vme_end e - vme_start e) = vme_end e"
    using assms(2,3) by (auto simp: entry_ok_def VM_USER_VA_HI_def)
  note st = vm_map_enter_backed_step [OF assms(1) b(1,2) enter]
  show "\<not> r \<Longrightarrow> m' = m" "vm_map_wf m'" "vm_lo m' = vm_lo m" "vm_hi m' = vm_hi m" using st(2,3,5) assms(1) by blast+
  show "view m' x = (if covers e x then Some (entry_says (cow_entry e) x) else view m x)" if r
    using st(6) [OF that, of x] b(3) by (simp add: covers_def entry_says_def)
qed

lemma fork_entries_ok:
  assumes "accounted h s R" "pml4_frame spm = sr" "pml4_frame dpm = dr" and R: "sr \<in> R" "dr \<in> R" "sr \<noteq> dr"
    and "vm_map_wf src" "vm_entries src = ds @ es" "VM_USER_VA_LO \<le> vm_lo src" "vm_hi src \<le> VM_USER_VA_HI"
    and "vm_map_wf dst" "shares_ok s sr dr es"
    and "\<forall>e \<in> set es. \<forall>x. covers e x \<longrightarrow> pr x = shared_prot e \<and> W x = writable e"
  shows "\<exists>b k src' spm' dst' dpm' st' s'.
    fork_entries [length ds..<length ds + length es] ok src spm dst dpm st s = Ret (b, src', spm', dst', dpm', st', s') \<and>
    accounted h s' R \<and> pml4_frame spm' = sr \<and> pml4_frame dpm' = dr \<and>
    vm_map_wf dst' \<and> vm_lo dst' = vm_lo dst \<and> vm_hi dst' = vm_hi dst \<and> vm_map_wf src' \<and>
    src' = src\<lparr>vm_entries := ds @ map cow_entry (take k es) @ drop k es\<rparr> \<and>
    forked R sr dr pr W (concat (map entry_pages es)) s s' \<and>
    (\<forall>x. view dst' x = view dst x \<or> entries_view (map cow_entry es) x \<noteq> None \<and> view dst' x = entries_view (map cow_entry es) x) \<and>
    (b \<longrightarrow> k = length es \<and> st' = fold (\<lambda>e. vm_object_ref (vme_object e)) es st \<and>
      (\<forall>x. view dst' x = (case entries_view (map cow_entry es) x of None \<Rightarrow> view dst x | Some y \<Rightarrow> Some y)) \<and>
      (\<forall>v \<in> set (concat (map entry_pages es)).
         pmap_leaf s' dr v = map_option (\<lambda>e. leaf_pte (pte_pa e) (pr v)) (pmap_leaf s sr v) \<and>
         (W v \<longrightarrow> pmap_leaf s' sr v = map_option (\<lambda>e. leaf_pte (pte_pa e) (pr v)) (pmap_leaf s sr v))))"
  using assms(1-3,7-)
proof (induction es arbitrary: ds spm dpm src dst st s)
  case Nil
  have "forked R sr dr pr W [] s s" using forked_refl [OF Nil.prems(1), of dr "[]"] by (simp add: map_count_def)
  then show ?case using Nil.prems by (intro exI [of _ True] exI [of _ 0] exI) auto
next
  case (Cons e es)
  note acc = Cons.prems(1) and pm = Cons.prems(2,3) and swf = Cons.prems(4) and split = Cons.prems(5)
    and user = Cons.prems(6,7) and dwf = Cons.prems(8)
  let ?all = "concat (map entry_pages es)" and ?F = "forked R sr dr pr W"
  let ?src = "src\<lparr>vm_entries := ds @ cow_entry e # es\<rparr>"
  have ok: "entries_ok (vm_lo src) (vm_hi src) (e # es)" "entry_ok (vm_lo src) (vm_hi src) e"
    using swf split by (auto simp: vm_map_wf_def entries_ok_append)
  note pg = entry_pages_facts [OF ok(2) user]
  note disj = entry_pages_disjoint [OF ok(1) user]
  have pages: "\<forall>v \<in> set (entry_pages e). user_va v \<and> page_aligned v \<and> pmap_leaf s dr v = None"
    "\<forall>v \<in> set ?all. user_va v \<and> page_aligned v \<and> pmap_leaf s dr v = None"
    using Cons.prems(9) by (auto simp: shares_ok_def sharing_ok_def)
  have ws: "\<forall>v \<in> set ?all. user_va v \<and> page_aligned v" using pages(2) by blast
  have share: "sharing_ok (has (vme_flags e) VME_F_ANON) s sr dr (entry_pages e)" and
    lim: "countable_owners s sr (entry_pages e @ ?all)" using Cons.prems(9) by (auto simp: shares_ok_def)
  have lim1: "countable_owners s sr (entry_pages e)"
    using lim unfolding countable_owners_def map_count_append by (meson add_lessD1 le_add1 add_left_mono order_le_less_trans)
  have upt: "[length ds..<length ds + length (e # es)] = length ds # [length (ds @ [cow_entry e])..<length (ds @ [cow_entry e]) + length es]"
    by (subst upt_conv_Cons) simp_all
  note run = fork_entries_step [OF split, of "[length (ds @ [cow_entry e])..<length (ds @ [cow_entry e]) + length es]"
      ok spm dst dpm st s, folded upt]
  obtain dst1 r where en: "vm_map_enter_backed (ok (length ds)) dst (vme_start e) (vme_end e - vme_start e) (vme_prot e)
            (vme_flags (cow_entry e)) (vme_object e) (vme_offset e) = (dst1, r)" by fastforce
  note ev = entered_view [OF dwf ok(2) user(2) en]
  obtain b1 spm1 dpm1 s1 where fp: "fork_pages (entry_pages e) (has (vme_flags e) VME_F_ANON) (writable e)
        (if writable e then vme_prot e AND NOT VM_PROT_WRITE else vme_prot e) spm dpm s = Ret (b1, spm1, dpm1, s1)"
      "accounted h s1 R" "pml4_frame spm1 = sr" "pml4_frame dpm1 = dr"
      "forked R sr dr (\<lambda>_. shared_prot e) (\<lambda>_. writable e) (entry_pages e) s s1"
      "b1 \<longrightarrow> (\<forall>v \<in> set (entry_pages e).
         pmap_leaf s1 dr v = map_option (\<lambda>q. leaf_pte (pte_pa q) (shared_prot e)) (pmap_leaf s sr v) \<and>
         (writable e \<longrightarrow> pmap_leaf s1 sr v = map_option (\<lambda>q. leaf_pte (pte_pa q) (shared_prot e)) (pmap_leaf s sr v)))"
    using fork_pages_ok [OF acc pm R pg(1) share lim1, of "writable e"
        "if writable e then vme_prot e AND NOT VM_PROT_WRITE else vme_prot e", folded shared_prot_def] by blast
  have prw: "pr x = shared_prot e \<and> W x = writable e" if "x \<in> set (entry_pages e)" for x
    using Cons.prems(10) that pg(2) by simp
  have F1: "?F (entry_pages e) s s1" using fp(5) forked_cong [of "entry_pages e" pr "\<lambda>_. shared_prot e" W "\<lambda>_. writable e"] prw by blast
  note rest = forked_rest [OF F1 acc fp(2) R(1,2) pages(1) ws disj]
  consider (refused) "\<not> r" | (failed) r "\<not> b1" | (shared) r b1 by blast
  then show ?case
  proof cases
    case refused
    have "?F (entry_pages e @ ?all) s s"
      by (rule forked_extend [OF forked_refl [OF acc] acc acc R(1,2) pages disj])
        (use pages(1) map_count_pos [of s dr "entry_pages e"] in fastforce)
    then show ?thesis
      using refused run en ev(1) acc pm swf dwf split by (intro exI [of _ False] exI [of _ 0] exI) auto
  next
    case failed
    have "?F (entry_pages e @ ?all) s s1" by (rule forked_extend [OF F1 acc fp(2) R(1,2) pages disj])
    then show ?thesis
      using failed run en ev(2-5) fp wf_cow [OF swf split] by (intro exI [of _ False] exI [of _ 1] exI) (auto simp: entry_says_def)
  next
    case shared
    have sh: "shares_ok s1 sr dr es"
      unfolding shares_ok_def sharing_ok_def
    proof (intro conjI ballI)
      fix e' v assume v: "e' \<in> set es" "v \<in> set (entry_pages e')"
      then have all: "v \<in> set ?all" by auto
      have "shareable (has (vme_flags e') VME_F_ANON) s sr v"
        using Cons.prems(9) v by (auto simp: shares_ok_def sharing_ok_def)
      then show "shareable (has (vme_flags e') VME_F_ANON) s1 sr v" by (rule rest(3) [OF all])
      show "user_va v" "page_aligned v" "pmap_leaf s1 dr v = None" using pages(2) all rest(2) [OF all] by auto
    qed (use rest(4) lim in blast)
    have sp: "vm_entries ?src = (ds @ [cow_entry e]) @ es" by simp
    have lohi: "VM_USER_VA_LO \<le> vm_lo ?src" "vm_hi ?src \<le> VM_USER_VA_HI" using user by simp_all
    have pw: "\<forall>e \<in> set es. \<forall>x. covers e x \<longrightarrow> pr x = shared_prot e \<and> W x = writable e" using Cons.prems(10) by simp
    obtain b k src' spm' dst' dpm' st' s' where ih:
      "fork_entries [length (ds @ [cow_entry e])..<length (ds @ [cow_entry e]) + length es] ok ?src spm1 dst1 dpm1
         (vm_object_ref (vme_object e) st) s1 = Ret (b, src', spm', dst', dpm', st', s')"
      "accounted h s' R" "pml4_frame spm' = sr" "pml4_frame dpm' = dr"
      "vm_map_wf dst'" "vm_lo dst' = vm_lo dst1" "vm_hi dst' = vm_hi dst1" "vm_map_wf src'"
      "src' = ?src\<lparr>vm_entries := (ds @ [cow_entry e]) @ map cow_entry (take k es) @ drop k es\<rparr>"
      "?F ?all s1 s'"
      "\<forall>x. view dst' x = view dst1 x \<or> entries_view (map cow_entry es) x \<noteq> None \<and> view dst' x = entries_view (map cow_entry es) x"
      "b \<longrightarrow> k = length es \<and> st' = fold (\<lambda>e. vm_object_ref (vme_object e)) es (vm_object_ref (vme_object e) st) \<and>
        (\<forall>x. view dst' x = (case entries_view (map cow_entry es) x of None \<Rightarrow> view dst1 x | Some y \<Rightarrow> Some y)) \<and>
        (\<forall>v \<in> set ?all.
           pmap_leaf s' dr v = map_option (\<lambda>e. leaf_pte (pte_pa e) (pr v)) (pmap_leaf s1 sr v) \<and>
           (W v \<longrightarrow> pmap_leaf s' sr v = map_option (\<lambda>e. leaf_pte (pte_pa e) (pr v)) (pmap_leaf s1 sr v)))"
      using Cons.IH [OF fp(2-4) wf_cow [OF swf split] sp lohi ev(2) sh pw, of "vm_object_ref (vme_object e) st"] by blast
    have F: "?F (entry_pages e @ ?all) s s'"
      by (rule forked_trans [OF F1 ih(10) fp(2) ih(2) R(2) _ disj]) (use pages in auto)
    have keep: "pmap_leaf s' sr v = pmap_leaf s1 sr v" "pmap_leaf s' dr v = pmap_leaf s1 dr v" if "v \<in> set (entry_pages e)" for v
      using forkedD(2,3) [OF ih(10), of v] pages(1) disj that by blast+
    have other: "entries_view (map cow_entry es) x = None" if "covers e x" for x
      using ok(1) that by (fastforce simp: entries_view_None before_def covers_def)
    show ?thesis
    proof (intro exI conjI)
      show "fork_entries [length ds..<length ds + length (e # es)] ok src spm dst dpm st s = Ret (b, src', spm', dst', dpm', st', s')"
        using run en shared fp(1) ih(1) by simp
      show "src' = src\<lparr>vm_entries := ds @ map cow_entry (take (Suc k) (e # es)) @ drop (Suc k) (e # es)\<rparr>" using ih(9) by simp
      show "?F (concat (map entry_pages (e # es))) s s'" using F by simp
      show "\<forall>x. view dst' x = view dst x \<or> entries_view (map cow_entry (e # es)) x \<noteq> None \<and>
          view dst' x = entries_view (map cow_entry (e # es)) x"
      proof
        fix x
        show "view dst' x = view dst x \<or> entries_view (map cow_entry (e # es)) x \<noteq> None \<and>
            view dst' x = entries_view (map cow_entry (e # es)) x"
          using spec [OF ih(11), of x] ev(5) [OF shared(1), of x] other [of x]
          by (cases "covers e x") (simp_all add: not_None_eq [symmetric] del: not_None_eq)
      qed
      show "b \<longrightarrow> Suc k = length (e # es) \<and> st' = fold (\<lambda>e. vm_object_ref (vme_object e)) (e # es) st \<and>
        (\<forall>x. view dst' x = (case entries_view (map cow_entry (e # es)) x of None \<Rightarrow> view dst x | Some y \<Rightarrow> Some y)) \<and>
        (\<forall>v \<in> set (concat (map entry_pages (e # es))).
           pmap_leaf s' dr v = map_option (\<lambda>e. leaf_pte (pte_pa e) (pr v)) (pmap_leaf s sr v) \<and>
           (W v \<longrightarrow> pmap_leaf s' sr v = map_option (\<lambda>e. leaf_pte (pte_pa e) (pr v)) (pmap_leaf s sr v)))"
        using ih(12) ev(5) [OF shared(1)] other fp(6) shared(2) keep rest(1) prw by (auto split: option.splits)
    qed (use ih ev(3,4) in simp_all)
  qed
qed

text \<open>What a map says of an address after a fork, and the leaf entry a page is shared with.\<close>

fun cow_view :: "nat option \<times> u64 \<times> 8 word \<times> 8 word \<Rightarrow> nat option \<times> u64 \<times> 8 word \<times> 8 word" where
  "cow_view (ob, off, p, fl) = (ob, off, p, if has p VM_PROT_WRITE then fl OR VME_F_COW else fl)"

definition share_leaf :: "8 word \<Rightarrow> 64 word \<Rightarrow> 64 word" where
  "share_leaf p e = leaf_pte (pte_pa e) (ucast (if has p VM_PROT_WRITE then p AND NOT VM_PROT_WRITE else p))"

definition map_pages :: "vm_map \<Rightarrow> u64 list" where
  "map_pages m = concat (map entry_pages (vm_entries m))"

text \<open>The frames of a task: an anonymous page has a counted frame, any other page a borrowed one and no write access.\<close>

definition borrows_ok :: "vm_map \<Rightarrow> mstate \<Rightarrow> nat \<Rightarrow> bool" where
  "borrows_ok m s r \<longleftrightarrow> (\<forall>e \<in> set (vm_entries m). \<not> has (vme_flags e) VME_F_ANON \<longrightarrow> \<not> writable e \<and>
     (\<forall>x w. covers e x \<longrightarrow> page_aligned x \<longrightarrow> pmap_leaf s r x = Some w \<longrightarrow>
        pte_pa w \<noteq> PA_INVALID \<and> frame_of (ms_pmm s) (leaf_frame w) = Reserved))"

lemma cow_entry_says: "entry_says (cow_entry e) x = cow_view (entry_says e x)"
  by (simp add: entry_says_def cow_entry_def writable_def)

lemma entries_view_cow: "entries_view (map cow_entry es) x = map_option cow_view (entries_view es x)"
  by (induction es) (auto simp: cow_entry_says)

lemma share_leaf_frame [simp]: "leaf_frame (share_leaf p e) = leaf_frame e"
  using leaf_frame_pte [OF pte_pa_aligned pte_pa_lt] by (simp add: share_leaf_def leaf_frame_def)

lemma share_leaf_read_only: "has p VM_PROT_WRITE \<Longrightarrow> share_leaf p e AND PTE_RW = 0"
proof -
  have bits: "bit (ucast (p AND NOT VM_PROT_WRITE) :: 32 word) 1 = False"
    by (simp add: bit_unsigned_iff bit_and_iff bit_not_iff VM_PROT_WRITE_def)
  have w: "((ucast (p AND NOT VM_PROT_WRITE) :: 32 word) AND VM_PROT_WRITE) = 0"
    using bits bit_iff_and_push_bit_not_eq_0 [of "ucast (p AND NOT VM_PROT_WRITE) :: 32 word" 1] by (simp add: VM_PROT_WRITE_def)
  assume "has p VM_PROT_WRITE"
  then show ?thesis
    using w by (simp add: share_leaf_def leaf_pte_def leaf_flags_def bit.conj_disj_distrib2 PTE_RW_def PTE_P_def PTE_US_def
        PTE_NX_def PTE_PCD_def PTE_PWT_def PTE_G_def PTE_PA_MASK_def and.assoc)
qed

lemma task_shares:
  assumes ok: "task_ok B R sr h (src, spm, st, s)" and borrow: "borrows_ok src s sr"
    and lim: "countable_owners s sr (map_pages src)"
    and fresh: "\<forall>x \<in> set (map_pages src). pmap_leaf s dr x = None"
  shows "shares_ok s sr dr (vm_entries src)"
  unfolding shares_ok_def
proof (intro conjI ballI)
  show "countable_owners s sr (concat (map entry_pages (vm_entries src)))" using lim by (simp add: map_pages_def)
  fix e assume e: "e \<in> set (vm_entries src)"
  have eok: "entry_ok (vm_lo src) (vm_hi src) e" using task_okD(5) [OF ok] e by (auto simp: vm_map_wf_def entries_ok_def)
  note pg = entry_pages_facts [OF eok task_okD(6,7) [OF ok]]
  show "sharing_ok (has (vme_flags e) VME_F_ANON) s sr dr (entry_pages e)"
    unfolding sharing_ok_def
  proof (intro ballI conjI)
    fix v assume v: "v \<in> set (entry_pages e)"
    then have c: "covers e v" "page_aligned v" using pg(2) by auto
    then show "page_aligned v" by simp
    show "user_va v" using pg(3) v .
    show "pmap_leaf s dr v = None" using fresh e v by (auto simp: map_pages_def)
    show "shareable (has (vme_flags e) VME_F_ANON) s sr v"
      unfolding shareable_def
    proof (intro allI impI)
      fix w assume w: "pmap_leaf s sr v = Some w"
      show "pte_pa w \<noteq> PA_INVALID \<and> (frame_of (ms_pmm s) (leaf_frame w) = Reserved) = (\<not> has (vme_flags e) VME_F_ANON)"
      proof (cases "has (vme_flags e) VME_F_ANON")
        case True
        then have nr: "frame_of (ms_pmm s) (leaf_frame w) \<noteq> Reserved" using anon_okD(2) [OF task_okD(9) [OF ok] e] c w by blast
        then show ?thesis using True leaf_valid [OF accountedD(3) [OF task_okD(1) [OF ok]] nr] by simp
      next
        case False
        then show ?thesis using borrow e c w by (auto simp: borrows_ok_def)
      qed
    qed
  qed
qed

lemma forked_reserved:
  assumes "forked R sr dr pr W vs s s'"
  shows "frame_of (ms_pmm s') f = Reserved \<longleftrightarrow> frame_of (ms_pmm s) f = Reserved"
  using forkedD(4) [OF assms, of f] forkedD(5) [OF assms, of f] by (cases "frame_of (ms_pmm s) f = Free") auto

text \<open>The parent after a fork, complete or not: some of its entries are marked, and every page has its frame.\<close>

lemma forked_parent:
  assumes ok: "task_ok B R sr h (src, spm, st, s)" and acc: "accounted h s' R" and pm: "pml4_frame spm' = sr"
    and borrow: "borrows_ok src s sr" and f: "forked R sr dr pr W vs s s'" and wf: "vm_map_wf src'"
    and src': "src' = src\<lparr>vm_entries := map cow_entry (take k (vm_entries src)) @ drop k (vm_entries src)\<rparr>"
  shows "task_ok B R sr h (src', spm', st', s')"
    and "\<And>x. user_va x \<Longrightarrow> page_aligned x \<Longrightarrow>
      map_option leaf_frame (pmap_leaf s' sr x) = map_option leaf_frame (pmap_leaf s sr x)"
proof -
  show leaf: "map_option leaf_frame (pmap_leaf s' sr x) = map_option leaf_frame (pmap_leaf s sr x)"
    if "user_va x" "page_aligned x" for x
    using forkedD(2) [OF f that] leaf_frame_pte [OF pte_pa_aligned pte_pa_lt] by (auto simp: leaf_frame_def)
  have "anon_ok src' s' sr"
    unfolding anon_ok_def
  proof (intro ballI conjI impI allI)
    fix e' assume "e' \<in> set (vm_entries src')"
    then obtain e where e: "e \<in> set (vm_entries src)" "e' = e \<or> e' = cow_entry e"
      unfolding src' by (auto dest: in_set_takeD in_set_dropD)
    have w: "writable e \<Longrightarrow> has (vme_flags e) VME_F_ANON" using borrow e(1) by (auto simp: borrows_ok_def)
    show "has (vme_flags e') VME_F_ANON" if "has (vme_flags e') VME_F_COW"
      using e(2) that w anon_okD(1) [OF task_okD(9) [OF ok] e(1)] by (auto simp: cow_entry_def split: if_splits)
    fix va q assume a: "has (vme_flags e') VME_F_ANON" "covers e' va" "page_aligned va" "pmap_leaf s' sr va = Some q"
    have c: "covers e va" "has (vme_flags e) VME_F_ANON" using a(1,2) e(2) by auto
    then have "user_va va"
      using task_okD(5-7) [OF ok] e(1)
      by (fastforce simp: vm_map_wf_def entries_ok_def entry_ok_def covers_def user_va_def VM_USER_VA_LO_def VM_USER_VA_HI_def)
    then obtain q' where "pmap_leaf s sr va = Some q'" "leaf_frame q' = leaf_frame q" using leaf [OF _ a(3)] a(4)
      by (cases "pmap_leaf s sr va") auto
    then show "frame_of (ms_pmm s') (leaf_frame q) \<noteq> Reserved"
      using anon_okD(2) [OF task_okD(9) [OF ok] e(1) c(2,1) a(3)] forked_reserved [OF f] by metis
  qed
  then show "task_ok B R sr h (src', spm', st', s')"
    using task_okD [OF ok] acc pm wf forked_reserved [OF f] by (simp add: task_ok_def src')
qed

lemma view_user:
  assumes "task_ok B R r h (m, pm, st, s)" "view m x \<noteq> None"
  shows "user_va x" "page_aligned x \<Longrightarrow> x \<in> set (map_pages m)"
proof -
  obtain e where e: "e \<in> set (vm_entries m)" "covers e x" using assms(2) view_SomeD by (metis not_None_eq prod_cases4)
  have eok: "entry_ok (vm_lo m) (vm_hi m) e" using task_okD(5) [OF assms(1)] e(1) by (auto simp: vm_map_wf_def entries_ok_def)
  then show "user_va x"
    using task_okD(6,7) [OF assms(1)] e(2)
    by (auto simp: entry_ok_def covers_def user_va_def VM_USER_VA_LO_def VM_USER_VA_HI_def)
  show "x \<in> set (map_pages m)" if "page_aligned x"
    using e that entry_pages_facts(2) [OF eok task_okD(6,7) [OF assms(1)]] by (auto simp: map_pages_def)
qed

lemma map_pages_view:
  assumes "task_ok B R r h (m, pm, st, s)" "x \<in> set (map_pages m)"
  shows "view m x \<noteq> None" "page_aligned x"
proof -
  obtain e where e: "e \<in> set (vm_entries m)" "x \<in> set (entry_pages e)" using assms(2) by (auto simp: map_pages_def)
  have eok: "entry_ok (vm_lo m) (vm_hi m) e" using task_okD(5) [OF assms(1)] e(1) by (auto simp: vm_map_wf_def entries_ok_def)
  then show "page_aligned x" "view m x \<noteq> None"
    using e entry_pages_facts(2) [OF eok task_okD(6,7) [OF assms(1)]] view_Some [OF task_okD(5) [OF assms(1)] e(1)] by auto
qed

lemma forked_child:
  assumes src: "task_ok B R sr h (src, spm, st, s)" and dst: "task_ok B R dr h (dst, dpm, st2, s)"
    and acc: "accounted h s' R" and pm: "pml4_frame dpm' = dr" and borrow: "borrows_ok src s sr"
    and f: "forked R sr dr pr W (map_pages src) s s'" and wf: "vm_map_wf dst'" "vm_lo dst' = vm_lo dst" "vm_hi dst' = vm_hi dst"
    and fresh: "\<forall>x \<in> set (map_pages src). pmap_leaf s dr x = None" "\<forall>x. view src x \<noteq> None \<longrightarrow> view dst x = None"
    and view: "\<forall>x. view dst' x = view dst x \<or> view src x \<noteq> None \<and> view dst' x = map_option cow_view (view src x)"
  shows "task_ok B R dr h (dst', dpm', st', s')"
proof -
  have "anon_ok dst' s' dr"
    unfolding anon_ok_view [OF wf(1)]
  proof (intro allI impI)
    fix va ob off p fl assume va: "page_aligned va" "view dst' va = Some (ob, off, p, fl)"
    let ?goal = "(has fl VME_F_COW \<longrightarrow> has fl VME_F_ANON) \<and>
      (has fl VME_F_ANON \<longrightarrow> (\<forall>w. pmap_leaf s' dr va = Some w \<longrightarrow> frame_of (ms_pmm s') (leaf_frame w) \<noteq> Reserved))"
    consider (old) "view dst va = Some (ob, off, p, fl)" "view src va = None"
      | (new) fl0 where "view src va = Some (ob, off, p, fl0)" "cow_view (ob, off, p, fl0) = (ob, off, p, fl)"
      using spec [OF view, of va] fresh(2) va(2) by (cases "view src va") auto
    then show ?goal
    proof cases
      case old
      have "va \<notin> set (map_pages src)" using map_pages_view(1) [OF src] old(2) by blast
      then have same: "pmap_leaf s' dr va = pmap_leaf s dr va" using forkedD(3) [OF f _ va(1)] view_user(1) [OF dst] old(1) by blast
      show ?thesis
        unfolding same forked_reserved [OF f] using anon_ok_view [OF task_okD(5) [OF dst]] task_okD(9) [OF dst] va(1) old(1) by blast
    next
      case new
      obtain e where e: "e \<in> set (vm_entries src)" "covers e va" "vme_flags e = fl0" "vme_prot e = p" using view_SomeD [OF new(1)] by blast
      have w: "writable e \<Longrightarrow> has fl0 VME_F_ANON" using borrow e by (auto simp: borrows_ok_def)
      have an: "has fl VME_F_ANON \<longleftrightarrow> has fl0 VME_F_ANON" using new(2) by (auto split: if_splits)
      have "has fl VME_F_ANON" if "has fl VME_F_COW"
      proof (cases "has p VM_PROT_WRITE")
        case True
        then show ?thesis using w e(4) an by (simp add: writable_def)
      next
        case False
        then have "fl = fl0" using new(2) by simp
        then show ?thesis using that anon_okD(1) [OF task_okD(9) [OF src] e(1)] e(3) by simp
      qed
      moreover have "frame_of (ms_pmm s') (leaf_frame q) \<noteq> Reserved" if q: "has fl VME_F_ANON" "pmap_leaf s' dr va = Some q" for q
      proof -
        have u: "user_va va" "va \<in> set (map_pages src)" using view_user [OF src] new(1) va(1) by auto
        then obtain q' where "pmap_leaf s sr va = Some q'" "leaf_frame q = leaf_frame q'"
          using forkedD(3) [OF f u(1) va(1)] fresh(1) q(2) leaf_frame_pte [OF pte_pa_aligned pte_pa_lt] by (auto simp: leaf_frame_def)
        then show ?thesis
          using anon_okD(2) [OF task_okD(9) [OF src] e(1) _ e(2) va(1)] q(1) e(3) unfolding an forked_reserved [OF f] by simp
      qed
      ultimately show ?goal by blast
    qed
  qed
  then show ?thesis using task_okD [OF dst] acc pm wf forked_reserved [OF f] by (simp add: task_ok_def)
qed

text \<open>An address space with no user page table yet joins the accounted ones.\<close>

lemma acc_new_space:
  assumes acc: "accounted h s R" and q: "q \<notin> tables s R user_paths" "frame_of (ms_pmm s) q \<noteq> Free" "h q = 0" "mappers s R q = {}"
    and empty: "\<not> present (ms_mem s q 0)"
  shows "accounted h s (insert q R)" "\<And>x. user_va x \<Longrightarrow> pmap_leaf s q x = None"
    "tables s (insert q R) user_paths = insert q (tables s R user_paths)"
proof -
  have none: "table_at s q p = (if p = [] then Some q else None)" if "p \<in> user_paths" for p
    using that empty by (auto simp: user_paths_def descend_def)
  have nil: "[] \<in> user_paths" by (simp add: user_paths_def)
  show tabs: "tables s (insert q R) user_paths = insert q (tables s R user_paths)"
    unfolding tables_def using none nil by (auto split: if_splits)
  have "path_of x \<noteq> []" for x by (simp add: path_of_def)
  then show leaf: "pmap_leaf s q x = None" if "user_va x" for x
    using none [OF user_path [OF that]] by (simp add: pmap_leaf_def)
  have "pt_ok s (insert q R) user_paths"
  proof -
    have old: "pt_ok s R user_paths" using accountedD(2) [OF acc] by (simp add: spaces_ok_def)
    have out: "table_at s r p \<noteq> Some q" if "r \<in> R" "p \<in> user_paths" for r p using q(1) that by (auto simp: tables_def)
    show ?thesis
      unfolding pt_ok_def tabs
      using pt_okD [OF old] out none q(2) tables_used [OF accountedD(2) [OF acc]] by (auto split: if_splits)
  qed
  moreover have "no_huge s (insert q R) user_paths"
    unfolding no_huge_def
  proof (intro ballI allI impI)
    fix r p i f assume a: "r \<in> insert q R" "p @ [i] \<in> user_paths" "table_at s r p = Some f" "present (ms_mem s f i)"
    show "\<not> huge (ms_mem s f i)"
    proof (cases "r \<in> R")
      case True
      then show ?thesis using accountedD(2) [OF acc] a(2-4) by (auto simp: spaces_ok_def no_huge_def)
    next
      case False
      then have "r = q" using a(1) by simp
      moreover have "p \<in> user_paths" using a(2) by (auto simp: user_paths_def)
      ultimately have "p = []" "f = q" using a(3) none by (auto split: if_splits)
      then have "i = 0" using a(2) by (auto simp: user_paths_def)
      then show ?thesis using a(4) empty \<open>f = q\<close> by simp
    qed
  qed
  moreover have "mappers s (insert q R) f = mappers s R f" for f using leaf by (auto simp: mappers_def)
  ultimately show "accounted h s (insert q R)"
    using acc q by (auto simp: accounted_def tabs spaces_ok_def)
qed

text \<open>The protection each page of the parent is shared with, and the pages that lose their write access.\<close>

definition page_prot :: "vm_map \<Rightarrow> u64 \<Rightarrow> 32 word" where
  "page_prot m x = (case view m x of None \<Rightarrow> 0 | Some (_, _, p, _) \<Rightarrow>
     ucast (if has p VM_PROT_WRITE then p AND NOT VM_PROT_WRITE else p))"

definition page_writable :: "vm_map \<Rightarrow> u64 \<Rightarrow> bool" where
  "page_writable m x \<longleftrightarrow> (\<exists>ob off p fl. view m x = Some (ob, off, p, fl) \<and> has p VM_PROT_WRITE)"

text \<open>The run of the two loops from a parent and a new child.\<close>

lemma fork_run:
  assumes src: "task_ok B R sr h (src, spm, st, s)" and dst: "task_ok B R dr h (dst, dpm, st, s)" and ne: "sr \<noteq> dr"
    and borrow: "borrows_ok src s sr" and lim: "countable_owners s sr (map_pages src)"
    and fresh: "\<forall>x \<in> set (map_pages src). pmap_leaf s dr x = None" "\<forall>x. view src x \<noteq> None \<longrightarrow> view dst x = None"
  obtains b k src' spm' dst' dpm' st' s' where
    "vm_map_fork_share ok src spm dst dpm st s = Ret (b, src', spm', dst', dpm', st', s')"
    "task_ok B R sr h (src', spm', st', s')" "task_ok B R dr h (dst', dpm', st', s')"
    "forked R sr dr (page_prot src) (page_writable src) (map_pages src) s s'"
    "\<And>x. user_va x \<Longrightarrow> page_aligned x \<Longrightarrow>
       map_option leaf_frame (pmap_leaf s' sr x) = map_option leaf_frame (pmap_leaf s sr x)"
    "src' = src\<lparr>vm_entries := map cow_entry (take k (vm_entries src)) @ drop k (vm_entries src)\<rparr>"
    "b \<Longrightarrow> k = length (vm_entries src)" "b \<Longrightarrow> st' = fold (\<lambda>e. vm_object_ref (vme_object e)) (vm_entries src) st"
    "b \<Longrightarrow> \<forall>x. view dst' x = (case map_option cow_view (view src x) of None \<Rightarrow> view dst x | Some y \<Rightarrow> Some y)"
    "b \<Longrightarrow> \<forall>v \<in> set (map_pages src).
       pmap_leaf s' dr v = map_option (\<lambda>e. leaf_pte (pte_pa e) (page_prot src v)) (pmap_leaf s sr v) \<and>
       (page_writable src v \<longrightarrow> pmap_leaf s' sr v = map_option (\<lambda>e. leaf_pte (pte_pa e) (page_prot src v)) (pmap_leaf s sr v))"
proof -
  let ?es = "vm_entries src" and ?pr = "page_prot src" and ?W = "page_writable src"
  have prw: "\<forall>e \<in> set ?es. \<forall>x. covers e x \<longrightarrow> ?pr x = shared_prot e \<and> ?W x = writable e"
    using view_Some [OF task_okD(5) [OF src]]
    by (auto simp: entry_says_def shared_prot_def writable_def page_prot_def page_writable_def)
  have cow: "entries_view (map cow_entry ?es) x = map_option cow_view (view src x)" for x
    by (simp add: view_entries entries_view_cow)
  have split: "?es = [] @ ?es" by simp
  obtain b k src' spm' dst' dpm' st' s' where run:
    "fork_entries [0..<length ?es] ok src spm dst dpm st s = Ret (b, src', spm', dst', dpm', st', s')"
    "accounted h s' R" "pml4_frame spm' = sr" "pml4_frame dpm' = dr"
    "vm_map_wf dst'" "vm_lo dst' = vm_lo dst" "vm_hi dst' = vm_hi dst" "vm_map_wf src'"
    "src' = src\<lparr>vm_entries := map cow_entry (take k ?es) @ drop k ?es\<rparr>"
    "forked R sr dr ?pr ?W (map_pages src) s s'"
    "\<forall>x. view dst' x = view dst x \<or> view src x \<noteq> None \<and> view dst' x = map_option cow_view (view src x)"
    "b \<longrightarrow> k = length ?es \<and> st' = fold (\<lambda>e. vm_object_ref (vme_object e)) ?es st \<and>
      (\<forall>x. view dst' x = (case map_option cow_view (view src x) of None \<Rightarrow> view dst x | Some y \<Rightarrow> Some y)) \<and>
      (\<forall>v \<in> set (map_pages src).
         pmap_leaf s' dr v = map_option (\<lambda>e. leaf_pte (pte_pa e) (?pr v)) (pmap_leaf s sr v) \<and>
         (?W v \<longrightarrow> pmap_leaf s' sr v = map_option (\<lambda>e. leaf_pte (pte_pa e) (?pr v)) (pmap_leaf s sr v)))"
    using fork_entries_ok [OF task_okD(1,3) [OF src] task_okD(3) [OF dst] task_okD(2) [OF src] task_okD(2) [OF dst] ne
        task_okD(5) [OF src] split task_okD(6,7) [OF src] task_okD(5) [OF dst] task_shares [OF src borrow lim fresh(1)] prw,
        of ok st, unfolded list.size(3) add_0 append_Nil cow map_pages_def [symmetric] option.map_disc_iff] by blast
  show thesis
  proof (rule that [OF _ _ _ run(10) _ run(9)])
    show "vm_map_fork_share ok src spm dst dpm st s = Ret (b, src', spm', dst', dpm', st', s')"
      using run(1) by (simp add: vm_map_fork_share_def)
    show "task_ok B R sr h (src', spm', st', s')" by (rule forked_parent(1) [OF src run(2,3) borrow run(10,8,9)])
    show "task_ok B R dr h (dst', dpm', st', s')" by (rule forked_child [OF src dst run(2,4) borrow run(10,5-7) fresh run(11)])
    show "\<And>x. user_va x \<Longrightarrow> page_aligned x \<Longrightarrow>
       map_option leaf_frame (pmap_leaf s' sr x) = map_option leaf_frame (pmap_leaf s sr x)"
      by (rule forked_parent(2) [OF src run(2,3) borrow run(10,8,9)])
  qed (use run(12) in blast)+
qed

text \<open>A page of a complete fork, in terms of what the parent's map says of it.\<close>

lemma forked_page:
  assumes src: "task_ok B R sr h (src, spm, st, s)"
    and pages: "\<forall>v \<in> set (map_pages src).
       pmap_leaf s' dr v = map_option (\<lambda>e. leaf_pte (pte_pa e) (page_prot src v)) (pmap_leaf s sr v) \<and>
       (page_writable src v \<longrightarrow> pmap_leaf s' sr v = map_option (\<lambda>e. leaf_pte (pte_pa e) (page_prot src v)) (pmap_leaf s sr v))"
    and x: "page_aligned x" "view src x = Some (ob, off, p, fl)"
  shows "pmap_leaf s' dr x = map_option (share_leaf p) (pmap_leaf s sr x)"
    "has p VM_PROT_WRITE \<Longrightarrow> pmap_leaf s' sr x = map_option (share_leaf p) (pmap_leaf s sr x)"
    "has p VM_PROT_WRITE \<Longrightarrow> pmap_leaf s' sr x = Some w \<or> pmap_leaf s' dr x = Some w \<Longrightarrow> w AND PTE_RW = 0"
proof -
  have "x \<in> set (map_pages src)" using view_user(2) [OF src _ x(1)] x(2) by simp
  moreover have "(\<lambda>e. leaf_pte (pte_pa e) (page_prot src x)) = share_leaf p" "page_writable src x = has p VM_PROT_WRITE"
    using x(2) by (auto simp: page_prot_def page_writable_def share_leaf_def)
  ultimately show d: "pmap_leaf s' dr x = map_option (share_leaf p) (pmap_leaf s sr x)"
    and r: "has p VM_PROT_WRITE \<Longrightarrow> pmap_leaf s' sr x = map_option (share_leaf p) (pmap_leaf s sr x)" using pages by auto
  show "w AND PTE_RW = 0" if "has p VM_PROT_WRITE" "pmap_leaf s' sr x = Some w \<or> pmap_leaf s' dr x = Some w"
    using that d r share_leaf_read_only by auto
qed

text \<open>C37. \<open>vm_map_fork_share\<close> never panics, and whether it succeeds or runs out of memory half-way both tasks and the
  accounts of frames are in order, no memory that was in use has been written outside the page tables, every page of the
  parent still has its frame, no third address space has changed, and each frame has gained exactly one owner
  per page of the child that now maps it. When it succeeds, parent and child have the same map, with every
  writable range marked copy-on-write in both; the child has every page the parent had, on the same frame, and
  a page of a writable range has no write access on either side. It asks that the child is new (nothing mapped
  where the parent has entries), that borrowed ranges are read-only, and that no frame exceeds the 16-bit count
  of owners.\<close>

theorem vm_map_fork_share_correct:
  assumes src: "task_ok B R sr h (src, spm, st, s)" and dst: "task_ok B R dr h (dst, dpm, st, s)" and ne: "sr \<noteq> dr"
    and borrow: "borrows_ok src s sr" and lim: "countable_owners s sr (map_pages src)"
    and fresh: "\<forall>x \<in> set (map_pages src). pmap_leaf s dr x = None" "\<forall>x. view src x \<noteq> None \<longrightarrow> view dst x = None"
  shows "\<exists>b src' spm' dst' dpm' st' s'. vm_map_fork_share ok src spm dst dpm st s = Ret (b, src', spm', dst', dpm', st', s') \<and>
    task_ok B R sr h (src', spm', st', s') \<and> task_ok B R dr h (dst', dpm', st', s') \<and>
    (\<forall>g. g \<notin> tables s R user_paths \<longrightarrow> frame_of (ms_pmm s) g \<noteq> Free \<longrightarrow> ms_mem s' g = ms_mem s g) \<and>
    (\<forall>x. user_va x \<longrightarrow> page_aligned x \<longrightarrow>
       map_option leaf_frame (pmap_leaf s' sr x) = map_option leaf_frame (pmap_leaf s sr x)) \<and>
    (\<forall>r \<in> R. r \<noteq> sr \<longrightarrow> r \<noteq> dr \<longrightarrow> (\<forall>x. user_va x \<longrightarrow> page_aligned x \<longrightarrow> pmap_leaf s' r x = pmap_leaf s r x)) \<and>
    (\<forall>f. frame_of (ms_pmm s) f \<noteq> Free \<longrightarrow>
       frame_of (ms_pmm s') f = gain_owners (map_count s' dr (map_pages src) f) (frame_of (ms_pmm s) f)) \<and>
    (b \<longrightarrow> st' = fold (\<lambda>e. vm_object_ref (vme_object e)) (vm_entries src) st \<and>
      (\<forall>x. view src' x = map_option cow_view (view src x)) \<and>
      (\<forall>x. view dst' x = (case view src' x of None \<Rightarrow> view dst x | Some y \<Rightarrow> Some y)) \<and>
      (\<forall>x ob off p fl. page_aligned x \<longrightarrow> view src x = Some (ob, off, p, fl) \<longrightarrow>
         pmap_leaf s' dr x = map_option (share_leaf p) (pmap_leaf s sr x) \<and>
         (has p VM_PROT_WRITE \<longrightarrow> pmap_leaf s' sr x = map_option (share_leaf p) (pmap_leaf s sr x) \<and>
           (\<forall>w. pmap_leaf s' sr x = Some w \<or> pmap_leaf s' dr x = Some w \<longrightarrow> w AND PTE_RW = 0))))"
proof (rule fork_run [OF assms, of ok], intro exI conjI)
  fix b k src' spm' dst' dpm' st' s'
  assume F: "forked R sr dr (page_prot src) (page_writable src) (map_pages src) s s'"
    and src': "src' = src\<lparr>vm_entries := map cow_entry (take k (vm_entries src)) @ drop k (vm_entries src)\<rparr>"
    and k: "b \<Longrightarrow> k = length (vm_entries src)"
    and st': "b \<Longrightarrow> st' = fold (\<lambda>e. vm_object_ref (vme_object e)) (vm_entries src) st"
    and vd: "b \<Longrightarrow> \<forall>x. view dst' x = (case map_option cow_view (view src x) of None \<Rightarrow> view dst x | Some y \<Rightarrow> Some y)"
    and pages: "b \<Longrightarrow> \<forall>v \<in> set (map_pages src).
       pmap_leaf s' dr v = map_option (\<lambda>e. leaf_pte (pte_pa e) (page_prot src v)) (pmap_leaf s sr v) \<and>
       (page_writable src v \<longrightarrow> pmap_leaf s' sr v = map_option (\<lambda>e. leaf_pte (pte_pa e) (page_prot src v)) (pmap_leaf s sr v))"
  have vs: "view src' x = map_option cow_view (view src x)" if b for x
    using src' k [OF that] entries_view_cow [of "vm_entries src" x] by (simp add: view_entries)
  show "b \<longrightarrow> st' = fold (\<lambda>e. vm_object_ref (vme_object e)) (vm_entries src) st \<and>
      (\<forall>x. view src' x = map_option cow_view (view src x)) \<and>
      (\<forall>x. view dst' x = (case view src' x of None \<Rightarrow> view dst x | Some y \<Rightarrow> Some y)) \<and>
      (\<forall>x ob off p fl. page_aligned x \<longrightarrow> view src x = Some (ob, off, p, fl) \<longrightarrow>
         pmap_leaf s' dr x = map_option (share_leaf p) (pmap_leaf s sr x) \<and>
         (has p VM_PROT_WRITE \<longrightarrow> pmap_leaf s' sr x = map_option (share_leaf p) (pmap_leaf s sr x) \<and>
           (\<forall>w. pmap_leaf s' sr x = Some w \<or> pmap_leaf s' dr x = Some w \<longrightarrow> w AND PTE_RW = 0)))"
    using st' vs vd forked_page [OF src pages] by simp
  show "\<forall>g. g \<notin> tables s R user_paths \<longrightarrow> frame_of (ms_pmm s) g \<noteq> Free \<longrightarrow> ms_mem s' g = ms_mem s g"
    using forkedD(8) [OF F] by blast
  show "\<forall>f. frame_of (ms_pmm s) f \<noteq> Free \<longrightarrow>
      frame_of (ms_pmm s') f = gain_owners (map_count s' dr (map_pages src) f) (frame_of (ms_pmm s) f)"
    using forkedD(4) [OF F] by blast
  show "\<forall>r \<in> R. r \<noteq> sr \<longrightarrow> r \<noteq> dr \<longrightarrow> (\<forall>x. user_va x \<longrightarrow> page_aligned x \<longrightarrow> pmap_leaf s' r x = pmap_leaf s r x)"
    using forkedD(1) [OF F] by blast
qed (assumption | blast)+

definition child_map :: vm_map where
  "child_map = \<lparr>vm_lo = VM_USER_VA_LO, vm_hi = VM_USER_VA_HI, vm_hint = VM_USER_VA_LO, vm_entries = [], vm_count = 0\<rparr>"

definition child_pm :: pmap where
  "child_pm = \<lparr>pm_pml4_pa = 104 * 4096, pm_leafs = 0, pm_intermediates = 0, pm_is_kernel = False\<rparr>"

lemma shared_parent_child:
  "task_ok {f. frame_of shared_pmm f = Reserved} {104, 100} 100 shared_hold (shared_map, shared_pm, st, shared_ms)"
  "task_ok {f. frame_of shared_pmm f = Reserved} {104, 100} 104 shared_hold (child_map, child_pm, st, shared_ms)"
  "user_va x \<Longrightarrow> pmap_leaf shared_ms 104 x = None"
proof -
  have nt: "page_index shared_pa \<noteq> 104" using shared_frames(6) by (auto simp: example_pmm_frame split: if_splits)
  have "frame_of (ms_pmm shared_ms) 104 \<noteq> Free"
    using nt shared_frames(5) by (simp add: shared_pmm_of example_pmm_frame)
  then have acc: "accounted shared_hold shared_ms {104, 100}" and leaf: "\<And>x. user_va x \<Longrightarrow> pmap_leaf shared_ms 104 x = None"
    using acc_new_space [OF task_okD(1) [OF shared_task], of 104] nt
    by (simp_all add: shared_spaces(2) shared_hold_def shared_mappers) (simp_all add: shared_ms_def not_present_0)
  then show "user_va x \<Longrightarrow> pmap_leaf shared_ms 104 x = None" by blast
  show "task_ok {f. frame_of shared_pmm f = Reserved} {104, 100} 100 shared_hold (shared_map, shared_pm, st, shared_ms)"
    using shared_task [of st] acc by (simp add: task_ok_def)
  have "vm_map_wf child_map" "anon_ok child_map shared_ms 104"
    by (simp_all add: vm_map_wf_def anon_ok_def child_map_def VM_USER_VA_LO_def VM_USER_VA_HI_def page_aligned_def PAGE_SIZE_eq)
  then show "task_ok {f. frame_of shared_pmm f = Reserved} {104, 100} 104 shared_hold (child_map, child_pm, st, shared_ms)"
    using acc by (simp add: task_ok_def shared_pmm_of child_map_def child_pm_def pml4_frame_def page_index_def PAGE_SHIFT_def)
qed

theorem vm_map_fork_share_correct_witness:
  "\<exists>b src' spm' dst' dpm' st' s'.
     vm_map_fork_share (\<lambda>_. True) shared_map shared_pm child_map child_pm example_store shared_ms =
       Ret (b, src', spm', dst', dpm', st', s') \<and>
     task_ok {f. frame_of shared_pmm f = Reserved} {104, 100} 104 shared_hold (dst', dpm', st', s') \<and>
     (b \<longrightarrow> pmap_leaf s' 104 0x40000000 = Some (share_leaf (VM_PROT_READ OR VM_PROT_WRITE OR VM_PROT_USER) shared_leaf))"
proof -
  have pages: "map_pages shared_map = [0x40000000]"
    by (simp add: map_pages_def shared_map_def shared_entry_def entry_pages_def page_range_def PAGE_SIZE_eq)
  have borrow: "borrows_ok shared_map shared_ms 100"
    by (simp add: borrows_ok_def shared_map_def shared_entry_def has_def VME_F_ANON_def VME_F_COW_def)
  have "map_count shared_ms 100 [0x40000000] f = (if f = page_index shared_pa then 1 else 0)" for f
    by (auto simp: map_count_def maps_to_def shared_leaf_at user_va_def PAGE_SIZE_eq shared_leaf_frame)
  then have lim: "countable_owners shared_ms 100 (map_pages shared_map)"
    unfolding countable_owners_def pages shared_pmm_of shared_frames(5) by (auto simp: example_pmm_frame)
  have fresh: "\<forall>x \<in> set (map_pages shared_map). pmap_leaf shared_ms 104 x = None"
    "\<forall>x. view shared_map x \<noteq> None \<longrightarrow> view child_map x = None"
    using shared_parent_child(3) by (simp_all add: pages user_va_def view_def child_map_def)
  have v: "view shared_map 0x40000000 = Some (None, 0, VM_PROT_READ OR VM_PROT_WRITE OR VM_PROT_USER, VME_F_ANON OR VME_F_COW)"
    by (simp add: view_def shared_map_def shared_entry_def covers_def entry_says_def add64_def)
  have l: "pmap_leaf shared_ms 100 0x40000000 = Some shared_leaf" "page_aligned 0x40000000"
    by (simp_all add: shared_leaf_at user_va_def PAGE_SIZE_eq page_aligned_def)
  have ne: "(100 :: nat) \<noteq> 104" by simp
  from vm_map_fork_share_correct [OF shared_parent_child(1,2) ne borrow lim fresh, of "\<lambda>_. True" example_store]
  show ?thesis
  proof (elim exE conjE, intro exI conjI)
    fix b src' spm' dst' dpm' st' s'
    assume "b \<longrightarrow> st' = fold (\<lambda>e. vm_object_ref (vme_object e)) (vm_entries shared_map) example_store \<and>
      (\<forall>x. view src' x = map_option cow_view (view shared_map x)) \<and>
      (\<forall>x. view dst' x = (case view src' x of None \<Rightarrow> view child_map x | Some y \<Rightarrow> Some y)) \<and>
      (\<forall>x ob off p fl. page_aligned x \<longrightarrow> view shared_map x = Some (ob, off, p, fl) \<longrightarrow>
         pmap_leaf s' 104 x = map_option (share_leaf p) (pmap_leaf shared_ms 100 x) \<and>
         (has p VM_PROT_WRITE \<longrightarrow> pmap_leaf s' 100 x = map_option (share_leaf p) (pmap_leaf shared_ms 100 x) \<and>
           (\<forall>w. pmap_leaf s' 100 x = Some w \<or> pmap_leaf s' 104 x = Some w \<longrightarrow> w AND PTE_RW = 0)))"
    then show "b \<longrightarrow> pmap_leaf s' 104 0x40000000 = Some (share_leaf (VM_PROT_READ OR VM_PROT_WRITE OR VM_PROT_USER) shared_leaf)"
      using v l by simp
  qed
qed

end
