(* ===== verification/Port_Object.thy ===== *)
theory Port_Object
  imports Vm
begin

text \<open>
  Mach ports and port sets (src/mach/port_object.c with the structures of src/mach/port_internal.h): the objects,
  their reference counts, the queue of messages, notifications, and what happens when a reference is dropped.
  The kernel state is a record \<open>ipc\<close> that holds the objects by id; an operation that reads an object which has been
  freed is a \<open>Panic\<close>, as is a failed \<open>KASSERT\<close>. Each operation runs without interleaving; a thread that would be
  woken is appended to \<open>ipc_woken\<close>. Dropping a right can destroy a port, whose queue holds further rights:
  \<open>port_deref\<close> is recursive, and the depth of the calls is bounded by twice the number of references.
\<close>

unbundle bit_operations_syntax

section \<open>State\<close>

text \<open>
  A pointer to a port, to a port set or to a port space is a number: the id the object got when it was
  created, which is never given out again. A freed object is gone from its table, so any use of a dangling
  pointer is a \<open>Panic\<close>. The singly linked lists (queues, waiters, set members, dead-name watches) are lists.
\<close>

datatype mach_err =
    MACH_MSG_OK | MACH_E_INVAL | MACH_E_NAME | MACH_E_RIGHT | MACH_E_DEAD | MACH_E_NOSPACE
  | MACH_E_NOMSG | MACH_E_TOOSMALL | MACH_E_NOMEM | MACH_E_TIMEOUT | MACH_E_INTR

definition MACH_PORT_NULL :: nat where "MACH_PORT_NULL = 0"
definition MACH_PORT_DEAD :: nat where "MACH_PORT_DEAD = 0xFFFFFFFF"

definition MACH_PORT_RIGHT_RECEIVE :: "8 word" where "MACH_PORT_RIGHT_RECEIVE = 0x01"
definition MACH_PORT_RIGHT_SEND :: "8 word" where "MACH_PORT_RIGHT_SEND = 0x02"
definition MACH_PORT_RIGHT_SEND_ONCE :: "8 word" where "MACH_PORT_RIGHT_SEND_ONCE = 0x04"
definition MACH_PORT_RIGHT_PORT_SET :: "8 word" where "MACH_PORT_RIGHT_PORT_SET = 0x08"

definition MACH_NOTIFY_PORT_DESTROYED :: nat where "MACH_NOTIFY_PORT_DESTROYED = 69"
definition MACH_NOTIFY_NO_SENDERS :: nat where "MACH_NOTIFY_NO_SENDERS = 70"
definition MACH_NOTIFY_SEND_ONCE :: nat where "MACH_NOTIFY_SEND_ONCE = 71"
definition MACH_NOTIFY_DEAD_NAME :: nat where "MACH_NOTIFY_DEAD_NAME = 72"

definition MACH_MSG_TYPE_MOVE_RECEIVE :: nat where "MACH_MSG_TYPE_MOVE_RECEIVE = 16"
definition MACH_MSG_TYPE_MOVE_SEND :: nat where "MACH_MSG_TYPE_MOVE_SEND = 17"
definition MACH_MSG_TYPE_MOVE_SEND_ONCE :: nat where "MACH_MSG_TYPE_MOVE_SEND_ONCE = 18"
definition MACH_MSG_TYPE_COPY_SEND :: nat where "MACH_MSG_TYPE_COPY_SEND = 19"
definition MACH_MSG_TYPE_MAKE_SEND :: nat where "MACH_MSG_TYPE_MAKE_SEND = 20"
definition MACH_MSG_TYPE_MAKE_SEND_ONCE :: nat where "MACH_MSG_TYPE_MAKE_SEND_ONCE = 21"

definition MACH_MSGH_BITS_COMPLEX :: nat where "MACH_MSGH_BITS_COMPLEX = 0x80000000"
definition MACH_MSGH_BITS :: "nat \<Rightarrow> nat \<Rightarrow> nat" where
  "MACH_MSGH_BITS remote local = remote mod 256 + local mod 256 * 256"

definition MACH_MSG_PORT_DESCRIPTOR :: "8 word" where "MACH_MSG_PORT_DESCRIPTOR = 0"
definition MACH_MSG_OOL_DESCRIPTOR :: "8 word" where "MACH_MSG_OOL_DESCRIPTOR = 1"

definition DEFAULT_QMAX :: nat where "DEFAULT_QMAX = 1024"
definition KERNEL_QMAX :: nat where "KERNEL_QMAX = 4 * DEFAULT_QMAX"
definition INITIAL_SPACE_CAP :: nat where "INITIAL_SPACE_CAP = 16"
definition MAX_MSG_BYTES :: nat where "MAX_MSG_BYTES = 4096"

definition PORT_SPECIAL_NONE :: nat where "PORT_SPECIAL_NONE = 0"

record port_pending_desc =
  pd_type :: "8 word"
  pd_disposition :: "8 word"
  pd_ool_copy :: "8 word"
  pd_ool_size :: nat
  pd_port :: "nat option"
  pd_ool_pages :: "u64 list option"

record port_msg =
  m_size :: nat
  m_descs :: "port_pending_desc list"
  m_buf :: "8 word list"

record port_notify_node =
  nn_port :: nat
  nn_tag :: nat

record port =
  p_id :: u64
  p_refs :: nat
  p_send_count :: nat
  p_send_once_count :: nat
  p_has_receive :: bool
  p_dead :: bool
  p_qlen :: nat
  p_qresv :: nat
  p_qmax :: nat
  p_queue :: "port_msg list"
  p_waiters :: "nat list"
  p_send_waiters :: "nat list"
  p_set :: "nat option"
  p_special :: nat
  p_special_arg :: nat
  p_stash_buf :: "u64 option"
  p_stash_thread :: "nat option"
  p_stash_size :: nat
  p_stash_rv :: mach_err
  p_notify_no_senders :: "nat option"
  p_notify_no_senders_id :: nat
  p_notify_dead_name :: "port_notify_node list"
  p_notify_port_destroyed :: "nat option"
  p_notify_port_destroyed_id :: nat

record port_set =
  pset_id :: u64
  pset_refs :: nat
  pset_dead :: bool
  pset_member_count :: nat
  pset_members :: "nat list"
  pset_waiters :: "nat list"

record port_entry =
  pe_port :: "nat option"
  pe_set :: "nat option"
  pe_rights :: "8 word"
  pe_dead :: bool

record port_space =
  ps_id :: u64
  ps_table :: "port_entry list"
  ps_inuse :: nat
  ps_hint :: nat

text \<open>
  The kernel state the subsystem works on: its objects, the counters of ids, the threads woken so far (in
  order), the machine the frames of out-of-line payloads live in, and an oracle that says of each call of
  the kernel allocator whether it finds memory.
\<close>

record ipc =
  ipc_ports :: "nat \<Rightarrow> port option"
  ipc_sets :: "nat \<Rightarrow> port_set option"
  ipc_spaces :: "nat \<Rightarrow> port_space option"
  next_port_id :: u64
  next_space_id :: u64
  ipc_woken :: "nat list"
  ipc_ms :: mstate
  ipc_kmem :: "nat \<Rightarrow> bool"
  ipc_allocs :: nat

definition ipc_alloc :: "ipc \<Rightarrow> bool \<times> ipc" where
  "ipc_alloc h = (ipc_kmem h (ipc_allocs h), h\<lparr>ipc_allocs := ipc_allocs h + 1\<rparr>)"

definition with_port :: "nat \<Rightarrow> ipc \<Rightarrow> (port \<Rightarrow> 'a kres) \<Rightarrow> 'a kres" where
  "with_port p h f = (case ipc_ports h p of None \<Rightarrow> Panic ''use of a freed port'' | Some q \<Rightarrow> f q)"

definition with_set :: "nat \<Rightarrow> ipc \<Rightarrow> (port_set \<Rightarrow> 'a kres) \<Rightarrow> 'a kres" where
  "with_set s h f = (case ipc_sets h s of None \<Rightarrow> Panic ''use of a freed port set'' | Some t \<Rightarrow> f t)"

definition set_port :: "nat \<Rightarrow> port \<Rightarrow> ipc \<Rightarrow> ipc" where
  "set_port p q h = h\<lparr>ipc_ports := (ipc_ports h)(p \<mapsto> q)\<rparr>"

definition set_pset :: "nat \<Rightarrow> port_set \<Rightarrow> ipc \<Rightarrow> ipc" where
  "set_pset s t h = h\<lparr>ipc_sets := (ipc_sets h)(s \<mapsto> t)\<rparr>"

definition wake_all :: "nat list \<Rightarrow> ipc \<Rightarrow> ipc" where
  "wake_all ws h = h\<lparr>ipc_woken := ipc_woken h @ ws\<rparr>"

definition inc32 :: "nat \<Rightarrow> nat" where "inc32 n = (n + 1) mod 2 ^ 32"

section \<open>Creation and references\<close>

definition new_port :: "u64 \<Rightarrow> port" where
  "new_port i =
     \<lparr>p_id = i, p_refs = 0, p_send_count = 0, p_send_once_count = 0, p_has_receive = False, p_dead = False,
      p_qlen = 0, p_qresv = 0, p_qmax = DEFAULT_QMAX, p_queue = [], p_waiters = [], p_send_waiters = [],
      p_set = None, p_special = PORT_SPECIAL_NONE, p_special_arg = 0, p_stash_buf = None, p_stash_thread = None,
      p_stash_size = 0, p_stash_rv = MACH_E_NOMSG, p_notify_no_senders = None, p_notify_no_senders_id = 0,
      p_notify_dead_name = [], p_notify_port_destroyed = None, p_notify_port_destroyed_id = 0\<rparr>"

definition port_create :: "ipc \<Rightarrow> nat option \<times> ipc" where
  "port_create h =
     (case ipc_alloc h of (ok, h1) \<Rightarrow>
        if \<not> ok then (None, h1)
        else let i = next_port_id h1
             in (Some i, set_port i (new_port i) (h1\<lparr>next_port_id := add64 i 1\<rparr>)))"

definition port_ref :: "nat \<Rightarrow> 8 word \<Rightarrow> ipc \<Rightarrow> ipc kres" where
  "port_ref p rights h =
     with_port p h (\<lambda>q0.
       let q1 = (if has rights MACH_PORT_RIGHT_SEND
                 then q0\<lparr>p_send_count := inc32 (p_send_count q0), p_refs := inc32 (p_refs q0)\<rparr> else q0);
           q2 = (if has rights MACH_PORT_RIGHT_SEND_ONCE
                 then q1\<lparr>p_send_once_count := inc32 (p_send_once_count q1), p_refs := inc32 (p_refs q1)\<rparr> else q1)
       in if has rights MACH_PORT_RIGHT_RECEIVE
          then KASSERT (\<not> p_has_receive q2) ''port_ref: duplicate RECEIVE right''
                 (Ret (set_port p (q2\<lparr>p_has_receive := True, p_refs := inc32 (p_refs q2)\<rparr>) h))
          else Ret (set_port p q2 h))"

definition port_hold :: "nat \<Rightarrow> ipc \<Rightarrow> ipc kres" where
  "port_hold p h = with_port p h (\<lambda>q. Ret (set_port p (q\<lparr>p_refs := inc32 (p_refs q)\<rparr>) h))"

section \<open>The message queue\<close>

text \<open>
  \<open>msg_enqueue\<close> of src/mach/port_msg.c: append a message, and take one waiter, of the port's set if it
  has one there, of the port otherwise, for the caller to wake.
\<close>

definition take_port_waiter :: "nat \<Rightarrow> ipc \<Rightarrow> (nat option \<times> ipc) kres" where
  "take_port_waiter p h =
     with_port p h (\<lambda>q. case p_waiters q of
        [] \<Rightarrow> Ret (None, h)
      | w # ws \<Rightarrow> Ret (Some w, set_port p (q\<lparr>p_waiters := ws\<rparr>) h))"

definition take_waiter :: "nat \<Rightarrow> ipc \<Rightarrow> (nat option \<times> ipc) kres" where
  "take_waiter p h =
     with_port p h (\<lambda>q.
       kbind (case p_set q of
                None \<Rightarrow> Ret (None, h)
              | Some s \<Rightarrow> with_set s h (\<lambda>t. case pset_waiters t of
                             [] \<Rightarrow> Ret (None, h)
                           | w # ws \<Rightarrow> Ret (Some w, set_pset s (t\<lparr>pset_waiters := ws\<rparr>) h)))
         (\<lambda>(w, h1). case w of Some _ \<Rightarrow> Ret (w, h1) | None \<Rightarrow> take_port_waiter p h1))"

definition msg_enqueue :: "nat \<Rightarrow> port_msg \<Rightarrow> bool \<Rightarrow> ipc \<Rightarrow> (mach_err \<times> nat option \<times> ipc) kres" where
  "msg_enqueue p m reserved h =
     with_port p h (\<lambda>q0.
       kbind (if reserved
              then KASSERT (0 < p_qresv q0) ''msg_enqueue: no slot was reserved'' (Ret (q0\<lparr>p_qresv := p_qresv q0 - 1\<rparr>))
              else Ret q0) (\<lambda>q1.
       if p_dead q1 then Ret (MACH_E_DEAD, None, set_port p q1 h)
       else if \<not> reserved \<and> p_qlen q1 + p_qresv q1 \<ge> KERNEL_QMAX then Ret (MACH_E_NOSPACE, None, set_port p q1 h)
       else kbind (take_waiter p (set_port p (q1\<lparr>p_queue := p_queue q1 @ [m], p_qlen := p_qlen q1 + 1\<rparr>) h))
              (\<lambda>(w, h1). Ret (MACH_MSG_OK, w, h1))))"

definition le32 :: "nat \<Rightarrow> 8 word list" where
  "le32 n = [of_nat n, of_nat (n div 2 ^ 8), of_nat (n div 2 ^ 16), of_nat (n div 2 ^ 24)]"

definition msg_header :: "nat \<Rightarrow> nat \<Rightarrow> nat \<Rightarrow> nat \<Rightarrow> nat \<Rightarrow> nat \<Rightarrow> 8 word list" where
  "msg_header bits sz remote local voucher msgid =
     le32 bits @ le32 sz @ le32 remote @ le32 local @ le32 voucher @ le32 msgid"

definition wake_waiter :: "nat option \<Rightarrow> ipc \<Rightarrow> ipc" where
  "wake_waiter w h = (case w of None \<Rightarrow> h | Some t \<Rightarrow> wake_all [t] h)"

definition notify_msg :: "nat \<Rightarrow> nat \<Rightarrow> port_msg" where
  "notify_msg notify_id user_tag =
     \<lparr>m_size = 32, m_descs = [],
      m_buf = msg_header (MACH_MSGH_BITS MACH_MSG_TYPE_COPY_SEND 0) 32 MACH_PORT_NULL MACH_PORT_NULL 0 notify_id
                @ le32 user_tag @ le32 0\<rparr>"

definition port_notify_enqueue :: "nat \<Rightarrow> nat \<Rightarrow> nat \<Rightarrow> ipc \<Rightarrow> (mach_err \<times> ipc) kres" where
  "port_notify_enqueue n notify_id user_tag h =
     (case ipc_alloc h of (ok, h1) \<Rightarrow>
        if \<not> ok then Ret (MACH_E_NOMEM, h1)
        else kbind (msg_enqueue n (notify_msg notify_id user_tag) False h1)
             (\<lambda>(rv, w, h2). if rv \<noteq> MACH_MSG_OK then Ret (rv, h2) else Ret (MACH_MSG_OK, wake_waiter w h2)))"

definition receive_desc :: "nat \<Rightarrow> port_pending_desc" where
  "receive_desc p = \<lparr>pd_type = MACH_MSG_PORT_DESCRIPTOR, pd_disposition = MACH_PORT_RIGHT_RECEIVE, pd_ool_copy = 0,
     pd_ool_size = 0, pd_port = Some p, pd_ool_pages = None\<rparr>"

definition port_destroyed_msg :: "nat \<Rightarrow> nat \<Rightarrow> port_msg" where
  "port_destroyed_msg p user_tag =
     \<lparr>m_size = 44, m_descs = [receive_desc p],
      m_buf = msg_header (MACH_MSGH_BITS_COMPLEX + MACH_MSGH_BITS MACH_MSG_TYPE_COPY_SEND 0) 44
                  MACH_PORT_NULL MACH_PORT_NULL 0 MACH_NOTIFY_PORT_DESTROYED
                @ le32 1 @ [MACH_MSG_PORT_DESCRIPTOR, of_nat MACH_MSG_TYPE_MOVE_RECEIVE, 0, 0]
                @ le32 MACH_PORT_NULL @ le32 user_tag @ le32 0\<rparr>"

definition port_destroyed_post :: "nat \<Rightarrow> nat \<Rightarrow> nat \<Rightarrow> ipc \<Rightarrow> (mach_err \<times> ipc) kres" where
  "port_destroyed_post n p user_tag h =
     (case ipc_alloc h of (ok, h1) \<Rightarrow>
        if \<not> ok then Ret (MACH_E_NOMEM, h1)
        else case ipc_alloc h1 of (ok2, h2) \<Rightarrow>
        if \<not> ok2 then Ret (MACH_E_NOMEM, h2)
        else kbind (msg_enqueue n (port_destroyed_msg p user_tag) False h2)
             (\<lambda>(rv, w, h3). if rv \<noteq> MACH_MSG_OK then Ret (rv, h3) else Ret (MACH_MSG_OK, wake_waiter w h3)))"

section \<open>Dropping references\<close>

text \<open>
  Dropping the last reference to a port drops the rights its queued messages carry, and so on: \<open>port_deref\<close>,
  \<open>port_free\<close> and \<open>free_pending_descs\<close> call each other. Each takes the function that drops a right as an
  argument, and \<open>port_deref_n\<close> ties the knot with a bound on the depth of the calls.
\<close>

type_synonym dropper = "nat \<Rightarrow> 8 word \<Rightarrow> ipc \<Rightarrow> ipc kres"

definition pd_ool_drop :: "port_pending_desc \<Rightarrow> ipc \<Rightarrow> ipc kres" where
  "pd_ool_drop pd h =
     (case pd_ool_pages pd of
        None \<Rightarrow> Ret h
      | Some pas \<Rightarrow> kbind (vm_pages_release pas (ipc_ms h)) (\<lambda>s. Ret (h\<lparr>ipc_ms := s\<rparr>)))"

primrec free_pending_descs :: "dropper \<Rightarrow> port_pending_desc list \<Rightarrow> ipc \<Rightarrow> ipc kres" where
  "free_pending_descs d [] h = Ret h"
| "free_pending_descs d (pd # pds) h =
     kbind (if pd_type pd = MACH_MSG_PORT_DESCRIPTOR \<and> pd_port pd \<noteq> None then d (the (pd_port pd)) (pd_disposition pd) h
            else if pd_type pd = MACH_MSG_OOL_DESCRIPTOR then pd_ool_drop pd h
            else Ret h)
       (free_pending_descs d pds)"

text \<open>The loop that drops undelivered messages, of \<open>port_deref\<close> and \<open>port_free\<close>.\<close>

primrec drain_msgs :: "dropper \<Rightarrow> port_msg list \<Rightarrow> ipc \<Rightarrow> ipc kres" where
  "drain_msgs d [] h = Ret h"
| "drain_msgs d (m # ms) h = kbind (free_pending_descs d (m_descs m) h) (drain_msgs d ms)"

text \<open>The loop of \<open>port_free\<close> over dead-name watches that never fired.\<close>

primrec drop_watches :: "dropper \<Rightarrow> port_notify_node list \<Rightarrow> ipc \<Rightarrow> ipc kres" where
  "drop_watches d [] h = Ret h"
| "drop_watches d (n # ns) h = kbind (d (nn_port n) MACH_PORT_RIGHT_SEND h) (drop_watches d ns)"

definition port_free :: "dropper \<Rightarrow> nat \<Rightarrow> ipc \<Rightarrow> ipc kres" where
  "port_free d p h =
     with_port p h (\<lambda>q.
       KASSERT (p_refs q = 0) ''port_free: refs != 0''
       (KASSERT (p_send_count q = 0) ''port_free: send_count != 0''
       (KASSERT (p_send_once_count q = 0) ''port_free: send_once_count != 0''
       (KASSERT (\<not> p_has_receive q) ''port_free: receive right still held''
       (KASSERT (p_waiters q = []) ''port_free: recv waiters still parked''
       (KASSERT (p_send_waiters q = []) ''port_free: send waiters still parked''
       (KASSERT (p_qresv q = 0) ''port_free: a sender still holds a slot''
       (KASSERT (p_notify_port_destroyed q = None) ''port_free: PORT_DESTROYED still armed''
       (kbind (drain_msgs d (p_queue q) h) (\<lambda>h1.
        with_port p h1 (\<lambda>q1.
        kbind (drop_watches d (p_notify_dead_name q1) h1) (\<lambda>h2.
        Ret (h2\<lparr>ipc_ports := (ipc_ports h2)(p := None)\<rparr>)))))))))))))"

definition port_release :: "dropper \<Rightarrow> nat \<Rightarrow> ipc \<Rightarrow> ipc kres" where
  "port_release d p h =
     with_port p h (\<lambda>q.
       KASSERT (0 < p_refs q) ''port_release: refs underflow''
       (let q1 = q\<lparr>p_refs := p_refs q - 1\<rparr>; h1 = set_port p q1 h
        in if p_refs q1 = 0 then port_free d p h1 else Ret h1))"

text \<open>The walk of \<open>port_leave_set\<close> along the member list of a set reads every port it passes.\<close>

fun unlink_member :: "nat \<Rightarrow> nat list \<Rightarrow> ipc \<Rightarrow> nat list kres" where
  "unlink_member p [] h = Ret []"
| "unlink_member p (m # ms) h =
     with_port m h (\<lambda>_. if m = p then Ret ms else kbind (unlink_member p ms h) (\<lambda>ms'. Ret (m # ms')))"

definition port_leave_set :: "nat \<Rightarrow> nat \<Rightarrow> ipc \<Rightarrow> ipc kres" where
  "port_leave_set p s h =
     with_set s h (\<lambda>t.
       kbind (unlink_member p (pset_members t) h) (\<lambda>ms.
       with_port p h (\<lambda>_.
       Ret (if p \<in> set (pset_members t)
            then set_pset s (t\<lparr>pset_members := ms, pset_member_count := pset_member_count t - 1\<rparr>) h
            else h))))"

definition leave_set_opt :: "nat \<Rightarrow> nat option \<Rightarrow> ipc \<Rightarrow> ipc kres" where
  "leave_set_opt p member_of h = (case member_of of None \<Rightarrow> Ret h | Some s \<Rightarrow> port_leave_set p s h)"

definition port_destroyed_divert :: "dropper \<Rightarrow> nat \<Rightarrow> ipc \<Rightarrow> (bool \<times> ipc) kres" where
  "port_destroyed_divert d p h =
     with_port p h (\<lambda>q.
       let q1 = q\<lparr>p_notify_port_destroyed := None, p_notify_port_destroyed_id := 0\<rparr>
       in case p_notify_port_destroyed q of
            None \<Rightarrow> Ret (False, set_port p q1 h)
          | Some n \<Rightarrow>
              if p_dead q
              then kbind (d n MACH_PORT_RIGHT_SEND (set_port p q1 h)) (\<lambda>h1. Ret (False, h1))
              else let q2 = q1\<lparr>p_set := None, p_waiters := []\<rparr>
                   in kbind (leave_set_opt p (p_set q) (set_port p q2 h)) (\<lambda>h1.
                      kbind (port_destroyed_post n p (p_notify_port_destroyed_id q) (wake_all (p_waiters q) h1)) (\<lambda>(rv, h2).
                      kbind (d n MACH_PORT_RIGHT_SEND h2) (\<lambda>h3.
                      Ret (rv = MACH_MSG_OK, h3)))))"

text \<open>What \<open>port_deref\<close> takes out of the port under its lock, to deal with once the lock is dropped.\<close>

record deref_work =
  dw_last :: bool
  dw_drain :: "port_msg list"
  dw_wake :: "nat list"
  dw_send_wake :: "nat list"
  dw_no_senders :: "nat option"
  dw_no_senders_id :: nat
  dw_fire_no_senders :: bool
  dw_dead_names :: "port_notify_node list"
  dw_member_of :: "nat option"

definition no_work :: deref_work where
  "no_work = \<lparr>dw_last = False, dw_drain = [], dw_wake = [], dw_send_wake = [], dw_no_senders = None, dw_no_senders_id = 0,
     dw_fire_no_senders = False, dw_dead_names = [], dw_member_of = None\<rparr>"

definition deref_counts :: "8 word \<Rightarrow> port \<Rightarrow> port kres" where
  "deref_counts rights q0 =
     kbind (if has rights MACH_PORT_RIGHT_SEND
            then KASSERT (0 < p_send_count q0) ''port_deref: SEND underflow''
                 (KASSERT (0 < p_refs q0) ''port_deref: refs underflow''
                   (Ret (q0\<lparr>p_send_count := p_send_count q0 - 1, p_refs := p_refs q0 - 1\<rparr>)))
            else Ret q0) (\<lambda>q1.
     if has rights MACH_PORT_RIGHT_SEND_ONCE
     then KASSERT (0 < p_send_once_count q1) ''port_deref: SEND_ONCE underflow''
          (KASSERT (0 < p_refs q1) ''port_deref: refs underflow''
            (Ret (q1\<lparr>p_send_once_count := p_send_once_count q1 - 1, p_refs := p_refs q1 - 1\<rparr>)))
     else Ret q1)"

definition deref_receive :: "8 word \<Rightarrow> port \<Rightarrow> (port \<times> deref_work) kres" where
  "deref_receive rights q =
     (if has rights MACH_PORT_RIGHT_RECEIVE
      then KASSERT (p_has_receive q) ''port_deref: RECEIVE not held''
           (KASSERT (0 < p_refs q) ''port_deref: refs underflow''
             (Ret (q\<lparr>p_has_receive := False, p_dead := True, p_refs := p_refs q - 1, p_queue := [], p_qlen := 0,
                     p_waiters := [], p_send_waiters := [], p_set := None, p_notify_no_senders := None,
                     p_notify_no_senders_id := (if p_notify_no_senders q = None then p_notify_no_senders_id q else 0),
                     p_notify_dead_name := []\<rparr>,
                   no_work\<lparr>dw_drain := p_queue q, dw_wake := p_waiters q, dw_send_wake := p_send_waiters q,
                           dw_member_of := p_set q, dw_no_senders := p_notify_no_senders q,
                           dw_dead_names := p_notify_dead_name q\<rparr>)))
      else Ret (q, no_work))"

definition deref_no_senders :: "8 word \<Rightarrow> port \<times> deref_work \<Rightarrow> port \<times> deref_work" where
  "deref_no_senders rights = (\<lambda>(q, w).
     if rights AND (MACH_PORT_RIGHT_SEND OR MACH_PORT_RIGHT_SEND_ONCE) \<noteq> 0 \<and>
        p_send_count q = 0 \<and> p_send_once_count q = 0 \<and> p_has_receive q \<and> \<not> p_dead q
     then if p_notify_no_senders q \<noteq> None
          then (q\<lparr>p_notify_no_senders := None, p_notify_no_senders_id := 0\<rparr>,
                w\<lparr>dw_no_senders := p_notify_no_senders q, dw_no_senders_id := p_notify_no_senders_id q,
                  dw_fire_no_senders := True\<rparr>)
          else if p_qlen q = 0 \<and> p_waiters q \<noteq> []
          then (q\<lparr>p_dead := True, p_waiters := []\<rparr>, w\<lparr>dw_wake := p_waiters q\<rparr>)
          else (q, w)
     else (q, w))"

definition deref_locked :: "8 word \<Rightarrow> port \<Rightarrow> (port \<times> deref_work) kres" where
  "deref_locked rights q =
     kbind (deref_counts rights q) (\<lambda>q1.
     kbind (deref_receive rights q1) (\<lambda>qw.
     case deref_no_senders rights qw of (q2, w) \<Rightarrow> Ret (q2, w\<lparr>dw_last := (p_refs q2 = 0)\<rparr>)))"

primrec fire_dead_names :: "dropper \<Rightarrow> port_notify_node list \<Rightarrow> ipc \<Rightarrow> ipc kres" where
  "fire_dead_names d [] h = Ret h"
| "fire_dead_names d (n # ns) h =
     kbind (port_notify_enqueue (nn_port n) MACH_NOTIFY_DEAD_NAME (nn_tag n) h) (\<lambda>(_, h1).
     kbind (d (nn_port n) MACH_PORT_RIGHT_SEND h1) (fire_dead_names d ns))"

definition deref_settle :: "dropper \<Rightarrow> deref_work \<Rightarrow> ipc \<Rightarrow> ipc kres" where
  "deref_settle d w h =
     kbind (if dw_fire_no_senders w
            then kbind (port_notify_enqueue (the (dw_no_senders w)) MACH_NOTIFY_NO_SENDERS (dw_no_senders_id w) h)
                   (\<lambda>(_, h1). Ret h1)
            else Ret h) (\<lambda>h1.
     kbind (case dw_no_senders w of None \<Rightarrow> Ret h1 | Some n \<Rightarrow> d n MACH_PORT_RIGHT_SEND h1) (\<lambda>h2.
     kbind (fire_dead_names d (dw_dead_names w) h2) (\<lambda>h3.
     drain_msgs d (dw_drain w) h3)))"

definition deref_unlocked :: "dropper \<Rightarrow> nat \<Rightarrow> deref_work \<Rightarrow> ipc \<Rightarrow> ipc kres" where
  "deref_unlocked d p w h =
     kbind (deref_settle d w h) (\<lambda>h4.
     kbind (leave_set_opt p (dw_member_of w) (wake_all (dw_wake w @ dw_send_wake w) h4)) (\<lambda>h5.
     if dw_last w then port_free d p h5 else Ret h5))"

definition port_deref_with :: "dropper \<Rightarrow> dropper" where
  "port_deref_with d p rights h =
     kbind (if has rights MACH_PORT_RIGHT_RECEIVE then port_destroyed_divert d p h else Ret (False, h)) (\<lambda>(diverted, h1).
     let rights1 = (if diverted then rights AND NOT MACH_PORT_RIGHT_RECEIVE else rights)
     in if diverted \<and> rights1 = 0 then Ret h1
        else with_port p h1 (\<lambda>q. kbind (deref_locked rights1 q) (\<lambda>(q', w).
               deref_unlocked d p w (set_port p q' h1))))"

fun port_deref_n :: "nat \<Rightarrow> dropper" where
  "port_deref_n 0 p rights h = Panic ''port_deref: too deep''"
| "port_deref_n (Suc n) p rights h = port_deref_with (port_deref_n n) p rights h"

text \<open>Every call of \<open>port_deref\<close> drops a reference, or hands a receive right on and drops a send right next: the calls
  are nested at most twice as deep as there are references.\<close>

definition ipc_refs :: "ipc \<Rightarrow> nat" where
  "ipc_refs h = sum_list (map (\<lambda>i. case ipc_ports h i of None \<Rightarrow> 0 | Some q \<Rightarrow> p_refs q) [0..<next_port_id h])"

definition port_deref :: dropper where
  "port_deref p rights h = port_deref_n (2 * ipc_refs h + 2) p rights h"

section \<open>Port sets\<close>

definition new_pset :: "u64 \<Rightarrow> port_set" where
  "new_pset i = \<lparr>pset_id = i, pset_refs = 0, pset_dead = False, pset_member_count = 0, pset_members = [], pset_waiters = []\<rparr>"

definition port_set_create :: "ipc \<Rightarrow> nat option \<times> ipc" where
  "port_set_create h =
     (case ipc_alloc h of (ok, h1) \<Rightarrow>
        if \<not> ok then (None, h1)
        else let i = next_port_id h1
             in (Some i, set_pset i (new_pset i) (h1\<lparr>next_port_id := add64 i 1\<rparr>)))"

definition port_set_free :: "nat \<Rightarrow> ipc \<Rightarrow> ipc kres" where
  "port_set_free s h =
     with_set s h (\<lambda>t.
       KASSERT (pset_refs t = 0) ''port_set_free: refs != 0''
       (KASSERT (pset_member_count t = 0) ''port_set_free: members still attached''
         (Ret (h\<lparr>ipc_sets := (ipc_sets h)(s := None)\<rparr>))))"

definition port_set_ref :: "nat \<Rightarrow> ipc \<Rightarrow> ipc kres" where
  "port_set_ref s h = with_set s h (\<lambda>t. Ret (set_pset s (t\<lparr>pset_refs := inc32 (pset_refs t)\<rparr>) h))"

primrec detach_members :: "nat list \<Rightarrow> ipc \<Rightarrow> ipc kres" where
  "detach_members [] h = Ret h"
| "detach_members (p # ps) h = with_port p h (\<lambda>q. detach_members ps (set_port p (q\<lparr>p_set := None\<rparr>) h))"

definition port_set_deref :: "nat \<Rightarrow> ipc \<Rightarrow> ipc kres" where
  "port_set_deref s h =
     with_set s h (\<lambda>t.
       KASSERT (0 < pset_refs t) ''port_set_deref: underflow''
       (let t1 = t\<lparr>pset_refs := pset_refs t - 1\<rparr>
        in if pset_refs t1 \<noteq> 0 then Ret (set_pset s t1 h)
           else let h1 = set_pset s (t1\<lparr>pset_dead := True, pset_members := [], pset_member_count := 0, pset_waiters := []\<rparr>) h
                in kbind (detach_members (pset_members t) h1) (\<lambda>h2.
                   port_set_free s (wake_all (pset_waiters t) h2))))"

end
