(* ===== verification/Port_Rights.thy ===== *)
theory Port_Rights
  imports Port_Object Vm_Frames "HOL-Library.Multiset"
begin

text \<open>
  Who holds what. Every reference to a port is held by a name of a space, by a message in a queue, by an armed
  notification, or by the code that is running; the rights held form a multiset (\<open>all_rights\<close>), and the invariant
  \<open>ipc_inv\<close> says that the counts of every port are the multiplicities in it, that nothing held has been freed, that a
  port and its set agree, that name tables are well formed, and that every frame in a queued message is accounted
  for in the frame layer. What the running code holds is a context \<open>ipc_ctx\<close>. The lemmas say how replacing one
  object moves holdings, and \<open>outcome\<close> is the contract of code that drops rights.
\<close>

unbundle bit_operations_syntax

section \<open>Who holds what\<close>

text \<open>
  Every reference to a port has a holder: an entry of a space, a descriptor of a queued message, a registered
  notification, or the code that is running (a \<open>ctx\<close>). \<open>HHold\<close> is a reference that is no right.
\<close>

datatype hold_kind = HSend | HOnce | HRecv | HHold

type_synonym holdings = "(nat \<times> hold_kind) multiset"

definition rights_held :: "nat \<Rightarrow> 8 word \<Rightarrow> holdings" where
  "rights_held p r = (if has r MACH_PORT_RIGHT_SEND then {#(p, HSend)#} else {#}) +
     (if has r MACH_PORT_RIGHT_SEND_ONCE then {#(p, HOnce)#} else {#}) +
     (if has r MACH_PORT_RIGHT_RECEIVE then {#(p, HRecv)#} else {#})"

definition desc_rights :: "port_pending_desc \<Rightarrow> holdings" where
  "desc_rights pd = (if pd_type pd = MACH_MSG_PORT_DESCRIPTOR
     then (case pd_port pd of None \<Rightarrow> {#} | Some p \<Rightarrow> rights_held p (pd_disposition pd)) else {#})"

definition desc_pages :: "port_pending_desc \<Rightarrow> u64 multiset" where
  "desc_pages pd = (if pd_type pd = MACH_MSG_OOL_DESCRIPTOR
     then (case pd_ool_pages pd of None \<Rightarrow> {#} | Some pas \<Rightarrow> mset pas) else {#})"

definition descs_rights :: "port_pending_desc list \<Rightarrow> holdings" where
  "descs_rights pds = sum_list (map desc_rights pds)"

definition descs_pages :: "port_pending_desc list \<Rightarrow> u64 multiset" where
  "descs_pages pds = sum_list (map desc_pages pds)"

definition queue_rights :: "port_msg list \<Rightarrow> holdings" where
  "queue_rights ms = sum_list (map (\<lambda>m. descs_rights (m_descs m)) ms)"

definition queue_pages :: "port_msg list \<Rightarrow> u64 multiset" where
  "queue_pages ms = sum_list (map (\<lambda>m. descs_pages (m_descs m)) ms)"

definition notify_rights :: "nat option \<Rightarrow> holdings" where
  "notify_rights o' = (case o' of None \<Rightarrow> {#} | Some n \<Rightarrow> {#(n, HSend)#})"

definition watch_rights :: "port_notify_node list \<Rightarrow> holdings" where
  "watch_rights ns = sum_list (map (\<lambda>n. {#(nn_port n, HSend)#}) ns)"

definition port_holds :: "port \<Rightarrow> holdings" where
  "port_holds q = queue_rights (p_queue q) + notify_rights (p_notify_no_senders q) +
     notify_rights (p_notify_port_destroyed q) + watch_rights (p_notify_dead_name q)"

definition entry_holds :: "port_entry \<Rightarrow> holdings" where
  "entry_holds e = (case pe_port e of None \<Rightarrow> {#} | Some p \<Rightarrow> rights_held p (pe_rights e))"

definition entry_sets :: "port_entry \<Rightarrow> nat multiset" where
  "entry_sets e = (case pe_set e of None \<Rightarrow> {#} | Some s \<Rightarrow> {#s#})"

definition space_holds :: "port_space \<Rightarrow> holdings" where
  "space_holds sp = sum_list (map entry_holds (ps_table sp))"

definition space_sets :: "port_space \<Rightarrow> nat multiset" where
  "space_sets sp = sum_list (map entry_sets (ps_table sp))"

definition over :: "nat \<Rightarrow> (nat \<Rightarrow> 'a option) \<Rightarrow> (nat \<Rightarrow> 'a \<Rightarrow> 'b multiset) \<Rightarrow> 'b multiset" where
  "over n m f = (\<Sum>i<n. case m i of None \<Rightarrow> {#} | Some x \<Rightarrow> f i x)"

text \<open>The ports in \<open>F\<close> are being freed: what they held is in the hands of the code that frees them.\<close>

definition holds_unless :: "nat set \<Rightarrow> nat \<Rightarrow> port \<Rightarrow> holdings" where
  "holds_unless F i q = (if i \<in> F then {#} else port_holds q)"

definition pages_unless :: "nat set \<Rightarrow> nat \<Rightarrow> port \<Rightarrow> u64 multiset" where
  "pages_unless F i q = (if i \<in> F then {#} else queue_pages (p_queue q))"

definition held :: "nat set \<Rightarrow> ipc \<Rightarrow> holdings" where
  "held F h = over (next_port_id h) (ipc_ports h) (holds_unless F) + over (next_space_id h) (ipc_spaces h) (\<lambda>_. space_holds)"

definition set_names :: "ipc \<Rightarrow> nat multiset" where
  "set_names h = over (next_space_id h) (ipc_spaces h) (\<lambda>_. space_sets)"

definition pages_queued :: "nat set \<Rightarrow> ipc \<Rightarrow> u64 multiset" where
  "pages_queued F h = over (next_port_id h) (ipc_ports h) (pages_unless F)"

lemma over_upd:
  assumes "i < n"
  shows "over n (m(i \<mapsto> y)) f + (case m i of None \<Rightarrow> {#} | Some x \<Rightarrow> f i x) = over n m f + f i y"
proof -
  have i: "finite {..<n}" "i \<in> {..<n}" using assms by auto
  have "(\<Sum>j\<in>{..<n} - {i}. case (m(i \<mapsto> y)) j of None \<Rightarrow> {#} | Some x \<Rightarrow> f j x) =
      (\<Sum>j\<in>{..<n} - {i}. case m j of None \<Rightarrow> {#} | Some x \<Rightarrow> f j x)" by (rule sum.cong) auto
  then show ?thesis unfolding over_def sum.remove [OF i] by simp
qed

lemma over_del:
  assumes "i < n"
  shows "over n (m(i := None)) f + (case m i of None \<Rightarrow> {#} | Some x \<Rightarrow> f i x) = over n m f"
proof -
  have i: "finite {..<n}" "i \<in> {..<n}" using assms by auto
  have "(\<Sum>j\<in>{..<n} - {i}. case (m(i := None)) j of None \<Rightarrow> {#} | Some x \<Rightarrow> f j x) =
      (\<Sum>j\<in>{..<n} - {i}. case m j of None \<Rightarrow> {#} | Some x \<Rightarrow> f j x)" by (rule sum.cong) auto
  then show ?thesis unfolding over_def sum.remove [OF i] by simp
qed

lemma over_new: "over (Suc n) (m(n \<mapsto> y)) f = over n m f + f n y"
proof -
  have "(\<Sum>j<n. case (m(n \<mapsto> y)) j of None \<Rightarrow> {#} | Some x \<Rightarrow> f j x) = (\<Sum>j<n. case m j of None \<Rightarrow> {#} | Some x \<Rightarrow> f j x)"
    by (rule sum.cong) auto
  then show ?thesis by (simp add: over_def)
qed

lemma over_fun:
  assumes "i < n" "m i = Some x" "\<And>j y. j \<noteq> i \<Longrightarrow> g j y = f j y"
  shows "over n m g + f i x = over n m f + g i x"
proof -
  have i: "finite {..<n}" "i \<in> {..<n}" using assms by auto
  have "(\<Sum>j\<in>{..<n} - {i}. case m j of None \<Rightarrow> {#} | Some x \<Rightarrow> g j x) =
      (\<Sum>j\<in>{..<n} - {i}. case m j of None \<Rightarrow> {#} | Some x \<Rightarrow> f j x)" using assms(3) by (intro sum.cong) (auto split: option.splits)
  then show ?thesis unfolding over_def sum.remove [OF i] by (simp add: assms(2))
qed

section \<open>The invariant\<close>

text \<open>
  What the running code holds: rights, frames, slots it has reserved, references to sets; the ports and sets that
  are alive without a reference (just created, or about to be freed), the ports and spaces being freed, and the
  ports that have left a set but are still on its list. The address spaces are \<open>cx_spaces\<close>, and \<open>cx_frames\<close>
  counts the references to frames outside the subsystem.
\<close>

record ipc_ctx =
  cx_rights :: holdings
  cx_pages :: "u64 multiset"
  cx_slots :: "nat multiset"
  cx_sets :: "nat multiset"
  cx_zero :: "nat set"
  cx_zero_sets :: "nat set"
  cx_freeing :: "nat set"
  cx_dying :: "nat set"
  cx_leaving :: "(nat \<times> nat) set"
  cx_spaces :: "nat set"
  cx_frames :: "nat \<Rightarrow> nat"

definition all_rights :: "ipc_ctx \<Rightarrow> ipc \<Rightarrow> holdings" where
  "all_rights c h = held (cx_freeing c) h + cx_rights c"

definition right_ok :: "8 word \<Rightarrow> bool" where
  "right_ok r \<longleftrightarrow> r \<in> {MACH_PORT_RIGHT_RECEIVE, MACH_PORT_RIGHT_SEND, MACH_PORT_RIGHT_SEND_ONCE}"

text \<open>The rights a name of a port can carry: at least one of the three.\<close>

definition rights_ok :: "8 word \<Rightarrow> bool" where
  "rights_ok r \<longleftrightarrow> r \<noteq> 0 \<and> r AND NOT (MACH_PORT_RIGHT_RECEIVE OR MACH_PORT_RIGHT_SEND OR MACH_PORT_RIGHT_SEND_ONCE) = 0"

definition desc_ok :: "port_pending_desc \<Rightarrow> bool" where
  "desc_ok pd \<longleftrightarrow> (pd_type pd = MACH_MSG_PORT_DESCRIPTOR \<longrightarrow> pd_port pd \<noteq> None \<longrightarrow> right_ok (pd_disposition pd))"

definition port_inv :: "ipc_ctx \<Rightarrow> holdings \<Rightarrow> (nat \<Rightarrow> port_set option) \<Rightarrow> nat \<Rightarrow> port \<Rightarrow> bool" where
  "port_inv c A S p q \<longleftrightarrow>
     p_send_count q = count A (p, HSend) \<and>
     p_send_once_count q = count A (p, HOnce) \<and>
     (if p_has_receive q then 1 else 0) = count A (p, HRecv) \<and>
     p_refs q = count A (p, HSend) + count A (p, HOnce) + count A (p, HRecv) + count A (p, HHold) \<and>
     p_refs q < 2 ^ 32 \<and>
     (p_refs q = 0 \<longleftrightarrow> p \<in> cx_zero c) \<and>
     p_qlen q = length (p_queue q) \<and>
     p_qresv q = count (cx_slots c) p \<and>
     (\<forall>m \<in> set (p_queue q). \<forall>pd \<in> set (m_descs m). desc_ok pd) \<and>
     (\<not> p_has_receive q \<longrightarrow> p_waiters q = [] \<and> p_set q = None \<and> p_notify_no_senders q = None \<and>
        p_notify_dead_name q = [] \<and> p_notify_port_destroyed q = None) \<and>
     (case p_set q of None \<Rightarrow> True | Some s \<Rightarrow> \<exists>t. S s = Some t \<and> p \<in> set (pset_members t))"

definition pset_inv :: "ipc_ctx \<Rightarrow> nat multiset \<Rightarrow> (nat \<Rightarrow> port option) \<Rightarrow> nat \<Rightarrow> port_set \<Rightarrow> bool" where
  "pset_inv c N P s t \<longleftrightarrow>
     pset_refs t = count N s \<and> pset_refs t < 2 ^ 32 \<and> (pset_refs t = 0 \<longleftrightarrow> s \<in> cx_zero_sets c) \<and>
     distinct (pset_members t) \<and> pset_member_count t = length (pset_members t) \<and>
     (\<forall>p \<in> set (pset_members t). (\<exists>q. P p = Some q \<and> p_set q = Some s) \<or> (p, s) \<in> cx_leaving c)"

definition used_entry :: "port_entry \<Rightarrow> bool" where
  "used_entry e \<longleftrightarrow> pe_port e \<noteq> None \<or> pe_set e \<noteq> None \<or> pe_dead e"

text \<open>
  A slot of a name table is empty, a dead name, the name of a port with at least one right, or the name of a set.
\<close>

definition entry_inv :: "port_entry \<Rightarrow> bool" where
  "entry_inv e \<longleftrightarrow>
     (case pe_port e of Some _ \<Rightarrow> pe_set e = None \<and> \<not> pe_dead e \<and> rights_ok (pe_rights e)
      | None \<Rightarrow> (case pe_set e of Some _ \<Rightarrow> \<not> pe_dead e \<and> pe_rights e = MACH_PORT_RIGHT_PORT_SET
                | None \<Rightarrow> pe_rights e = 0))"

definition space_inv :: "port_space \<Rightarrow> bool" where
  "space_inv sp \<longleftrightarrow> 2 \<le> length (ps_table sp) \<and> length (ps_table sp) < 2 ^ 32 \<and> \<not> used_entry (ps_table sp ! 0) \<and>
     (\<forall>e \<in> set (ps_table sp). entry_inv e) \<and> 1 \<le> ps_hint sp \<and> ps_hint sp < length (ps_table sp)"

definition page_count :: "u64 multiset \<Rightarrow> nat \<Rightarrow> nat" where
  "page_count P f = size (filter_mset (\<lambda>pa. pa \<noteq> PA_INVALID \<and> page_index pa = f) P)"

definition frames_ok :: "ipc_ctx \<Rightarrow> u64 multiset \<Rightarrow> mstate \<Rightarrow> bool" where
  "frames_ok c P s \<longleftrightarrow> accounted (\<lambda>f. cx_frames c f + page_count P f) s (cx_spaces c) \<and>
     (\<forall>pa \<in># P. pa \<noteq> PA_INVALID \<longrightarrow> page_aligned pa)"

definition ipc_inv :: "ipc_ctx \<Rightarrow> ipc \<Rightarrow> bool" where
  "ipc_inv c h \<longleftrightarrow>
     (\<forall>p q. ipc_ports h p = Some q \<longrightarrow> p < next_port_id h \<and> port_inv c (all_rights c h) (ipc_sets h) p q) \<and>
     (\<forall>x \<in># all_rights c h. ipc_ports h (fst x) \<noteq> None) \<and>
     (\<forall>s t. ipc_sets h s = Some t \<longrightarrow> s < next_port_id h \<and> pset_inv c (set_names h + cx_sets c) (ipc_ports h) s t) \<and>
     (\<forall>s \<in># set_names h + cx_sets c. ipc_sets h s \<noteq> None) \<and>
     (\<forall>i sp. ipc_spaces h i = Some sp \<longrightarrow> i < next_space_id h \<and> space_inv sp \<and>
        (i \<notin> cx_dying c \<longrightarrow> ps_inuse sp = length (filter used_entry (ps_table sp)))) \<and>
     frames_ok c (pages_queued (cx_freeing c) h + cx_pages c) (ipc_ms h) \<and>
     cx_zero c \<subseteq> dom (ipc_ports h) \<and> cx_freeing c \<subseteq> cx_zero c"

text \<open>A port with a parked sender or a reserved slot is held by that sender.\<close>

definition pinned :: "ipc_ctx \<Rightarrow> nat \<Rightarrow> bool" where
  "pinned c p \<longleftrightarrow> (\<exists>k. (p, k) \<in># cx_rights c)"

definition pins :: "ipc_ctx \<Rightarrow> ipc \<Rightarrow> bool" where
  "pins c h \<longleftrightarrow> (\<forall>p q. ipc_ports h p = Some q \<longrightarrow> p_send_waiters q \<noteq> [] \<or> 0 < p_qresv q \<longrightarrow> pinned c p)"

section \<open>Changing one port\<close>

lemma ipc_invD:
  assumes "ipc_inv c h"
  shows "ipc_ports h p = Some q \<Longrightarrow> p < next_port_id h" "ipc_ports h p = Some q \<Longrightarrow> port_inv c (all_rights c h) (ipc_sets h) p q"
    "x \<in># all_rights c h \<Longrightarrow> \<exists>q. ipc_ports h (fst x) = Some q"
    "ipc_sets h s = Some t \<Longrightarrow> s < next_port_id h \<and> pset_inv c (set_names h + cx_sets c) (ipc_ports h) s t"
    "s \<in># set_names h + cx_sets c \<Longrightarrow> \<exists>t. ipc_sets h s = Some t"
    "ipc_spaces h i = Some sp \<Longrightarrow> i < next_space_id h \<and> space_inv sp \<and>
       (i \<notin> cx_dying c \<longrightarrow> ps_inuse sp = length (filter used_entry (ps_table sp)))"
    "frames_ok c (pages_queued (cx_freeing c) h + cx_pages c) (ipc_ms h)"
    "z \<in> cx_zero c \<Longrightarrow> \<exists>q. ipc_ports h z = Some q" "cx_freeing c \<subseteq> cx_zero c"
  using assms unfolding ipc_inv_def by blast+

lemma port_invD:
  assumes "port_inv c A S p q"
  shows "p_send_count q = count A (p, HSend)" "p_send_once_count q = count A (p, HOnce)"
    "(if p_has_receive q then 1 else 0) = count A (p, HRecv)"
    "p_refs q = count A (p, HSend) + count A (p, HOnce) + count A (p, HRecv) + count A (p, HHold)"
    "p_refs q < 2 ^ 32" "p_refs q = 0 \<longleftrightarrow> p \<in> cx_zero c" "p_qlen q = length (p_queue q)" "p_qresv q = count (cx_slots c) p"
    "\<forall>m \<in> set (p_queue q). \<forall>pd \<in> set (m_descs m). desc_ok pd"
    "\<not> p_has_receive q \<Longrightarrow> p_waiters q = [] \<and> p_set q = None \<and> p_notify_no_senders q = None \<and>
        p_notify_dead_name q = [] \<and> p_notify_port_destroyed q = None"
    "p_set q = Some s \<Longrightarrow> \<exists>t. S s = Some t \<and> p \<in> set (pset_members t)"
  using assms unfolding port_inv_def by (elim conjE; simp)+

lemma pset_member:
  assumes "pset_inv c N P s t" "m \<in> set (pset_members t)"
  shows "(\<exists>q. P m = Some q \<and> p_set q = Some s) \<or> (m, s) \<in> cx_leaving c"
proof -
  have "\<forall>p \<in> set (pset_members t). (\<exists>q. P p = Some q \<and> p_set q = Some s) \<or> (p, s) \<in> cx_leaving c"
    using assms(1) unfolding pset_inv_def by (elim conjE)
  then show ?thesis using assms(2) by (rule bspec)
qed

lemma pset_inv_cong:
  assumes inv: "pset_inv c N P s t" and "count N' s = count N s" "s \<in> cx_zero_sets c' \<longleftrightarrow> s \<in> cx_zero_sets c"
    and m: "\<And>m q. m \<in> set (pset_members t) \<Longrightarrow> P m = Some q \<Longrightarrow> p_set q = Some s \<Longrightarrow>
      (\<exists>q'. P' m = Some q' \<and> p_set q' = Some s) \<or> (m, s) \<in> cx_leaving c'"
    and l: "\<And>m. m \<in> set (pset_members t) \<Longrightarrow> (m, s) \<in> cx_leaving c \<Longrightarrow> (m, s) \<in> cx_leaving c'"
  shows "pset_inv c' N' P' s t"
proof -
  have "\<forall>m \<in> set (pset_members t). (\<exists>q'. P' m = Some q' \<and> p_set q' = Some s) \<or> (m, s) \<in> cx_leaving c'"
    using pset_member [OF inv] m l by blast
  then show ?thesis using inv unfolding pset_inv_def assms(2,3) by (elim conjE) (intro conjI)
qed

text \<open>Contexts that differ only in what they hold of ports, messages and slots.\<close>

definition ctx_like :: "ipc_ctx \<Rightarrow> ipc_ctx \<Rightarrow> bool" where
  "ctx_like c c' \<longleftrightarrow> cx_sets c' = cx_sets c \<and> cx_zero_sets c' = cx_zero_sets c \<and> cx_dying c' = cx_dying c \<and>
     cx_spaces c' = cx_spaces c \<and> cx_frames c' = cx_frames c \<and> cx_freeing c' = cx_freeing c"

lemma set_port_simps [simp]:
  "ipc_ports (set_port p q h) = (ipc_ports h)(p \<mapsto> q)" "ipc_sets (set_port p q h) = ipc_sets h"
  "ipc_spaces (set_port p q h) = ipc_spaces h" "next_port_id (set_port p q h) = next_port_id h"
  "next_space_id (set_port p q h) = next_space_id h" "ipc_ms (set_port p q h) = ipc_ms h"
  "ipc_kmem (set_port p q h) = ipc_kmem h" "ipc_allocs (set_port p q h) = ipc_allocs h"
  "ipc_woken (set_port p q h) = ipc_woken h"
  by (simp_all add: set_port_def)

lemma set_pset_simps [simp]:
  "ipc_ports (set_pset p q h) = ipc_ports h" "ipc_sets (set_pset s t h) = (ipc_sets h)(s \<mapsto> t)"
  "ipc_spaces (set_pset s t h) = ipc_spaces h" "next_port_id (set_pset s t h) = next_port_id h"
  "next_space_id (set_pset s t h) = next_space_id h" "ipc_ms (set_pset s t h) = ipc_ms h"
  "ipc_kmem (set_pset s t h) = ipc_kmem h" "ipc_allocs (set_pset s t h) = ipc_allocs h"
  by (simp_all add: set_pset_def)

lemma all_rights_set_port:
  assumes q: "ipc_ports h p = Some q" "p < next_port_id h" "p \<notin> cx_freeing c"
    and F: "cx_freeing c' = cx_freeing c"
    and mv: "port_holds q' + cx_rights c' + D = port_holds q + cx_rights c + E"
  shows "all_rights c' (set_port p q' h) + D = all_rights c h + E"
proof -
  let ?n = "next_port_id h" and ?f = "holds_unless (cx_freeing c)"
  have o: "over ?n ((ipc_ports h)(p \<mapsto> q')) ?f + port_holds q = over ?n (ipc_ports h) ?f + port_holds q'"
    using over_upd [OF q(2), of "ipc_ports h" q' ?f] q(1,3) by (simp add: holds_unless_def)
  let ?S = "over (next_space_id h) (ipc_spaces h) (\<lambda>_. space_holds)"
  have "over ?n ((ipc_ports h)(p \<mapsto> q')) ?f + ?S + cx_rights c' + D + port_holds q =
      (over ?n ((ipc_ports h)(p \<mapsto> q')) ?f + port_holds q) + (?S + cx_rights c' + D)" by (simp add: ac_simps)
  also have "\<dots> = over ?n (ipc_ports h) ?f + ?S + (port_holds q' + cx_rights c' + D)" unfolding o by (simp add: ac_simps)
  also have "\<dots> = over ?n (ipc_ports h) ?f + ?S + cx_rights c + E + port_holds q" unfolding mv by (simp add: ac_simps)
  finally show ?thesis by (simp add: all_rights_def held_def F)
qed

lemma pages_set_port:
  assumes q: "ipc_ports h p = Some q" "p < next_port_id h" "p \<notin> F"
    and mv: "queue_pages (p_queue q') + P' = queue_pages (p_queue q) + P"
  shows "pages_queued F (set_port p q' h) + P' = pages_queued F h + P"
proof -
  let ?n = "next_port_id h" and ?f = "pages_unless F"
  have o: "over ?n ((ipc_ports h)(p \<mapsto> q')) ?f + queue_pages (p_queue q) = over ?n (ipc_ports h) ?f + queue_pages (p_queue q')"
    using over_upd [OF q(2), of "ipc_ports h" q' ?f] q(1,3) by (simp add: pages_unless_def)
  have "over ?n ((ipc_ports h)(p \<mapsto> q')) ?f + P' + queue_pages (p_queue q) =
      (over ?n ((ipc_ports h)(p \<mapsto> q')) ?f + queue_pages (p_queue q)) + P'" by (simp add: ac_simps)
  also have "\<dots> = over ?n (ipc_ports h) ?f + (queue_pages (p_queue q') + P')" unfolding o by (simp add: ac_simps)
  also have "\<dots> = over ?n (ipc_ports h) ?f + P + queue_pages (p_queue q)" unfolding mv by (simp add: ac_simps)
  finally show ?thesis by (simp add: pages_queued_def)
qed

lemma set_names_set_port [simp]: "set_names (set_port p q h) = set_names h"
  by (simp add: set_names_def)

lemma port_inv_cong:
  assumes "port_inv c A S p q" "\<And>k. count A' (p, k) = count A (p, k)" "p \<in> cx_zero c' \<longleftrightarrow> p \<in> cx_zero c"
    "count (cx_slots c') p = count (cx_slots c) p"
    "\<And>s t. p_set q = Some s \<Longrightarrow> S s = Some t \<Longrightarrow> \<exists>t'. S' s = Some t' \<and> (p \<in> set (pset_members t) \<longrightarrow> p \<in> set (pset_members t'))"
  shows "port_inv c' A' S' p q"
  using assms unfolding port_inv_def by (fastforce split: option.splits)

text \<open>
  Replacing a port by one that gives up the rights \<open>D\<close> to itself and gives out the rights \<open>E\<close>, with the holdings of
  the port and of the running code redistributed.
\<close>

lemma inv_set_port:
  assumes inv: "ipc_inv c h" and q: "ipc_ports h p = Some q" and F: "p \<notin> cx_freeing c" and like: "ctx_like c c'"
    and mv: "port_holds q' + cx_rights c' + D = port_holds q + cx_rights c + E" and D: "\<And>x. x \<in># D \<Longrightarrow> fst x = p"
    and E: "\<And>x. x \<in># E \<Longrightarrow> fst x = p"
    and pg: "queue_pages (p_queue q') + cx_pages c' = queue_pages (p_queue q) + cx_pages c"
    and zero: "\<And>r. r \<noteq> p \<Longrightarrow> r \<in> cx_zero c' \<longleftrightarrow> r \<in> cx_zero c"
    and slots: "\<And>r. r \<noteq> p \<Longrightarrow> count (cx_slots c') r = count (cx_slots c) r"
    and leaving: "cx_leaving c \<subseteq> cx_leaving c'"
    and member: "\<And>s. p_set q = Some s \<Longrightarrow> p_set q' = Some s \<or> (p, s) \<in> cx_leaving c'"
    and pinv: "port_inv c' (all_rights c h + E - D) (ipc_sets h) p q'"
  shows "ipc_inv c' (set_port p q' h)" "all_rights c' (set_port p q' h) + D = all_rights c h + E"
proof -
  have lt: "p < next_port_id h" using ipc_invD(1) [OF inv q] .
  have Fc: "cx_freeing c' = cx_freeing c" using like by (simp add: ctx_like_def)
  show all: "all_rights c' (set_port p q' h) + D = all_rights c h + E" by (rule all_rights_set_port [OF q lt F Fc mv])
  then have all': "all_rights c' (set_port p q' h) = all_rights c h + E - D" by (metis add_diff_cancel_right')
  have other: "count (all_rights c' (set_port p q' h)) (r, k) = count (all_rights c h) (r, k)" if "r \<noteq> p" for r k
  proof -
    have "(r, k) \<notin># D" "(r, k) \<notin># E" using D [of "(r, k)"] E [of "(r, k)"] that by auto
    then show ?thesis using arg_cong [OF all, of "\<lambda>M. count M (r, k)"] by (simp add: not_in_iff)
  qed
  have ports: "\<forall>r q2. ipc_ports (set_port p q' h) r = Some q2 \<longrightarrow> r < next_port_id (set_port p q' h) \<and>
      port_inv c' (all_rights c' (set_port p q' h)) (ipc_sets (set_port p q' h)) r q2"
  proof (intro allI impI)
    fix r q2 assume r: "ipc_ports (set_port p q' h) r = Some q2"
    show "r < next_port_id (set_port p q' h) \<and> port_inv c' (all_rights c' (set_port p q' h)) (ipc_sets (set_port p q' h)) r q2"
    proof (cases "r = p")
      case True
      then show ?thesis using r lt pinv all' by simp
    next
      case False
      then have r': "ipc_ports h r = Some q2" using r by simp
      show ?thesis
        using ipc_invD(1) [OF inv r'] port_inv_cong [OF ipc_invD(2) [OF inv r'] other [OF False] zero [OF False] slots [OF False]]
        by simp
    qed
  qed
  have rights: "\<forall>x \<in># all_rights c' (set_port p q' h). ipc_ports (set_port p q' h) (fst x) \<noteq> None"
  proof
    fix x assume "x \<in># all_rights c' (set_port p q' h)"
    then have "x \<in># all_rights c h \<or> x \<in># E" using all by (metis union_iff)
    then show "ipc_ports (set_port p q' h) (fst x) \<noteq> None" using ipc_invD(3) [OF inv, of x] E [of x] by auto
  qed
  have sets: "\<forall>s t. ipc_sets (set_port p q' h) s = Some t \<longrightarrow> s < next_port_id (set_port p q' h) \<and>
      pset_inv c' (set_names (set_port p q' h) + cx_sets c') (ipc_ports (set_port p q' h)) s t"
  proof (intro allI impI)
    fix s t assume "ipc_sets (set_port p q' h) s = Some t"
    then have st: "s < next_port_id h" "pset_inv c (set_names h + cx_sets c) (ipc_ports h) s t"
      using ipc_invD(4) [OF inv] by auto
    show "s < next_port_id (set_port p q' h) \<and>
      pset_inv c' (set_names (set_port p q' h) + cx_sets c') (ipc_ports (set_port p q' h)) s t"
    proof (intro conjI pset_inv_cong [OF st(2)])
      fix m q2 assume m: "ipc_ports h m = Some q2" "p_set q2 = Some s"
      show "(\<exists>q2. ipc_ports (set_port p q' h) m = Some q2 \<and> p_set q2 = Some s) \<or> (m, s) \<in> cx_leaving c'"
        using m q member by (cases "m = p") auto
    qed (use st(1) like leaving in \<open>auto simp: ctx_like_def\<close>)
  qed
  have fr: "pages_queued (cx_freeing c') (set_port p q' h) + cx_pages c' = pages_queued (cx_freeing c) h + cx_pages c"
    unfolding Fc by (rule pages_set_port [OF q lt F pg])
  have "frames_ok c' (pages_queued (cx_freeing c') (set_port p q' h) + cx_pages c') (ipc_ms (set_port p q' h))"
    using ipc_invD(7) [OF inv] like unfolding fr by (simp add: frames_ok_def ctx_like_def)
  moreover have "cx_freeing c' \<subseteq> cx_zero c'" using ipc_invD(9) [OF inv] F zero unfolding Fc by (metis subset_iff)
  ultimately show "ipc_inv c' (set_port p q' h)"
    unfolding ipc_inv_def using ports rights sets ipc_invD(5,6,8) [OF inv] like zero by (auto simp: ctx_like_def)
qed

section \<open>Other changes\<close>

lemma ipc_inv_same:
  assumes "ipc_ports h' = ipc_ports h" "ipc_sets h' = ipc_sets h" "ipc_spaces h' = ipc_spaces h"
    "next_port_id h' = next_port_id h" "next_space_id h' = next_space_id h" "ipc_ms h' = ipc_ms h"
  shows "ipc_inv c h' = ipc_inv c h" "all_rights c h' = all_rights c h"
  using assms by (simp_all add: ipc_inv_def all_rights_def held_def set_names_def pages_queued_def)

definition listed :: "ipc \<Rightarrow> nat \<Rightarrow> bool" where
  "listed h m \<longleftrightarrow> (\<exists>s t. ipc_sets h s = Some t \<and> m \<in> set (pset_members t))"

text \<open>What dropping rights never does: park a sender, reserve a slot, give a receive right back or arm a notification.\<close>

definition tamer :: "port \<Rightarrow> port \<Rightarrow> bool" where
  "tamer q q' \<longleftrightarrow> (p_send_waiters q' \<noteq> [] \<longrightarrow> p_send_waiters q \<noteq> []) \<and> p_qresv q' \<le> p_qresv q \<and>
     (p_has_receive q' \<longrightarrow> p_has_receive q) \<and> (p_notify_port_destroyed q = None \<longrightarrow> p_notify_port_destroyed q' = None)"

definition quiet :: "ipc \<Rightarrow> ipc \<Rightarrow> bool" where
  "quiet h h' \<longleftrightarrow> ipc_spaces h' = ipc_spaces h \<and> next_port_id h' = next_port_id h \<and> next_space_id h' = next_space_id h \<and>
     ipc_kmem h' = ipc_kmem h \<and> dom (ipc_sets h') = dom (ipc_sets h) \<and> (\<forall>m. listed h' m \<longrightarrow> listed h m) \<and>
     (\<forall>p q'. ipc_ports h' p = Some q' \<longrightarrow> (\<exists>q. ipc_ports h p = Some q \<and> tamer q q'))"

lemma tamer_refl [simp]: "tamer q q"
  by (simp add: tamer_def)

lemma tamer_trans: "tamer q q1 \<Longrightarrow> tamer q1 q2 \<Longrightarrow> tamer q q2"
  unfolding tamer_def by auto

lemma quiet_refl [simp, intro]: "quiet h h"
  by (simp add: quiet_def)

lemma quiet_trans [trans]:
  assumes "quiet h h1" "quiet h1 h2"
  shows "quiet h h2"
proof -
  have "\<forall>p q'. ipc_ports h2 p = Some q' \<longrightarrow> (\<exists>q. ipc_ports h p = Some q \<and> tamer q q')"
    using assms tamer_trans unfolding quiet_def by blast
  then show ?thesis using assms unfolding quiet_def by simp
qed

lemma quiet_tamer: "quiet h h' \<Longrightarrow> ipc_ports h p = Some q \<Longrightarrow> ipc_ports h' p = Some q' \<Longrightarrow> tamer q q'"
  unfolding quiet_def by (metis option.inject)

lemma quiet_pins:
  assumes "quiet h h'" "pins c h"
  shows "pins c h'"
  unfolding pins_def
proof (intro allI impI)
  fix p q' assume q': "ipc_ports h' p = Some q'" "p_send_waiters q' \<noteq> [] \<or> 0 < p_qresv q'"
  obtain q where "ipc_ports h p = Some q" "tamer q q'"
    using assms(1) q'(1) unfolding quiet_def by blast
  then show "pinned c p" using assms(2) q'(2) unfolding pins_def tamer_def by fastforce
qed

lemma quiet_set_port:
  assumes "ipc_ports h p = Some q" "tamer q q'"
  shows "quiet h (set_port p q' h)"
  using assms by (simp add: quiet_def listed_def)

lemma quiet_woken [simp]: "quiet h (wake_all ws h)" "quiet h (h\<lparr>ipc_allocs := n\<rparr>)" "quiet h (h\<lparr>ipc_ms := s\<rparr>)" "quiet h (wake_waiter w h)"
  by (simp_all add: quiet_def listed_def wake_all_def wake_waiter_def split: option.splits)

lemma listed_upd: "listed (set_pset s t' h) m \<longleftrightarrow> m \<in> set (pset_members t') \<or> (\<exists>u v. u \<noteq> s \<and> ipc_sets h u = Some v \<and> m \<in> set (pset_members v))"
  unfolding listed_def set_pset_simps fun_upd_def by (metis option.inject)

lemma listed_split: "ipc_sets h s = Some t \<Longrightarrow> listed h m \<longleftrightarrow> m \<in> set (pset_members t) \<or> (\<exists>u v. u \<noteq> s \<and> ipc_sets h u = Some v \<and> m \<in> set (pset_members v))"
  unfolding listed_def by (metis option.inject)

lemma quiet_set_pset:
  "ipc_sets h s = Some t \<Longrightarrow> set (pset_members t') \<subseteq> set (pset_members t) \<Longrightarrow> quiet h (set_pset s t' h)"
  by (auto simp: quiet_def listed_upd listed_split)

lemma wake_inv [simp]:
  "ipc_inv c (wake_all ws h) = ipc_inv c h" "all_rights c (wake_all ws h) = all_rights c h"
  "ipc_inv c (h\<lparr>ipc_allocs := n\<rparr>) = ipc_inv c h" "all_rights c (h\<lparr>ipc_allocs := n\<rparr>) = all_rights c h"
  "ipc_inv c (wake_waiter w h) = ipc_inv c h" "all_rights c (wake_waiter w h) = all_rights c h"
  by (simp_all add: wake_all_def wake_waiter_def ipc_inv_def all_rights_def held_def set_names_def pages_queued_def
      split: option.splits)

lemma wake_simps [simp]:
  "ipc_ports (wake_all ws h) = ipc_ports h" "ipc_sets (wake_all ws h) = ipc_sets h" "ipc_ms (wake_all ws h) = ipc_ms h"
  "next_port_id (wake_all ws h) = next_port_id h" "ipc_spaces (wake_all ws h) = ipc_spaces h"
  "ipc_ports (wake_waiter w h) = ipc_ports h" "ipc_sets (wake_waiter w h) = ipc_sets h"
  "ipc_ms (wake_waiter w h) = ipc_ms h"
  by (simp_all add: wake_all_def wake_waiter_def split: option.splits)

lemma inv_set_pset_gen:
  assumes inv: "ipc_inv c h" and t: "ipc_sets h s = Some t"
    and like: "ctx_like c c'" "cx_rights c' = cx_rights c" "cx_pages c' = cx_pages c" "cx_slots c' = cx_slots c" "cx_zero c' = cx_zero c"
    and mem: "\<And>m q. ipc_ports h m = Some q \<Longrightarrow> p_set q = Some s \<Longrightarrow> m \<in> set (pset_members t) \<Longrightarrow> m \<in> set (pset_members t')"
    and t': "pset_inv c' (set_names h + cx_sets c) (ipc_ports h) s t'"
    and other: "\<And>m s' t2. s' \<noteq> s \<Longrightarrow> (m, s') \<in> cx_leaving c \<Longrightarrow> (m, s') \<in> cx_leaving c'"
  shows "ipc_inv c' (set_pset s t' h)" "all_rights c' (set_pset s t' h) = all_rights c h"
proof -
  show all: "all_rights c' (set_pset s t' h) = all_rights c h"
    using like by (simp add: all_rights_def held_def ctx_like_def)
  have "port_inv c' (all_rights c h) ((ipc_sets h)(s \<mapsto> t')) p q" if p: "ipc_ports h p = Some q" for p q
  proof (rule port_inv_cong [OF ipc_invD(2) [OF inv p]])
    fix s' t2 assume "p_set q = Some s'" "ipc_sets h s' = Some t2"
    then show "\<exists>t3. ((ipc_sets h)(s \<mapsto> t')) s' = Some t3 \<and> (p \<in> set (pset_members t2) \<longrightarrow> p \<in> set (pset_members t3))"
      using mem [OF p] t by (cases "s' = s") auto
  qed (simp_all add: like)
  moreover have "pset_inv c' (set_names h + cx_sets c) (ipc_ports h) s' t2" if "ipc_sets h s' = Some t2" "s' \<noteq> s" for s' t2
  proof (rule pset_inv_cong)
    show "pset_inv c (set_names h + cx_sets c) (ipc_ports h) s' t2" using ipc_invD(4) [OF inv that(1)] by simp
  qed (use that other like in \<open>auto simp: ctx_like_def\<close>)
  moreover have "set_names (set_pset s t' h) = set_names h" "pages_queued F (set_pset s t' h) = pages_queued F h" for F
    by (simp_all add: set_names_def pages_queued_def)
  ultimately show "ipc_inv c' (set_pset s t' h)"
    using ipc_invD(1,3-9) [OF inv] t t' like unfolding ipc_inv_def all
    by (auto simp: ctx_like_def frames_ok_def)
qed

section \<open>Outcomes\<close>

definition give :: "holdings \<Rightarrow> u64 multiset \<Rightarrow> ipc_ctx \<Rightarrow> ipc_ctx" where
  "give R P c = c\<lparr>cx_rights := cx_rights c + R, cx_pages := cx_pages c + P\<rparr>"

lemma give_simps [simp]:
  "cx_rights (give R P c) = cx_rights c + R" "cx_pages (give R P c) = cx_pages c + P" "cx_slots (give R P c) = cx_slots c"
  "cx_sets (give R P c) = cx_sets c" "cx_zero (give R P c) = cx_zero c" "cx_zero_sets (give R P c) = cx_zero_sets c"
  "cx_freeing (give R P c) = cx_freeing c" "cx_dying (give R P c) = cx_dying c" "cx_leaving (give R P c) = cx_leaving c"
  "cx_spaces (give R P c) = cx_spaces c" "cx_frames (give R P c) = cx_frames c"
  by (simp_all add: give_def)

lemma give_give [simp]: "give R P (give R' P' c) = give (R' + R) (P' + P) c"
  by (simp add: give_def ac_simps)

lemma give_none [simp]: "give {#} {#} c = c"
  by (simp add: give_def)

lemma all_rights_give [simp]: "all_rights (give R P c) h = all_rights c h + R"
  by (simp add: all_rights_def ac_simps)

text \<open>The rights that outlast the call: those of the spaces, and those the callers keep.\<close>

definition stable :: "ipc_ctx \<Rightarrow> ipc \<Rightarrow> holdings" where
  "stable c h = over (next_space_id h) (ipc_spaces h) (\<lambda>_. space_holds) + cx_rights c"

text \<open>
  Every port on the member list of a set exists, and is held by one of the rights \<open>St\<close>, unless its
  receive right is the only right to it among \<open>A\<close>.
\<close>

definition calm :: "holdings \<Rightarrow> holdings \<Rightarrow> ipc \<Rightarrow> bool" where
  "calm St A h \<longleftrightarrow> (\<forall>m. listed h m \<longrightarrow> ipc_ports h m \<noteq> None \<and> ((\<exists>k. (m, k) \<in># St) \<or> (\<forall>k. k \<noteq> HRecv \<longrightarrow> (m, k) \<notin># A)))"

text \<open>
  The contract of code that drops the rights \<open>E\<close>: it returns and keeps the invariant, or it reads a freed port, which it
  does not when \<open>K\<close> held before; then the lists of sets are in order afterwards.
\<close>

definition outcome_if :: "bool \<Rightarrow> holdings \<Rightarrow> ipc_ctx \<Rightarrow> holdings \<Rightarrow> ipc \<Rightarrow> ipc kres \<Rightarrow> bool" where
  "outcome_if K St c E h r \<longleftrightarrow>
     (case r of
        Ret h' \<Rightarrow> ipc_inv c h' \<and> quiet h h' \<and> all_rights c h' \<subseteq># all_rights c h + E \<and> size (all_rights c h') \<le> size (all_rights c h) \<and>
          (K \<longrightarrow> calm St (all_rights c h') h')
      | Panic msg \<Rightarrow> msg = ''use of a freed port'' \<and> \<not> K)"

definition outcome :: "holdings \<Rightarrow> ipc_ctx \<Rightarrow> holdings \<Rightarrow> ipc \<Rightarrow> ipc kres \<Rightarrow> bool" where
  "outcome St c E h r \<longleftrightarrow>
     (case r of
        Ret h' \<Rightarrow> ipc_inv c h' \<and> quiet h h' \<and> all_rights c h' \<subseteq># all_rights c h + E \<and> size (all_rights c h') \<le> size (all_rights c h) \<and>
          (calm St (all_rights c h + E) h \<longrightarrow> calm St (all_rights c h') h')
      | Panic msg \<Rightarrow> msg = ''use of a freed port'' \<and> \<not> calm St (all_rights c h + E) h)"

lemma outcome_outcome_if: "outcome St c E h r = outcome_if (calm St (all_rights c h + E) h) St c E h r"
  by (simp add: outcome_def outcome_if_def)

definition retired :: "ipc_ctx \<Rightarrow> ipc \<Rightarrow> bool" where
  "retired c h \<longleftrightarrow> (\<forall>p s q. (p, s) \<in> cx_leaving c \<longrightarrow> ipc_ports h p = Some q \<longrightarrow> \<not> p_has_receive q)"

lemma quiet_retired: "quiet h h' \<Longrightarrow> retired c h \<Longrightarrow> retired c h'"
  unfolding quiet_def retired_def tamer_def by metis

lemma quiet_stable: "quiet h h' \<Longrightarrow> stable c h' = stable c h"
  by (simp add: quiet_def stable_def)

lemma pins_give [simp]: "pins c h \<Longrightarrow> pins (give R P c) h"
  by (auto simp: pins_def pinned_def)

lemma retired_give [simp]: "retired (give R P c) h = retired c h"
  by (simp add: retired_def)

lemma stable_give [simp]: "stable (give R P c) h = stable c h + R"
  by (simp add: stable_def ac_simps)

lemma St_give: "St \<subseteq># stable c h \<Longrightarrow> St \<subseteq># stable (give R P c) h"
  by (simp add: subset_mset.add_increasing2)

lemma stable_held: "stable c h \<subseteq># all_rights c h"
  by (simp add: stable_def all_rights_def held_def)

lemma calm_mono:
  assumes "calm St A h" "\<And>m. listed h' m \<Longrightarrow> listed h m" "\<And>m. listed h' m \<Longrightarrow> ipc_ports h m \<noteq> None \<Longrightarrow> ipc_ports h' m \<noteq> None"
    "A' \<subseteq># A"
  shows "calm St A' h'"
  using assms unfolding calm_def by (meson mset_subset_eqD)

lemma outcome_same:
  assumes "ipc_inv c h'" "quiet h h'" "all_rights c h' = all_rights c h" "\<And>m. listed h' m \<Longrightarrow> listed h m"
    "\<And>m. listed h' m \<Longrightarrow> ipc_ports h m \<noteq> None \<Longrightarrow> ipc_ports h' m \<noteq> None"
  shows "outcome St c E h (Ret h')"
  using assms unfolding outcome_def by (auto elim!: calm_mono)

lemma outcome_bind:
  assumes one: "outcome St (give E2 P2 c) E1 h r"
    and two: "\<And>h1. r = Ret h1 \<Longrightarrow> ipc_inv (give E2 P2 c) h1 \<Longrightarrow> quiet h h1 \<Longrightarrow> size (all_rights c h1) \<le> size (all_rights c h) \<Longrightarrow>
      outcome St c E2 h1 (f h1)"
  shows "outcome St c (E1 + E2) h (kbind r f)"
proof (cases r)
  case (Panic m)
  then show ?thesis using one by (simp add: outcome_def ac_simps)
next
  case (Ret h1)
  note o = one [unfolded Ret outcome_def, simplified]
  have 2: "outcome St c E2 h1 (f h1)" using o by (intro two [OF Ret]) auto
  show ?thesis
  proof (cases "f h1")
    case (Panic m)
    then show ?thesis using o 2 Ret by (auto simp: outcome_def ac_simps)
  next
    case h2: (Ret h2)
    note t = 2 [unfolded h2 outcome_def, simplified]
    have "all_rights c h1 + E2 \<subseteq># all_rights c h + (E1 + E2)" using o by (simp add: ac_simps)
    then have "all_rights c h2 \<subseteq># all_rights c h + (E1 + E2)" using t by (meson subset_mset.order_trans)
    moreover have "quiet h h2" using o t quiet_trans by blast
    moreover have "calm St (all_rights c h + (E1 + E2)) h \<longrightarrow> calm St (all_rights c h2) h2" using o t by (simp add: ac_simps)
    ultimately show ?thesis using o t h2 Ret by (simp add: outcome_def)
  qed
qed

lemma outcome_pre:
  assumes o: "outcome St c E1 h1 r" and "quiet h h1" and sub: "all_rights c h1 + E1 \<subseteq># all_rights c h + E"
    and sz: "size (all_rights c h1) \<le> size (all_rights c h)"
    and calm: "calm St (all_rights c h + E) h \<Longrightarrow> calm St (all_rights c h1 + E1) h1"
  shows "outcome St c E h r"
proof (cases r)
  case (Panic m)
  then show ?thesis using o calm by (auto simp: outcome_def)
next
  case (Ret h2)
  note t = o [unfolded Ret outcome_def, simplified]
  have "all_rights c h2 \<subseteq># all_rights c h + E" using t sub by (meson subset_mset.order_trans)
  moreover have "quiet h h2" using t assms(2) quiet_trans by blast
  ultimately show ?thesis using t sz calm Ret by (simp add: outcome_def)
qed

text \<open>What a function that drops a right does, on states with less than \<open>N\<close> to drop.\<close>

definition drops :: "dropper \<Rightarrow> nat \<Rightarrow> bool" where
  "drops d N \<longleftrightarrow> (\<forall>p r c h St. rights_ok r \<longrightarrow> ipc_inv (give (rights_held p r) {#} c) h \<longrightarrow> pins c h \<longrightarrow> retired c h \<longrightarrow>
     2 * size (all_rights c h + rights_held p r) + (if has r MACH_PORT_RIGHT_RECEIVE then 1 else 0) < N \<longrightarrow>
     St \<subseteq># stable c h \<longrightarrow> outcome St c (rights_held p r) h (d p r h))"

lemma dropsD:
  assumes "drops d N" "rights_ok r" "ipc_inv (give (rights_held p r) {#} c) h" "pins c h" "retired c h"
    "2 * size (all_rights c h + rights_held p r) + (if has r MACH_PORT_RIGHT_RECEIVE then 1 else 0) < N" "St \<subseteq># stable c h"
  shows "outcome St c (rights_held p r) h (d p r h)"
  using assms unfolding drops_def by blast

end
