(* ===== verification/Port_Drop.thy ===== *)
theory Port_Drop
  imports Port_Rights
begin

text \<open>
  Dropping rights. \<open>port_deref\<close>, \<open>port_free\<close> and the release of queued messages call each other; the contract of a
  function that drops a right (\<open>drops\<close>, on states with at most so many rights) is proved of each body from the same
  contract on smaller states, and \<open>port_deref_ok\<close> is its fixed point: with the depth the model allows, dropping
  a held right returns, keeps the invariant, and fails in one way only, which \<open>calm\<close> excludes.
\<close>

unbundle bit_operations_syntax

section \<open>Dropping the contents of messages\<close>

lemma page_count_simps [simp]:
  "page_count {#} f = 0" "page_count (P + Q) f = page_count P f + page_count Q f"
  "page_count (add_mset pa P) f = (if pa \<noteq> PA_INVALID \<and> page_index pa = f then 1 else 0) + page_count P f"
  by (simp_all add: page_count_def)

lemma release_pages_frames:
  assumes "frames_ok c (P + mset pas) s"
  shows "\<exists>s'. vm_pages_release pas s = Ret s' \<and> frames_ok c P s'"
  using assms
proof (induct pas arbitrary: s)
  case Nil
  then show ?case by simp
next
  case (Cons pa pas)
  show ?case
  proof (cases "pa = PA_INVALID")
    case True
    have "page_count (P + mset (pa # pas)) f = page_count (P + mset pas) f" for f using True by simp
    then have "frames_ok c (P + mset pas) s" using Cons(2) by (simp add: frames_ok_def)
    then show ?thesis using Cons(1) True by simp
  next
    case False
    let ?h = "\<lambda>f. cx_frames c f + page_count (P + mset (pa # pas)) f"
    have acc: "accounted ?h s (cx_spaces c)" and al: "page_aligned pa" using Cons(2) False by (auto simp: frames_ok_def)
    obtain s' where s': "free_frame pa s = Ret s'" "accounted (?h(page_index pa := ?h (page_index pa) - 1)) s' (cx_spaces c)"
    proof (rule acc_free [OF acc _ al])
      show "0 < ?h (page_index pa)" using False by simp
    qed (rule that)
    have "?h(page_index pa := ?h (page_index pa) - 1) = (\<lambda>f. cx_frames c f + page_count (P + mset pas) f)"
      using False by (auto simp: fun_eq_iff)
    then have "frames_ok c (P + mset pas) s'" using s'(2) Cons(2) by (simp add: frames_ok_def)
    then show ?thesis using Cons(1) s'(1) False by simp
  qed
qed

lemma inv_set_ms:
  assumes "ipc_inv (give {#} P c) h" "frames_ok c (pages_queued (cx_freeing c) h + cx_pages c) s"
  shows "ipc_inv c (h\<lparr>ipc_ms := s\<rparr>)" "all_rights c (h\<lparr>ipc_ms := s\<rparr>) = all_rights c h"
proof -
  show all: "all_rights c (h\<lparr>ipc_ms := s\<rparr>) = all_rights c h" by (simp add: all_rights_def held_def)
  have eq: "port_inv (give {#} P c) = port_inv c" "pset_inv (give {#} P c) = pset_inv c" "set_names (h\<lparr>ipc_ms := s\<rparr>) = set_names h"
    "pages_queued F (h\<lparr>ipc_ms := s\<rparr>) = pages_queued F h" for F
    by (simp_all add: fun_eq_iff port_inv_def pset_inv_def set_names_def pages_queued_def)
  show "ipc_inv c (h\<lparr>ipc_ms := s\<rparr>)"
    using assms unfolding ipc_inv_def all eq all_rights_give by simp
qed

lemma pd_ool_drop_ok:
  assumes inv: "ipc_inv (give {#} (desc_pages pd) c) h" and ty: "pd_type pd = MACH_MSG_OOL_DESCRIPTOR"
  shows "outcome St c {#} h (pd_ool_drop pd h)"
proof (cases "pd_ool_pages pd")
  case None
  then have "desc_pages pd = {#}" by (simp add: desc_pages_def)
  then have "ipc_inv c h" using inv by simp
  then show ?thesis using None by (simp add: pd_ool_drop_def outcome_same)
next
  case (Some pas)
  then have dp: "desc_pages pd = mset pas" using ty by (simp add: desc_pages_def)
  have "frames_ok (give {#} (mset pas) c) ((pages_queued (cx_freeing c) h + cx_pages c) + mset pas) (ipc_ms h)"
    using ipc_invD(7) [OF inv] by (simp add: dp ac_simps)
  then obtain s where s: "vm_pages_release pas (ipc_ms h) = Ret s"
    "frames_ok (give {#} (mset pas) c) (pages_queued (cx_freeing c) h + cx_pages c) s"
    using release_pages_frames by blast
  have "frames_ok c (pages_queued (cx_freeing c) h + cx_pages c) s" using s(2) by (simp add: frames_ok_def)
  note i = inv_set_ms [OF inv [unfolded dp] this]
  show ?thesis using Some s(1) i by (auto simp: pd_ool_drop_def listed_def intro!: outcome_same)
qed

lemma right_ok_rights: "right_ok r \<Longrightarrow> rights_ok r"
  by (auto simp: right_ok_def rights_ok_def MACH_PORT_RIGHT_RECEIVE_def MACH_PORT_RIGHT_SEND_def MACH_PORT_RIGHT_SEND_ONCE_def)

lemma right_ok_SEND [simp]: "rights_ok MACH_PORT_RIGHT_SEND" "\<not> has MACH_PORT_RIGHT_SEND MACH_PORT_RIGHT_RECEIVE"
  "rights_held p MACH_PORT_RIGHT_SEND = {#(p, HSend)#}"
  by (simp_all add: rights_ok_def rights_held_def has_def MACH_PORT_RIGHT_RECEIVE_def MACH_PORT_RIGHT_SEND_def MACH_PORT_RIGHT_SEND_ONCE_def)

lemma OOL_not_PORT [simp]: "MACH_MSG_OOL_DESCRIPTOR \<noteq> MACH_MSG_PORT_DESCRIPTOR" "MACH_MSG_PORT_DESCRIPTOR \<noteq> MACH_MSG_OOL_DESCRIPTOR"
  by (simp_all add: MACH_MSG_OOL_DESCRIPTOR_def MACH_MSG_PORT_DESCRIPTOR_def)

lemma quiet_le:
  "quiet h h1 \<Longrightarrow> St \<subseteq># stable c h \<Longrightarrow> St \<subseteq># stable c h1"
  by (simp add: quiet_stable)

lemma drop_desc_ok:
  assumes d: "drops d N" and inv: "ipc_inv (give (desc_rights pd) (desc_pages pd) c) h" and "pins c h" "retired c h" "desc_ok pd"
    "2 * size (all_rights c h + desc_rights pd) + 1 < N" "St \<subseteq># stable c h"
  shows "outcome St c (desc_rights pd) h
    (if pd_type pd = MACH_MSG_PORT_DESCRIPTOR \<and> pd_port pd \<noteq> None then d (the (pd_port pd)) (pd_disposition pd) h
     else if pd_type pd = MACH_MSG_OOL_DESCRIPTOR then pd_ool_drop pd h else Ret h)"
proof (cases "pd_type pd = MACH_MSG_PORT_DESCRIPTOR \<and> pd_port pd \<noteq> None")
  case True
  then obtain p where p: "pd_port pd = Some p" by blast
  have r: "desc_rights pd = rights_held p (pd_disposition pd)" "desc_pages pd = {#}" "rights_ok (pd_disposition pd)"
    using True p assms(5) by (simp_all add: desc_rights_def desc_pages_def desc_ok_def right_ok_rights)
  show ?thesis using True p dropsD [OF d r(3) _ assms(3,4) _ assms(7), of p] inv assms(6) r by (simp split: if_splits)
next
  case False
  then have r: "desc_rights pd = {#}" by (auto simp: desc_rights_def)
  show ?thesis
  proof (cases "pd_type pd = MACH_MSG_OOL_DESCRIPTOR")
    case True
    then show ?thesis using pd_ool_drop_ok [of pd c h] inv r by simp
  next
    case ne: False
    then have "ipc_inv c h" using inv r by (simp add: desc_pages_def)
    then show ?thesis unfolding if_not_P [OF False] if_not_P [OF ne] r by (simp add: outcome_same)
  qed
qed

lemma descs_simps [simp]:
  "descs_rights [] = {#}" "descs_rights (pd # pds) = desc_rights pd + descs_rights pds"
  "descs_pages [] = {#}" "descs_pages (pd # pds) = desc_pages pd + descs_pages pds"
  by (simp_all add: descs_rights_def descs_pages_def)

lemma free_pending_descs_ok:
  assumes d: "drops d N" and "ipc_inv (give (descs_rights pds) (descs_pages pds) c) h" "pins c h" "retired c h" "\<forall>pd \<in> set pds. desc_ok pd"
    "2 * size (all_rights c h + descs_rights pds) + 1 < N" "St \<subseteq># stable c h"
  shows "outcome St c (descs_rights pds) h (free_pending_descs d pds h)"
  using assms(2-)
proof (induct pds arbitrary: h)
  case Nil
  then show ?case by (simp add: outcome_same)
next
  case (Cons pd pds)
  let ?c = "give (descs_rights pds) (descs_pages pds) c"
  have "St \<subseteq># stable ?c h" using Cons(7) by (simp add: subset_mset.add_increasing2)
  then have 1: "outcome St ?c (desc_rights pd) h
    (if pd_type pd = MACH_MSG_PORT_DESCRIPTOR \<and> pd_port pd \<noteq> None then d (the (pd_port pd)) (pd_disposition pd) h
     else if pd_type pd = MACH_MSG_OOL_DESCRIPTOR then pd_ool_drop pd h else Ret h)"
    using Cons(2-6) by (intro drop_desc_ok [OF d]) (simp_all add: ac_simps)
  show ?case unfolding descs_simps free_pending_descs.simps
  proof (rule outcome_bind [OF 1])
    fix h1 assume h1: "ipc_inv ?c h1" "quiet h h1" "size (all_rights c h1) \<le> size (all_rights c h)"
    show "outcome St c (descs_rights pds) h1 (free_pending_descs d pds h1)"
      using Cons(5-7) h1 quiet_pins [OF h1(2) Cons(3)] quiet_retired [OF h1(2) Cons(4)]
      by (intro Cons(1)) (auto simp: quiet_le)
  qed
qed

lemma queue_simps [simp]:
  "queue_rights [] = {#}" "queue_rights (m # ms) = descs_rights (m_descs m) + queue_rights ms"
  "queue_rights (ms @ ms') = queue_rights ms + queue_rights ms'"
  "queue_pages [] = {#}" "queue_pages (m # ms) = descs_pages (m_descs m) + queue_pages ms"
  "queue_pages (ms @ ms') = queue_pages ms + queue_pages ms'"
  by (simp_all add: queue_rights_def queue_pages_def)

definition msgs_ok :: "port_msg list \<Rightarrow> bool" where
  "msgs_ok ms \<longleftrightarrow> (\<forall>m \<in> set ms. \<forall>pd \<in> set (m_descs m). desc_ok pd)"

lemma drain_msgs_ok:
  assumes d: "drops d N" and "ipc_inv (give (queue_rights ms) (queue_pages ms) c) h" "pins c h" "retired c h" "msgs_ok ms"
    "2 * size (all_rights c h + queue_rights ms) + 1 < N" "St \<subseteq># stable c h"
  shows "outcome St c (queue_rights ms) h (drain_msgs d ms h)"
  using assms(2-)
proof (induct ms arbitrary: h)
  case Nil
  then show ?case by (simp add: outcome_same)
next
  case (Cons m ms)
  let ?c = "give (queue_rights ms) (queue_pages ms) c"
  have "St \<subseteq># stable ?c h" using Cons(7) by (simp add: subset_mset.add_increasing2)
  then have 1: "outcome St ?c (descs_rights (m_descs m)) h (free_pending_descs d (m_descs m) h)"
    using Cons(2-6) by (intro free_pending_descs_ok [OF d]) (simp_all add: ac_simps msgs_ok_def)
  show ?case unfolding queue_simps drain_msgs.simps
  proof (rule outcome_bind [OF 1])
    fix h1 assume h1: "ipc_inv ?c h1" "quiet h h1" "size (all_rights c h1) \<le> size (all_rights c h)"
    show "outcome St c (queue_rights ms) h1 (drain_msgs d ms h1)"
      using Cons(5-7) h1 quiet_pins [OF h1(2) Cons(3)] quiet_retired [OF h1(2) Cons(4)]
      by (intro Cons(1)) (auto simp: quiet_le msgs_ok_def)
  qed
qed

section \<open>Steps that keep every right\<close>

lemma held_alive:
  assumes "ipc_inv c h" "(p, k) \<in># all_rights c h"
  obtains q where "ipc_ports h p = Some q" "p \<notin> cx_zero c" "p \<notin> cx_freeing c" "0 < p_refs q"
proof -
  obtain q where q: "ipc_ports h p = Some q" using ipc_invD(3) [OF assms] by auto
  have "0 < count (all_rights c h) (p, k)" using assms(2) by simp
  then have "0 < p_refs q" using ipc_invD(2) [OF assms(1) q] by (cases k) (auto simp: port_inv_def)
  moreover have "p \<notin> cx_zero c" using ipc_invD(2) [OF assms(1) q] calculation by (auto simp: port_inv_def)
  ultimately show ?thesis using that q ipc_invD(9) [OF assms(1)] by blast
qed

definition mild :: "ipc_ctx \<Rightarrow> ipc \<Rightarrow> ipc_ctx \<Rightarrow> ipc \<Rightarrow> bool" where
  "mild c h c' h' \<longleftrightarrow> ipc_inv c' h' \<and> all_rights c' h' = all_rights c h \<and> quiet h h' \<and>
     dom (ipc_ports h') = dom (ipc_ports h) \<and> ipc_ms h' = ipc_ms h"

lemma mild_refl: "ipc_inv c h \<Longrightarrow> mild c h c h"
  by (simp add: mild_def)

lemma mild_trans: "mild c h c1 h1 \<Longrightarrow> mild c1 h1 c2 h2 \<Longrightarrow> mild c h c2 h2"
  unfolding mild_def using quiet_trans by auto

lemma mild_wake: "ipc_inv c h \<Longrightarrow> mild c h c (wake_all ws h)" "ipc_inv c h \<Longrightarrow> mild c h c (wake_waiter w h)"
  "ipc_inv c h \<Longrightarrow> mild c h c (h\<lparr>ipc_allocs := n\<rparr>)"
  by (simp_all add: mild_def)

lemma mild_calm: "mild c h c' h' \<Longrightarrow> calm St A h \<Longrightarrow> calm St A h'"
  unfolding mild_def quiet_def calm_def by (metis domIff)

lemma mild_set_port:
  assumes inv: "ipc_inv c h" and q: "ipc_ports h p = Some q" and F: "p \<notin> cx_freeing c" and like: "ctx_like c c'"
    and mv: "port_holds q' + cx_rights c' = port_holds q + cx_rights c"
    and pg: "queue_pages (p_queue q') + cx_pages c' = queue_pages (p_queue q) + cx_pages c"
    and zero: "cx_zero c' = cx_zero c"
    and slots: "\<And>r. r \<noteq> p \<Longrightarrow> count (cx_slots c') r = count (cx_slots c) r"
    and leaving: "cx_leaving c \<subseteq> cx_leaving c'"
    and member: "\<And>s. p_set q = Some s \<Longrightarrow> p_set q' = Some s \<or> (p, s) \<in> cx_leaving c'"
    and pinv: "port_inv c' (all_rights c h) (ipc_sets h) p q'"
    and quiet: "tamer q q'"
  shows "mild c h c' (set_port p q' h)"
proof -
  have "ipc_inv c' (set_port p q' h)" "all_rights c' (set_port p q' h) + {#} = all_rights c h + {#}"
    by (rule inv_set_port [OF inv q F like, where D = "{#}" and E = "{#}"]; (simp add: mv pg zero slots leaving member pinv)?)+
  then show ?thesis using quiet_set_port [OF q quiet] q by (simp add: mild_def insert_absorb domI)
qed

lemma mild_pset_waiters:
  assumes inv: "ipc_inv c h" and t: "ipc_sets h s = Some t"
  shows "mild c h c (set_pset s (t\<lparr>pset_waiters := ws\<rparr>) h)"
proof -
  have pi: "pset_inv c (set_names h + cx_sets c) (ipc_ports h) s (t\<lparr>pset_waiters := ws\<rparr>)"
    using ipc_invD(4) [OF inv t] by (auto simp: pset_inv_def)
  have "ipc_inv c (set_pset s (t\<lparr>pset_waiters := ws\<rparr>) h)" "all_rights c (set_pset s (t\<lparr>pset_waiters := ws\<rparr>) h) = all_rights c h"
    by (rule inv_set_pset_gen [OF inv t _ _ _ _ _ _ pi]; simp add: ctx_like_def)+
  then show ?thesis using quiet_set_pset [OF t] by (simp add: mild_def)
qed

lemma take_port_waiter_ok:
  assumes inv: "ipc_inv c h" and q: "ipc_ports h p = Some q" "p \<notin> cx_freeing c"
  shows "\<exists>w h'. take_port_waiter p h = Ret (w, h') \<and> mild c h c h'"
proof (cases "p_waiters q")
  case Nil
  then show ?thesis using q mild_refl [OF inv] by (auto simp: take_port_waiter_def with_port_def)
next
  case (Cons w ws)
  have "port_inv c (all_rights c h) (ipc_sets h) p (q\<lparr>p_waiters := ws\<rparr>)"
    using ipc_invD(2) [OF inv q(1)] Cons by (auto simp: port_inv_def)
  then have "mild c h c (set_port p (q\<lparr>p_waiters := ws\<rparr>) h)"
    by (intro mild_set_port [OF inv q]) (simp_all add: ctx_like_def port_holds_def tamer_def)
  then show ?thesis using q Cons by (auto simp: take_port_waiter_def with_port_def)
qed

definition use_slot :: "bool \<Rightarrow> nat \<Rightarrow> ipc_ctx \<Rightarrow> ipc_ctx" where
  "use_slot reserved p c = (if reserved then c\<lparr>cx_slots := cx_slots c - {#p#}\<rparr> else c)"

lemma use_slot_simps [simp]:
  "cx_rights (use_slot b p c) = cx_rights c" "cx_pages (use_slot b p c) = cx_pages c"
  "cx_sets (use_slot b p c) = cx_sets c" "cx_zero (use_slot b p c) = cx_zero c" "cx_zero_sets (use_slot b p c) = cx_zero_sets c"
  "cx_freeing (use_slot b p c) = cx_freeing c" "cx_dying (use_slot b p c) = cx_dying c" "cx_leaving (use_slot b p c) = cx_leaving c"
  "cx_spaces (use_slot b p c) = cx_spaces c" "cx_frames (use_slot b p c) = cx_frames c" "use_slot False p c = c"
  "cx_slots (use_slot b p c) = (if b then cx_slots c - {#p#} else cx_slots c)"
  "use_slot b p (give R P c) = give R P (use_slot b p c)"
  by (simp_all add: use_slot_def give_def)

lemma take_waiter_ok:
  assumes inv: "ipc_inv c h" and q: "ipc_ports h p = Some q" "p \<notin> cx_freeing c"
  shows "\<exists>w h'. take_waiter p h = Ret (w, h') \<and> mild c h c h'"
proof -
  obtain w h' where own: "take_port_waiter p h = Ret (w, h')" "mild c h c h'" using take_port_waiter_ok [OF inv q] by blast
  show ?thesis
  proof (cases "p_set q")
    case None
    then show ?thesis using own q by (simp add: take_waiter_def with_port_def)
  next
    case (Some s)
    then obtain t where t: "ipc_sets h s = Some t" using ipc_invD(2) [OF inv q(1)] by (auto simp: port_inv_def)
    show ?thesis
    proof (cases "pset_waiters t")
      case Nil
      then show ?thesis using Some own t q by (simp add: take_waiter_def with_port_def with_set_def)
    next
      case (Cons w ws)
      then show ?thesis using Some t mild_pset_waiters [OF inv t, of ws] q by (simp add: take_waiter_def with_port_def with_set_def)
    qed
  qed
qed

lemma port_inv_slot:
  assumes "port_inv c A S p q" "reserved \<longrightarrow> p \<in># cx_slots c"
  shows "port_inv (use_slot reserved p c) A S p (if reserved then q\<lparr>p_qresv := p_qresv q - 1\<rparr> else q)"
  using assms by (auto simp: port_inv_def)

lemma port_inv_ctx:
  assumes "port_inv c A S p q" "cx_slots c' = cx_slots c" "cx_zero c' = cx_zero c"
  shows "port_inv c' A S p q"
  using assms by (auto simp: port_inv_def)

lemma msg_enqueue_ok:
  assumes inv: "ipc_inv (give (descs_rights (m_descs m)) (descs_pages (m_descs m)) c) h" (is "ipc_inv ?c h")
    and q: "ipc_ports h n = Some q" and F: "n \<notin> cx_freeing c" and ok: "\<forall>pd \<in> set (m_descs m). desc_ok pd"
    and slot: "reserved \<longrightarrow> n \<in># cx_slots c"
  shows "\<exists>rv w h'. msg_enqueue n m reserved h = Ret (rv, w, h') \<and> rv \<in> {MACH_MSG_OK, MACH_E_DEAD, MACH_E_NOSPACE} \<and>
     mild ?c h (use_slot reserved n (if rv = MACH_MSG_OK then c else ?c)) h'"
proof -
  let ?q1 = "if reserved then q\<lparr>p_qresv := p_qresv q - 1\<rparr> else q"
  have pi: "port_inv ?c (all_rights ?c h) (ipc_sets h) n q" by (rule ipc_invD(2) [OF inv q])
  have pi1: "port_inv (use_slot reserved n ?c) (all_rights ?c h) (ipc_sets h) n ?q1"
    using slot by (intro port_inv_slot [OF pi]) simp
  have F': "n \<notin> cx_freeing ?c" using F by simp
  have res: "reserved \<Longrightarrow> 0 < p_qresv q" using pi slot by (simp add: port_inv_def)
  have like: "ctx_like ?c (use_slot reserved n ?c)" "ctx_like ?c (use_slot reserved n c)" by (simp_all add: ctx_like_def)
  have sw: "tamer q ?q1" by (simp add: tamer_def)
  have fail: "mild ?c h (use_slot reserved n ?c) (set_port n ?q1 h)"
    by (rule mild_set_port [OF inv q F' like(1) _ _ _ _ _ _ pi1 sw]) (simp_all add: port_holds_def)
  let ?q2 = "?q1\<lparr>p_queue := p_queue ?q1 @ [m], p_qlen := p_qlen ?q1 + 1\<rparr>"
  have pi2: "port_inv (use_slot reserved n c) (all_rights ?c h) (ipc_sets h) n ?q2"
    using port_inv_ctx [OF pi1, of "use_slot reserved n c"] ok by (auto simp: port_inv_def)
  have m2: "mild ?c h (use_slot reserved n c) (set_port n ?q2 h)"
    by (rule mild_set_port [OF inv q F' like(2) _ _ _ _ _ _ pi2]) (simp_all add: port_holds_def ac_simps tamer_def)
  then have inv2: "ipc_inv (use_slot reserved n c) (set_port n ?q2 h)" by (simp add: mild_def)
  obtain w h' where fin: "take_waiter n (set_port n ?q2 h) = Ret (w, h')"
     "mild (use_slot reserved n c) (set_port n ?q2 h) (use_slot reserved n c) h'"
    using take_waiter_ok [OF inv2, of n ?q2] F by auto
  have good: "mild ?c h (use_slot reserved n c) h'" by (rule mild_trans [OF m2 fin(2)])
  have slot1: "(if reserved then KASSERT (0 < p_qresv q) ''msg_enqueue: no slot was reserved'' (Ret (q\<lparr>p_qresv := p_qresv q - 1\<rparr>))
      else Ret q) = Ret ?q1" using res by (simp add: KASSERT_def)
  have unf: "msg_enqueue n m reserved h =
     (if p_dead ?q1 then Ret (MACH_E_DEAD, None, set_port n ?q1 h)
      else if \<not> reserved \<and> p_qlen ?q1 + p_qresv ?q1 \<ge> KERNEL_QMAX then Ret (MACH_E_NOSPACE, None, set_port n ?q1 h)
      else Ret (MACH_MSG_OK, w, h'))"
    unfolding msg_enqueue_def with_port_def q option.case slot1 kbind.simps fin(1) split by (rule refl)
  show ?thesis unfolding unf using fail good by auto
qed

lemma ipc_alloc_ok:
  assumes "ipc_inv c h"
  obtains ok h' where "ipc_alloc h = (ok, h')" "mild c h c h'" "ipc_ports h' = ipc_ports h"
  using that mild_wake(3) [OF assms, of "ipc_allocs h + 1"] by (auto simp: ipc_alloc_def)

lemma port_notify_enqueue_ok:
  assumes inv: "ipc_inv c h" and q: "ipc_ports h n = Some q" and F: "n \<notin> cx_freeing c"
  shows "\<exists>rv h'. port_notify_enqueue n notify_id user_tag h = Ret (rv, h') \<and> mild c h c h'"
proof -
  obtain ok h1 where h1: "ipc_alloc h = (ok, h1)" "mild c h c h1" "ipc_ports h1 = ipc_ports h" using ipc_alloc_ok [OF inv] .
  let ?m = "notify_msg notify_id user_tag"
  have m: "m_descs ?m = []" by (simp add: notify_msg_def)
  have "ipc_inv (give (descs_rights (m_descs ?m)) (descs_pages (m_descs ?m)) c) h1" using h1(2) by (simp add: mild_def m)
  then obtain rv w h2 where h2: "msg_enqueue n ?m False h1 = Ret (rv, w, h2)" "mild c h1 c h2"
    using msg_enqueue_ok [of ?m c h1 n q False] q h1(3) F by (auto simp: m)
  have 3: "mild c h c h2" by (rule mild_trans [OF h1(2) h2(2)])
  then have "mild c h c (wake_waiter w h2)" using mild_trans [OF 3 mild_wake(2)] by (simp add: mild_def)
  then show ?thesis using h1(1) h2(1) 3 mild_trans h1(2) by (simp add: port_notify_enqueue_def)
qed

lemma rights_held_RECV [simp]: "rights_held p MACH_PORT_RIGHT_RECEIVE = {#(p, HRecv)#}" "right_ok MACH_PORT_RIGHT_RECEIVE"
  by (simp_all add: right_ok_def rights_held_def has_def MACH_PORT_RIGHT_RECEIVE_def MACH_PORT_RIGHT_SEND_def MACH_PORT_RIGHT_SEND_ONCE_def)

lemma port_destroyed_post_ok:
  assumes inv: "ipc_inv (give {#(p, HRecv)#} {#} c) h" and q: "ipc_ports h n = Some q" and F: "n \<notin> cx_freeing c"
  shows "\<exists>rv h'. port_destroyed_post n p user_tag h = Ret (rv, h') \<and>
    mild (give {#(p, HRecv)#} {#} c) h (if rv = MACH_MSG_OK then c else give {#(p, HRecv)#} {#} c) h'"
proof -
  let ?c = "give {#(p, HRecv)#} {#} c"
  obtain ok h1 where h1: "ipc_alloc h = (ok, h1)" "mild ?c h ?c h1" "ipc_ports h1 = ipc_ports h" using ipc_alloc_ok [OF inv] .
  then have "ipc_inv ?c h1" by (simp add: mild_def)
  then obtain ok2 h2 where h2: "ipc_alloc h1 = (ok2, h2)" "mild ?c h1 ?c h2" "ipc_ports h2 = ipc_ports h1" by (rule ipc_alloc_ok)
  let ?m = "port_destroyed_msg p user_tag"
  have m: "m_descs ?m = [receive_desc p]" by (simp add: port_destroyed_msg_def)
  have r: "desc_rights (receive_desc p) = {#(p, HRecv)#}" "desc_pages (receive_desc p) = {#}" "desc_ok (receive_desc p)"
    by (simp_all add: desc_rights_def desc_pages_def desc_ok_def receive_desc_def)
  have "ipc_inv (give (descs_rights (m_descs ?m)) (descs_pages (m_descs ?m)) c) h2" using h2(2) by (simp add: mild_def m r)
  then obtain rv w h3 where h3: "msg_enqueue n ?m False h2 = Ret (rv, w, h3)" "mild ?c h2 (if rv = MACH_MSG_OK then c else ?c) h3"
    using msg_enqueue_ok [of ?m c h2 n q False] q h1(3) h2(3) F by (auto simp: m r)
  have 3: "mild ?c h (if rv = MACH_MSG_OK then c else ?c) h3" by (rule mild_trans [OF h1(2) mild_trans [OF h2(2) h3(2)]])
  moreover have "mild ?c h (if rv = MACH_MSG_OK then c else ?c) (wake_waiter w h3)"
    using mild_trans [OF 3 mild_wake(2)] 3 by (simp add: mild_def)
  ultimately show ?thesis using h1(1) h2(1) h3(1) h1(2) mild_trans [OF h1(2) h2(2)]
    by (simp add: port_destroyed_post_def split: if_splits)
qed

section \<open>Watches, sets and freeing\<close>

lemma outcome_mild:
  assumes m: "mild (give E P c) h (give E P c) h1" and o: "outcome St c E h1 r"
  shows "outcome St c E h r"
proof (rule outcome_pre [OF o])
  show "quiet h h1" using m by (simp add: mild_def)
  have eq: "all_rights c h1 = all_rights c h" using m by (simp add: mild_def)
  show "all_rights c h1 + E \<subseteq># all_rights c h + E" "size (all_rights c h1) \<le> size (all_rights c h)" using eq by simp_all
  show "calm St (all_rights c h + E) h \<Longrightarrow> calm St (all_rights c h1 + E) h1" using eq mild_calm [OF m] by simp
qed

lemma mildD:
  assumes "mild c h c' h'"
  shows "ipc_inv c' h'" "all_rights c' h' = all_rights c h" "quiet h h'" "dom (ipc_ports h') = dom (ipc_ports h)"
  using assms by (simp_all add: mild_def)

lemma watch_simps [simp]: "watch_rights [] = {#}" "watch_rights (n # ns) = {#(nn_port n, HSend)#} + watch_rights ns"
  by (simp_all add: watch_rights_def)

lemma fire_dead_names_ok:
  assumes d: "drops d N" and "ipc_inv (give (watch_rights ns) {#} c) h" "pins c h" "retired c h"
    "2 * size (all_rights c h + watch_rights ns) < N" "St \<subseteq># stable c h"
  shows "outcome St c (watch_rights ns) h (fire_dead_names d ns h)"
  using assms(2-)
proof (induct ns arbitrary: h)
  case Nil
  then show ?case by (simp add: outcome_same)
next
  case (Cons n ns)
  let ?c = "give (watch_rights ns) {#} c" and ?cn = "give (watch_rights (n # ns)) {#} c"
  have "(nn_port n, HSend) \<in># all_rights ?cn h" by simp
  then obtain q where q: "ipc_ports h (nn_port n) = Some q" "nn_port n \<notin> cx_freeing ?cn" using held_alive [OF Cons(2)] by metis
  obtain rv h1 where h1: "port_notify_enqueue (nn_port n) MACH_NOTIFY_DEAD_NAME (nn_tag n) h = Ret (rv, h1)" "mild ?cn h ?cn h1"
    using port_notify_enqueue_ok [OF Cons(2) q] by blast
  note m = mildD [OF h1(2)]
  have pins1: "pins c h1" "retired c h1" "St \<subseteq># stable c h1"
    using quiet_pins [OF m(3) Cons(3)] quiet_retired [OF m(3) Cons(4)] quiet_le [OF m(3) Cons(6)] by auto
  have "St \<subseteq># stable ?c h1" using pins1 by (simp add: subset_mset.add_increasing2)
  then have 1: "outcome St ?c {#(nn_port n, HSend)#} h1 (d (nn_port n) MACH_PORT_RIGHT_SEND h1)"
    using dropsD [OF d right_ok_SEND(1), of "nn_port n" ?c h1 St] m(1,2) pins1 Cons(5) by (simp add: ac_simps)
  have 2: "outcome St c ({#(nn_port n, HSend)#} + watch_rights ns) h1
      (kbind (d (nn_port n) MACH_PORT_RIGHT_SEND h1) (fire_dead_names d ns))"
  proof (rule outcome_bind [OF 1])
    fix h2 assume h2: "ipc_inv ?c h2" "quiet h1 h2" "size (all_rights c h2) \<le> size (all_rights c h1)"
    have "size (all_rights c h1) = size (all_rights c h)" using m(2) by simp
    then show "outcome St c (watch_rights ns) h2 (fire_dead_names d ns h2)"
      using h2 Cons(5) quiet_pins [OF h2(2) pins1(1)] quiet_retired [OF h2(2) pins1(2)] quiet_le [OF h2(2) pins1(3)]
      by (intro Cons(1)) auto
  qed
  show ?case using outcome_mild [OF h1(2)] 2 by (simp add: h1(1))
qed

lemma unlink_member_cases:
  "unlink_member p ms h = Ret (remove1 p ms) \<or>
   unlink_member p ms h = Panic ''use of a freed port'' \<and> (\<exists>m \<in> set ms. ipc_ports h m = None)"
  by (induct ms) (auto simp: with_port_def split: option.splits)

lemma port_leave_set_ok:
  assumes inv: "ipc_inv (c\<lparr>cx_leaving := insert (p, s) (cx_leaving c)\<rparr>) h" and t: "ipc_sets h s = Some t"
    and left: "\<And>q. ipc_ports h p = Some q \<Longrightarrow> p_set q \<noteq> Some s"
  obtains h' where "port_leave_set p s h = Ret h'" "ipc_inv c h'" "all_rights c h' = all_rights c h" "quiet h h'"
      "ipc_ports h' = ipc_ports h" "ipc_ms h' = ipc_ms h" "\<And>u v. ipc_sets h' u = Some v \<Longrightarrow> p \<in> set (pset_members v) \<Longrightarrow>
        u \<noteq> s \<and> ipc_sets h u = Some v"
    | "port_leave_set p s h = Panic ''use of a freed port''" "ipc_ports h p = None \<or> (\<exists>m. listed h m \<and> ipc_ports h m = None)"
proof -
  let ?c = "c\<lparr>cx_leaving := insert (p, s) (cx_leaving c)\<rparr>"
  let ?t = "if p \<in> set (pset_members t)
    then t\<lparr>pset_members := remove1 p (pset_members t), pset_member_count := pset_member_count t - 1\<rparr> else t"
  have pi: "pset_inv ?c (set_names h + cx_sets ?c) (ipc_ports h) s t" using ipc_invD(4) [OF inv t] by simp
  then have dist: "distinct (pset_members t)" by (simp add: pset_inv_def)
  have mem: "set (pset_members ?t) = set (pset_members t) - {p}" using dist by (auto simp: set_remove1_eq)
  have "\<forall>m \<in> set (pset_members ?t). (\<exists>q. ipc_ports h m = Some q \<and> p_set q = Some s) \<or> (m, s) \<in> cx_leaving c"
    unfolding mem using pset_member [OF pi] by auto
  then have pi': "pset_inv c (set_names h + cx_sets c) (ipc_ports h) s ?t"
    using pi by (auto simp: pset_inv_def length_remove1)
  have gen: "ipc_inv c (set_pset s ?t h)" "all_rights c (set_pset s ?t h) = all_rights ?c h"
    by (rule inv_set_pset_gen [OF inv t]; use pi' left mem in \<open>auto simp: ctx_like_def\<close>)+
  have all: "all_rights ?c h = all_rights c h" by (simp add: all_rights_def)
  have q: "quiet h (set_pset s ?t h)" by (rule quiet_set_pset [OF t]) (use mem in auto)
  have same: "p \<notin> set (pset_members t) \<Longrightarrow> set_pset s ?t h = h" using t by (simp add: set_pset_def fun_upd_idem)
  consider (ret) "unlink_member p (pset_members t) h = Ret (remove1 p (pset_members t))" "ipc_ports h p \<noteq> None"
    | (pan) "unlink_member p (pset_members t) h = Ret (remove1 p (pset_members t))" "ipc_ports h p = None"
    | (walk) "unlink_member p (pset_members t) h = Panic ''use of a freed port''" "\<exists>m \<in> set (pset_members t). ipc_ports h m = None"
    using unlink_member_cases [of p "pset_members t" h] by blast
  then show ?thesis
  proof cases
    case ret
    have "port_leave_set p s h = Ret (set_pset s ?t h)"
      using ret t same by (auto simp: port_leave_set_def with_set_def with_port_def)
    then show ?thesis
    proof (rule that(1) [OF _ gen(1) _ q])
      show "all_rights c (set_pset s ?t h) = all_rights c h" using gen(2) all by simp
      show "u \<noteq> s \<and> ipc_sets h u = Some v" if "ipc_sets (set_pset s ?t h) u = Some v" "p \<in> set (pset_members v)" for u v
        using that mem by (auto split: if_splits)
    qed simp_all
  next
    case pan
    then show ?thesis using t by (intro that(2)) (auto simp: port_leave_set_def with_set_def with_port_def)
  next
    case walk
    then show ?thesis using t by (intro that(2)) (auto simp: port_leave_set_def with_set_def listed_def)
  qed
qed

section \<open>Freeing a port\<close>

definition freeing :: "nat \<Rightarrow> ipc_ctx \<Rightarrow> ipc_ctx" where
  "freeing p c = c\<lparr>cx_zero := insert p (cx_zero c), cx_freeing := insert p (cx_freeing c)\<rparr>"

definition zero_ref :: "nat \<Rightarrow> ipc_ctx \<Rightarrow> ipc_ctx" where
  "zero_ref p c = c\<lparr>cx_zero := insert p (cx_zero c)\<rparr>"

lemma freeing_simps [simp]:
  "cx_rights (freeing p c) = cx_rights c" "cx_pages (freeing p c) = cx_pages c" "cx_slots (freeing p c) = cx_slots c"
  "cx_sets (freeing p c) = cx_sets c" "cx_zero (freeing p c) = insert p (cx_zero c)" "cx_zero_sets (freeing p c) = cx_zero_sets c"
  "cx_freeing (freeing p c) = insert p (cx_freeing c)" "cx_dying (freeing p c) = cx_dying c" "cx_leaving (freeing p c) = cx_leaving c"
  "cx_spaces (freeing p c) = cx_spaces c" "cx_frames (freeing p c) = cx_frames c"
  "stable (freeing p c) h = stable c h" "pins (freeing p c) h = pins c h" "retired (freeing p c) h = retired c h"
  by (simp_all add: freeing_def stable_def pins_def pinned_def retired_def)

lemma zero_ref_simps [simp]:
  "cx_rights (zero_ref p c) = cx_rights c" "cx_pages (zero_ref p c) = cx_pages c" "cx_slots (zero_ref p c) = cx_slots c"
  "cx_sets (zero_ref p c) = cx_sets c" "cx_zero (zero_ref p c) = insert p (cx_zero c)" "cx_zero_sets (zero_ref p c) = cx_zero_sets c"
  "cx_freeing (zero_ref p c) = cx_freeing c" "cx_dying (zero_ref p c) = cx_dying c" "cx_leaving (zero_ref p c) = cx_leaving c"
  "cx_spaces (zero_ref p c) = cx_spaces c" "cx_frames (zero_ref p c) = cx_frames c"
  "stable (zero_ref p c) h = stable c h" "pins (zero_ref p c) h = pins c h" "retired (zero_ref p c) h = retired c h"
  "all_rights (zero_ref p c) h = all_rights c h"
  by (simp_all add: zero_ref_def stable_def pins_def pinned_def retired_def all_rights_def)

lemma zero_port:
  assumes inv: "ipc_inv c h" and p: "p \<in> cx_zero c"
  obtains q where "ipc_ports h p = Some q" "p_refs q = 0" "p_send_count q = 0" "p_send_once_count q = 0" "\<not> p_has_receive q"
    "p_waiters q = []" "p_set q = None" "p_notify_port_destroyed q = None" "p_notify_no_senders q = None" "p_notify_dead_name q = []"
    "port_holds q = queue_rights (p_queue q)" "msgs_ok (p_queue q)" "\<And>k. (p, k) \<notin># all_rights c h"
proof -
  obtain q where q: "ipc_ports h p = Some q" using ipc_invD(8) [OF inv p] by blast
  note pi = ipc_invD(2) [OF inv q, unfolded port_inv_def]
  have z: "p_refs q = 0" using pi p by simp
  then have cnt: "count (all_rights c h) (p, HSend) = 0" "count (all_rights c h) (p, HOnce) = 0" "count (all_rights c h) (p, HRecv) = 0"
    "count (all_rights c h) (p, HHold) = 0" using pi by simp_all
  then have k: "(p, k) \<notin># all_rights c h" for k by (cases k) (simp_all add: count_eq_zero_iff)
  have r: "\<not> p_has_receive q" using pi cnt(3) by (metis zero_neq_one)
  then have w: "p_waiters q = []" "p_set q = None" "p_notify_port_destroyed q = None" "p_notify_no_senders q = None" "p_notify_dead_name q = []"
    using pi by simp_all
  have "msgs_ok (p_queue q)" using pi unfolding msgs_ok_def by (elim conjE)
  then show ?thesis using that [OF q z] cnt pi r w k by (simp add: port_holds_def notify_rights_def)
qed

lemma over_all_but:
  assumes "i < n" "m i = Some x"
  shows "over n m (holds_unless (insert i F)) + (if i \<in> F then {#} else port_holds x) = over n m (holds_unless F)"
  using over_fun [where i = i and n = n and m = m and x = x and g = "holds_unless (insert i F)" and f = "holds_unless F"]
  assms by (auto simp: holds_unless_def)

lemma pages_all_but:
  assumes "i < n" "m i = Some x"
  shows "over n m (pages_unless (insert i F)) + (if i \<in> F then {#} else queue_pages (p_queue x)) = over n m (pages_unless F)"
  using over_fun [where i = i and n = n and m = m and x = x and g = "pages_unless (insert i F)" and f = "pages_unless F"]
  assms by (auto simp: pages_unless_def)

lemma inv_start_free:
  assumes inv: "ipc_inv (zero_ref p c) h" and q: "ipc_ports h p = Some q" and F: "p \<notin> cx_freeing c"
    and holds: "port_holds q = queue_rights (p_queue q)"
  shows "ipc_inv (give (queue_rights (p_queue q)) (queue_pages (p_queue q)) (freeing p c)) h" (is "ipc_inv ?c h")
    "all_rights (freeing p c) h + queue_rights (p_queue q) = all_rights c h"
proof -
  have lt: "p < next_port_id h" by (rule ipc_invD(1) [OF inv q])
  show all: "all_rights (freeing p c) h + queue_rights (p_queue q) = all_rights c h"
    using over_all_but [of p _ "ipc_ports h" q "cx_freeing c", OF lt q] F holds by (simp add: all_rights_def held_def ac_simps)
  then have all': "all_rights ?c h = all_rights (zero_ref p c) h" by simp
  have pg: "pages_queued (cx_freeing ?c) h + cx_pages ?c = pages_queued (cx_freeing (zero_ref p c)) h + cx_pages (zero_ref p c)"
    using pages_all_but [of p _ "ipc_ports h" q "cx_freeing c", OF lt q] F by (simp add: pages_queued_def ac_simps)
  have eq: "port_inv ?c = port_inv (zero_ref p c)" "pset_inv ?c = pset_inv (zero_ref p c)" "frames_ok ?c = frames_ok (zero_ref p c)"
    by (simp_all add: fun_eq_iff port_inv_def pset_inv_def frames_ok_def)
  show "ipc_inv ?c h" using inv unfolding ipc_inv_def all' pg eq by auto
qed

lemma inv_end_free:
  assumes inv: "ipc_inv (freeing p c) h" and zero: "p \<notin> cx_zero c" and F: "p \<notin> cx_freeing c"
  shows "ipc_inv c (h\<lparr>ipc_ports := (ipc_ports h)(p := None)\<rparr>)" (is "ipc_inv c ?h")
    "all_rights c (h\<lparr>ipc_ports := (ipc_ports h)(p := None)\<rparr>) = all_rights (freeing p c) h"
proof -
  obtain q where q: "ipc_ports h p = Some q" "p_set q = None" and none: "\<And>k. (p, k) \<notin># all_rights (freeing p c) h"
    using zero_port [OF inv] by (metis freeing_simps(5) insertI1)
  have lt: "p < next_port_id h" by (rule ipc_invD(1) [OF inv q(1)])
  have "over (next_port_id h) ((ipc_ports h)(p := None)) (holds_unless (cx_freeing c)) = over (next_port_id h) (ipc_ports h) (holds_unless (insert p (cx_freeing c)))"
    using over_del [OF lt, of "ipc_ports h" "holds_unless (cx_freeing c)"] over_all_but [of p _ "ipc_ports h" q "cx_freeing c", OF lt q(1)] q(1) F
    by (simp add: holds_unless_def) (metis add_right_imp_eq)
  then show all: "all_rights c ?h = all_rights (freeing p c) h" by (simp add: all_rights_def held_def)
  have pg: "pages_queued (cx_freeing c) ?h = pages_queued (cx_freeing (freeing p c)) h"
    using over_del [OF lt, of "ipc_ports h" "pages_unless (cx_freeing c)"] pages_all_but [of p _ "ipc_ports h" q "cx_freeing c", OF lt q(1)] q(1) F
    by (simp add: pages_unless_def pages_queued_def) (metis add_right_imp_eq)
  have ports: "\<forall>r q2. ipc_ports ?h r = Some q2 \<longrightarrow> r < next_port_id ?h \<and> port_inv c (all_rights c ?h) (ipc_sets ?h) r q2"
  proof (intro allI impI)
    fix r q2 assume "ipc_ports ?h r = Some q2"
    then have r: "r \<noteq> p" "ipc_ports h r = Some q2" by (auto split: if_splits)
    show "r < next_port_id ?h \<and> port_inv c (all_rights c ?h) (ipc_sets ?h) r q2"
      using ipc_invD(1) [OF inv r(2)] port_inv_cong [OF ipc_invD(2) [OF inv r(2)]] r(1) unfolding all by auto
  qed
  have rights: "\<forall>x \<in># all_rights c ?h. ipc_ports ?h (fst x) \<noteq> None"
  proof
    fix x assume x: "x \<in># all_rights c ?h"
    then have "fst x \<noteq> p" using none [of "snd x"] by (auto simp: all)
    then show "ipc_ports ?h (fst x) \<noteq> None" using ipc_invD(3) [OF inv] x by (auto simp: all)
  qed
  have sets: "\<forall>s t. ipc_sets ?h s = Some t \<longrightarrow> s < next_port_id ?h \<and> pset_inv c (set_names ?h + cx_sets c) (ipc_ports ?h) s t"
  proof (intro allI impI)
    fix s t assume "ipc_sets ?h s = Some t"
    then have st: "s < next_port_id h" "pset_inv (freeing p c) (set_names h + cx_sets c) (ipc_ports h) s t"
      using ipc_invD(4) [OF inv] by auto
    have "pset_inv c (set_names ?h + cx_sets c) (ipc_ports ?h) s t"
      by (rule pset_inv_cong [OF st(2)]) (use q in \<open>auto simp: set_names_def\<close>)
    then show "s < next_port_id ?h \<and> pset_inv c (set_names ?h + cx_sets c) (ipc_ports ?h) s t" using st(1) by simp
  qed
  have rest: "set_names ?h = set_names h" "frames_ok c = frames_ok (freeing p c)" by (simp_all add: set_names_def frames_ok_def fun_eq_iff)
  have "cx_freeing c \<subseteq> cx_zero c" using ipc_invD(9) [OF inv] F by auto
  then show "ipc_inv c ?h"
    unfolding ipc_inv_def pg using ports rights sets ipc_invD(5-8) [OF inv] zero by (auto simp: rest)
qed


lemma port_free_ok:
  assumes d: "drops d N" and inv: "ipc_inv (zero_ref p c) h" and zero: "p \<notin> cx_zero c" "p \<notin> cx_freeing c"
    and pins: "pins c h" and ret: "retired c h" and sz: "2 * size (all_rights c h) + 1 < N" and St: "St \<subseteq># stable c h"
  obtains h' where "port_free d p h = Ret h'" "ipc_inv c h'" "quiet h h'" "all_rights c h' \<subseteq># all_rights c h"
      "calm St (all_rights c h) h \<Longrightarrow> \<not> listed h p \<Longrightarrow> calm St (all_rights c h') h'"
    | "port_free d p h = Panic ''use of a freed port''" "\<not> calm St (all_rights c h) h"
proof -
  have "p \<in> cx_zero (zero_ref p c)" by simp
  then obtain q where q: "ipc_ports h p = Some q" "p_refs q = 0" "p_send_count q = 0" "p_send_once_count q = 0" "\<not> p_has_receive q"
    "p_waiters q = []" "p_notify_port_destroyed q = None" "port_holds q = queue_rights (p_queue q)" "msgs_ok (p_queue q)"
    and none: "\<And>k. (p, k) \<notin># all_rights c h" using zero_port [OF inv] by (metis zero_ref_simps(15))
  have "\<not> pinned c p" using none by (auto simp: pinned_def all_rights_def)
  then have w: "p_send_waiters q = []" "p_qresv q = 0" using pins q(1) by (auto simp: pins_def)
  note i = inv_start_free [OF inv q(1) zero(2) q(8)]
  let ?Q = "queue_rights (p_queue q)"
  have "size (all_rights (freeing p c) h + ?Q) = size (all_rights c h)" using i(2) by simp
  then have o: "outcome St (freeing p c) ?Q h (drain_msgs d (p_queue q) h)"
    using pins ret sz St q(9) by (intro drain_msgs_ok [OF d i(1)]) simp_all
  have run: "port_free d p h = kbind (drain_msgs d (p_queue q) h) (\<lambda>h1. with_port p h1 (\<lambda>q1.
      kbind (drop_watches d (p_notify_dead_name q1) h1) (\<lambda>h2. Ret (h2\<lparr>ipc_ports := (ipc_ports h2)(p := None)\<rparr>))))"
    using q w by (simp add: port_free_def with_port_def KASSERT_def)
  show ?thesis
  proof (cases "drain_msgs d (p_queue q) h")
    case (Panic m)
    then show ?thesis using o i(2) that(2) unfolding run by (simp add: outcome_def)
  next
    case (Ret h1)
    note o1 = o [unfolded Ret outcome_def, simplified, unfolded i(2)]
    have "p \<in> cx_zero (freeing p c)" by simp
    then obtain q1 where q1: "ipc_ports h1 p = Some q1" "p_notify_dead_name q1 = []" using zero_port o1 by metis
    let ?h = "h1\<lparr>ipc_ports := (ipc_ports h1)(p := None)\<rparr>"
    have fin: "port_free d p h = Ret ?h" using q1 Ret unfolding run by (simp add: with_port_def)
    have e: "ipc_inv c ?h" "all_rights c ?h = all_rights (freeing p c) h1" using inv_end_free [OF _ zero] o1 by auto
    have lst: "listed ?h = listed h1" by (simp add: listed_def fun_eq_iff)
    have "quiet h1 ?h" unfolding quiet_def lst by simp
    then have qu: "quiet h ?h" using o1 quiet_trans by blast
    have "calm St (all_rights c ?h) ?h" if c: "calm St (all_rights c h) h" and nl: "\<not> listed h p"
    proof -
      have "\<not> listed h1 p" using nl o1 by (auto simp: quiet_def)
      then show ?thesis using o1 c unfolding calm_def lst e(2) by auto
    qed
    then show ?thesis using that(1) [OF fin e(1) qu] o1 e(2) by simp
  qed
qed

section \<open>What the locked part of a drop does\<close>

definition work_rights :: "deref_work \<Rightarrow> holdings" where
  "work_rights w = notify_rights (dw_no_senders w) + watch_rights (dw_dead_names w) + queue_rights (dw_drain w)"

lemma deref_no_senders_cases:
  obtains "deref_no_senders r (q, w) = (q, w)"
    | n where "p_has_receive q" "p_notify_no_senders q = Some n"
        "deref_no_senders r (q, w) = (q\<lparr>p_notify_no_senders := None, p_notify_no_senders_id := 0\<rparr>,
                w\<lparr>dw_no_senders := Some n, dw_no_senders_id := p_notify_no_senders_id q, dw_fire_no_senders := True\<rparr>)"
    | "p_has_receive q" "deref_no_senders r (q, w) = (q\<lparr>p_dead := True, p_waiters := []\<rparr>, w\<lparr>dw_wake := p_waiters q\<rparr>)"
proof (cases "r AND (MACH_PORT_RIGHT_SEND OR MACH_PORT_RIGHT_SEND_ONCE) \<noteq> 0 \<and> p_send_count q = 0 \<and> p_send_once_count q = 0 \<and> p_has_receive q \<and> \<not> p_dead q")
  case False
  then have "deref_no_senders r (q, w) = (q, w)" unfolding deref_no_senders_def split by (rule if_not_P)
  then show ?thesis by (rule that(1))
next
  case True
  then have c: "deref_no_senders r (q, w) =
     (if p_notify_no_senders q \<noteq> None
          then (q\<lparr>p_notify_no_senders := None, p_notify_no_senders_id := 0\<rparr>,
                w\<lparr>dw_no_senders := p_notify_no_senders q, dw_no_senders_id := p_notify_no_senders_id q,
                  dw_fire_no_senders := True\<rparr>)
          else if p_qlen q = 0 \<and> p_waiters q \<noteq> []
          then (q\<lparr>p_dead := True, p_waiters := []\<rparr>, w\<lparr>dw_wake := p_waiters q\<rparr>)
          else (q, w))" unfolding deref_no_senders_def split by (rule if_P)
  show ?thesis
  proof (cases "p_notify_no_senders q")
    case (Some n)
    then show ?thesis using True c by (intro that(2)) simp_all
  next
    case None
    then show ?thesis using True c that(1,3) by (cases "p_qlen q = 0 \<and> p_waiters q \<noteq> []") auto
  qed
qed

lemma deref_locked_result:
  assumes "has r MACH_PORT_RIGHT_SEND \<Longrightarrow> 0 < p_send_count q" "has r MACH_PORT_RIGHT_SEND_ONCE \<Longrightarrow> 0 < p_send_once_count q"
    "has r MACH_PORT_RIGHT_RECEIVE \<Longrightarrow> p_has_receive q"
    "p_send_count q + p_send_once_count q + of_bool (p_has_receive q) \<le> p_refs q" "p_qlen q = length (p_queue q)"
  obtains q' w where "deref_locked r q = Ret (q', w)"
    "p_send_count q' = p_send_count q - of_bool (has r MACH_PORT_RIGHT_SEND)"
    "p_send_once_count q' = p_send_once_count q - of_bool (has r MACH_PORT_RIGHT_SEND_ONCE)"
    "p_refs q' = p_refs q - of_bool (has r MACH_PORT_RIGHT_SEND) - of_bool (has r MACH_PORT_RIGHT_SEND_ONCE) - of_bool (has r MACH_PORT_RIGHT_RECEIVE)"
    "p_has_receive q' \<longleftrightarrow> p_has_receive q \<and> \<not> has r MACH_PORT_RIGHT_RECEIVE" "p_qresv q' = p_qresv q" "p_qlen q' = length (p_queue q')"
    "p_queue q = p_queue q' @ dw_drain w" "port_holds q' + work_rights w = port_holds q"
    "p_set q' = (if has r MACH_PORT_RIGHT_RECEIVE then None else p_set q)"
    "dw_member_of w = (if has r MACH_PORT_RIGHT_RECEIVE then p_set q else None)"
    "p_waiters q' = [] \<or> \<not> has r MACH_PORT_RIGHT_RECEIVE \<and> p_waiters q' = p_waiters q"
    "p_notify_dead_name q' = [] \<or> \<not> has r MACH_PORT_RIGHT_RECEIVE \<and> p_notify_dead_name q' = p_notify_dead_name q"
    "p_notify_no_senders q' = None \<or> \<not> has r MACH_PORT_RIGHT_RECEIVE \<and> p_notify_no_senders q' = p_notify_no_senders q"
    "p_notify_port_destroyed q' = p_notify_port_destroyed q"
    "p_send_waiters q' = [] \<or> p_send_waiters q' = p_send_waiters q"
    "dw_last w \<longleftrightarrow> p_refs q' = 0" "dw_fire_no_senders w \<Longrightarrow> dw_no_senders w \<noteq> None"
proof -
  let ?S = "has r MACH_PORT_RIGHT_SEND" and ?O = "has r MACH_PORT_RIGHT_SEND_ONCE" and ?R = "has r MACH_PORT_RIGHT_RECEIVE"
  define q1 where "q1 = q\<lparr>p_send_count := p_send_count q - of_bool ?S, p_send_once_count := p_send_once_count q - of_bool ?O,
      p_refs := p_refs q - of_bool ?S - of_bool ?O\<rparr>"
  have c1: "deref_counts r q = Ret q1"
    using assms(1,2,4) by (cases ?S; cases ?O; cases q) (simp_all add: deref_counts_def q1_def KASSERT_def)
  have f1: "p_queue q1 = p_queue q" "p_qlen q1 = p_qlen q" "p_set q1 = p_set q" "p_has_receive q1 = p_has_receive q"
    "p_qresv q1 = p_qresv q" "p_waiters q1 = p_waiters q" "p_notify_dead_name q1 = p_notify_dead_name q"
    "p_notify_no_senders q1 = p_notify_no_senders q" "p_notify_port_destroyed q1 = p_notify_port_destroyed q"
    "p_send_waiters q1 = p_send_waiters q" "p_send_count q1 = p_send_count q - of_bool ?S"
    "p_send_once_count q1 = p_send_once_count q - of_bool ?O" "p_refs q1 = p_refs q - of_bool ?S - of_bool ?O"
    by (simp_all add: q1_def)
  have k: "?R \<Longrightarrow> 0 < p_refs q1" using assms(1-4) by (cases ?S; cases ?O) (simp_all add: f1)
  obtain q2 w2 where c2: "deref_receive r q1 = Ret (q2, w2)"
    and e2: "q2 = (if ?R then q1\<lparr>p_has_receive := False, p_dead := True, p_refs := p_refs q1 - 1, p_queue := [], p_qlen := 0,
                     p_waiters := [], p_send_waiters := [], p_set := None, p_notify_no_senders := None,
                     p_notify_no_senders_id := (if p_notify_no_senders q1 = None then p_notify_no_senders_id q1 else 0),
                     p_notify_dead_name := []\<rparr> else q1)"
    and w2: "w2 = (if ?R then no_work\<lparr>dw_drain := p_queue q1, dw_wake := p_waiters q1, dw_send_wake := p_send_waiters q1,
                           dw_member_of := p_set q1, dw_no_senders := p_notify_no_senders q1,
                           dw_dead_names := p_notify_dead_name q1\<rparr> else no_work)"
    using assms(3) k by (auto simp: deref_receive_def KASSERT_def f1)
  have run: "deref_locked r q = (case deref_no_senders r (q2, w2) of (q3, w3) \<Rightarrow> Ret (q3, w3\<lparr>dw_last := (p_refs q3 = 0)\<rparr>))"
    by (simp add: deref_locked_def c1 c2)
  have r2: "p_has_receive q2 \<Longrightarrow> \<not> ?R" by (auto simp: e2)
  show ?thesis
  proof (cases rule: deref_no_senders_cases [of r q2 w2])
    case keep: 1
    have "deref_locked r q = Ret (q2, w2\<lparr>dw_last := (p_refs q2 = 0)\<rparr>)" using run keep by simp
    then show ?thesis
      by (rule that; cases ?R) (simp_all add: e2 w2 f1 no_work_def work_rights_def port_holds_def notify_rights_def assms(5))
  next
    case fire: (2 n)
    then have nR: "\<not> ?R" using r2 by simp
    then have ns: "p_notify_no_senders q = Some n" using fire(2) by (simp add: e2 f1)
    let ?q = "q2\<lparr>p_notify_no_senders := None, p_notify_no_senders_id := 0\<rparr>"
      and ?w = "w2\<lparr>dw_no_senders := Some n, dw_no_senders_id := p_notify_no_senders_id q2, dw_fire_no_senders := True\<rparr>"
    have "deref_locked r q = Ret (?q, ?w\<lparr>dw_last := (p_refs ?q = 0)\<rparr>)" using run fire by simp
    then show ?thesis
      by (rule that) (simp_all add: nR ns e2 w2 f1 no_work_def work_rights_def port_holds_def notify_rights_def assms(5))
  next
    case dead: 3
    then have nR: "\<not> ?R" using r2 by simp
    let ?q = "q2\<lparr>p_dead := True, p_waiters := []\<rparr>" and ?w = "w2\<lparr>dw_wake := p_waiters q2\<rparr>"
    have "deref_locked r q = Ret (?q, ?w\<lparr>dw_last := (p_refs ?q = 0)\<rparr>)" using run dead by simp
    then show ?thesis
      by (rule that) (simp_all add: nR e2 w2 f1 no_work_def work_rights_def port_holds_def notify_rights_def assms(5))
  qed
qed

definition leave :: "nat \<Rightarrow> nat option \<Rightarrow> ipc_ctx \<Rightarrow> ipc_ctx" where
  "leave p m c = (case m of None \<Rightarrow> c | Some s \<Rightarrow> c\<lparr>cx_leaving := insert (p, s) (cx_leaving c)\<rparr>)"

lemma leave_simps [simp]:
  "cx_rights (leave p m c) = cx_rights c" "cx_pages (leave p m c) = cx_pages c" "cx_slots (leave p m c) = cx_slots c"
  "cx_sets (leave p m c) = cx_sets c" "cx_zero (leave p m c) = cx_zero c" "cx_zero_sets (leave p m c) = cx_zero_sets c"
  "cx_freeing (leave p m c) = cx_freeing c" "cx_dying (leave p m c) = cx_dying c"
  "cx_leaving (leave p m c) = (case m of None \<Rightarrow> cx_leaving c | Some s \<Rightarrow> insert (p, s) (cx_leaving c))"
  "cx_spaces (leave p m c) = cx_spaces c" "cx_frames (leave p m c) = cx_frames c"
  "stable (leave p m c) h = stable c h" "pins (leave p m c) h = pins c h" "all_rights (leave p m c) h = all_rights c h"
  "leave p None c = c"
  by (simp_all add: leave_def stable_def pins_def pinned_def all_rights_def split: option.splits)

lemma count_rights_held:
  "count (rights_held p r) (p, HSend) = of_bool (has r MACH_PORT_RIGHT_SEND)"
  "count (rights_held p r) (p, HOnce) = of_bool (has r MACH_PORT_RIGHT_SEND_ONCE)"
  "count (rights_held p r) (p, HRecv) = of_bool (has r MACH_PORT_RIGHT_RECEIVE)"
  "count (rights_held p r) (p, HHold) = 0" "x \<in># rights_held p r \<Longrightarrow> fst x = p"
  by (auto simp: rights_held_def split: if_splits)

lemma word_mask_split: "(r :: 8 word) AND m = 0 \<Longrightarrow> r AND NOT m = 0 \<Longrightarrow> r = 0"
  by (metis bit.conj_disj_distrib bit.disj_cancel_right bit.conj_one_right or.right_neutral)

lemma rights_held_any: "rights_ok r \<Longrightarrow> \<exists>k. (p, k) \<in># rights_held p r"
proof -
  assume r: "rights_ok r"
  have "has r MACH_PORT_RIGHT_SEND \<or> has r MACH_PORT_RIGHT_SEND_ONCE \<or> has r MACH_PORT_RIGHT_RECEIVE"
  proof (rule ccontr)
    assume "\<not> ?thesis"
    then have "r AND (MACH_PORT_RIGHT_RECEIVE OR MACH_PORT_RIGHT_SEND OR MACH_PORT_RIGHT_SEND_ONCE) = 0"
      by (simp add: has_def bit.conj_disj_distrib)
    then show False using r word_mask_split unfolding rights_ok_def by blast
  qed
  then show ?thesis by (auto simp: rights_held_def)
qed

lemma deref_locked_ok:
  assumes inv: "ipc_inv (give (rights_held p r) {#} c) h" and r: "rights_ok r" and q: "ipc_ports h p = Some q"
    and pd: "has r MACH_PORT_RIGHT_RECEIVE \<Longrightarrow> p_notify_port_destroyed q = None"
  obtains q' w where "deref_locked r q = Ret (q', w)"
    "ipc_inv (give (work_rights w) (queue_pages (dw_drain w)) (leave p (dw_member_of w) (if dw_last w then zero_ref p c else c))) (set_port p q' h)"
    "all_rights c (set_port p q' h) + work_rights w = all_rights c h" "quiet h (set_port p q' h)" "msgs_ok (dw_drain w)"
    "dw_fire_no_senders w \<longrightarrow> dw_no_senders w \<noteq> None"
    "dw_member_of w = (if has r MACH_PORT_RIGHT_RECEIVE then p_set q else None)"
    "p_set q' = (if has r MACH_PORT_RIGHT_RECEIVE then None else p_set q)"
    "p_has_receive q' \<longleftrightarrow> p_has_receive q \<and> \<not> has r MACH_PORT_RIGHT_RECEIVE" "p \<notin> cx_zero c" "p \<notin> cx_freeing c"
proof -
  let ?S = "has r MACH_PORT_RIGHT_SEND" and ?O = "has r MACH_PORT_RIGHT_SEND_ONCE" and ?R = "has r MACH_PORT_RIGHT_RECEIVE"
  let ?c = "give (rights_held p r) {#} c" and ?A = "all_rights c h"
  have pi: "port_inv ?c (?A + rights_held p r) (ipc_sets h) p q" using ipc_invD(2) [OF inv q] by simp
  obtain k where "(p, k) \<in># rights_held p r" using rights_held_any [OF r] by blast
  then have "(p, k) \<in># all_rights ?c h" by simp
  then have z: "p \<notin> cx_zero c" "p \<notin> cx_freeing c" using held_alive [OF inv] by auto
  have cnt: "p_send_count q = count ?A (p, HSend) + of_bool ?S" "p_send_once_count q = count ?A (p, HOnce) + of_bool ?O"
    "of_bool (p_has_receive q) = count ?A (p, HRecv) + of_bool ?R"
    "p_refs q = p_send_count q + p_send_once_count q + of_bool (p_has_receive q) + count ?A (p, HHold)" "p_refs q < 2 ^ 32"
    "p_qlen q = length (p_queue q)" "p_qresv q = count (cx_slots c) p" "msgs_ok (p_queue q)"
    "\<not> p_has_receive q \<Longrightarrow> p_waiters q = [] \<and> p_set q = None \<and> p_notify_no_senders q = None \<and>
        p_notify_dead_name q = [] \<and> p_notify_port_destroyed q = None"
    "case p_set q of None \<Rightarrow> True | Some s \<Rightarrow> \<exists>t. ipc_sets h s = Some t \<and> p \<in> set (pset_members t)"
    using pi by (auto simp: port_inv_def count_rights_held msgs_ok_def split: if_splits)
  obtain q' w where d: "deref_locked r q = Ret (q', w)"
    and f: "p_send_count q' = p_send_count q - of_bool ?S" "p_send_once_count q' = p_send_once_count q - of_bool ?O"
    "p_refs q' = p_refs q - of_bool ?S - of_bool ?O - of_bool ?R"
    "p_has_receive q' \<longleftrightarrow> p_has_receive q \<and> \<not> ?R" "p_qresv q' = p_qresv q" "p_qlen q' = length (p_queue q')"
    and qq: "p_queue q = p_queue q' @ dw_drain w" and ph: "port_holds q' + work_rights w = port_holds q"
    and s: "p_set q' = (if ?R then None else p_set q)" and m: "dw_member_of w = (if ?R then p_set q else None)"
    and g: "p_waiters q' = [] \<or> \<not> ?R \<and> p_waiters q' = p_waiters q"
    "p_notify_dead_name q' = [] \<or> \<not> ?R \<and> p_notify_dead_name q' = p_notify_dead_name q"
    "p_notify_no_senders q' = None \<or> \<not> ?R \<and> p_notify_no_senders q' = p_notify_no_senders q"
    "p_notify_port_destroyed q' = p_notify_port_destroyed q"
    "p_send_waiters q' = [] \<or> p_send_waiters q' = p_send_waiters q"
    and l: "dw_last w \<longleftrightarrow> p_refs q' = 0" and fire: "dw_fire_no_senders w \<Longrightarrow> dw_no_senders w \<noteq> None"
  proof (rule deref_locked_result [of r q])
    show "?R \<Longrightarrow> p_has_receive q" using cnt(3) by (cases "p_has_receive q") auto
  qed (use cnt in auto)
  let ?cz = "if dw_last w then zero_ref p c else c"
  let ?cw = "give (work_rights w) (queue_pages (dw_drain w)) (leave p (dw_member_of w) ?cz)"
  have c0: "cx_rights ?cz = cx_rights c" "cx_pages ?cz = cx_pages c" "cx_slots ?cz = cx_slots c" "cx_leaving ?cz = cx_leaving c"
    "ctx_like c ?cz" "p \<in> cx_zero ?cz \<longleftrightarrow> dw_last w" "\<And>x. x \<noteq> p \<Longrightarrow> x \<in> cx_zero ?cz \<longleftrightarrow> x \<in> cx_zero c"
    using z by (auto simp: ctx_like_def)
  have rec: "\<not> p_has_receive q' \<longrightarrow> p_waiters q' = [] \<and> p_set q' = None \<and> p_notify_no_senders q' = None \<and>
        p_notify_dead_name q' = [] \<and> p_notify_port_destroyed q' = None"
    using f(4) g(1-4) s cnt(9) pd by (cases "p_has_receive q"; cases ?R) auto
  have cr: "(if p_has_receive q' then 1 else 0) = count ?A (p, HRecv)" using cnt(3) f(4) by (cases "p_has_receive q"; cases ?R) auto
  have rf: "p_refs q' = count ?A (p, HSend) + count ?A (p, HOnce) + count ?A (p, HRecv) + count ?A (p, HHold)"
    using f(3) cnt(1-4) by simp
  have pi': "port_inv ?cw ?A (ipc_sets h) p q'"
    unfolding port_inv_def
  proof (intro conjI)
    show "p_refs q' < 2 ^ 32" using f(3) cnt(5) by simp
    show "p_refs q' = 0 \<longleftrightarrow> p \<in> cx_zero ?cw" using l c0(6) by simp
    show "\<forall>m \<in> set (p_queue q'). \<forall>pd \<in> set (m_descs m). desc_ok pd" using cnt(8) qq by (auto simp: msgs_ok_def)
    show "case p_set q' of None \<Rightarrow> True | Some s \<Rightarrow> \<exists>t. ipc_sets h s = Some t \<and> p \<in> set (pset_members t)"
      using cnt(10) s by (simp split: if_splits)
  qed (use cnt(1,2,7) f cr rec rf c0 in simp_all)
  have D: "all_rights ?c h - rights_held p r = ?A" by (simp only: all_rights_give add_diff_cancel_right')
  have like: "ctx_like ?c ?cw" using c0(5) by (simp add: ctx_like_def)
  have i: "ipc_inv ?cw (set_port p q' h)" "all_rights ?cw (set_port p q' h) + rights_held p r = all_rights ?c h"
  proof -
    note gen = inv_set_port [OF inv q _ like, of q' "rights_held p r" "{#}"]
    have "port_holds q' + cx_rights ?cw + rights_held p r = port_holds q + cx_rights ?c" using ph c0(1) by (simp add: ac_simps)
    moreover have "queue_pages (p_queue q') + cx_pages ?cw = queue_pages (p_queue q) + cx_pages ?c" using qq c0(2) by (simp add: ac_simps)
    moreover have "p_set q = Some s' \<Longrightarrow> p_set q' = Some s' \<or> (p, s') \<in> cx_leaving ?cw" for s' using s m by simp
    moreover have "cx_leaving ?c \<subseteq> cx_leaving ?cw" using c0(4) by (auto split: option.splits)
    ultimately show "ipc_inv ?cw (set_port p q' h)" "all_rights ?cw (set_port p q' h) + rights_held p r = all_rights ?c h"
      using gen count_rights_held(5) z c0 pi' unfolding D by auto
  qed
  have "all_rights c (set_port p q' h) + work_rights w = ?A"
  proof -
    have "all_rights ?cw (set_port p q' h) = all_rights c (set_port p q' h) + work_rights w" by simp
    then show ?thesis using i(2) by simp
  qed
  moreover have "quiet h (set_port p q' h)" using g(4,5) f(4,5) by (intro quiet_set_port [OF q]) (auto simp: tamer_def)
  moreover have "msgs_ok (dw_drain w)" using cnt(8) qq by (auto simp: msgs_ok_def)
  ultimately show ?thesis using that [OF d i(1)] fire m s f(4) z by blast
qed

lemma outcome_none:
  "ipc_inv c h \<Longrightarrow> outcome St c {#} h (Ret h)"
  by (simp add: outcome_same)

lemma deref_settle_ok:
  assumes d: "drops d N" and inv: "ipc_inv (give (work_rights w) (queue_pages (dw_drain w)) c) h" and pins: "pins c h" and ret: "retired c h"
    and sz: "2 * size (all_rights c h + work_rights w) + 1 < N" and St: "St \<subseteq># stable c h" and ok: "msgs_ok (dw_drain w)"
    and fire: "dw_fire_no_senders w \<Longrightarrow> dw_no_senders w \<noteq> None"
  shows "outcome St c (work_rights w) h (deref_settle d w h)"
proof -
  let ?Q = "queue_rights (dw_drain w)" and ?P = "queue_pages (dw_drain w)" and ?W = "watch_rights (dw_dead_names w)"
    and ?N = "notify_rights (dw_no_senders w)"
  let ?cq = "give ?Q ?P c" and ?cw = "give (?W + ?Q) ?P c"
  let ?X = "if dw_fire_no_senders w
            then kbind (port_notify_enqueue (the (dw_no_senders w)) MACH_NOTIFY_NO_SENDERS (dw_no_senders_id w) h)
                   (\<lambda>(_, h1). Ret h1) else Ret h"
  have W: "work_rights w = ?N + (?W + ?Q)" by (simp add: work_rights_def ac_simps)
  have "\<exists>h1. ?X = Ret h1 \<and> mild (give (work_rights w) ?P c) h (give (work_rights w) ?P c) h1"
  proof (cases "dw_fire_no_senders w")
    case True
    then obtain n where n: "dw_no_senders w = Some n" using fire by auto
    then have "(n, HSend) \<in># all_rights (give (work_rights w) ?P c) h" by (simp add: W notify_rights_def)
    then obtain q where "ipc_ports h n = Some q" "n \<notin> cx_freeing (give (work_rights w) ?P c)" using held_alive [OF inv] by metis
    then obtain rv h1 where "port_notify_enqueue n MACH_NOTIFY_NO_SENDERS (dw_no_senders_id w) h = Ret (rv, h1)"
        "mild (give (work_rights w) ?P c) h (give (work_rights w) ?P c) h1" using port_notify_enqueue_ok [OF inv] by metis
    then show ?thesis using True n by simp
  next
    case False
    then show ?thesis using mild_refl [OF inv] by simp
  qed
  then obtain h1 where X: "?X = Ret h1" and m1: "mild (give (work_rights w) ?P c) h (give (work_rights w) ?P c) h1" by blast
  note m = mildD [OF m1]
  have p1: "pins c h1" "retired c h1" "St \<subseteq># stable c h1" "size (all_rights c h1) = size (all_rights c h)"
    using quiet_pins [OF m(3) pins] quiet_retired [OF m(3) ret] quiet_le [OF m(3) St] m(2) by auto
  have "St \<subseteq># stable ?cw h1" using p1(3) by (simp add: subset_mset.add_increasing2)
  then have Y: "outcome St ?cw ?N h1 (case dw_no_senders w of None \<Rightarrow> Ret h1 | Some n \<Rightarrow> d n MACH_PORT_RIGHT_SEND h1)"
    using dropsD [OF d right_ok_SEND(1), of _ ?cw h1 St] m(1) p1 sz
    by (auto simp: W notify_rights_def ac_simps outcome_none split: option.splits)
  have "outcome St c (?N + (?W + ?Q)) h1 (kbind (case dw_no_senders w of None \<Rightarrow> Ret h1 | Some n \<Rightarrow> d n MACH_PORT_RIGHT_SEND h1) (\<lambda>h2.
     kbind (fire_dead_names d (dw_dead_names w) h2) (\<lambda>h3. drain_msgs d (dw_drain w) h3)))"
  proof (rule outcome_bind [OF Y])
    fix h2 assume h2: "ipc_inv ?cw h2" "quiet h1 h2" "size (all_rights c h2) \<le> size (all_rights c h1)"
    have p2: "pins c h2" "retired c h2" "St \<subseteq># stable c h2"
      using quiet_pins [OF h2(2) p1(1)] quiet_retired [OF h2(2) p1(2)] quiet_le [OF h2(2) p1(3)] by auto
    have "St \<subseteq># stable ?cq h2" using p2(3) by (simp add: subset_mset.add_increasing2)
    then have Z: "outcome St ?cq ?W h2 (fire_dead_names d (dw_dead_names w) h2)"
      using h2(1,3) p1(4) p2 sz by (intro fire_dead_names_ok [OF d]) (simp_all add: W ac_simps)
    show "outcome St c (?W + ?Q) h2 (kbind (fire_dead_names d (dw_dead_names w) h2) (\<lambda>h3. drain_msgs d (dw_drain w) h3))"
    proof (rule outcome_bind [OF Z])
      fix h3 assume h3: "ipc_inv ?cq h3" "quiet h2 h3" "size (all_rights c h3) \<le> size (all_rights c h2)"
      show "outcome St c ?Q h3 (drain_msgs d (dw_drain w) h3)"
        using quiet_pins [OF h3(2) p2(1)] quiet_retired [OF h3(2) p2(2)] quiet_le [OF h3(2) p2(3)] h3 h2(3) p1(4) sz
        by (intro drain_msgs_ok [OF d _ _ _ ok]) (simp_all add: W)
    qed
  qed
  then show ?thesis using outcome_mild [OF m1] unfolding deref_settle_def X by (simp add: W)
qed

lemma leave_set_opt_ok:
  assumes inv: "ipc_inv (leave p m c) h" and set: "\<And>s. m = Some s \<Longrightarrow> \<exists>t. ipc_sets h s = Some t"
    and left: "\<And>q. m \<noteq> None \<Longrightarrow> ipc_ports h p = Some q \<Longrightarrow> p_set q = None"
  obtains h' where "leave_set_opt p m h = Ret h'" "ipc_inv c h'" "all_rights c h' = all_rights c h" "quiet h h'"
      "ipc_ports h' = ipc_ports h" "ipc_ms h' = ipc_ms h" "\<forall>u v. ipc_sets h' u = Some v \<longrightarrow> p \<in> set (pset_members v) \<longrightarrow>
        m \<noteq> Some u \<and> ipc_sets h u = Some v"
    | "leave_set_opt p m h = Panic ''use of a freed port''" "m \<noteq> None" "ipc_ports h p = None \<or> (\<exists>m. listed h m \<and> ipc_ports h m = None)"
proof (cases m)
  case None
  then show ?thesis using inv by (intro that(1) [of h]) (simp_all add: leave_set_opt_def)
next
  case (Some s)
  then obtain t where t: "ipc_sets h s = Some t" using set by blast
  have inv': "ipc_inv (c\<lparr>cx_leaving := insert (p, s) (cx_leaving c)\<rparr>) h" using inv Some by (simp add: leave_def)
  have left': "p_set q \<noteq> Some s" if "ipc_ports h p = Some q" for q using left [OF _ that] Some by simp
  show ?thesis
  proof (cases rule: port_leave_set_ok [OF inv' t left'])
    case (2 h')
    show ?thesis
    proof (rule that(1) [of h'])
      show "\<forall>u v. ipc_sets h' u = Some v \<longrightarrow> p \<in> set (pset_members v) \<longrightarrow> m \<noteq> Some u \<and> ipc_sets h u = Some v"
        using 2(7) Some by auto
    qed (use 2 Some in \<open>simp_all add: leave_set_opt_def\<close>)
  next
    case 3
    then show ?thesis using Some by (intro that(2)) (simp_all add: leave_set_opt_def)
  qed assumption
qed

lemma listed_receiver:
  assumes inv: "ipc_inv c h" and q: "ipc_ports h p = Some q" "p_has_receive q" and ret: "retired c h"
    and u: "ipc_sets h u = Some v" "p \<in> set (pset_members v)"
  shows "p_set q = Some u"
proof -
  have "(p, u) \<notin> cx_leaving c" using ret q unfolding retired_def by blast
  then show ?thesis using pset_member [OF conjunct2 [OF ipc_invD(4) [OF inv u(1)]] u(2)] q by auto
qed

lemma retired_leave:
  assumes "retired c h" "\<And>q. m \<noteq> None \<Longrightarrow> ipc_ports h p = Some q \<Longrightarrow> \<not> p_has_receive q"
  shows "retired (leave p m c) h"
  using assms unfolding retired_def by (auto split: option.splits)

text \<open>In a calm state a port that the rights \<open>St\<close> do not hold is on a list only with its receive right.\<close>

lemma calm_only_receive:
  assumes calm: "calm St (all_rights c h + rights_held p r) h" and r: "rights_ok r" and l: "listed h p" and no: "\<And>k. (p, k) \<notin># St"
  shows "has r MACH_PORT_RIGHT_RECEIVE" "k \<noteq> HRecv \<Longrightarrow> (p, k) \<notin># all_rights c h"
proof -
  have none: "\<forall>k. k \<noteq> HRecv \<longrightarrow> (p, k) \<notin># all_rights c h + rights_held p r" using calm l no unfolding calm_def by blast
  then show "k \<noteq> HRecv \<Longrightarrow> (p, k) \<notin># all_rights c h" by simp
  obtain k where k: "(p, k) \<in># rights_held p r" using rights_held_any [OF r] by blast
  then have "k = HRecv" using none by (metis union_iff)
  then show "has r MACH_PORT_RIGHT_RECEIVE" using k by (auto simp: rights_held_def split: if_splits)
qed

lemma deref_tail_ok:
  assumes d: "drops d N" and inv: "ipc_inv (give (rights_held p r) {#} c) h" and r: "rights_ok r" and q: "ipc_ports h p = Some q"
    and pins: "pins c h" and ret: "retired c h" and sz: "2 * size (all_rights c h) + 1 < N" and St: "St \<subseteq># stable c h"
    and m: "m = (if has r MACH_PORT_RIGHT_RECEIVE then p_set q else None)" and z: "p \<notin> cx_zero c" "p \<notin> cx_freeing c"
    and i5: "ipc_inv (leave p m (if l then zero_ref p c else c)) h5" and q5: "quiet h h5" and A5: "all_rights c h5 \<subseteq># all_rights c h"
    and recv: "\<And>q. m \<noteq> None \<Longrightarrow> ipc_ports h5 p = Some q \<Longrightarrow> \<not> p_has_receive q"
    and calm5: "K \<Longrightarrow> calm St (all_rights c h5) h5"
    and only: "K \<Longrightarrow> listed h p \<Longrightarrow> \<forall>k. (p, k) \<notin># St \<Longrightarrow>
      has r MACH_PORT_RIGHT_RECEIVE \<and> (\<forall>k. k \<noteq> HRecv \<longrightarrow> (p, k) \<notin># all_rights c h)"
    and more: "\<not> l \<Longrightarrow> has r MACH_PORT_RIGHT_RECEIVE \<Longrightarrow> \<exists>k. k \<noteq> HRecv \<and> (p, k) \<in># all_rights c h"
    and last: "\<And>k. l \<Longrightarrow> (p, k) \<notin># all_rights c h"
  shows "outcome_if K St c (rights_held p r) h (kbind (leave_set_opt p m h5) (\<lambda>h6. if l then port_free d p h6 else Ret h6))"
proof -
  let ?R = "has r MACH_PORT_RIGHT_RECEIVE" and ?A = "all_rights c h" and ?rh = "rights_held p r"
  define cz where "cz = (if l then zero_ref p c else c)"
  have cz: "all_rights cz g = all_rights c g" "stable cz g = stable c g" "cx_leaving cz = cx_leaving c" for g by (simp_all add: cz_def)
  note i5 = i5 [folded cz_def]
  have StA: "St \<subseteq># ?A" "St \<subseteq># all_rights c h5"
    using St quiet_le [OF q5 St] stable_held subset_mset.order_trans by blast+
  have leA: "all_rights c h5 \<subseteq># ?A + ?rh" "size (all_rights c h5) \<le> size ?A"
    using A5 by (auto intro: subset_mset.add_increasing2 size_mset_mono)
  have pset: "p_set q = Some s" if "m = Some s" for s using that m by (simp split: if_splits)
  have lh: "listed h p \<and> (\<exists>t. ipc_sets h s = Some t)" if "m = Some s" for s
    using ipc_invD(2) [OF inv q] pset [OF that] by (auto simp: port_inv_def listed_def)
  have set5: "\<exists>t. ipc_sets h5 s = Some t" if "m = Some s" for s using lh [OF that] q5 unfolding quiet_def by blast
  have left5: "p_set q5 = None" if "m \<noteq> None" "ipc_ports h5 p = Some q5" for q5
    using ipc_invD(2) [OF i5 that(2)] recv [OF that] by (simp add: port_inv_def)
  have held5: "(p, k) \<notin># St" if "l" for k using last [OF that, of k] StA(1) by (meson mset_subset_eqD)
  consider (ret) h6 where "leave_set_opt p m h5 = Ret h6" "ipc_inv cz h6" "all_rights cz h6 = all_rights cz h5" "quiet h5 h6"
      "ipc_ports h6 = ipc_ports h5" "ipc_ms h6 = ipc_ms h5" "\<forall>u v. ipc_sets h6 u = Some v \<longrightarrow> p \<in> set (pset_members v) \<longrightarrow> m \<noteq> Some u \<and> ipc_sets h5 u = Some v"
    | (pan) "leave_set_opt p m h5 = Panic ''use of a freed port''" "m \<noteq> None" "ipc_ports h5 p = None \<or> (\<exists>m. listed h5 m \<and> ipc_ports h5 m = None)"
    by (rule leave_set_opt_ok [OF i5 set5 left5])
  then show ?thesis
  proof cases
    case pan
    have "\<not> K"
    proof
      assume c: K
      have gone: "ipc_ports h5 p = None" using pan(3) calm5 [OF c] by (auto simp: calm_def)
      have no: "(p, k) \<notin># all_rights c h5" for k using ipc_invD(3) [OF i5, of "(p, k)"] gone by (auto simp: cz)
      have "\<not> l" using ipc_invD(8) [OF i5, of p] gone by (auto simp: cz_def)
      moreover have "(p, k) \<notin># St" for k using no StA(2) by (meson mset_subset_eqD)
      moreover have "listed h p" using lh pan(2) by blast
      ultimately show False using only [OF c] more by blast
    qed
    then show ?thesis using pan(1) by (simp add: outcome_if_def)
  next
    case ret
    have q6: "quiet h h6" using quiet_trans [OF q5 ret(4)] .
    have A6: "all_rights c h6 = all_rights c h5" using ret(3) by (simp add: cz)
    have calm6: "calm St (all_rights c h6) h6" if K
      using calm5 [OF that] ret(4,5) unfolding A6 by (elim calm_mono) (auto simp: quiet_def)
    have unl: "\<not> listed h6 p" if c: K and l
    proof
      assume "listed h6 p"
      then obtain u v where uv: "ipc_sets h6 u = Some v" "p \<in> set (pset_members v)" by (auto simp: listed_def)
      have lp: "listed h p" using q6 \<open>listed h6 p\<close> by (simp add: quiet_def)
      have R: ?R using only [OF c lp] held5 [OF \<open>l\<close>] by blast
      then have hq: "p_has_receive q" using ipc_invD(2) [OF inv q] by (auto simp: port_inv_def count_rights_held split: if_splits)
      obtain u' v' where uv': "ipc_sets h u' = Some v'" "p \<in> set (pset_members v')" using lp by (auto simp: listed_def)
      have "m = Some u'" using listed_receiver [OF inv q hq _ uv'] assms(6) R m by simp
      then have m: "m \<noteq> None" by simp
      have u5: "m \<noteq> Some u" "ipc_sets h5 u = Some v" using ret(7) uv by auto
      have "(p, u) \<in> cx_leaving (leave p m cz)"
        using pset_member [OF conjunct2 [OF ipc_invD(4) [OF i5 u5(2)]] uv(2)] left5 [OF m] by auto
      then have "(p, u) \<in> cx_leaving c" using u5(1) by (auto simp: cz split: option.splits)
      then show False using assms(6) q hq unfolding retired_def by blast
    qed
    show ?thesis
    proof (cases l)
      case False
      then show ?thesis using ret(1,2) q6 leA calm6 by (simp add: outcome_if_def cz_def A6)
    next
      case True
      have i6: "ipc_inv (zero_ref p c) h6" using ret(2) True by (simp add: cz_def)
      have sz6: "2 * size (all_rights c h6) + 1 < N" using sz leA(2) by (simp add: A6)
      show ?thesis
      proof (rule port_free_ok [OF d i6 z quiet_pins [OF q6 pins] quiet_retired [OF q6 assms(6)] sz6 quiet_le [OF q6 St]])
        fix h' assume f: "port_free d p h6 = Ret h'" "ipc_inv c h'" "quiet h6 h'" "all_rights c h' \<subseteq># all_rights c h6"
          "calm St (all_rights c h6) h6 \<Longrightarrow> \<not> listed h6 p \<Longrightarrow> calm St (all_rights c h') h'"
        have sub: "all_rights c h' \<subseteq># ?A" using f(4) A5 unfolding A6 by (rule subset_mset.order_trans)
        then have "all_rights c h' \<subseteq># ?A + ?rh" "size (all_rights c h') \<le> size ?A"
          by (auto intro: subset_mset.add_increasing2 size_mset_mono)
        then show ?thesis using f True quiet_trans [OF q6 f(3)] calm6 unl ret(1) by (simp add: outcome_if_def)
      next
        assume f: "port_free d p h6 = Panic ''use of a freed port''" "\<not> calm St (all_rights c h6) h6"
        then show ?thesis using True calm6 ret(1) by (auto simp: outcome_if_def)
      qed
    qed
  qed
qed

lemma deref_core_ok:
  assumes d: "drops d N" and inv: "ipc_inv (give (rights_held p r) {#} c) h" and r: "rights_ok r" and q: "ipc_ports h p = Some q"
    and pd: "has r MACH_PORT_RIGHT_RECEIVE \<Longrightarrow> p_notify_port_destroyed q = None" and pins: "pins c h" and ret: "retired c h"
    and sz: "2 * size (all_rights c h + rights_held p r) \<le> N" and St: "St \<subseteq># stable c h"
    and calm: "K \<Longrightarrow> calm St (all_rights c h) h"
    and only: "K \<Longrightarrow> listed h p \<Longrightarrow> \<forall>k. (p, k) \<notin># St \<Longrightarrow>
      has r MACH_PORT_RIGHT_RECEIVE \<and> (\<forall>k. k \<noteq> HRecv \<longrightarrow> (p, k) \<notin># all_rights c h)"
  shows "outcome_if K St c (rights_held p r) h (kbind (deref_locked r q) (\<lambda>(q', w). deref_unlocked d p w (set_port p q' h)))"
proof -
  let ?R = "has r MACH_PORT_RIGHT_RECEIVE" and ?A = "all_rights c h" and ?rh = "rights_held p r"
  obtain q' w where dl: "deref_locked r q = Ret (q', w)"
    and i1: "ipc_inv (give (work_rights w) (queue_pages (dw_drain w)) (leave p (dw_member_of w) (if dw_last w then zero_ref p c else c))) (set_port p q' h)"
    and a1: "all_rights c (set_port p q' h) + work_rights w = ?A" and q1: "quiet h (set_port p q' h)" and ok: "msgs_ok (dw_drain w)"
    and fire: "dw_fire_no_senders w \<longrightarrow> dw_no_senders w \<noteq> None" and mo: "dw_member_of w = (if ?R then p_set q else None)"
    and ps: "p_set q' = (if ?R then None else p_set q)" and hr: "p_has_receive q' \<longleftrightarrow> p_has_receive q \<and> \<not> ?R"
    and z: "p \<notin> cx_zero c" "p \<notin> cx_freeing c" by (rule deref_locked_ok [OF inv r q pd])
  define m where "m = dw_member_of w"
  define cz where "cz = (if dw_last w then zero_ref p c else c)"
  define h1 where "h1 = set_port p q' h"
  note fold = m_def [symmetric] cz_def [symmetric] h1_def [symmetric]
  have cz: "all_rights cz g = all_rights c g" "stable cz g = stable c g" "pins cz g = pins c g" "retired cz g = retired c g"
    "cx_leaving cz = cx_leaving c" for g by (simp_all add: cz_def)
  have no_recv: "\<not> p_has_receive q'" if "m \<noteq> None" using that mo hr by (auto simp: m_def split: if_splits)
  have ret1: "retired (leave p m cz) h1"
    using quiet_retired [OF q1 ret] no_recv by (intro retired_leave) (auto simp: cz h1_def)
  have sz1: "2 * size ?A + 1 < N" using rights_held_any [OF r, of p] sz by (cases "rights_held p r") auto
  have A1: "all_rights (leave p m cz) h1 + work_rights w = ?A" using a1 by (simp add: cz h1_def)
  have o: "outcome St (leave p m cz) (work_rights w) h1 (deref_settle d w h1)"
    using i1 quiet_pins [OF q1 pins] ret1 sz1 quiet_le [OF q1 St] A1 fire
    by (intro deref_settle_ok [OF d _ _ _ _ _ ok]) (simp_all add: cz fold)
  note o' = o [unfolded outcome_def A1]
  have calm1: "calm St ?A h1" if K using calm [OF that] q by (elim calm_mono) (auto simp: h1_def listed_def)
  have run: "kbind (deref_locked r q) (\<lambda>(q', w). deref_unlocked d p w (set_port p q' h)) = deref_unlocked d p w h1"
    by (simp add: dl h1_def)
  have "ipc_ports h1 p = Some q'" by (simp add: h1_def)
  note pi1 = ipc_invD(2) [OF i1 [unfolded fold] this, unfolded all_rights_give A1]
  have "p \<in> cx_zero cz \<longleftrightarrow> dw_last w" using z by (simp add: cz_def)
  moreover have "p_refs q' = 0 \<longleftrightarrow> p \<in> cx_zero cz" using port_invD(6) [OF pi1] by simp
  ultimately have refs: "(p_refs q' = 0) = dw_last w" by simp
  show ?thesis
  proof (cases "deref_settle d w h1")
    case (Panic msg)
    then show ?thesis using o' calm1 unfolding run by (auto simp: deref_unlocked_def outcome_if_def)
  next
    case (Ret h4)
    define h5 where "h5 = wake_all (dw_wake w @ dw_send_wake w) h4"
    have run4: "deref_unlocked d p w h1 = kbind (leave_set_opt p m h5) (\<lambda>h6. if dw_last w then port_free d p h6 else Ret h6)"
      by (simp add: deref_unlocked_def Ret h5_def m_def)
    have i5: "ipc_inv (leave p m cz) h5" and q5: "quiet h1 h5" and A5: "all_rights c h5 \<subseteq># ?A"
      and calm5: "calm St ?A h1 \<Longrightarrow> calm St (all_rights c h5) h5"
      using o' quiet_trans [OF _ quiet_woken(1), of h1 h4] unfolding Ret h5_def by (auto simp: cz calm_def listed_def)
    show ?thesis unfolding run run4
    proof (rule deref_tail_ok [OF d inv r q pins ret sz1 St _ z i5 [unfolded cz_def] _ A5])
      show "m = (if ?R then p_set q else None)" using mo by (simp add: m_def)
      show "quiet h h5" using quiet_trans [OF q1] q5 by (simp add: h1_def)
      show "K \<Longrightarrow> calm St (all_rights c h5) h5" using calm1 calm5 by blast
      show "\<not> p_has_receive q5" if "m \<noteq> None" "ipc_ports h5 p = Some q5" for q5
        using quiet_tamer [OF q5 _ that(2)] no_recv [OF that(1)] by (simp add: h1_def tamer_def)
      show "K \<Longrightarrow> listed h p \<Longrightarrow> \<forall>k. (p, k) \<notin># St \<Longrightarrow> ?R \<and> (\<forall>k. k \<noteq> HRecv \<longrightarrow> (p, k) \<notin># ?A)" by (rule only)
      show "\<exists>k. k \<noteq> HRecv \<and> (p, k) \<in># ?A" if "\<not> dw_last w" ?R
      proof -
        have "count ?A (p, HRecv) = 0" "0 < p_refs q'" using port_invD(3) [OF pi1] that hr refs by auto
        then have "0 < count ?A (p, HSend) \<or> 0 < count ?A (p, HOnce) \<or> 0 < count ?A (p, HHold)" using port_invD(4) [OF pi1] by auto
        then show ?thesis by (metis count_greater_zero_iff hold_kind.distinct(3,7,11))
      qed
      show "(p, k) \<notin># ?A" if "dw_last w" for k
        using port_invD(4) [OF pi1] refs that by (cases k) (auto simp: count_eq_zero_iff)
    qed
  qed
qed

section \<open>Diverting a receive right\<close>

lemma outcome_of_mild: "mild c h c h' \<Longrightarrow> outcome St c {#} h (Ret h')"
  using mild_calm by (auto simp: outcome_def mild_def)

lemma outcome_take:
  assumes m: "mild (give D Q c) h (give E P c) h1" and o: "outcome St c E h1 r" and sz: "size D \<le> size E"
  shows "outcome St c D h r"
proof (rule outcome_pre [OF o])
  show "quiet h h1" using m by (simp add: mild_def)
  have eq: "all_rights c h1 + E = all_rights c h + D" using m by (simp add: mild_def)
  then show "all_rights c h1 + E \<subseteq># all_rights c h + D" by simp
  show "size (all_rights c h1) \<le> size (all_rights c h)" using arg_cong [OF eq, of size] sz by simp
  show "calm St (all_rights c h + D) h \<Longrightarrow> calm St (all_rights c h1 + E) h1" using eq mild_calm [OF m] by simp
qed

lemma notify_rights_simps [simp]: "notify_rights None = {#}" "notify_rights (Some n) = {#(n, HSend)#}"
  by (simp_all add: notify_rights_def)

lemma divert_clear:
  assumes inv: "ipc_inv c h" and q: "ipc_ports h p = Some q" "p \<notin> cx_freeing c" and recv: "p_has_receive q"
  shows "mild c h (give (notify_rights (p_notify_port_destroyed q)) {#} c)
      (set_port p (q\<lparr>p_notify_port_destroyed := None, p_notify_port_destroyed_id := 0\<rparr>) h)"
    "mild c h (leave p (p_set q) (give (notify_rights (p_notify_port_destroyed q)) {#} c))
      (set_port p (q\<lparr>p_notify_port_destroyed := None, p_notify_port_destroyed_id := 0, p_set := None, p_waiters := []\<rparr>) h)"
proof -
  note pi = ipc_invD(2) [OF inv q(1)]
  have "port_inv (give (notify_rights (p_notify_port_destroyed q)) {#} c) (all_rights c h) (ipc_sets h) p
      (q\<lparr>p_notify_port_destroyed := None, p_notify_port_destroyed_id := 0\<rparr>)"
    using pi recv unfolding port_inv_def by auto
  then show "mild c h (give (notify_rights (p_notify_port_destroyed q)) {#} c)
      (set_port p (q\<lparr>p_notify_port_destroyed := None, p_notify_port_destroyed_id := 0\<rparr>) h)"
    by (intro mild_set_port [OF inv q]) (simp_all add: ctx_like_def port_holds_def tamer_def ac_simps)
  have "port_inv (leave p (p_set q) (give (notify_rights (p_notify_port_destroyed q)) {#} c)) (all_rights c h) (ipc_sets h) p
      (q\<lparr>p_notify_port_destroyed := None, p_notify_port_destroyed_id := 0, p_set := None, p_waiters := []\<rparr>)"
    using pi recv unfolding port_inv_def by auto
  then show "mild c h (leave p (p_set q) (give (notify_rights (p_notify_port_destroyed q)) {#} c))
      (set_port p (q\<lparr>p_notify_port_destroyed := None, p_notify_port_destroyed_id := 0, p_set := None, p_waiters := []\<rparr>) h)"
    by (intro mild_set_port [OF inv q]) (auto simp: ctx_like_def port_holds_def tamer_def ac_simps split: option.splits)
qed

lemma drop_notify:
  assumes d: "drops d N" and m: "mild c0 h (give {#(n, HSend)#} {#} c) h1" and pins: "pins c h1" and ret: "retired c h1"
    and sz: "2 * size (all_rights c0 h) < N" and St: "St \<subseteq># stable c h1"
  shows "outcome St c {#(n, HSend)#} h1 (d n MACH_PORT_RIGHT_SEND h1)"
proof -
  have "all_rights c h1 + {#(n, HSend)#} = all_rights c0 h" using mildD(2) [OF m] by simp
  then show ?thesis using dropsD [OF d right_ok_SEND(1), of n c h1 St] mildD(1) [OF m] pins ret sz St by simp
qed

lemma divert_alive:
  assumes inv: "ipc_inv (give ({#(p, HRecv)#} + R) {#} c) h" and q: "ipc_ports h p = Some q"
    and n: "p_notify_port_destroyed q = Some n" and alive: "\<not> p_dead q" and ret: "retired c h"
  obtains (post) rv h4 where
      "port_destroyed_divert d p h = kbind (d n MACH_PORT_RIGHT_SEND h4) (\<lambda>h5. Ret (rv = MACH_MSG_OK, h5))"
      "mild (give ({#(p, HRecv)#} + R) {#} c) h (give ({#(n, HSend)#} + (if rv = MACH_MSG_OK then R else {#(p, HRecv)#} + R)) {#} c) h4"
      "\<And>q4. ipc_ports h4 p = Some q4 \<Longrightarrow> p_notify_port_destroyed q4 = None"
      "\<not> listed h4 p"
    | (panic) "port_destroyed_divert d p h = Panic ''use of a freed port''" "\<exists>m. listed h m \<and> ipc_ports h m = None"
proof -
  let ?cr = "give ({#(p, HRecv)#} + R) {#} c"
  let ?q2 = "q\<lparr>p_notify_port_destroyed := None, p_notify_port_destroyed_id := 0, p_set := None, p_waiters := []\<rparr>"
  have "(p, HRecv) \<in># all_rights ?cr h" by simp
  then have F: "p \<notin> cx_freeing ?cr" using held_alive [OF inv] by metis
  have cnt: "0 < count (all_rights ?cr h) (p, HRecv)" by simp
  then have recv: "p_has_receive q" using port_invD(3) [OF ipc_invD(2) [OF inv q]] by (metis less_irrefl)
  define h1 where "h1 = set_port p ?q2 h"
  define cn where "cn = give {#(n, HSend)#} {#} ?cr"
  have m1: "mild ?cr h (leave p (p_set q) cn) h1"
    using divert_clear(2) [OF inv q F recv] by (simp add: n h1_def cn_def)
  have q1: "ipc_ports h1 p = Some ?q2" by (simp add: h1_def)
  have set1: "\<exists>t. ipc_sets h1 s = Some t" if "p_set q = Some s" for s
    using port_invD(11) [OF ipc_invD(2) [OF inv q] that] by (auto simp: h1_def)
  have left1: "p_set q' = None" if "p_set q \<noteq> None" "ipc_ports h1 p = Some q'" for q' using that q1 by auto
  consider (ret) h2 where "leave_set_opt p (p_set q) h1 = Ret h2" "ipc_inv cn h2" "all_rights cn h2 = all_rights cn h1" "quiet h1 h2"
      "ipc_ports h2 = ipc_ports h1" "ipc_ms h2 = ipc_ms h1"
    | (pan) "leave_set_opt p (p_set q) h1 = Panic ''use of a freed port''"
      "ipc_ports h1 p = None \<or> (\<exists>m. listed h1 m \<and> ipc_ports h1 m = None)"
    by (rule leave_set_opt_ok [OF mildD(1) [OF m1] set1 left1])
  then show ?thesis
  proof cases
    case pan
    have "\<exists>m. listed h m \<and> ipc_ports h m = None"
      using pan(2) q1 by (auto simp: h1_def listed_def split: if_splits)
    then show ?thesis using pan(1) q n alive
      by (intro panic) (simp_all add: port_destroyed_divert_def with_port_def h1_def)
  next
    case ret
    have m2: "mild ?cr h cn h2" using m1 ret quiet_trans [OF mildD(3) [OF m1] ret(4)] by (simp add: mild_def)
    define h3 where "h3 = wake_all (p_waiters q) h2"
    have m3: "mild ?cr h cn h3" unfolding h3_def by (rule mild_trans [OF m2 mild_wake(1) [OF ret(2)]])
    have cn: "cn = give {#(p, HRecv)#} {#} (give ({#(n, HSend)#} + R) {#} c)" by (simp add: cn_def ac_simps)
    have "(n, HSend) \<in># all_rights cn h3" by (simp add: cn_def)
    then obtain qn where qn: "ipc_ports h3 n = Some qn" "n \<notin> cx_freeing (give ({#(n, HSend)#} + R) {#} c)"
      using held_alive [OF mildD(1) [OF m3]] by (metis cn give_simps(7))
    obtain rv h4 where h4: "port_destroyed_post n p (p_notify_port_destroyed_id q) h3 = Ret (rv, h4)"
      "mild cn h3 (if rv = MACH_MSG_OK then give ({#(n, HSend)#} + R) {#} c else cn) h4"
      using port_destroyed_post_ok [OF mildD(1) [OF m3, unfolded cn] qn] unfolding cn [symmetric] by blast
    have run: "port_destroyed_divert d p h = kbind (d n MACH_PORT_RIGHT_SEND h4) (\<lambda>h5. Ret (rv = MACH_MSG_OK, h5))"
      using q n alive ret(1) h4(1) by (simp add: port_destroyed_divert_def with_port_def h1_def [symmetric] h3_def [symmetric])
    have m4: "mild ?cr h (if rv = MACH_MSG_OK then give ({#(n, HSend)#} + R) {#} c else cn) h4" by (rule mild_trans [OF m3 h4(2)])
    have ctx: "(if rv = MACH_MSG_OK then give ({#(n, HSend)#} + R) {#} c else cn) =
        give ({#(n, HSend)#} + (if rv = MACH_MSG_OK then R else {#(p, HRecv)#} + R)) {#} c"
      by (simp add: cn_def ac_simps)
    have q3: "ipc_ports h3 p = Some ?q2" using ret(5) q1 by (simp add: h3_def)
    have "\<not> listed h3 p"
    proof
      assume "listed h3 p"
      then obtain u v where uv: "ipc_sets h3 u = Some v" "p \<in> set (pset_members v)" by (auto simp: listed_def)
      have "(p, u) \<in> cx_leaving cn" using pset_member [OF conjunct2 [OF ipc_invD(4) [OF mildD(1) [OF m3] uv(1)]] uv(2)] q3 by auto
      then show False using assms(5) q recv unfolding retired_def by (auto simp: cn_def)
    qed
    then have unl: "\<not> listed h4 p" using mildD(3) [OF h4(2)] by (auto simp: quiet_def)
    show ?thesis
    proof (rule post [OF run m4 [unfolded ctx] _ unl])
      show "p_notify_port_destroyed q4 = None" if "ipc_ports h4 p = Some q4" for q4
        using quiet_tamer [OF mildD(3) [OF h4(2)] q3 that] by (simp add: tamer_def)
    qed
  qed
qed

lemma outcome_panic: "outcome St c E h (Panic msg) \<longleftrightarrow> msg = ''use of a freed port'' \<and> \<not> calm St (all_rights c h + E) h"
  by (simp add: outcome_def)

lemma outcome_inv: "outcome St c E h (Ret h') \<Longrightarrow> ipc_inv c h' \<and> quiet h h'"
  by (simp add: outcome_def)

lemma divert_stay:
  assumes d: "drops d N" and m: "mild cr h (give {#(n, HSend)#} {#} cr) h1" and p: "(p, HRecv) \<in># cx_rights cr"
    and pins: "pins cr h" and ret: "retired cr h" and sz: "2 * size (all_rights cr h) < N" and St: "St \<subseteq># stable cr h"
    and none: "\<And>q1. ipc_ports h1 p = Some q1 \<Longrightarrow> p_notify_port_destroyed q1 = None"
  shows "(\<exists>h' q'. d n MACH_PORT_RIGHT_SEND h1 = Ret h' \<and> outcome St cr {#} h (Ret h') \<and>
      ipc_ports h' p = Some q' \<and> p_notify_port_destroyed q' = None) \<or>
    d n MACH_PORT_RIGHT_SEND h1 = Panic ''use of a freed port'' \<and> \<not> calm St (all_rights cr h) h"
proof -
  note q1 = mildD(3) [OF m]
  have o: "outcome St cr {#(n, HSend)#} h1 (d n MACH_PORT_RIGHT_SEND h1)"
    using quiet_pins [OF q1 pins] quiet_retired [OF q1 ret] quiet_le [OF q1 St] sz by (intro drop_notify [OF d m]) simp_all
  have o': "outcome St cr {#} h (d n MACH_PORT_RIGHT_SEND h1)"
    by (rule outcome_take [OF _ o, of "{#}" "{#}" h "{#}"]) (use m in simp_all)
  show ?thesis
  proof (cases "d n MACH_PORT_RIGHT_SEND h1")
    case (Panic msg)
    then show ?thesis using o' by (simp add: outcome_panic)
  next
    case (Ret h')
    have h': "ipc_inv cr h'" "quiet h1 h'" using o unfolding Ret by (simp_all add: outcome_def)
    have "(p, HRecv) \<in># all_rights cr h'" "(p, HRecv) \<in># all_rights (give {#(n, HSend)#} {#} cr) h1" using p by (simp_all add: all_rights_def)
    then obtain q' q1 where q: "ipc_ports h' p = Some q'" "ipc_ports h1 p = Some q1"
      using held_alive [OF h'(1)] held_alive [OF mildD(1) [OF m]] by metis
    then have "p_notify_port_destroyed q' = None" using quiet_tamer [OF h'(2) q(2,1)] none by (simp add: tamer_def)
    then show ?thesis using Ret o' q(1) by simp
  qed
qed

lemma divert_ok:
  assumes d: "drops d N" and inv: "ipc_inv (give ({#(p, HRecv)#} + R) {#} c) h" and pins: "pins c h" and ret: "retired c h"
    and sz: "2 * size (all_rights c h + ({#(p, HRecv)#} + R)) < N" and St: "St \<subseteq># stable (give R {#} c) h"
  obtains (stay) h' q' where "port_destroyed_divert d p h = Ret (False, h')" "outcome St (give ({#(p, HRecv)#} + R) {#} c) {#} h (Ret h')"
      "ipc_ports h' p = Some q'" "p_notify_port_destroyed q' = None"
    | (gone) h' where "port_destroyed_divert d p h = Ret (True, h')" "outcome St (give R {#} c) {#(p, HRecv)#} h (Ret h')"
      "\<not> listed h' p"
    | (panic) "port_destroyed_divert d p h = Panic ''use of a freed port''" "\<not> calm St (all_rights c h + ({#(p, HRecv)#} + R)) h"
proof -
  let ?cr = "give ({#(p, HRecv)#} + R) {#} c"
  have "(p, HRecv) \<in># all_rights ?cr h" by simp
  then obtain q where q: "ipc_ports h p = Some q" and F: "p \<notin> cx_freeing ?cr" using held_alive [OF inv] by metis
  have "0 < count (all_rights ?cr h) (p, HRecv)" by simp
  then have recv: "p_has_receive q" using port_invD(3) [OF ipc_invD(2) [OF inv q]] by (metis less_irrefl)
  have Scr: "St \<subseteq># stable ?cr h" using St_give [OF St, of "{#(p, HRecv)#}" "{#}"] by (simp add: ac_simps)
  have stays: thesis if m: "mild ?cr h (give {#(n, HSend)#} {#} ?cr) h1" and no: "\<forall>q1. ipc_ports h1 p = Some q1 \<longrightarrow> p_notify_port_destroyed q1 = None"
    and run: "port_destroyed_divert d p h = kbind (d n MACH_PORT_RIGHT_SEND h1) (\<lambda>h2. Ret (b, h2))" "\<not> b" for n h1 b
  proof -
    consider h' q' where "d n MACH_PORT_RIGHT_SEND h1 = Ret h'" "outcome St ?cr {#} h (Ret h')" "ipc_ports h' p = Some q'" "p_notify_port_destroyed q' = None"
      | "d n MACH_PORT_RIGHT_SEND h1 = Panic ''use of a freed port''" "\<not> calm St (all_rights ?cr h) h"
      using divert_stay [OF d m _ pins_give [OF pins] _ _ Scr, of p] ret sz no by auto
    then show thesis
    proof cases
      case 1
      then show ?thesis using run by (intro stay [OF _ 1(2-4)]) simp
    next
      case 2
      then show ?thesis using run by (intro panic) simp_all
    qed
  qed
  show ?thesis
  proof (cases "p_notify_port_destroyed q")
    case None
    let ?h = "set_port p (q\<lparr>p_notify_port_destroyed := None, p_notify_port_destroyed_id := 0\<rparr>) h"
    have "mild ?cr h ?cr ?h" using divert_clear(1) [OF inv q F recv] None by simp
    then have "outcome St ?cr {#} h (Ret ?h)" by (rule outcome_of_mild)
    then show ?thesis by (rule stay [of ?h "q\<lparr>p_notify_port_destroyed := None, p_notify_port_destroyed_id := 0\<rparr>", rotated]) (simp_all add: port_destroyed_divert_def with_port_def q None)
  next
    case (Some n)
    show ?thesis
    proof (cases "p_dead q")
      case True
      let ?h = "set_port p (q\<lparr>p_notify_port_destroyed := None, p_notify_port_destroyed_id := 0\<rparr>) h"
      have m: "mild ?cr h (give {#(n, HSend)#} {#} ?cr) ?h" using divert_clear(1) [OF inv q F recv] Some by simp
      have run: "port_destroyed_divert d p h = kbind (d n MACH_PORT_RIGHT_SEND ?h) (\<lambda>h1. Ret (False, h1))"
        using q Some True by (simp add: port_destroyed_divert_def with_port_def)
      show ?thesis by (rule stays [OF m _ run]) simp_all
    next
      case False
      show ?thesis
      proof (cases rule: divert_alive [OF inv q Some False ret, where d = d, case_names post panic])
        case (post rv h4)
        show ?thesis
        proof (cases "rv = MACH_MSG_OK")
          case nok: False
          have m: "mild ?cr h (give {#(n, HSend)#} {#} ?cr) h4" using post(2) nok by (simp add: ac_simps)
          show ?thesis by (rule stays [OF m _ post(1) nok]) (use post(3) in blast)
        next
          case ok: True
          have m: "mild (give {#(p, HRecv)#} {#} (give R {#} c)) h (give {#(n, HSend)#} {#} (give R {#} c)) h4"
            using post(2) ok by (simp add: ac_simps)
          note q4 = mildD(3) [OF m]
          have "St \<subseteq># stable (give R {#} c) h4" using quiet_le [OF q4 St] by simp
          then have o: "outcome St (give R {#} c) {#(n, HSend)#} h4 (d n MACH_PORT_RIGHT_SEND h4)"
            using quiet_pins [OF q4 pins] quiet_retired [OF q4 ret] sz by (intro drop_notify [OF d m]) (simp_all add: ac_simps)
          have o': "outcome St (give R {#} c) {#(p, HRecv)#} h (d n MACH_PORT_RIGHT_SEND h4)" by (rule outcome_take [OF m o]) simp
          show ?thesis
          proof (cases "d n MACH_PORT_RIGHT_SEND h4")
            case (Ret h')
            have "quiet h4 h'" using o unfolding Ret by (simp add: outcome_def)
            then have "\<not> listed h' p" using post(4) by (auto simp: quiet_def)
            then show ?thesis using Ret o' ok post(1) by (intro gone) simp_all
          next
            case (Panic msg)
            then show ?thesis using o' post(1) by (intro panic) (simp_all add: outcome_panic ac_simps)
          qed
        qed
      next
        case panic
        then show ?thesis using that(3) by (auto simp: calm_def)
      qed
    qed
  qed
qed

section \<open>Dropping a right\<close>

lemma without_receive:
  assumes r: "rights_ok r" and R: "has r MACH_PORT_RIGHT_RECEIVE"
  shows "rights_held p r = {#(p, HRecv)#} + rights_held p (r AND NOT MACH_PORT_RIGHT_RECEIVE)"
    "\<not> has (r AND NOT MACH_PORT_RIGHT_RECEIVE) MACH_PORT_RIGHT_RECEIVE"
    "r AND NOT MACH_PORT_RIGHT_RECEIVE \<noteq> 0 \<Longrightarrow> rights_ok (r AND NOT MACH_PORT_RIGHT_RECEIVE)"
proof -
  have s: "NOT MACH_PORT_RIGHT_RECEIVE AND MACH_PORT_RIGHT_SEND = MACH_PORT_RIGHT_SEND"
    "NOT MACH_PORT_RIGHT_RECEIVE AND MACH_PORT_RIGHT_SEND_ONCE = MACH_PORT_RIGHT_SEND_ONCE"
    by (simp_all add: MACH_PORT_RIGHT_RECEIVE_def MACH_PORT_RIGHT_SEND_def MACH_PORT_RIGHT_SEND_ONCE_def)
  then have h: "has (r AND NOT MACH_PORT_RIGHT_RECEIVE) MACH_PORT_RIGHT_SEND = has r MACH_PORT_RIGHT_SEND"
    "has (r AND NOT MACH_PORT_RIGHT_RECEIVE) MACH_PORT_RIGHT_SEND_ONCE = has r MACH_PORT_RIGHT_SEND_ONCE"
    by (simp_all add: has_def and.assoc)
  show n: "\<not> has (r AND NOT MACH_PORT_RIGHT_RECEIVE) MACH_PORT_RIGHT_RECEIVE" by (simp add: has_def and.assoc)
  show "rights_held p r = {#(p, HRecv)#} + rights_held p (r AND NOT MACH_PORT_RIGHT_RECEIVE)"
    using h n R by (simp add: rights_held_def)
  show "rights_ok (r AND NOT MACH_PORT_RIGHT_RECEIVE)" if "r AND NOT MACH_PORT_RIGHT_RECEIVE \<noteq> 0"
  proof -
    let ?m = "NOT (MACH_PORT_RIGHT_RECEIVE OR MACH_PORT_RIGHT_SEND OR MACH_PORT_RIGHT_SEND_ONCE)"
    have "(r AND NOT MACH_PORT_RIGHT_RECEIVE) AND ?m = (r AND ?m) AND NOT MACH_PORT_RIGHT_RECEIVE" by (simp only: ac_simps)
    then show ?thesis using r that by (simp add: rights_ok_def)
  qed
qed

lemma right_alive:
  assumes r: "rights_ok r" and inv: "ipc_inv (give (rights_held p r) P c) h"
  obtains q where "ipc_ports h p = Some q" "p \<notin> cx_zero c" "p \<notin> cx_freeing c"
proof -
  obtain k where "(p, k) \<in># rights_held p r" using rights_held_any [OF r] by blast
  then have "(p, k) \<in># all_rights (give (rights_held p r) P c) h" by simp
  then show ?thesis using held_alive [OF inv] that by (metis give_simps(5,7))
qed

lemma rights_held_other: "m \<noteq> p \<Longrightarrow> (m, k) \<notin># rights_held p r"
  by (auto simp: rights_held_def)

lemma outcome_if_trans:
  assumes "quiet h h'" "all_rights c h' \<subseteq># all_rights c h + E" "size (all_rights c h') \<le> size (all_rights c h)"
    and "outcome_if K St c E' h' r"
  shows "outcome_if K St c (E + E') h r"
proof (cases r)
  case (Ret h'')
  have "all_rights c h'' \<subseteq># all_rights c h' + E'" using assms(4) Ret by (simp add: outcome_if_def)
  then have "all_rights c h'' \<subseteq># all_rights c h + E + E'"
    using assms(2) by (meson subset_mset.add_right_mono subset_mset.order_trans)
  then show ?thesis using assms Ret quiet_trans [OF assms(1)] by (auto simp: outcome_if_def ac_simps)
qed (use assms(4) in \<open>simp add: outcome_if_def\<close>)

text \<open>While the receive right is passed on, the caller still holds the other rights.\<close>

lemma calm_rest:
  assumes calm: "calm St A h" and r: "rights_ok r" and R: "has r MACH_PORT_RIGHT_RECEIVE"
  shows "calm (St + rights_held p (r AND NOT MACH_PORT_RIGHT_RECEIVE)) (A + rights_held p r) h"
  unfolding calm_def
proof (intro allI impI)
  fix m assume l: "listed h m"
  let ?R = "rights_held p (r AND NOT MACH_PORT_RIGHT_RECEIVE)"
  have m: "ipc_ports h m \<noteq> None" "(\<exists>k. (m, k) \<in># St) \<or> (\<forall>k. k \<noteq> HRecv \<longrightarrow> (m, k) \<notin># A)"
    using calm l by (auto simp: calm_def)
  have "(\<exists>k. (m, k) \<in># ?R) \<or> (\<forall>k. k \<noteq> HRecv \<longrightarrow> (m, k) \<notin># rights_held p r)"
    unfolding without_receive(1) [OF r R] by auto
  then show "ipc_ports h m \<noteq> None \<and> ((\<exists>k. (m, k) \<in># St + ?R) \<or> (\<forall>k. k \<noteq> HRecv \<longrightarrow> (m, k) \<notin># A + rights_held p r))"
    using m by auto
qed

lemma calm_back:
  assumes "calm (St + rights_held p r) (A' + rights_held p r') h'" "\<And>m. listed h' m \<Longrightarrow> m = p \<Longrightarrow> listed h m \<and> A' \<subseteq># A" "calm St A h"
  shows "calm St A' h'"
  unfolding calm_def
proof (intro allI impI)
  fix m assume l: "listed h' m"
  have m: "ipc_ports h' m \<noteq> None" "(\<exists>k. (m, k) \<in># St + rights_held p r) \<or> (\<forall>k. k \<noteq> HRecv \<longrightarrow> (m, k) \<notin># A' + rights_held p r')"
    using assms(1) l by (auto simp: calm_def)
  show "ipc_ports h' m \<noteq> None \<and> ((\<exists>k. (m, k) \<in># St) \<or> (\<forall>k. k \<noteq> HRecv \<longrightarrow> (m, k) \<notin># A'))"
  proof (cases "m = p")
    case True
    have "listed h m" "A' \<subseteq># A" using assms(2) [OF l True] by auto
    then have "(\<exists>k. (m, k) \<in># St) \<or> (\<forall>k. k \<noteq> HRecv \<longrightarrow> (m, k) \<notin># A')"
      using assms(3) by (meson calm_def mset_subset_eqD)
    then show ?thesis using m(1) by blast
  next
    case False
    then show ?thesis using m rights_held_other by auto
  qed
qed

lemma port_deref_with_if:
  assumes d: "drops d N" and r: "rights_ok r" and inv: "ipc_inv (give (rights_held p r) {#} c) h" and pins: "pins c h" and ret: "retired c h"
    and sz: "2 * size (all_rights c h + rights_held p r) + (if has r MACH_PORT_RIGHT_RECEIVE then 1 else 0) < Suc N"
    and St: "St \<subseteq># stable c h" and calm: "K \<Longrightarrow> calm St (all_rights c h) h"
    and only: "K \<Longrightarrow> listed h p \<Longrightarrow> \<forall>k. (p, k) \<notin># St \<Longrightarrow> has r MACH_PORT_RIGHT_RECEIVE"
  shows "outcome_if K St c (rights_held p r) h (port_deref_with d p r h)"
proof -
  have core: "outcome_if K St c (rights_held p r') h' (with_port p h' (\<lambda>q. kbind (deref_locked r' q) (\<lambda>(q', w). deref_unlocked d p w (set_port p q' h'))))"
    if a: "rights_ok r'" "ipc_inv (give (rights_held p r') {#} c) h'" "quiet h h'" "2 * size (all_rights c h' + rights_held p r') \<le> N"
      "has r' MACH_PORT_RIGHT_RECEIVE \<longrightarrow> (\<forall>q. ipc_ports h' p = Some q \<longrightarrow> p_notify_port_destroyed q = None)"
      "K \<longrightarrow> calm St (all_rights c h') h'" "K \<longrightarrow> listed h' p \<longrightarrow> (\<exists>k. (p, k) \<in># St) \<or> has r' MACH_PORT_RIGHT_RECEIVE" for r' h'
  proof -
    obtain q where q: "ipc_ports h' p = Some q" by (rule right_alive [OF a(1,2)])
    show ?thesis unfolding with_port_def q option.case
      by (rule deref_core_ok [OF d a(2,1) q _ quiet_pins [OF a(3) pins] quiet_retired [OF a(3) ret] a(4) quiet_le [OF a(3) St]])
        (use a(5-7) q in \<open>auto simp: calm_def\<close>)
  qed
  show ?thesis
  proof (cases "has r MACH_PORT_RIGHT_RECEIVE")
    case False
    then show ?thesis using core [OF r inv quiet_refl] sz calm only by (auto simp: port_deref_with_def)
  next
    case True
    note w = without_receive [OF r True]
    let ?r = "r AND NOT MACH_PORT_RIGHT_RECEIVE" and ?A = "all_rights c h"
    let ?St = "St + rights_held p ?r"
    have sz': "2 * size (?A + ({#(p, HRecv)#} + rights_held p ?r)) < N" using sz True unfolding w(1) by simp
    have St': "?St \<subseteq># stable (give (rights_held p ?r) {#} c) h" using St by simp
    have calm': "calm ?St (?A + rights_held p r) h" if K by (rule calm_rest [OF calm [OF that] r True])
    show ?thesis
    proof (cases rule: divert_ok [OF d inv [unfolded w(1)] pins ret sz' St', case_names stay gone panic])
      case (stay h' q')
      have o1: "outcome ?St (give (rights_held p r) {#} c) {#} h (Ret h')" using stay(2) by (simp add: w(1))
      then have i: "ipc_inv (give (rights_held p r) {#} c) h'" "quiet h h'" and A': "all_rights c h' \<subseteq># ?A" by (simp_all add: outcome_def)
      have sz1: "size (all_rights c h') \<le> size ?A" using A' by (rule size_mset_mono)
      have calm1: "calm St (all_rights c h') h'" if K
      proof (rule calm_back [OF _ _ calm [OF that]])
        show "calm ?St (all_rights c h' + rights_held p r) h'" using o1 calm' [OF that] by (simp add: outcome_def)
      qed (use i(2) A' in \<open>auto simp: quiet_def\<close>)
      have "2 * size (all_rights c h' + rights_held p r) \<le> N" using sz1 sz by simp
      then have "outcome_if K St c (rights_held p r) h' (with_port p h' (\<lambda>q. kbind (deref_locked r q) (\<lambda>(q', w). deref_unlocked d p w (set_port p q' h'))))"
        using stay(3,4) calm1 True by (intro core [OF r i]) auto
      then show ?thesis using outcome_if_trans [OF i(2) _ sz1, of "{#}"] A' True stay(1) by (simp add: port_deref_with_def)
    next
      case (gone h')
      then have i: "ipc_inv (give (rights_held p ?r) {#} c) h'" "quiet h h'" and A': "all_rights c h' \<subseteq># ?A + {#(p, HRecv)#}"
        and sz1: "size (all_rights c h') \<le> size ?A" by (simp_all add: outcome_def)
      have calm1: "calm St (all_rights c h') h'" if K
      proof (rule calm_back [OF _ _ calm [OF that]])
        show "calm ?St (all_rights c h' + rights_held p ?r) h'" using gone(2) calm' [OF that] by (simp add: outcome_def w(1))
      qed (use gone(3) in auto)
      have run: "port_deref_with d p r h = (if ?r = 0 then Ret h' else
          with_port p h' (\<lambda>q. kbind (deref_locked ?r q) (\<lambda>(q', w). deref_unlocked d p w (set_port p q' h'))))"
        using True gone(1) by (simp add: port_deref_with_def)
      have o2: "outcome_if K St c (rights_held p ?r) h' (port_deref_with d p r h)"
      proof (cases "?r = 0")
        case zero: True
        then have "rights_held p ?r = {#}" by (simp add: rights_held_def has_def)
        then show ?thesis using i calm1 zero run by (simp add: outcome_if_def)
      next
        case nz: False
        have "2 * size (all_rights c h' + rights_held p ?r) \<le> N" using sz' sz1 by simp
        then show ?thesis using nz run w(2) gone(3) calm1 by (simp add: core [OF w(3) [OF nz] i])
      qed
      show ?thesis using outcome_if_trans [OF i(2) A' sz1 o2] by (simp add: w(1))
    next
      case panic
      then show ?thesis using True calm' by (auto simp: port_deref_with_def outcome_if_def w(1))
    qed
  qed
qed

lemma port_deref_with_ok:
  assumes d: "drops d N"
  shows "drops (port_deref_with d) (Suc N)"
  unfolding drops_def outcome_outcome_if
proof (intro allI impI)
  fix p r c h St
  assume a: "rights_ok r" "ipc_inv (give (rights_held p r) {#} c) h" "pins c h" "retired c h"
    "2 * size (all_rights c h + rights_held p r) + (if has r MACH_PORT_RIGHT_RECEIVE then 1 else 0) < Suc N" "St \<subseteq># stable c h"
  show "outcome_if (calm St (all_rights c h + rights_held p r) h) St c (rights_held p r) h (port_deref_with d p r h)"
  proof (rule port_deref_with_if [OF d a])
    assume k: "calm St (all_rights c h + rights_held p r) h"
    then show "calm St (all_rights c h) h" by (rule calm_mono) simp_all
    show "has r MACH_PORT_RIGHT_RECEIVE" if "listed h p" "\<forall>k. (p, k) \<notin># St"
      using that(2) by (intro calm_only_receive(1) [OF k a(1) that(1)]) simp
  qed
qed

lemma drops_n: "drops (port_deref_n n) n"
proof (induct n)
  case 0
  then show ?case by (simp add: drops_def)
next
  case (Suc n)
  have "port_deref_n (Suc n) = port_deref_with (port_deref_n n)" by (intro ext) simp
  then show ?case using port_deref_with_ok [OF Suc] by simp
qed

lemma UNIV_hold_kind: "(UNIV :: hold_kind set) = {HSend, HOnce, HRecv, HHold}"
  by (auto intro: hold_kind.exhaust)

lemma ipc_refs_eq:
  assumes inv: "ipc_inv c h"
  shows "ipc_refs h = size (all_rights c h)"
proof -
  let ?A = "all_rights c h" and ?n = "next_port_id h"
  have sub: "set_mset ?A \<subseteq> {..<?n} \<times> UNIV" using ipc_invD(1,3) [OF inv] by fastforce
  have fin: "finite ({..<?n} \<times> (UNIV :: hold_kind set))" by (simp add: UNIV_hold_kind)
  have "size ?A = (\<Sum>x \<in> {..<?n} \<times> UNIV. count ?A x)"
    unfolding size_multiset_overloaded_eq by (rule sum.mono_neutral_left [OF fin sub]) (simp add: count_eq_zero_iff)
  also have "\<dots> = (\<Sum>i<?n. \<Sum>k\<in>UNIV. count ?A (i, k))" by (simp add: sum.cartesian_product)
  also have "\<dots> = (\<Sum>i<?n. case ipc_ports h i of None \<Rightarrow> 0 | Some q \<Rightarrow> p_refs q)"
  proof (rule sum.cong)
    fix i assume "i \<in> {..<?n}"
    show "(\<Sum>k\<in>UNIV. count ?A (i, k)) = (case ipc_ports h i of None \<Rightarrow> 0 | Some q \<Rightarrow> p_refs q)"
    proof (cases "ipc_ports h i")
      case None
      then have "count ?A (i, k) = 0" for k using ipc_invD(3) [OF inv, of "(i, k)"] by (auto simp: count_eq_zero_iff)
      then show ?thesis using None by simp
    next
      case (Some q)
      then show ?thesis using port_invD(4) [OF ipc_invD(2) [OF inv Some]] by (simp add: UNIV_hold_kind)
    qed
  qed simp
  finally show ?thesis unfolding ipc_refs_def by (simp add: interv_sum_list_conv_sum_set_nat atLeast0LessThan)
qed

text \<open>
  What a caller has to know of the member lists: every port on one is held by a name or by the caller, or its receive
  right is the only right to it; and if the port is on one itself, it still is held so, or its receive right goes.
\<close>

definition drop_safe :: "ipc_ctx \<Rightarrow> nat \<Rightarrow> 8 word \<Rightarrow> ipc \<Rightarrow> bool" where
  "drop_safe c p r h \<longleftrightarrow> calm (stable c h) (all_rights c h) h \<and>
     (listed h p \<longrightarrow> (\<exists>k. (p, k) \<in># stable c h) \<or> has r MACH_PORT_RIGHT_RECEIVE)"

lemma port_deref_ok:
  assumes r: "rights_ok r" and inv: "ipc_inv (give (rights_held p r) {#} c) h" and pins: "pins c h" and ret: "retired c h"
  shows "outcome_if (drop_safe c p r h) (stable c h) c (rights_held p r) h (port_deref p r h)"
proof -
  have "port_deref p r h = port_deref_with (port_deref_n (2 * ipc_refs h + 1)) p r h" by (simp add: port_deref_def)
  moreover have "outcome_if (drop_safe c p r h) (stable c h) c (rights_held p r) h (port_deref_with (port_deref_n (2 * ipc_refs h + 1)) p r h)"
    using ipc_refs_eq [OF inv] by (intro port_deref_with_if [OF drops_n r inv pins ret]) (auto simp: drop_safe_def)
  ultimately show ?thesis by simp
qed

lemma drops_port_deref: "drops port_deref N"
  unfolding drops_def
proof (intro allI impI)
  fix p r c h St
  assume a: "rights_ok r" "ipc_inv (give (rights_held p r) {#} c) h" "pins c h" "retired c h" "St \<subseteq># stable c h"
  show "outcome St c (rights_held p r) h (port_deref p r h)"
    unfolding port_deref_def using ipc_refs_eq [OF a(2)] by (intro dropsD [OF drops_n a(1-4) _ a(5)]) simp
qed

end
