(* ===== verification/Port_Life.thy ===== *)
theory Port_Life
  imports Port_Drop Vm_Fault
begin

text \<open>
  Creating ports and sets, taking and dropping references, and the properties of the object layer: dropping a
  right in general, and the state in which \<open>port_deref\<close> frees a port that is still on the member list of a set.
\<close>

unbundle bit_operations_syntax

section \<open>Creating ports and taking references\<close>

definition unzero :: "nat \<Rightarrow> ipc_ctx \<Rightarrow> ipc_ctx" where
  "unzero p c = c\<lparr>cx_zero := cx_zero c - {p}\<rparr>"

lemma unzero_simps [simp]:
  "cx_rights (unzero p c) = cx_rights c" "cx_pages (unzero p c) = cx_pages c" "cx_slots (unzero p c) = cx_slots c"
  "cx_sets (unzero p c) = cx_sets c" "cx_zero (unzero p c) = cx_zero c - {p}" "cx_zero_sets (unzero p c) = cx_zero_sets c"
  "cx_freeing (unzero p c) = cx_freeing c" "cx_dying (unzero p c) = cx_dying c" "cx_leaving (unzero p c) = cx_leaving c"
  "cx_spaces (unzero p c) = cx_spaces c" "cx_frames (unzero p c) = cx_frames c" "all_rights (unzero p c) h = all_rights c h"
  by (simp_all add: unzero_def all_rights_def)

lemma unzero_zero_ref [simp]: "p \<notin> cx_zero c \<Longrightarrow> unzero p (zero_ref p c) = c" "p \<notin> cx_zero c \<Longrightarrow> unzero p c = c"
  by (simp_all add: unzero_def zero_ref_def)

lemma inv_new_port:
  assumes inv: "ipc_inv c h" and i: "i = next_port_id h" and slot: "i \<notin># cx_slots c"
    and h': "ipc_ports h' = (ipc_ports h)(i \<mapsto> new_port i)" "ipc_sets h' = ipc_sets h" "ipc_spaces h' = ipc_spaces h"
      "next_port_id h' = Suc i" "next_space_id h' = next_space_id h" "ipc_ms h' = ipc_ms h"
  shows "ipc_inv (zero_ref i c) h'" "all_rights c h' = all_rights c h" "ipc_ports h i = None" "i \<notin> cx_zero c" "i \<notin> cx_freeing c"
proof -
  show new: "ipc_ports h i = None" using ipc_invD(1) [OF inv, of i] i by fastforce
  then show z: "i \<notin> cx_zero c" using ipc_invD(8) [OF inv, of i] by auto
  then show F: "i \<notin> cx_freeing c" using ipc_invD(9) [OF inv] by auto
  have "port_holds (new_port i) = {#}" "queue_pages (p_queue (new_port i)) = {#}"
    by (simp_all add: new_port_def port_holds_def)
  then have o: "over (Suc i) ((ipc_ports h)(i \<mapsto> new_port i)) (holds_unless (cx_freeing c)) = over i (ipc_ports h) (holds_unless (cx_freeing c))"
      "over (Suc i) ((ipc_ports h)(i \<mapsto> new_port i)) (pages_unless (cx_freeing c)) = over i (ipc_ports h) (pages_unless (cx_freeing c))"
    by (simp_all add: over_new holds_unless_def pages_unless_def)
  show all: "all_rights c h' = all_rights c h" using o(1) by (simp add: all_rights_def held_def h' i)
  have none: "(i, k) \<notin># all_rights c h" for k using ipc_invD(3) [OF inv, of "(i, k)"] new by auto
  have ports: "\<forall>p q. ipc_ports h' p = Some q \<longrightarrow> p < next_port_id h' \<and> port_inv (zero_ref i c) (all_rights c h) (ipc_sets h') p q"
  proof (intro allI impI)
    fix p q assume p: "ipc_ports h' p = Some q"
    show "p < next_port_id h' \<and> port_inv (zero_ref i c) (all_rights c h) (ipc_sets h') p q"
    proof (cases "p = i")
      case True
      have "count (cx_slots c) i = 0" using slot by (simp add: not_in_iff)
      then show ?thesis using p True none by (auto simp: h' port_inv_def new_port_def count_eq_zero_iff)
    next
      case False
      then have p': "ipc_ports h p = Some q" using p h'(1) by simp
      show ?thesis
        using ipc_invD(1) [OF inv p'] port_inv_cong [OF ipc_invD(2) [OF inv p']] False i by (auto simp: h')
    qed
  qed
  have sets: "\<forall>s t. ipc_sets h' s = Some t \<longrightarrow> s < next_port_id h' \<and> pset_inv (zero_ref i c) (set_names h' + cx_sets c) (ipc_ports h') s t"
  proof (intro allI impI)
    fix s t assume "ipc_sets h' s = Some t"
    then have st: "s < next_port_id h" "pset_inv c (set_names h + cx_sets c) (ipc_ports h) s t"
      using ipc_invD(4) [OF inv] h'(2) by auto
    have "pset_inv (zero_ref i c) (set_names h' + cx_sets c) (ipc_ports h') s t"
      by (rule pset_inv_cong [OF st(2)]) (use new in \<open>auto simp: set_names_def h'\<close>)
    then show "s < next_port_id h' \<and> pset_inv (zero_ref i c) (set_names h' + cx_sets c) (ipc_ports h') s t" using st(1) i h' by simp
  qed
  have rest: "set_names h' = set_names h" "frames_ok (zero_ref i c) = frames_ok c" "pages_queued (cx_freeing c) h' = pages_queued (cx_freeing c) h"
    using o(2) by (simp_all add: set_names_def frames_ok_def fun_eq_iff pages_queued_def h' i)
  show "ipc_inv (zero_ref i c) h'"
    unfolding ipc_inv_def using ports sets ipc_invD(3,5-9) [OF inv] by (auto simp: rest all h')
qed


lemma port_create_ok:
  assumes inv: "ipc_inv c h" and id: "next_port_id h < 2 ^ 64 - 1" and slot: "next_port_id h \<notin># cx_slots c"
  obtains (ok) h' where "port_create h = (Some (next_port_id h), h')" "ipc_inv (zero_ref (next_port_id h) c) h'"
      "all_rights c h' = all_rights c h" "ipc_ports h' = (ipc_ports h)(next_port_id h \<mapsto> new_port (next_port_id h))"
      "ipc_spaces h' = ipc_spaces h" "ipc_sets h' = ipc_sets h" "next_port_id h' = Suc (next_port_id h)" "ipc_ports h (next_port_id h) = None"
    | (nomem) h' where "port_create h = (None, h')" "ipc_inv c h'" "h' = h\<lparr>ipc_allocs := ipc_allocs h + 1\<rparr>"
proof (cases "ipc_kmem h (ipc_allocs h)")
  case True
  let ?i = "next_port_id h"
  let ?h = "set_port ?i (new_port ?i) (h\<lparr>ipc_allocs := ipc_allocs h + 1, next_port_id := add64 ?i 1\<rparr>)"
  have run: "port_create h = (Some ?i, ?h)" using True by (simp add: port_create_def ipc_alloc_def Let_def)
  have "add64 ?i 1 = Suc ?i" using id by (simp add: add64_def)
  then have n: "ipc_inv (zero_ref ?i c) ?h" "all_rights c ?h = all_rights c h" "ipc_ports h ?i = None" "next_port_id ?h = Suc ?i"
    using inv_new_port [OF inv refl slot, of ?h] by simp_all
  show ?thesis by (rule ok [OF run n(1,2)]) (use n in simp_all)
next
  case False
  then show ?thesis using inv by (intro nomem) (simp_all add: port_create_def ipc_alloc_def)
qed

lemma port_ref_ok:
  assumes inv: "ipc_inv c h" and r: "rights_ok r" and q: "ipc_ports h p = Some q" and F: "p \<notin> cx_freeing c"
    and one: "has r MACH_PORT_RIGHT_RECEIVE \<Longrightarrow> \<not> p_has_receive q" and lim: "p_refs q + 3 < 2 ^ 32"
  obtains h' q' where "port_ref p r h = Ret h'" "ipc_inv (give (rights_held p r) {#} (unzero p c)) h'"
    "all_rights c h' = all_rights c h" "h' = set_port p q' h"
    "p_queue q' = p_queue q" "p_set q' = p_set q" "p_has_receive q' \<longleftrightarrow> p_has_receive q \<or> has r MACH_PORT_RIGHT_RECEIVE"
    "p_send_waiters q' = p_send_waiters q" "p_qresv q' = p_qresv q" "p_dead q' = p_dead q"
proof -
  let ?S = "has r MACH_PORT_RIGHT_SEND" and ?O = "has r MACH_PORT_RIGHT_SEND_ONCE" and ?R = "has r MACH_PORT_RIGHT_RECEIVE"
  let ?A = "all_rights c h" and ?c = "give (rights_held p r) {#} (unzero p c)"
  note pi = ipc_invD(2) [OF inv q] and D = port_invD [OF ipc_invD(2) [OF inv q]]
  define q' where "q' = q\<lparr>p_send_count := p_send_count q + of_bool ?S, p_send_once_count := p_send_once_count q + of_bool ?O,
     p_refs := p_refs q + of_bool ?S + of_bool ?O + of_bool ?R, p_has_receive := p_has_receive q \<or> ?R\<rparr>"
  have lt: "p_send_count q < 2 ^ 32 - 1" "p_send_once_count q < 2 ^ 32 - 1" "p_refs q < 2 ^ 32 - 3" using D(1,2,4) lim by auto
  have i: "inc32 (p_send_count q) = p_send_count q + 1" "inc32 (p_send_once_count q) = p_send_once_count q + 1"
    "inc32 (p_refs q) = p_refs q + 1" "inc32 (p_refs q + 1) = p_refs q + 2" "inc32 (p_refs q + 2) = p_refs q + 3"
    using lt by (simp_all add: inc32_def)
  have "port_ref p r h = Ret (set_port p (q\<lparr>p_send_count := p_send_count q + of_bool ?S, p_send_once_count := p_send_once_count q + of_bool ?O,
      p_has_receive := p_has_receive q \<or> ?R, p_refs := p_refs q + of_bool ?S + of_bool ?O + of_bool ?R\<rparr>) h)"
    using one i unfolding port_ref_def with_port_def q option.case Let_def
    by (cases ?S; cases ?O; cases ?R) (simp_all add: KASSERT_def numeral_2_eq_2 numeral_3_eq_3)
  moreover have "q\<lparr>p_send_count := p_send_count q + of_bool ?S, p_send_once_count := p_send_once_count q + of_bool ?O,
      p_has_receive := p_has_receive q \<or> ?R, p_refs := p_refs q + of_bool ?S + of_bool ?O + of_bool ?R\<rparr> = q'"
    by (rule port.equality) (simp_all add: q'_def)
  ultimately have run: "port_ref p r h = Ret (set_port p q' h)" by simp
  have f: "port_holds q' = port_holds q" "p_queue q' = p_queue q" "p_set q' = p_set q" by (simp_all add: q'_def port_holds_def)
  obtain k where k: "(p, k) \<in># rights_held p r" using rights_held_any [OF r] by blast
  have pos: "?S \<or> ?O \<or> ?R" using k by (auto simp: rights_held_def split: if_splits)
  have pi': "port_inv ?c (?A + rights_held p r - {#}) (ipc_sets h) p q'"
    unfolding port_inv_def
  proof (intro conjI)
    show "(if p_has_receive q' then 1 else 0) = count (?A + rights_held p r - {#}) (p, HRecv)"
      using D(3) one by (cases ?R; cases "p_has_receive q") (simp_all add: q'_def count_rights_held)
    show "\<forall>m \<in> set (p_queue q'). \<forall>pd \<in> set (m_descs m). desc_ok pd" using D(9) by (simp add: f)
    show "case p_set q' of None \<Rightarrow> True | Some s \<Rightarrow> \<exists>t. ipc_sets h s = Some t \<and> p \<in> set (pset_members t)"
      using D(11) by (simp add: f split: option.splits)
    show "\<not> p_has_receive q' \<longrightarrow> p_waiters q' = [] \<and> p_set q' = None \<and> p_notify_no_senders q' = None \<and>
        p_notify_dead_name q' = [] \<and> p_notify_port_destroyed q' = None" using D(10) by (simp add: q'_def)
    show "(p_refs q' = 0) = (p \<in> cx_zero ?c)" using pos by (auto simp: q'_def)
    show "p_refs q' < 2 ^ 32" using lt by (simp add: q'_def of_bool_def)
  qed (use D(1,2,4,7,8) in \<open>simp_all add: q'_def count_rights_held\<close>)
  have i: "ipc_inv ?c (set_port p q' h)" "all_rights ?c (set_port p q' h) + {#} = ?A + rights_held p r"
    by (rule inv_set_port [OF inv q F, where D = "{#}" and E = "rights_held p r"];
        use f count_rights_held(5) pi' in \<open>(simp add: ctx_like_def ac_simps)?\<close>)+
  show ?thesis
    by (rule that [OF run i(1) _ refl]) (use i(2) f in \<open>simp_all add: q'_def\<close>)
qed

lemma zero_none: "ipc_inv c h \<Longrightarrow> p \<in> cx_zero c \<Longrightarrow> (p, k) \<notin># all_rights c h"
  by (metis held_alive)

lemma port_hold_ok:
  assumes inv: "ipc_inv c h" and q: "ipc_ports h p = Some q" and F: "p \<notin> cx_freeing c" and lim: "p_refs q + 1 < 2 ^ 32"
  shows "port_hold p h = Ret (set_port p (q\<lparr>p_refs := p_refs q + 1\<rparr>) h)"
    "ipc_inv (give {#(p, HHold)#} {#} (unzero p c)) (set_port p (q\<lparr>p_refs := p_refs q + 1\<rparr>) h)"
    "all_rights c (set_port p (q\<lparr>p_refs := p_refs q + 1\<rparr>) h) = all_rights c h"
proof -
  let ?c = "give {#(p, HHold)#} {#} (unzero p c)" and ?q = "q\<lparr>p_refs := p_refs q + 1\<rparr>"
  show "port_hold p h = Ret (set_port p ?q h)" using q lim by (simp add: port_hold_def with_port_def inc32_def)
  note D = port_invD [OF ipc_invD(2) [OF inv q]]
  have pi: "port_inv ?c (all_rights c h + {#(p, HHold)#} - {#}) (ipc_sets h) p ?q"
    using D lim unfolding port_inv_def by (auto split: option.splits)
  have i: "ipc_inv ?c (set_port p ?q h)" "all_rights ?c (set_port p ?q h) + {#} = all_rights c h + {#(p, HHold)#}"
    by (rule inv_set_port [OF inv q F, where D = "{#}" and E = "{#(p, HHold)#}"];
        use pi in \<open>(simp add: ctx_like_def port_holds_def)?\<close>)+
  then show "ipc_inv ?c (set_port p ?q h)" "all_rights c (set_port p ?q h) = all_rights c h" by simp_all
qed

lemma port_release_ok:
  assumes d: "drops d N" and inv: "ipc_inv (give {#(p, HHold)#} {#} c) h" and pins: "pins c h" and ret: "retired c h"
    and sz: "2 * size (all_rights c h) + 1 < N" and St: "St \<subseteq># stable c h"
  shows "outcome St c {#(p, HHold)#} h (port_release d p h)"
proof -
  let ?c = "give {#(p, HHold)#} {#} c" and ?A = "all_rights c h"
  have "(p, HHold) \<in># all_rights ?c h" by simp
  then obtain q where q: "ipc_ports h p = Some q" and z: "p \<notin> cx_zero c" "p \<notin> cx_freeing c" and pos: "0 < p_refs q"
    using held_alive [OF inv] by (metis give_simps(5,7))
  note D = port_invD [OF ipc_invD(2) [OF inv q]]
  let ?q = "q\<lparr>p_refs := p_refs q - 1\<rparr>" and ?l = "p_refs q = 1"
  let ?cz = "if ?l then zero_ref p c else c" and ?h = "set_port p ?q h"
  have cz: "all_rights ?cz g = all_rights c g" "cx_rights ?cz = cx_rights c" "cx_pages ?cz = cx_pages c" "cx_slots ?cz = cx_slots c"
    "cx_leaving ?cz = cx_leaving c" "ctx_like ?c ?cz" "p \<in> cx_zero ?cz \<longleftrightarrow> ?l" "\<And>x. x \<noteq> p \<Longrightarrow> x \<in> cx_zero ?cz \<longleftrightarrow> x \<in> cx_zero c" for g
    using z by (auto simp: ctx_like_def)
  have eq: "all_rights ?c h + {#} - {#(p, HHold)#} = ?A" by simp
  have pi: "port_inv ?cz ?A (ipc_sets h) p ?q"
    unfolding port_inv_def
  proof (intro conjI)
    show "(p_refs ?q = 0) = (p \<in> cx_zero ?cz)" using pos cz(7) by auto
    show "case p_set ?q of None \<Rightarrow> True | Some s \<Rightarrow> \<exists>t. ipc_sets h s = Some t \<and> p \<in> set (pset_members t)"
      using D(11) by (simp split: option.splits)
  qed (use D(1-10) in \<open>simp_all add: cz\<close>)
  have i: "ipc_inv ?cz ?h" "all_rights ?cz ?h + {#(p, HHold)#} = all_rights ?c h + {#}"
    by (rule inv_set_port [OF inv q _ cz(6), where D = "{#(p, HHold)#}" and E = "{#}"];
        use pi z in \<open>(simp add: cz eq [simplified] port_holds_def)?\<close>)+
  have A: "all_rights c ?h = ?A" using i(2) unfolding cz(1) by simp
  have qu: "quiet h ?h" by (rule quiet_set_port [OF q]) (simp add: tamer_def)
  have calm: "calm St (all_rights c ?h) ?h" if "calm St (?A + {#(p, HHold)#}) h"
    using that q unfolding A by (elim calm_mono) (auto simp: listed_def)
  have run: "port_release d p h = (if ?l then port_free d p ?h else Ret ?h)"
    using q pos by (auto simp: port_release_def with_port_def KASSERT_def Let_def)
  show ?thesis
  proof (cases ?l)
    case False
    then show ?thesis unfolding run using i(1) qu A calm by (simp add: outcome_def)
  next
    case True
    have i': "ipc_inv (zero_ref p c) ?h" using i(1) True by simp
    have sz': "2 * size (all_rights c ?h) + 1 < N" using sz A by simp
    have unl: "\<not> listed ?h p" if c: "calm St (?A + {#(p, HHold)#}) h"
    proof
      assume "listed ?h p"
      then have l: "listed h p" by (simp add: listed_def)
      have "(p, k) \<notin># ?A" for k using zero_none [OF i', of p k] A by simp
      then have "(p, k) \<notin># St" for k using St stable_held by (meson mset_subset_eqD)
      then have "(p, HHold) \<notin># ?A + {#(p, HHold)#}" using c l unfolding calm_def by blast
      then show False by simp
    qed
    show ?thesis
    proof (rule port_free_ok [OF d i' z quiet_pins [OF qu pins] quiet_retired [OF qu ret] sz' quiet_le [OF qu St]])
      fix h' assume f: "port_free d p ?h = Ret h'" "ipc_inv c h'" "quiet ?h h'" "all_rights c h' \<subseteq># all_rights c ?h"
        "calm St (all_rights c ?h) ?h \<Longrightarrow> \<not> listed ?h p \<Longrightarrow> calm St (all_rights c h') h'"
      have sub: "all_rights c h' \<subseteq># ?A" using f(4) A by simp
      have "all_rights c h' \<subseteq># ?A + {#(p, HHold)#}" using sub by (rule subset_mset.add_increasing2 [rotated]) simp
      then show ?thesis using f True quiet_trans [OF qu f(3)] calm unl size_mset_mono [OF sub]
        unfolding run by (simp add: outcome_def)
    next
      assume "port_free d p ?h = Panic ''use of a freed port''" "\<not> calm St (all_rights c ?h) ?h"
      then show ?thesis using True calm unfolding run by (auto simp: outcome_def)
    qed
  qed
qed

section \<open>Port sets\<close>

text \<open>Contexts that differ only in the references to sets.\<close>

definition give_set :: "nat \<Rightarrow> ipc_ctx \<Rightarrow> ipc_ctx" where
  "give_set s c = c\<lparr>cx_sets := cx_sets c + {#s#}\<rparr>"

definition zero_set :: "nat \<Rightarrow> ipc_ctx \<Rightarrow> ipc_ctx" where
  "zero_set s c = c\<lparr>cx_zero_sets := insert s (cx_zero_sets c)\<rparr>"

definition unzero_set :: "nat \<Rightarrow> ipc_ctx \<Rightarrow> ipc_ctx" where
  "unzero_set s c = c\<lparr>cx_zero_sets := cx_zero_sets c - {s}\<rparr>"

definition same_but_sets :: "ipc_ctx \<Rightarrow> ipc_ctx \<Rightarrow> bool" where
  "same_but_sets c c' \<longleftrightarrow> cx_rights c' = cx_rights c \<and> cx_pages c' = cx_pages c \<and> cx_slots c' = cx_slots c \<and> cx_zero c' = cx_zero c \<and>
     cx_freeing c' = cx_freeing c \<and> cx_dying c' = cx_dying c \<and> cx_leaving c' = cx_leaving c \<and> cx_spaces c' = cx_spaces c \<and>
     cx_frames c' = cx_frames c"

lemma same_but_sets [simp]:
  "same_but_sets c (give_set s c)" "same_but_sets c (zero_set s c)" "same_but_sets c (unzero_set s c)" "same_but_sets c c"
  "same_but_sets c (give_set s (unzero_set s' c))"
  by (simp_all add: same_but_sets_def give_set_def zero_set_def unzero_set_def)

lemma set_ctx_simps [simp]:
  "cx_sets (give_set s c) = cx_sets c + {#s#}" "cx_zero_sets (give_set s c) = cx_zero_sets c"
  "cx_sets (zero_set s c) = cx_sets c" "cx_zero_sets (zero_set s c) = insert s (cx_zero_sets c)"
  "cx_sets (unzero_set s c) = cx_sets c" "cx_zero_sets (unzero_set s c) = cx_zero_sets c - {s}"
  by (simp_all add: give_set_def zero_set_def unzero_set_def)

lemma inv_sets:
  assumes inv: "ipc_inv c h" and same: "same_but_sets c c'"
    and h': "ipc_ports h' = ipc_ports h" "ipc_spaces h' = ipc_spaces h" "next_space_id h' = next_space_id h" "ipc_ms h' = ipc_ms h"
      "next_port_id h \<le> next_port_id h'" "over (next_port_id h') (ipc_ports h) (holds_unless (cx_freeing c)) = over (next_port_id h) (ipc_ports h) (holds_unless (cx_freeing c))"
      "over (next_port_id h') (ipc_ports h) (pages_unless (cx_freeing c)) = over (next_port_id h) (ipc_ports h) (pages_unless (cx_freeing c))"
    and mem: "\<And>s t. ipc_sets h s = Some t \<Longrightarrow> \<exists>t'. ipc_sets h' s = Some t' \<and> set (pset_members t) \<subseteq> set (pset_members t')"
    and sets: "\<And>s t. ipc_sets h' s = Some t \<Longrightarrow> s < next_port_id h' \<and> pset_inv c' (set_names h + cx_sets c') (ipc_ports h) s t"
    and named: "\<And>s. s \<in># set_names h + cx_sets c' \<Longrightarrow> \<exists>t. ipc_sets h' s = Some t"
  shows "ipc_inv c' h'" "all_rights c' h' = all_rights c h"
proof -
  show all: "all_rights c' h' = all_rights c h" using same h' by (simp add: all_rights_def held_def same_but_sets_def)
  have names: "set_names h' = set_names h" by (simp add: set_names_def h')
  have "port_inv c' (all_rights c h) (ipc_sets h') p q" if p: "ipc_ports h p = Some q" for p q
  proof (rule port_inv_cong [OF ipc_invD(2) [OF inv p]])
    fix s t assume "ipc_sets h s = Some t"
    then show "\<exists>t'. ipc_sets h' s = Some t' \<and> (p \<in> set (pset_members t) \<longrightarrow> p \<in> set (pset_members t'))" using mem by blast
  qed (use same in \<open>simp_all add: same_but_sets_def\<close>)
  moreover have "frames_ok c' (pages_queued (cx_freeing c') h' + cx_pages c') (ipc_ms h')"
    using ipc_invD(7) [OF inv] same h' by (simp add: frames_ok_def same_but_sets_def pages_queued_def)
  moreover have "p < next_port_id h'" if "ipc_ports h p = Some q" for p q using ipc_invD(1) [OF inv that] h'(5) by simp
  ultimately show "ipc_inv c' h'"
    unfolding ipc_inv_def all names using ipc_invD(3,6,8,9) [OF inv] sets named same
    by (auto simp: h'(1-4) same_but_sets_def)
qed

lemma over_more: "\<lbrakk>n \<le> n'; \<And>i. n \<le> i \<Longrightarrow> m i = None\<rbrakk> \<Longrightarrow> over n' m f = over n m f"
  unfolding over_def by (rule sum.mono_neutral_right) auto

lemma inv_set_refs:
  assumes inv: "ipc_inv c h" and t: "ipc_sets h s = Some t" and same: "same_but_sets c c'"
    and n: "n = count (set_names h + cx_sets c') s" "n < 2 ^ 32" "n = 0 \<longleftrightarrow> s \<in> cx_zero_sets c'"
    and other: "\<And>u. u \<noteq> s \<Longrightarrow> count (cx_sets c') u = count (cx_sets c) u \<and> (u \<in> cx_zero_sets c' \<longleftrightarrow> u \<in> cx_zero_sets c)"
  shows "ipc_inv c' (set_pset s (t\<lparr>pset_refs := n\<rparr>) h)" "all_rights c' (set_pset s (t\<lparr>pset_refs := n\<rparr>) h) = all_rights c h"
proof -
  let ?t = "t\<lparr>pset_refs := n\<rparr>"
  have leaving: "cx_leaving c' = cx_leaving c" using same by (simp add: same_but_sets_def)
  have sets: "u < next_port_id h \<and> pset_inv c' (set_names h + cx_sets c') (ipc_ports h) u v" if "ipc_sets (set_pset s ?t h) u = Some v" for u v
  proof (cases "u = s")
    case True
    have "pset_inv c' (set_names h + cx_sets c') (ipc_ports h) s ?t"
      using ipc_invD(4) [OF inv t] n(2,3) unfolding pset_inv_def leaving n(1) [symmetric] by simp
    then show ?thesis using ipc_invD(4) [OF inv t] that True by simp
  next
    case False
    then have "ipc_sets h u = Some v" using that by simp
    then have u: "u < next_port_id h" "pset_inv c (set_names h + cx_sets c) (ipc_ports h) u v" using ipc_invD(4) [OF inv] by auto
    have "pset_inv c' (set_names h + cx_sets c') (ipc_ports h) u v"
      by (rule pset_inv_cong [OF u(2)]) (use other [OF False] in \<open>simp_all add: leaving\<close>)
    then show ?thesis using u(1) by simp
  qed
  have mem: "\<exists>v'. ipc_sets (set_pset s ?t h) u = Some v' \<and> set (pset_members v) \<subseteq> set (pset_members v')" if "ipc_sets h u = Some v" for u v
    using that t by auto
  have named: "\<exists>v. ipc_sets (set_pset s ?t h) u = Some v" if "u \<in># set_names h + cx_sets c'" for u
  proof (cases "u = s")
    case False
    then have "u \<in># set_names h + cx_sets c" using that other [OF False] by (metis count_greater_zero_iff count_union)
    then show ?thesis using ipc_invD(5) [OF inv] False by simp
  qed simp
  show "ipc_inv c' (set_pset s ?t h)" "all_rights c' (set_pset s ?t h) = all_rights c h"
    by (rule inv_sets [OF inv same _ _ _ _ _ _ _ mem _ named]; use sets in simp)+
qed

lemma port_set_ref_ok:
  assumes inv: "ipc_inv c h" and t: "ipc_sets h s = Some t" and lim: "pset_refs t + 1 < 2 ^ 32"
  shows "port_set_ref s h = Ret (set_pset s (t\<lparr>pset_refs := pset_refs t + 1\<rparr>) h)"
    "ipc_inv (give_set s (unzero_set s c)) (set_pset s (t\<lparr>pset_refs := pset_refs t + 1\<rparr>) h)"
    "all_rights (give_set s (unzero_set s c)) (set_pset s (t\<lparr>pset_refs := pset_refs t + 1\<rparr>) h) = all_rights c h"
proof -
  have "pset_refs t = count (set_names h + cx_sets c) s" using ipc_invD(4) [OF inv t] by (simp add: pset_inv_def)
  note r = this [simplified]
  show "ipc_inv (give_set s (unzero_set s c)) (set_pset s (t\<lparr>pset_refs := pset_refs t + 1\<rparr>) h)"
      "all_rights (give_set s (unzero_set s c)) (set_pset s (t\<lparr>pset_refs := pset_refs t + 1\<rparr>) h) = all_rights c h"
    by (rule inv_set_refs [OF inv t same_but_sets(5)]; use lim in \<open>simp add: r\<close>)+
qed (use t lim in \<open>simp add: port_set_ref_def with_set_def inc32_def\<close>)

lemma port_set_create_ok:
  assumes inv: "ipc_inv c h" and id: "next_port_id h < 2 ^ 64 - 1"
  obtains (ok) h' where "port_set_create h = (Some (next_port_id h), h')" "ipc_inv (zero_set (next_port_id h) c) h'"
      "all_rights c h' = all_rights c h" "ipc_ports h' = ipc_ports h" "ipc_spaces h' = ipc_spaces h"
      "ipc_sets h' = (ipc_sets h)(next_port_id h \<mapsto> new_pset (next_port_id h))" "next_port_id h' = Suc (next_port_id h)"
    | (nomem) h' where "port_set_create h = (None, h')" "ipc_inv c h'" "h' = h\<lparr>ipc_allocs := ipc_allocs h + 1\<rparr>"
proof (cases "ipc_kmem h (ipc_allocs h)")
  case True
  let ?i = "next_port_id h" and ?c = "zero_set (next_port_id h) c"
  let ?h = "set_pset ?i (new_pset ?i) (h\<lparr>ipc_allocs := ipc_allocs h + 1, next_port_id := add64 ?i 1\<rparr>)"
  have run: "port_set_create h = (Some ?i, ?h)" using True by (simp add: port_set_create_def ipc_alloc_def Let_def)
  have n: "add64 ?i 1 = Suc ?i" using id by (simp add: add64_def)
  have new: "ipc_sets h ?i = None" using ipc_invD(4) [OF inv, of ?i] by fastforce
  have unnamed: "count (set_names h + cx_sets c) ?i = 0"
    using ipc_invD(5) [OF inv, of ?i] new by (metis not_in_iff option.distinct(1))
  have none: "ipc_ports h i = None" if "?i \<le> i" for i using ipc_invD(1) [OF inv, of i] that by fastforce
  have sets: "u < Suc ?i \<and> pset_inv ?c (set_names h + cx_sets c) (ipc_ports h) u v" if "ipc_sets ?h u = Some v" for u v
  proof (cases "u = ?i")
    case True
    then show ?thesis using that unnamed by (auto simp: pset_inv_def new_pset_def)
  next
    case False
    then have "ipc_sets h u = Some v" using that by simp
    then have u: "u < ?i" "pset_inv c (set_names h + cx_sets c) (ipc_ports h) u v" using ipc_invD(4) [OF inv] by auto
    have "pset_inv ?c (set_names h + cx_sets c) (ipc_ports h) u v"
      by (rule pset_inv_cong [OF u(2)]) (use False in \<open>simp_all add: zero_set_def\<close>)
    then show ?thesis using u(1) by simp
  qed
  have mem: "\<exists>v'. ipc_sets ?h u = Some v' \<and> set (pset_members v) \<subseteq> set (pset_members v')" if "ipc_sets h u = Some v" for u v
    using that new by auto
  have named: "\<exists>v. ipc_sets ?h u = Some v" if "u \<in># set_names h + cx_sets ?c" for u
    using that ipc_invD(5) [OF inv, of u] by auto
  have i: "ipc_inv ?c ?h" "all_rights ?c ?h = all_rights c h"
    by (rule inv_sets [OF inv same_but_sets(2) _ _ _ _ _ _ _ mem _ named]; use sets none in \<open>(simp add: n [simplified] over_more)?\<close>)+
  have "all_rights c ?h = all_rights c h" using i(2) by (simp add: all_rights_def zero_set_def)
  then show ?thesis by (rule ok [OF run i(1)]) (simp_all add: n [simplified])
next
  case False
  then show ?thesis using inv by (intro nomem) (simp_all add: port_set_create_def ipc_alloc_def)
qed


lemma detach_members_run:
  assumes "\<And>p. p \<in> set ms \<Longrightarrow> ipc_ports h p \<noteq> None"
  shows "detach_members ms h =
    Ret (h\<lparr>ipc_ports := (\<lambda>p. if p \<in> set ms then map_option (\<lambda>q. q\<lparr>p_set := None\<rparr>) (ipc_ports h p) else ipc_ports h p)\<rparr>)"
  using assms
proof (induct ms arbitrary: h)
  case Nil
  then show ?case by simp
next
  case (Cons m ms)
  then obtain q where q: "ipc_ports h m = Some q" by (metis list.set_intros(1) not_None_eq)
  have "detach_members ms (set_port m (q\<lparr>p_set := None\<rparr>) h) = Ret (set_port m (q\<lparr>p_set := None\<rparr>) h\<lparr>ipc_ports :=
      (\<lambda>p. if p \<in> set ms then map_option (\<lambda>q. q\<lparr>p_set := None\<rparr>) (ipc_ports (set_port m (q\<lparr>p_set := None\<rparr>) h) p)
           else ipc_ports (set_port m (q\<lparr>p_set := None\<rparr>) h) p)\<rparr>)"
    using Cons(2) by (intro Cons(1)) auto
  then show ?case using q by (auto simp: with_port_def set_port_def fun_eq_iff intro!: arg_cong [where f = "\<lambda>x. h\<lparr>ipc_ports := x\<rparr>"])
qed

lemma over_cong: "(\<And>i. (case m i of None \<Rightarrow> {#} | Some x \<Rightarrow> f i x) = (case m' i of None \<Rightarrow> {#} | Some x \<Rightarrow> f i x)) \<Longrightarrow> over n m f = over n m' f"
  by (simp add: over_def)

lemma port_set_deref_last:
  assumes inv: "ipc_inv (give_set s c) h" and t: "ipc_sets h s = Some t" "pset_refs t = 1" and zero: "s \<notin> cx_zero_sets c"
    and leaving: "\<And>p. (p, s) \<notin> cx_leaving c"
  obtains h' where "port_set_deref s h = Ret h'" "ipc_inv c h'" "all_rights c h' = all_rights c h"
    "ipc_sets h' = (ipc_sets h)(s := None)" "ipc_spaces h' = ipc_spaces h"
    "ipc_ports h' = (\<lambda>p. if p \<in> set (pset_members t) then map_option (\<lambda>q. q\<lparr>p_set := None\<rparr>) (ipc_ports h p) else ipc_ports h p)"
    "next_port_id h' = next_port_id h" "next_space_id h' = next_space_id h" "ipc_kmem h' = ipc_kmem h"
proof -
  let ?c = "give_set s c" and ?ms = "pset_members t"
  let ?P = "\<lambda>p. if p \<in> set ?ms then map_option (\<lambda>q. q\<lparr>p_set := None\<rparr>) (ipc_ports h p) else ipc_ports h p"
  note ti = ipc_invD(4) [OF inv t(1)]
  have like: "same_but_sets c ?c" by simp
  have member: "\<exists>q. ipc_ports h p = Some q \<and> p_set q = Some s" if "p \<in> set ?ms" for p
    using pset_member [OF conjunct2 [OF ti] that] leaving by (auto simp: give_set_def)
  let ?h1 = "set_pset s (t\<lparr>pset_refs := 0, pset_dead := True, pset_members := [], pset_member_count := 0, pset_waiters := []\<rparr>) h"
  have "\<And>p. p \<in> set ?ms \<Longrightarrow> ipc_ports ?h1 p \<noteq> None" using member by auto
  from detach_members_run [OF this] have "detach_members ?ms ?h1 = Ret (?h1\<lparr>ipc_ports := ?P\<rparr>)" unfolding set_pset_simps .
  then have run: "port_set_deref s h = Ret (wake_all (pset_waiters t) (?h1\<lparr>ipc_ports := ?P\<rparr>)\<lparr>ipc_sets := (ipc_sets h)(s := None)\<rparr>)"
    using t by (simp add: port_set_deref_def with_set_def KASSERT_def Let_def port_set_free_def wake_all_def set_pset_def)
  define h' where "h' = wake_all (pset_waiters t) (?h1\<lparr>ipc_ports := ?P\<rparr>)\<lparr>ipc_sets := (ipc_sets h)(s := None)\<rparr>"
  have f: "ipc_ports h' = ?P" "ipc_sets h' = (ipc_sets h)(s := None)" "ipc_spaces h' = ipc_spaces h" "next_port_id h' = next_port_id h"
    "next_space_id h' = next_space_id h" "ipc_ms h' = ipc_ms h" "ipc_kmem h' = ipc_kmem h"
    by (simp_all add: h'_def wake_all_def)
  have Pcase: "(case ?P i of None \<Rightarrow> {#} | Some x \<Rightarrow> g i x) = (case ipc_ports h i of None \<Rightarrow> {#} | Some x \<Rightarrow> g i x)"
    if "\<And>i q. g i (q\<lparr>p_set := None\<rparr>) = g i q" for i and g :: "nat \<Rightarrow> port \<Rightarrow> 'z multiset"
    using that by (simp split: option.splits)
  have all: "all_rights c h' = all_rights c h"
    unfolding all_rights_def held_def f by (subst over_cong [OF Pcase]) (simp_all add: holds_unless_def port_holds_def)
  have allc: "all_rights ?c h = all_rights c h" by (simp add: all_rights_def give_set_def)
  have pages: "pages_queued (cx_freeing c) h' = pages_queued (cx_freeing c) h"
    unfolding pages_queued_def f by (subst over_cong [OF Pcase]) (simp_all add: pages_unless_def)
  have names: "set_names h' = set_names h" by (simp add: set_names_def f)
  have gone: "s \<notin># set_names h + cx_sets c" using ti t(2) by (simp add: pset_inv_def give_set_def not_in_iff)
  have ports: "\<forall>p q. ipc_ports h' p = Some q \<longrightarrow> p < next_port_id h' \<and> port_inv c (all_rights c h') (ipc_sets h') p q"
  proof (intro allI impI)
    fix p q assume "ipc_ports h' p = Some q"
    then obtain q0 where q0: "ipc_ports h p = Some q0" "q = (if p \<in> set ?ms then q0\<lparr>p_set := None\<rparr> else q0)"
      by (auto simp: f split: if_splits)
    note pi = ipc_invD(2) [OF inv q0(1), unfolded allc]
    have s: "p_set q0 = Some s \<Longrightarrow> p \<in> set ?ms" using port_invD(11) [OF pi] t(1) by auto
    have "port_inv c (all_rights c h) ((ipc_sets h)(s := None)) p q"
      using pi s unfolding q0(2) by (auto simp: port_inv_def give_set_def split: option.splits)
    then show "p < next_port_id h' \<and> port_inv c (all_rights c h') (ipc_sets h') p q" using ipc_invD(1) [OF inv q0(1)] all by (simp add: f)
  qed
  have sets: "\<forall>u v. ipc_sets h' u = Some v \<longrightarrow> u < next_port_id h' \<and> pset_inv c (set_names h' + cx_sets c) (ipc_ports h') u v"
  proof (intro allI impI)
    fix u v assume "ipc_sets h' u = Some v"
    then have u: "u \<noteq> s" "ipc_sets h u = Some v" by (auto simp: f split: if_splits)
    have "pset_inv c (set_names h' + cx_sets c) (ipc_ports h') u v"
    proof (rule pset_inv_cong [OF conjunct2 [OF ipc_invD(4) [OF inv u(2)]]])
      fix m q assume m: "ipc_ports h m = Some q" "p_set q = Some u"
      have "m \<notin> set ?ms" using member m u(1) by fastforce
      then show "(\<exists>q'. ipc_ports h' m = Some q' \<and> p_set q' = Some u) \<or> (m, u) \<in> cx_leaving c" using m by (simp add: f)
    qed (use u(1) in \<open>simp_all add: names give_set_def\<close>)
    then show "u < next_port_id h' \<and> pset_inv c (set_names h' + cx_sets c) (ipc_ports h') u v" using ipc_invD(4) [OF inv u(2)] by (simp add: f)
  qed
  have "frames_ok c = frames_ok ?c" "cx_freeing ?c = cx_freeing c" "cx_pages ?c = cx_pages c" "cx_zero ?c = cx_zero c" "cx_dying ?c = cx_dying c"
    by (simp_all add: give_set_def frames_ok_def fun_eq_iff)
  note ctx = this
  have "\<forall>u \<in># set_names h' + cx_sets c. ipc_sets h' u \<noteq> None" using ipc_invD(5) [OF inv] gone by (auto simp: names f)
  moreover have "\<forall>x \<in># all_rights c h'. ipc_ports h' (fst x) \<noteq> None" using ipc_invD(3) [OF inv, unfolded allc] by (auto simp: all f)
  ultimately have i: "ipc_inv c h'"
    unfolding ipc_inv_def using ports sets ipc_invD(6-9) [OF inv, unfolded ctx] by (auto simp: f pages ctx)
  show ?thesis by (rule that [OF _ i all]) (use run f in \<open>simp_all add: h'_def [symmetric]\<close>)
qed

lemma port_set_deref_ok:
  assumes inv: "ipc_inv (give_set s c) h" and leaving: "\<And>p. (p, s) \<notin> cx_leaving c"
  obtains h' t where "port_set_deref s h = Ret h'" "ipc_inv c h'" "all_rights c h' = all_rights c h" "ipc_sets h s = Some t"
    "ipc_spaces h' = ipc_spaces h" "next_port_id h' = next_port_id h" "next_space_id h' = next_space_id h" "ipc_kmem h' = ipc_kmem h"
    "pset_refs t = 1 \<Longrightarrow> ipc_sets h' = (ipc_sets h)(s := None)"
    "pset_refs t \<noteq> 1 \<Longrightarrow> ipc_sets h' = (ipc_sets h)(s \<mapsto> t\<lparr>pset_refs := pset_refs t - 1\<rparr>)"
    "\<And>p q'. ipc_ports h' p = Some q' \<Longrightarrow> \<exists>q. ipc_ports h p = Some q \<and> (q' = q \<or> q' = q\<lparr>p_set := None\<rparr>)"
    "dom (ipc_ports h') = dom (ipc_ports h)"
proof -
  have "s \<in># set_names h + cx_sets (give_set s c)" by simp
  then obtain t where t: "ipc_sets h s = Some t" using ipc_invD(5) [OF inv] by blast
  note pi = conjunct2 [OF ipc_invD(4) [OF inv t]]
  have r: "pset_refs t = count (set_names h) s + count (cx_sets c) s + 1" "pset_refs t < 2 ^ 32" "s \<notin> cx_zero_sets c"
    using pi by (auto simp: pset_inv_def)
  show ?thesis
  proof (cases "pset_refs t = 1")
    case True
    obtain h' where "port_set_deref s h = Ret h'" "ipc_inv c h'" "all_rights c h' = all_rights c h"
      "ipc_sets h' = (ipc_sets h)(s := None)" "ipc_spaces h' = ipc_spaces h"
      "ipc_ports h' = (\<lambda>p. if p \<in> set (pset_members t) then map_option (\<lambda>q. q\<lparr>p_set := None\<rparr>) (ipc_ports h p) else ipc_ports h p)"
      "next_port_id h' = next_port_id h" "next_space_id h' = next_space_id h" "ipc_kmem h' = ipc_kmem h"
      by (rule port_set_deref_last [OF inv t True r(3) leaving])
    then show ?thesis using True by (intro that [of h' t]) (auto simp: t dom_def split: if_splits)
  next
    case False
    let ?t = "t\<lparr>pset_refs := pset_refs t - 1\<rparr>"
    have same: "same_but_sets (give_set s c) c" by (simp add: same_but_sets_def give_set_def)
    have i: "ipc_inv c (set_pset s ?t h)" "all_rights c (set_pset s ?t h) = all_rights (give_set s c) h"
      by (rule inv_set_refs [OF inv t same]; use r False in simp)+
    have "all_rights (give_set s c) h = all_rights c h" by (simp add: all_rights_def give_set_def)
    then show ?thesis using i False t r(1)
      by (intro that [of "set_pset s ?t h" t]) (auto simp: port_set_deref_def with_set_def KASSERT_def Let_def)
  qed
qed

lemmas right_defs = has_def MACH_PORT_RIGHT_RECEIVE_def MACH_PORT_RIGHT_SEND_def MACH_PORT_RIGHT_SEND_ONCE_def

lemmas deref_eval = port_deref_with_def port_destroyed_divert_def with_port_def with_set_def deref_locked_def deref_counts_def
  deref_receive_def deref_no_senders_def deref_unlocked_def deref_settle_def leave_set_opt_def port_leave_set_def port_free_def
  KASSERT_def no_work_def wake_all_def

section \<open>An example\<close>

text \<open>
  Port 1 is about to lose its receive right. A message waits in its queue: it carries a send right to port 2 and
  a frame that another address space maps.
\<close>

definition no_ctx :: ipc_ctx where
  "no_ctx = \<lparr>cx_rights = {#}, cx_pages = {#}, cx_slots = {#}, cx_sets = {#}, cx_zero = {}, cx_zero_sets = {}, cx_freeing = {},
     cx_dying = {}, cx_leaving = {}, cx_spaces = {100}, cx_frames = (\<lambda>_. 0)\<rparr>"

definition ex_msg :: port_msg where
  "ex_msg = \<lparr>m_size = 0, m_descs =
     [\<lparr>pd_type = MACH_MSG_PORT_DESCRIPTOR, pd_disposition = MACH_PORT_RIGHT_SEND, pd_ool_copy = 0, pd_ool_size = 0,
       pd_port = Some 2, pd_ool_pages = None\<rparr>,
      \<lparr>pd_type = MACH_MSG_OOL_DESCRIPTOR, pd_disposition = 0, pd_ool_copy = 0, pd_ool_size = 4096,
       pd_port = None, pd_ool_pages = Some [shared_pa]\<rparr>], m_buf = []\<rparr>"

definition ex_ipc :: ipc where
  "ex_ipc = \<lparr>ipc_ports = [1 \<mapsto> (new_port 1)\<lparr>p_refs := 1, p_has_receive := True, p_queue := [ex_msg], p_qlen := 1\<rparr>,
       2 \<mapsto> (new_port 2)\<lparr>p_refs := 2, p_send_count := 1, p_has_receive := True\<rparr>],
     ipc_sets = Map.empty, ipc_spaces = Map.empty, next_port_id = 3, next_space_id = 1, ipc_woken = [], ipc_ms = shared_ms,
     ipc_kmem = (\<lambda>_. True), ipc_allocs = 0\<rparr>"

lemma ex_frames: "frames_ok (give R P no_ctx) {#shared_pa#} shared_ms"
proof -
  have "page_count {#shared_pa#} f = shared_hold f" for f using shared_frames(4) by (simp add: shared_hold_def)
  then have "(\<lambda>f. cx_frames (give R P no_ctx) f + page_count {#shared_pa#} f) = shared_hold" by (simp add: fun_eq_iff no_ctx_def)
  then show ?thesis using task_okD(1) [OF shared_task] shared_frames(2) unfolding frames_ok_def by (simp add: no_ctx_def)
qed

lemma over_3: "over 3 m f = (case m 0 of None \<Rightarrow> {#} | Some x \<Rightarrow> f 0 x) + (case m 1 of None \<Rightarrow> {#} | Some x \<Rightarrow> f 1 x) +
    (case m 2 of None \<Rightarrow> {#} | Some x \<Rightarrow> f 2 x)"
proof -
  have "{..<3 :: nat} = {0, 1, 2}" by auto
  then show ?thesis by (simp add: over_def ac_simps del: One_nat_def)
qed

lemma over_empty [simp]: "over n Map.empty f = {#}"
  by (simp add: over_def)

lemma ex_inv: "ipc_inv (give {#(1, HRecv)#} {#} (give {#(2, HRecv)#} {#} no_ctx)) ex_ipc"
proof -
  let ?c = "give {#(1, HRecv)#} {#} (give {#(2, HRecv)#} {#} no_ctx)"
  have r: "all_rights ?c ex_ipc = {#(2, HSend), (1, HRecv), (2, HRecv)#}"
    by (simp add: all_rights_def held_def ex_ipc_def over_3 holds_unless_def no_ctx_def port_holds_def new_port_def ex_msg_def
        desc_rights_def)
  have pg: "pages_queued {} ex_ipc = {#shared_pa#}"
    by (simp add: pages_queued_def ex_ipc_def over_3 pages_unless_def new_port_def ex_msg_def desc_pages_def)
  have d: "\<forall>pd \<in> set (m_descs ex_msg). desc_ok pd"
    by (simp add: ex_msg_def desc_ok_def right_ok_def)
  have p: "port_inv ?c {#(2, HSend), (1, HRecv), (2, HRecv)#} Map.empty 1 ((new_port 1)\<lparr>p_refs := 1, p_has_receive := True, p_queue := [ex_msg], p_qlen := 1\<rparr>)"
    "port_inv ?c {#(2, HSend), (1, HRecv), (2, HRecv)#} Map.empty 2 ((new_port 2)\<lparr>p_refs := 2, p_send_count := 1, p_has_receive := True\<rparr>)"
    using d by (simp_all add: port_inv_def new_port_def no_ctx_def)
  show ?thesis unfolding ipc_inv_def r
    using p pg ex_frames by (auto simp: ex_ipc_def set_names_def no_ctx_def)
qed




text \<open>A port in set 2 with one message in its queue, which carries a send right to the port itself.\<close>

definition ex_self :: ipc where
  "ex_self = \<lparr>ipc_ports = [1 \<mapsto> (new_port 1)\<lparr>p_refs := 2, p_send_count := 1, p_has_receive := True, p_set := Some 2, p_qlen := 1,
       p_queue := [\<lparr>m_size = 0, m_descs =
         [\<lparr>pd_type = MACH_MSG_PORT_DESCRIPTOR, pd_disposition = MACH_PORT_RIGHT_SEND, pd_ool_copy = 0, pd_ool_size = 0,
           pd_port = Some 1, pd_ool_pages = None\<rparr>], m_buf = []\<rparr>]\<rparr>],
     ipc_sets = [2 \<mapsto> (new_pset 2)\<lparr>pset_refs := 1, pset_members := [1], pset_member_count := 1\<rparr>],
     ipc_spaces = Map.empty, next_port_id = 3, next_space_id = 1, ipc_woken = [], ipc_ms = shared_ms,
     ipc_kmem = (\<lambda>_. True), ipc_allocs = 0\<rparr>"

definition ex_self_ctx :: ipc_ctx where
  "ex_self_ctx = no_ctx\<lparr>cx_sets := {#2#}, cx_pages := {#shared_pa#}\<rparr>"

lemma ex_self_inv: "ipc_inv (give {#(1, HRecv)#} {#} ex_self_ctx) ex_self"
proof -
  let ?c = "give {#(1, HRecv)#} {#} ex_self_ctx"
  have r: "all_rights ?c ex_self = {#(1, HSend), (1, HRecv)#}"
    by (simp add: all_rights_def held_def ex_self_def over_3 holds_unless_def ex_self_ctx_def no_ctx_def port_holds_def new_port_def
        desc_rights_def)
  have pg: "pages_queued {} ex_self = {#}"
    by (simp add: pages_queued_def ex_self_def over_3 pages_unless_def new_port_def desc_pages_def)
  have f: "frames_ok ?c {#shared_pa#} shared_ms" using ex_frames by (simp add: frames_ok_def ex_self_ctx_def)
  show ?thesis unfolding ipc_inv_def r
    using pg f by (auto simp: ex_self_def set_names_def ex_self_ctx_def no_ctx_def port_inv_def pset_inv_def new_port_def new_pset_def
        desc_ok_def right_ok_def)
qed

text \<open>C2. \<open>port_deref\<close> takes the port off its set only after it has drained the queue. A port of a set whose only other
  reference is a send right in its own queue satisfies the invariant; dropping its receive right frees it while the
  queue is drained, and the walk along the member list then reads the freed port.\<close>

theorem port_deref_set_member_freed_early:
  "ipc_inv (give (rights_held 1 MACH_PORT_RIGHT_RECEIVE) {#} ex_self_ctx) ex_self \<and> pins ex_self_ctx ex_self \<and> cx_leaving ex_self_ctx = {} \<and>
   port_deref 1 MACH_PORT_RIGHT_RECEIVE ex_self = Panic ''use of a freed port''"
proof (intro conjI)
  show "ipc_inv (give (rights_held 1 MACH_PORT_RIGHT_RECEIVE) {#} ex_self_ctx) ex_self" using ex_self_inv by simp
  show "pins ex_self_ctx ex_self" by (simp add: pins_def ex_self_def new_port_def)
  show "cx_leaving ex_self_ctx = {}" by (simp add: ex_self_ctx_def no_ctx_def)
  have refs: "ipc_refs ex_self = 2" by (simp add: ipc_refs_def ex_self_def new_port_def upt_rec)
  show "port_deref 1 MACH_PORT_RIGHT_RECEIVE ex_self = Panic ''use of a freed port''"
    unfolding port_deref_def refs
    by (simp add: eval_nat_numeral deref_eval right_defs ex_self_def new_port_def new_pset_def)
qed

end
