(* ===== verification/Port_Space.thy ===== *)
theory Port_Space
  imports Port_Object
begin

text \<open>
  Port name spaces (src/mach/port_space.c): the table of a task that maps names to rights, and the calls on it. A name
  is an index into the table; an entry names a port with rights, a set, or is a dead name. The special ports of
  src/mach/port_object.c, dead-name requests and the snapshot of a space are here too. Every call is one step: the
  space lock and the port lock order the effects the way the bodies are written.
\<close>

unbundle bit_operations_syntax

section \<open>Name spaces\<close>

definition MACH_PORT_TYPE_DEAD_NAME :: nat where "MACH_PORT_TYPE_DEAD_NAME = 0x10"
definition MACH_PORT_TASK_SELF :: nat where "MACH_PORT_TASK_SELF = 1"
definition PORT_SPECIAL_TASK_SELF :: nat where "PORT_SPECIAL_TASK_SELF = 1"

definition with_space :: "nat \<Rightarrow> ipc \<Rightarrow> (port_space \<Rightarrow> 'a kres) \<Rightarrow> 'a kres" where
  "with_space i h f = (case ipc_spaces h i of None \<Rightarrow> Panic ''use of a freed port space'' | Some sp \<Rightarrow> f sp)"

definition set_space :: "nat \<Rightarrow> port_space \<Rightarrow> ipc \<Rightarrow> ipc" where
  "set_space i sp h = h\<lparr>ipc_spaces := (ipc_spaces h)(i \<mapsto> sp)\<rparr>"

definition no_entry :: port_entry where
  "no_entry = \<lparr>pe_port = None, pe_set = None, pe_rights = 0, pe_dead = False\<rparr>"

definition port_space_new :: "ipc \<Rightarrow> nat option \<times> ipc" where
  "port_space_new h =
     (case ipc_alloc h of (ok, h1) \<Rightarrow>
        if \<not> ok then (None, h1)
        else case ipc_alloc h1 of (ok2, h2) \<Rightarrow>
        if \<not> ok2 then (None, h2)
        else let i = next_space_id h2;
                 sp = \<lparr>ps_id = i, ps_table = replicate INITIAL_SPACE_CAP no_entry, ps_inuse = 0, ps_hint = 1\<rparr>
             in (Some i, set_space i sp (h2\<lparr>next_space_id := add64 i 1\<rparr>)))"

text \<open>The entry is emptied first; then its right or its reference to a set is given back.\<close>

definition put_entry :: "nat \<Rightarrow> port_entry \<Rightarrow> port_space \<Rightarrow> port_space" where
  "put_entry n e sp = sp\<lparr>ps_table := (ps_table sp)[n := e]\<rparr>"

definition give_up_port :: "nat option \<Rightarrow> 8 word \<Rightarrow> ipc \<Rightarrow> ipc kres" where
  "give_up_port po r h =
     (case po of None \<Rightarrow> Ret h
      | Some p \<Rightarrow>
          kbind (if has r MACH_PORT_RIGHT_SEND_ONCE
                 then kbind (port_notify_enqueue p MACH_NOTIFY_SEND_ONCE 0 h) (\<lambda>(rv, h1). Ret h1) else Ret h)
            (port_deref p r))"

definition give_up_set :: "nat option \<Rightarrow> ipc \<Rightarrow> ipc kres" where
  "give_up_set so h = (case so of None \<Rightarrow> Ret h | Some s \<Rightarrow> port_set_deref s h)"

definition destroy_entry :: "nat \<Rightarrow> nat \<Rightarrow> ipc \<Rightarrow> ipc kres" where
  "destroy_entry i n h =
     with_space i h (\<lambda>sp.
       let e = ps_table sp ! n
       in if pe_port e = None \<and> pe_set e = None then Ret h
          else kbind (give_up_port (pe_port e) (pe_rights e)
                 (set_space i (put_entry n (e\<lparr>pe_port := None, pe_set := None, pe_rights := 0\<rparr>) sp) h))
               (give_up_set (pe_set e)))"

primrec destroy_entries :: "nat \<Rightarrow> nat list \<Rightarrow> ipc \<Rightarrow> ipc kres" where
  "destroy_entries i [] h = Ret h"
| "destroy_entries i (n # ns) h = kbind (destroy_entry i n h) (destroy_entries i ns)"

definition port_space_destroy :: "nat \<Rightarrow> ipc \<Rightarrow> ipc kres" where
  "port_space_destroy i h =
     with_space i h (\<lambda>sp.
       kbind (destroy_entries i [1..<length (ps_table sp)] h) (\<lambda>h1.
       Ret (h1\<lparr>ipc_spaces := (ipc_spaces h1)(i := None)\<rparr>)))"

section \<open>Allocating a name\<close>

definition space_grow_locked :: "port_space \<Rightarrow> nat \<Rightarrow> ipc \<Rightarrow> bool \<times> port_space \<times> ipc" where
  "space_grow_locked sp new_capacity h =
     (case ipc_alloc h of (ok, h1) \<Rightarrow>
        if \<not> ok then (False, sp, h1)
        else (True, sp\<lparr>ps_table := take new_capacity (ps_table sp) @
                         replicate (new_capacity - length (ps_table sp)) no_entry\<rparr>, h1))"

definition entry_free_slot :: "port_entry \<Rightarrow> bool" where
  "entry_free_slot e \<longleftrightarrow> pe_port e = None \<and> pe_set e = None \<and> \<not> pe_dead e"

text \<open>The two scans: from the hint to the end, then from 1 up to the hint.\<close>

definition find_slot :: "port_space \<Rightarrow> nat option" where
  "find_slot sp =
     (let start = (if ps_hint sp = 0 then 1 else ps_hint sp); cap = length (ps_table sp)
      in find (\<lambda>i. entry_free_slot (ps_table sp ! i)) ([start..<cap] @ [1..<min start cap]))"

definition claim_slot :: "nat \<Rightarrow> port_space \<Rightarrow> port_space" where
  "claim_slot n sp =
     sp\<lparr>ps_inuse := add64 (ps_inuse sp) 1,
        ps_hint := (if (n + 1) mod 2 ^ 32 < length (ps_table sp) then (n + 1) mod 2 ^ 32 else 1)\<rparr>"

definition space_alloc_slot_locked :: "port_space \<Rightarrow> ipc \<Rightarrow> mach_err \<times> nat \<times> port_space \<times> ipc" where
  "space_alloc_slot_locked sp h =
     (case find_slot sp of
        Some i \<Rightarrow> let n = i mod 2 ^ 32 in (MACH_MSG_OK, n, claim_slot n sp, h)
      | None \<Rightarrow>
          (case space_grow_locked sp (length (ps_table sp) * 2 mod 2 ^ 64) h of (ok, sp1, h1) \<Rightarrow>
             if \<not> ok then (MACH_E_NOMEM, 0, sp1, h1)
             else case find_slot sp1 of
                    Some i \<Rightarrow> let n = i mod 2 ^ 32 in (MACH_MSG_OK, n, claim_slot n sp1, h1)
                  | None \<Rightarrow> (MACH_E_NOSPACE, 0, sp1, h1)))"

definition install_entry :: "nat \<Rightarrow> nat option \<Rightarrow> nat option \<Rightarrow> 8 word \<Rightarrow> port_space \<Rightarrow> port_space" where
  "install_entry n po so rights sp =
     put_entry n ((ps_table sp ! n)\<lparr>pe_port := po, pe_set := so, pe_rights := rights\<rparr>) sp"

definition space_install_no_ref :: "nat \<Rightarrow> nat \<Rightarrow> 8 word \<Rightarrow> ipc \<Rightarrow> (mach_err \<times> nat \<times> ipc) kres" where
  "space_install_no_ref i p rights h =
     (if rights = 0 then Ret (MACH_E_INVAL, 0, h)
      else with_space i h (\<lambda>sp.
        case space_alloc_slot_locked sp h of (rv, n, sp1, h1) \<Rightarrow>
          if rv \<noteq> MACH_MSG_OK then Ret (rv, 0, set_space i sp1 h1)
          else Ret (MACH_MSG_OK, n, set_space i (install_entry n (Some p) None rights sp1) h1)))"

definition space_install :: "nat \<Rightarrow> nat \<Rightarrow> 8 word \<Rightarrow> ipc \<Rightarrow> (mach_err \<times> nat \<times> ipc) kres" where
  "space_install i p rights h =
     (if rights = 0 then Ret (MACH_E_INVAL, 0, h)
      else with_space i h (\<lambda>sp.
        case space_alloc_slot_locked sp h of (rv, n, sp1, h1) \<Rightarrow>
          if rv \<noteq> MACH_MSG_OK then Ret (rv, 0, set_space i sp1 h1)
          else kbind (port_ref p rights (set_space i (install_entry n (Some p) None rights sp1) h1)) (\<lambda>h2.
               Ret (MACH_MSG_OK, n, h2))))"

definition space_install_set :: "nat \<Rightarrow> nat \<Rightarrow> ipc \<Rightarrow> (mach_err \<times> nat \<times> ipc) kres" where
  "space_install_set i s h =
     with_space i h (\<lambda>sp.
       case space_alloc_slot_locked sp h of (rv, n, sp1, h1) \<Rightarrow>
         if rv \<noteq> MACH_MSG_OK then Ret (rv, 0, set_space i sp1 h1)
         else kbind (port_set_ref s (set_space i (install_entry n None (Some s) MACH_PORT_RIGHT_PORT_SET sp1) h1)) (\<lambda>h2.
              Ret (MACH_MSG_OK, n, h2)))"

section \<open>Looking a name up\<close>

definition space_lookup :: "port_space \<Rightarrow> nat \<Rightarrow> 8 word \<Rightarrow> (nat \<times> 8 word) option" where
  "space_lookup sp name need_right =
     (if name = MACH_PORT_NULL \<or> name = MACH_PORT_DEAD then None
      else if name \<ge> length (ps_table sp) then None
      else let e = ps_table sp ! name
           in case pe_port e of
                None \<Rightarrow> None
              | Some p \<Rightarrow> if pe_rights e AND need_right \<noteq> need_right then None else Some (p, pe_rights e))"

definition space_lookup_set :: "port_space \<Rightarrow> nat \<Rightarrow> nat option" where
  "space_lookup_set sp name =
     (if name = MACH_PORT_NULL \<or> name = MACH_PORT_DEAD then None
      else if name \<ge> length (ps_table sp) then None
      else pe_set (ps_table sp ! name))"

definition space_name_is_dead :: "port_space \<Rightarrow> nat \<Rightarrow> bool" where
  "space_name_is_dead sp name \<longleftrightarrow>
     \<not> (name = MACH_PORT_NULL \<or> name = MACH_PORT_DEAD) \<and> name < length (ps_table sp) \<and> pe_dead (ps_table sp ! name)"

definition mach_port_type :: "nat \<Rightarrow> nat \<Rightarrow> ipc \<Rightarrow> (nat \<times> ipc) kres" where
  "mach_port_type i name h =
     (if name = MACH_PORT_NULL \<or> name = MACH_PORT_DEAD then Ret (0, h)
      else with_space i h (\<lambda>sp.
        if name \<ge> length (ps_table sp) then Ret (0, h)
        else let e = ps_table sp ! name; r = pe_rights e in
        if pe_dead e then Ret (MACH_PORT_TYPE_DEAD_NAME, h)
        else if pe_port e = None \<and> pe_set e = None then Ret (0, h)
        else if pe_set e \<noteq> None \<or> has r MACH_PORT_RIGHT_RECEIVE then Ret (unat r, h)
        else let p = the (pe_port e) in
          with_port p h (\<lambda>q.
            if \<not> p_dead q then Ret (unat r, h)
            else kbind (port_deref p r (set_space i (put_entry name
                   (e\<lparr>pe_port := None, pe_set := None, pe_rights := 0, pe_dead := True\<rparr>) sp) h))
                 (\<lambda>h1. Ret (MACH_PORT_TYPE_DEAD_NAME, h1)))))"

section \<open>Giving a name up\<close>

definition free_slot :: "nat \<Rightarrow> port_space \<Rightarrow> port_space" where
  "free_slot name sp =
     sp\<lparr>ps_inuse := sub64 (ps_inuse sp) 1, ps_hint := (if name < ps_hint sp then name else ps_hint sp)\<rparr>"

definition space_drop :: "nat \<Rightarrow> nat \<Rightarrow> ipc \<Rightarrow> (mach_err \<times> ipc) kres" where
  "space_drop i name h =
     (if name = MACH_PORT_NULL \<or> name = MACH_PORT_DEAD then Ret (MACH_E_INVAL, h)
      else with_space i h (\<lambda>sp.
        if name \<ge> length (ps_table sp) then Ret (MACH_E_NAME, h)
        else let e = ps_table sp ! name in
        if pe_dead e then Ret (MACH_MSG_OK, set_space i (free_slot name (put_entry name (e\<lparr>pe_dead := False\<rparr>) sp)) h)
        else if pe_port e = None \<and> pe_set e = None then Ret (MACH_E_NAME, h)
        else kbind (give_up_port (pe_port e) (pe_rights e)
               (set_space i (free_slot name (put_entry name (e\<lparr>pe_port := None, pe_set := None, pe_rights := 0\<rparr>) sp)) h)) (\<lambda>h1.
             kbind (give_up_set (pe_set e) h1) (\<lambda>h2. Ret (MACH_MSG_OK, h2)))))"

definition take_right :: "nat \<Rightarrow> 8 word \<Rightarrow> port_space \<Rightarrow> port_space" where
  "take_right name right sp =
     (let e = ps_table sp ! name; r = pe_rights e AND NOT right
      in if r = 0 then free_slot name (put_entry name (e\<lparr>pe_port := None, pe_rights := r\<rparr>) sp)
         else put_entry name (e\<lparr>pe_rights := r\<rparr>) sp)"

definition lacks_right :: "port_space \<Rightarrow> nat \<Rightarrow> 8 word \<Rightarrow> bool" where
  "lacks_right sp name right \<longleftrightarrow>
     name \<ge> length (ps_table sp) \<or> pe_port (ps_table sp ! name) = None \<or> pe_rights (ps_table sp ! name) AND right = 0"

definition space_drop_one_right :: "nat \<Rightarrow> nat \<Rightarrow> 8 word \<Rightarrow> ipc \<Rightarrow> (mach_err \<times> ipc) kres" where
  "space_drop_one_right i name right h =
     (if name = MACH_PORT_NULL \<or> name = MACH_PORT_DEAD then Ret (MACH_E_INVAL, h)
      else with_space i h (\<lambda>sp.
        if lacks_right sp name right then Ret (MACH_E_NAME, h)
        else kbind (port_deref (the (pe_port (ps_table sp ! name))) right (set_space i (take_right name right sp) h)) (\<lambda>h1.
             Ret (MACH_MSG_OK, h1))))"

definition space_unbind_no_deref :: "nat \<Rightarrow> nat \<Rightarrow> 8 word \<Rightarrow> ipc \<Rightarrow> (mach_err \<times> ipc) kres" where
  "space_unbind_no_deref i name right h =
     (if name = MACH_PORT_NULL \<or> name = MACH_PORT_DEAD then Ret (MACH_E_INVAL, h)
      else with_space i h (\<lambda>sp.
        if lacks_right sp name right then Ret (MACH_E_NAME, h)
        else Ret (MACH_MSG_OK, set_space i (take_right name right sp) h)))"

section \<open>The operations of a task on its space\<close>

text \<open>Names come back as numbers; \<open>MACH_PORT_NULL\<close> is the failure.\<close>

definition port_allocate :: "nat \<Rightarrow> 8 word \<Rightarrow> ipc \<Rightarrow> (nat \<times> ipc) kres" where
  "port_allocate i rights h =
     (if rights = 0 \<or> rights AND NOT (MACH_PORT_RIGHT_RECEIVE OR MACH_PORT_RIGHT_SEND OR MACH_PORT_RIGHT_SEND_ONCE) \<noteq> 0
      then Ret (MACH_PORT_NULL, h)
      else case port_create h of (po, h1) \<Rightarrow>
        (case po of
           None \<Rightarrow> Ret (MACH_PORT_NULL, h1)
         | Some p \<Rightarrow> kbind (space_install i p rights h1) (\<lambda>(rv, n, h2).
             if rv \<noteq> MACH_MSG_OK then kbind (port_free port_deref p h2) (\<lambda>h3. Ret (MACH_PORT_NULL, h3))
             else Ret (n, h2))))"

definition port_deallocate :: "nat \<Rightarrow> nat \<Rightarrow> ipc \<Rightarrow> (mach_err \<times> ipc) kres" where
  "port_deallocate i name h = space_drop i name h"

definition port_mod_refs :: "nat \<Rightarrow> nat \<Rightarrow> 8 word \<Rightarrow> ipc \<Rightarrow> (mach_err \<times> ipc) kres" where
  "port_mod_refs i name right h = space_drop_one_right i name right h"

definition port_set_allocate :: "nat \<Rightarrow> ipc \<Rightarrow> (nat \<times> ipc) kres" where
  "port_set_allocate i h =
     (case port_set_create h of (so, h1) \<Rightarrow>
        (case so of
           None \<Rightarrow> Ret (MACH_PORT_NULL, h1)
         | Some s \<Rightarrow> kbind (space_install_set i s h1) (\<lambda>(rv, n, h2).
             if rv \<noteq> MACH_MSG_OK then kbind (port_set_free s h2) (\<lambda>h3. Ret (MACH_PORT_NULL, h3))
             else Ret (n, h2))))"

definition port_set_insert :: "nat \<Rightarrow> nat \<Rightarrow> nat \<Rightarrow> ipc \<Rightarrow> (mach_err \<times> ipc) kres" where
  "port_set_insert i set_name port_name h =
     with_space i h (\<lambda>sp.
       case space_lookup_set sp set_name of
         None \<Rightarrow> Ret (MACH_E_NAME, h)
       | Some s \<Rightarrow>
           (case space_lookup sp port_name MACH_PORT_RIGHT_RECEIVE of
              None \<Rightarrow> Ret (MACH_E_RIGHT, h)
            | Some (p, _) \<Rightarrow>
                with_port p h (\<lambda>q.
                  if p_set q \<noteq> None then Ret (MACH_E_INVAL, h)
                  else with_set s h (\<lambda>t.
                    Ret (MACH_MSG_OK,
                         set_pset s (t\<lparr>pset_members := p # pset_members t, pset_member_count := add64 (pset_member_count t) 1\<rparr>)
                           (set_port p (q\<lparr>p_set := Some s\<rparr>) h))))))"

definition port_space_inject_send :: "nat \<Rightarrow> nat \<Rightarrow> nat \<Rightarrow> ipc \<Rightarrow> (mach_err \<times> nat \<times> ipc) kres" where
  "port_space_inject_send src src_name dst h =
     with_space src h (\<lambda>sp.
       case space_lookup sp src_name MACH_PORT_RIGHT_SEND of
         None \<Rightarrow> Ret (MACH_E_RIGHT, 0, h)
       | Some (p, _) \<Rightarrow> space_install dst p MACH_PORT_RIGHT_SEND h)"

definition port_set_extract :: "nat \<Rightarrow> nat \<Rightarrow> ipc \<Rightarrow> nat kres" where
  "port_set_extract i port_name h =
     with_space i h (\<lambda>sp.
       case space_lookup sp port_name MACH_PORT_RIGHT_RECEIVE of
         None \<Rightarrow> Ret MACH_PORT_NULL
       | Some (p, _) \<Rightarrow>
           with_port p h (\<lambda>q.
             case p_set q of
               None \<Rightarrow> Ret MACH_PORT_NULL
             | Some s \<Rightarrow>
                 (case find (\<lambda>n. pe_set (ps_table sp ! n) = Some s) [1..<length (ps_table sp)] of
                    None \<Rightarrow> Ret MACH_PORT_NULL
                  | Some n \<Rightarrow> Ret (n mod 2 ^ 32))))"

text \<open>
  The walk of \<open>port_set_remove\<close> along the members of the named set, which reads every port it passes; the ports
  after the one it takes out are not read.
\<close>

definition port_set_remove :: "nat \<Rightarrow> nat \<Rightarrow> nat \<Rightarrow> ipc \<Rightarrow> (mach_err \<times> ipc) kres" where
  "port_set_remove i set_name port_name h =
     with_space i h (\<lambda>sp.
       case space_lookup_set sp set_name of
         None \<Rightarrow> Ret (MACH_E_NAME, h)
       | Some s \<Rightarrow>
           (case space_lookup sp port_name MACH_PORT_RIGHT_RECEIVE of
              None \<Rightarrow> Ret (MACH_E_RIGHT, h)
            | Some (p, _) \<Rightarrow>
                with_set s h (\<lambda>t.
                kbind (unlink_member p (pset_members t) h) (\<lambda>ms.
                if p \<notin> set (pset_members t) then Ret (MACH_E_INVAL, h)
                else let h1 = set_pset s (t\<lparr>pset_members := ms, pset_member_count := sub64 (pset_member_count t) 1\<rparr>) h
                     in with_port p h1 (\<lambda>q. Ret (MACH_MSG_OK, set_port p (q\<lparr>p_set := None\<rparr>) h1))))))"

section \<open>Notification requests\<close>

primrec retag_watch :: "nat \<Rightarrow> nat \<Rightarrow> port_notify_node list \<Rightarrow> port_notify_node list" where
  "retag_watch n tag [] = []"
| "retag_watch n tag (w # ws) = (if nn_port w = n then w\<lparr>nn_tag := tag\<rparr> # ws else w # retag_watch n tag ws)"

definition port_dead_name_link :: "nat \<Rightarrow> nat \<Rightarrow> nat \<Rightarrow> ipc \<Rightarrow> (mach_err \<times> bool \<times> ipc) kres" where
  "port_dead_name_link watched notify tag h =
     with_port watched h (\<lambda>q.
       if p_dead q \<or> \<not> p_has_receive q then Ret (MACH_E_DEAD, False, h)
       else if \<exists>w \<in> set (p_notify_dead_name q). nn_port w = notify
       then Ret (MACH_MSG_OK, True, set_port watched (q\<lparr>p_notify_dead_name := retag_watch notify tag (p_notify_dead_name q)\<rparr>) h)
       else Ret (MACH_MSG_OK, False,
                 set_port watched (q\<lparr>p_notify_dead_name := \<lparr>nn_port = notify, nn_tag = tag\<rparr> # p_notify_dead_name q\<rparr>) h))"

definition port_arm_dead_name_object :: "nat \<Rightarrow> nat \<Rightarrow> nat \<Rightarrow> ipc \<Rightarrow> (mach_err \<times> ipc) kres" where
  "port_arm_dead_name_object watched notify tag h =
     (case ipc_alloc h of (ok, h1) \<Rightarrow>
        if \<not> ok then Ret (MACH_E_NOMEM, h1)
        else kbind (port_ref notify MACH_PORT_RIGHT_SEND h1) (\<lambda>h2.
             kbind (port_dead_name_link watched notify tag h2) (\<lambda>(rv, dup, h3).
             if rv \<noteq> MACH_MSG_OK \<or> dup
             then kbind (port_deref notify MACH_PORT_RIGHT_SEND h3) (\<lambda>h4. Ret (rv, h4))
             else Ret (rv, h3))))"

definition swap_watch :: "nat \<Rightarrow> nat \<Rightarrow> nat \<Rightarrow> port \<Rightarrow> nat option \<times> port" where
  "swap_watch notify_type notify_port notify_msgid q =
     (if notify_type = MACH_NOTIFY_NO_SENDERS
      then (p_notify_no_senders q, q\<lparr>p_notify_no_senders := Some notify_port, p_notify_no_senders_id := notify_msgid\<rparr>)
      else (p_notify_port_destroyed q,
            q\<lparr>p_notify_port_destroyed := Some notify_port, p_notify_port_destroyed_id := notify_msgid\<rparr>))"

definition required_right :: "nat \<Rightarrow> 8 word option" where
  "required_right notify_type =
     (if notify_type = MACH_NOTIFY_NO_SENDERS \<or> notify_type = MACH_NOTIFY_PORT_DESTROYED then Some MACH_PORT_RIGHT_RECEIVE
      else if notify_type = MACH_NOTIFY_DEAD_NAME then Some MACH_PORT_RIGHT_SEND
      else None)"

definition port_request_notification :: "nat \<Rightarrow> nat \<Rightarrow> nat \<Rightarrow> nat \<Rightarrow> nat \<Rightarrow> ipc \<Rightarrow> (mach_err \<times> ipc) kres" where
  "port_request_notification i name notify_type notify_port_name notify_msgid h =
     (case required_right notify_type of
        None \<Rightarrow> Ret (MACH_E_INVAL, h)
      | Some required \<Rightarrow>
          with_space i h (\<lambda>sp.
          (case space_lookup sp name required of
             None \<Rightarrow> Ret (MACH_E_RIGHT, h)
           | Some (source, _) \<Rightarrow>
          (case space_lookup sp notify_port_name MACH_PORT_RIGHT_SEND of
             None \<Rightarrow> Ret (MACH_E_RIGHT, h)
           | Some (notify_port, _) \<Rightarrow>
               if source = notify_port then Ret (MACH_E_INVAL, h)
               else if notify_type = MACH_NOTIFY_DEAD_NAME
               then port_arm_dead_name_object source notify_port notify_msgid h
               else kbind (port_ref notify_port MACH_PORT_RIGHT_SEND h) (\<lambda>h1.
                    with_port source h1 (\<lambda>q.
                    case swap_watch notify_type notify_port notify_msgid q of (prev, q') \<Rightarrow>
                      (case prev of
                         None \<Rightarrow> Ret (MACH_MSG_OK, set_port source q' h1)
                       | Some t \<Rightarrow> kbind (port_deref t MACH_PORT_RIGHT_SEND (set_port source q' h1)) (\<lambda>h2.
                                  Ret (MACH_MSG_OK, h2))))))))) "

section \<open>Special ports\<close>

definition port_create_kernel_owned :: "nat \<Rightarrow> nat \<Rightarrow> ipc \<Rightarrow> (nat option \<times> ipc) kres" where
  "port_create_kernel_owned special_kind special_arg h =
     (case port_create h of (po, h1) \<Rightarrow>
        (case po of
           None \<Rightarrow> Ret (None, h1)
         | Some p \<Rightarrow>
             with_port p h1 (\<lambda>q.
             kbind (port_ref p MACH_PORT_RIGHT_RECEIVE (set_port p (q\<lparr>p_special := special_kind, p_special_arg := special_arg\<rparr>) h1))
               (\<lambda>h2. Ret (Some p, h2)))))"

definition port_install_task_self :: "nat \<Rightarrow> nat \<Rightarrow> nat option \<Rightarrow> ipc \<Rightarrow> (mach_err \<times> nat option \<times> ipc) kres" where
  "port_install_task_self t_id i self_port h =
     (if self_port \<noteq> None then Ret (MACH_MSG_OK, self_port, h)
      else case port_create h of (po, h1) \<Rightarrow>
        (case po of
           None \<Rightarrow> Ret (MACH_E_NOMEM, None, h1)
         | Some p \<Rightarrow>
             with_port p h1 (\<lambda>q.
             KASSERT (t_id \<noteq> 0) ''port_install_task_self: task id 0''
             (kbind (port_ref p MACH_PORT_RIGHT_RECEIVE
                       (set_port p (q\<lparr>p_special := PORT_SPECIAL_TASK_SELF, p_special_arg := t_id\<rparr>) h1)) (\<lambda>h2.
              kbind (space_install i p MACH_PORT_RIGHT_SEND h2) (\<lambda>(rv, name, h3).
              if rv \<noteq> MACH_MSG_OK
              then kbind (port_deref p MACH_PORT_RIGHT_RECEIVE h3) (\<lambda>h4. Ret (rv, None, h4))
              else KASSERT (name = MACH_PORT_TASK_SELF) ''port_install_task_self: unexpected name''
                   (Ret (MACH_MSG_OK, Some p, h3))))))))"

definition port_release_task_self :: "nat option \<Rightarrow> ipc \<Rightarrow> (nat option \<times> ipc) kres" where
  "port_release_task_self self_port h =
     (case self_port of
        None \<Rightarrow> Ret (None, h)
      | Some p \<Rightarrow> kbind (port_deref p MACH_PORT_RIGHT_RECEIVE h) (\<lambda>h1. Ret (None, h1)))"

text \<open>The start of the subsystem; the result is the kernel's own space.\<close>

definition port_subsystem_init :: "ipc \<Rightarrow> (nat \<times> ipc) kres" where
  "port_subsystem_init h =
     (case port_space_new (h\<lparr>next_port_id := 1, next_space_id := 1\<rparr>) of (so, h1) \<Rightarrow>
        (case so of
           None \<Rightarrow> Panic ''port_subsystem_init: kernel_space allocation failed''
         | Some i \<Rightarrow> Ret (i, h1)))"

definition port_install_send_in_kernel :: "nat \<Rightarrow> nat \<Rightarrow> ipc \<Rightarrow> (mach_err \<times> nat \<times> ipc) kres" where
  "port_install_send_in_kernel kernel_space p h = space_install kernel_space p MACH_PORT_RIGHT_SEND h"

text \<open>The bootstrap port belongs to the bootstrap server: \<open>bootstrap_port\<close> is what \<open>bootstrap_get_port\<close> returns.\<close>

definition MACH_PORT_BOOTSTRAP :: nat where "MACH_PORT_BOOTSTRAP = 2"

definition port_install_bootstrap :: "nat option \<Rightarrow> nat \<Rightarrow> ipc \<Rightarrow> (mach_err \<times> ipc) kres" where
  "port_install_bootstrap bootstrap_port i h =
     (case bootstrap_port of
        None \<Rightarrow> Ret (MACH_E_DEAD, h)
      | Some p \<Rightarrow>
          kbind (space_install i p MACH_PORT_RIGHT_SEND h) (\<lambda>(rv, name, h1).
          if rv \<noteq> MACH_MSG_OK then Ret (rv, h1)
          else if name \<noteq> MACH_PORT_BOOTSTRAP then Panic ''port_install_bootstrap: unexpected name''
          else Ret (MACH_MSG_OK, h1)))"

section \<open>Introspection\<close>

definition port_space_inuse :: "port_space \<Rightarrow> nat" where
  "port_space_inuse sp = ps_inuse sp"

definition port_queue_len :: "port_space \<Rightarrow> nat \<Rightarrow> ipc \<Rightarrow> nat kres" where
  "port_queue_len sp name h =
     (case space_lookup sp name 0 of None \<Rightarrow> Ret 0 | Some (p, _) \<Rightarrow> with_port p h (\<lambda>q. Ret (p_qlen q)))"

record mach_port_snapshot_entry =
  mpse_name :: nat
  mpse_kind :: nat
  mpse_rights :: "8 word"
  mpse_special :: nat
  mpse_flags :: nat
  mpse_object_id :: nat
  mpse_qlen :: nat
  mpse_qmax :: nat
  mpse_refs :: nat
  mpse_send_count :: nat
  mpse_send_once_count :: nat
  mpse_member_count :: nat

definition PORT_SNAPSHOT_KIND_PORT :: nat where "PORT_SNAPSHOT_KIND_PORT = 1"
definition PORT_SNAPSHOT_KIND_SET :: nat where "PORT_SNAPSHOT_KIND_SET = 2"
definition PORT_SNAPSHOT_FLAG_DEAD :: nat where "PORT_SNAPSHOT_FLAG_DEAD = 1"

definition snapshot_entry :: "nat \<Rightarrow> port_entry \<Rightarrow> ipc \<Rightarrow> mach_port_snapshot_entry kres" where
  "snapshot_entry i e h =
     (let blank = \<lparr>mpse_name = i mod 2 ^ 32, mpse_kind = 0, mpse_rights = pe_rights e, mpse_special = PORT_SPECIAL_NONE,
            mpse_flags = 0, mpse_object_id = 0, mpse_qlen = 0, mpse_qmax = 0, mpse_refs = 0, mpse_send_count = 0,
            mpse_send_once_count = 0, mpse_member_count = 0\<rparr>
      in case pe_set e of
           Some s \<Rightarrow> with_set s h (\<lambda>t. Ret (blank\<lparr>mpse_kind := PORT_SNAPSHOT_KIND_SET, mpse_object_id := pset_id t,
               mpse_refs := pset_refs t, mpse_member_count := pset_member_count t mod 2 ^ 32,
               mpse_flags := (if pset_dead t then PORT_SNAPSHOT_FLAG_DEAD else 0)\<rparr>))
         | None \<Rightarrow> with_port (the (pe_port e)) h (\<lambda>q. Ret (blank\<lparr>mpse_kind := PORT_SNAPSHOT_KIND_PORT, mpse_object_id := p_id q,
               mpse_special := p_special q, mpse_qlen := p_qlen q mod 2 ^ 32, mpse_qmax := p_qmax q mod 2 ^ 32,
               mpse_refs := p_refs q, mpse_send_count := p_send_count q, mpse_send_once_count := p_send_once_count q,
               mpse_flags := (if p_dead q then PORT_SNAPSHOT_FLAG_DEAD else 0)\<rparr>)))"

fun snapshot_loop :: "port_space \<Rightarrow> nat list \<Rightarrow> nat \<Rightarrow> ipc \<Rightarrow> mach_port_snapshot_entry list kres" where
  "snapshot_loop sp [] room h = Ret []"
| "snapshot_loop sp (i # is) 0 h = Ret []"
| "snapshot_loop sp (i # is) (Suc room) h =
     (let e = ps_table sp ! i in
      if pe_port e = None \<and> pe_set e = None then snapshot_loop sp is (Suc room) h
      else kbind (snapshot_entry i e h) (\<lambda>x. kbind (snapshot_loop sp is room h) (\<lambda>xs. Ret (x # xs))))"

definition port_space_snapshot :: "port_space \<Rightarrow> nat \<Rightarrow> ipc \<Rightarrow> mach_port_snapshot_entry list kres" where
  "port_space_snapshot sp max_entries h = snapshot_loop sp [1..<length (ps_table sp)] max_entries h"

end
