(* ===== verification/Port_Names.thy ===== *)
theory Port_Names
  imports Port_Life Port_Space
begin

text \<open>
  Name tables. \<open>space_ok\<close> says that a table is well formed and that \<open>ps_inuse\<close> counts its used entries; the lemmas
  say what finding a slot, growing the table, installing, freeing and replacing an entry do to it and to the rights
  the space holds. \<open>ipc_ok\<close> is the invariant between two calls: \<open>ipc_inv\<close>, no counter about to wrap, and every port on a
  member list held by a name (\<open>settled\<close>), which is what dropping rights relies on.
\<close>

unbundle bit_operations_syntax

section \<open>Changing one space\<close>

lemma set_space_simps [simp]:
  "ipc_ports (set_space i sp h) = ipc_ports h" "ipc_sets (set_space i sp h) = ipc_sets h"
  "ipc_spaces (set_space i sp h) = (ipc_spaces h)(i \<mapsto> sp)" "next_port_id (set_space i sp h) = next_port_id h"
  "next_space_id (set_space i sp h) = next_space_id h" "ipc_ms (set_space i sp h) = ipc_ms h"
  "ipc_kmem (set_space i sp h) = ipc_kmem h" "ipc_allocs (set_space i sp h) = ipc_allocs h"
  "listed (set_space i sp h) m = listed h m" "pins c (set_space i sp h) = pins c h"
  by (simp_all add: set_space_def listed_def pins_def)

definition space_ok :: "port_space \<Rightarrow> bool" where
  "space_ok sp \<longleftrightarrow> space_inv sp \<and> ps_inuse sp = length (filter used_entry (ps_table sp))"

lemma over_space:
  assumes "i < n" "m i = Some x" "g y + R' = g x + R"
  shows "over n (m(i \<mapsto> y)) (\<lambda>_. g) + R' = over n m (\<lambda>_. g) + R"
proof -
  have "over n (m(i \<mapsto> y)) (\<lambda>_. g) + g x = over n m (\<lambda>_. g) + g y" using over_upd [OF assms(1), of m y "\<lambda>_. g"] by (simp add: assms(2))
  then have "over n (m(i \<mapsto> y)) (\<lambda>_. g) + R' + g x = over n m (\<lambda>_. g) + R + g x" using assms(3) by (metis add.commute add.left_commute)
  then show ?thesis by simp
qed

text \<open>Replacing a space, with the rights and references to sets it holds redistributed between it and the running code.\<close>

lemma inv_set_space:
  assumes inv: "ipc_inv c h" and sp: "ipc_spaces h i = Some sp"
    and mv: "space_holds sp' + R' = space_holds sp + cx_rights c" and sets: "space_sets sp' + S' = space_sets sp + cx_sets c"
    and si: "space_inv sp'" and iu: "i \<notin> cx_dying c \<Longrightarrow> ps_inuse sp' = length (filter used_entry (ps_table sp'))"
  shows "ipc_inv (c\<lparr>cx_rights := R', cx_sets := S'\<rparr>) (set_space i sp' h)" (is "ipc_inv ?c ?h")
    "all_rights (c\<lparr>cx_rights := R', cx_sets := S'\<rparr>) (set_space i sp' h) = all_rights c h"
proof -
  have lt: "i < next_space_id h" using ipc_invD(6) [OF inv sp] by simp
  have A: "all_rights ?c ?h = all_rights c h"
    using over_space [where g = space_holds and m = "ipc_spaces h", OF lt sp mv] by (simp add: all_rights_def held_def add.assoc)
  have S: "set_names ?h + cx_sets ?c = set_names h + cx_sets c"
    using over_space [where g = space_sets and m = "ipc_spaces h", OF lt sp sets] by (simp add: set_names_def)
  have P: "pages_queued (cx_freeing ?c) ?h = pages_queued (cx_freeing c) h" by (simp add: pages_queued_def)
  have pi: "port_inv ?c A' S'' p q = port_inv c A' S'' p q" for A' S'' p q by (simp add: port_inv_def)
  have qi: "pset_inv ?c N P s t = pset_inv c N P s t" for N P s t by (simp add: pset_inv_def)
  have fr: "frames_ok ?c P s = frames_ok c P s" for P s by (simp add: frames_ok_def)
  show "ipc_inv ?c ?h" unfolding ipc_inv_def A S P pi qi fr
    using inv si iu lt unfolding ipc_inv_def by auto
  show "all_rights ?c ?h = all_rights c h" by (rule A)
qed

lemma inv_same_space:
  assumes inv: "ipc_inv c h" and sp: "ipc_spaces h i = Some sp"
    and mv: "space_holds sp' = space_holds sp" and sets: "space_sets sp' = space_sets sp"
    and si: "space_inv sp'" and iu: "i \<notin> cx_dying c \<Longrightarrow> ps_inuse sp' = length (filter used_entry (ps_table sp'))"
  shows "ipc_inv c (set_space i sp' h)" "all_rights c (set_space i sp' h) = all_rights c h"
  using inv_set_space [OF inv sp, of sp' "cx_rights c" "cx_sets c"] mv sets si iu by simp_all

lemma stable_set_space:
  assumes inv: "ipc_inv c h" and sp: "ipc_spaces h i = Some sp" and mv: "space_holds sp' + R' = space_holds sp + cx_rights c"
  shows "stable (c\<lparr>cx_rights := R', cx_sets := S'\<rparr>) (set_space i sp' h) = stable c h"
  using over_space [where g = space_holds and m = "ipc_spaces h", OF conjunct1 [OF ipc_invD(6) [OF inv sp]] sp mv] by (simp add: stable_def)

section \<open>One entry\<close>

lemma sum_list_upd:
  fixes f :: "'a \<Rightarrow> 'b :: comm_monoid_add"
  assumes "n < length xs"
  shows "sum_list (map f (xs[n := y])) + f (xs ! n) = sum_list (map f xs) + f y"
  using assms by (induct xs arbitrary: n) (auto simp: ac_simps less_Suc_eq_0_disj nth_Cons' split: nat.splits)

lemma put_entry_simps [simp]:
  "ps_table (put_entry n e sp) = (ps_table sp)[n := e]" "ps_inuse (put_entry n e sp) = ps_inuse sp"
  "ps_hint (put_entry n e sp) = ps_hint sp" "ps_id (put_entry n e sp) = ps_id sp"
  by (simp_all add: put_entry_def)

lemma put_entry_holds:
  assumes "n < length (ps_table sp)"
  shows "space_holds (put_entry n e sp) + entry_holds (ps_table sp ! n) = space_holds sp + entry_holds e"
    "space_sets (put_entry n e sp) + entry_sets (ps_table sp ! n) = space_sets sp + entry_sets e"
  using sum_list_upd [OF assms] by (simp_all add: space_holds_def space_sets_def)

lemma used_put:
  assumes "n < length xs"
  shows "length (filter used_entry (xs[n := e])) + of_bool (used_entry (xs ! n)) = length (filter used_entry xs) + of_bool (used_entry e)"
proof -
  have "length (filter used_entry ys) = (\<Sum>e \<leftarrow> ys. of_bool (used_entry e))" for ys by (induct ys) auto
  then show ?thesis using sum_list_upd [OF assms, where f = "\<lambda>e. of_bool (used_entry e) :: nat"] by presburger
qed

lemma put_space_inv:
  assumes "space_inv sp" "0 < n" "entry_inv e"
  shows "space_inv (put_entry n e sp)"
proof -
  have "set ((ps_table sp)[n := e]) \<subseteq> insert e (set (ps_table sp))" by (rule set_update_subset_insert)
  then show ?thesis using assms by (auto simp: space_inv_def)
qed

lemma space_holds_cong [simp]:
  "space_holds (sp\<lparr>ps_inuse := n\<rparr>) = space_holds sp" "space_holds (sp\<lparr>ps_hint := n\<rparr>) = space_holds sp"
  "space_sets (sp\<lparr>ps_inuse := n\<rparr>) = space_sets sp" "space_sets (sp\<lparr>ps_hint := n\<rparr>) = space_sets sp"
  by (simp_all add: space_holds_def space_sets_def)

lemma space_invD:
  assumes "space_inv sp"
  shows "2 \<le> length (ps_table sp)" "length (ps_table sp) < 2 ^ 32" "\<not> used_entry (ps_table sp ! 0)"
    "n < length (ps_table sp) \<Longrightarrow> entry_inv (ps_table sp ! n)" "1 \<le> ps_hint sp" "ps_hint sp < length (ps_table sp)"
  using assms by (auto simp: space_inv_def)

lemma entry_free_unused: "entry_free_slot e \<longleftrightarrow> \<not> used_entry e"
  by (simp add: entry_free_slot_def used_entry_def)

lemma unused_holds [simp]: "\<not> used_entry e \<Longrightarrow> entry_holds e = {#}" "\<not> used_entry e \<Longrightarrow> entry_sets e = {#}"
  by (simp_all add: used_entry_def entry_holds_def entry_sets_def)

lemma no_entry_facts [simp]: "\<not> used_entry no_entry" "entry_inv no_entry"
  by (simp_all add: no_entry_def used_entry_def entry_inv_def)

section \<open>Slots\<close>

lemma find_slot_Some:
  assumes "find_slot sp = Some n" "space_inv sp"
  shows "0 < n" "n < length (ps_table sp)" "\<not> used_entry (ps_table sp ! n)" "n mod 2 ^ 32 = n"
proof -
  have h: "1 \<le> ps_hint sp" "ps_hint sp < length (ps_table sp)" "length (ps_table sp) < 2 ^ 32" using space_invD [OF assms(2)] by auto
  obtain j where j: "j < length ([ps_hint sp..<length (ps_table sp)] @ [1..<ps_hint sp])"
    "entry_free_slot (ps_table sp ! n)" "n = ([ps_hint sp..<length (ps_table sp)] @ [1..<ps_hint sp]) ! j"
    using assms(1) h by (auto simp: find_slot_def find_Some_iff Let_def)
  then have "n \<in> set ([ps_hint sp..<length (ps_table sp)] @ [1..<ps_hint sp])" by (metis nth_mem)
  then show n: "0 < n" "n < length (ps_table sp)" using h by auto
  show "\<not> used_entry (ps_table sp ! n)" using j(2) by (simp add: entry_free_unused)
  show "n mod 2 ^ 32 = n" using n(2) h(3) by simp
qed

lemma find_slot_None:
  assumes "find_slot sp = None" "space_inv sp" "0 < n" "n < length (ps_table sp)"
  shows "used_entry (ps_table sp ! n)"
proof -
  have h: "1 \<le> ps_hint sp" "ps_hint sp < length (ps_table sp)" using space_invD [OF assms(2)] by auto
  then have "n \<in> set ([ps_hint sp..<length (ps_table sp)] @ [1..<ps_hint sp])" using assms(3,4) by auto
  then have "\<not> entry_free_slot (ps_table sp ! n)"
    using assms(1) h by (auto simp: find_slot_def find_None_iff Let_def)
  then show ?thesis by (simp add: entry_free_unused)
qed

lemma find_slot_room:
  assumes "space_inv sp" "0 < n" "n < length (ps_table sp)" "\<not> used_entry (ps_table sp ! n)"
  shows "\<exists>m. find_slot sp = Some m"
  using find_slot_None [OF _ assms(1-3)] assms(4) by (cases "find_slot sp") auto

definition grown_space :: "port_space \<Rightarrow> port_space" where
  "grown_space sp = sp\<lparr>ps_table := ps_table sp @ replicate (length (ps_table sp)) no_entry\<rparr>"

lemma sum_list_no_rights: "sum_list (replicate k ({#} :: 'a multiset)) = {#}"
  by (induct k) auto

lemma grown_ok:
  assumes "space_ok sp" "2 * length (ps_table sp) < 2 ^ 32"
  shows "space_ok (grown_space sp)" "space_holds (grown_space sp) = space_holds sp" "space_sets (grown_space sp) = space_sets sp"
    "\<exists>m. find_slot (grown_space sp) = Some m"
proof -
  note i = space_invD [OF conjunct1 [OF assms(1) [unfolded space_ok_def]]]
  have "space_inv (grown_space sp)" using assms i(1) by (auto simp: space_ok_def space_inv_def grown_space_def nth_append)
  moreover have "filter used_entry (replicate k no_entry) = []" for k by (induct k) auto
  ultimately show ok: "space_ok (grown_space sp)" using assms(1) by (simp add: space_ok_def grown_space_def)
  show "space_holds (grown_space sp) = space_holds sp" "space_sets (grown_space sp) = space_sets sp"
    by (simp_all add: space_holds_def space_sets_def grown_space_def sum_list_no_rights)
  have p: "0 < length (ps_table sp)" using i(1) by linarith
  then have "\<not> used_entry (ps_table (grown_space sp) ! length (ps_table sp))" "length (ps_table sp) < length (ps_table (grown_space sp))"
    by (simp_all add: grown_space_def nth_append)
  then show "\<exists>m. find_slot (grown_space sp) = Some m"
    using p ok by (intro find_slot_room [of _ "length (ps_table sp)"]) (simp_all add: space_ok_def)
qed

text \<open>
  Allocating a slot: it succeeds with a free slot of a table that is the old one or twice as long, or it fails for
  want of memory, with every slot in use; it never reports a full table.
\<close>

lemma alloc_slot_ok:
  assumes ok: "space_ok sp" and sz: "2 * length (ps_table sp) < 2 ^ 32"
  obtains (found) n sp0 h' where "space_alloc_slot_locked sp h = (MACH_MSG_OK, n, claim_slot n sp0, h')"
      "h' = h \<and> sp0 = sp \<or> h' = h\<lparr>ipc_allocs := ipc_allocs h + 1\<rparr> \<and> sp0 = grown_space sp"
      "space_ok sp0" "0 < n" "n < length (ps_table sp0)" "\<not> used_entry (ps_table sp0 ! n)"
      "space_holds sp0 = space_holds sp" "space_sets sp0 = space_sets sp"
    | (full) "space_alloc_slot_locked sp h = (MACH_E_NOMEM, 0, sp, h\<lparr>ipc_allocs := ipc_allocs h + 1\<rparr>)"
      "\<forall>n. 0 < n \<longrightarrow> n < length (ps_table sp) \<longrightarrow> used_entry (ps_table sp ! n)" "\<not> ipc_kmem h (ipc_allocs h)"
proof (cases "find_slot sp")
  case (Some n)
  have i: "space_inv sp" using ok by (simp add: space_ok_def)
  note f = find_slot_Some [OF Some i]
  show ?thesis by (rule found [of n sp h]) (use Some ok f in \<open>auto simp: space_alloc_slot_locked_def\<close>)
next
  case None
  have i: "space_inv sp" using ok by (simp add: space_ok_def)
  show ?thesis
  proof (cases "ipc_kmem h (ipc_allocs h)")
    case False
    then show ?thesis using None find_slot_None [OF None i]
      by (intro full) (auto simp: space_alloc_slot_locked_def space_grow_locked_def ipc_alloc_def)
  next
    case True
    note g = grown_ok [OF ok sz]
    obtain m where m: "find_slot (grown_space sp) = Some m" using g(4) by blast
    note f = find_slot_Some [OF m conjunct1 [OF g(1) [unfolded space_ok_def]]]
    have "length (ps_table sp) * 2 mod 2 ^ 64 = length (ps_table sp) * 2" using sz by simp
    then have "space_grow_locked sp (length (ps_table sp) * 2 mod 2 ^ 64) h = (True, grown_space sp, h\<lparr>ipc_allocs := ipc_allocs h + 1\<rparr>)"
      using True by (simp add: space_grow_locked_def ipc_alloc_def grown_space_def)
    then have "space_alloc_slot_locked sp h = (MACH_MSG_OK, m, claim_slot m (grown_space sp), h\<lparr>ipc_allocs := ipc_allocs h + 1\<rparr>)"
      using None m f(4) by (simp add: space_alloc_slot_locked_def)
    then show ?thesis by (rule found) (use g f in auto)
  qed
qed

lemma claim_slot_simps [simp]:
  "ps_table (claim_slot n sp) = ps_table sp" "space_holds (claim_slot n sp) = space_holds sp" "space_sets (claim_slot n sp) = space_sets sp"
  by (simp_all add: claim_slot_def)

lemma used_less:
  assumes "space_inv sp"
  shows "length (filter used_entry (ps_table sp)) < length (ps_table sp)"
proof -
  have "ps_table sp ! 0 \<in> set (ps_table sp)" using space_invD(1) [OF assms] by (intro nth_mem) linarith
  then show ?thesis using space_invD(3) [OF assms] by (rule length_filter_less)
qed

lemma install_entry_ok:
  assumes ok: "space_ok sp" and n: "0 < n" "n < length (ps_table sp)" "\<not> used_entry (ps_table sp ! n)"
    and e: "e = (ps_table sp ! n)\<lparr>pe_port := po, pe_set := so, pe_rights := r\<rparr>" "used_entry e" "entry_inv e"
  shows "space_ok (install_entry n po so r (claim_slot n sp))"
    "space_holds (install_entry n po so r (claim_slot n sp)) = space_holds sp + entry_holds e"
    "space_sets (install_entry n po so r (claim_slot n sp)) = space_sets sp + entry_sets e"
    "ps_table (install_entry n po so r (claim_slot n sp)) = (ps_table sp)[n := e]"
proof -
  let ?sp = "install_entry n po so r (claim_slot n sp)"
  have i: "space_inv sp" and iu: "ps_inuse sp = length (filter used_entry (ps_table sp))" using ok by (auto simp: space_ok_def)
  note inv = space_invD [OF i]
  have sp: "?sp = put_entry n e (claim_slot n sp)" by (simp add: install_entry_def e(1))
  have "space_inv (claim_slot n sp)" using i inv n by (auto simp: space_inv_def claim_slot_def)
  then have "space_inv ?sp" unfolding sp by (rule put_space_inv [OF _ n(1) e(3)])
  moreover have "length (filter used_entry ((ps_table sp)[n := e])) = ps_inuse sp + 1"
    using used_put [OF n(2), of e] n(3) e(2) iu by simp
  moreover have "ps_inuse (claim_slot n sp) = ps_inuse sp + 1"
    using used_less [OF i] inv(2) iu by (simp add: claim_slot_def add64_def)
  ultimately show "space_ok ?sp" by (simp add: space_ok_def sp)
  show "space_holds ?sp = space_holds sp + entry_holds e" "space_sets ?sp = space_sets sp + entry_sets e"
    using put_entry_holds [of n "claim_slot n sp" e] n by (simp_all add: sp)
  show "ps_table ?sp = (ps_table sp)[n := e]" by (simp add: sp)
qed

section \<open>Emptying an entry\<close>

lemma free_slot_simps [simp]:
  "ps_table (free_slot n sp) = ps_table sp" "space_holds (free_slot n sp) = space_holds sp" "space_sets (free_slot n sp) = space_sets sp"
  by (simp_all add: free_slot_def)

lemma free_slot_ok:
  assumes ok: "space_ok sp" and n: "0 < n" "n < length (ps_table sp)" "used_entry (ps_table sp ! n)" and e: "\<not> used_entry e" "entry_inv e"
  shows "space_ok (free_slot n (put_entry n e sp))"
proof -
  have i: "space_inv sp" and iu: "ps_inuse sp = length (filter used_entry (ps_table sp))" using ok by (auto simp: space_ok_def)
  have c: "length (filter used_entry ((ps_table sp)[n := e])) + 1 = ps_inuse sp" using used_put [OF n(2), of e] n(3) e(1) iu by simp
  then have "sub64 (ps_inuse sp) 1 = length (filter used_entry ((ps_table sp)[n := e]))"
    using used_less [OF i] space_invD(2) [OF i] iu by (subst sub64_small) simp_all
  moreover have "space_inv (free_slot n (put_entry n e sp))"
    using put_space_inv [OF i n(1) e(2)] n by (auto simp: space_inv_def free_slot_def)
  ultimately show ?thesis by (simp add: space_ok_def free_slot_def)
qed

lemma put_used_ok:
  assumes ok: "space_ok sp" and n: "0 < n" "n < length (ps_table sp)" "used_entry (ps_table sp ! n)" and e: "used_entry e" "entry_inv e"
  shows "space_ok (put_entry n e sp)"
  using used_put [OF n(2), of e] n(3) e ok put_space_inv [OF _ n(1) e(2)] by (auto simp: space_ok_def)

text \<open>What a name gives up goes to the running code.\<close>

lemma take_entry:
  assumes inv: "ipc_inv c h" and sp: "ipc_spaces h i = Some sp" and ok: "space_inv sp'"
    and iu: "i \<notin> cx_dying c \<Longrightarrow> ps_inuse sp' = length (filter used_entry (ps_table sp'))"
    and n: "n < length (ps_table sp)" and tab: "ps_table sp' = (ps_table sp)[n := e]"
    and R: "entry_holds e + R = entry_holds (ps_table sp ! n)" and S: "entry_sets e + S = entry_sets (ps_table sp ! n)"
  shows "ipc_inv (c\<lparr>cx_rights := cx_rights c + R, cx_sets := cx_sets c + S\<rparr>) (set_space i sp' h)"
    "all_rights c (set_space i sp' h) + R = all_rights c h" "stable c (set_space i sp' h) + R = stable c h"
proof -
  have t: "space_holds sp' = space_holds (put_entry n e sp)" "space_sets sp' = space_sets (put_entry n e sp)"
    using tab by (simp_all add: space_holds_def space_sets_def)
  have "space_holds sp' + R + entry_holds e = space_holds sp + entry_holds e"
    using put_entry_holds(1) [OF n, of e] unfolding t R [symmetric] by (simp add: ac_simps)
  then have mv: "space_holds sp' + (cx_rights c + R) = space_holds sp + cx_rights c" by (simp add: ac_simps)
  have "space_sets sp' + S + entry_sets e = space_sets sp + entry_sets e"
    using put_entry_holds(2) [OF n, of e] unfolding t S [symmetric] by (simp add: ac_simps)
  then have sv: "space_sets sp' + (cx_sets c + S) = space_sets sp + cx_sets c" by (simp add: ac_simps)
  note i = inv_set_space [OF inv sp mv sv]
  show "ipc_inv (c\<lparr>cx_rights := cx_rights c + R, cx_sets := cx_sets c + S\<rparr>) (set_space i sp' h)"
    by (intro i ok iu)
  show "all_rights c (set_space i sp' h) + R = all_rights c h"
    using i(2) [OF ok iu] by (simp add: all_rights_def held_def add.assoc)
  show "stable c (set_space i sp' h) + R = stable c h"
    using stable_set_space [OF inv sp mv, of "cx_sets c"] by (simp add: stable_def add.assoc)
qed

lemma give_alt: "c\<lparr>cx_rights := cx_rights c + R, cx_sets := cx_sets c + {#}\<rparr> = give R {#} c"
  "c\<lparr>cx_rights := cx_rights c + {#}, cx_sets := cx_sets c + {#s#}\<rparr> = give_set s c"
  "c\<lparr>cx_rights := cx_rights c + {#}, cx_sets := cx_sets c + {#}\<rparr> = c"
  by (simp_all add: give_def give_set_def)

section \<open>Dropping what a name held\<close>

lemma drop_safe_mild:
  assumes "mild (give R P c) h (give R P c) h1" "drop_safe c p r h"
  shows "drop_safe c p r h1"
proof -
  have "all_rights c h1 = all_rights c h" "stable c h1 = stable c h" "\<And>m. listed h1 m \<Longrightarrow> listed h m"
    using mildD [OF assms(1)] quiet_stable by (auto simp: quiet_def)
  then show ?thesis using assms mild_calm [OF assms(1)] by (auto simp: drop_safe_def)
qed

lemma outcome_if_imp: "outcome_if K St c E h r \<Longrightarrow> (K' \<Longrightarrow> K) \<Longrightarrow> outcome_if K' St c E h r"
  by (auto simp: outcome_if_def split: kres.splits)

lemma give_up_port_ok:
  assumes r: "rights_ok r" and inv: "ipc_inv (give (rights_held p r) {#} c) h" and pins: "pins c h" and ret: "retired c h"
  shows "outcome_if (drop_safe c p r h) (stable c h) c (rights_held p r) h (give_up_port (Some p) r h)"
proof (cases "has r MACH_PORT_RIGHT_SEND_ONCE")
  case False
  then show ?thesis using port_deref_ok [OF assms] by (simp add: give_up_port_def)
next
  case True
  let ?c = "give (rights_held p r) {#} c"
  obtain q where q: "ipc_ports h p = Some q" "p \<notin> cx_freeing c" by (rule right_alive [OF r inv])
  obtain rv h1 where h1: "port_notify_enqueue p MACH_NOTIFY_SEND_ONCE 0 h = Ret (rv, h1)" and m: "mild ?c h ?c h1"
    using port_notify_enqueue_ok [OF inv q(1), of MACH_NOTIFY_SEND_ONCE 0] q(2) by auto
  note q1 = mildD(3) [OF m]
  have A: "all_rights c h1 = all_rights c h" using mildD(2) [OF m] by simp
  have "outcome_if (drop_safe c p r h1) (stable c h1) c (rights_held p r) h1 (port_deref p r h1)"
    by (rule port_deref_ok [OF r mildD(1) [OF m] quiet_pins [OF q1 pins] quiet_retired [OF q1 ret]])
  then have "outcome_if (drop_safe c p r h) (stable c h) c (rights_held p r) h1 (port_deref p r h1)"
    using drop_safe_mild [OF m] by (simp add: quiet_stable [OF q1] outcome_if_imp)
  then have "outcome_if (drop_safe c p r h) (stable c h) c ({#} + rights_held p r) h (port_deref p r h1)"
    by (intro outcome_if_trans [OF q1]) (simp_all add: A)
  then show ?thesis using True h1 by (simp add: give_up_port_def)
qed

text \<open>The condition of \<open>drop_safe\<close>, before the name gives its rights up.\<close>

definition name_drop_safe :: "ipc_ctx \<Rightarrow> nat \<Rightarrow> 8 word \<Rightarrow> ipc \<Rightarrow> bool" where
  "name_drop_safe c p r h \<longleftrightarrow> calm (stable c h - rights_held p r) (all_rights c h - rights_held p r) h \<and>
     (listed h p \<longrightarrow> (\<exists>k. (p, k) \<in># stable c h - rights_held p r) \<or> has r MACH_PORT_RIGHT_RECEIVE)"

lemma name_drop_safeD:
  assumes "name_drop_safe c p r h" "stable c (set_space i sp h) + rights_held p r = stable c h"
    "all_rights c (set_space i sp h) + rights_held p r = all_rights c h"
  shows "drop_safe c p r (set_space i sp h)"
proof -
  have "stable c (set_space i sp h) = stable c h - rights_held p r" "all_rights c (set_space i sp h) = all_rights c h - rights_held p r"
    using assms(2,3) by (metis add_diff_cancel_right')+
  then show ?thesis using assms(1) unfolding drop_safe_def name_drop_safe_def calm_def by simp
qed

lemma listed_member:
  assumes inv: "ipc_inv c h" and none: "cx_leaving c = {}" and l: "listed h m"
  obtains q where "ipc_ports h m = Some q" "p_has_receive q" "(m, HRecv) \<in># all_rights c h"
proof -
  obtain s t where t: "ipc_sets h s = Some t" "m \<in> set (pset_members t)" using l by (auto simp: listed_def)
  obtain q where q: "ipc_ports h m = Some q" "p_set q = Some s"
    using pset_member [OF conjunct2 [OF ipc_invD(4) [OF inv t(1)]] t(2)] none by auto
  note pi = ipc_invD(2) [OF inv q(1)]
  have "p_has_receive q" using port_invD(10) [OF pi] q(2) by auto
  moreover have "count (all_rights c h) (m, HRecv) = 1" using port_invD(3) [OF pi] calculation by simp
  ultimately show ?thesis using q(1) that by (metis count_inI zero_neq_one)
qed

section \<open>Between two calls\<close>

text \<open>
  Between two calls nothing is half-way: no port or set without a reference, no port being freed or leaving a set.
  Threads that sleep in a call may hold rights, reserved slots (of ports they hold) and references to sets.
\<close>

definition idle :: "ipc_ctx \<Rightarrow> bool" where
  "idle c \<longleftrightarrow> cx_zero c = {} \<and> cx_zero_sets c = {} \<and> cx_freeing c = {} \<and> cx_leaving c = {} \<and>
     (\<forall>p \<in># cx_slots c. pinned c p)"

text \<open>Every member of a set is held by a name or by a sleeping thread, unless only its receive right is left.\<close>

definition settled :: "ipc_ctx \<Rightarrow> ipc \<Rightarrow> bool" where
  "settled c h \<longleftrightarrow> calm (stable c h) (all_rights c h) h"

definition ipc_ok :: "ipc_ctx \<Rightarrow> ipc \<Rightarrow> bool" where
  "ipc_ok c h \<longleftrightarrow> idle c \<and> ipc_inv c h \<and> pins c h \<and> settled c h \<and> next_port_id h < 2 ^ 64 \<and> next_space_id h < 2 ^ 64"

lemma idleD: "idle c \<Longrightarrow> retired c h" "idle c \<Longrightarrow> p \<notin> cx_zero c" "idle c \<Longrightarrow> p \<notin> cx_freeing c" "idle c \<Longrightarrow> cx_zero c = {}"
  "idle c \<Longrightarrow> cx_leaving c = {}" "idle c \<Longrightarrow> s \<notin> cx_zero_sets c" "idle c \<Longrightarrow> cx_freeing c = {}"
  by (auto simp: idle_def retired_def)

lemma ipc_okD:
  assumes "ipc_ok c h"
  shows "idle c" "ipc_inv c h" "pins c h" "next_port_id h < 2 ^ 64" "next_space_id h < 2 ^ 64" "retired c h"
    "i \<notin> cx_dying c \<Longrightarrow> ipc_spaces h i = Some sp \<Longrightarrow> space_ok sp" "settled c h"
  using assms ipc_invD(6) [of c h i sp] by (auto simp: ipc_ok_def idle_def retired_def space_ok_def)

lemma space_okD:
  assumes "space_ok sp"
  shows "space_inv sp" "ps_inuse sp = length (filter used_entry (ps_table sp))"
  using assms by (simp_all add: space_ok_def)

lemma ipc_ok_step:
  assumes "ipc_ok c h" "ipc_inv c h'" "pins c h'" "settled c h'" "next_port_id h' = next_port_id h" "next_space_id h' = next_space_id h"
  shows "ipc_ok c h'"
  using assms by (simp add: ipc_ok_def)

text \<open>
  Dropping the rights \<open>r\<close> to \<open>p\<close> that a name or a thread holds is safe if the port is not in a set, or something else
  holds it in the same way, or its receive right goes and no other right is in a queue or in a registration.
\<close>

definition last_name_safe :: "ipc_ctx \<Rightarrow> nat \<Rightarrow> 8 word \<Rightarrow> ipc \<Rightarrow> bool" where
  "last_name_safe c p r h \<longleftrightarrow>
     (listed h p \<longrightarrow> (\<exists>k. (p, k) \<in># stable c h - rights_held p r) \<or>
        has r MACH_PORT_RIGHT_RECEIVE \<and> (\<forall>k. k \<noteq> HRecv \<longrightarrow> (p, k) \<notin># all_rights c h - rights_held p r))"

lemma in_diff_other: "(m, k) \<in># A \<Longrightarrow> m \<noteq> p \<Longrightarrow> (m, k) \<in># A - rights_held p r"
  by (metis count_diff count_inI diff_zero not_in_iff rights_held_other)

lemma last_name_drop:
  assumes s: "settled c h" and l: "last_name_safe c p r h"
  shows "name_drop_safe c p r h"
proof -
  have "calm (stable c h - rights_held p r) (all_rights c h - rights_held p r) h"
    unfolding calm_def
  proof (intro allI impI)
    fix m assume m: "listed h m"
    let ?St = "stable c h - rights_held p r" and ?A = "all_rights c h - rights_held p r"
    have c: "ipc_ports h m \<noteq> None" "(\<exists>k. (m, k) \<in># stable c h) \<or> (\<forall>k. k \<noteq> HRecv \<longrightarrow> (m, k) \<notin># all_rights c h)"
      using s m by (auto simp: settled_def calm_def)
    have "(\<exists>k. (m, k) \<in># ?St) \<or> (\<forall>k. k \<noteq> HRecv \<longrightarrow> (m, k) \<notin># ?A)"
    proof (cases "m = p")
      case True
      then show ?thesis using l m by (auto simp: last_name_safe_def)
    next
      case False
      then show ?thesis using c(2) in_diff_other in_diffD by metis
    qed
    then show "ipc_ports h m \<noteq> None \<and> ((\<exists>k. (m, k) \<in># ?St) \<or> (\<forall>k. k \<noteq> HRecv \<longrightarrow> (m, k) \<notin># ?A))" using c(1) by simp
  qed
  then show ?thesis using l by (auto simp: name_drop_safe_def last_name_safe_def)
qed

text \<open>Dropping a right from a name: the name is changed first, then the right given up.\<close>

lemma give_up_after:
  assumes ok: "ipc_ok c h" and inv: "ipc_inv (give (rights_held p r) {#} c) (set_space i sp' h)" and r: "rights_ok r"
    and eq: "all_rights c (set_space i sp' h) + rights_held p r = all_rights c h"
      "stable c (set_space i sp' h) + rights_held p r = stable c h"
    and safe: "last_name_safe c p r h"
    and run: "outcome_if (drop_safe c p r (set_space i sp' h)) (stable c (set_space i sp' h)) c (rights_held p r) (set_space i sp' h) x"
  obtains h' where "x = Ret h'" "ipc_ok c h'" "ipc_spaces h' = (ipc_spaces h)(i \<mapsto> sp')" "all_rights c h' \<subseteq># all_rights c h"
    "next_port_id h' = next_port_id h" "next_space_id h' = next_space_id h"
proof -
  have safe': "drop_safe c p r (set_space i sp' h)" using name_drop_safeD [OF last_name_drop [OF ipc_okD(8) [OF ok] safe] eq(2,1)] .
  obtain h' where h': "x = Ret h'" "ipc_inv c h'" "quiet (set_space i sp' h) h'"
    "all_rights c h' \<subseteq># all_rights c (set_space i sp' h) + rights_held p r" "calm (stable c (set_space i sp' h)) (all_rights c h') h'"
    using run safe' by (auto simp: outcome_if_def split: kres.splits)
  have "pins c h'" using quiet_pins [OF h'(3)] ipc_okD(3) [OF ok] by simp
  moreover have "settled c h'" using h'(5) quiet_stable [OF h'(3)] by (simp add: settled_def)
  ultimately have "ipc_ok c h'" using h' by (intro ipc_ok_step [OF ok]) (simp_all add: quiet_def)
  then show ?thesis using h' eq that by (simp add: quiet_def)
qed

lemma entry_invD:
  assumes "entry_inv e"
  shows "pe_port e = Some p \<Longrightarrow> pe_set e = None \<and> \<not> pe_dead e \<and> rights_ok (pe_rights e)"
    "pe_set e = Some s \<Longrightarrow> pe_port e = None \<and> \<not> pe_dead e \<and> pe_rights e = MACH_PORT_RIGHT_PORT_SET"
    "pe_dead e \<Longrightarrow> pe_port e = None \<and> pe_set e = None \<and> pe_rights e = 0"
    "pe_port e = None \<Longrightarrow> pe_set e = None \<Longrightarrow> pe_rights e = 0"
  using assms by (auto simp: entry_inv_def split: option.splits)

lemma emptied_entry: "\<not> pe_dead e \<Longrightarrow> e\<lparr>pe_port := None, pe_set := None, pe_rights := 0\<rparr> = no_entry"
  by (simp add: no_entry_def)

lemma pins_set_deref:
  assumes "pins c h" "\<And>p q'. ipc_ports h' p = Some q' \<Longrightarrow> \<exists>q. ipc_ports h p = Some q \<and> (q' = q \<or> q' = q\<lparr>p_set := None\<rparr>)"
  shows "pins c h'"
  unfolding pins_def
proof (intro allI impI)
  fix p q' assume a: "ipc_ports h' p = Some q'" "p_send_waiters q' \<noteq> [] \<or> 0 < p_qresv q'"
  obtain q where q: "ipc_ports h p = Some q" "q' = q \<or> q' = q\<lparr>p_set := None\<rparr>" using assms(2) [OF a(1)] by blast
  then have "p_send_waiters q \<noteq> [] \<or> 0 < p_qresv q" using a(2) by auto
  then show "pinned c p" using assms(1) q(1) unfolding pins_def by blast
qed

lemma port_set_deref_runs:
  assumes inv: "ipc_inv (give_set s c) h" and leaving: "cx_leaving c = {}"
  obtains h' where "port_set_deref s h = Ret h'" "ipc_inv c h'" "all_rights c h' = all_rights c h" "ipc_spaces h' = ipc_spaces h"
    "next_port_id h' = next_port_id h" "next_space_id h' = next_space_id h"
    "\<forall>p q'. ipc_ports h' p = Some q' \<longrightarrow> (\<exists>q. ipc_ports h p = Some q \<and> (q' = q \<or> q' = q\<lparr>p_set := None\<rparr>))"
    "\<forall>m. listed h' m \<longrightarrow> listed h m" "dom (ipc_ports h') = dom (ipc_ports h)"
proof (rule port_set_deref_ok [OF inv])
  show "(p, s) \<notin> cx_leaving c" for p using leaving by simp
next
  fix h' t
  assume a: "port_set_deref s h = Ret h'" "ipc_inv c h'" "all_rights c h' = all_rights c h" "ipc_sets h s = Some t"
    "ipc_spaces h' = ipc_spaces h" "next_port_id h' = next_port_id h" "next_space_id h' = next_space_id h"
    "pset_refs t = 1 \<Longrightarrow> ipc_sets h' = (ipc_sets h)(s := None)"
    "pset_refs t \<noteq> 1 \<Longrightarrow> ipc_sets h' = (ipc_sets h)(s \<mapsto> t\<lparr>pset_refs := pset_refs t - 1\<rparr>)"
    "\<And>p q'. ipc_ports h' p = Some q' \<Longrightarrow> \<exists>q. ipc_ports h p = Some q \<and> (q' = q \<or> q' = q\<lparr>p_set := None\<rparr>)"
    "dom (ipc_ports h') = dom (ipc_ports h)"
  have "listed h m" if "listed h' m" for m
    using that a(4,8,9) by (cases "pset_refs t = 1") (auto simp: listed_def split: if_splits)
  then show thesis using a by (intro that [of h']) auto
qed

section \<open>Deallocating a name\<close>

definition drop_result :: "port_space \<Rightarrow> nat \<Rightarrow> mach_err" where
  "drop_result sp n =
     (if n = MACH_PORT_NULL \<or> n = MACH_PORT_DEAD then MACH_E_INVAL
      else if n \<ge> length (ps_table sp) \<or> \<not> used_entry (ps_table sp ! n) then MACH_E_NAME else MACH_MSG_OK)"

definition name_safe :: "ipc_ctx \<Rightarrow> port_space \<Rightarrow> nat \<Rightarrow> 8 word \<Rightarrow> ipc \<Rightarrow> bool" where
  "name_safe c sp n r h \<longleftrightarrow>
     (n < length (ps_table sp) \<longrightarrow> (case pe_port (ps_table sp ! n) of None \<Rightarrow> True | Some p \<Rightarrow> last_name_safe c p r h))"

text \<open>An entry is emptied, and its right or its reference to a set given up.\<close>

lemma give_up_entry:
  assumes ok: "ipc_ok c h" and sp: "ipc_spaces h i = Some sp" and n: "n < length (ps_table sp)"
    and so: "space_inv sp'" "i \<notin> cx_dying c \<Longrightarrow> ps_inuse sp' = length (filter used_entry (ps_table sp'))"
    and tab: "ps_table sp' = (ps_table sp)[n := no_entry]" and e: "e = ps_table sp ! n" "entry_inv e" "pe_port e \<noteq> None \<or> pe_set e \<noteq> None"
    and safe: "name_safe c sp n (pe_rights e) h"
  obtains h' where "kbind (give_up_port (pe_port e) (pe_rights e) (set_space i sp' h)) (give_up_set (pe_set e)) = Ret h'" "ipc_ok c h'"
    "ipc_spaces h' = (ipc_spaces h)(i \<mapsto> sp')" "all_rights c h' \<subseteq># all_rights c h" "next_port_id h' = next_port_id h" "next_space_id h' = next_space_id h"
proof -
  note idle = ipc_okD(1) [OF ok] and te = take_entry [OF ipc_okD(2) [OF ok] sp so n tab]
  show ?thesis
  proof (cases "pe_port e")
    case (Some p)
    note d = entry_invD(1) [OF e(2) Some]
    have "entry_holds e = rights_held p (pe_rights e)" "entry_sets e = {#}" using d Some by (simp_all add: entry_holds_def entry_sets_def)
    then have t: "ipc_inv (give (rights_held p (pe_rights e)) {#} c) (set_space i sp' h)"
      "all_rights c (set_space i sp' h) + rights_held p (pe_rights e) = all_rights c h"
      "stable c (set_space i sp' h) + rights_held p (pe_rights e) = stable c h"
      using te [of "rights_held p (pe_rights e)" "{#}"] e(1) by (simp_all add: give_def)
    have s: "last_name_safe c p (pe_rights e) h" using safe n Some e(1) by (simp add: name_safe_def)
    have ro: "rights_ok (pe_rights e)" using d by simp
    have "pins c (set_space i sp' h)" using ipc_okD(3) [OF ok] by simp
    note gu = give_up_port_ok [OF ro t(1) this idleD(1) [OF idle]]
    obtain h' where h': "give_up_port (Some p) (pe_rights e) (set_space i sp' h) = Ret h'" "ipc_ok c h'"
      "ipc_spaces h' = (ipc_spaces h)(i \<mapsto> sp')" "all_rights c h' \<subseteq># all_rights c h" "next_port_id h' = next_port_id h" "next_space_id h' = next_space_id h"
      by (rule give_up_after [OF ok t(1) ro t(2,3) s gu])
    then show ?thesis using Some d by (intro that [of h']) (simp_all add: give_up_set_def)
  next
    case None
    then obtain s where s: "pe_set e = Some s" using e(3) by blast
    have eh: "entry_holds e = {#}" "entry_sets e = {#s#}" using None s by (simp_all add: entry_holds_def entry_sets_def)
    have t: "ipc_inv (give_set s c) (set_space i sp' h)" "all_rights c (set_space i sp' h) = all_rights c h" "stable c (set_space i sp' h) = stable c h"
      using te [of "{#}" "{#s#}"] eh e(1) by (simp_all add: give_set_def)
    obtain h' where h': "port_set_deref s (set_space i sp' h) = Ret h'" "ipc_inv c h'"
      "all_rights c h' = all_rights c (set_space i sp' h)" "ipc_spaces h' = ipc_spaces (set_space i sp' h)"
      "next_port_id h' = next_port_id (set_space i sp' h)" "next_space_id h' = next_space_id (set_space i sp' h)"
      "\<forall>p q'. ipc_ports h' p = Some q' \<longrightarrow> (\<exists>q. ipc_ports (set_space i sp' h) p = Some q \<and> (q' = q \<or> q' = q\<lparr>p_set := None\<rparr>))"
      "\<forall>m. listed h' m \<longrightarrow> listed (set_space i sp' h) m" "dom (ipc_ports h') = dom (ipc_ports (set_space i sp' h))"
      by (rule port_set_deref_runs [OF t(1) idleD(5) [OF idle]])
    have st: "stable c h' = stable c h" using t(3) h'(4,6) by (simp add: stable_def)
    have "settled c h'" unfolding settled_def st
      by (rule calm_mono [OF ipc_okD(8) [OF ok, unfolded settled_def]]) (use h'(3,8,9) t(2) in \<open>auto simp: dom_def\<close>)
    moreover have "pins c h'" by (rule pins_set_deref [of c "set_space i sp' h"]) (use ipc_okD(3) [OF ok] h'(7) in auto)
    ultimately have "ipc_ok c h'" using h' by (intro ipc_ok_step [OF ok]) simp_all
    then show ?thesis using h' t s None by (intro that [of h']) (simp_all add: give_up_set_def give_up_port_def)
  qed
qed

lemma space_drop_ok:
  assumes ok: "ipc_ok c h" and alive: "i \<notin> cx_dying c" and sp: "ipc_spaces h i = Some sp" and safe: "name_safe c sp n (pe_rights (ps_table sp ! n)) h"
  obtains h' where "space_drop i n h = Ret (drop_result sp n, h')" "ipc_ok c h'" "all_rights c h' \<subseteq># all_rights c h"
    "ipc_spaces h' = (if drop_result sp n = MACH_MSG_OK then (ipc_spaces h)(i \<mapsto> free_slot n (put_entry n no_entry sp)) else ipc_spaces h)"
    "drop_result sp n \<noteq> MACH_MSG_OK \<longrightarrow> h' = h"
    "next_port_id h' = next_port_id h" "next_space_id h' = next_space_id h"
proof (cases "drop_result sp n = MACH_MSG_OK")
  case False
  then show ?thesis using sp ok
    by (intro that [of h]) (auto simp: space_drop_def drop_result_def with_space_def used_entry_def Let_def split: if_splits)
next
  case True
  let ?e = "ps_table sp ! n" and ?sp = "free_slot n (put_entry n no_entry sp)"
  have n: "n \<noteq> MACH_PORT_NULL" "n \<noteq> MACH_PORT_DEAD" "n < length (ps_table sp)" "used_entry ?e"
    using True by (auto simp: drop_result_def split: if_splits)
  have n0: "0 < n" using n(1) by (simp add: MACH_PORT_NULL_def)
  have so: "space_ok sp" by (rule ipc_okD(7) [OF ok alive sp])
  have ei: "entry_inv ?e" using so n(3) space_invD(4) by (simp add: space_ok_def)
  have so': "space_ok ?sp" by (rule free_slot_ok [OF so n0 n(3,4)]) simp_all
  have tab: "ps_table ?sp = (ps_table sp)[n := no_entry]" by simp
  show ?thesis
  proof (cases "pe_dead ?e")
    case dead: True
    note d = entry_invD(3) [OF ei dead]
    have "?e\<lparr>pe_dead := False\<rparr> = no_entry" using d by (simp add: no_entry_def)
    then have run: "space_drop i n h = Ret (MACH_MSG_OK, set_space i ?sp h)"
      using n dead sp by (simp add: space_drop_def with_space_def Let_def)
    have "entry_holds ?e = {#}" "entry_sets ?e = {#}" using d by (simp_all add: entry_holds_def entry_sets_def)
    then have t: "ipc_inv c (set_space i ?sp h)" "all_rights c (set_space i ?sp h) = all_rights c h" "stable c (set_space i ?sp h) = stable c h"
      using take_entry [OF ipc_okD(2) [OF ok] sp space_okD [OF so'] n(3) tab, of "{#}" "{#}"] by simp_all
    then have "settled c (set_space i ?sp h)" using ipc_okD(8) [OF ok] by (simp add: settled_def calm_def)
    then have "ipc_ok c (set_space i ?sp h)" using t ipc_okD(3) [OF ok] by (intro ipc_ok_step [OF ok]) simp_all
    then show ?thesis using run True t by (intro that [of "set_space i ?sp h"]) simp_all
  next
    case live: False
    then have us: "pe_port ?e \<noteq> None \<or> pe_set ?e \<noteq> None" using n(4) by (simp add: used_entry_def)
    obtain h' where h': "kbind (give_up_port (pe_port ?e) (pe_rights ?e) (set_space i ?sp h)) (give_up_set (pe_set ?e)) = Ret h'" "ipc_ok c h'"
      "ipc_spaces h' = (ipc_spaces h)(i \<mapsto> ?sp)" "all_rights c h' \<subseteq># all_rights c h" "next_port_id h' = next_port_id h" "next_space_id h' = next_space_id h"
      by (rule give_up_entry [OF ok sp n(3) space_okD [OF so'] tab refl ei us safe])
    have "space_drop i n h = kbind (kbind (give_up_port (pe_port ?e) (pe_rights ?e) (set_space i ?sp h)) (give_up_set (pe_set ?e))) (\<lambda>h. Ret (MACH_MSG_OK, h))"
      using n us live sp by (auto simp: space_drop_def with_space_def Let_def emptied_entry kbind_assoc)
    then show ?thesis using h' True by (intro that [of h']) simp_all
  qed
qed

section \<open>Taking one right from a name\<close>

lemma has_bit:
  "has r MACH_PORT_RIGHT_RECEIVE \<longleftrightarrow> bit r 0" "has r MACH_PORT_RIGHT_SEND \<longleftrightarrow> bit r 1" "has r MACH_PORT_RIGHT_SEND_ONCE \<longleftrightarrow> bit r 2"
  using and_exp_eq_0_iff_not_bit [of r 0] and_exp_eq_0_iff_not_bit [of r 1] and_exp_eq_0_iff_not_bit [of r 2]
  by (simp_all add: has_def MACH_PORT_RIGHT_RECEIVE_def MACH_PORT_RIGHT_SEND_def MACH_PORT_RIGHT_SEND_ONCE_def)

lemma sub_right:
  fixes r right :: "8 word"
  assumes "r AND right = right"
  shows "bit right k \<Longrightarrow> bit r k"
  using assms by (metis bit_and_iff)

lemma rights_held_split:
  assumes "r AND right = right"
  shows "rights_held p (r AND NOT right) + rights_held p right = rights_held p r"
  using sub_right [OF assms] by (auto simp: rights_held_def has_bit bit_and_iff bit_not_iff)

lemma rights_ok_minus:
  assumes "rights_ok r" "r AND NOT right \<noteq> 0"
  shows "rights_ok (r AND NOT right)"
proof -
  let ?m = "NOT (MACH_PORT_RIGHT_RECEIVE OR MACH_PORT_RIGHT_SEND OR MACH_PORT_RIGHT_SEND_ONCE)"
  have "(r AND NOT right) AND ?m = (r AND ?m) AND NOT right" by (simp only: ac_simps)
  then show ?thesis using assms by (simp add: rights_ok_def)
qed

lemma take_right_ok:
  assumes ok: "space_ok sp" and n: "0 < n" "n < length (ps_table sp)" and p: "pe_port (ps_table sp ! n) = Some p"
    and sub: "pe_rights (ps_table sp ! n) AND right = right"
  obtains e where "space_ok (take_right n right sp)" "ps_table (take_right n right sp) = (ps_table sp)[n := e]"
    "entry_holds e + rights_held p right = entry_holds (ps_table sp ! n)" "entry_sets e + {#} = entry_sets (ps_table sp ! n)"
proof -
  let ?e = "ps_table sp ! n" let ?r = "pe_rights ?e AND NOT right"
  have ei: "entry_inv ?e" using ok n space_invD(4) by (simp add: space_ok_def)
  note d = entry_invD(1) [OF ei p]
  have u: "used_entry ?e" using p by (simp add: used_entry_def)
  note hs = rights_held_split [OF sub, of p]
  show ?thesis
  proof (cases "?r = 0")
    case True
    then have e: "?e\<lparr>pe_port := None, pe_rights := ?r\<rparr> = no_entry" using d by (simp add: no_entry_def)
    then have t: "take_right n right sp = free_slot n (put_entry n no_entry sp)" using True by (simp add: take_right_def Let_def)
    have "rights_held p ?r = {#}" using True by (simp add: rights_held_def has_def)
    then have "rights_held p right = entry_holds ?e" using hs p by (simp add: entry_holds_def)
    then show ?thesis using free_slot_ok [OF ok n u] d
      by (intro that [of no_entry]) (simp_all add: t, simp add: entry_sets_def)
  next
    case False
    let ?e' = "?e\<lparr>pe_rights := ?r\<rparr>"
    have t: "take_right n right sp = put_entry n ?e' sp" using False by (simp add: take_right_def Let_def)
    have e': "used_entry ?e'" "entry_inv ?e'" using p d rights_ok_minus [OF _ False] by (simp_all add: used_entry_def entry_inv_def)
    show ?thesis using put_used_ok [OF ok n u e'] hs p
      by (intro that [of ?e']) (simp_all add: t entry_holds_def entry_sets_def)
  qed
qed

lemma taken_right:
  assumes ok: "ipc_ok c h" and alive: "i \<notin> cx_dying c" and sp: "ipc_spaces h i = Some sp" and n: "0 < n" "n < length (ps_table sp)"
    and p: "pe_port (ps_table sp ! n) = Some p" and sub: "pe_rights (ps_table sp ! n) AND right = right"
  shows "ipc_inv (give (rights_held p right) {#} c) (set_space i (take_right n right sp) h)"
    "all_rights c (set_space i (take_right n right sp) h) + rights_held p right = all_rights c h"
    "stable c (set_space i (take_right n right sp) h) + rights_held p right = stable c h"
proof -
  have so: "space_ok sp" by (rule ipc_okD(7) [OF ok alive sp])
  obtain e where e: "space_ok (take_right n right sp)" "ps_table (take_right n right sp) = (ps_table sp)[n := e]"
    "entry_holds e + rights_held p right = entry_holds (ps_table sp ! n)" "entry_sets e + {#} = entry_sets (ps_table sp ! n)"
    by (rule take_right_ok [OF so n p sub])
  note t = take_entry [OF ipc_okD(2) [OF ok] sp space_okD [OF e(1)] n(2) e(2-4)]
  show "ipc_inv (give (rights_held p right) {#} c) (set_space i (take_right n right sp) h)" using t(1) by (simp add: give_def)
  show "all_rights c (set_space i (take_right n right sp) h) + rights_held p right = all_rights c h" by (rule t(2))
  show "stable c (set_space i (take_right n right sp) h) + rights_held p right = stable c h" by (rule t(3))
qed

definition named :: "port_space \<Rightarrow> nat \<Rightarrow> 8 word \<Rightarrow> nat \<Rightarrow> bool" where
  "named sp n right p \<longleftrightarrow> n \<noteq> MACH_PORT_NULL \<and> n \<noteq> MACH_PORT_DEAD \<and> n < length (ps_table sp) \<and>
     pe_port (ps_table sp ! n) = Some p \<and> pe_rights (ps_table sp ! n) AND right = right"

lemma named_lookup: "named sp n right p \<longleftrightarrow> space_lookup sp n right = Some (p, pe_rights (ps_table sp ! n))"
  by (auto simp: named_def space_lookup_def Let_def split: option.splits if_splits)

lemma not_lacking:
  assumes "named sp n right p" "rights_ok right"
  shows "\<not> lacks_right sp n right"
  using assms by (auto simp: named_def lacks_right_def rights_ok_def)

text \<open>The right is held: it is taken from the name and dropped.\<close>

lemma space_drop_one_right_ok:
  assumes ok: "ipc_ok c h" and alive: "i \<notin> cx_dying c" and sp: "ipc_spaces h i = Some sp" and n: "named sp n right p" and r: "rights_ok right"
    and safe: "last_name_safe c p right h"
  obtains h' where "space_drop_one_right i n right h = Ret (MACH_MSG_OK, h')" "ipc_ok c h'" "ipc_spaces h' = (ipc_spaces h)(i \<mapsto> take_right n right sp)"
    "all_rights c h' \<subseteq># all_rights c h" "next_port_id h' = next_port_id h" "next_space_id h' = next_space_id h"
proof -
  have nn: "0 < n" "n < length (ps_table sp)" "pe_port (ps_table sp ! n) = Some p" "pe_rights (ps_table sp ! n) AND right = right"
    "n \<noteq> MACH_PORT_NULL" "n \<noteq> MACH_PORT_DEAD"
    using n by (auto simp: named_def MACH_PORT_NULL_def)
  note t = taken_right [OF ok alive sp nn(1-4)]
  have "pins c (set_space i (take_right n right sp) h)" using ipc_okD(3) [OF ok] by simp
  note run = port_deref_ok [OF r t(1) this idleD(1) [OF ipc_okD(1) [OF ok]]]
  obtain h' where h': "port_deref p right (set_space i (take_right n right sp) h) = Ret h'" "ipc_ok c h'"
    "ipc_spaces h' = (ipc_spaces h)(i \<mapsto> take_right n right sp)" "all_rights c h' \<subseteq># all_rights c h"
    "next_port_id h' = next_port_id h" "next_space_id h' = next_space_id h"
    by (rule give_up_after [OF ok t(1) r t(2,3) safe run])
  have "space_drop_one_right i n right h = Ret (MACH_MSG_OK, h')"
    using nn sp h'(1) not_lacking [OF n r] by (simp add: space_drop_one_right_def with_space_def)
  then show ?thesis using h'(2-) by (rule that)
qed

lemma space_unbind_ok:
  assumes ok: "ipc_ok c h" and alive: "i \<notin> cx_dying c" and sp: "ipc_spaces h i = Some sp" and n: "named sp n right p" and r: "rights_ok right"
  shows "space_unbind_no_deref i n right h = Ret (MACH_MSG_OK, set_space i (take_right n right sp) h)"
    "ipc_ok (give (rights_held p right) {#} c) (set_space i (take_right n right sp) h)"
    "all_rights c (set_space i (take_right n right sp) h) + rights_held p right = all_rights c h"
proof -
  have nn: "0 < n" "n < length (ps_table sp)" "pe_port (ps_table sp ! n) = Some p" "pe_rights (ps_table sp ! n) AND right = right"
    "n \<noteq> MACH_PORT_NULL" "n \<noteq> MACH_PORT_DEAD"
    using n by (auto simp: named_def MACH_PORT_NULL_def)
  note t = taken_right [OF ok alive sp nn(1-4)]
  show "space_unbind_no_deref i n right h = Ret (MACH_MSG_OK, set_space i (take_right n right sp) h)"
    using nn sp not_lacking [OF n r] by (simp add: space_unbind_no_deref_def with_space_def)
  show "ipc_ok (give (rights_held p right) {#} c) (set_space i (take_right n right sp) h)"
    using t ok pins_give [OF ipc_okD(3) [OF ok]] by (auto simp: ipc_ok_def idle_def pinned_def pins_def settled_def calm_def)
  show "all_rights c (set_space i (take_right n right sp) h) + rights_held p right = all_rights c h" by (rule t(2))
qed

section \<open>Dead names\<close>

definition dead_entry :: port_entry where
  "dead_entry = \<lparr>pe_port = None, pe_set = None, pe_rights = 0, pe_dead = True\<rparr>"

lemma dead_entry_facts [simp]: "used_entry dead_entry" "entry_inv dead_entry" "entry_holds dead_entry = {#}" "entry_sets dead_entry = {#}"
  by (simp_all add: dead_entry_def used_entry_def entry_inv_def entry_holds_def entry_sets_def)

text \<open>The name of a port that has died, without its receive right, becomes a dead name.\<close>

lemma mach_port_type_dies:
  assumes ok: "ipc_ok c h" and alive: "i \<notin> cx_dying c" and sp: "ipc_spaces h i = Some sp" and n: "named sp n r p" and r: "r = pe_rights (ps_table sp ! n)"
    and no: "\<not> has r MACH_PORT_RIGHT_RECEIVE" and q: "ipc_ports h p = Some q" "p_dead q"
    and safe: "last_name_safe c p r h"
  obtains h' where "mach_port_type i n h = Ret (MACH_PORT_TYPE_DEAD_NAME, h')" "ipc_ok c h'"
    "ipc_spaces h' = (ipc_spaces h)(i \<mapsto> put_entry n dead_entry sp)"
    "all_rights c h' \<subseteq># all_rights c h" "next_port_id h' = next_port_id h" "next_space_id h' = next_space_id h"
proof -
  let ?e = "ps_table sp ! n" let ?sp = "put_entry n dead_entry sp"
  have nn: "0 < n" "n < length (ps_table sp)" "pe_port ?e = Some p" "n \<noteq> MACH_PORT_NULL" "n \<noteq> MACH_PORT_DEAD"
    using n by (auto simp: named_def MACH_PORT_NULL_def)
  have so: "space_ok sp" by (rule ipc_okD(7) [OF ok alive sp])
  have ei: "entry_inv ?e" using so nn space_invD(4) by (simp add: space_ok_def)
  note d = entry_invD(1) [OF ei nn(3)]
  have ro: "rights_ok r" using d r by simp
  have e: "?e\<lparr>pe_port := None, pe_set := None, pe_rights := 0, pe_dead := True\<rparr> = dead_entry" by (simp add: dead_entry_def)
  have so': "space_ok ?sp" by (rule put_used_ok [OF so nn(1,2)]) (use nn(3) in \<open>simp_all add: used_entry_def [of "ps_table sp ! n"]\<close>)
  have eh: "entry_holds dead_entry + rights_held p r = entry_holds ?e" "entry_sets dead_entry + {#} = entry_sets ?e"
    using nn(3) d r by (simp_all add: entry_holds_def entry_sets_def dead_entry_def)
  note t = take_entry [OF ipc_okD(2) [OF ok] sp space_okD [OF so'] nn(2) put_entry_simps(1) eh]
  have t1: "ipc_inv (give (rights_held p r) {#} c) (set_space i ?sp h)" using t(1) by (simp add: give_def)
  have "pins c (set_space i ?sp h)" using ipc_okD(3) [OF ok] by simp
  note run = port_deref_ok [OF ro t1 this idleD(1) [OF ipc_okD(1) [OF ok]]]
  obtain h' where h': "port_deref p r (set_space i ?sp h) = Ret h'" "ipc_ok c h'"
    "ipc_spaces h' = (ipc_spaces h)(i \<mapsto> ?sp)" "all_rights c h' \<subseteq># all_rights c h"
    "next_port_id h' = next_port_id h" "next_space_id h' = next_space_id h"
    by (rule give_up_after [OF ok t1 ro t(2,3) safe run])
  have "mach_port_type i n h = Ret (MACH_PORT_TYPE_DEAD_NAME, h')"
    using nn d sp q no r h'(1) by (simp add: mach_port_type_def with_space_def with_port_def Let_def e)
  then show ?thesis using h'(2-) by (rule that)
qed

section \<open>Installing a name\<close>

definition port_name :: "nat \<Rightarrow> 8 word \<Rightarrow> port_entry" where
  "port_name p r = \<lparr>pe_port = Some p, pe_set = None, pe_rights = r, pe_dead = False\<rparr>"

definition set_name :: "nat \<Rightarrow> port_entry" where
  "set_name s = \<lparr>pe_port = None, pe_set = Some s, pe_rights = MACH_PORT_RIGHT_PORT_SET, pe_dead = False\<rparr>"

lemma name_facts [simp]:
  "used_entry (port_name p r)" "entry_inv (port_name p r) = rights_ok r" "entry_holds (port_name p r) = rights_held p r"
  "entry_sets (port_name p r) = {#}"
  "used_entry (set_name s)" "entry_inv (set_name s)" "entry_holds (set_name s) = {#}" "entry_sets (set_name s) = {#s#}"
  by (simp_all add: port_name_def set_name_def used_entry_def entry_inv_def entry_holds_def entry_sets_def)

text \<open>
  The new space has one more name, which was free, and otherwise says what the old one said.
\<close>

definition adds_name :: "nat \<Rightarrow> port_entry \<Rightarrow> port_space \<Rightarrow> port_space \<Rightarrow> bool" where
  "adds_name n e sp sp' \<longleftrightarrow> space_ok sp' \<and> 0 < n \<and> n < length (ps_table sp') \<and> ps_table sp' ! n = e \<and>
     (n < length (ps_table sp) \<longrightarrow> \<not> used_entry (ps_table sp ! n)) \<and> length (ps_table sp) \<le> length (ps_table sp') \<and>
     (\<forall>m < length (ps_table sp'). m \<noteq> n \<longrightarrow> ps_table sp' ! m = (if m < length (ps_table sp) then ps_table sp ! m else no_entry)) \<and>
     space_holds sp' = space_holds sp + entry_holds e \<and> space_sets sp' = space_sets sp + entry_sets e"

definition free_names :: "port_space \<Rightarrow> bool" where
  "free_names sp \<longleftrightarrow> (\<exists>n. 0 < n \<and> n < length (ps_table sp) \<and> \<not> used_entry (ps_table sp ! n))"

lemma unused_entry: "entry_inv e \<Longrightarrow> \<not> used_entry e \<Longrightarrow> e = no_entry"
  by (simp add: entry_inv_def used_entry_def no_entry_def)

lemma install_slot:
  assumes ok: "space_ok sp" and sz: "2 * length (ps_table sp) < 2 ^ 32"
    and e: "no_entry\<lparr>pe_port := po, pe_set := so, pe_rights := r\<rparr> = e" "used_entry e" "entry_inv e"
  obtains (found) n sp1 h1 where "space_alloc_slot_locked sp h = (MACH_MSG_OK, n, sp1, h1)"
      "adds_name n e sp (install_entry n po so r sp1)" "\<exists>k. h1 = h\<lparr>ipc_allocs := k\<rparr>"
    | (full) h1 where "space_alloc_slot_locked sp h = (MACH_E_NOMEM, 0, sp, h1)" "h1 = h\<lparr>ipc_allocs := ipc_allocs h + 1\<rparr>"
      "\<not> free_names sp" "\<not> ipc_kmem h (ipc_allocs h)"
proof (cases rule: alloc_slot_ok [OF ok sz, of h, case_names found full])
  case (found n sp0 h')
  have "entry_inv (ps_table sp0 ! n)" using found(3,5) space_invD(4) by (simp add: space_ok_def)
  then have "ps_table sp0 ! n = no_entry" using found(6) by (rule unused_entry)
  then have e0: "e = (ps_table sp0 ! n)\<lparr>pe_port := po, pe_set := so, pe_rights := r\<rparr>" using e(1) by simp
  note i = install_entry_ok [OF found(3-6) e0 e(2,3)]
  have "(ps_table sp0)[n := e] ! m = (if m < length (ps_table sp) then ps_table sp ! m else no_entry)"
    if "m < length (ps_table sp0)" "m \<noteq> n" for m
    using that found(2) by (auto simp: grown_space_def nth_append)
  moreover have "n < length (ps_table sp) \<longrightarrow> \<not> used_entry (ps_table sp ! n)" "length (ps_table sp) \<le> length (ps_table sp0)"
    using found(2,6) by (auto simp: grown_space_def nth_append)
  ultimately have "adds_name n e sp (install_entry n po so r (claim_slot n sp0))"
    using i found by (simp add: adds_name_def)
  moreover have "\<exists>k. h' = h\<lparr>ipc_allocs := k\<rparr>"
  proof (cases "h' = h")
    case True
    then have "h' = h\<lparr>ipc_allocs := ipc_allocs h\<rparr>" by simp
    then show ?thesis by blast
  qed (use found(2) in blast)
  ultimately show ?thesis using found(1) that(1) by blast
next
  case full
  show ?thesis by (rule that(2) [OF full(1)]) (use full in \<open>auto simp: free_names_def\<close>)
qed

lemma adds_nameD:
  assumes "adds_name n e sp sp'"
  shows "space_ok sp'" "0 < n" "n < length (ps_table sp')" "n < 2 ^ 32 - 1" "ps_table sp' ! n = e"
    "space_holds sp' = space_holds sp + entry_holds e" "space_sets sp' = space_sets sp + entry_sets e"
    "n < length (ps_table sp) \<Longrightarrow> \<not> used_entry (ps_table sp ! n)" "n \<noteq> MACH_PORT_NULL" "n \<noteq> MACH_PORT_DEAD"
proof -
  show a: "space_ok sp'" "0 < n" "n < length (ps_table sp')" "ps_table sp' ! n = e" 
    "space_holds sp' = space_holds sp + entry_holds e" "space_sets sp' = space_sets sp + entry_sets e"
    "n < length (ps_table sp) \<Longrightarrow> \<not> used_entry (ps_table sp ! n)"
    using assms by (auto simp: adds_name_def)
  show "n < 2 ^ 32 - 1" using a(3) space_invD(2) a(1) by (fastforce simp: space_ok_def)
  then show "n \<noteq> MACH_PORT_NULL" "n \<noteq> MACH_PORT_DEAD" using a(2) by (auto simp: MACH_PORT_NULL_def MACH_PORT_DEAD_def)
qed

lemma adds_name_other:
  assumes "adds_name n e sp sp'" "m \<noteq> n" "m < length (ps_table sp')"
  shows "ps_table sp' ! m = (if m < length (ps_table sp) then ps_table sp ! m else no_entry)"
  using assms by (simp add: adds_name_def)

text \<open>Looking names up after one was added.\<close>

lemma adds_name_lookup:
  assumes a: "adds_name n (port_name p r) sp sp'"
  shows "space_lookup sp' n need = (if r AND need = need then Some (p, r) else None)"
    "m \<noteq> n \<Longrightarrow> space_lookup sp' m need = space_lookup sp m need" "space_lookup sp n need = None"
    "space_lookup_set sp' m = space_lookup_set sp m" "space_name_is_dead sp' m = space_name_is_dead sp m"
proof -
  note d = adds_nameD [OF a]
  have le: "length (ps_table sp) \<le> length (ps_table sp')" using a by (simp add: adds_name_def)
  show "space_lookup sp' n need = (if r AND need = need then Some (p, r) else None)"
    using d by (simp add: space_lookup_def port_name_def)
  show "space_lookup sp n need = None" using d(8) by (auto simp: space_lookup_def Let_def used_entry_def)
  show "space_lookup sp' m need = space_lookup sp m need" if "m \<noteq> n"
    using adds_name_other [OF a that] le by (auto simp: space_lookup_def no_entry_def Let_def)
  show "space_lookup_set sp' m = space_lookup_set sp m"
    using adds_name_other [OF a, of m] le d(3,5,8) by (cases "m = n") (auto simp: space_lookup_set_def no_entry_def port_name_def used_entry_def)
  show "space_name_is_dead sp' m = space_name_is_dead sp m"
    using adds_name_other [OF a, of m] le d(3,5,8) by (cases "m = n") (auto simp: space_name_is_dead_def no_entry_def port_name_def used_entry_def split: if_splits)
qed

text \<open>The rights pass from the running code into the table.\<close>

lemma inv_adds_name:
  assumes inv: "ipc_inv c h" and sp: "ipc_spaces h i = Some sp" and a: "adds_name n e sp sp'"
    and R: "cx_rights c = R + entry_holds e" and S: "cx_sets c = S + entry_sets e"
  shows "ipc_inv (c\<lparr>cx_rights := R, cx_sets := S\<rparr>) (set_space i sp' h)"
    "all_rights (c\<lparr>cx_rights := R, cx_sets := S\<rparr>) (set_space i sp' h) = all_rights c h"
proof -
  note d = adds_nameD [OF a]
  have mv: "space_holds sp' + R = space_holds sp + cx_rights c" "space_sets sp' + S = space_sets sp + cx_sets c"
    using d(6,7) R S by (simp_all add: ac_simps)
  show "ipc_inv (c\<lparr>cx_rights := R, cx_sets := S\<rparr>) (set_space i sp' h)"
    "all_rights (c\<lparr>cx_rights := R, cx_sets := S\<rparr>) (set_space i sp' h) = all_rights c h"
    using d(1) by (auto intro!: inv_set_space [OF inv sp mv] simp: space_ok_def)
qed

lemma port_ref_set_space: "port_ref p r (set_space i sp h) = kbind (port_ref p r h) (\<lambda>h'. Ret (set_space i sp h'))"
  by (simp add: port_ref_def with_port_def set_space_def set_port_def Let_def KASSERT_def split: option.splits)

lemma port_ref_allocs: "port_ref p r (h\<lparr>ipc_allocs := k\<rparr>) = kbind (port_ref p r h) (\<lambda>h'. Ret (h'\<lparr>ipc_allocs := k\<rparr>))"
  by (simp add: port_ref_def with_port_def set_port_def Let_def KASSERT_def split: option.splits)

lemma port_name_entry [simp]: "no_entry\<lparr>pe_port := Some p, pe_set := None, pe_rights := r\<rparr> = port_name p r"
  "no_entry\<lparr>pe_port := None, pe_set := Some s, pe_rights := MACH_PORT_RIGHT_PORT_SET\<rparr> = set_name s"
  by (simp_all add: no_entry_def port_name_def set_name_def)

lemma set_space_same: "ipc_spaces h i = Some sp \<Longrightarrow> set_space i sp (h\<lparr>ipc_allocs := k\<rparr>) = h\<lparr>ipc_allocs := k\<rparr>"
  by (simp add: set_space_def fun_upd_idem)

lemma set_space_allocs: "set_space i sp (h\<lparr>ipc_allocs := k\<rparr>) = (set_space i sp h)\<lparr>ipc_allocs := k\<rparr>"
  by (simp add: set_space_def)

lemma space_install_ok:
  assumes inv: "ipc_inv c h" and sp: "ipc_spaces h i = Some sp" and so: "space_ok sp" and sz: "2 * length (ps_table sp) < 2 ^ 32"
    and r: "rights_ok r" and q: "ipc_ports h p = Some q" and F: "p \<notin> cx_freeing c"
    and one: "has r MACH_PORT_RIGHT_RECEIVE \<Longrightarrow> \<not> p_has_receive q" and lim: "p_refs q + 3 < 2 ^ 32"
  obtains (ok) n h' q' sp' k where "space_install i p r h = Ret (MACH_MSG_OK, n, h')" "ipc_inv (unzero p c) h'"
      "all_rights c h' = all_rights c h + rights_held p r" "adds_name n (port_name p r) sp sp'"
      "h' = (set_space i sp' (set_port p q' h))\<lparr>ipc_allocs := k\<rparr>"
      "p_queue q' = p_queue q" "p_set q' = p_set q" "p_has_receive q' \<longleftrightarrow> p_has_receive q \<or> has r MACH_PORT_RIGHT_RECEIVE"
      "p_send_waiters q' = p_send_waiters q" "p_qresv q' = p_qresv q"
    | (nomem) "space_install i p r h = Ret (MACH_E_NOMEM, 0, h\<lparr>ipc_allocs := ipc_allocs h + 1\<rparr>)" "\<not> free_names sp"
proof -
  have r0: "r \<noteq> 0" using r by (simp add: rights_ok_def)
  have ei: "entry_inv (port_name p r)" using r by simp
  show ?thesis
  proof (cases rule: install_slot [OF so sz port_name_entry(1) name_facts(1) ei, of h, case_names found full])
    case full
    then show ?thesis using sp r0 by (intro nomem) (simp_all add: space_install_def with_space_def set_space_same)
  next
    case (found n sp1 h1)
    let ?sp = "install_entry n (Some p) None r sp1"
    obtain k where k: "h1 = h\<lparr>ipc_allocs := k\<rparr>" using found(3) by blast
    obtain h2 q' where h2: "port_ref p r h = Ret h2" "ipc_inv (give (rights_held p r) {#} (unzero p c)) h2"
      "all_rights c h2 = all_rights c h" "h2 = set_port p q' h" and q': "p_queue q' = p_queue q" "p_set q' = p_set q"
      "p_has_receive q' \<longleftrightarrow> p_has_receive q \<or> has r MACH_PORT_RIGHT_RECEIVE" "p_send_waiters q' = p_send_waiters q"
      "p_qresv q' = p_qresv q" "p_dead q' = p_dead q"
      by (rule port_ref_ok [OF inv r q F one lim])
    have sp2: "ipc_spaces h2 i = Some sp" using sp h2(4) by simp
    have i: "ipc_inv (unzero p c) (set_space i ?sp h2)" "all_rights c (set_space i ?sp h2) = all_rights c h + rights_held p r"
      using inv_adds_name [OF h2(2) sp2 found(2), of "cx_rights c" "cx_sets c"] h2(3)
      by (simp_all add: give_def unzero_def all_rights_def)
    have "space_install i p r h = Ret (MACH_MSG_OK, n, (set_space i ?sp h2)\<lparr>ipc_allocs := k\<rparr>)"
      using sp r0 found(1) h2(1) by (simp add: space_install_def with_space_def k set_space_allocs port_ref_set_space port_ref_allocs)
    then show ?thesis using i found(2) h2(4) q' by (intro ok [where n = n and sp' = ?sp and q' = q' and k = k]) simp_all
  qed
qed

end
