(* ===== verification/Port_Calls.thy ===== *)
theory Port_Calls
  imports Port_Names
begin

text \<open>
  Each call on a name space keeps \<open>ipc_ok\<close>, and what it does to the names: allocating and dropping ports and sets,
  moving a port into and out of a set, injecting a send right, dead-name and no-senders requests, and creating and
  destroying a space.
\<close>

unbundle bit_operations_syntax

section \<open>Allocating a port\<close>

lemma fresh_slot:
  assumes "ipc_ok c h"
  shows "next_port_id h \<notin># cx_slots c"
proof
  assume "next_port_id h \<in># cx_slots c"
  then obtain k where "(next_port_id h, k) \<in># cx_rights c" using ipc_okD(1) [OF assms] by (auto simp: idle_def pinned_def)
  then have "(next_port_id h, k) \<in># all_rights c h" by (simp add: all_rights_def)
  then show False using ipc_invD(1,3) [OF ipc_okD(2) [OF assms]] by fastforce
qed

lemma port_free_new:
  assumes inv: "ipc_inv (zero_ref p c) h" and q: "ipc_ports h p = Some (new_port i)" and z: "p \<notin> cx_zero c" "p \<notin> cx_freeing c"
  shows "port_free d p h = Ret (h\<lparr>ipc_ports := (ipc_ports h)(p := None)\<rparr>)" "ipc_inv c (h\<lparr>ipc_ports := (ipc_ports h)(p := None)\<rparr>)"
    "all_rights c (h\<lparr>ipc_ports := (ipc_ports h)(p := None)\<rparr>) = all_rights c h"
proof -
  show "port_free d p h = Ret (h\<lparr>ipc_ports := (ipc_ports h)(p := None)\<rparr>)"
    using q by (simp add: port_free_def with_port_def KASSERT_def new_port_def)
  note s = inv_start_free [OF inv q z(2)]
  have "ipc_inv (freeing p c) h" "all_rights (freeing p c) h = all_rights c h"
    using s by (simp_all add: new_port_def port_holds_def notify_rights_def)
  then show "ipc_inv c (h\<lparr>ipc_ports := (ipc_ports h)(p := None)\<rparr>)"
    "all_rights c (h\<lparr>ipc_ports := (ipc_ports h)(p := None)\<rparr>) = all_rights c h"
    using inv_end_free [OF _ z] by simp_all
qed

lemma pins_new_port:
  assumes "pins c h" "ipc_ports h' = (ipc_ports h)(p \<mapsto> q)" "p_send_waiters q = []" "p_qresv q = 0"
  shows "pins c h'"
  using assms by (auto simp: pins_def)

lemma stable_adds_name:
  assumes inv: "ipc_inv c h" and sp: "ipc_spaces h i = Some sp" and a: "adds_name n e sp sp'"
    and h': "ipc_spaces h' = (ipc_spaces h)(i \<mapsto> sp')" "next_space_id h' = next_space_id h"
  shows "stable c h' = stable c h + entry_holds e"
proof -
  have "space_holds sp' + {#} = space_holds sp + entry_holds e" using adds_nameD(6) [OF a] by simp
  then have "over (next_space_id h) ((ipc_spaces h)(i \<mapsto> sp')) (\<lambda>_. space_holds) + {#} =
      over (next_space_id h) (ipc_spaces h) (\<lambda>_. space_holds) + entry_holds e"
    using sp conjunct1 [OF ipc_invD(6) [OF inv sp]] by (intro over_space [where g = space_holds]) auto
  then show ?thesis by (simp add: stable_def h')
qed

lemma settled_more:
  assumes "settled c h" "\<And>m. listed h' m \<Longrightarrow> listed h m" "dom (ipc_ports h) \<subseteq> dom (ipc_ports h')"
    "stable c h' = stable c h + R" "all_rights c h' = all_rights c h + R"
  shows "settled c h'"
  unfolding settled_def calm_def
proof (intro allI impI)
  fix m assume "listed h' m"
  then have "listed h m" by (rule assms(2))
  then have m: "ipc_ports h m \<noteq> None" "(\<exists>k. (m, k) \<in># stable c h) \<or> (\<forall>k. k \<noteq> HRecv \<longrightarrow> (m, k) \<notin># all_rights c h)"
    using assms(1) by (auto simp: settled_def calm_def)
  have "ipc_ports h' m \<noteq> None" using m(1) assms(3) by blast
  then show "ipc_ports h' m \<noteq> None \<and> ((\<exists>k. (m, k) \<in># stable c h') \<or> (\<forall>k. k \<noteq> HRecv \<longrightarrow> (m, k) \<notin># all_rights c h'))"
    using m(2) unfolding assms(4,5) by auto
qed

lemma settled_same:
  assumes "settled c h" "ipc_sets h' = ipc_sets h" "dom (ipc_ports h) \<subseteq> dom (ipc_ports h')"
    "ipc_spaces h' = ipc_spaces h" "next_space_id h' = next_space_id h" "all_rights c h' = all_rights c h"
  shows "settled c h'"
  by (rule settled_more [OF assms(1), of h' "{#}"]) (use assms(2-) in \<open>auto simp: stable_def listed_def\<close>)

lemma port_allocate_ok:
  assumes ok: "ipc_ok c h" and alive: "i \<notin> cx_dying c" and sp: "ipc_spaces h i = Some sp" and sz: "2 * length (ps_table sp) < 2 ^ 32"
    and id: "next_port_id h < 2 ^ 64 - 1" and r: "rights_ok r"
  obtains (allocated) n h' sp' where "port_allocate i r h = Ret (n, h')" "ipc_ok c h'"
      "all_rights c h' = all_rights c h + rights_held (next_port_id h) r" "adds_name n (port_name (next_port_id h) r) sp sp'"
      "ipc_spaces h' = (ipc_spaces h)(i \<mapsto> sp')" "ipc_ports h (next_port_id h) = None"
    | (nomem) h' where "port_allocate i r h = Ret (MACH_PORT_NULL, h')" "ipc_ok c h'" "all_rights c h' = all_rights c h"
      "ipc_spaces h' = ipc_spaces h"
proof -
  let ?p = "next_port_id h"
  have r0: "\<not> (r = 0 \<or> r AND NOT (MACH_PORT_RIGHT_RECEIVE OR MACH_PORT_RIGHT_SEND OR MACH_PORT_RIGHT_SEND_ONCE) \<noteq> 0)"
    using r by (simp add: rights_ok_def)
  note inv = ipc_okD(2) [OF ok] and idle = ipc_okD(1) [OF ok]
  show ?thesis
  proof (cases rule: port_create_ok [OF inv id fresh_slot [OF ok], case_names created nomem])
    case (nomem h')
    then have "settled c h'" using ipc_okD(8) [OF ok] by (elim settled_same) simp_all
    then have "ipc_ok c h'" using ok nomem by (simp add: ipc_ok_def pins_def)
    then show ?thesis using nomem r0 by (intro that(2) [of h']) (simp_all add: port_allocate_def)
  next
    case (created h1)
    have sp1: "ipc_spaces h1 i = Some sp" using created(5) sp by simp
    have q1: "ipc_ports h1 ?p = Some (new_port ?p)" using created(4) by simp
    have ids: "next_port_id h1 = Suc ?p" "next_space_id h1 = next_space_id h"
      using created(1,7) by (auto simp: port_create_def ipc_alloc_def Let_def set_port_def split: if_splits)
    have zf: "?p \<notin> cx_zero c" "?p \<notin> cx_freeing c" "?p \<notin> cx_freeing (zero_ref ?p c)" using idle by (simp_all add: idle_def)
    have so: "space_ok sp" by (rule ipc_okD(7) [OF ok alive sp])
    have uz: "unzero ?p (zero_ref ?p c) = c" using zf by (simp add: unzero_def zero_ref_def)
    have fr: "\<not> p_has_receive (new_port ?p)" "p_refs (new_port ?p) + 3 < 2 ^ 32" by (simp_all add: new_port_def)
    show ?thesis
    proof (cases rule: space_install_ok [OF created(2) sp1 so sz r q1 zf(3) fr, case_names ok nomem])
      case (ok n h2 q' sp' k)
      have P2: "ipc_ports h2 = (ipc_ports h)(?p \<mapsto> q')" and N2: "next_port_id h2 = Suc ?p" "next_space_id h2 = next_space_id h"
        and S2: "ipc_spaces h2 = (ipc_spaces h)(i \<mapsto> sp')"
        unfolding ok(5) using created(4,5) ids by simp_all
      have "p_send_waiters q' = []" "p_qresv q' = 0" using ok(9,10) by (simp_all add: new_port_def)
      then have "pins c h2" by (rule pins_new_port [OF ipc_okD(3) [OF assms(1)] P2])
      moreover have "ipc_inv c h2" using ok(2) unfolding uz .
      moreover have A2: "all_rights c h2 = all_rights c h + rights_held ?p r" using ok(3) created(3) by simp
      moreover have "settled c h2"
      proof (rule settled_more [OF ipc_okD(8) [OF assms(1)] _ _ _ A2])
        show "stable c h2 = stable c h + rights_held ?p r" using stable_adds_name [OF inv sp ok(4) S2 N2(2)] by simp
        show "listed h2 m \<Longrightarrow> listed h m" for m using created(6) unfolding ok(5) by (simp add: listed_def)
      qed (use P2 in auto)
      ultimately have "ipc_ok c h2" using idle N2 id ipc_okD(5) [OF assms(1)] by (simp add: ipc_ok_def)
      moreover have "port_allocate i r h = Ret (n, h2)" using created(1) ok(1) r0 by (simp add: port_allocate_def)
      ultimately show ?thesis using ok(4) S2 created(8) A2 by (intro that(1) [of n h2 sp'])
    next
      case nomem
      let ?h = "h1\<lparr>ipc_allocs := ipc_allocs h1 + 1\<rparr>"
      have i2: "ipc_inv (zero_ref ?p c) ?h" "ipc_ports ?h ?p = Some (new_port ?p)" using created(2) q1 by simp_all
      note f = port_free_new [OF i2 zf(1,2)]
      let ?h3 = "?h\<lparr>ipc_ports := (ipc_ports ?h)(?p := None)\<rparr>"
      have P3: "ipc_ports ?h3 = ipc_ports h" using created(4,8) by (simp add: fun_upd_idem)
      moreover have "settled c ?h3" using ipc_okD(8) [OF assms(1)]
        by (rule settled_same) (use P3 created(3,5,6) ids f(3) in simp_all)
      ultimately have "ipc_ok c ?h3" using f(2) assms(1) ids id by (simp add: ipc_ok_def pins_def)
      then show ?thesis using f nomem created(1,3,5) r0
        by (intro that(2) [of ?h3]) (simp_all add: port_allocate_def)
    qed
  qed
qed

section \<open>Allocating a set\<close>

lemma port_set_ref_set_space: "port_set_ref s (set_space i sp h) = kbind (port_set_ref s h) (\<lambda>h'. Ret (set_space i sp h'))"
  by (simp add: port_set_ref_def with_set_def set_space_def set_pset_def split: option.splits)

lemma port_set_ref_allocs: "port_set_ref s (h\<lparr>ipc_allocs := k\<rparr>) = kbind (port_set_ref s h) (\<lambda>h'. Ret (h'\<lparr>ipc_allocs := k\<rparr>))"
  by (simp add: port_set_ref_def with_set_def set_pset_def split: option.splits)

lemma space_install_set_ok:
  assumes inv: "ipc_inv c h" and sp: "ipc_spaces h i = Some sp" and so: "space_ok sp" and sz: "2 * length (ps_table sp) < 2 ^ 32"
    and t: "ipc_sets h s = Some t" and lim: "pset_refs t + 1 < 2 ^ 32"
  obtains (ok) n h' sp' k where "space_install_set i s h = Ret (MACH_MSG_OK, n, h')" "ipc_inv (unzero_set s c) h'"
      "all_rights c h' = all_rights c h" "adds_name n (set_name s) sp sp'"
      "h' = (set_space i sp' (set_pset s (t\<lparr>pset_refs := pset_refs t + 1\<rparr>) h))\<lparr>ipc_allocs := k\<rparr>"
    | (nomem) "space_install_set i s h = Ret (MACH_E_NOMEM, 0, h\<lparr>ipc_allocs := ipc_allocs h + 1\<rparr>)" "\<not> free_names sp"
proof (cases rule: install_slot [OF so sz port_name_entry(2) [of s] name_facts(5) [of s] name_facts(6) [of s], of h, case_names found full])
  case full
  then show ?thesis using sp by (intro nomem) (simp_all add: space_install_set_def with_space_def set_space_same)
next
  case (found n sp1 h1)
  let ?sp = "install_entry n None (Some s) MACH_PORT_RIGHT_PORT_SET sp1"
  obtain k where k: "h1 = h\<lparr>ipc_allocs := k\<rparr>" using found(3) by blast
  let ?h2 = "set_pset s (t\<lparr>pset_refs := pset_refs t + 1\<rparr>) h"
  note r = port_set_ref_ok [OF inv t lim]
  have sp2: "ipc_spaces ?h2 i = Some sp" using sp by simp
  have i: "ipc_inv (unzero_set s c) (set_space i ?sp ?h2)" "all_rights c (set_space i ?sp ?h2) = all_rights c h"
    using inv_adds_name [OF r(2) sp2 found(2), of "cx_rights c" "cx_sets c"] r(3)
    by (simp_all add: give_set_def unzero_set_def all_rights_def)
  have "space_install_set i s h = Ret (MACH_MSG_OK, n, (set_space i ?sp ?h2)\<lparr>ipc_allocs := k\<rparr>)"
    using sp found(1) r(1) by (simp add: space_install_set_def with_space_def k set_space_allocs port_set_ref_set_space port_set_ref_allocs)
  then show ?thesis using i found(2) by (intro ok [where n = n and sp' = ?sp and k = k]) simp_all
qed

lemma port_set_free_new:
  assumes inv: "ipc_inv (zero_set s c) h" and t: "ipc_sets h s = Some (new_pset s)" and z: "s \<notin> cx_zero_sets c"
  shows "port_set_free s h = Ret (h\<lparr>ipc_sets := (ipc_sets h)(s := None)\<rparr>)" "ipc_inv c (h\<lparr>ipc_sets := (ipc_sets h)(s := None)\<rparr>)"
    "all_rights c (h\<lparr>ipc_sets := (ipc_sets h)(s := None)\<rparr>) = all_rights c h"
proof -
  let ?h = "h\<lparr>ipc_sets := (ipc_sets h)(s := None)\<rparr>"
  show "port_set_free s h = Ret ?h" using t by (simp add: port_set_free_def with_set_def KASSERT_def new_pset_def)
  show A: "all_rights c ?h = all_rights c h" by (simp add: all_rights_def held_def)
  have A': "all_rights (zero_set s c) h = all_rights c h" by (simp add: all_rights_def zero_set_def)
  have N: "set_names ?h = set_names h" by (simp add: set_names_def)
  have zs: "cx_sets (zero_set s c) = cx_sets c" "cx_freeing (zero_set s c) = cx_freeing c" "cx_zero (zero_set s c) = cx_zero c"
    "cx_dying (zero_set s c) = cx_dying c" "cx_pages (zero_set s c) = cx_pages c" by (simp_all add: zero_set_def)
  have pset: "pset_inv (zero_set s c) (set_names h + cx_sets c) (ipc_ports h) s (new_pset s)" using ipc_invD(4) [OF inv t] by (simp add: zs)
  have none: "s \<notin># set_names h + cx_sets c" using pset by (simp add: pset_inv_def new_pset_def not_in_iff)
  have port: "port_inv c (all_rights c h) (ipc_sets ?h) p q" if pq: "ipc_ports h p = Some q" for p q
  proof (rule port_inv_cong [OF ipc_invD(2) [OF inv pq]])
    fix u v assume u: "p_set q = Some u" "ipc_sets h u = Some v"
    have "u \<noteq> s"
    proof
      assume "u = s"
      then obtain v' where "ipc_sets h s = Some v'" "p \<in> set (pset_members v')" using port_invD(11) [OF ipc_invD(2) [OF inv pq]] u(1) by blast
      then show False using t by (auto simp: new_pset_def)
    qed
    then show "\<exists>t'. ipc_sets ?h u = Some t' \<and> (p \<in> set (pset_members v) \<longrightarrow> p \<in> set (pset_members t'))" using u(2) by simp
  qed (simp_all add: A' zs, simp add: zero_set_def)
  have sets: "pset_inv c (set_names h + cx_sets c) (ipc_ports h) u v" if "ipc_sets h u = Some v" "u \<noteq> s" for u v
    using ipc_invD(4) [OF inv that(1)] that(2) by (auto simp: pset_inv_def zero_set_def)
  have pg: "pages_queued F ?h = pages_queued F h" for F by (simp add: pages_queued_def)
  have fr: "frames_ok (zero_set s c) P ms = frames_ok c P ms" for P ms by (simp add: frames_ok_def zero_set_def)
  show "ipc_inv c ?h" unfolding ipc_inv_def A N pg
    using port sets none ipc_invD [OF inv] unfolding A' zs fr by (fastforce split: if_splits)
qed

lemma port_set_allocate_ok:
  assumes ok: "ipc_ok c h" and alive: "i \<notin> cx_dying c" and sp: "ipc_spaces h i = Some sp" and sz: "2 * length (ps_table sp) < 2 ^ 32"
    and id: "next_port_id h < 2 ^ 64 - 1"
  obtains (allocated) n h' sp' where "port_set_allocate i h = Ret (n, h')" "ipc_ok c h'" "all_rights c h' = all_rights c h"
      "adds_name n (set_name (next_port_id h)) sp sp'" "ipc_spaces h' = (ipc_spaces h)(i \<mapsto> sp')"
    | (nomem) h' where "port_set_allocate i h = Ret (MACH_PORT_NULL, h')" "ipc_ok c h'" "all_rights c h' = all_rights c h"
      "ipc_spaces h' = ipc_spaces h"
proof -
  let ?s = "next_port_id h"
  note inv = ipc_okD(2) [OF ok] and idle = ipc_okD(1) [OF ok]
  show ?thesis
  proof (cases rule: port_set_create_ok [OF inv id, case_names created nomem])
    case (nomem h')
    then have "settled c h'" using ipc_okD(8) [OF ok] by (elim settled_same) simp_all
    then have "ipc_ok c h'" using ok nomem by (simp add: ipc_ok_def pins_def)
    then show ?thesis using nomem by (intro that(2) [of h']) (simp_all add: port_set_allocate_def)
  next
    case (created h1)
    have sp1: "ipc_spaces h1 i = Some sp" using created(5) sp by simp
    have t1: "ipc_sets h1 ?s = Some (new_pset ?s)" using created(6) by simp
    have N1: "next_port_id h1 = Suc ?s" "next_space_id h1 = next_space_id h"
      using created(1,7) by (auto simp: port_set_create_def ipc_alloc_def Let_def set_pset_def split: if_splits)
    have z: "?s \<notin> cx_zero_sets c" using idle by (simp add: idle_def)
    have uz: "unzero_set ?s (zero_set ?s c) = c" using z by (simp add: unzero_set_def zero_set_def)
    have so: "space_ok sp" by (rule ipc_okD(7) [OF ok alive sp])
    have lim: "pset_refs (new_pset ?s) + 1 < 2 ^ 32" by (simp add: new_pset_def)
    have az: "all_rights (zero_set ?s c) g = all_rights c g" for g by (simp add: all_rights_def zero_set_def)
    have fresh: "ipc_sets h ?s = None" using ipc_invD(4) [OF inv, of ?s] by (cases "ipc_sets h ?s") auto
    show ?thesis
    proof (cases rule: space_install_set_ok [OF created(2) sp1 so sz t1 lim, case_names ok nomem])
      case (ok n h2 sp' k)
      have P2: "ipc_ports h2 = ipc_ports h" and N2: "next_port_id h2 = Suc ?s" "next_space_id h2 = next_space_id h"
        and S2: "ipc_spaces h2 = (ipc_spaces h)(i \<mapsto> sp')"
        and T2: "ipc_sets h2 = (ipc_sets h)(?s \<mapsto> (new_pset ?s)\<lparr>pset_refs := pset_refs (new_pset ?s) + 1\<rparr>)"
        unfolding ok(5) using created(4-6) N1 by simp_all
      have A2: "all_rights c h2 = all_rights c h" using ok(3) created(3) by (simp add: az)
      have "settled c h2"
      proof (rule settled_more [OF ipc_okD(8) [OF assms(1)], of _ "{#}"])
        show "stable c h2 = stable c h + {#}" using stable_adds_name [OF inv sp ok(4) S2 N2(2)] by simp
        show "listed h2 m \<Longrightarrow> listed h m" for m unfolding listed_def T2 by (auto simp: new_pset_def split: if_splits)
      qed (use P2 A2 in auto)
      moreover have "ipc_inv c h2" using ok(2) unfolding uz .
      ultimately have "ipc_ok c h2" using idle N2 id ipc_okD(3,5) [OF assms(1)] P2 by (simp add: ipc_ok_def pins_def)
      moreover have "port_set_allocate i h = Ret (n, h2)" using created(1) ok(1) by (simp add: port_set_allocate_def)
      ultimately show ?thesis using ok(4) S2 A2 by (intro that(1) [of n h2 sp'])
    next
      case nomem
      let ?h = "h1\<lparr>ipc_allocs := ipc_allocs h1 + 1\<rparr>"
      have i2: "ipc_inv (zero_set ?s c) ?h" "ipc_sets ?h ?s = Some (new_pset ?s)" using created(2) t1 by simp_all
      note f = port_set_free_new [OF i2 z]
      let ?h3 = "?h\<lparr>ipc_sets := (ipc_sets ?h)(?s := None)\<rparr>"
      have T3: "ipc_sets ?h3 = ipc_sets h" using created(6) fresh by (simp add: fun_upd_idem)
      have A3: "all_rights c ?h3 = all_rights c h" using f(3) created(3) by simp
      moreover have "settled c ?h3" using ipc_okD(8) [OF assms(1)]
        by (rule settled_same) (use T3 A3 created(4,5) N1 in simp_all)
      then have "ipc_ok c ?h3" using f(2) ipc_okD(3,5) [OF assms(1)] idle created(4) N1 id by (simp add: ipc_ok_def pins_def)
      ultimately show ?thesis using f(1) nomem created(1,5)
        by (intro that(2) [of ?h3]) (simp_all add: port_set_allocate_def)
    qed
  qed
qed

section \<open>Members of a set\<close>

lemma over_member: "i < n \<Longrightarrow> m i = Some x \<Longrightarrow> f i x \<subseteq># over n m f"
  using over_fun [of i n m x "\<lambda>j y. if j = i then {#} else f j y" f] by simp (metis mset_subset_eq_add_right)

lemma entry_in_space: "n < length (ps_table sp) \<Longrightarrow> entry_holds (ps_table sp ! n) \<subseteq># space_holds sp"
  "n < length (ps_table sp) \<Longrightarrow> entry_sets (ps_table sp ! n) \<subseteq># space_sets sp"
  using put_entry_holds [of n sp no_entry] by (simp_all) (metis mset_subset_eq_add_right)+

lemma entry_stable:
  assumes inv: "ipc_inv c h" and sp: "ipc_spaces h i = Some sp" and n: "n < length (ps_table sp)"
  shows "entry_holds (ps_table sp ! n) \<subseteq># stable c h"
proof -
  have "entry_holds (ps_table sp ! n) \<subseteq># space_holds sp" by (rule entry_in_space(1) [OF n])
  also have "\<dots> \<subseteq># stable c h"
    using over_member [of i "next_space_id h" "ipc_spaces h" sp "\<lambda>_. space_holds"] ipc_invD(6) [OF inv sp] sp
    by (simp add: stable_def subset_mset.add_increasing2)
  finally show ?thesis .
qed

lemma named_held:
  assumes inv: "ipc_inv c h" and sp: "ipc_spaces h i = Some sp" and n: "named sp n r p"
  shows "rights_held p r \<subseteq># stable c h"
proof -
  have nn: "n < length (ps_table sp)" "pe_port (ps_table sp ! n) = Some p" "pe_rights (ps_table sp ! n) AND r = r" using n by (auto simp: named_def)
  have "rights_held p r \<subseteq># entry_holds (ps_table sp ! n)" using rights_held_split [OF nn(3), of p] nn(2)
    by (simp add: entry_holds_def) (metis mset_subset_eq_add_right)
  also have "\<dots> \<subseteq># stable c h" by (rule entry_stable [OF inv sp nn(1)])
  finally show ?thesis .
qed

lemma set_named:
  assumes inv: "ipc_inv c h" and sp: "ipc_spaces h i = Some sp" and n: "space_lookup_set sp n = Some s"
  obtains t where "ipc_sets h s = Some t"
proof -
  have nn: "n < length (ps_table sp)" "pe_set (ps_table sp ! n) = Some s" using n by (auto simp: space_lookup_set_def split: if_splits)
  have "s \<in># entry_sets (ps_table sp ! n)" using nn(2) by (simp add: entry_sets_def)
  then have "s \<in># space_sets sp" using entry_in_space(2) [OF nn(1)] by (meson mset_subset_eqD)
  then have "s \<in># set_names h" using over_member [of i "next_space_id h" "ipc_spaces h" sp "\<lambda>_. space_sets"] ipc_invD(6) [OF inv sp] sp
    by (simp add: set_names_def mset_subset_eqD)
  then show ?thesis using ipc_invD(5) [OF inv, of s] that by auto
qed

lemma members_bound:
  assumes inv: "ipc_inv c h" and t: "ipc_sets h s = Some t" and none: "cx_leaving c = {}"
  shows "pset_member_count t = length (pset_members t)" "length (pset_members t) \<le> next_port_id h" "distinct (pset_members t)"
    "m \<in> set (pset_members t) \<Longrightarrow> \<exists>q. ipc_ports h m = Some q \<and> p_set q = Some s"
proof -
  note pi = conjunct2 [OF ipc_invD(4) [OF inv t]]
  show d: "pset_member_count t = length (pset_members t)" "distinct (pset_members t)" using pi by (auto simp: pset_inv_def)
  show m: "\<exists>q. ipc_ports h m = Some q \<and> p_set q = Some s" if "m \<in> set (pset_members t)" for m using pset_member [OF pi that] none by auto
  have "set (pset_members t) \<subseteq> {..<next_port_id h}" using m ipc_invD(1) [OF inv] by blast
  then have "card (set (pset_members t)) \<le> card {..<next_port_id h}" by (intro card_mono) simp_all
  then show "length (pset_members t) \<le> next_port_id h" using distinct_card [OF d(2)] by simp
qed

text \<open>A port that has been put on the list of its set has arrived there.\<close>

lemma inv_arrive:
  assumes inv: "ipc_inv (c\<lparr>cx_leaving := insert (p, s) (cx_leaving c)\<rparr>) h" and q: "ipc_ports h p = Some q" "p_set q = Some s"
  shows "ipc_inv c h"
proof -
  let ?c = "c\<lparr>cx_leaving := insert (p, s) (cx_leaving c)\<rparr>"
  have A: "all_rights ?c h = all_rights c h" by (simp add: all_rights_def)
  have pi: "port_inv ?c A' S p' q' = port_inv c A' S p' q'" for A' S p' q' by (simp add: port_inv_def)
  have fr: "frames_ok ?c P ms = frames_ok c P ms" for P ms by (simp add: frames_ok_def)
  have si: "pset_inv c N (ipc_ports h) u v" if "pset_inv ?c N (ipc_ports h) u v" for N u v
    using that q unfolding pset_inv_def by auto
  show ?thesis using inv si unfolding ipc_inv_def A pi fr by simp
qed

lemma set_port_pset: "set_pset s t (set_port p q h) = set_port p q (set_pset s t h)"
  by (simp add: set_port_def set_pset_def)

lemma p_set_other:
  "p_send_count (q\<lparr>p_set := x\<rparr>) = p_send_count q" "p_send_once_count (q\<lparr>p_set := x\<rparr>) = p_send_once_count q"
  "p_has_receive (q\<lparr>p_set := x\<rparr>) = p_has_receive q" "p_refs (q\<lparr>p_set := x\<rparr>) = p_refs q" "p_qlen (q\<lparr>p_set := x\<rparr>) = p_qlen q"
  "p_queue (q\<lparr>p_set := x\<rparr>) = p_queue q" "p_qresv (q\<lparr>p_set := x\<rparr>) = p_qresv q" "p_waiters (q\<lparr>p_set := x\<rparr>) = p_waiters q"
  "p_notify_no_senders (q\<lparr>p_set := x\<rparr>) = p_notify_no_senders q" "p_notify_dead_name (q\<lparr>p_set := x\<rparr>) = p_notify_dead_name q"
  "p_notify_port_destroyed (q\<lparr>p_set := x\<rparr>) = p_notify_port_destroyed q" "p_set (q\<lparr>p_set := x\<rparr>) = x"
  by simp_all

lemma port_inv_member:
  assumes "port_inv c A S p q" "p_has_receive q" "S s = Some t" "p \<in> set (pset_members t)"
  shows "port_inv c A S p (q\<lparr>p_set := Some s\<rparr>)"
  using assms unfolding port_inv_def p_set_other option.case by blast

lemma port_inv_no_member: "port_inv c A S p q \<Longrightarrow> port_inv c A S p (q\<lparr>p_set := None\<rparr>)"
  unfolding port_inv_def p_set_other option.case by blast

lemma port_holds_set [simp]: "port_holds (q\<lparr>p_set := x\<rparr>) = port_holds q"
  by (simp add: port_holds_def)

lemma port_set_insert_ok:
  assumes ok: "ipc_ok c h" and alive: "i \<notin> cx_dying c" and sp: "ipc_spaces h i = Some sp" and sn: "space_lookup_set sp sn = Some s"
    and pn: "named sp pn MACH_PORT_RIGHT_RECEIVE p" and q: "ipc_ports h p = Some q" and out: "p_set q = None"
  obtains h' t where "port_set_insert i sn pn h = Ret (MACH_MSG_OK, h')" "ipc_ok c h'" "all_rights c h' = all_rights c h"
    "ipc_sets h s = Some t" "ipc_sets h' = (ipc_sets h)(s \<mapsto> t\<lparr>pset_members := p # pset_members t, pset_member_count := pset_member_count t + 1\<rparr>)"
    "ipc_ports h' = (ipc_ports h)(p \<mapsto> q\<lparr>p_set := Some s\<rparr>)" "ipc_spaces h' = ipc_spaces h"
proof -
  note inv = ipc_okD(2) [OF ok] and idle = ipc_okD(1) [OF ok]
  have none: "cx_leaving c = {}" by (rule idleD(5) [OF idle])
  obtain t where t: "ipc_sets h s = Some t" by (rule set_named [OF inv sp sn])
  note mb = members_bound [OF inv t none]
  have new: "p \<notin> set (pset_members t)" using mb(4) q out by fastforce
  let ?t = "t\<lparr>pset_members := p # pset_members t, pset_member_count := pset_member_count t + 1\<rparr>"
  let ?q = "q\<lparr>p_set := Some s\<rparr>" let ?c = "c\<lparr>cx_leaving := insert (p, s) (cx_leaving c)\<rparr>"
  define h1 where "h1 = set_pset s ?t h"
  define h2 where "h2 = set_port p ?q h1"
  have st: "(p, HRecv) \<in># stable c h" using named_held [OF inv sp pn] by simp
  then have "(p, HRecv) \<in># all_rights c h" using stable_held by (metis mset_subset_eqD)
  then have "0 < count (all_rights c h) (p, HRecv)" by simp
  then have recv: "p_has_receive q" using port_invD(3) [OF ipc_invD(2) [OF inv q]] by (metis less_irrefl)
  have len: "length (pset_members t) + 1 < 2 ^ 64"
  proof -
    have "set (p # pset_members t) \<subseteq> {..<next_port_id h}" using mb(4) q ipc_invD(1) [OF inv] by auto
    then have "card (set (p # pset_members t)) \<le> card {..<next_port_id h}" by (intro card_mono) simp_all
    then have "length (p # pset_members t) \<le> next_port_id h" using distinct_card [of "p # pset_members t"] mb(3) new by simp
    then show ?thesis using ipc_okD(4) [OF ok] by simp
  qed
  have t1: "pset_inv ?c (set_names h + cx_sets c) (ipc_ports h) s ?t"
    using conjunct2 [OF ipc_invD(4) [OF inv t]] new by (auto simp: pset_inv_def)
  have i1: "ipc_inv ?c h1" "all_rights ?c h1 = all_rights c h"
    unfolding h1_def by (rule inv_set_pset_gen [OF inv t _ _ _ _ _ _ t1]; simp add: ctx_like_def)+
  have q1: "ipc_ports h1 p = Some q" using q by (simp add: h1_def)
  have pi: "port_inv ?c (all_rights ?c h1) (ipc_sets h1) p ?q"
    by (rule port_inv_member [OF ipc_invD(2) [OF i1(1) q1] recv, of _ ?t]) (simp_all add: h1_def)
  have i2: "ipc_inv ?c h2" "all_rights ?c h2 + {#} = all_rights ?c h1 + {#}"
    unfolding h2_def by (rule inv_set_port [where q' = ?q and D = "{#}" and E = "{#}", OF i1(1) q1];
        use pi out idleD(3) [OF idle] in \<open>simp add: ctx_like_def\<close>)+
  have i3: "ipc_inv c h2" by (rule inv_arrive [OF i2(1), of ?q]) (simp_all add: h2_def)
  have A: "all_rights c h2 = all_rights c h" using i2(2) i1(2) by (simp add: all_rights_def)
  have "settled c h2"
    unfolding settled_def calm_def
  proof (intro allI impI)
    fix m assume "listed h2 m"
    then have "listed h m \<or> m = p" using t unfolding listed_def h2_def h1_def by (auto split: if_splits)
    moreover have "stable c h2 = stable c h" by (simp add: stable_def h2_def h1_def)
    ultimately show "ipc_ports h2 m \<noteq> None \<and> ((\<exists>k. (m, k) \<in># stable c h2) \<or> (\<forall>k. k \<noteq> HRecv \<longrightarrow> (m, k) \<notin># all_rights c h2))"
      using ipc_okD(8) [OF ok] st unfolding A by (auto simp: settled_def calm_def h2_def h1_def)
  qed
  moreover have "pins c h2" using ipc_okD(3) [OF ok] q by (auto simp: pins_def h2_def h1_def)
  ultimately have "ipc_ok c h2" using i3 by (intro ipc_ok_step [OF ok]) (simp_all add: h2_def h1_def)
  moreover have "port_set_insert i sn pn h = Ret (MACH_MSG_OK, h2)"
    using sp sn pn q out t mb(1) len unfolding named_lookup
    by (simp add: port_set_insert_def with_space_def with_port_def with_set_def set_port_pset add64_def h2_def h1_def)
  ultimately show ?thesis using t A by (intro that [of h2 t]) (simp_all add: h2_def h1_def)
qed

lemma unlink_all:
  assumes "\<And>m. m \<in> set ms \<Longrightarrow> ipc_ports h m \<noteq> None"
  shows "unlink_member p ms h = Ret (remove1 p ms)"
  using unlink_member_cases [of p ms h] assms by blast

lemma port_set_remove_ok:
  assumes ok: "ipc_ok c h" and alive: "i \<notin> cx_dying c" and sp: "ipc_spaces h i = Some sp" and sn: "space_lookup_set sp sn = Some s"
    and pn: "named sp pn MACH_PORT_RIGHT_RECEIVE p" and q: "ipc_ports h p = Some q" and member: "p_set q = Some s"
  obtains h' t where "port_set_remove i sn pn h = Ret (MACH_MSG_OK, h')" "ipc_ok c h'" "all_rights c h' = all_rights c h"
    "ipc_sets h s = Some t" "ipc_sets h' = (ipc_sets h)(s \<mapsto> t\<lparr>pset_members := remove1 p (pset_members t), pset_member_count := pset_member_count t - 1\<rparr>)"
    "ipc_ports h' = (ipc_ports h)(p \<mapsto> q\<lparr>p_set := None\<rparr>)" "ipc_spaces h' = ipc_spaces h"
proof -
  note inv = ipc_okD(2) [OF ok] and idle = ipc_okD(1) [OF ok]
  have none: "cx_leaving c = {}" by (rule idleD(5) [OF idle])
  obtain t where t: "ipc_sets h s = Some t" and pt: "p \<in> set (pset_members t)"
    using port_invD(11) [OF ipc_invD(2) [OF inv q] member] by blast
  note mb = members_bound [OF inv t none]
  let ?c = "c\<lparr>cx_leaving := insert (p, s) (cx_leaving c)\<rparr>"
  let ?t = "t\<lparr>pset_members := remove1 p (pset_members t), pset_member_count := pset_member_count t - 1\<rparr>"
  define h1 where "h1 = set_port p (q\<lparr>p_set := None\<rparr>) h"
  define h2 where "h2 = set_pset s ?t h1"
  have pi: "port_inv ?c (all_rights c h) (ipc_sets h) p (q\<lparr>p_set := None\<rparr>)"
    by (rule port_inv_ctx [OF port_inv_no_member [OF ipc_invD(2) [OF inv q]]]) simp_all
  have i1: "ipc_inv ?c h1" "all_rights ?c h1 + {#} = all_rights c h + {#}"
    unfolding h1_def by (rule inv_set_port [where q' = "q\<lparr>p_set := None\<rparr>" and D = "{#}" and E = "{#}", OF inv q];
        use pi member idleD(3) [OF idle] in \<open>simp add: ctx_like_def subset_insertI\<close>)+
  have alive: "ipc_ports h1 m \<noteq> None" if "m \<in> set (pset_members t)" for m using mb(4) [OF that] by (auto simp: h1_def)
  have t1: "ipc_sets h1 s = Some t" "ipc_ports h1 p = Some (q\<lparr>p_set := None\<rparr>)" using t by (simp_all add: h1_def)
  have l1: "port_leave_set p s h1 = Ret h2"
    using t1 pt unlink_all [of "pset_members t" h1 p] alive by (simp add: port_leave_set_def with_set_def with_port_def h2_def)
  have i2: "ipc_inv c h2" "all_rights c h2 = all_rights c h1"
    by (rule port_leave_set_ok [OF i1(1) t1(1)]; use t1(2) l1 in simp)+
  have A: "all_rights c h2 = all_rights c h" using i2(2) i1(2) by (simp add: all_rights_def)
  have "settled c h2"
    by (rule settled_more [OF ipc_okD(8) [OF ok], of _ "{#}"])
      (use t A q in \<open>auto simp: h2_def h1_def stable_def listed_def split: if_splits dest: subsetD [OF set_remove1_subset]\<close>)
  moreover have "pins c h2" using ipc_okD(3) [OF ok] q by (auto simp: pins_def h2_def h1_def)
  ultimately have "ipc_ok c h2" using i2 by (intro ipc_ok_step [OF ok]) (simp_all add: h2_def h1_def)
  moreover have "sub64 (pset_member_count t) 1 = pset_member_count t - 1"
    using mb(1,2) pt ipc_okD(4) [OF ok] by (intro sub64_small) (auto simp: Suc_le_eq)
  moreover have "unlink_member p (pset_members t) h = Ret (remove1 p (pset_members t))"
    by (rule unlink_all) (use mb(4) in auto)
  ultimately show ?thesis using t A sp sn pn q pt mb(4) unfolding named_lookup
    by (intro that [of h2 t])
      (simp_all add: port_set_remove_def with_space_def with_port_def with_set_def Let_def h2_def h1_def set_port_pset)
qed

lemma inject_send_ok:
  assumes ok: "ipc_ok c h" and src: "ipc_spaces h i = Some sp" and n: "named sp n MACH_PORT_RIGHT_SEND p"
    and live: "j \<notin> cx_dying c" and dst: "ipc_spaces h j = Some dp" and sz: "2 * length (ps_table dp) < 2 ^ 32" and q: "ipc_ports h p = Some q" and lim: "p_refs q + 3 < 2 ^ 32"
  obtains (sent) m h' dp' where "port_space_inject_send i n j h = Ret (MACH_MSG_OK, m, h')" "ipc_ok c h'"
      "all_rights c h' = all_rights c h + {#(p, HSend)#}" "adds_name m (port_name p MACH_PORT_RIGHT_SEND) dp dp'" "ipc_spaces h' = (ipc_spaces h)(j \<mapsto> dp')"
    | (nomem) h' where "port_space_inject_send i n j h = Ret (MACH_E_NOMEM, 0, h')" "ipc_ok c h'" "all_rights c h' = all_rights c h"
      "ipc_spaces h' = ipc_spaces h" "\<not> free_names dp"
proof -
  note inv = ipc_okD(2) [OF ok] and idle = ipc_okD(1) [OF ok]
  have run: "port_space_inject_send i n j h = space_install j p MACH_PORT_RIGHT_SEND h"
    using src n unfolding named_lookup by (simp add: port_space_inject_send_def with_space_def)
  have uz: "unzero p c = c" using idle by (simp add: unzero_def idle_def)
  show ?thesis
  proof (cases rule: space_install_ok [OF inv dst ipc_okD(7) [OF ok live dst] sz right_ok_SEND(1) q idleD(3) [OF idle] _ lim, case_names r ok nomem])
    case r
    then show ?case by simp
  next
    case (ok m h' q' sp' k)
    have S: "ipc_spaces h' = (ipc_spaces h)(j \<mapsto> sp')" "next_space_id h' = next_space_id h" "next_port_id h' = next_port_id h"
      "ipc_ports h' = (ipc_ports h)(p \<mapsto> q')" "ipc_sets h' = ipc_sets h" unfolding ok(5) by simp_all
    have "settled c h'"
    proof (rule settled_more [OF ipc_okD(8) [OF assms(1)]])
      show "stable c h' = stable c h + {#(p, HSend)#}" using stable_adds_name [OF inv dst ok(4) S(1,2)] by simp
      show "all_rights c h' = all_rights c h + {#(p, HSend)#}" using ok(3) by simp
    qed (auto simp: S listed_def)
    moreover have "pins c h'" using ipc_okD(3) [OF assms(1)] q ok(9,10) by (auto simp: pins_def S)
    ultimately have "ipc_ok c h'" using ok(2) unfolding uz by (intro ipc_ok_step [OF assms(1)]) (simp_all add: S)
    then show ?thesis using ok(1,3,4) S(1) run by (intro that(1) [of m h' sp']) simp_all
  next
    case nomem
    let ?h = "h\<lparr>ipc_allocs := ipc_allocs h + 1\<rparr>"
    have "settled c ?h" by (rule settled_same [OF ipc_okD(8) [OF ok]]) simp_all
    then have "ipc_ok c ?h" using ok by (simp add: ipc_ok_def pins_def)
    then show ?thesis using nomem run by (intro that(2) [of ?h]) simp_all
  qed
qed

section \<open>Notification requests\<close>

lemma drop_send_ok:
  assumes ctx: "idle c" and inv: "ipc_inv (give {#(n, HSend)#} {#} c) h" and pins: "pins c h" and s: "settled c h"
    and l: "listed h n \<Longrightarrow> \<exists>k. (n, k) \<in># stable c h" and ids: "next_port_id h < 2 ^ 64" "next_space_id h < 2 ^ 64"
  obtains h' where "port_deref n MACH_PORT_RIGHT_SEND h = Ret h'" "ipc_ok c h'" "ipc_spaces h' = ipc_spaces h"
    "all_rights c h' \<subseteq># all_rights c h + {#(n, HSend)#}" "next_port_id h' = next_port_id h" "next_space_id h' = next_space_id h"
proof -
  have inv': "ipc_inv (give (rights_held n MACH_PORT_RIGHT_SEND) {#} c) h" using inv by simp
  have "drop_safe c n MACH_PORT_RIGHT_SEND h" using s l by (auto simp: drop_safe_def settled_def)
  then obtain h' where h': "port_deref n MACH_PORT_RIGHT_SEND h = Ret h'" "ipc_inv c h'" "quiet h h'"
    "all_rights c h' \<subseteq># all_rights c h + {#(n, HSend)#}" "calm (stable c h) (all_rights c h') h'"
    using port_deref_ok [OF right_ok_SEND(1) inv' pins idleD(1) [OF ctx]] by (auto simp: outcome_if_def split: kres.splits)
  have "settled c h'" using h'(5) quiet_stable [OF h'(3)] by (simp add: settled_def)
  then have "ipc_ok c h'" using h' ctx quiet_pins [OF h'(3) pins] ids by (simp add: ipc_ok_def quiet_def)
  then show ?thesis using h' that by (simp add: quiet_def)
qed

text \<open>A send right that is held by a name may be copied.\<close>

lemma copy_send_ok:
  assumes ok: "ipc_ok c h" and q: "ipc_ports h n = Some q" and lim: "p_refs q + 3 < 2 ^ 32"
  obtains h' q' where "port_ref n MACH_PORT_RIGHT_SEND h = Ret h'" "ipc_inv (give {#(n, HSend)#} {#} c) h'" "h' = set_port n q' h"
    "all_rights c h' = all_rights c h" "pins c h'" "settled c h'" "p_has_receive q' = p_has_receive q" "p_dead q' = p_dead q"
proof -
  note inv = ipc_okD(2) [OF ok] and idle = ipc_okD(1) [OF ok]
  have uz: "unzero n c = c" using idle by (simp add: unzero_def idle_def)
  obtain h' q' where h': "port_ref n MACH_PORT_RIGHT_SEND h = Ret h'"
    "ipc_inv (give (rights_held n MACH_PORT_RIGHT_SEND) {#} (unzero n c)) h'" "all_rights c h' = all_rights c h" "h' = set_port n q' h"
    "p_queue q' = p_queue q" "p_set q' = p_set q" "p_has_receive q' \<longleftrightarrow> p_has_receive q \<or> has MACH_PORT_RIGHT_SEND MACH_PORT_RIGHT_RECEIVE"
    "p_send_waiters q' = p_send_waiters q" "p_qresv q' = p_qresv q" "p_dead q' = p_dead q"
    by (rule port_ref_ok [OF inv right_ok_SEND(1) q idleD(3) [OF idle] _ lim]) simp
  have "pins c h'" using ipc_okD(3) [OF ok] q h'(8,9) by (auto simp: pins_def h'(4))
  moreover have "settled c h'"
    by (rule settled_same [OF ipc_okD(8) [OF ok]]) (use h'(3) in \<open>auto simp: h'(4)\<close>)
  ultimately show ?thesis using h' unfolding uz by (intro that [of h' q']) simp_all
qed

lemma named_receives:
  assumes inv: "ipc_inv c h" and sp: "ipc_spaces h i = Some sp" and n: "named sp n MACH_PORT_RIGHT_RECEIVE p" and q: "ipc_ports h p = Some q"
  shows "p_has_receive q"
proof -
  have "(p, HRecv) \<in># all_rights c h" using named_held [OF inv sp n] stable_held by (metis mset_subset_eqD rights_held_RECV(1) subset_mset.order_trans union_single_eq_member add.right_neutral multi_member_last)
  then have "0 < count (all_rights c h) (p, HRecv)" by simp
  then show ?thesis using port_invD(3) [OF ipc_invD(2) [OF inv q]] by (metis less_irrefl)
qed

lemma port_inv_watch:
  assumes "port_inv c A S p q" "p_has_receive q"
  shows "port_inv c A S p (q\<lparr>p_notify_no_senders := x, p_notify_no_senders_id := y\<rparr>)"
    "port_inv c A S p (q\<lparr>p_notify_port_destroyed := x, p_notify_port_destroyed_id := y\<rparr>)"
    "port_inv c A S p (q\<lparr>p_notify_dead_name := z\<rparr>)"
  using assms by (auto simp: port_inv_def)

lemma swap_watch_holds:
  assumes "swap_watch ty n tag q = (prev, q')"
  shows "port_holds q' + notify_rights prev = port_holds q + {#(n, HSend)#}" "p_queue q' = p_queue q" "p_set q' = p_set q"
    "p_send_waiters q' = p_send_waiters q" "p_qresv q' = p_qresv q" "notify_rights prev \<subseteq># port_holds q"
    "port_inv c A S p q \<Longrightarrow> p_has_receive q \<Longrightarrow> port_inv c A S p q'"
  using assms port_inv_watch by (auto simp: swap_watch_def port_holds_def notify_rights_def subset_mset.add_increasing split: if_splits)

lemma port_in_rights:
  assumes inv: "ipc_inv c h" and q: "ipc_ports h p = Some q" and F: "p \<notin> cx_freeing c"
  shows "port_holds q \<subseteq># all_rights c h"
proof -
  have "port_holds q \<subseteq># over (next_port_id h) (ipc_ports h) (holds_unless (cx_freeing c))"
    using over_member [of p "next_port_id h" "ipc_ports h" q "holds_unless (cx_freeing c)"] ipc_invD(1) [OF inv q] q F
    by (simp add: holds_unless_def)
  then show ?thesis by (simp add: all_rights_def held_def subset_mset.add_increasing2)
qed

lemma settled_extra:
  assumes "settled c h" "stable c h' = stable c h" "\<And>m. listed h' m \<Longrightarrow> listed h m" "dom (ipc_ports h) \<subseteq> dom (ipc_ports h')"
    "all_rights c h' \<subseteq># all_rights c h + {#(n, j)#}" "\<exists>k. (n, k) \<in># stable c h"
  shows "settled c h'"
  unfolding settled_def calm_def assms(2)
proof (intro allI impI)
  fix m assume "listed h' m"
  then have "listed h m" by (rule assms(3))
  then have m: "ipc_ports h m \<noteq> None" "(\<exists>k. (m, k) \<in># stable c h) \<or> (\<forall>k. k \<noteq> HRecv \<longrightarrow> (m, k) \<notin># all_rights c h)"
    using assms(1) by (auto simp: settled_def calm_def)
  have "(m, k) \<in># all_rights c h \<or> m = n" if "(m, k) \<in># all_rights c h'" for k using mset_subset_eqD [OF assms(5) that] by auto
  moreover have "ipc_ports h' m \<noteq> None" using m(1) assms(4) by blast
  ultimately show "ipc_ports h' m \<noteq> None \<and> ((\<exists>k. (m, k) \<in># stable c h) \<or> (\<forall>k. k \<noteq> HRecv \<longrightarrow> (m, k) \<notin># all_rights c h'))"
    using m(2) assms(6) by blast
qed

text \<open>Registering in one of the two slots: the previous registration is dropped.\<close>

lemma swap_ok:
  assumes ok: "ipc_ok c h" and s: "ipc_ports h p = Some q" "p_has_receive q" and n: "ipc_ports h n = Some qn" "p_refs qn + 3 < 2 ^ 32"
    and held: "\<exists>k. (n, k) \<in># stable c h" and ne: "p \<noteq> n" and sw: "swap_watch ty n tag q = (prev, q')"
  obtains h1 h' where "port_ref n MACH_PORT_RIGHT_SEND h = Ret h1" "ipc_ports h1 p = Some q"
    "(case prev of None \<Rightarrow> Ret (set_port p q' h1) | Some t \<Rightarrow> port_deref t MACH_PORT_RIGHT_SEND (set_port p q' h1)) = Ret h'"
    "ipc_ok c h'" "ipc_spaces h' = ipc_spaces h"
proof -
  note idle = ipc_okD(1) [OF ok]
  obtain h1 qn' where h1: "port_ref n MACH_PORT_RIGHT_SEND h = Ret h1" "ipc_inv (give {#(n, HSend)#} {#} c) h1" "h1 = set_port n qn' h"
    "all_rights c h1 = all_rights c h" "pins c h1" "settled c h1" "p_has_receive qn' = p_has_receive qn" "p_dead qn' = p_dead qn"
    by (rule copy_send_ok [OF ok n])
  have q1: "ipc_ports h1 p = Some q" using s(1) ne by (simp add: h1(3))
  note w = swap_watch_holds [OF sw]
  define h2 where "h2 = set_port p q' h1"
  have pi: "port_inv (give (notify_rights prev) {#} c) (all_rights (give {#(n, HSend)#} {#} c) h1) (ipc_sets h1) p q'"
    by (rule port_inv_ctx [OF w(7) [OF ipc_invD(2) [OF h1(2) q1] s(2)]]) simp_all
  have i2: "ipc_inv (give (notify_rights prev) {#} c) h2"
      "all_rights (give (notify_rights prev) {#} c) h2 + {#} = all_rights (give {#(n, HSend)#} {#} c) h1 + {#}"
    unfolding h2_def by (rule inv_set_port [where q' = q' and D = "{#}" and E = "{#}", OF h1(2) q1];
        use pi w(1-3) idleD(3) [OF idle] in \<open>simp add: ctx_like_def ac_simps\<close>)+
  have A: "all_rights c h2 + notify_rights prev = all_rights c h + {#(n, HSend)#}" using i2(2) h1(4) by simp
  have st: "stable c h2 = stable c h" by (simp add: stable_def h2_def h1(3))
  have li: "listed h2 m = listed h m" for m by (simp add: listed_def h2_def h1(3))
  have "all_rights c h2 \<subseteq># all_rights c h + {#(n, HSend)#}" using A by (metis mset_subset_eq_add_left)
  then have set2: "settled c h2" using held li by (intro settled_extra [OF ipc_okD(8) [OF ok] st]) (auto simp: h2_def h1(3))
  have pins2: "pins c h2" using h1(5) q1 w(4,5) by (auto simp: pins_def h2_def)
  have ids: "next_port_id h2 < 2 ^ 64" "next_space_id h2 < 2 ^ 64" using ipc_okD(4,5) [OF ok] by (simp_all add: h2_def h1(3))
  show ?thesis
  proof (cases prev)
    case None
    then have "ipc_ok c h2" using i2(1) set2 pins2 ids idle by (simp add: ipc_ok_def notify_rights_def)
    then show ?thesis using h1(1,3) q1 None by (intro that [of h1 h2]) (simp_all add: h2_def)
  next
    case (Some t)
    have "(t, HSend) \<in># all_rights c h" using w(6) port_in_rights [OF ipc_okD(2) [OF ok] s(1) idleD(3) [OF idle]] Some
      by (auto simp: notify_rights_def dest: mset_subset_eqD)
    then have l: "\<exists>k. (t, k) \<in># stable c h2" if "listed h2 t"
      using ipc_okD(8) [OF ok] that unfolding st li by (fastforce simp: settled_def calm_def)
    have "ipc_inv (give {#(t, HSend)#} {#} c) h2" using i2(1) Some by (simp add: notify_rights_def)
    then obtain h' where "port_deref t MACH_PORT_RIGHT_SEND h2 = Ret h'" "ipc_ok c h'" "ipc_spaces h' = ipc_spaces h2"
      "all_rights c h' \<subseteq># all_rights c h2 + {#(t, HSend)#}" "next_port_id h' = next_port_id h2" "next_space_id h' = next_space_id h2"
      by (rule drop_send_ok [OF idle _ pins2 set2 l ids])
    then show ?thesis using h1(1,3) q1 Some by (intro that [of h1 h']) (simp_all add: h2_def)
  qed
qed

lemma retag_rights: "watch_rights (retag_watch n tag ws) = watch_rights ws"
  by (induct ws) (auto simp: watch_rights_def)

lemma dead_name_inv:
  assumes "port_inv c A S p q"
  shows "p_has_receive q \<Longrightarrow> port_inv c A S p (q\<lparr>p_notify_dead_name := ws\<rparr>)"
  using port_inv_watch(3) [OF assms] .

lemma ipc_ok_alloc: "ipc_ok c h \<Longrightarrow> ipc_ok c (h\<lparr>ipc_allocs := k\<rparr>)"
  using settled_same [of c h "h\<lparr>ipc_allocs := k\<rparr>"] by (auto simp: ipc_ok_def pins_def)

lemma port_arm_dead_name_ok:
  assumes ok: "ipc_ok c h" and s: "ipc_ports h p = Some q" and n: "ipc_ports h n = Some qn" "p_refs qn + 3 < 2 ^ 32"
    and held: "\<exists>k. (n, k) \<in># stable c h" and ne: "p \<noteq> n"
  obtains h' where "port_arm_dead_name_object p n tag h =
      Ret (if \<not> ipc_kmem h (ipc_allocs h) then MACH_E_NOMEM else if p_dead q \<or> \<not> p_has_receive q then MACH_E_DEAD else MACH_MSG_OK, h')"
    "ipc_ok c h'" "ipc_spaces h' = ipc_spaces h"
proof (cases "ipc_kmem h (ipc_allocs h)")
  case False
  let ?h = "h\<lparr>ipc_allocs := ipc_allocs h + 1\<rparr>"
  show ?thesis by (rule that [of ?h]) (use False ipc_ok_alloc [OF ok] in \<open>simp_all add: port_arm_dead_name_object_def ipc_alloc_def\<close>)
next
  case True
  define h0 where "h0 = h\<lparr>ipc_allocs := ipc_allocs h + 1\<rparr>"
  have ok0: "ipc_ok c h0" unfolding h0_def by (rule ipc_ok_alloc [OF ok])
  note idle = ipc_okD(1) [OF ok]
  have n0: "ipc_ports h0 n = Some qn" using n by (simp add: h0_def)
  obtain h1 qn' where h1: "port_ref n MACH_PORT_RIGHT_SEND h0 = Ret h1" "ipc_inv (give {#(n, HSend)#} {#} c) h1" "h1 = set_port n qn' h0"
    "all_rights c h1 = all_rights c h0" "pins c h1" "settled c h1" "p_has_receive qn' = p_has_receive qn" "p_dead qn' = p_dead qn"
    by (rule copy_send_ok [OF ok0 n0 n(2)])
  have q1: "ipc_ports h1 p = Some q" using s ne by (simp add: h1(3) h0_def)
  have st1: "\<exists>k. (n, k) \<in># stable c h1" using held by (simp add: stable_def h1(3) h0_def)
  have run: "port_arm_dead_name_object p n tag h = kbind (port_dead_name_link p n tag h1) (\<lambda>(rv, dup, h3).
      if rv \<noteq> MACH_MSG_OK \<or> dup then kbind (port_deref n MACH_PORT_RIGHT_SEND h3) (\<lambda>h4. Ret (rv, h4)) else Ret (rv, h3))"
    using True h1(1) unfolding h0_def by (simp add: port_arm_dead_name_object_def ipc_alloc_def)
  have ids: "next_port_id h1 < 2 ^ 64" "next_space_id h1 < 2 ^ 64" using ipc_okD(4,5) [OF ok] by (simp_all add: h1(3) h0_def)
  show ?thesis
  proof (cases "p_dead q \<or> \<not> p_has_receive q")
    case dead: True
    obtain h' where h': "port_deref n MACH_PORT_RIGHT_SEND h1 = Ret h'" "ipc_ok c h'" "ipc_spaces h' = ipc_spaces h1"
      "all_rights c h' \<subseteq># all_rights c h1 + {#(n, HSend)#}" "next_port_id h' = next_port_id h1" "next_space_id h' = next_space_id h1"
      by (rule drop_send_ok [OF idle h1(2,5,6) st1 ids])
    have "port_dead_name_link p n tag h1 = Ret (MACH_E_DEAD, False, h1)" using q1 dead by (simp add: port_dead_name_link_def with_port_def)
    then show ?thesis using run h' dead True by (intro that [of h']) (simp_all add: h1(3) h0_def)
  next
    case alive: False
    let ?dup = "\<exists>w \<in> set (p_notify_dead_name q). nn_port w = n"
    let ?ws = "if ?dup then retag_watch n tag (p_notify_dead_name q) else \<lparr>nn_port = n, nn_tag = tag\<rparr> # p_notify_dead_name q"
    let ?q = "q\<lparr>p_notify_dead_name := ?ws\<rparr>"
    let ?R = "if ?dup then {#(n, HSend)#} else {#}"
    define h2 where "h2 = set_port p ?q h1"
    have link: "port_dead_name_link p n tag h1 = Ret (MACH_MSG_OK, ?dup, h2)"
      using q1 alive by (auto simp: port_dead_name_link_def with_port_def h2_def)
    have pi: "port_inv (give ?R {#} c) (all_rights (give {#(n, HSend)#} {#} c) h1) (ipc_sets h1) p ?q"
      by (rule port_inv_ctx [OF dead_name_inv [OF ipc_invD(2) [OF h1(2) q1]]]) (use alive in simp_all)
    have w: "watch_rights ?ws + ?R = watch_rights (p_notify_dead_name q) + {#(n, HSend)#}" by (simp add: retag_rights)
    have ph: "port_holds ?q + ?R = port_holds q + {#(n, HSend)#}" using w by (simp add: port_holds_def ac_simps)
    have i2: "ipc_inv (give ?R {#} c) h2" "all_rights (give ?R {#} c) h2 + {#} = all_rights (give {#(n, HSend)#} {#} c) h1 + {#}"
      unfolding h2_def
      by (rule inv_set_port [where q' = ?q and D = "{#}" and E = "{#}", OF h1(2) q1];
          use pi ph idleD(3) [OF idle] in \<open>simp add: ctx_like_def ac_simps del: if_weak_cong\<close>)+
    have A: "all_rights c h2 + ?R = all_rights c h + {#(n, HSend)#}" using i2(2) h1(4) by (simp only: all_rights_give add_0_right) (simp add: h0_def)
    have st: "stable c h2 = stable c h" by (simp add: stable_def h2_def h1(3) h0_def)
    have li: "listed h2 m = listed h m" for m by (simp add: listed_def h2_def h1(3) h0_def)
    have "all_rights c h2 \<subseteq># all_rights c h + {#(n, HSend)#}" using A by (metis mset_subset_eq_add_left)
    moreover have "dom (ipc_ports h) \<subseteq> dom (ipc_ports h2)" by (auto simp: h2_def h1(3) h0_def)
    ultimately have set2: "settled c h2" using held li by (intro settled_extra [OF ipc_okD(8) [OF ok] st]) auto
    have pins2: "pins c h2" using h1(5) q1 by (auto simp: pins_def h2_def)
    have ids2: "next_port_id h2 < 2 ^ 64" "next_space_id h2 < 2 ^ 64" using ids by (simp_all add: h2_def)
    have sp2: "ipc_spaces h2 = ipc_spaces h" by (simp add: h2_def h1(3) h0_def)
    show ?thesis
    proof (cases ?dup)
      case dup: True
      have "ipc_inv (give {#(n, HSend)#} {#} c) h2" using i2(1) dup by simp
      then obtain h' where h': "port_deref n MACH_PORT_RIGHT_SEND h2 = Ret h'" "ipc_ok c h'" "ipc_spaces h' = ipc_spaces h2"
        "all_rights c h' \<subseteq># all_rights c h2 + {#(n, HSend)#}" "next_port_id h' = next_port_id h2" "next_space_id h' = next_space_id h2"
        using held by (elim drop_send_ok [OF idle _ pins2 set2 _ ids2]) (simp add: st)
      then show ?thesis using run link dup alive True sp2 by (intro that [of h']) simp_all
    next
      case new: False
      then have "ipc_ok c h2" using i2(1) set2 pins2 ids2 idle by (simp add: ipc_ok_def)
      then show ?thesis using run link new alive True sp2 by (intro that [of h2]) auto
    qed
  qed
qed

lemma port_request_notification_ok:
  assumes ok: "ipc_ok c h" and alive: "i \<notin> cx_dying c" and sp: "ipc_spaces h i = Some sp"
    and ty: "required_right ty = Some req" and s: "named sp name req p" and nn: "named sp nname MACH_PORT_RIGHT_SEND n" and ne: "p \<noteq> n"
    and lim: "\<And>q. ipc_ports h n = Some q \<Longrightarrow> p_refs q + 3 < 2 ^ 32"
  obtains rv h' where "port_request_notification i name ty nname tag h = Ret (rv, h')" "ipc_ok c h'" "ipc_spaces h' = ipc_spaces h"
    "rv \<in> {MACH_MSG_OK, MACH_E_DEAD, MACH_E_NOMEM}"
proof -
  note inv = ipc_okD(2) [OF ok] and idle = ipc_okD(1) [OF ok]
  have st: "(n, HSend) \<in># stable c h" using named_held [OF inv sp nn] by simp
  then have "(n, HSend) \<in># all_rights c h" using stable_held by (metis mset_subset_eqD)
  then obtain qn where qn: "ipc_ports h n = Some qn" using ipc_invD(3) [OF inv] by fastforce
  have held: "\<exists>k. (n, k) \<in># stable c h" using st by blast
  obtain k where "(p, k) \<in># stable c h"
    using named_held [OF inv sp s] ty rights_held_any [of req p] right_ok_rights
    by (auto simp: required_right_def split: if_splits dest: mset_subset_eqD)
  then have "(p, k) \<in># all_rights c h" using stable_held by (metis mset_subset_eqD)
  then obtain q where q: "ipc_ports h p = Some q" using ipc_invD(3) [OF inv] by fastforce
  note lk = s [unfolded named_lookup] nn [unfolded named_lookup]
  show ?thesis
  proof (cases "ty = MACH_NOTIFY_DEAD_NAME")
    case True
    obtain h' where h': "port_arm_dead_name_object p n tag h =
        Ret (if \<not> ipc_kmem h (ipc_allocs h) then MACH_E_NOMEM else if p_dead q \<or> \<not> p_has_receive q then MACH_E_DEAD else MACH_MSG_OK, h')"
      "ipc_ok c h'" "ipc_spaces h' = ipc_spaces h"
      by (rule port_arm_dead_name_ok [OF ok q qn lim [OF qn] held ne])
    show ?thesis by (rule that [OF _ h'(2,3)]) (use h'(1) lk sp ty ne True in \<open>auto simp: port_request_notification_def with_space_def split: if_splits\<close>)
  next
    case False
    then have "req = MACH_PORT_RIGHT_RECEIVE" using ty by (auto simp: required_right_def split: if_splits)
    then have recv: "p_has_receive q" using named_receives [OF inv sp _ q] s by simp
    obtain prev q' where sw: "swap_watch ty n tag q = (prev, q')" by (cases "swap_watch ty n tag q")
    obtain h1 h' where h': "port_ref n MACH_PORT_RIGHT_SEND h = Ret h1" "ipc_ports h1 p = Some q"
      "(case prev of None \<Rightarrow> Ret (set_port p q' h1) | Some t \<Rightarrow> port_deref t MACH_PORT_RIGHT_SEND (set_port p q' h1)) = Ret h'"
      "ipc_ok c h'" "ipc_spaces h' = ipc_spaces h"
      by (rule swap_ok [OF ok q recv qn lim [OF qn] held ne sw])
    have "port_request_notification i name ty nname tag h = Ret (MACH_MSG_OK, h')"
      using h'(1-3) lk sp ty ne False sw
      by (auto simp: port_request_notification_def with_space_def with_port_def split: option.splits)
    then show ?thesis using h'(4,5) by (rule that) simp
  qed
qed

section \<open>Creating a space\<close>

definition new_space :: "nat \<Rightarrow> port_space" where
  "new_space i = \<lparr>ps_id = i, ps_table = replicate INITIAL_SPACE_CAP no_entry, ps_inuse = 0, ps_hint = 1\<rparr>"

lemma new_space_ok: "space_ok (new_space i)" "space_holds (new_space i) = {#}" "space_sets (new_space i) = {#}"
  by (simp_all add: new_space_def space_ok_def space_inv_def INITIAL_SPACE_CAP_def space_holds_def space_sets_def sum_list_no_rights)

lemma new_space_inv:
  assumes inv: "ipc_inv c h" and i: "i = next_space_id h"
    and h': "ipc_ports h' = ipc_ports h" "ipc_sets h' = ipc_sets h" "ipc_spaces h' = (ipc_spaces h)(i \<mapsto> new_space i)"
      "next_port_id h' = next_port_id h" "next_space_id h' = Suc i" "ipc_ms h' = ipc_ms h"
  shows "ipc_inv c h'" "all_rights c h' = all_rights c h" "stable c h' = stable c h"
proof -
  have o: "over (Suc i) ((ipc_spaces h)(i \<mapsto> new_space i)) (\<lambda>_. space_holds) = over i (ipc_spaces h) (\<lambda>_. space_holds)"
    "over (Suc i) ((ipc_spaces h)(i \<mapsto> new_space i)) (\<lambda>_. space_sets) = over i (ipc_spaces h) (\<lambda>_. space_sets)"
    by (simp_all add: over_new new_space_ok)
  show A: "all_rights c h' = all_rights c h" using o h' i by (simp add: all_rights_def held_def)
  show "stable c h' = stable c h" using o h' i by (simp add: stable_def)
  have N: "set_names h' = set_names h" using o h' i by (simp add: set_names_def)
  have P: "pages_queued F h' = pages_queued F h" for F using h' by (simp add: pages_queued_def)
  have sp: "j < Suc i \<and> space_inv sp \<and> (j \<notin> cx_dying c \<longrightarrow> ps_inuse sp = length (filter used_entry (ps_table sp)))"
    if "ipc_spaces h' j = Some sp" for j sp
    using that ipc_invD(6) [OF inv, of j sp] new_space_ok(1) [of i] i by (auto simp: h' space_ok_def split: if_splits)
  show "ipc_inv c h'" unfolding ipc_inv_def A N P
    using inv sp unfolding ipc_inv_def h'(1,2,4,5,6) by simp
qed

lemma port_space_new_ok:
  assumes ok: "ipc_ok c h" and id: "next_space_id h < 2 ^ 64 - 1"
  obtains (made) h' where "port_space_new h = (Some (next_space_id h), h')" "ipc_ok c h'" "all_rights c h' = all_rights c h"
      "ipc_spaces h' = (ipc_spaces h)(next_space_id h \<mapsto> new_space (next_space_id h))"
    | (nomem) h' where "port_space_new h = (None, h')" "ipc_ok c h'" "ipc_spaces h' = ipc_spaces h" "all_rights c h' = all_rights c h"
proof -
  let ?k = "ipc_allocs h"
  consider (no) k where "port_space_new h = (None, h\<lparr>ipc_allocs := k\<rparr>)"
    | (yes) "port_space_new h = (Some (next_space_id h), set_space (next_space_id h) (new_space (next_space_id h))
        (h\<lparr>ipc_allocs := ?k + 2, next_space_id := next_space_id h + 1\<rparr>))"
  proof (cases "ipc_kmem h ?k \<and> ipc_kmem h (?k + 1)")
    case True
    then show thesis using id by (intro that(2)) (simp add: port_space_new_def ipc_alloc_def add64_def new_space_def Let_def)
  next
    case False
    then show thesis by (cases "ipc_kmem h ?k") (auto intro: that(1) simp: port_space_new_def ipc_alloc_def)
  qed
  then show ?thesis
  proof cases
    case (no k)
    then show ?thesis using ipc_ok_alloc [OF ok] by (intro that(2) [of "h\<lparr>ipc_allocs := k\<rparr>"]) simp_all
  next
    case yes
    define h' where "h' = set_space (next_space_id h) (new_space (next_space_id h)) (h\<lparr>ipc_allocs := ?k + 2, next_space_id := next_space_id h + 1\<rparr>)"
    have f: "ipc_ports h' = ipc_ports h" "ipc_sets h' = ipc_sets h" "ipc_spaces h' = (ipc_spaces h)(next_space_id h \<mapsto> new_space (next_space_id h))"
      "next_port_id h' = next_port_id h" "next_space_id h' = Suc (next_space_id h)" "ipc_ms h' = ipc_ms h"
      by (simp_all add: h'_def)
    note n = new_space_inv [OF ipc_okD(2) [OF ok] refl f]
    have "settled c h'" by (rule settled_more [OF ipc_okD(8) [OF ok], of _ "{#}"]) (use n f in \<open>auto simp: listed_def\<close>)
    then have "ipc_ok c h'" using n ok id f by (simp add: ipc_ok_def pins_def)
    then show ?thesis using yes n(2) f(3) by (intro that(1) [of h']) (simp_all add: h'_def)
  qed
qed

section \<open>Destroying a space\<close>

definition dying :: "nat \<Rightarrow> ipc_ctx \<Rightarrow> ipc_ctx" where
  "dying i c = c\<lparr>cx_dying := insert i (cx_dying c)\<rparr>"

lemma dying_simps [simp]:
  "all_rights (dying i c) h = all_rights c h" "stable (dying i c) h = stable c h" "pins (dying i c) h = pins c h"
  "settled (dying i c) h = settled c h" "idle (dying i c) = idle c" "last_name_safe (dying i c) p r h = last_name_safe c p r h"
  "name_safe (dying i c) sp n r h = name_safe c sp n r h" "i \<in> cx_dying (dying i c)"
proof -
  show A: "all_rights (dying i c) h = all_rights c h" "stable (dying i c) h = stable c h" for h
    by (simp_all add: all_rights_def stable_def dying_def)
  show "pins (dying i c) h = pins c h" by (simp add: pins_def pinned_def dying_def)
  show "settled (dying i c) h = settled c h" by (simp add: settled_def A)
  show "idle (dying i c) = idle c" by (simp add: idle_def pinned_def dying_def)
  show l: "last_name_safe (dying i c) p r h = last_name_safe c p r h" for p r by (simp add: last_name_safe_def A)
  show "name_safe (dying i c) sp n r h = name_safe c sp n r h" by (simp add: name_safe_def l split: option.splits)
  show "i \<in> cx_dying (dying i c)" by (simp add: dying_def)
qed

lemma dying_inv:
  "ipc_inv c h \<Longrightarrow> ipc_inv (dying i c) h" "ipc_inv (dying i c) h \<Longrightarrow> ipc_spaces h i = None \<Longrightarrow> ipc_inv c h"
proof -
  have pi: "port_inv (dying i c) = port_inv c" and si: "pset_inv (dying i c) = pset_inv c" and fr: "frames_ok (dying i c) = frames_ok c"
    and o: "cx_sets (dying i c) = cx_sets c" "cx_freeing (dying i c) = cx_freeing c" "cx_pages (dying i c) = cx_pages c"
      "cx_zero (dying i c) = cx_zero c" "cx_dying (dying i c) = insert i (cx_dying c)"
    by (simp_all add: fun_eq_iff port_inv_def pset_inv_def frames_ok_def dying_def)
  show "ipc_inv c h \<Longrightarrow> ipc_inv (dying i c) h" "ipc_inv (dying i c) h \<Longrightarrow> ipc_spaces h i = None \<Longrightarrow> ipc_inv c h"
    unfolding ipc_inv_def pi si fr o dying_simps(1) by (simp, fastforce)
qed

lemma ipc_ok_dying: "ipc_ok c h \<Longrightarrow> ipc_ok (dying i c) h"
  "ipc_ok (dying i c) h \<Longrightarrow> ipc_spaces h i = None \<Longrightarrow> ipc_ok c h"
  by (simp add: ipc_ok_def dying_inv(1)) (simp add: ipc_ok_def dying_inv(2) [of i])

definition emptied :: "port_entry \<Rightarrow> port_entry" where
  "emptied e = e\<lparr>pe_port := None, pe_set := None, pe_rights := 0\<rparr>"

lemma emptied_facts [simp]: "entry_holds (emptied e) = {#}" "entry_sets (emptied e) = {#}" "entry_inv (emptied e)" "used_entry (emptied e) = pe_dead e"
  by (simp_all add: emptied_def entry_holds_def entry_sets_def entry_inv_def used_entry_def)

lemma emptied_same: "entry_inv e \<Longrightarrow> pe_port e = None \<Longrightarrow> pe_set e = None \<Longrightarrow> emptied e = e"
  by (simp add: emptied_def entry_inv_def)

lemma destroy_entry_ok:
  assumes ok: "ipc_ok (dying i c) h" and sp: "ipc_spaces h i = Some sp" and n: "0 < n" "n < length (ps_table sp)"
    and safe: "name_safe c sp n (pe_rights (ps_table sp ! n)) h"
  obtains h' where "destroy_entry i n h = Ret h'" "ipc_ok (dying i c) h'" "ipc_spaces h' = (ipc_spaces h)(i \<mapsto> put_entry n (emptied (ps_table sp ! n)) sp)"
    "all_rights c h' \<subseteq># all_rights c h"
proof -
  let ?e = "ps_table sp ! n" let ?sp = "put_entry n (emptied ?e) sp"
  have si: "space_inv sp" using ipc_invD(6) [OF ipc_okD(2) [OF ok] sp] by simp
  have ei: "entry_inv ?e" using space_invD(4) [OF si n(2)] .
  show ?thesis
  proof (cases "pe_port ?e = None \<and> pe_set ?e = None")
    case True
    have "?sp = sp" using emptied_same [OF ei] True by (simp add: put_entry_def)
    then show ?thesis using True sp ok by (intro that [of h]) (simp_all add: destroy_entry_def with_space_def Let_def fun_upd_idem)
  next
    case False
    then have us: "pe_port ?e \<noteq> None \<or> pe_set ?e \<noteq> None" by simp
    then have e: "emptied ?e = no_entry" using entry_invD(1,2) [OF ei] by (auto simp: emptied_def no_entry_def)
    have so: "space_inv ?sp" by (rule put_space_inv [OF si n(1)]) simp
    have tab: "ps_table ?sp = (ps_table sp)[n := no_entry]" by (simp add: e)
    have dy: "i \<notin> cx_dying (dying i c) \<Longrightarrow> ps_inuse ?sp = length (filter used_entry (ps_table ?sp))" by simp
    have safe': "name_safe (dying i c) sp n (pe_rights ?e) h" using safe by simp
    obtain h' where h': "kbind (give_up_port (pe_port ?e) (pe_rights ?e) (set_space i ?sp h)) (give_up_set (pe_set ?e)) = Ret h'" "ipc_ok (dying i c) h'"
      "ipc_spaces h' = (ipc_spaces h)(i \<mapsto> ?sp)" "all_rights (dying i c) h' \<subseteq># all_rights (dying i c) h" "next_port_id h' = next_port_id h" "next_space_id h' = next_space_id h"
      by (rule give_up_entry [OF ok sp n(2) so dy tab refl ei us safe'])
    then show ?thesis using False sp by (intro that [of h']) (auto simp: destroy_entry_def with_space_def Let_def emptied_def [symmetric])
  qed
qed

lemma destroy_entries_append: "destroy_entries i (xs @ ys) h = kbind (destroy_entries i xs h) (destroy_entries i ys)"
proof (induct xs arbitrary: h)
  case (Cons n ns)
  then show ?case by (cases "destroy_entry i n h") simp_all
qed simp

lemma destroy_entries_ok:
  assumes ok: "ipc_ok (dying i c) h" and sp: "ipc_spaces h i = Some sp" and k: "1 \<le> k" "k \<le> length (ps_table sp)"
    and safe: "\<And>j h1 sp1. j < k \<Longrightarrow> 0 < j \<Longrightarrow> destroy_entries i [1..<j] h = Ret h1 \<Longrightarrow> ipc_spaces h1 i = Some sp1 \<Longrightarrow>
      name_safe c sp1 j (pe_rights (ps_table sp1 ! j)) h1"
  shows "\<exists>h' sp'. destroy_entries i [1..<k] h = Ret h' \<and> ipc_ok (dying i c) h' \<and> ipc_spaces h' = (ipc_spaces h)(i \<mapsto> sp') \<and>
    length (ps_table sp') = length (ps_table sp) \<and> all_rights c h' \<subseteq># all_rights c h \<and>
    (\<forall>m < length (ps_table sp). ps_table sp' ! m = (if 1 \<le> m \<and> m < k then emptied (ps_table sp ! m) else ps_table sp ! m))"
  using k safe
proof (induct k rule: nat_induct_at_least)
  case base
  then show ?case using ok sp by (intro exI [of _ h] exI [of _ sp]) (simp add: fun_upd_idem)
next
  case (Suc k)
  obtain h1 sp1 where h1: "destroy_entries i [1..<k] h = Ret h1" "ipc_ok (dying i c) h1" "ipc_spaces h1 = (ipc_spaces h)(i \<mapsto> sp1)"
    "length (ps_table sp1) = length (ps_table sp)" "all_rights c h1 \<subseteq># all_rights c h"
    "\<forall>m < length (ps_table sp). ps_table sp1 ! m = (if 1 \<le> m \<and> m < k then emptied (ps_table sp ! m) else ps_table sp ! m)"
    using Suc.hyps(2) Suc.prems by (metis Suc_leD less_SucI)
  have s1: "ipc_spaces h1 i = Some sp1" using h1(3) by simp
  have n: "0 < k" "k < length (ps_table sp1)" using Suc.hyps(1) Suc.prems(1) h1(4) by simp_all
  obtain h' where h': "destroy_entry i k h1 = Ret h'" "ipc_ok (dying i c) h'"
    "ipc_spaces h' = (ipc_spaces h1)(i \<mapsto> put_entry k (emptied (ps_table sp1 ! k)) sp1)" "all_rights c h' \<subseteq># all_rights c h1"
    by (rule destroy_entry_ok [OF h1(2) s1 n Suc.prems(2) [OF _ _ h1(1) s1]]) (use n in simp_all)
  have "destroy_entries i [1..<Suc k] h = Ret h'" using Suc.hyps(1) h1(1) h'(1) by (simp add: destroy_entries_append)
  moreover have "\<forall>m < length (ps_table sp). (ps_table sp1)[k := emptied (ps_table sp1 ! k)] ! m =
      (if 1 \<le> m \<and> m < Suc k then emptied (ps_table sp ! m) else ps_table sp ! m)"
    using h1(4,6) n by (auto simp: nth_list_update less_Suc_eq)
  ultimately show ?case using h'(2-4) h1(3-5)
    by (intro exI [of _ h'] exI [of _ "put_entry k (emptied (ps_table sp1 ! k)) sp1"]) (auto intro: subset_mset.order_trans)
qed

lemma sum_list_none: "(\<And>e. e \<in> set es \<Longrightarrow> f e = {#}) \<Longrightarrow> sum_list (map f es) = {#}"
  by (induct es) auto

lemma empty_space_inv:
  assumes inv: "ipc_inv c h" and sp: "ipc_spaces h i = Some sp" and none: "space_holds sp = {#}" "space_sets sp = {#}"
    and h': "h' = h\<lparr>ipc_spaces := (ipc_spaces h)(i := None)\<rparr>"
  shows "ipc_inv c h'" "all_rights c h' = all_rights c h" "stable c h' = stable c h"
proof -
  have lt: "i < next_space_id h" using ipc_invD(6) [OF inv sp] by simp
  have o: "over (next_space_id h) ((ipc_spaces h)(i := None)) (\<lambda>_. space_holds) = over (next_space_id h) (ipc_spaces h) (\<lambda>_. space_holds)"
    "over (next_space_id h) ((ipc_spaces h)(i := None)) (\<lambda>_. space_sets) = over (next_space_id h) (ipc_spaces h) (\<lambda>_. space_sets)"
    using over_del [OF lt, of "ipc_spaces h" "\<lambda>_. space_holds"] over_del [OF lt, of "ipc_spaces h" "\<lambda>_. space_sets"] sp none by simp_all
  show A: "all_rights c h' = all_rights c h" using o h' by (simp add: all_rights_def held_def)
  show "stable c h' = stable c h" using o h' by (simp add: stable_def)
  have N: "set_names h' = set_names h" using o h' by (simp add: set_names_def)
  have P: "pages_queued F h' = pages_queued F h" for F using h' by (simp add: pages_queued_def)
  show "ipc_inv c h'" unfolding ipc_inv_def A N P using inv unfolding ipc_inv_def h' by auto
qed

lemma port_space_destroy_ok:
  assumes ok: "ipc_ok c h" and sp: "ipc_spaces h i = Some sp"
    and safe: "\<And>j h1 sp1. j < length (ps_table sp) \<Longrightarrow> 0 < j \<Longrightarrow> destroy_entries i [1..<j] h = Ret h1 \<Longrightarrow> ipc_spaces h1 i = Some sp1 \<Longrightarrow>
      name_safe c sp1 j (pe_rights (ps_table sp1 ! j)) h1"
  obtains h' where "port_space_destroy i h = Ret h'" "ipc_ok c h'" "ipc_spaces h' = (ipc_spaces h)(i := None)" "all_rights c h' \<subseteq># all_rights c h"
proof -
  have si: "space_inv sp" using ipc_invD(6) [OF ipc_okD(2) [OF ok] sp] by simp
  have len: "1 \<le> length (ps_table sp)" using space_invD(1) [OF si] by linarith
  obtain h1 sp1 where h1: "destroy_entries i [1..<length (ps_table sp)] h = Ret h1" "ipc_ok (dying i c) h1" "ipc_spaces h1 = (ipc_spaces h)(i \<mapsto> sp1)"
    "length (ps_table sp1) = length (ps_table sp)" "all_rights c h1 \<subseteq># all_rights c h"
    "\<forall>m < length (ps_table sp). ps_table sp1 ! m = (if 1 \<le> m \<and> m < length (ps_table sp) then emptied (ps_table sp ! m) else ps_table sp ! m)"
    using destroy_entries_ok [OF ipc_ok_dying(1) [OF ok] sp len order_refl safe] by blast
  have e: "entry_holds e = {#} \<and> entry_sets e = {#}" if es1: "e \<in> set (ps_table sp1)" for e
  proof -
    obtain m where m: "m < length (ps_table sp)" "e = ps_table sp1 ! m" using es1 h1(4) by (auto simp: in_set_conv_nth)
    then show ?thesis using h1(6) space_invD(3) [OF si] by (cases "m = 0") (auto simp: unused_holds)
  qed
  have none: "space_holds sp1 = {#}" "space_sets sp1 = {#}" unfolding space_holds_def space_sets_def
    by (rule sum_list_none; use e in blast)+
  define h' where "h' = h1\<lparr>ipc_spaces := (ipc_spaces h1)(i := None)\<rparr>"
  have s1: "ipc_spaces h1 i = Some sp1" using h1(3) by simp
  note es = empty_space_inv [OF ipc_okD(2) [OF h1(2)] s1 none h'_def]
  have set': "settled (dying i c) h'"
    by (rule settled_more [OF ipc_okD(8) [OF h1(2)], of _ "{#}"]) (use es in \<open>auto simp: listed_def h'_def\<close>)
  have "ipc_ok (dying i c) h'"
    by (rule ipc_ok_step [OF h1(2) es(1) _ set']) (use ipc_okD(3) [OF h1(2)] in \<open>auto simp: h'_def pins_def\<close>)
  then have "ipc_ok c h'" by (rule ipc_ok_dying(2)) (simp add: h'_def)
  moreover have "port_space_destroy i h = Ret h'" using sp h1(1) by (simp add: port_space_destroy_def with_space_def h'_def)
  ultimately show ?thesis using h1(3,5) es(2) by (intro that [of h']) (simp_all add: h'_def)
qed

end
