(* ===== verification/Port_Ops.thy ===== *)
theory Port_Ops
  imports Port_Calls
begin

text \<open>
  Sequences of calls on name spaces, and the properties of the name-space layer. \<open>run_op\<close> is one call from the
  system-call layer, \<open>op_safe\<close> what it relies on. The examples are reached from the state after boot by running calls.
\<close>

unbundle bit_operations_syntax

section \<open>Every call, on every branch\<close>

datatype space_op =
    SpaceNew
  | SpaceDestroy nat
  | Allocate nat "8 word"
  | Deallocate nat nat
  | ModRefs nat nat "8 word"
  | PortType nat nat
  | SetAllocate nat
  | SetInsert nat nat nat
  | SetRemove nat nat nat
  | InjectSend nat nat nat
  | RequestNotification nat nat nat nat nat

definition last_state :: "('a \<times> ipc) kres \<Rightarrow> ipc kres" where
  "last_state r = kbind r (\<lambda>(_, h). Ret h)"

fun run_op :: "space_op \<Rightarrow> ipc \<Rightarrow> ipc kres" where
  "run_op SpaceNew h = Ret (snd (port_space_new h))"
| "run_op (SpaceDestroy i) h = port_space_destroy i h"
| "run_op (Allocate i r) h = last_state (port_allocate i r h)"
| "run_op (Deallocate i n) h = last_state (port_deallocate i n h)"
| "run_op (ModRefs i n r) h = last_state (port_mod_refs i n r h)"
| "run_op (PortType i n) h = last_state (mach_port_type i n h)"
| "run_op (SetAllocate i) h = last_state (port_set_allocate i h)"
| "run_op (SetInsert i sn pn) h = last_state (port_set_insert i sn pn h)"
| "run_op (SetRemove i sn pn) h = last_state (port_set_remove i sn pn h)"
| "run_op (InjectSend i n j) h = kbind (port_space_inject_send i n j h) (\<lambda>(_, _, h'). Ret h')"
| "run_op (RequestNotification i n ty nn tag) h = last_state (port_request_notification i n ty nn tag h)"

text \<open>
  What a call relies on: the spaces it is given exist, identifiers and reference counts are not about to run out, a
  table is not about to outgrow the 32-bit names, rights that are dropped are held, and the condition on sets.
\<close>

definition refs_room :: "port_space \<Rightarrow> nat \<Rightarrow> 8 word \<Rightarrow> ipc \<Rightarrow> bool" where
  "refs_room sp n need h \<longleftrightarrow>
     (case space_lookup sp n need of
        None \<Rightarrow> True
      | Some (p, _) \<Rightarrow> (case ipc_ports h p of None \<Rightarrow> True | Some q \<Rightarrow> p_refs q + 3 < 2 ^ 32))"

definition on_space :: "nat \<Rightarrow> ipc \<Rightarrow> (port_space \<Rightarrow> bool) \<Rightarrow> bool" where
  "on_space i h P \<longleftrightarrow> (case ipc_spaces h i of None \<Rightarrow> False | Some sp \<Rightarrow> P sp)"

fun op_safe :: "ipc_ctx \<Rightarrow> space_op \<Rightarrow> ipc \<Rightarrow> bool" where
  "op_safe c SpaceNew h \<longleftrightarrow> next_space_id h < 2 ^ 64 - 1"
| "op_safe c (SpaceDestroy i) h \<longleftrightarrow> on_space i h (\<lambda>sp.
     \<forall>j h1 sp1. j < length (ps_table sp) \<longrightarrow> 0 < j \<longrightarrow> destroy_entries i [1..<j] h = Ret h1 \<longrightarrow> ipc_spaces h1 i = Some sp1 \<longrightarrow>
       name_safe c sp1 j (pe_rights (ps_table sp1 ! j)) h1)"
| "op_safe c (Allocate i r) h \<longleftrightarrow> on_space i h (\<lambda>sp. 2 * length (ps_table sp) < 2 ^ 32) \<and> next_port_id h < 2 ^ 64 - 1"
| "op_safe c (Deallocate i n) h \<longleftrightarrow> on_space i h (\<lambda>sp. name_safe c sp n (pe_rights (ps_table sp ! n)) h)"
| "op_safe c (ModRefs i n r) h \<longleftrightarrow> on_space i h (\<lambda>sp. name_safe c sp n r h \<and> (lacks_right sp n r \<or> pe_rights (ps_table sp ! n) AND r = r))"
| "op_safe c (PortType i n) h \<longleftrightarrow> on_space i h (\<lambda>sp. name_safe c sp n (pe_rights (ps_table sp ! n)) h)"
| "op_safe c (SetAllocate i) h \<longleftrightarrow> on_space i h (\<lambda>sp. 2 * length (ps_table sp) < 2 ^ 32) \<and> next_port_id h < 2 ^ 64 - 1"
| "op_safe c (SetInsert i sn pn) h \<longleftrightarrow> on_space i h (\<lambda>_. True)"
| "op_safe c (SetRemove i sn pn) h \<longleftrightarrow> on_space i h (\<lambda>_. True)"
| "op_safe c (InjectSend i n j) h \<longleftrightarrow> on_space i h (\<lambda>sp. refs_room sp n MACH_PORT_RIGHT_SEND h) \<and>
     on_space j h (\<lambda>dp. 2 * length (ps_table dp) < 2 ^ 32)"
| "op_safe c (RequestNotification i n ty nn tag) h \<longleftrightarrow> on_space i h (\<lambda>sp. refs_room sp nn MACH_PORT_RIGHT_SEND h)"

lemma on_spaceE: "on_space i h P \<Longrightarrow> (\<And>sp. ipc_spaces h i = Some sp \<Longrightarrow> P sp \<Longrightarrow> R) \<Longrightarrow> R"
  by (auto simp: on_space_def split: option.splits)

lemma lookup_named: "space_lookup sp n need = Some (p, r) \<Longrightarrow> named sp n need p"
  by (auto simp: named_def space_lookup_def Let_def split: option.splits if_splits)

lemma entry_alive:
  assumes ok: "ipc_ok c h" and sp: "ipc_spaces h i = Some sp" and n: "n < length (ps_table sp)" "pe_port (ps_table sp ! n) = Some p"
  obtains q where "ipc_ports h p = Some q"
proof -
  have "space_inv sp" using ipc_invD(6) [OF ipc_okD(2) [OF ok] sp] by simp
  then have r: "rights_ok (pe_rights (ps_table sp ! n))" using entry_invD(1) [OF space_invD(4) n(2)] n(1) by simp
  obtain k where k: "(p, k) \<in># rights_held p (pe_rights (ps_table sp ! n))" using rights_held_any [OF r] by blast
  then have "(p, k) \<in># entry_holds (ps_table sp ! n)" using n(2) by (simp add: entry_holds_def)
  then have "(p, k) \<in># all_rights c h"
    using entry_stable [OF ipc_okD(2) [OF ok] sp n(1)] stable_held by (metis mset_subset_eqD)
  then show ?thesis using ipc_invD(3) [OF ipc_okD(2) [OF ok]] that by fastforce
qed

lemma lookup_alive:
  assumes "ipc_ok c h" "ipc_spaces h i = Some sp" "space_lookup sp n need = Some (p, r)"
  obtains q where "ipc_ports h p = Some q"
  using entry_alive [OF assms(1,2), of n p] lookup_named [OF assms(3)] that by (auto simp: named_def)

lemma ipc_ok_last:
  assumes "r = Ret (x, h')" "ipc_ok c h'"
  shows "\<exists>h'. last_state r = Ret h' \<and> ipc_ok c h'"
  using assms by (simp add: last_state_def)

lemma port_mod_refs_runs:
  assumes ok: "ipc_ok c h" and alive: "i \<notin> cx_dying c" and sp: "ipc_spaces h i = Some sp"
    and safe: "name_safe c sp n r h" "lacks_right sp n r \<or> pe_rights (ps_table sp ! n) AND r = r"
  shows "\<exists>rv h'. port_mod_refs i n r h = Ret (rv, h') \<and> ipc_ok c h'"
proof (cases "n = MACH_PORT_NULL \<or> n = MACH_PORT_DEAD \<or> lacks_right sp n r")
  case True
  then show ?thesis using sp ok by (auto simp: port_mod_refs_def space_drop_one_right_def with_space_def)
next
  case False
  then obtain p where p: "named sp n r p" using safe(2) by (auto simp: named_def lacks_right_def)
  have len: "n < length (ps_table sp)" and e: "pe_port (ps_table sp ! n) = Some p" and sub: "pe_rights (ps_table sp ! n) AND r = r"
    using p by (auto simp: named_def)
  have "space_inv sp" using ipc_invD(6) [OF ipc_okD(2) [OF ok] sp] by simp
  then have pr: "rights_ok (pe_rights (ps_table sp ! n))" using entry_invD(1) [OF space_invD(4) e] len by simp
  have "r \<noteq> 0" using False sub by (auto simp: lacks_right_def)
  moreover have "r AND m = 0" if "pe_rights (ps_table sp ! n) AND m = 0" for m using sub that by (metis and.assoc and.commute and_zero_eq)
  ultimately have "rights_ok r" using pr by (simp add: rights_ok_def)
  moreover have "last_name_safe c p r h" using safe(1) len e by (simp add: name_safe_def)
  ultimately obtain h' where "space_drop_one_right i n r h = Ret (MACH_MSG_OK, h')" "ipc_ok c h'"
    by (metis space_drop_one_right_ok [OF ok alive sp p])
  then show ?thesis by (simp add: port_mod_refs_def)
qed

lemma mach_port_type_runs:
  assumes ok: "ipc_ok c h" and alive: "i \<notin> cx_dying c" and sp: "ipc_spaces h i = Some sp"
    and safe: "name_safe c sp n (pe_rights (ps_table sp ! n)) h"
  shows "\<exists>ty h'. mach_port_type i n h = Ret (ty, h') \<and> ipc_ok c h'"
proof (cases "n \<noteq> MACH_PORT_NULL \<and> n \<noteq> MACH_PORT_DEAD \<and> n < length (ps_table sp) \<and> \<not> pe_dead (ps_table sp ! n) \<and>
    pe_set (ps_table sp ! n) = None \<and> pe_port (ps_table sp ! n) \<noteq> None \<and> \<not> has (pe_rights (ps_table sp ! n)) MACH_PORT_RIGHT_RECEIVE")
  case False
  then show ?thesis using sp ok by (auto simp: mach_port_type_def with_space_def Let_def)
next
  case True
  let ?r = "pe_rights (ps_table sp ! n)"
  obtain p where p: "pe_port (ps_table sp ! n) = Some p" using True by blast
  obtain q where q: "ipc_ports h p = Some q" using True by (elim conjE entry_alive [OF ok sp _ p])
  have nm: "named sp n ?r p" using True p by (simp add: named_def)
  show ?thesis
  proof (cases "p_dead q")
    case False
    then show ?thesis using sp ok True p q by (auto simp: mach_port_type_def with_space_def with_port_def Let_def)
  next
    case dead: True
    have "last_name_safe c p ?r h" using safe True p by (simp add: name_safe_def)
    then obtain h' where "mach_port_type i n h = Ret (MACH_PORT_TYPE_DEAD_NAME, h')" "ipc_ok c h'"
      using True by (metis mach_port_type_dies [OF ok alive sp nm refl _ q dead])
    then show ?thesis by blast
  qed
qed

lemma port_allocate_runs:
  assumes ok: "ipc_ok c h" and alive: "i \<notin> cx_dying c" and sp: "ipc_spaces h i = Some sp" and sz: "2 * length (ps_table sp) < 2 ^ 32"
    and id: "next_port_id h < 2 ^ 64 - 1"
  shows "\<exists>n h'. port_allocate i r h = Ret (n, h') \<and> ipc_ok c h'"
proof (cases "rights_ok r")
  case True
  show ?thesis by (rule port_allocate_ok [OF ok alive sp sz id True]) blast+
next
  case False
  then have "port_allocate i r h = Ret (MACH_PORT_NULL, h)" by (auto simp: port_allocate_def rights_ok_def)
  then show ?thesis using ok by blast
qed

lemma port_set_insert_runs:
  assumes ok: "ipc_ok c h" and alive: "i \<notin> cx_dying c" and sp: "ipc_spaces h i = Some sp"
  shows "\<exists>rv h'. port_set_insert i sn pn h = Ret (rv, h') \<and> ipc_ok c h'"
proof (cases "space_lookup_set sp sn")
  case None
  then show ?thesis using ok sp by (simp add: port_set_insert_def with_space_def)
next
  case (Some s)
  show ?thesis
  proof (cases "space_lookup sp pn MACH_PORT_RIGHT_RECEIVE")
    case None
    then show ?thesis using ok sp Some by (simp add: port_set_insert_def with_space_def)
  next
    case (Some pr)
    obtain p r where lk: "space_lookup sp pn MACH_PORT_RIGHT_RECEIVE = Some (p, r)" using Some by (cases pr) simp
    obtain q where q: "ipc_ports h p = Some q" by (rule lookup_alive [OF ok sp lk])
    show ?thesis
    proof (cases "p_set q")
      case None
      show ?thesis by (rule port_set_insert_ok [OF ok alive sp \<open>space_lookup_set sp sn = Some s\<close> lookup_named [OF lk] q None]) blast
    next
      case (Some s')
      then show ?thesis using ok sp q lk \<open>space_lookup_set sp sn = Some s\<close> by (simp add: port_set_insert_def with_space_def with_port_def)
    qed
  qed
qed

lemma port_set_remove_runs:
  assumes ok: "ipc_ok c h" and alive: "i \<notin> cx_dying c" and sp: "ipc_spaces h i = Some sp"
  shows "\<exists>rv h'. port_set_remove i sn pn h = Ret (rv, h') \<and> ipc_ok c h'"
proof (cases "space_lookup_set sp sn")
  case None
  then show ?thesis using ok sp by (simp add: port_set_remove_def with_space_def)
next
  case sn: (Some s)
  show ?thesis
  proof (cases "space_lookup sp pn MACH_PORT_RIGHT_RECEIVE")
    case None
    then show ?thesis using ok sp sn by (simp add: port_set_remove_def with_space_def)
  next
    case (Some pr)
    obtain p r where lk: "space_lookup sp pn MACH_PORT_RIGHT_RECEIVE = Some (p, r)" using Some by (cases pr) simp
    obtain q where q: "ipc_ports h p = Some q" by (rule lookup_alive [OF ok sp lk])
    have none: "cx_leaving c = {}" by (rule idleD(5) [OF ipc_okD(1) [OF ok]])
    obtain t where t: "ipc_sets h s = Some t" by (rule set_named [OF ipc_okD(2) [OF ok] sp sn])
    note mb = members_bound [OF ipc_okD(2) [OF ok] t none]
    show ?thesis
    proof (cases "p \<in> set (pset_members t)")
      case True
      then have "p_set q = Some s" using mb(4) q by fastforce
      then show ?thesis by (rule port_set_remove_ok [OF ok alive sp sn lookup_named [OF lk] q]) blast
    next
      case False
      have "unlink_member p (pset_members t) h = Ret (remove1 p (pset_members t))" by (rule unlink_all) (use mb(4) in auto)
      then show ?thesis using False ok sp sn lk t by (simp add: port_set_remove_def with_space_def with_set_def)
    qed
  qed
qed

lemma inject_send_runs:
  assumes ok: "ipc_ok c h" and src: "ipc_spaces h i = Some sp" and room: "refs_room sp n MACH_PORT_RIGHT_SEND h"
    and live: "j \<notin> cx_dying c" and dst: "ipc_spaces h j = Some dp" and sz: "2 * length (ps_table dp) < 2 ^ 32"
  shows "\<exists>rv m h'. port_space_inject_send i n j h = Ret (rv, m, h') \<and> ipc_ok c h'"
proof (cases "space_lookup sp n MACH_PORT_RIGHT_SEND")
  case None
  then show ?thesis using ok src by (simp add: port_space_inject_send_def with_space_def)
next
  case (Some pr)
  obtain p r where lk: "space_lookup sp n MACH_PORT_RIGHT_SEND = Some (p, r)" using Some by (cases pr) simp
  obtain q where q: "ipc_ports h p = Some q" by (rule lookup_alive [OF ok src lk])
  have lim: "p_refs q + 3 < 2 ^ 32" using room lk q by (simp add: refs_room_def)
  show ?thesis by (rule inject_send_ok [OF ok src lookup_named [OF lk] live dst sz q lim]) blast+
qed

lemma port_request_notification_runs:
  assumes ok: "ipc_ok c h" and alive: "i \<notin> cx_dying c" and sp: "ipc_spaces h i = Some sp" and room: "refs_room sp nn MACH_PORT_RIGHT_SEND h"
  shows "\<exists>rv h'. port_request_notification i n ty nn tag h = Ret (rv, h') \<and> ipc_ok c h'"
proof (cases "required_right ty")
  case None
  then show ?thesis using ok by (simp add: port_request_notification_def)
next
  case ty: (Some req)
  show ?thesis
  proof (cases "space_lookup sp n req = None \<or> space_lookup sp nn MACH_PORT_RIGHT_SEND = None")
    case True
    then show ?thesis using ok sp ty by (auto simp: port_request_notification_def with_space_def split: option.splits)
  next
    case False
    then obtain p r p' r' where lk: "space_lookup sp n req = Some (p, r)" "space_lookup sp nn MACH_PORT_RIGHT_SEND = Some (p', r')" by auto
    show ?thesis
    proof (cases "p = p'")
      case True
      then show ?thesis using ok sp ty lk by (simp add: port_request_notification_def with_space_def)
    next
      case ne: False
      have lim: "p_refs q + 3 < 2 ^ 32" if "ipc_ports h p' = Some q" for q using room lk(2) that by (simp add: refs_room_def)
      show ?thesis
        by (rule port_request_notification_ok [OF ok alive sp ty lookup_named [OF lk(1)] lookup_named [OF lk(2)] ne lim]) blast+
    qed
  qed
qed

lemma run_op_ok:
  assumes ok: "ipc_ok c h" and none: "cx_dying c = {}" and safe: "op_safe c op h"
  shows "\<exists>h'. run_op op h = Ret h' \<and> ipc_ok c h'"
proof -
  have alive: "i \<notin> cx_dying c" for i using none by simp
  show ?thesis
  proof (cases op)
    case SpaceNew
    then show ?thesis using safe by (auto intro: port_space_new_ok [OF ok])
  next
    case (SpaceDestroy i)
    then obtain sp where sp: "ipc_spaces h i = Some sp" and sf: "\<forall>j h1 sp1. j < length (ps_table sp) \<longrightarrow> 0 < j \<longrightarrow>
        destroy_entries i [1..<j] h = Ret h1 \<longrightarrow> ipc_spaces h1 i = Some sp1 \<longrightarrow> name_safe c sp1 j (pe_rights (ps_table sp1 ! j)) h1"
      using safe by (auto elim!: on_spaceE)
    obtain h' where "port_space_destroy i h = Ret h'" "ipc_ok c h'" "ipc_spaces h' = (ipc_spaces h)(i := None)" "all_rights c h' \<subseteq># all_rights c h"
      by (rule port_space_destroy_ok [OF ok sp]) (use sf in blast)
    then show ?thesis using SpaceDestroy by simp
  next
    case (Allocate i r)
    then obtain sp where sp: "ipc_spaces h i = Some sp" "2 * length (ps_table sp) < 2 ^ 32" "next_port_id h < 2 ^ 64 - 1" using safe by (auto elim!: on_spaceE)
    show ?thesis using port_allocate_runs [OF ok alive sp, of r] by (auto simp: Allocate last_state_def)
  next
    case (Deallocate i n)
    then obtain sp where sp: "ipc_spaces h i = Some sp" and sf: "name_safe c sp n (pe_rights (ps_table sp ! n)) h"
      using safe by (auto elim!: on_spaceE)
    show ?thesis by (rule space_drop_ok [OF ok alive sp sf]) (simp add: Deallocate port_deallocate_def last_state_def)
  next
    case (ModRefs i n r)
    then obtain sp where sp: "ipc_spaces h i = Some sp" "name_safe c sp n r h" "lacks_right sp n r \<or> pe_rights (ps_table sp ! n) AND r = r" using safe by (auto elim!: on_spaceE)
    show ?thesis using port_mod_refs_runs [OF ok alive sp] by (auto simp: ModRefs last_state_def)
  next
    case (PortType i n)
    then obtain sp where sp: "ipc_spaces h i = Some sp" "name_safe c sp n (pe_rights (ps_table sp ! n)) h" using safe by (auto elim!: on_spaceE)
    show ?thesis using mach_port_type_runs [OF ok alive sp] by (auto simp: PortType last_state_def)
  next
    case (SetAllocate i)
    then obtain sp where sp: "ipc_spaces h i = Some sp" "2 * length (ps_table sp) < 2 ^ 32" and id: "next_port_id h < 2 ^ 64 - 1"
      using safe by (auto elim!: on_spaceE)
    show ?thesis by (rule port_set_allocate_ok [OF ok alive sp id]) (simp_all add: SetAllocate last_state_def)
  next
    case (SetInsert i sn pn)
    then obtain sp where sp: "ipc_spaces h i = Some sp" using safe by (auto elim!: on_spaceE)
    show ?thesis using port_set_insert_runs [OF ok alive sp, of sn pn] by (auto simp: SetInsert last_state_def)
  next
    case (SetRemove i sn pn)
    then obtain sp where sp: "ipc_spaces h i = Some sp" using safe by (auto elim!: on_spaceE)
    show ?thesis using port_set_remove_runs [OF ok alive sp, of sn pn] by (auto simp: SetRemove last_state_def)
  next
    case (InjectSend i n j)
    then obtain sp dp where sp: "ipc_spaces h i = Some sp" "refs_room sp n MACH_PORT_RIGHT_SEND h" "ipc_spaces h j = Some dp"
      "2 * length (ps_table dp) < 2 ^ 32" using safe by (auto elim!: on_spaceE)
    then show ?thesis using inject_send_runs [OF ok sp(1,2) alive sp(3,4)] InjectSend by auto
  next
    case (RequestNotification i n ty nn tag)
    then obtain sp where sp: "ipc_spaces h i = Some sp" "refs_room sp nn MACH_PORT_RIGHT_SEND h" using safe by (auto elim!: on_spaceE)
    show ?thesis using port_request_notification_runs [OF ok alive sp, of n ty tag] by (auto simp: RequestNotification last_state_def)
  qed
qed

section \<open>Properties\<close>

primrec run_ops :: "space_op list \<Rightarrow> ipc \<Rightarrow> ipc kres" where
  "run_ops [] h = Ret h"
| "run_ops (op # ops) h = kbind (run_op op h) (run_ops ops)"

primrec ops_safe :: "ipc_ctx \<Rightarrow> space_op list \<Rightarrow> ipc \<Rightarrow> bool" where
  "ops_safe c [] h = True"
| "ops_safe c (op # ops) h = (op_safe c op h \<and> (\<forall>h'. run_op op h = Ret h' \<longrightarrow> ops_safe c ops h'))"

text \<open>The subsystem right after its start, with one space.\<close>

definition boot_ctx :: ipc_ctx where
  "boot_ctx = no_ctx\<lparr>cx_pages := {#shared_pa#}\<rparr>"

definition boot_ipc :: ipc where
  "boot_ipc = \<lparr>ipc_ports = Map.empty, ipc_sets = Map.empty, ipc_spaces = Map.empty(1 \<mapsto> new_space 1), next_port_id = 1, next_space_id = 2,
     ipc_woken = [], ipc_ms = shared_ms, ipc_kmem = (\<lambda>_. True), ipc_allocs = 2\<rparr>"

lemma boot_init:
  "port_subsystem_init \<lparr>ipc_ports = Map.empty, ipc_sets = Map.empty, ipc_spaces = Map.empty, next_port_id = 0, next_space_id = 0,
     ipc_woken = [], ipc_ms = shared_ms, ipc_kmem = (\<lambda>_. True), ipc_allocs = 0\<rparr> = Ret (1, boot_ipc)"
  by (simp add: port_subsystem_init_def port_space_new_def ipc_alloc_def set_space_def new_space_def boot_ipc_def add64_def)

lemma over_2: "over 2 m f = (case m 0 of None \<Rightarrow> {#} | Some x \<Rightarrow> f 0 x) + (case m 1 of None \<Rightarrow> {#} | Some x \<Rightarrow> f (Suc 0) x)"
  by (simp add: over_def numeral_2_eq_2)

lemma boot_ok: "ipc_ok boot_ctx boot_ipc"
proof -
  have r: "all_rights boot_ctx boot_ipc = {#}" "stable boot_ctx boot_ipc = {#}"
    by (simp_all add: all_rights_def stable_def held_def boot_ipc_def over_2 new_space_ok boot_ctx_def no_ctx_def)
  have pg: "pages_queued {} boot_ipc = {#}" by (simp add: pages_queued_def boot_ipc_def)
  have n: "set_names boot_ipc = {#}" by (simp add: set_names_def boot_ipc_def over_2 new_space_ok)
  have "frames_ok boot_ctx {#shared_pa#} shared_ms" using ex_frames [of "{#}" "{#}"] by (simp add: frames_ok_def boot_ctx_def)
  then have "ipc_inv boot_ctx boot_ipc" unfolding ipc_inv_def r
    using new_space_ok(1) [of 1] pg n by (auto simp: boot_ipc_def boot_ctx_def no_ctx_def space_ok_def split: if_splits)
  then show ?thesis
    by (simp add: ipc_ok_def idle_def pins_def settled_def calm_def listed_def boot_ctx_def no_ctx_def boot_ipc_def)
qed

lemma run_ops_ok:
  assumes "ipc_ok c h" "cx_dying c = {}" "ops_safe c ops h"
  shows "\<exists>h'. run_ops ops h = Ret h' \<and> ipc_ok c h'"
  using assms
proof (induct ops arbitrary: h)
  case (Cons op ops)
  have "op_safe c op h" using Cons.prems(3) by simp
  then obtain h1 where h1: "run_op op h = Ret h1" "ipc_ok c h1" using run_op_ok [OF Cons.prems(1,2)] by blast
  then show ?case using Cons.hyps [OF h1(2)] Cons.prems(2,3) by simp
qed simp


lemmas space_eval = port_allocate_def port_set_allocate_def port_set_insert_def port_create_def port_set_create_def space_install_def space_install_set_def
  space_alloc_slot_locked_def find_slot_def claim_slot_def install_entry_def put_entry_def entry_free_slot_def with_space_def
  set_space_def set_port_def set_pset_def with_port_def with_set_def port_ref_def port_set_ref_def ipc_alloc_def last_state_def

lemma find_first: "P a \<Longrightarrow> a < b \<Longrightarrow> find P [a..<b] = Some a" "P a \<Longrightarrow> a < b \<Longrightarrow> find P ([a..<b] @ ys) = Some a"
  by (simp_all add: upt_conv_Cons)


text \<open>C7. \<open>port_allocate\<close> either gives a name that was free, which from then on resolves to a fresh port with
  exactly the rights asked for, and leaves what every other name resolves to unchanged; or, when memory runs out, gives
  \<open>MACH_PORT_NULL\<close> and leaves every space unchanged.\<close>

theorem port_allocate_correct:
  assumes "ipc_ok c h" "i \<notin> cx_dying c" "ipc_spaces h i = Some sp" "2 * length (ps_table sp) < 2 ^ 32" "next_port_id h < 2 ^ 64 - 1" "rights_ok r"
  shows "\<exists>n h'. port_allocate i r h = Ret (n, h') \<and> ipc_ok c h' \<and>
    (if n = MACH_PORT_NULL then ipc_spaces h' = ipc_spaces h \<and> all_rights c h' = all_rights c h
     else \<exists>sp'. ipc_spaces h' = (ipc_spaces h)(i \<mapsto> sp') \<and> ipc_ports h (next_port_id h) = None \<and>
       all_rights c h' = all_rights c h + rights_held (next_port_id h) r \<and>
       (\<forall>need. space_lookup sp' n need = (if r AND need = need then Some (next_port_id h, r) else None)) \<and>
       (\<forall>need. space_lookup sp n need = None) \<and>
       (\<forall>m need. m \<noteq> n \<longrightarrow> space_lookup sp' m need = space_lookup sp m need) \<and>
       (\<forall>m. space_lookup_set sp' m = space_lookup_set sp m \<and> space_name_is_dead sp' m = space_name_is_dead sp m))"
proof (cases rule: port_allocate_ok [OF assms, case_names allocated nomem])
  case (allocated n h' sp')
  note d = adds_nameD(9) [OF allocated(4)] and l = adds_name_lookup [OF allocated(4)]
  show ?thesis using allocated d l by (intro exI [of _ n] exI [of _ h']) (simp, intro exI [of _ sp'], simp)
next
  case (nomem h')
  then show ?thesis by (intro exI [of _ MACH_PORT_NULL] exI [of _ h']) simp
qed

theorem port_allocate_correct_witness:
  "\<exists>n h'. port_allocate 1 MACH_PORT_RIGHT_RECEIVE boot_ipc = Ret (n, h') \<and> ipc_ok boot_ctx h'"
proof -
  have "1 \<notin> cx_dying boot_ctx" "ipc_spaces boot_ipc 1 = Some (new_space 1)" "2 * length (ps_table (new_space 1)) < 2 ^ 32"
    "next_port_id boot_ipc < 2 ^ 64 - 1" "rights_ok MACH_PORT_RIGHT_RECEIVE"
    by (simp_all add: boot_ctx_def no_ctx_def boot_ipc_def new_space_def INITIAL_SPACE_CAP_def rights_ok_def right_defs)
  from port_allocate_correct [OF boot_ok this] show ?thesis by blast
qed

lemma freed_name:
  assumes ok: "space_ok sp" "space_ok sp'" and n: "n < length (ps_table sp)" "used_entry (ps_table sp ! n)"
    and t: "ps_table sp' = (ps_table sp)[n := no_entry]"
  shows "ps_inuse sp = Suc (ps_inuse sp')"
  using used_put [OF n(1), of no_entry] n(2) t space_okD(2) [OF ok(1)] space_okD(2) [OF ok(2)] by simp

text \<open>C8. \<open>port_deallocate\<close> fails with \<open>MACH_E_INVAL\<close> on a reserved name and with \<open>MACH_E_NAME\<close> on a name that is not in use, with
  no effect; otherwise it frees exactly that name, the rights it carried are dropped and no right appears.\<close>

theorem port_deallocate_correct:
  assumes "ipc_ok c h" "i \<notin> cx_dying c" "ipc_spaces h i = Some sp" "name_safe c sp n (pe_rights (ps_table sp ! n)) h"
  shows "\<exists>rv h'. port_deallocate i n h = Ret (rv, h') \<and> ipc_ok c h' \<and> all_rights c h' \<subseteq># all_rights c h \<and>
    (if n = MACH_PORT_NULL \<or> n = MACH_PORT_DEAD then rv = MACH_E_INVAL \<and> h' = h
     else if n \<ge> length (ps_table sp) \<or> \<not> used_entry (ps_table sp ! n) then rv = MACH_E_NAME \<and> h' = h
     else rv = MACH_MSG_OK \<and> (\<exists>sp'. ipc_spaces h' = (ipc_spaces h)(i \<mapsto> sp') \<and> ps_table sp' = (ps_table sp)[n := no_entry] \<and>
       ps_inuse sp = Suc (ps_inuse sp')))"
proof -
  obtain h' where h': "space_drop i n h = Ret (drop_result sp n, h')" "ipc_ok c h'" "all_rights c h' \<subseteq># all_rights c h"
    "ipc_spaces h' = (if drop_result sp n = MACH_MSG_OK then (ipc_spaces h)(i \<mapsto> free_slot n (put_entry n no_entry sp)) else ipc_spaces h)"
    "drop_result sp n \<noteq> MACH_MSG_OK \<longrightarrow> h' = h"
    by (rule space_drop_ok [OF assms])
  have "ps_inuse sp = Suc (ps_inuse (free_slot n (put_entry n no_entry sp)))" if "drop_result sp n = MACH_MSG_OK"
    using freed_name [OF ipc_okD(7) [OF assms(1-3)], of "free_slot n (put_entry n no_entry sp)" n] ipc_okD(7) [OF h'(2) assms(2)] h'(4) that
    by (auto simp: drop_result_def split: if_splits)
  then show ?thesis using h' by (auto simp: port_deallocate_def drop_result_def)
qed

text \<open>A server made a port, gave a client a send right to it and kept the receive right.\<close>

definition server_ops :: "space_op list" where
  "server_ops = [Allocate 1 (MACH_PORT_RIGHT_RECEIVE OR MACH_PORT_RIGHT_SEND), SpaceNew, InjectSend 1 1 2, ModRefs 1 1 MACH_PORT_RIGHT_SEND]"

definition one_name :: "nat \<Rightarrow> 8 word \<Rightarrow> port_space" where
  "one_name i r = \<lparr>ps_id = i, ps_table = (replicate 16 no_entry)[1 := port_name 1 r], ps_inuse = 1, ps_hint = Suc (Suc 0)\<rparr>"

definition server_ipc :: ipc where
  "server_ipc = \<lparr>ipc_ports = [1 \<mapsto> (new_port 1)\<lparr>p_refs := 2, p_has_receive := True, p_send_count := 1\<rparr>], ipc_sets = Map.empty,
     ipc_spaces = [2 \<mapsto> one_name 2 MACH_PORT_RIGHT_SEND, 1 \<mapsto> one_name 1 MACH_PORT_RIGHT_RECEIVE], next_port_id = 2, next_space_id = 3,
     ipc_woken = [], ipc_ms = shared_ms, ipc_kmem = (\<lambda>_. True), ipc_allocs = 5\<rparr>"

lemmas run_eval = on_space_def new_space_def INITIAL_SPACE_CAP_def space_eval add64_def find_first no_entry_def right_defs new_port_def new_pset_def
  inc32_def KASSERT_def space_lookup_set_def space_lookup_def MACH_PORT_RIGHT_PORT_SET_def MACH_PORT_NULL_def MACH_PORT_DEAD_def name_safe_def
  last_name_safe_def listed_def refs_room_def port_name_def lacks_right_def take_right_def

lemma port_deref_unfold: "port_deref p r h = port_deref_with (port_deref_n (Suc (2 * ipc_refs h))) p r h"
  by (simp add: port_deref_def)

lemmas op_eval = run_eval port_space_new_def port_space_inject_send_def port_mod_refs_def port_deallocate_def space_drop_def space_drop_one_right_def
  space_install_no_ref_def port_deref_unfold deref_eval free_slot_def give_up_port_def give_up_set_def

lemma server_runs: "run_ops server_ops boot_ipc = Ret server_ipc"
  by (simp add: server_ops_def server_ipc_def one_name_def boot_ipc_def op_eval)

lemma server_ok: "ipc_ok boot_ctx server_ipc"
proof -
  have "ops_safe boot_ctx server_ops boot_ipc"
    by (simp add: server_ops_def boot_ipc_def op_eval)
  then show ?thesis using run_ops_ok [OF boot_ok] server_runs by (fastforce simp: boot_ctx_def no_ctx_def)
qed

text \<open>The server went away.\<close>

definition orphan_ipc :: ipc where
  "orphan_ipc = server_ipc\<lparr>ipc_ports := [1 \<mapsto> (new_port 1)\<lparr>p_refs := 1, p_send_count := 1, p_dead := True\<rparr>],
     ipc_spaces := [2 \<mapsto> one_name 2 MACH_PORT_RIGHT_SEND, 1 \<mapsto> \<lparr>ps_id = 1, ps_table = (replicate 16 no_entry)[1 := no_entry], ps_inuse = 0, ps_hint = 1\<rparr>]\<rparr>"

lemma orphan_runs: "run_op (Deallocate 1 1) server_ipc = Ret orphan_ipc"
  by (simp add: orphan_ipc_def server_ipc_def one_name_def op_eval sub64_def)

lemma orphan_ok: "ipc_ok boot_ctx orphan_ipc"
proof -
  have "op_safe boot_ctx (Deallocate 1 1) server_ipc" by (simp add: server_ipc_def one_name_def op_eval)
  then show ?thesis using run_op_ok [OF server_ok] orphan_runs by (fastforce simp: boot_ctx_def no_ctx_def)
qed

lemma alive_ctx: "i \<notin> cx_dying boot_ctx" by (simp add: boot_ctx_def no_ctx_def)

lemma server_spaces: "ipc_spaces server_ipc 1 = Some (one_name 1 MACH_PORT_RIGHT_RECEIVE)" "ipc_spaces server_ipc 2 = Some (one_name 2 MACH_PORT_RIGHT_SEND)"
  "ipc_spaces orphan_ipc 2 = Some (one_name 2 MACH_PORT_RIGHT_SEND)"
  by (simp_all add: server_ipc_def orphan_ipc_def)

lemma one_name_safe: "ipc_sets h = Map.empty \<Longrightarrow> name_safe c (one_name i r') n r h"
  by (simp add: name_safe_def last_name_safe_def listed_def split: option.splits)

lemma no_sets: "ipc_sets server_ipc = Map.empty" "ipc_sets orphan_ipc = Map.empty"
  by (simp_all add: server_ipc_def orphan_ipc_def)

theorem port_deallocate_correct_witness:
  "\<exists>rv h'. port_deallocate 2 1 server_ipc = Ret (rv, h') \<and> rv = MACH_MSG_OK \<and> ipc_ok boot_ctx h'"
  using port_deallocate_correct [OF server_ok alive_ctx server_spaces(2) one_name_safe [OF no_sets(1)], of 1]
  by (auto simp: MACH_PORT_NULL_def MACH_PORT_DEAD_def one_name_def used_entry_def port_name_def)

text \<open>C9. A name without the receive right whose port has died turns into a dead name when its type is asked: the
  call reports a dead name, drops the rights the name carried, the name no longer resolves, and asking again gives the same
  answer with no effect. While the port is alive the call reports the rights of the name and changes nothing.\<close>

theorem mach_port_type_dead_name:
  assumes "ipc_ok c h" "i \<notin> cx_dying c" "ipc_spaces h i = Some sp" "space_lookup sp n 0 = Some (p, r)"
    "ipc_ports h p = Some q" "\<not> has r MACH_PORT_RIGHT_RECEIVE" "last_name_safe c p r h"
  shows "if p_dead q
    then \<exists>h' sp'. mach_port_type i n h = Ret (MACH_PORT_TYPE_DEAD_NAME, h') \<and> ipc_ok c h' \<and> all_rights c h' \<subseteq># all_rights c h \<and>
      ipc_spaces h' = (ipc_spaces h)(i \<mapsto> sp') \<and> space_name_is_dead sp' n \<and> space_lookup sp' n 0 = None \<and>
      mach_port_type i n h' = Ret (MACH_PORT_TYPE_DEAD_NAME, h')
    else mach_port_type i n h = Ret (unat r, h)"
proof -
  have l: "n \<noteq> MACH_PORT_NULL" "n \<noteq> MACH_PORT_DEAD" "n < length (ps_table sp)" "pe_port (ps_table sp ! n) = Some p" "r = pe_rights (ps_table sp ! n)"
    using lookup_named [OF assms(4)] assms(4) by (auto simp: named_def space_lookup_def Let_def)
  have sp: "entry_inv (ps_table sp ! n)"
    using space_invD(4) [OF space_okD(1) [OF ipc_okD(7) [OF assms(1-3)]]] l(3) by simp
  show ?thesis
  proof (cases "p_dead q")
    case True
    have "named sp n r p" using l by (simp add: named_def)
    from mach_port_type_dies [OF assms(1-3) this l(5) assms(6,5) True assms(7)] obtain h' where
      h': "mach_port_type i n h = Ret (MACH_PORT_TYPE_DEAD_NAME, h')" "ipc_ok c h'"
      "ipc_spaces h' = (ipc_spaces h)(i \<mapsto> put_entry n dead_entry sp)" "all_rights c h' \<subseteq># all_rights c h" by metis
    have "space_name_is_dead (put_entry n dead_entry sp) n" "space_lookup (put_entry n dead_entry sp) n 0 = None"
      using l by (simp_all add: space_name_is_dead_def space_lookup_def dead_entry_def)
    moreover have "mach_port_type i n h' = Ret (MACH_PORT_TYPE_DEAD_NAME, h')"
      using l h'(3) by (simp add: mach_port_type_def with_space_def dead_entry_def)
    ultimately show ?thesis using True h' by auto
  next
    case False
    have "pe_set (ps_table sp ! n) = None" "\<not> pe_dead (ps_table sp ! n)" using sp l(4) by (auto simp: entry_inv_def)
    then show ?thesis using False l assms(3,5,6) by (simp add: mach_port_type_def with_space_def with_port_def Let_def)
  qed
qed

theorem mach_port_type_dead_name_witness:
  "\<exists>h' sp'. mach_port_type 2 1 orphan_ipc = Ret (MACH_PORT_TYPE_DEAD_NAME, h') \<and> ipc_ok boot_ctx h' \<and>
     ipc_spaces h' = (ipc_spaces orphan_ipc)(2 \<mapsto> sp') \<and> space_name_is_dead sp' 1"
proof -
  let ?q = "(new_port 1)\<lparr>p_refs := 1, p_send_count := 1, p_dead := True\<rparr>"
  have l: "space_lookup (one_name 2 MACH_PORT_RIGHT_SEND) 1 0 = Some (1, MACH_PORT_RIGHT_SEND)"
    by (simp add: space_lookup_def one_name_def port_name_def MACH_PORT_NULL_def MACH_PORT_DEAD_def)
  have q: "ipc_ports orphan_ipc 1 = Some ?q" by (simp add: orphan_ipc_def)
  have r: "\<not> has MACH_PORT_RIGHT_SEND MACH_PORT_RIGHT_RECEIVE" by (simp add: right_defs)
  have s: "last_name_safe boot_ctx 1 MACH_PORT_RIGHT_SEND orphan_ipc" by (simp add: last_name_safe_def listed_def no_sets)
  show ?thesis using mach_port_type_dead_name [OF orphan_ok alive_ctx server_spaces(3) l q r s] by auto
qed

text \<open>C10. Destroying a space drops every right its names carry and removes the space; the other spaces are unchanged
  and the counts of all ports are again those of the rights that are held.\<close>

theorem port_space_destroy_correct:
  assumes "ipc_ok c h" "ipc_spaces h i = Some sp"
    and "\<And>j h1 sp1. \<lbrakk>0 < j; j < length (ps_table sp); destroy_entries i [1..<j] h = Ret h1; ipc_spaces h1 i = Some sp1\<rbrakk> \<Longrightarrow>
      name_safe c sp1 j (pe_rights (ps_table sp1 ! j)) h1"
  shows "\<exists>h'. port_space_destroy i h = Ret h' \<and> ipc_ok c h' \<and> ipc_spaces h' = (ipc_spaces h)(i := None) \<and> all_rights c h' \<subseteq># all_rights c h"
proof (rule port_space_destroy_ok [OF assms(1,2)])
  fix j h1 sp1
  assume "j < length (ps_table sp)" "0 < j" "destroy_entries i [1..<j] h = Ret h1" "ipc_spaces h1 i = Some sp1"
  then show "name_safe c sp1 j (pe_rights (ps_table sp1 ! j)) h1" using assms(3) by blast
qed blast

lemma destroy_entries_none:
  assumes "ipc_spaces h i = Some sp" "\<forall>n \<in> set ns. ps_table sp ! n = no_entry"
  shows "destroy_entries i ns h = Ret h"
  using assms(2) by (induct ns) (simp_all add: destroy_entry_def with_space_def assms(1) no_entry_def)

theorem port_space_destroy_correct_witness:
  "\<exists>h'. port_space_destroy 1 server_ipc = Ret h' \<and> ipc_ok boot_ctx h' \<and> ipc_spaces h' 1 = None"
proof -
  have one: "destroy_entry 1 1 server_ipc = Ret (orphan_ipc\<lparr>ipc_spaces := (ipc_spaces server_ipc)(1 \<mapsto> one_name 1 0\<lparr>ps_table := (replicate 16 no_entry)[1 := no_entry]\<rparr>)\<rparr>)"
    (is "_ = Ret ?h1")
    by (simp add: orphan_ipc_def server_ipc_def one_name_def op_eval destroy_entry_def)
  have "name_safe boot_ctx sp1 j (pe_rights (ps_table sp1 ! j)) h1"
    if j: "0 < j" "j < length (ps_table (one_name 1 MACH_PORT_RIGHT_RECEIVE))" and d: "destroy_entries 1 [1..<j] server_ipc = Ret h1"
      "ipc_spaces h1 1 = Some sp1" for j h1 sp1
  proof (cases "j = 1")
    case True
    then have "h1 = server_ipc" using d by simp
    then show ?thesis using d(2) one_name_safe [OF no_sets(1)] server_spaces(1) by simp
  next
    case False
    have "[1..<j] = 1 # [2..<j]" using j(1) False by (simp add: upt_conv_Cons numeral_2_eq_2)
    moreover have "destroy_entries 1 [2..<j] ?h1 = Ret ?h1"
      by (rule destroy_entries_none [of _ _ "one_name 1 0\<lparr>ps_table := (replicate 16 no_entry)[1 := no_entry]\<rparr>"]) (use j(2) in \<open>simp_all add: one_name_def\<close>)
    ultimately have "h1 = ?h1" using d(1) one by simp
    then show ?thesis using d(2) j(2) by (auto simp: name_safe_def one_name_def no_entry_def nth_list_update)
  qed
  then show ?thesis using port_space_destroy_correct [OF server_ok server_spaces(1)] by fastforce
qed

text \<open>C8. \<open>port_mod_refs\<close> checks that the name carries any of the rights it is asked to drop, not all of them: a task that
  holds a send right and asks to drop a send and a send-once right of a port without send-once rights stops the kernel at an assertion of
  \<open>port_deref\<close>.\<close>

theorem port_mod_refs_unheld_right_panics:
  assumes "ipc_spaces h i = Some sp" "space_lookup sp n MACH_PORT_RIGHT_SEND = Some (p, MACH_PORT_RIGHT_SEND)" "ipc_ports h p = Some q"
    "0 < p_send_count q" "0 < p_refs q" "p_send_once_count q = 0"
  shows "port_mod_refs i n (MACH_PORT_RIGHT_SEND OR MACH_PORT_RIGHT_SEND_ONCE) h = Panic ''port_deref: SEND_ONCE underflow''"
proof -
  have l: "n \<noteq> MACH_PORT_NULL" "n \<noteq> MACH_PORT_DEAD" "n < length (ps_table sp)" "pe_port (ps_table sp ! n) = Some p"
    "pe_rights (ps_table sp ! n) = MACH_PORT_RIGHT_SEND"
    using lookup_named [OF assms(2)] assms(2) by (auto simp: named_def space_lookup_def Let_def)
  then have "\<not> lacks_right sp n (MACH_PORT_RIGHT_SEND OR MACH_PORT_RIGHT_SEND_ONCE)" by (simp add: lacks_right_def right_defs)
  then show ?thesis using l assms
    by (simp add: port_mod_refs_def space_drop_one_right_def with_space_def port_deref_unfold deref_eval right_defs)
qed

theorem port_mod_refs_unheld_right_panics_witness:
  "port_mod_refs 2 1 (MACH_PORT_RIGHT_SEND OR MACH_PORT_RIGHT_SEND_ONCE) server_ipc = Panic ''port_deref: SEND_ONCE underflow''"
  by (rule port_mod_refs_unheld_right_panics [OF server_spaces(2), where p = 1 and q = "(new_port 1)\<lparr>p_refs := 2, p_has_receive := True, p_send_count := 1\<rparr>"])
    (simp_all add: space_lookup_def one_name_def port_name_def MACH_PORT_NULL_def MACH_PORT_DEAD_def server_ipc_def new_port_def)

text \<open>C15. By the same check a task that holds only a send right drops the receive right of another task: in a well-formed
  state the call succeeds and frees the port while the other task's name still refers to it, and the next use of that name reads the
  freed port.\<close>

theorem port_mod_refs_takes_foreign_receive:
  "\<exists>h' sp. ipc_ok boot_ctx server_ipc \<and> port_mod_refs 2 1 (MACH_PORT_RIGHT_SEND OR MACH_PORT_RIGHT_RECEIVE) server_ipc = Ret (MACH_MSG_OK, h') \<and>
     ipc_ports h' 1 = None \<and> ipc_spaces h' 1 = Some sp \<and> space_lookup sp 1 MACH_PORT_RIGHT_RECEIVE = Some (1, MACH_PORT_RIGHT_RECEIVE) \<and>
     port_deallocate 1 1 h' = Panic ''use of a freed port''"
  apply (intro exI [of _ "server_ipc\<lparr>ipc_ports := Map.empty, ipc_spaces := [1 \<mapsto> one_name 1 MACH_PORT_RIGHT_RECEIVE, 2 \<mapsto> (one_name 2 0)\<lparr>ps_table := (replicate 16 no_entry)[1 := no_entry], ps_inuse := 0, ps_hint := 1\<rparr>]\<rparr>"]
     exI [of _ "one_name 1 MACH_PORT_RIGHT_RECEIVE"] conjI server_ok)
  apply (simp_all add: server_ipc_def one_name_def op_eval sub64_def)
  done

end
