(* ===== verification/Bio.thy ===== *)
theory Bio
  imports Kern_Prelude
begin

text \<open>
  The block cache (src/fs/bio.c): 64 buffers of a page, write-through, shared by every thread. The operations are cut where they drop the
  cache lock, and \<open>bio_step\<close> interleaves the pieces of any number of threads with the commands of the disk. \<open>page_get\<close> is the lookup
  up to the fetch, \<open>page_fetched\<close> what follows it; \<open>read_loop\<close> is the loop of \<open>bio_read\<close> under the lock, \<open>bio_write_patch\<close> the second half of \<open>bio_write\<close>.
\<close>

section \<open>The cache\<close>

text \<open>A sector is a list of 512 bytes. Every offset and length in the file is a whole number of sectors.\<close>

type_synonym sector = "8 word list"

definition BIO_PAGE_BYTES :: nat where "BIO_PAGE_BYTES = 4096"
definition BIO_SECTOR_BYTES :: nat where "BIO_SECTOR_BYTES = 512"
definition BIO_SECTORS_PER_PAGE :: nat where "BIO_SECTORS_PER_PAGE = BIO_PAGE_BYTES div BIO_SECTOR_BYTES"
definition BIO_NBUFS :: nat where "BIO_NBUFS = 64"

record bio_buf =
  bb_page :: nat
  bb_stamp :: nat
  bb_data :: "sector list"
  bb_drive :: nat
  bb_valid :: bool
  bb_busy :: bool
  bb_stale :: bool

record bio_cache =
  bio_bufs :: "bio_buf list"
  bio_clock :: nat
  bio_ready :: bool
  bio_n_req :: nat
  bio_n_hit :: nat
  bio_n_miss :: nat
  bio_n_evict :: nat
  bio_n_write :: nat
  bio_n_patch :: nat
  bio_n_sync :: nat

text \<open>An identity no disk has: \<open>(uint64_t)-1\<close> and \<open>(unsigned)-1\<close>. The contents of the slab are whatever \<open>kmalloc\<close> gave.\<close>

definition NO_PAGE :: nat where "NO_PAGE = 2 ^ 64 - 1"
definition NO_DRIVE :: nat where "NO_DRIVE = 2 ^ 32 - 1"

definition empty_buf :: "sector list \<Rightarrow> bio_buf" where
  "empty_buf slab = \<lparr>bb_page = NO_PAGE, bb_stamp = 0, bb_data = slab, bb_drive = NO_DRIVE,
     bb_valid = False, bb_busy = False, bb_stale = False\<rparr>"

text \<open>\<open>arena\<close> is what \<open>kmalloc\<close> returned, cut into pages, or nothing.\<close>

definition bio_init :: "sector list list option \<Rightarrow> bio_cache" where
  "bio_init arena =
     \<lparr>bio_bufs = (case arena of None \<Rightarrow> [] | Some pages \<Rightarrow> map empty_buf pages), bio_clock = 0, bio_ready = (arena \<noteq> None),
      bio_n_req = 0, bio_n_hit = 0, bio_n_miss = 0, bio_n_evict = 0, bio_n_write = 0, bio_n_patch = 0, bio_n_sync = 0\<rparr>"

definition set_buf :: "nat \<Rightarrow> bio_buf \<Rightarrow> bio_cache \<Rightarrow> bio_cache" where
  "set_buf i bb b = b\<lparr>bio_bufs := (bio_bufs b)[i := bb]\<rparr>"

section \<open>Looking a page up\<close>

datatype lookup_result = Fetching_already | Resident nat | Absent

fun page_lookup :: "bio_buf list \<Rightarrow> nat \<Rightarrow> nat \<Rightarrow> nat \<Rightarrow> lookup_result" where
  "page_lookup [] i drive page = Absent"
| "page_lookup (bb # bbs) i drive page =
     (if bb_page bb \<noteq> page \<or> bb_drive bb \<noteq> drive then page_lookup bbs (Suc i) drive page
      else if bb_busy bb then Fetching_already
      else if bb_valid bb then Resident i
      else page_lookup bbs (Suc i) drive page)"

text \<open>A free buffer, else the least recently used one; none if every buffer is in flight.\<close>

fun pick_victim :: "bio_buf list \<Rightarrow> nat \<Rightarrow> (nat \<times> nat) option \<Rightarrow> nat option" where
  "pick_victim [] i best = map_option fst best"
| "pick_victim (bb # bbs) i best =
     (if bb_busy bb then pick_victim bbs (Suc i) best
      else if \<not> bb_valid bb then Some i
      else if (case best of None \<Rightarrow> True | Some (_, stamp) \<Rightarrow> bb_stamp bb < stamp)
      then pick_victim bbs (Suc i) (Some (i, bb_stamp bb))
      else pick_victim bbs (Suc i) best)"

definition claim_buf :: "nat \<Rightarrow> nat \<Rightarrow> nat \<Rightarrow> bio_cache \<Rightarrow> bio_cache" where
  "claim_buf i drive page b =
     (let bb = bio_bufs b ! i
      in set_buf i (bb\<lparr>bb_valid := False, bb_busy := True, bb_stale := False, bb_page := page, bb_drive := drive\<rparr>)
           (if bb_valid bb then b\<lparr>bio_n_evict := add64 (bio_n_evict b) 1\<rparr> else b))"

definition touch_buf :: "nat \<Rightarrow> bio_cache \<Rightarrow> bio_cache" where
  "touch_buf i b =
     (let t = add64 (bio_clock b) 1
      in (set_buf i ((bio_bufs b ! i)\<lparr>bb_stamp := t\<rparr>) b)\<lparr>bio_clock := t, bio_n_hit := add64 (bio_n_hit b) 1\<rparr>)"

text \<open>The first half of \<open>page_get\<close>, up to where it drops the lock or returns a buffer.\<close>

datatype page_result = Got nat | Wait_and_retry | Must_fetch nat

definition page_get :: "nat \<Rightarrow> nat \<Rightarrow> bio_cache \<Rightarrow> page_result \<times> bio_cache" where
  "page_get drive page b =
     (case page_lookup (bio_bufs b) 0 drive page of
        Fetching_already \<Rightarrow> (Wait_and_retry, b)
      | Resident i \<Rightarrow> (Got i, touch_buf i b)
      | Absent \<Rightarrow>
          (case pick_victim (bio_bufs b) 0 None of
             None \<Rightarrow> (Wait_and_retry, b)
           | Some i \<Rightarrow> (Must_fetch i, claim_buf i drive page b)))"

text \<open>The second half, once the device has answered: the sectors it read into the buffer, or an error.\<close>

datatype fetch_result = Fetch_error | Fetch_stale | Fetch_ok

definition page_fetched :: "nat \<Rightarrow> sector list option \<Rightarrow> bio_cache \<Rightarrow> fetch_result \<times> bio_cache" where
  "page_fetched i answer b =
     (let bb = (bio_bufs b ! i)\<lparr>bb_busy := False\<rparr>
      in case answer of
           None \<Rightarrow> (Fetch_error, set_buf i (bb\<lparr>bb_page := NO_PAGE\<rparr>) b)
         | Some data \<Rightarrow>
             if bb_stale bb then (Fetch_stale, set_buf i (bb\<lparr>bb_data := data, bb_stale := False, bb_page := NO_PAGE\<rparr>) b)
             else (let t = add64 (bio_clock b) 1
                   in (Fetch_ok, (set_buf i (bb\<lparr>bb_data := data, bb_stamp := t, bb_valid := True\<rparr>) b)
                         \<lparr>bio_clock := t, bio_n_miss := add64 (bio_n_miss b) 1\<rparr>)))"

section \<open>Reading\<close>

record read_req =
  rq_drive :: nat
  rq_lba :: nat
  rq_nsec :: nat
  rq_done :: nat
  rq_out :: "sector list"

definition req_page :: "read_req \<Rightarrow> nat" where
  "req_page rq = add64 (rq_lba rq) (rq_done rq) div BIO_SECTORS_PER_PAGE"

definition req_within :: "read_req \<Rightarrow> nat" where
  "req_within rq = add64 (rq_lba rq) (rq_done rq) mod BIO_SECTORS_PER_PAGE"

definition req_run :: "read_req \<Rightarrow> nat" where
  "req_run rq = min (BIO_SECTORS_PER_PAGE - req_within rq) (rq_nsec rq - rq_done rq)"

definition copy_out :: "bio_buf \<Rightarrow> read_req \<Rightarrow> read_req" where
  "copy_out bb rq = rq\<lparr>rq_out := rq_out rq @ take (req_run rq) (drop (req_within rq) (bb_data bb)),
     rq_done := rq_done rq + req_run rq\<rparr>"

lemma req_run_pos: "rq_done rq < rq_nsec rq \<Longrightarrow> 0 < req_run rq"
  by (simp add: req_run_def req_within_def BIO_SECTORS_PER_PAGE_def BIO_PAGE_BYTES_def BIO_SECTOR_BYTES_def)

text \<open>The loop of \<open>bio_read\<close> from where it has the lock to where it drops it: the page it wants is being fetched, it
  fetches a page itself, or it has everything.\<close>

datatype read_pause = Read_again read_req | Read_fetch nat read_req | Read_done "sector list"

function read_loop :: "bio_cache \<Rightarrow> read_req \<Rightarrow> read_pause \<times> bio_cache" where
  "read_loop b rq =
     (if rq_done rq < rq_nsec rq
      then (case page_get (rq_drive rq) (req_page rq) b of
              (Wait_and_retry, b1) \<Rightarrow> (Read_again rq, b1)
            | (Must_fetch i, b1) \<Rightarrow> (Read_fetch i rq, b1)
            | (Got i, b1) \<Rightarrow> read_loop b1 (copy_out (bio_bufs b1 ! i) rq))
      else (Read_done (rq_out rq), b))"
  by pat_completeness auto
termination
  by (relation "measure (\<lambda>(b, rq). rq_nsec rq - rq_done rq)") (auto simp: copy_out_def dest: req_run_pos intro!: diff_less_mono2)

declare read_loop.simps [simp del]

text \<open>What the reader does when the device has answered its fetch: an error ends the read, a stale page goes round again, and
  a good one is copied and the loop goes on, all under the lock.\<close>

datatype read_result = Read_failed | Read_paused read_pause

definition read_fetched :: "nat \<Rightarrow> sector list option \<Rightarrow> read_req \<Rightarrow> bio_cache \<Rightarrow> read_result \<times> bio_cache" where
  "read_fetched i answer rq b =
     (case page_fetched i answer b of
        (Fetch_error, b1) \<Rightarrow> (Read_failed, b1)
      | (Fetch_stale, b1) \<Rightarrow> (case read_loop b1 rq of (p, b2) \<Rightarrow> (Read_paused p, b2))
      | (Fetch_ok, b1) \<Rightarrow> (case read_loop b1 (copy_out (bio_bufs b1 ! i) rq) of (p, b2) \<Rightarrow> (Read_paused p, b2)))"

definition bio_read_start :: "read_req \<Rightarrow> bio_cache \<Rightarrow> read_pause \<times> bio_cache" where
  "bio_read_start rq b = read_loop (b\<lparr>bio_n_req := add64 (bio_n_req b) 1\<rparr>) rq"

section \<open>Writing\<close>

text \<open>The resident copy of one page: the first buffer that names it and is busy or valid.\<close>

fun patch_bufs :: "bio_buf list \<Rightarrow> nat \<Rightarrow> nat \<Rightarrow> nat \<Rightarrow> sector list \<Rightarrow> bio_buf list \<times> bool" where
  "patch_bufs [] drive page within secs = ([], False)"
| "patch_bufs (bb # bbs) drive page within secs =
     (if bb_page bb \<noteq> page \<or> bb_drive bb \<noteq> drive
      then (case patch_bufs bbs drive page within secs of (bbs', p) \<Rightarrow> (bb # bbs', p))
      else if bb_busy bb then (bb\<lparr>bb_stale := True\<rparr> # bbs, False)
      else if \<not> bb_valid bb
      then (case patch_bufs bbs drive page within secs of (bbs', p) \<Rightarrow> (bb # bbs', p))
      else (bb\<lparr>bb_data := take within (bb_data bb) @ secs @ drop (within + length secs) (bb_data bb)\<rparr> # bbs, True))"

definition patch_page :: "nat \<Rightarrow> nat \<Rightarrow> nat \<Rightarrow> sector list \<Rightarrow> bio_cache \<Rightarrow> bio_cache" where
  "patch_page drive page within secs b =
     (case patch_bufs (bio_bufs b) drive page within secs of (bbs, patched) \<Rightarrow>
        b\<lparr>bio_bufs := bbs, bio_n_patch := (if patched then add64 (bio_n_patch b) 1 else bio_n_patch b)\<rparr>)"

function patch_loop :: "nat \<Rightarrow> nat \<Rightarrow> sector list \<Rightarrow> bio_cache \<Rightarrow> bio_cache" where
  "patch_loop drive lba secs b =
     (if secs = [] then b
      else let page = lba div BIO_SECTORS_PER_PAGE; within = lba mod BIO_SECTORS_PER_PAGE;
               run = min (BIO_SECTORS_PER_PAGE - within) (length secs)
           in patch_loop drive (add64 lba run) (drop run secs) (patch_page drive page within (take run secs) b))"
  by pat_completeness auto
termination
  by (relation "measure (\<lambda>(drive, lba, secs, b). length secs)")
    (auto simp: BIO_SECTORS_PER_PAGE_def BIO_PAGE_BYTES_def BIO_SECTOR_BYTES_def)

declare patch_loop.simps [simp del]

text \<open>\<open>bio_write\<close> after the device has taken the sectors.\<close>

definition bio_write_patch :: "nat \<Rightarrow> nat \<Rightarrow> sector list \<Rightarrow> bio_cache \<Rightarrow> bio_cache" where
  "bio_write_patch drive lba secs b =
     (if \<not> bio_ready b then b else patch_loop drive lba secs (b\<lparr>bio_n_write := add64 (bio_n_write b) 1\<rparr>))"

definition bio_sync_count :: "bio_cache \<Rightarrow> bio_cache" where
  "bio_sync_count b = b\<lparr>bio_n_sync := add64 (bio_n_sync b) 1\<rparr>"

definition bio_invalidate_drive :: "nat \<Rightarrow> bio_cache \<Rightarrow> bio_cache" where
  "bio_invalidate_drive drive b =
     (if \<not> bio_ready b then b
      else b\<lparr>bio_bufs := map (\<lambda>bb. if bb_drive bb = drive then bb\<lparr>bb_valid := False\<rparr> else bb) (bio_bufs b)\<rparr>)"

section \<open>Threads and the device\<close>

text \<open>
  The lock is dropped while the device works, so other threads run between the halves of an operation. A thread is at one of the
  points where it does not hold the lock. The device does one command at a time (\<open>ata_cmd_claim\<close>), so a command is one step; one that fails may
  have written some of its sectors. A raw write is the path of \<open>dev/ata_drv.c\<close> that bypasses the cache and then
  has it forget the drive.
\<close>

datatype bio_pc =
    Idle
  | Read_direct read_req
  | Reading read_req
  | Fetching nat read_req
  | Fetched nat "sector list option" read_req
  | Read_returned read_req "sector list option"
  | Writing nat nat "sector list"
  | Written nat nat "sector list"
  | Write_returned nat nat "sector list" bool
  | Raw_writing nat nat "sector list"
  | Raw_written nat nat "sector list"

type_synonym disk = "nat \<Rightarrow> nat \<Rightarrow> sector"

record bio_sys =
  sy_bio :: bio_cache
  sy_disk :: disk
  sy_pc :: "nat \<Rightarrow> bio_pc"
  sy_torn :: "(nat \<times> nat) set"

definition disk_read :: "disk \<Rightarrow> nat \<Rightarrow> nat \<Rightarrow> nat \<Rightarrow> sector list" where
  "disk_read dk drive lba n = map (dk drive) [lba..<lba + n]"

definition disk_write :: "nat \<Rightarrow> nat \<Rightarrow> sector list \<Rightarrow> disk \<Rightarrow> disk" where
  "disk_write drive lba secs dk =
     dk(drive := (\<lambda>l. if lba \<le> l \<and> l < lba + length secs then secs ! (l - lba) else dk drive l))"

definition sector_range :: "nat \<Rightarrow> nat \<Rightarrow> 'a list \<Rightarrow> (nat \<times> nat) set" where
  "sector_range drive lba secs = {drive} \<times> {lba..<lba + length secs}"

text \<open>The sectors on which a write by this thread is under way, and those the device has taken but the cache does not know of yet.\<close>

fun writing_at :: "bio_pc \<Rightarrow> (nat \<times> nat) set" where
  "writing_at (Writing d lba secs) = sector_range d lba secs"
| "writing_at (Written d lba secs) = sector_range d lba secs"
| "writing_at (Raw_writing d lba secs) = {d} \<times> UNIV"
| "writing_at (Raw_written d lba secs) = {d} \<times> UNIV"
| "writing_at _ = {}"

fun unsettled_at :: "bio_pc \<Rightarrow> (nat \<times> nat) set" where
  "unsettled_at (Written d lba secs) = sector_range d lba secs"
| "unsettled_at (Raw_written d lba secs) = sector_range d lba secs"
| "unsettled_at _ = {}"

fun fetching_at :: "bio_pc \<Rightarrow> nat set" where
  "fetching_at (Fetching i rq) = {rq_drive rq}"
| "fetching_at (Fetched i a rq) = {rq_drive rq}"
| "fetching_at _ = {}"

fun paused :: "read_req \<Rightarrow> read_pause \<Rightarrow> bio_pc" where
  "paused rq (Read_again rq') = Reading rq'"
| "paused rq (Read_fetch i rq') = Fetching i rq'"
| "paused rq (Read_done out) = Read_returned rq (Some out)"

definition at_pc :: "nat \<Rightarrow> bio_pc \<Rightarrow> bio_sys \<Rightarrow> bio_sys" where
  "at_pc t p s = s\<lparr>sy_pc := (sy_pc s)(t := p)\<rparr>"

text \<open>
  With \<open>excl\<close> the callers keep the discipline they keep in the kernel: no two writes to one sector are under way at once
  (a volume is written under its lock, and raw writes are made to a drive no volume writes); and no raw write is made to a drive while a page
  of it is being fetched. Without it anything goes.
\<close>

definition may_write :: "bio_sys \<Rightarrow> nat \<Rightarrow> nat \<Rightarrow> sector list \<Rightarrow> bool" where
  "may_write s d lba secs \<longleftrightarrow> (\<forall>u. writing_at (sy_pc s u) \<inter> sector_range d lba secs = {})"

definition may_raw_write :: "bio_sys \<Rightarrow> nat \<Rightarrow> bool" where
  "may_raw_write s d \<longleftrightarrow> (\<forall>u. writing_at (sy_pc s u) \<inter> ({d} \<times> UNIV) = {})"

definition new_read :: "nat \<Rightarrow> nat \<Rightarrow> nat \<Rightarrow> read_req" where
  "new_read d lba n = \<lparr>rq_drive = d, rq_lba = lba, rq_nsec = n, rq_done = 0, rq_out = []\<rparr>"

inductive bio_step :: "bool \<Rightarrow> bio_sys \<Rightarrow> bio_sys \<Rightarrow> bool" for excl where
  read_direct: "\<lbrakk>sy_pc s t = Idle; \<not> bio_ready (sy_bio s); lba + n \<le> 2 ^ 64; n < 2 ^ 32\<rbrakk> \<Longrightarrow>
     bio_step excl s (at_pc t (Read_direct (new_read d lba n)) s)"
| read_direct_answer: "\<lbrakk>sy_pc s t = Read_direct rq; answer \<in> {None, Some (disk_read (sy_disk s) (rq_drive rq) (rq_lba rq) (rq_nsec rq))}\<rbrakk> \<Longrightarrow>
     bio_step excl s (at_pc t (Read_returned rq answer) s)"
| read_none: "\<lbrakk>sy_pc s t = Idle; bio_ready (sy_bio s); lba < 2 ^ 64\<rbrakk> \<Longrightarrow> bio_step excl s (at_pc t (Read_returned (new_read d lba 0) (Some [])) s)"
| read_start: "\<lbrakk>sy_pc s t = Idle; bio_ready (sy_bio s); 0 < n; lba + n \<le> 2 ^ 64; n < 2 ^ 32; rq = new_read d lba n;
     bio_read_start rq (sy_bio s) = (p, b)\<rbrakk> \<Longrightarrow> bio_step excl s (at_pc t (paused rq p) (s\<lparr>sy_bio := b\<rparr>))"
| read_again: "\<lbrakk>sy_pc s t = Reading rq; read_loop (sy_bio s) rq = (p, b)\<rbrakk> \<Longrightarrow>
     bio_step excl s (at_pc t (paused rq p) (s\<lparr>sy_bio := b\<rparr>))"
| device_read: "\<lbrakk>sy_pc s t = Fetching i rq;
     answer \<in> {None, Some (disk_read (sy_disk s) (rq_drive rq) (req_page rq * BIO_SECTORS_PER_PAGE) BIO_SECTORS_PER_PAGE)}\<rbrakk> \<Longrightarrow>
     bio_step excl s (at_pc t (Fetched i answer rq) s)"
| read_fetched: "\<lbrakk>sy_pc s t = Fetched i answer rq; read_fetched i answer rq (sy_bio s) = (r, b)\<rbrakk> \<Longrightarrow>
     bio_step excl s (at_pc t (case r of Read_failed \<Rightarrow> Read_returned rq None | Read_paused p \<Rightarrow> paused rq p) (s\<lparr>sy_bio := b\<rparr>))"
| write_start: "\<lbrakk>sy_pc s t = Idle; lba + length secs \<le> 2 ^ 64; length secs < 2 ^ 32; excl \<Longrightarrow> may_write s d lba secs\<rbrakk> \<Longrightarrow>
     bio_step excl s (at_pc t (if secs = [] then Write_returned d lba secs True else Writing d lba secs) s)"
| device_write: "sy_pc s t = Writing d lba secs \<Longrightarrow>
     bio_step excl s (at_pc t (Written d lba secs) (s\<lparr>sy_disk := disk_write d lba secs (sy_disk s)\<rparr>))"
| device_write_fails: "\<lbrakk>sy_pc s t = Writing d lba secs; k \<le> length secs\<rbrakk> \<Longrightarrow>
     bio_step excl s (at_pc t (Write_returned d lba secs False)
       (s\<lparr>sy_disk := disk_write d lba (take k secs) (sy_disk s), sy_torn := sy_torn s \<union> sector_range d lba (take k secs)\<rparr>))"
| write_patch: "sy_pc s t = Written d lba secs \<Longrightarrow>
     bio_step excl s (at_pc t (Write_returned d lba secs True) (s\<lparr>sy_bio := bio_write_patch d lba secs (sy_bio s)\<rparr>))"
| raw_start: "\<lbrakk>sy_pc s t = Idle; excl \<Longrightarrow> may_raw_write s d\<rbrakk> \<Longrightarrow> bio_step excl s (at_pc t (Raw_writing d lba secs) s)"
| raw_write: "\<lbrakk>sy_pc s t = Raw_writing d lba secs; excl \<Longrightarrow> (\<forall>u. d \<notin> fetching_at (sy_pc s u))\<rbrakk> \<Longrightarrow>
     bio_step excl s (at_pc t (Raw_written d lba secs) (s\<lparr>sy_disk := disk_write d lba secs (sy_disk s)\<rparr>))"
| raw_write_fails: "\<lbrakk>sy_pc s t = Raw_writing d lba secs; k \<le> length secs\<rbrakk> \<Longrightarrow>
     bio_step excl s (at_pc t Idle
       (s\<lparr>sy_disk := disk_write d lba (take k secs) (sy_disk s), sy_torn := sy_torn s \<union> sector_range d lba (take k secs)\<rparr>))"
| raw_invalidate: "sy_pc s t = Raw_written d lba secs \<Longrightarrow>
     bio_step excl s (at_pc t Idle (s\<lparr>sy_bio := bio_invalidate_drive d (sy_bio s)\<rparr>))"
| sync: "sy_pc s t = Idle \<Longrightarrow> bio_step excl s (s\<lparr>sy_bio := bio_sync_count (sy_bio s)\<rparr>)"
| return: "sy_pc s t \<in> {Read_returned rq answer, Write_returned d lba secs ok} \<Longrightarrow> bio_step excl s (at_pc t Idle s)"

definition bio_start :: "sector list list option \<Rightarrow> disk \<Rightarrow> bio_sys" where
  "bio_start arena dk = \<lparr>sy_bio = bio_init arena, sy_disk = dk, sy_pc = (\<lambda>_. Idle), sy_torn = {}\<rparr>"

inductive bio_reach :: "bool \<Rightarrow> bio_sys \<Rightarrow> bool" for excl where
  start: "\<lbrakk>\<And>pages. arena = Some pages \<Longrightarrow> length pages = BIO_NBUFS \<and> (\<forall>p \<in> set pages. length p = BIO_SECTORS_PER_PAGE)\<rbrakk> \<Longrightarrow>
     bio_reach excl (bio_start arena dk)"
| step: "\<lbrakk>bio_reach excl s; bio_step excl s s'\<rbrakk> \<Longrightarrow> bio_reach excl s'"

end
