(* ===== verification/Bio_Cache.thy ===== *)
theory Bio_Cache
  imports Bio
begin

text \<open>
  The invariant of the block cache. A live buffer is valid or being fetched; no page has two live buffers, a valid one holds what the disk
  holds except where a write is between the disk and the cache or has failed half way, and a fetch whose answer may be older than a write is marked
  stale. Each piece of each operation keeps it, whatever the other threads do.
\<close>

section \<open>What the cache may claim\<close>

text \<open>
  A buffer is live when it is valid or being filled. No two live buffers name the same page, and every sector of a valid buffer is the one on
  the disk, except for the sectors in \<open>X\<close>.
\<close>

definition live :: "bio_buf \<Rightarrow> bool" where
  "live bb \<longleftrightarrow> bb_valid bb \<or> bb_busy bb"

definition same_bio_page :: "bio_buf \<Rightarrow> bio_buf \<Rightarrow> bool" where
  "same_bio_page bb bb' \<longleftrightarrow> bb_page bb = bb_page bb' \<and> bb_drive bb = bb_drive bb'"

definition sectors_ok :: "(nat \<times> nat) set \<Rightarrow> disk \<Rightarrow> nat \<Rightarrow> nat \<Rightarrow> sector list \<Rightarrow> bool" where
  "sectors_ok X dk drive page data \<longleftrightarrow> length data = BIO_SECTORS_PER_PAGE \<and>
     (\<forall>k < BIO_SECTORS_PER_PAGE. (drive, page * BIO_SECTORS_PER_PAGE + k) \<notin> X \<longrightarrow> data ! k = dk drive (page * BIO_SECTORS_PER_PAGE + k))"

definition buf_ok :: "(nat \<times> nat) set \<Rightarrow> disk \<Rightarrow> bio_buf \<Rightarrow> bool" where
  "buf_ok X dk bb \<longleftrightarrow> length (bb_data bb) = BIO_SECTORS_PER_PAGE \<and> \<not> (bb_valid bb \<and> bb_busy bb) \<and>
     (bb_valid bb \<longrightarrow> sectors_ok X dk (bb_drive bb) (bb_page bb) (bb_data bb))"

definition bufs_ok :: "(nat \<times> nat) set \<Rightarrow> disk \<Rightarrow> bio_buf list \<Rightarrow> bool" where
  "bufs_ok X dk bbs \<longleftrightarrow> (\<forall>bb \<in> set bbs. buf_ok X dk bb) \<and>
     (\<forall>i < length bbs. \<forall>j < length bbs. live (bbs ! i) \<longrightarrow> live (bbs ! j) \<longrightarrow> same_bio_page (bbs ! i) (bbs ! j) \<longrightarrow> i = j)"

lemma bufs_okD:
  assumes "bufs_ok X dk bbs" "i < length bbs"
  shows "buf_ok X dk (bbs ! i)" "length (bb_data (bbs ! i)) = BIO_SECTORS_PER_PAGE" "bb_busy (bbs ! i) \<Longrightarrow> \<not> bb_valid (bbs ! i)"
    "bb_valid (bbs ! i) \<Longrightarrow> sectors_ok X dk (bb_drive (bbs ! i)) (bb_page (bbs ! i)) (bb_data (bbs ! i))"
  using assms by (auto simp: bufs_ok_def buf_ok_def)

lemma bufs_ok_unique:
  "\<lbrakk>bufs_ok X dk bbs; i < length bbs; j < length bbs; live (bbs ! i); live (bbs ! j); same_bio_page (bbs ! i) (bbs ! j)\<rbrakk> \<Longrightarrow> i = j"
  by (auto simp: bufs_ok_def)

lemma bufs_ok_update:
  assumes ok: "bufs_ok X dk bbs" and i: "i < length bbs" and new: "buf_ok X dk bb"
    and alone: "\<And>j. \<lbrakk>j < length bbs; j \<noteq> i; live (bbs ! j); live bb\<rbrakk> \<Longrightarrow> \<not> same_bio_page bb (bbs ! j)"
  shows "bufs_ok X dk (bbs[i := bb])"
proof -
  have "buf_ok X dk b" if "b \<in> set (bbs[i := bb])" for b
    using that new ok set_update_subset_insert [of bbs i bb] by (auto simp: bufs_ok_def)
  moreover have "j = k" if "j < length bbs" "k < length bbs" "live (bbs[i := bb] ! j)" "live (bbs[i := bb] ! k)"
    "same_bio_page (bbs[i := bb] ! j) (bbs[i := bb] ! k)" for j k
    using that alone [of j] alone [of k] bufs_ok_unique [OF ok, of j k]
    by (cases "j = i"; cases "k = i") (auto simp: same_bio_page_def)
  ultimately show ?thesis by (simp add: bufs_ok_def)
qed

lemma bufs_ok_same:
  assumes "bufs_ok X dk bbs" "i < length bbs" "bb_page bb = bb_page (bbs ! i)" "bb_drive bb = bb_drive (bbs ! i)"
    "live bb \<Longrightarrow> live (bbs ! i)" "buf_ok X dk bb"
  shows "bufs_ok X dk (bbs[i := bb])"
proof (rule bufs_ok_update [OF assms(1,2,6)])
  fix j
  assume "j < length bbs" "j \<noteq> i" "live (bbs ! j)" "live bb"
  then show "\<not> same_bio_page bb (bbs ! j)"
    using bufs_ok_unique [OF assms(1), of i j] assms(2-5) by (auto simp: same_bio_page_def)
qed

section \<open>Looking up\<close>

lemma page_lookup_cases:
  "page_lookup bbs n drive page = r \<Longrightarrow>
     (case r of
        Resident i \<Rightarrow> n \<le> i \<and> i - n < length bbs \<and> bb_page (bbs ! (i - n)) = page \<and> bb_drive (bbs ! (i - n)) = drive \<and>
          bb_valid (bbs ! (i - n)) \<and> \<not> bb_busy (bbs ! (i - n))
      | Absent \<Rightarrow> \<forall>bb \<in> set bbs. bb_page bb = page \<and> bb_drive bb = drive \<longrightarrow> \<not> live bb
      | Fetching_already \<Rightarrow> \<exists>bb \<in> set bbs. bb_page bb = page \<and> bb_drive bb = drive \<and> bb_busy bb)"
proof (induct bbs n drive page rule: page_lookup.induct)
  case (2 bb bbs n drive page)
  show ?case
  proof (cases "bb_page bb = page \<and> bb_drive bb = drive \<and> live bb")
    case True
    then show ?thesis using 2(3) by (auto simp: live_def split: if_splits)
  next
    case False
    then have r: "page_lookup bbs (Suc n) drive page = r" using 2(3) by (auto simp: live_def split: if_splits)
    have "case r of
        Resident i \<Rightarrow> Suc n \<le> i \<and> i - Suc n < length bbs \<and> bb_page (bbs ! (i - Suc n)) = page \<and> bb_drive (bbs ! (i - Suc n)) = drive \<and>
          bb_valid (bbs ! (i - Suc n)) \<and> \<not> bb_busy (bbs ! (i - Suc n))
      | Absent \<Rightarrow> \<forall>bb \<in> set bbs. bb_page bb = page \<and> bb_drive bb = drive \<longrightarrow> \<not> live bb
      | Fetching_already \<Rightarrow> \<exists>bb \<in> set bbs. bb_page bb = page \<and> bb_drive bb = drive \<and> bb_busy bb"
      using 2(1) [OF _ r] 2(2) [OF _ _ _ r] False by (auto simp: live_def)
    then show ?thesis using False
      by (auto split: lookup_result.splits simp: nth_Cons')
  qed
qed auto

lemma pick_victim_Some:
  "pick_victim bbs n best = Some i \<Longrightarrow>
     (\<exists>s. best = Some (i, s)) \<or> (n \<le> i \<and> i - n < length bbs \<and> \<not> bb_busy (bbs ! (i - n)))"
proof (induct bbs n best rule: pick_victim.induct)
  case (2 bb bbs n best)
  then show ?case by (auto split: if_splits option.splits simp: nth_Cons')
qed auto

lemma bio_simps [simp]:
  "bio_bufs (set_buf i bb b) = (bio_bufs b)[i := bb]" "bio_ready (set_buf i bb b) = bio_ready b"
  by (simp_all add: set_buf_def)

lemma touch_buf_bufs: "bio_bufs (touch_buf i b) = (bio_bufs b)[i := (bio_bufs b ! i)\<lparr>bb_stamp := add64 (bio_clock b) 1\<rparr>]"
  "bio_ready (touch_buf i b) = bio_ready b"
  by (simp_all add: touch_buf_def Let_def)

lemma claim_buf_bufs: "bio_bufs (claim_buf i drive page b) =
    (bio_bufs b)[i := (bio_bufs b ! i)\<lparr>bb_valid := False, bb_busy := True, bb_stale := False, bb_page := page, bb_drive := drive\<rparr>]"
  "bio_ready (claim_buf i drive page b) = bio_ready b"
  by (simp_all add: claim_buf_def Let_def)

text \<open>What a locked section does to the buffers, seen by another thread: a buffer that is being filled is left alone.\<close>

definition leaves_busy :: "bio_cache \<Rightarrow> bio_cache \<Rightarrow> bool" where
  "leaves_busy b b' \<longleftrightarrow> bio_ready b' = bio_ready b \<and> length (bio_bufs b') = length (bio_bufs b) \<and>
     (\<forall>j < length (bio_bufs b). bb_busy (bio_bufs b ! j) \<longrightarrow> bio_bufs b' ! j = bio_bufs b ! j)"

lemma leaves_busy_refl [simp]: "leaves_busy b b"
  by (simp add: leaves_busy_def)

lemma leaves_busy_trans: "leaves_busy b b1 \<Longrightarrow> leaves_busy b1 b2 \<Longrightarrow> leaves_busy b b2"
  by (auto simp: leaves_busy_def)

lemma page_get_ok:
  assumes ok: "bufs_ok X dk (bio_bufs b)" and g: "page_get drive page b = (r, b')"
  shows "bufs_ok X dk (bio_bufs b')" "leaves_busy b b'"
    "r = Got i \<Longrightarrow> i < length (bio_bufs b) \<and> bb_valid (bio_bufs b' ! i) \<and> bb_page (bio_bufs b' ! i) = page \<and> bb_drive (bio_bufs b' ! i) = drive"
    "r = Must_fetch i \<Longrightarrow> i < length (bio_bufs b) \<and> \<not> bb_busy (bio_bufs b ! i) \<and> bb_busy (bio_bufs b' ! i) \<and>
       \<not> bb_stale (bio_bufs b' ! i) \<and> bb_page (bio_bufs b' ! i) = page \<and> bb_drive (bio_bufs b' ! i) = drive"
proof -
  have "bufs_ok X dk (bio_bufs b') \<and> leaves_busy b b' \<and>
    (r = Got i \<longrightarrow> i < length (bio_bufs b) \<and> bb_valid (bio_bufs b' ! i) \<and> bb_page (bio_bufs b' ! i) = page \<and> bb_drive (bio_bufs b' ! i) = drive) \<and>
    (r = Must_fetch i \<longrightarrow> i < length (bio_bufs b) \<and> \<not> bb_busy (bio_bufs b ! i) \<and> bb_busy (bio_bufs b' ! i) \<and>
       \<not> bb_stale (bio_bufs b' ! i) \<and> bb_page (bio_bufs b' ! i) = page \<and> bb_drive (bio_bufs b' ! i) = drive)" for i
  proof (cases "page_lookup (bio_bufs b) 0 drive page")
    case Fetching_already
    then show ?thesis using ok g by (auto simp: page_get_def)
  next
    case (Resident k)
    have k: "k < length (bio_bufs b)" "bb_page (bio_bufs b ! k) = page" "bb_drive (bio_bufs b ! k) = drive"
      "bb_valid (bio_bufs b ! k)" "\<not> bb_busy (bio_bufs b ! k)"
      using page_lookup_cases [OF Resident] by auto
    have e: "r = Got k" "b' = touch_buf k b" using g Resident by (auto simp: page_get_def)
    have "bufs_ok X dk (bio_bufs b')" unfolding e touch_buf_bufs
      using k bufs_okD(1) [OF ok k(1)] by (intro bufs_ok_same [OF ok k(1)]) (auto simp: live_def buf_ok_def)
    then show ?thesis using e k by (auto simp: touch_buf_bufs leaves_busy_def nth_list_update)
  next
    case Absent
    have none: "bb_page bb = page \<and> bb_drive bb = drive \<longrightarrow> \<not> live bb" if "bb \<in> set (bio_bufs b)" for bb
      using page_lookup_cases [OF Absent] that by auto
    show ?thesis
    proof (cases "pick_victim (bio_bufs b) 0 None")
      case None
      then show ?thesis using ok g Absent by (auto simp: page_get_def)
    next
      case (Some k)
      have k: "k < length (bio_bufs b)" "\<not> bb_busy (bio_bufs b ! k)" using pick_victim_Some [OF Some] by auto
      have e: "r = Must_fetch k" "b' = claim_buf k drive page b" using g Absent Some by (auto simp: page_get_def)
      have "bufs_ok X dk (bio_bufs b')" unfolding e claim_buf_bufs
        using none bufs_okD(1) [OF ok k(1)] by (intro bufs_ok_update [OF ok k(1)]) (auto simp: same_bio_page_def buf_ok_def in_set_conv_nth)
      then show ?thesis using e k by (auto simp: claim_buf_bufs leaves_busy_def nth_list_update)
    qed
  qed
  then show "bufs_ok X dk (bio_bufs b')" "leaves_busy b b'"
    "r = Got i \<Longrightarrow> i < length (bio_bufs b) \<and> bb_valid (bio_bufs b' ! i) \<and> bb_page (bio_bufs b' ! i) = page \<and> bb_drive (bio_bufs b' ! i) = drive"
    "r = Must_fetch i \<Longrightarrow> i < length (bio_bufs b) \<and> \<not> bb_busy (bio_bufs b ! i) \<and> bb_busy (bio_bufs b' ! i) \<and>
       \<not> bb_stale (bio_bufs b' ! i) \<and> bb_page (bio_bufs b' ! i) = page \<and> bb_drive (bio_bufs b' ! i) = drive"
    by auto
qed

section \<open>Reading\<close>

text \<open>A request that fits the device, and whose output so far is what the disk holds, except for the sectors in \<open>X\<close>.\<close>

definition rq_ok :: "(nat \<times> nat) set \<Rightarrow> disk \<Rightarrow> read_req \<Rightarrow> bool" where
  "rq_ok X dk rq \<longleftrightarrow> rq_lba rq + rq_nsec rq \<le> 2 ^ 64 \<and> rq_done rq \<le> rq_nsec rq \<and> length (rq_out rq) = rq_done rq \<and>
     (\<forall>k < rq_done rq. (rq_drive rq, rq_lba rq + k) \<notin> X \<longrightarrow> rq_out rq ! k = dk (rq_drive rq) (rq_lba rq + k))"

definition same_req :: "read_req \<Rightarrow> read_req \<Rightarrow> bool" where
  "same_req rq rq' \<longleftrightarrow> rq_drive rq' = rq_drive rq \<and> rq_lba rq' = rq_lba rq \<and> rq_nsec rq' = rq_nsec rq"

lemma same_req_refl [simp]: "same_req rq rq"
  by (simp add: same_req_def)

lemma same_req_copy_out [simp]: "same_req (copy_out bb rq) rq' = same_req rq rq'" "same_req rq (copy_out bb rq)"
  by (simp_all add: same_req_def copy_out_def)

lemma per_page [simp]: "BIO_SECTORS_PER_PAGE = 8"
  by (simp add: BIO_SECTORS_PER_PAGE_def BIO_PAGE_BYTES_def BIO_SECTOR_BYTES_def)

lemma req_position:
  assumes "rq_ok X dk rq" "rq_done rq < rq_nsec rq"
  shows "req_page rq * 8 + req_within rq = rq_lba rq + rq_done rq" "req_within rq < 8" "req_page rq < 2 ^ 61" "req_page rq \<noteq> NO_PAGE"
proof -
  have a: "add64 (rq_lba rq) (rq_done rq) = rq_lba rq + rq_done rq" using assms by (simp add: rq_ok_def add64_small)
  show "req_page rq * 8 + req_within rq = rq_lba rq + rq_done rq" "req_within rq < 8"
    unfolding req_page_def req_within_def a by simp_all
  show p: "req_page rq < 2 ^ 61"
    unfolding req_page_def a per_page using assms by (simp add: rq_ok_def div_less_iff_less_mult)
  show "req_page rq \<noteq> NO_PAGE" using p by (simp add: NO_PAGE_def)
qed

lemma copy_out_ok:
  assumes rq: "rq_ok X dk rq" "rq_done rq < rq_nsec rq" and data: "sectors_ok X dk (rq_drive rq) (req_page rq) (bb_data bb)"
  shows "rq_ok X dk (copy_out bb rq)"
proof -
  note pos = req_position [OF rq]
  have run: "req_run rq \<le> 8 - req_within rq" "rq_done rq + req_run rq \<le> rq_nsec rq" using rq(2) by (auto simp: req_run_def)
  have len: "length (bb_data bb) = 8" using data by (simp add: sectors_ok_def)
  have "(rq_out rq @ take (req_run rq) (drop (req_within rq) (bb_data bb))) ! k = dk (rq_drive rq) (rq_lba rq + k)"
    if k: "k < rq_done rq + req_run rq" "(rq_drive rq, rq_lba rq + k) \<notin> X" for k
  proof (cases "k < rq_done rq")
    case True
    then show ?thesis using rq(1) k by (simp add: rq_ok_def nth_append)
  next
    case False
    define j where "j = req_within rq + (k - rq_done rq)"
    have j: "j < 8" "rq_lba rq + k = req_page rq * 8 + j" using False k(1) run pos(1,2) by (auto simp: j_def)
    have "bb_data bb ! j = dk (rq_drive rq) (req_page rq * 8 + j)"
      using data j k(2) by (simp add: sectors_ok_def)
    then show ?thesis using False k(1) run rq(1) len j(2) by (simp add: rq_ok_def nth_append j_def)
  qed
  then show ?thesis using rq run len by (simp add: rq_ok_def copy_out_def)
qed

text \<open>How a locked section of a read can end.\<close>

fun pause_ok :: "(nat \<times> nat) set \<Rightarrow> disk \<Rightarrow> bio_cache \<Rightarrow> bio_cache \<Rightarrow> read_req \<Rightarrow> read_pause \<Rightarrow> bool" where
  "pause_ok X dk b b' rq (Read_again rq') \<longleftrightarrow> same_req rq rq' \<and> rq_ok X dk rq'"
| "pause_ok X dk b b' rq (Read_fetch i rq') \<longleftrightarrow> same_req rq rq' \<and> rq_ok X dk rq' \<and> rq_done rq' < rq_nsec rq' \<and>
     i < length (bio_bufs b) \<and> \<not> bb_busy (bio_bufs b ! i) \<and> bb_busy (bio_bufs b' ! i) \<and> \<not> bb_stale (bio_bufs b' ! i) \<and>
     bb_page (bio_bufs b' ! i) = req_page rq' \<and> bb_drive (bio_bufs b' ! i) = rq_drive rq'"
| "pause_ok X dk b b' rq (Read_done out) \<longleftrightarrow> rq_ok X dk (rq\<lparr>rq_done := rq_nsec rq, rq_out := out\<rparr>)"

lemma pause_ok_mono:
  assumes "pause_ok X dk b1 b' rq1 p" "leaves_busy b b1" "same_req rq rq1"
  shows "pause_ok X dk b b' rq p"
  using assms by (cases p) (auto simp: leaves_busy_def same_req_def rq_ok_def)

lemma read_loop_ok:
  "\<lbrakk>bufs_ok X dk (bio_bufs b); X \<subseteq> Y; rq_ok Y dk rq; read_loop b rq = (p, b')\<rbrakk> \<Longrightarrow>
     bufs_ok X dk (bio_bufs b') \<and> leaves_busy b b' \<and> pause_ok Y dk b b' rq p"
proof (induct b rq arbitrary: p b' rule: read_loop.induct)
  case (1 b rq)
  note ok = 1(2) and sub = 1(3) and rq = 1(4) and run = 1(5) [unfolded read_loop.simps [of b rq]]
  show ?case
  proof (cases "rq_done rq < rq_nsec rq")
    case False
    then show ?thesis using ok rq run by (auto simp: rq_ok_def)
  next
    case True
    obtain r b1 where g: "page_get (rq_drive rq) (req_page rq) b = (r, b1)" by fastforce
    note pg = page_get_ok [OF ok g]
    show ?thesis
    proof (cases r)
      case Wait_and_retry
      then show ?thesis using run True g pg rq by auto
    next
      case (Must_fetch i)
      then show ?thesis using run True g pg(1,2) pg(4) [OF Must_fetch] rq by auto
    next
      case (Got i)
      have i: "i < length (bio_bufs b1)" using pg(2) pg(3) [OF Got] by (simp add: leaves_busy_def)
      have "sectors_ok Y dk (rq_drive rq) (req_page rq) (bb_data (bio_bufs b1 ! i))"
        using bufs_okD(4) [OF pg(1) i] pg(3) [OF Got] sub by (auto simp: sectors_ok_def)
      then have rq1: "rq_ok Y dk (copy_out (bio_bufs b1 ! i) rq)" by (rule copy_out_ok [OF rq True])
      have run1: "read_loop b1 (copy_out (bio_bufs b1 ! i) rq) = (p, b')" using run True g Got by simp
      have IH: "bufs_ok X dk (bio_bufs b') \<and> leaves_busy b1 b' \<and> pause_ok Y dk b1 b' (copy_out (bio_bufs b1 ! i) rq) p"
        using 1(1) [OF True g [symmetric] Got pg(1) sub rq1 run1] .
      then show ?thesis using pause_ok_mono [OF _ pg(2), of Y dk b' "copy_out (bio_bufs b1 ! i) rq" p rq] leaves_busy_trans [OF pg(2)] by auto
    qed
  qed
qed

text \<open>A fetch that comes back. The other buffers that are being filled are left alone.\<close>

lemma page_fetched_ok:
  assumes ok: "bufs_ok X dk (bio_bufs b)" and i: "i < length (bio_bufs b)" "bb_busy (bio_bufs b ! i)"
    and data: "\<forall>data. answer = Some data \<longrightarrow> length data = 8 \<and>
      (\<not> bb_stale (bio_bufs b ! i) \<longrightarrow> sectors_ok X dk (bb_drive (bio_bufs b ! i)) (bb_page (bio_bufs b ! i)) data)"
    and f: "page_fetched i answer b = (r, b')"
  shows "bufs_ok X dk (bio_bufs b')" "length (bio_bufs b') = length (bio_bufs b)" "bio_ready b' = bio_ready b" "\<not> bb_busy (bio_bufs b' ! i)"
    "\<And>j. j \<noteq> i \<Longrightarrow> bio_bufs b' ! j = bio_bufs b ! j"
    "r = Fetch_ok \<Longrightarrow> sectors_ok X dk (bb_drive (bio_bufs b ! i)) (bb_page (bio_bufs b ! i)) (bb_data (bio_bufs b' ! i))"
proof -
  define bb where "bb = bio_bufs b ! i"
  have bb: "buf_ok X dk bb" "\<not> bb_valid bb" "live bb" using bufs_okD(1,3) [OF ok i(1)] i(2) by (auto simp: bb_def live_def)
  obtain bb' where b': "bio_bufs b' = (bio_bufs b)[i := bb']" "bio_ready b' = bio_ready b" "\<not> bb_busy bb'" "buf_ok X dk bb'"
      "live bb' \<Longrightarrow> bb_page bb' = bb_page bb \<and> bb_drive bb' = bb_drive bb"
      "r = Fetch_ok \<Longrightarrow> sectors_ok X dk (bb_drive bb) (bb_page bb) (bb_data bb')"
  proof (cases answer)
    case None
    then show thesis using f bb by (intro that [of "bb\<lparr>bb_busy := False, bb_page := NO_PAGE\<rparr>"])
        (auto simp: page_fetched_def bb_def [symmetric] buf_ok_def live_def)
  next
    case (Some d)
    show thesis
    proof (cases "bb_stale bb")
      case True
      then show thesis using f bb Some data
        by (intro that [of "bb\<lparr>bb_busy := False, bb_data := d, bb_stale := False, bb_page := NO_PAGE\<rparr>"])
          (auto simp: page_fetched_def bb_def [symmetric] buf_ok_def live_def)
    next
      case False
      then have "sectors_ok X dk (bb_drive bb) (bb_page bb) d" using data Some by (simp add: bb_def)
      then show thesis using f bb Some False data
        by (intro that [of "bb\<lparr>bb_busy := False, bb_data := d, bb_stamp := add64 (bio_clock b) 1, bb_valid := True\<rparr>"])
          (auto simp: page_fetched_def bb_def [symmetric] buf_ok_def live_def Let_def)
    qed
  qed
  show "bufs_ok X dk (bio_bufs b')" unfolding b'(1)
  proof (rule bufs_ok_update [OF ok i(1) b'(4)])
    fix j
    assume "j < length (bio_bufs b)" "j \<noteq> i" "live (bio_bufs b ! j)" "live bb'"
    then show "\<not> same_bio_page bb' (bio_bufs b ! j)"
      using bufs_ok_unique [OF ok i(1), of j] b'(5) bb(3) by (auto simp: same_bio_page_def bb_def)
  qed
  show "length (bio_bufs b') = length (bio_bufs b)" "bio_ready b' = bio_ready b" "\<not> bb_busy (bio_bufs b' ! i)"
    "\<And>j. j \<noteq> i \<Longrightarrow> bio_bufs b' ! j = bio_bufs b ! j"
    "r = Fetch_ok \<Longrightarrow> sectors_ok X dk (bb_drive (bio_bufs b ! i)) (bb_page (bio_bufs b ! i)) (bb_data (bio_bufs b' ! i))"
    using b' i(1) by (auto simp: bb_def)
qed

section \<open>Writing\<close>

lemma patch_bufs_cases:
  "patch_bufs bbs drive page within secs = (bbs', ok) \<Longrightarrow>
     (\<exists>j < length bbs. bb_page (bbs ! j) = page \<and> bb_drive (bbs ! j) = drive \<and> live (bbs ! j) \<and>
        bbs' = bbs[j := if bb_busy (bbs ! j) then (bbs ! j)\<lparr>bb_stale := True\<rparr>
                        else (bbs ! j)\<lparr>bb_data := take within (bb_data (bbs ! j)) @ secs @ drop (within + length secs) (bb_data (bbs ! j))\<rparr>]) \<or>
     bbs' = bbs \<and> (\<forall>bb \<in> set bbs. bb_page bb = page \<and> bb_drive bb = drive \<longrightarrow> \<not> live bb)"
proof (induct bbs arbitrary: bbs' ok)
  case (Cons bb bbs)
  show ?case
  proof (cases "bb_page bb = page \<and> bb_drive bb = drive \<and> live bb")
    case True
    then show ?thesis using Cons.prems by (intro disjI1 exI [of _ 0]) (auto simp: live_def)
  next
    case False
    obtain bbs1 ok1 where r: "patch_bufs bbs drive page within secs = (bbs1, ok1)" by fastforce
    then have b: "bbs' = bb # bbs1" using Cons.prems False by (auto simp: live_def split: if_splits)
    show ?thesis using Cons.hyps [OF r]
    proof (elim disjE exE conjE)
      fix j
      assume "j < length bbs" "bb_page (bbs ! j) = page" "bb_drive (bbs ! j) = drive" "live (bbs ! j)"
        "bbs1 = bbs[j := if bb_busy (bbs ! j) then (bbs ! j)\<lparr>bb_stale := True\<rparr>
                        else (bbs ! j)\<lparr>bb_data := take within (bb_data (bbs ! j)) @ secs @ drop (within + length secs) (bb_data (bbs ! j))\<rparr>]"
      then show ?thesis using b by (intro disjI1 exI [of _ "Suc j"]) simp
    qed (use b False in auto)
  qed
qed simp

text \<open>A write marks the pages it touches that are being fetched, so that what the fetch brings is dropped.\<close>

definition stales :: "(nat \<times> nat) set \<Rightarrow> bio_buf list \<Rightarrow> bio_buf list \<Rightarrow> bool" where
  "stales C bbs bbs' \<longleftrightarrow> length bbs' = length bbs \<and>
     (\<forall>j < length bbs. bb_busy (bbs ! j) \<longrightarrow>
        (\<exists>st. bbs' ! j = (bbs ! j)\<lparr>bb_stale := st\<rparr> \<and> (bb_stale (bbs ! j) \<longrightarrow> st) \<and>
           (\<not> st \<longrightarrow> (\<forall>k < 8. (bb_drive (bbs ! j), bb_page (bbs ! j) * 8 + k) \<notin> C))))"

lemma stales_trans: "stales C bbs bbs1 \<Longrightarrow> stales D bbs1 bbs2 \<Longrightarrow> stales (C \<union> D) bbs bbs2"
  unfolding stales_def
proof (elim conjE, intro conjI allI impI)
  fix j
  assume 1: "\<forall>j < length bbs. bb_busy (bbs ! j) \<longrightarrow> (\<exists>st. bbs1 ! j = (bbs ! j)\<lparr>bb_stale := st\<rparr> \<and> (bb_stale (bbs ! j) \<longrightarrow> st) \<and>
      (\<not> st \<longrightarrow> (\<forall>k < 8. (bb_drive (bbs ! j), bb_page (bbs ! j) * 8 + k) \<notin> C)))"
    and 2: "\<forall>j < length bbs1. bb_busy (bbs1 ! j) \<longrightarrow> (\<exists>st. bbs2 ! j = (bbs1 ! j)\<lparr>bb_stale := st\<rparr> \<and> (bb_stale (bbs1 ! j) \<longrightarrow> st) \<and>
      (\<not> st \<longrightarrow> (\<forall>k < 8. (bb_drive (bbs1 ! j), bb_page (bbs1 ! j) * 8 + k) \<notin> D)))"
    and l: "length bbs1 = length bbs" and j: "j < length bbs" "bb_busy (bbs ! j)"
  obtain st where st: "bbs1 ! j = (bbs ! j)\<lparr>bb_stale := st\<rparr>" "bb_stale (bbs ! j) \<longrightarrow> st"
    "\<not> st \<longrightarrow> (\<forall>k < 8. (bb_drive (bbs ! j), bb_page (bbs ! j) * 8 + k) \<notin> C)" using 1 j by blast
  then have "j < length bbs1" "bb_busy (bbs1 ! j)" using l j by auto
  then obtain st' where "bbs2 ! j = (bbs1 ! j)\<lparr>bb_stale := st'\<rparr>" "bb_stale (bbs1 ! j) \<longrightarrow> st'"
    "\<not> st' \<longrightarrow> (\<forall>k < 8. (bb_drive (bbs1 ! j), bb_page (bbs1 ! j) * 8 + k) \<notin> D)" using 2 by blast
  then show "\<exists>st. bbs2 ! j = (bbs ! j)\<lparr>bb_stale := st\<rparr> \<and> (bb_stale (bbs ! j) \<longrightarrow> st) \<and>
      (\<not> st \<longrightarrow> (\<forall>k < 8. (bb_drive (bbs ! j), bb_page (bbs ! j) * 8 + k) \<notin> C \<union> D))"
    using st by (intro exI [of _ st']) auto
qed simp

lemma sectors_ok_mono: "sectors_ok X dk drive page data \<Longrightarrow> (\<And>k. k < 8 \<Longrightarrow> (drive, page * 8 + k) \<in> X \<Longrightarrow> (drive, page * 8 + k) \<in> Y) \<Longrightarrow> sectors_ok Y dk drive page data"
  by (auto simp: sectors_ok_def)

lemma page_of_sector: "page * 8 + k = page' * 8 + k' \<Longrightarrow> k < 8 \<Longrightarrow> k' < 8 \<Longrightarrow> page = (page' :: nat) \<and> k = k'"
  by presburger

lemma patch_bufs_ok:
  assumes ok: "bufs_ok X dk bbs" and w: "within + length secs \<le> 8" and dk: "\<And>k. k < length secs \<Longrightarrow> dk drive (page * 8 + within + k) = secs ! k"
    and p: "patch_bufs bbs drive page within secs = (bbs', patched)"
  defines "C \<equiv> sector_range drive (page * 8 + within) secs"
  shows "bufs_ok (X - C) dk bbs'" "stales C bbs bbs'"
proof -
  have inC: "(d, pg * 8 + k) \<in> C \<longleftrightarrow> d = drive \<and> pg = page \<and> within \<le> k \<and> k < within + length secs" if "k < 8" for d pg k
  proof -
    have "\<exists>m < length secs. pg * 8 + k = page * 8 + (within + m)" if "page * 8 + within \<le> pg * 8 + k" "pg * 8 + k < page * 8 + within + length secs"
      using that by (intro exI [of _ "pg * 8 + k - (page * 8 + within)"]) simp
    then show ?thesis using page_of_sector [of pg k page] that w by (auto simp: C_def sector_range_def)
  qed
  have others: "buf_ok (X - C) dk bb" if "bb \<in> set bbs" "bb_page bb = page \<and> bb_drive bb = drive \<longrightarrow> \<not> live bb" for bb
  proof -
    have "buf_ok X dk bb" using ok that(1) by (simp add: bufs_ok_def)
    moreover have "sectors_ok (X - C) dk (bb_drive bb) (bb_page bb) (bb_data bb)" if "sectors_ok X dk (bb_drive bb) (bb_page bb) (bb_data bb)" "bb_valid bb"
      using sectors_ok_mono [OF that(1)] inC that(2) \<open>bb_page bb = page \<and> bb_drive bb = drive \<longrightarrow> \<not> live bb\<close> by (simp add: live_def)
    ultimately show ?thesis by (auto simp: buf_ok_def)
  qed
  have "bufs_ok (X - C) dk bbs' \<and> stales C bbs bbs'" using patch_bufs_cases [OF p]
  proof (elim disjE exE conjE)
    assume none: "\<forall>bb \<in> set bbs. bb_page bb = page \<and> bb_drive bb = drive \<longrightarrow> \<not> live bb" and b: "bbs' = bbs"
    have "bufs_ok (X - C) dk bbs" using ok others none by (auto simp: bufs_ok_def)
    moreover have "stales C bbs bbs" unfolding stales_def
    proof (intro conjI allI impI)
      fix j
      assume "j < length bbs" "bb_busy (bbs ! j)"
      then have "\<not> (bb_page (bbs ! j) = page \<and> bb_drive (bbs ! j) = drive)" using none by (auto simp: live_def)
      then show "\<exists>st. bbs ! j = (bbs ! j)\<lparr>bb_stale := st\<rparr> \<and> (bb_stale (bbs ! j) \<longrightarrow> st) \<and>
           (\<not> st \<longrightarrow> (\<forall>k < 8. (bb_drive (bbs ! j), bb_page (bbs ! j) * 8 + k) \<notin> C))"
        using inC by (intro exI [of _ "bb_stale (bbs ! j)"]) auto
    qed simp
    ultimately show ?thesis using b by simp
  next
    fix j
    assume j: "j < length bbs" "bb_page (bbs ! j) = page" "bb_drive (bbs ! j) = drive" "live (bbs ! j)"
      and b: "bbs' = bbs[j := if bb_busy (bbs ! j) then (bbs ! j)\<lparr>bb_stale := True\<rparr>
                        else (bbs ! j)\<lparr>bb_data := take within (bb_data (bbs ! j)) @ secs @ drop (within + length secs) (bb_data (bbs ! j))\<rparr>]" (is "_ = _[j := ?bb]")
    have alone: "\<not> live (bbs ! k)" if "k < length bbs" "k \<noteq> j" "bb_page (bbs ! k) = page" "bb_drive (bbs ! k) = drive" for k
      using bufs_ok_unique [OF ok j(1) that(1) j(4)] that j(2,3) by (auto simp: same_bio_page_def)
    have len: "length (bb_data (bbs ! j)) = 8" using bufs_okD(2) [OF ok j(1)] by simp
    have lb: "length bbs' = length bbs" using b by simp
    have new: "buf_ok (X - C) dk ?bb"
    proof (cases "bb_busy (bbs ! j)")
      case True
      then show ?thesis using bufs_okD(1,3) [OF ok j(1)] by (simp add: buf_ok_def)
    next
      case False
      then have "sectors_ok X dk drive page (bb_data (bbs ! j))" using bufs_okD(4) [OF ok j(1)] j by (simp add: live_def)
      moreover have "secs ! (k - within) = dk drive (page * 8 + k)" if "within \<le> k" "k < within + length secs" for k
        using dk [of "k - within"] that by simp
      ultimately have "sectors_ok (X - C) dk drive page (bb_data ?bb)"
        using False w len inC by (auto simp: sectors_ok_def nth_append min_def)
      then show ?thesis using False j len w by (simp add: buf_ok_def)
    qed
    have "bufs_ok (X - C) dk bbs'"
    proof -
      have "buf_ok (X - C) dk bb" if mem: "bb \<in> set bbs'" for bb
      proof -
        obtain k where k: "k < length bbs" "bb = bbs' ! k" using mem lb unfolding in_set_conv_nth by metis
        show ?thesis
        proof (cases "k = j")
          case True
          then show ?thesis using k b new by simp
        next
          case False
          then show ?thesis using k b others [of "bbs ! k"] alone [of k] by auto
        qed
      qed
      moreover have "i = k" if "i < length bbs" "k < length bbs" "live (bbs' ! i)" "live (bbs' ! k)" "same_bio_page (bbs' ! i) (bbs' ! k)" for i k
      proof -
        have same: "live (bbs' ! m) = live (bbs ! m)" "bb_page (bbs' ! m) = bb_page (bbs ! m)" "bb_drive (bbs' ! m) = bb_drive (bbs ! m)" for m
          using b j(1) by (cases "m = j"; simp add: live_def)+
        show ?thesis using bufs_ok_unique [OF ok that(1,2)] that(3-5) same by (simp add: same_bio_page_def)
      qed
      ultimately show ?thesis using b by (simp add: bufs_ok_def)
    qed
    moreover have "stales C bbs bbs'" unfolding stales_def
    proof (intro conjI allI impI)
      fix k
      assume k: "k < length bbs" "bb_busy (bbs ! k)"
      show "\<exists>st. bbs' ! k = (bbs ! k)\<lparr>bb_stale := st\<rparr> \<and> (bb_stale (bbs ! k) \<longrightarrow> st) \<and>
           (\<not> st \<longrightarrow> (\<forall>m < 8. (bb_drive (bbs ! k), bb_page (bbs ! k) * 8 + m) \<notin> C))"
      proof (cases "k = j")
        case True
        then show ?thesis using b k by (intro exI [of _ True]) simp
      next
        case False
        then have "\<not> (bb_page (bbs ! k) = page \<and> bb_drive (bbs ! k) = drive)" using alone [of k] k by (auto simp: live_def)
        then show ?thesis using b False inC by (intro exI [of _ "bb_stale (bbs ! k)"]) auto
      qed
    qed (use b in simp)
    ultimately show ?thesis by simp
  qed
  then show "bufs_ok (X - C) dk bbs'" "stales C bbs bbs'" by auto
qed

lemma covers_split: "run \<le> length secs \<Longrightarrow> sector_range d lba secs = sector_range d lba (take run secs) \<union> sector_range d (lba + run) (drop run secs)"
  by (auto simp: sector_range_def)

lemma patch_loop_ok:
  assumes "bufs_ok X dk (bio_bufs b)" "lba + length secs \<le> 2 ^ 64" "\<And>k. k < length secs \<Longrightarrow> dk drive (lba + k) = secs ! k"
  shows "bufs_ok (X - sector_range drive lba secs) dk (bio_bufs (patch_loop drive lba secs b)) \<and>
    stales (sector_range drive lba secs) (bio_bufs b) (bio_bufs (patch_loop drive lba secs b)) \<and> bio_ready (patch_loop drive lba secs b) = bio_ready b"
  using assms
proof (induct drive lba secs b arbitrary: X rule: patch_loop.induct)
  case (1 drive lba secs b)
  show ?case
  proof (cases "secs = []")
    case True
    then show ?thesis using 1(2) by (auto simp: patch_loop.simps sector_range_def stales_def intro!: exI [of _ "bb_stale _"])
  next
    case False
    define page where "page = lba div BIO_SECTORS_PER_PAGE"
    define within where "within = lba mod BIO_SECTORS_PER_PAGE"
    define run where "run = min (BIO_SECTORS_PER_PAGE - within) (length secs)"
    define b1 where "b1 = patch_page drive page within (take run secs) b"
    have at: "page * 8 + within = lba" "within < 8" by (simp_all add: page_def within_def)
    have run: "run \<le> length secs" "within + run \<le> 8" using at(2) by (auto simp: run_def)
    obtain bbs1 ok1 where p: "patch_bufs (bio_bufs b) drive page within (take run secs) = (bbs1, ok1)" by fastforce
    have b1: "bio_bufs b1 = bbs1" "bio_ready b1 = bio_ready b" using p by (simp_all add: b1_def patch_page_def)
    have ok1: "bufs_ok (X - sector_range drive lba (take run secs)) dk bbs1" "stales (sector_range drive lba (take run secs)) (bio_bufs b) bbs1"
      using patch_bufs_ok [OF 1(2) _ _ p] run at 1(4) by auto
    have rec: "patch_loop drive lba secs b = patch_loop drive (add64 lba run) (drop run secs) b1"
      using False by (subst patch_loop.simps) (simp add: page_def within_def run_def b1_def Let_def)
    show ?thesis
    proof (cases "drop run secs = []")
      case True
      then have "patch_loop drive (add64 lba run) (drop run secs) b1 = b1" by (simp add: patch_loop.simps)
      moreover have "take run secs = secs" using True run by simp
      ultimately show ?thesis using ok1 b1 rec by simp
    next
      case more: False
      then have r: "run < length secs" by simp
      then have a: "add64 lba run = lba + run" using 1(3) by (simp add: add64_small)
      have dk': "dk drive (lba + run + k) = secs ! (run + k)" if "k < length secs - run" for k
        using 1(4) [of "run + k"] that by (simp add: add.assoc)
      have IH: "bufs_ok (X - sector_range drive lba (take run secs) - sector_range drive (lba + run) (drop run secs)) dk (bio_bufs (patch_loop drive (lba + run) (drop run secs) b1)) \<and>
        stales (sector_range drive (lba + run) (drop run secs)) (bio_bufs b1) (bio_bufs (patch_loop drive (lba + run) (drop run secs) b1)) \<and>
        bio_ready (patch_loop drive (lba + run) (drop run secs) b1) = bio_ready b1"
        using 1(1) [OF False page_def within_def run_def, of "X - sector_range drive lba (take run secs)", folded b1_def, unfolded a]
          ok1(1) b1 1(3) dk' r by simp
      then show ?thesis unfolding rec a covers_split [OF run(1)]
        using stales_trans [OF ok1(2)] b1 by (simp add: Diff_eq Int_assoc)
    qed
  qed
qed

lemma bio_write_patch_ok:
  assumes "bufs_ok X dk (bio_bufs b)" "lba + length secs \<le> 2 ^ 64" "\<And>k. k < length secs \<Longrightarrow> dk drive (lba + k) = secs ! k"
    "\<not> bio_ready b \<Longrightarrow> bio_bufs b = []"
  shows "bufs_ok (X - sector_range drive lba secs) dk (bio_bufs (bio_write_patch drive lba secs b))"
    "stales (sector_range drive lba secs) (bio_bufs b) (bio_bufs (bio_write_patch drive lba secs b))"
    "bio_ready (bio_write_patch drive lba secs b) = bio_ready b"
proof -
  have "bufs_ok (X - sector_range drive lba secs) dk (bio_bufs (bio_write_patch drive lba secs b)) \<and>
    stales (sector_range drive lba secs) (bio_bufs b) (bio_bufs (bio_write_patch drive lba secs b)) \<and>
    bio_ready (bio_write_patch drive lba secs b) = bio_ready b"
  proof (cases "bio_ready b")
    case True
    then show ?thesis using patch_loop_ok [of X dk "b\<lparr>bio_n_write := add64 (bio_n_write b) 1\<rparr>" lba secs drive] assms(1-3)
      by (simp add: bio_write_patch_def)
  next
    case False
    then show ?thesis using assms(4) by (simp add: bio_write_patch_def bufs_ok_def stales_def)
  qed
  then show "bufs_ok (X - sector_range drive lba secs) dk (bio_bufs (bio_write_patch drive lba secs b))"
    "stales (sector_range drive lba secs) (bio_bufs b) (bio_bufs (bio_write_patch drive lba secs b))"
    "bio_ready (bio_write_patch drive lba secs b) = bio_ready b" by auto
qed

definition forget :: "nat \<Rightarrow> bio_buf \<Rightarrow> bio_buf" where
  "forget drive bb = (if bb_drive bb = drive then bb\<lparr>bb_valid := False\<rparr> else bb)"

lemma forget_simps [simp]: "bb_page (forget d bb) = bb_page bb" "bb_drive (forget d bb) = bb_drive bb" "bb_busy (forget d bb) = bb_busy bb"
  "\<not> bb_valid bb \<Longrightarrow> forget d bb = bb"
  by (auto simp: forget_def)

lemma forget_live: "live (forget d bb) \<Longrightarrow> live bb"
  by (auto simp: forget_def live_def split: if_splits)

lemma invalidate_ok:
  assumes ok: "bufs_ok X dk (bio_bufs b)" and ready: "\<not> bio_ready b \<Longrightarrow> bio_bufs b = []"
  shows "bufs_ok (X - {drive} \<times> UNIV) dk (bio_bufs (bio_invalidate_drive drive b))" "leaves_busy b (bio_invalidate_drive drive b)"
proof -
  have m: "bio_bufs (bio_invalidate_drive drive b) = map (forget drive) (bio_bufs b)" "bio_ready (bio_invalidate_drive drive b) = bio_ready b"
    using ready by (auto simp: bio_invalidate_drive_def forget_def)
  have "buf_ok (X - {drive} \<times> UNIV) dk (forget drive bb)" if "buf_ok X dk bb" for bb
    using that by (auto simp: buf_ok_def sectors_ok_def forget_def)
  moreover have "i = j" if "i < length (bio_bufs b)" "j < length (bio_bufs b)" "live (forget drive (bio_bufs b ! i))"
    "live (forget drive (bio_bufs b ! j))" "same_bio_page (forget drive (bio_bufs b ! i)) (forget drive (bio_bufs b ! j))" for i j
    using bufs_ok_unique [OF ok that(1,2) forget_live [OF that(3)] forget_live [OF that(4)]] that(5) by (simp add: same_bio_page_def)
  ultimately show "bufs_ok (X - {drive} \<times> UNIV) dk (bio_bufs (bio_invalidate_drive drive b))"
    using ok unfolding m by (simp add: bufs_ok_def)
  show "leaves_busy b (bio_invalidate_drive drive b)"
    using bufs_okD(3) [OF ok] unfolding leaves_busy_def m by simp
qed

section \<open>The invariant of the system\<close>

fun patching_at :: "bio_pc \<Rightarrow> (nat \<times> nat) set" where
  "patching_at (Written d lba secs) = sector_range d lba secs"
| "patching_at _ = {}"

fun holds_buf :: "bio_pc \<Rightarrow> nat option" where
  "holds_buf (Fetching i rq) = Some i"
| "holds_buf (Fetched i a rq) = Some i"
| "holds_buf _ = None"

definition unsettled :: "bio_sys \<Rightarrow> (nat \<times> nat) set" where
  "unsettled s = (\<Union>t. unsettled_at (sy_pc s t)) \<union> sy_torn s"

definition unpatched :: "bio_sys \<Rightarrow> (nat \<times> nat) set" where
  "unpatched s = (\<Union>t. patching_at (sy_pc s t)) \<union> sy_torn s"

definition fetch_ok :: "bio_buf list \<Rightarrow> nat \<Rightarrow> read_req \<Rightarrow> bool" where
  "fetch_ok bbs i rq \<longleftrightarrow> i < length bbs \<and> bb_busy (bbs ! i) \<and> bb_page (bbs ! i) = req_page rq \<and> bb_drive (bbs ! i) = rq_drive rq \<and>
     rq_done rq < rq_nsec rq"

fun pc_ok :: "bio_buf list \<Rightarrow> disk \<Rightarrow> (nat \<times> nat) set \<Rightarrow> bio_pc \<Rightarrow> bool" where
  "pc_ok bbs dk X (Reading rq) \<longleftrightarrow> rq_ok UNIV dk rq"
| "pc_ok bbs dk X (Fetching i rq) \<longleftrightarrow> rq_ok UNIV dk rq \<and> fetch_ok bbs i rq"
| "pc_ok bbs dk X (Fetched i a rq) \<longleftrightarrow> rq_ok UNIV dk rq \<and> fetch_ok bbs i rq \<and>
     (\<forall>data. a = Some data \<longrightarrow> length data = 8 \<and> (\<not> bb_stale (bbs ! i) \<longrightarrow> sectors_ok X dk (rq_drive rq) (req_page rq) data))"
| "pc_ok bbs dk X (Writing d lba secs) \<longleftrightarrow> lba + length secs \<le> 2 ^ 64"
| "pc_ok bbs dk X (Written d lba secs) \<longleftrightarrow> lba + length secs \<le> 2 ^ 64 \<and> (\<forall>k < length secs. dk d (lba + k) = secs ! k)"
| "pc_ok bbs dk X _ \<longleftrightarrow> True"

definition bio_inv :: "bio_sys \<Rightarrow> bool" where
  "bio_inv s \<longleftrightarrow> bufs_ok (unsettled s) (sy_disk s) (bio_bufs (sy_bio s)) \<and> (\<not> bio_ready (sy_bio s) \<longrightarrow> bio_bufs (sy_bio s) = []) \<and>
     (\<forall>t. pc_ok (bio_bufs (sy_bio s)) (sy_disk s) (unpatched s) (sy_pc s t)) \<and>
     (\<forall>t u i. holds_buf (sy_pc s t) = Some i \<longrightarrow> holds_buf (sy_pc s u) = Some i \<longrightarrow> t = u) \<and>
     (\<forall>t u. t \<noteq> u \<longrightarrow> writing_at (sy_pc s t) \<inter> writing_at (sy_pc s u) = {})"

lemma bio_invD:
  assumes "bio_inv s"
  shows "bufs_ok (unsettled s) (sy_disk s) (bio_bufs (sy_bio s))" "\<not> bio_ready (sy_bio s) \<Longrightarrow> bio_bufs (sy_bio s) = []"
    "pc_ok (bio_bufs (sy_bio s)) (sy_disk s) (unpatched s) (sy_pc s t)"
    "holds_buf (sy_pc s t) = Some i \<Longrightarrow> holds_buf (sy_pc s u) = Some i \<Longrightarrow> t = u"
    "t \<noteq> u \<Longrightarrow> writing_at (sy_pc s t) \<inter> writing_at (sy_pc s u) = {}"
  using assms unfolding bio_inv_def by blast+

lemma rq_ok_UNIV: "rq_ok UNIV dk rq \<longleftrightarrow> rq_ok UNIV dk' rq"
  by (simp add: rq_ok_def)

lemma rq_ok_weaken: "rq_ok X dk rq \<Longrightarrow> rq_ok UNIV dk' rq"
  by (simp add: rq_ok_def)

lemma bufs_ok_mono: "bufs_ok X dk bbs \<Longrightarrow> X \<subseteq> Y \<Longrightarrow> bufs_ok Y dk bbs"
  unfolding bufs_ok_def buf_ok_def sectors_ok_def by blast

lemma bufs_ok_disk: "bufs_ok X dk bbs \<Longrightarrow> (\<And>d l. (d, l) \<notin> Y \<Longrightarrow> dk' d l = dk d l) \<Longrightarrow> X \<subseteq> Y \<Longrightarrow> bufs_ok Y dk' bbs"
  unfolding bufs_ok_def buf_ok_def sectors_ok_def by (simp add: subset_iff) blast

lemma disk_write_same: "(d, l) \<notin> sector_range drive lba secs \<Longrightarrow> disk_write drive lba secs dk d l = dk d l"
  by (auto simp: disk_write_def sector_range_def)

lemma disk_write_new: "k < length secs \<Longrightarrow> disk_write d lba secs dk d (lba + k) = secs ! k"
  by (simp add: disk_write_def)

text \<open>What a step has to leave in place for a thread that does not take part in it.\<close>

definition held_ok :: "bio_buf list \<Rightarrow> bio_buf list \<Rightarrow> disk \<Rightarrow> disk \<Rightarrow> (nat \<times> nat) set \<Rightarrow> (nat \<times> nat) set \<Rightarrow> nat \<Rightarrow> bool" where
  "held_ok bbs bbs' dk dk' X X' i \<longleftrightarrow>
     (\<exists>st. bbs' ! i = (bbs ! i)\<lparr>bb_stale := st\<rparr> \<and> (bb_stale (bbs ! i) \<longrightarrow> st) \<and>
        (\<not> st \<longrightarrow> (\<forall>k < 8. (bb_drive (bbs ! i), bb_page (bbs ! i) * 8 + k) \<notin> X' \<longrightarrow> (bb_drive (bbs ! i), bb_page (bbs ! i) * 8 + k) \<notin> X \<and>
           dk' (bb_drive (bbs ! i)) (bb_page (bbs ! i) * 8 + k) = dk (bb_drive (bbs ! i)) (bb_page (bbs ! i) * 8 + k))))"

lemma held_ok_same: "bbs' ! i = bbs ! i \<Longrightarrow> X \<subseteq> X' \<Longrightarrow> (\<And>d l. (d, l) \<notin> X' \<Longrightarrow> dk' d l = dk d l) \<Longrightarrow> held_ok bbs bbs' dk dk' X X' i"
  unfolding held_ok_def by (intro exI [of _ "bb_stale (bbs ! i)"]) auto

lemma pc_ok_other:
  assumes "pc_ok bbs dk X p" "length bbs' = length bbs" "\<And>i. holds_buf p = Some i \<Longrightarrow> held_ok bbs bbs' dk dk' X X' i"
    "\<And>d l. (d, l) \<in> patching_at p \<Longrightarrow> dk' d l = dk d l"
  shows "pc_ok bbs' dk' X' p"
proof (cases p)
  case (Fetching i rq)
  then show ?thesis using assms(1,2) assms(3) [of i] by (auto simp: held_ok_def fetch_ok_def rq_ok_def)
next
  case (Fetched i a rq)
  note h = assms(3) [of i, unfolded held_ok_def]
  show ?thesis using Fetched assms(1,2) h by (auto simp: fetch_ok_def rq_ok_def sectors_ok_def)
next
  case (Written d lba secs)
  then show ?thesis using assms(1) assms(4) [of d] by (auto simp: sector_range_def)
qed (use assms(1) in \<open>auto simp: rq_ok_def\<close>)

text \<open>The change of one thread.\<close>

lemma at_pc_simps [simp]:
  "sy_bio (at_pc t p s) = sy_bio s" "sy_disk (at_pc t p s) = sy_disk s" "sy_torn (at_pc t p s) = sy_torn s" "sy_pc (at_pc t p s) = (sy_pc s)(t := p)"
  by (simp_all add: at_pc_def)

lemma Union_upd: "(\<Union>u. f ((g(t := p)) u)) = f p \<union> (\<Union>u \<in> - {t}. f (g u))"
  by (auto split: if_splits)

lemma unsettled_at_pc: "unsettled (at_pc t p s) = unsettled_at p \<union> (\<Union>u \<in> - {t}. unsettled_at (sy_pc s u)) \<union> sy_torn s"
  unfolding unsettled_def by (simp add: Union_upd del: fun_upd_apply) 

lemma unpatched_at_pc: "unpatched (at_pc t p s) = patching_at p \<union> (\<Union>u \<in> - {t}. patching_at (sy_pc s u)) \<union> sy_torn s"
  unfolding unpatched_def by (simp add: Union_upd del: fun_upd_apply)

lemma unsettled_split: "unsettled s = unsettled_at (sy_pc s t) \<union> (\<Union>u \<in> - {t}. unsettled_at (sy_pc s u)) \<union> sy_torn s"
  using unsettled_at_pc [of t "sy_pc s t" s] by (simp add: at_pc_def)

lemma unpatched_split: "unpatched s = patching_at (sy_pc s t) \<union> (\<Union>u \<in> - {t}. patching_at (sy_pc s u)) \<union> sy_torn s"
  using unpatched_at_pc [of t "sy_pc s t" s] by (simp add: at_pc_def)

lemma bio_inv_step:
  assumes inv: "bio_inv s" and pc: "sy_pc s' = (sy_pc s)(t := p)"
    and bufs: "bufs_ok (unsettled s') (sy_disk s') (bio_bufs (sy_bio s'))" "\<not> bio_ready (sy_bio s') \<Longrightarrow> bio_bufs (sy_bio s') = []"
      "length (bio_bufs (sy_bio s')) = length (bio_bufs (sy_bio s))"
    and p: "pc_ok (bio_bufs (sy_bio s')) (sy_disk s') (unpatched s') p"
      "\<And>u i. u \<noteq> t \<Longrightarrow> holds_buf p = Some i \<Longrightarrow> holds_buf (sy_pc s u) \<noteq> Some i"
      "\<And>u. u \<noteq> t \<Longrightarrow> writing_at p \<inter> writing_at (sy_pc s u) = {}"
    and others: "\<And>u i. u \<noteq> t \<Longrightarrow> holds_buf (sy_pc s u) = Some i \<Longrightarrow>
        held_ok (bio_bufs (sy_bio s)) (bio_bufs (sy_bio s')) (sy_disk s) (sy_disk s') (unpatched s) (unpatched s') i"
      "\<And>u d l. u \<noteq> t \<Longrightarrow> (d, l) \<in> patching_at (sy_pc s u) \<Longrightarrow> sy_disk s' d l = sy_disk s d l"
  shows "bio_inv s'"
  unfolding bio_inv_def
proof (intro conjI allI impI)
  fix u
  show "pc_ok (bio_bufs (sy_bio s')) (sy_disk s') (unpatched s') (sy_pc s' u)"
  proof (cases "u = t")
    case True
    then show ?thesis using p(1) pc by simp
  next
    case False
    then show ?thesis using pc_ok_other [OF bio_invD(3) [OF inv, of u] bufs(3) others(1) [OF False] others(2) [OF False]] pc by simp
  qed
next
  fix u v i
  assume "holds_buf (sy_pc s' u) = Some i" "holds_buf (sy_pc s' v) = Some i"
  then show "u = v" using pc p(2) bio_invD(4) [OF inv, of u i v] by (auto split: if_splits)
next
  fix u v :: nat
  assume "u \<noteq> v"
  then show "writing_at (sy_pc s' u) \<inter> writing_at (sy_pc s' v) = {}"
    using pc p(3) [of u] p(3) [of v] bio_invD(5) [OF inv, of u v] by (auto split: if_splits)
qed (use bufs in auto)

section \<open>Every step keeps the invariant\<close>

text \<open>A step that changes neither the buffers nor the disk.\<close>

lemma inv_pc_only:
  assumes inv: "bio_inv s" and p: "pc_ok (bio_bufs (sy_bio s)) (sy_disk s) (unpatched s) p" "\<And>i. holds_buf p = Some i \<Longrightarrow> holds_buf (sy_pc s t) = Some i"
    "unsettled_at p = unsettled_at (sy_pc s t)" "patching_at p = patching_at (sy_pc s t)"
    "\<And>u. u \<noteq> t \<Longrightarrow> writing_at p \<inter> writing_at (sy_pc s u) = {}"
  shows "bio_inv (at_pc t p s)"
proof -
  have X: "unsettled (at_pc t p s) = unsettled s" "unpatched (at_pc t p s) = unpatched s"
    unfolding unsettled_at_pc unpatched_at_pc p(3,4) by (rule unsettled_split [symmetric], rule unpatched_split [symmetric])
  show ?thesis
  proof (rule bio_inv_step [OF inv, where t = t and p = p])
    fix u i
    assume "u \<noteq> t" "holds_buf p = Some i"
    then show "holds_buf (sy_pc s u) \<noteq> Some i" using p(2) bio_invD(4) [OF inv, of u i t] by auto
  qed (use p X bio_invD(1,2) [OF inv] in \<open>auto intro: held_ok_same\<close>)
qed

text \<open>A locked section of a read.\<close>

lemma read_section:
  assumes inv: "bio_inv s" and pc: "holds_buf (sy_pc s t) = None \<or> holds_buf (sy_pc s t) = Some i0" "unsettled_at (sy_pc s t) = {}" "patching_at (sy_pc s t) = {}"
    and b: "bufs_ok (unsettled s) (sy_disk s) (bio_bufs b)" "bio_ready b = bio_ready (sy_bio s)" "length (bio_bufs b) = length (bio_bufs (sy_bio s))"
    and others: "\<And>u j. u \<noteq> t \<Longrightarrow> holds_buf (sy_pc s u) = Some j \<Longrightarrow> bio_bufs b ! j = bio_bufs (sy_bio s) ! j"
    and p: "pc_ok (bio_bufs b) (sy_disk s) (unpatched s) p" "unsettled_at p = {}" "patching_at p = {}" "writing_at p = {}"
      "\<And>u i. u \<noteq> t \<Longrightarrow> holds_buf p = Some i \<Longrightarrow> holds_buf (sy_pc s u) \<noteq> Some i"
  shows "bio_inv (at_pc t p (s\<lparr>sy_bio := b\<rparr>))"
proof -
  have X: "unsettled (at_pc t p (s\<lparr>sy_bio := b\<rparr>)) = unsettled s" "unpatched (at_pc t p (s\<lparr>sy_bio := b\<rparr>)) = unpatched s"
    using pc p unfolding unsettled_at_pc unpatched_at_pc by (simp_all add: unsettled_split [of s t] unpatched_split [of s t])
  show ?thesis
  proof (rule bio_inv_step [OF inv, where t = t and p = p])
    show "bio_bufs (sy_bio (at_pc t p (s\<lparr>sy_bio := b\<rparr>))) = []" if "\<not> bio_ready (sy_bio (at_pc t p (s\<lparr>sy_bio := b\<rparr>)))"
      using that b bio_invD(2) [OF inv] by simp
  qed (use p X b others in \<open>auto intro: held_ok_same\<close>)
qed

lemma pause_pc:
  assumes "pause_ok X dk b b' rq q"
  shows "pc_ok (bio_bufs b') dk' Y (paused rq q) \<or> (\<exists>i rq'. q = Read_fetch i rq' \<and> length (bio_bufs b') \<noteq> length (bio_bufs b))"
    "unsettled_at (paused rq q) = {}" "patching_at (paused rq q) = {}" "writing_at (paused rq q) = {}"
  using assms by (cases q; auto simp: fetch_ok_def intro: rq_ok_weaken)+

lemma held_busy:
  assumes "bio_inv s" "holds_buf (sy_pc s u) = Some j"
  shows "j < length (bio_bufs (sy_bio s))" "bb_busy (bio_bufs (sy_bio s) ! j)"
  using bio_invD(3) [OF assms(1), of u] assms(2) by (cases "sy_pc s u"; auto simp: fetch_ok_def)+

lemma inv_read_loop:
  assumes inv: "bio_inv s" and pc: "holds_buf (sy_pc s t) = None" "unsettled_at (sy_pc s t) = {}" "patching_at (sy_pc s t) = {}"
    and rq: "rq_ok UNIV (sy_disk s) rq" and b0: "bio_bufs b0 = bio_bufs (sy_bio s)" "bio_ready b0 = bio_ready (sy_bio s)"
    and run: "read_loop b0 rq = (q, b)"
  shows "bio_inv (at_pc t (paused rq q) (s\<lparr>sy_bio := b\<rparr>))"
proof -
  have ok0: "bufs_ok (unsettled s) (sy_disk s) (bio_bufs b0)" using bio_invD(1) [OF inv] b0 by simp
  from read_loop_ok [OF ok0 subset_UNIV rq run] have l: "leaves_busy b0 b" and q: "pause_ok UNIV (sy_disk s) b0 b rq q"
    and ok: "bufs_ok (unsettled s) (sy_disk s) (bio_bufs b)" by auto
  have len: "length (bio_bufs b) = length (bio_bufs b0)" using l by (simp add: leaves_busy_def)
  show ?thesis
  proof (rule read_section [OF inv, where ?i0.0 = 0])
    show "pc_ok (bio_bufs b) (sy_disk s) (unpatched s) (paused rq q)" using pause_pc(1) [OF q] len by auto
    fix u j
    assume "u \<noteq> t" "holds_buf (sy_pc s u) = Some j"
    then show "bio_bufs b ! j = bio_bufs (sy_bio s) ! j" using held_busy [OF inv] l b0 by (auto simp: leaves_busy_def)
  next
    fix u i
    assume "u \<noteq> t" "holds_buf (paused rq q) = Some i"
    then show "holds_buf (sy_pc s u) \<noteq> Some i" using q held_busy [OF inv, of u i] b0 by (cases q) auto
  qed (use pc ok l b0 pause_pc(2-4) [OF q] in \<open>auto simp: leaves_busy_def\<close>)
qed

text \<open>A fetch that comes back.\<close>

lemma inv_read_fetched:
  assumes inv: "bio_inv s" and pc: "sy_pc s t = Fetched i answer rq" and run: "read_fetched i answer rq (sy_bio s) = (r, b)"
  shows "bio_inv (at_pc t (case r of Read_failed \<Rightarrow> Read_returned rq None | Read_paused q \<Rightarrow> paused rq q) (s\<lparr>sy_bio := b\<rparr>))"
proof -
  define b0 where "b0 = sy_bio s"
  have p: "rq_ok UNIV (sy_disk s) rq" "fetch_ok (bio_bufs b0) i rq" "\<And>data. answer = Some data \<Longrightarrow> length data = 8"
    "\<And>data. answer = Some data \<Longrightarrow> \<not> bb_stale (bio_bufs b0 ! i) \<Longrightarrow> sectors_ok (unpatched s) (sy_disk s) (rq_drive rq) (req_page rq) data"
    using bio_invD(3) [OF inv, of t] by (auto simp: pc b0_def)
  have i: "i < length (bio_bufs b0)" "bb_busy (bio_bufs b0 ! i)" "bb_page (bio_bufs b0 ! i) = req_page rq" "bb_drive (bio_bufs b0 ! i) = rq_drive rq"
    "rq_done rq < rq_nsec rq" using p(2) by (auto simp: fetch_ok_def)
  have sub: "unpatched s \<subseteq> unsettled s"
  proof -
    have "patching_at q \<subseteq> unsettled_at q" for q by (cases q) auto
    then show ?thesis by (auto simp: unpatched_def unsettled_def)
  qed
  obtain f b1 where f: "page_fetched i answer b0 = (f, b1)" by fastforce
  have data: "\<forall>data. answer = Some data \<longrightarrow> length data = 8 \<and> (\<not> bb_stale (bio_bufs b0 ! i) \<longrightarrow>
      sectors_ok (unsettled s) (sy_disk s) (bb_drive (bio_bufs b0 ! i)) (bb_page (bio_bufs b0 ! i)) data)"
    using p(3,4) sub i(3,4) by (auto simp: sectors_ok_def)
  note ok1 = page_fetched_ok [OF bio_invD(1) [OF inv, folded b0_def] i(1,2) data f]
  have mine: "j \<noteq> i" if "u \<noteq> t" "holds_buf (sy_pc s u) = Some j" for u j
    using bio_invD(4) [OF inv, of u j t] that by (auto simp: pc)
  have sect: "bio_inv (at_pc t (paused rq q) (s\<lparr>sy_bio := b2\<rparr>))" if run1: "read_loop b1 rq1 = (q, b2)" and rq1: "rq_ok UNIV (sy_disk s) rq1" "same_req rq rq1" for rq1 q b2
  proof -
    have l: "leaves_busy b1 b2" and q: "pause_ok UNIV (sy_disk s) b1 b2 rq1 q" and ok: "bufs_ok (unsettled s) (sy_disk s) (bio_bufs b2)"
      using read_loop_ok [OF ok1(1) subset_UNIV rq1(1) run1] by auto
    note q' = pause_ok_mono [OF q leaves_busy_refl rq1(2)]
    show ?thesis
    proof (rule read_section [OF inv, where ?i0.0 = i])
      show "pc_ok (bio_bufs b2) (sy_disk s) (unpatched s) (paused rq q)" using pause_pc(1) [OF q'] l by (auto simp: leaves_busy_def)
      fix u j
      assume u: "u \<noteq> t" "holds_buf (sy_pc s u) = Some j"
      have j: "bio_bufs b1 ! j = bio_bufs b0 ! j" using ok1(5) [OF mine [OF u]] .
      then show "bio_bufs b2 ! j = bio_bufs (sy_bio s) ! j" using held_busy [OF inv u(2)] l ok1(2) by (simp add: leaves_busy_def b0_def)
    next
      fix u j
      assume u: "u \<noteq> t" "holds_buf (paused rq q) = Some j"
      show "holds_buf (sy_pc s u) \<noteq> Some j"
      proof
        assume h: "holds_buf (sy_pc s u) = Some j"
        have "bb_busy (bio_bufs b1 ! j)" using ok1(5) [OF mine [OF u(1) h]] held_busy [OF inv h] by (simp add: b0_def)
        then show False using q u(2) by (cases q) auto
      qed
    qed (use ok l ok1(2,3) pause_pc(2-4) [OF q'] in \<open>auto simp: leaves_busy_def b0_def pc\<close>)
  qed
  show ?thesis
  proof (cases f)
    case Fetch_error
    then have r: "r = Read_failed" "b = b1" using run f by (auto simp: read_fetched_def b0_def)
    show ?thesis unfolding r
      by (rule read_section [OF inv, where ?i0.0 = i]) (use ok1 mine in \<open>auto simp: pc b0_def\<close>)
  next
    case Fetch_stale
    then obtain q where q: "r = Read_paused q" "read_loop b1 rq = (q, b)" using run f by (auto simp: read_fetched_def b0_def split: prod.splits)
    then show ?thesis using sect [OF q(2) p(1)] by simp
  next
    case Fetch_ok
    then obtain q where q: "r = Read_paused q" "read_loop b1 (copy_out (bio_bufs b1 ! i) rq) = (q, b)"
      using run f by (auto simp: read_fetched_def b0_def split: prod.splits)
    have "sectors_ok UNIV (sy_disk s) (rq_drive rq) (req_page rq) (bb_data (bio_bufs b1 ! i))"
      using ok1(6) [OF Fetch_ok] i(3,4) by (simp add: sectors_ok_def)
    from copy_out_ok [OF p(1) i(5) this] show ?thesis using sect [OF q(2)] q(1) by simp
  qed
qed

text \<open>A device write that lands: the sectors it sector_range are unsettled, or torn, until the cache knows.\<close>

lemma inv_disk_write:
  assumes inv: "bio_inv s" and C: "sector_range d lba secs \<subseteq> writing_at (sy_pc s t)" "sector_range d lba secs \<subseteq> unsettled_at p \<union> T" "sector_range d lba secs \<subseteq> patching_at p \<union> T \<or> (\<forall>u. d \<notin> fetching_at (sy_pc s u))"
    and was: "holds_buf (sy_pc s t) = None" "unsettled_at (sy_pc s t) = {}" "patching_at (sy_pc s t) = {}"
    and p: "pc_ok (bio_bufs (sy_bio s)) (disk_write d lba secs (sy_disk s)) (unpatched s') p" "holds_buf p = None" "writing_at p \<subseteq> writing_at (sy_pc s t)"
    and s': "s' = at_pc t p (s\<lparr>sy_disk := disk_write d lba secs (sy_disk s), sy_torn := sy_torn s \<union> T\<rparr>)"
  shows "bio_inv s'"
proof -
  let ?dk = "disk_write d lba secs (sy_disk s)"
  have X: "unsettled s \<subseteq> unsettled s'" "sector_range d lba secs \<subseteq> unsettled s'" "unpatched s \<subseteq> unpatched s'"
    "sector_range d lba secs \<subseteq> unpatched s' \<or> (\<forall>u. d \<notin> fetching_at (sy_pc s u))"
    using C(2,3) was unfolding s' unsettled_at_pc unpatched_at_pc by (auto simp: unsettled_split [of s t] unpatched_split [of s t])
  have s'': "sy_bio s' = sy_bio s" "sy_disk s' = ?dk" by (simp_all add: s')
  have apart: "writing_at (sy_pc s t) \<inter> writing_at (sy_pc s u) = {}" if "u \<noteq> t" for u using bio_invD(5) [OF inv, of t u] that by auto
  have sub: "patching_at q \<subseteq> writing_at q" for q by (cases q) auto
  show ?thesis
  proof (rule bio_inv_step [OF inv, where t = t and p = p])
    show "bufs_ok (unsettled s') (sy_disk s') (bio_bufs (sy_bio s'))"
      using bufs_ok_disk [OF bio_invD(1) [OF inv] _ X(1), of ?dk] X(2) disk_write_same [of _ _ d lba secs] by (auto simp: s')
    fix u i
    assume u: "u \<noteq> t" "holds_buf (sy_pc s u) = Some i"
    show "held_ok (bio_bufs (sy_bio s)) (bio_bufs (sy_bio s')) (sy_disk s) (sy_disk s') (unpatched s) (unpatched s') i"
    proof (cases "sector_range d lba secs \<subseteq> unpatched s'")
      case True
      have "?dk e l = sy_disk s e l" if "(e, l) \<notin> unpatched s'" for e l using disk_write_same [of e l d lba secs] True that by blast
      then show ?thesis using X(3) by (intro held_ok_same) (simp_all add: s'')
    next
      case False
      then have "d \<notin> fetching_at (sy_pc s u)" using X(4) by auto
      then have "bb_drive (bio_bufs (sy_bio s) ! i) \<noteq> d"
        using bio_invD(3) [OF inv, of u] u(2) by (cases "sy_pc s u") (auto simp: fetch_ok_def)
      then show ?thesis using X(3) unfolding held_ok_def
        by (intro exI [of _ "bb_stale (bio_bufs (sy_bio s) ! i)"]) (auto simp: s' disk_write_def)
    qed
  next
    fix u e l
    assume "u \<noteq> t" "(e, l) \<in> patching_at (sy_pc s u)"
    then have "(e, l) \<notin> sector_range d lba secs" using apart [of u] C(1) sub [of "sy_pc s u"] by blast
    then show "sy_disk s' e l = sy_disk s e l" by (simp add: s' disk_write_same)
  next
    fix u
    assume "u \<noteq> t"
    then show "writing_at p \<inter> writing_at (sy_pc s u) = {}" using apart [of u] p(3) by blast
  qed (use p bio_invD(2) [OF inv] in \<open>auto simp: s'\<close>)
qed

lemma inv_write_patch:
  assumes inv: "bio_inv s" and pc: "sy_pc s t = Written d lba secs"
  shows "bio_inv (at_pc t (Write_returned d lba secs True) (s\<lparr>sy_bio := bio_write_patch d lba secs (sy_bio s)\<rparr>))" (is "bio_inv ?s")
proof -
  have w: "lba + length secs \<le> 2 ^ 64" "\<And>k. k < length secs \<Longrightarrow> sy_disk s d (lba + k) = secs ! k" using bio_invD(3) [OF inv, of t] pc by auto
  note b = bio_write_patch_ok [OF bio_invD(1) [OF inv] w bio_invD(2) [OF inv]]
  have X: "unsettled s - sector_range d lba secs \<subseteq> unsettled ?s" "unpatched s - sector_range d lba secs \<subseteq> unpatched ?s"
    unfolding unsettled_at_pc unpatched_at_pc by (auto simp: unsettled_split [of s t] unpatched_split [of s t] pc)
  show ?thesis
  proof (rule bio_inv_step [OF inv, where t = t and p = "Write_returned d lba secs True"])
    show "bufs_ok (unsettled ?s) (sy_disk ?s) (bio_bufs (sy_bio ?s))" using bufs_ok_mono [OF b(1) X(1)] by simp
    show "bio_bufs (sy_bio ?s) = []" if "\<not> bio_ready (sy_bio ?s)"
      using that bio_invD(2) [OF inv] b(2,3) by (auto simp: stales_def)
    fix u i
    assume "u \<noteq> t" "holds_buf (sy_pc s u) = Some i"
    then obtain st where st: "bio_bufs (bio_write_patch d lba secs (sy_bio s)) ! i = (bio_bufs (sy_bio s) ! i)\<lparr>bb_stale := st\<rparr>"
      "bb_stale (bio_bufs (sy_bio s) ! i) \<longrightarrow> st"
      "\<not> st \<longrightarrow> (\<forall>k < 8. (bb_drive (bio_bufs (sy_bio s) ! i), bb_page (bio_bufs (sy_bio s) ! i) * 8 + k) \<notin> sector_range d lba secs)"
      using b(2) held_busy [OF inv, of u i] unfolding stales_def by blast
    then show "held_ok (bio_bufs (sy_bio s)) (bio_bufs (sy_bio ?s)) (sy_disk s) (sy_disk ?s) (unpatched s) (unpatched ?s) i"
      unfolding held_ok_def using X(2) by (intro exI [of _ st]) auto
  qed (use b(2) in \<open>auto simp: stales_def\<close>)
qed

lemma inv_raw_invalidate:
  assumes inv: "bio_inv s" and pc: "sy_pc s t = Raw_written d lba secs"
  shows "bio_inv (at_pc t Idle (s\<lparr>sy_bio := bio_invalidate_drive d (sy_bio s)\<rparr>))" (is "bio_inv ?s")
proof -
  note b = invalidate_ok [OF bio_invD(1) [OF inv] bio_invD(2) [OF inv], of d]
  have X: "unsettled s - {d} \<times> UNIV \<subseteq> unsettled ?s" "unpatched s \<subseteq> unpatched ?s"
    unfolding unsettled_at_pc unpatched_at_pc by (auto simp: unsettled_split [of s t] unpatched_split [of s t] pc sector_range_def)
  show ?thesis
  proof (rule bio_inv_step [OF inv, where t = t and p = Idle])
    show "bufs_ok (unsettled ?s) (sy_disk ?s) (bio_bufs (sy_bio ?s))" using bufs_ok_mono [OF b(1) X(1)] by simp
    show "bio_bufs (sy_bio ?s) = []" if "\<not> bio_ready (sy_bio ?s)"
      using that bio_invD(2) [OF inv] b(2) by (auto simp: leaves_busy_def)
    fix u i
    assume "u \<noteq> t" "holds_buf (sy_pc s u) = Some i"
    then show "held_ok (bio_bufs (sy_bio s)) (bio_bufs (sy_bio ?s)) (sy_disk s) (sy_disk ?s) (unpatched s) (unpatched ?s) i"
      using b(2) held_busy [OF inv, of u i] X(2) by (intro held_ok_same) (auto simp: leaves_busy_def)
  qed (use b(2) in \<open>auto simp: leaves_busy_def\<close>)
qed

lemma new_read_ok: "lba + n \<le> 2 ^ 64 \<Longrightarrow> rq_ok X dk (new_read d lba n)"
  by (simp add: rq_ok_def new_read_def)

lemma take_covers: "sector_range d lba (take k secs) \<subseteq> sector_range d lba secs"
  by (auto simp: sector_range_def)

theorem bio_step_inv: "bio_step True s s' \<Longrightarrow> bio_inv s \<Longrightarrow> bio_inv s'"
proof (induct rule: bio_step.induct)
  case (read_direct s t lba n d)
  then show ?case by (intro inv_pc_only) auto
next
  case (read_direct_answer s t rq answer)
  then show ?case by (intro inv_pc_only) auto
next
  case (read_none s t lba d)
  then show ?case by (intro inv_pc_only) auto
next
  case (read_start s t n lba rq d p b)
  then show ?case using new_read_ok [of lba n UNIV "sy_disk s" d]
    by (intro inv_read_loop [where ?b0.0 = "(sy_bio s)\<lparr>bio_n_req := add64 (bio_n_req (sy_bio s)) 1\<rparr>"]) (auto simp: bio_read_start_def)
next
  case (read_again s t rq p b)
  then show ?case using bio_invD(3) [OF read_again(3), of t] by (intro inv_read_loop [where ?b0.0 = "sy_bio s"]) auto
next
  case (device_read s t i rq answer)
  have "pc_ok (bio_bufs (sy_bio s)) (sy_disk s) (unpatched s) (Fetched i answer rq)"
    using bio_invD(3) [OF device_read(3), of t] device_read(1,2) by (auto simp: sectors_ok_def disk_read_def)
  then show ?case using device_read by (intro inv_pc_only) auto
next
  case (read_fetched s t i answer rq r b)
  then show ?case by (intro inv_read_fetched)
next
  case (write_start s t lba secs d)
  have "bio_inv (at_pc t (Writing d lba secs) s)"
    using write_start by (intro inv_pc_only) (auto simp: may_write_def)
  moreover have "bio_inv (at_pc t (Write_returned d lba secs True) s)" using write_start by (intro inv_pc_only) auto
  ultimately show ?case by (cases "secs = []") simp_all
next
  case (device_write s t d lba secs)
  show ?case using device_write bio_invD(3) [OF device_write(2), of t] disk_write_new
    by (intro inv_disk_write [OF device_write(2), where T = "{}" and t = t and d = d and lba = lba and secs = secs and p = "Written d lba secs"]) auto
next
  case (device_write_fails s t d lba secs k)
  show ?case using device_write_fails take_covers [of d lba k secs]
    by (intro inv_disk_write [OF device_write_fails(3), where T = "sector_range d lba (take k secs)" and t = t and d = d and lba = lba and secs = "take k secs"
        and p = "Write_returned d lba secs False"]) auto
next
  case (write_patch s t d lba secs)
  then show ?case by (intro inv_write_patch)
next
  case (raw_start s t d lba secs)
  then show ?case by (intro inv_pc_only) (auto simp: may_raw_write_def)
next
  case (raw_write s t d lba secs)
  show ?case using raw_write
    by (intro inv_disk_write [OF raw_write(3), where T = "{}" and t = t and d = d and lba = lba and secs = secs and p = "Raw_written d lba secs"])
      (auto simp: sector_range_def)
next
  case (raw_write_fails s t d lba secs k)
  show ?case using raw_write_fails
    by (intro inv_disk_write [OF raw_write_fails(3), where T = "sector_range d lba (take k secs)" and t = t and d = d and lba = lba and secs = "take k secs" and p = Idle])
      (auto simp: sector_range_def)
next
  case (raw_invalidate s t d lba secs)
  then show ?case by (intro inv_raw_invalidate)
next
  case (sync s t)
  have "s\<lparr>sy_bio := bio_sync_count (sy_bio s)\<rparr> = at_pc t Idle (s\<lparr>sy_bio := bio_sync_count (sy_bio s)\<rparr>)"
    using sync(1) by (simp add: at_pc_def fun_upd_idem)
  moreover have "bio_inv (at_pc t Idle (s\<lparr>sy_bio := bio_sync_count (sy_bio s)\<rparr>))"
    by (rule read_section [OF sync(2), where ?i0.0 = 0]) (use sync bio_invD(1) [OF sync(2)] in \<open>auto simp: bio_sync_count_def\<close>)
  ultimately show ?case by simp
next
  case (return s t rq answer d lba secs ok)
  then show ?case by (intro inv_pc_only) auto
qed

lemma bio_start_inv:
  assumes "\<And>pages. arena = Some pages \<Longrightarrow> length pages = BIO_NBUFS \<and> (\<forall>p \<in> set pages. length p = BIO_SECTORS_PER_PAGE)"
  shows "bio_inv (bio_start arena dk)"
  using assms by (cases arena) (auto simp: bio_inv_def bio_start_def bio_init_def bufs_ok_def buf_ok_def empty_buf_def live_def)

lemma bio_reach_inv: "bio_reach True s \<Longrightarrow> bio_inv s"
  by (induct rule: bio_reach.induct) (auto intro: bio_start_inv bio_step_inv)

section \<open>Reads while nothing is written\<close>

fun writes :: "bio_pc \<Rightarrow> bool" where
  "writes (Writing d lba secs) \<longleftrightarrow> True"
| "writes (Written d lba secs) \<longleftrightarrow> True"
| "writes (Raw_writing d lba secs) \<longleftrightarrow> True"
| "writes (Raw_written d lba secs) \<longleftrightarrow> True"
| "writes _ \<longleftrightarrow> False"

definition bio_quiet :: "bio_sys \<Rightarrow> bool" where
  "bio_quiet s \<longleftrightarrow> (\<forall>t. \<not> writes (sy_pc s t))"

definition quiet_step :: "bio_sys \<Rightarrow> bio_sys \<Rightarrow> bool" where
  "quiet_step s s' \<longleftrightarrow> bio_step True s s' \<and> bio_quiet s \<and> bio_quiet s'"

fun read_ok :: "(nat \<times> nat) set \<Rightarrow> disk \<Rightarrow> bio_pc \<Rightarrow> bool" where
  "read_ok X dk (Read_direct rq) \<longleftrightarrow> rq_ok X dk rq \<and> rq_done rq = 0"
| "read_ok X dk (Reading rq) \<longleftrightarrow> rq_ok X dk rq"
| "read_ok X dk (Fetching i rq) \<longleftrightarrow> rq_ok X dk rq"
| "read_ok X dk (Fetched i a rq) \<longleftrightarrow> rq_ok X dk rq"
| "read_ok X dk (Read_returned rq (Some out)) \<longleftrightarrow> rq_ok X dk (rq\<lparr>rq_done := rq_nsec rq, rq_out := out\<rparr>)"
| "read_ok X dk _ \<longleftrightarrow> True"

definition reads_ok :: "bio_sys \<Rightarrow> bool" where
  "reads_ok s \<longleftrightarrow> (\<forall>t. read_ok (sy_torn s) (sy_disk s) (sy_pc s t))"

lemma quiet_settled:
  assumes "bio_quiet s"
  shows "unsettled s = sy_torn s" "unpatched s = sy_torn s"
proof -
  have "unsettled_at (sy_pc s t) = {} \<and> patching_at (sy_pc s t) = {}" for t
    using assms by (cases "sy_pc s t") (auto simp: bio_quiet_def dest: spec [of _ t])
  then show "unsettled s = sy_torn s" "unpatched s = sy_torn s" by (simp_all add: unsettled_def unpatched_def)
qed

lemma reads_ok_upd:
  "\<lbrakk>reads_ok s; sy_disk s' = sy_disk s; sy_torn s' = sy_torn s; sy_pc s' = (sy_pc s)(t := p); read_ok (sy_torn s) (sy_disk s) p\<rbrakk> \<Longrightarrow> reads_ok s'"
  by (simp add: reads_ok_def)

lemma pause_read_ok: "pause_ok X dk b b' rq q \<Longrightarrow> read_ok X dk (paused rq q)"
  by (cases q) auto

lemma fetched_read_ok:
  assumes inv: "bio_inv s" and q: "bio_quiet s" and pc: "sy_pc s t = Fetched i answer rq" and rq: "rq_ok (sy_torn s) (sy_disk s) rq"
    and run: "read_fetched i answer rq (sy_bio s) = (r, b)"
  shows "read_ok (sy_torn s) (sy_disk s) (case r of Read_failed \<Rightarrow> Read_returned rq None | Read_paused q \<Rightarrow> paused rq q)"
proof -
  note X = quiet_settled [OF q]
  have p: "fetch_ok (bio_bufs (sy_bio s)) i rq" "\<forall>data. answer = Some data \<longrightarrow> length data = 8 \<and> (\<not> bb_stale (bio_bufs (sy_bio s) ! i) \<longrightarrow>
      sectors_ok (sy_torn s) (sy_disk s) (rq_drive rq) (req_page rq) data)"
    using bio_invD(3) [OF inv, of t] by (auto simp: pc X)
  have i: "i < length (bio_bufs (sy_bio s))" "bb_busy (bio_bufs (sy_bio s) ! i)" "bb_page (bio_bufs (sy_bio s) ! i) = req_page rq"
    "bb_drive (bio_bufs (sy_bio s) ! i) = rq_drive rq" "rq_done rq < rq_nsec rq" using p(1) by (auto simp: fetch_ok_def)
  obtain f b1 where f: "page_fetched i answer (sy_bio s) = (f, b1)" by fastforce
  note ok1 = page_fetched_ok [OF bio_invD(1) [OF inv, unfolded X] i(1,2) p(2) [folded i(3,4)] f]
  have go: "read_ok (sy_torn s) (sy_disk s) (paused rq q)" if "read_loop b1 rq1 = (q, b)" "rq_ok (sy_torn s) (sy_disk s) rq1" "same_req rq rq1" for q rq1
    using read_loop_ok [OF ok1(1) subset_refl that(2,1)] pause_ok_mono [OF _ leaves_busy_refl that(3)] by (intro pause_read_ok) blast
  show ?thesis
  proof (cases f)
    case Fetch_ok
    have "rq_ok (sy_torn s) (sy_disk s) (copy_out (bio_bufs b1 ! i) rq)"
      by (rule copy_out_ok [OF rq i(5)]) (use ok1(6) [OF Fetch_ok] i(3,4) in simp)
    then show ?thesis using run f Fetch_ok go by (auto simp: read_fetched_def split: prod.splits)
  qed (use run f go rq in \<open>auto simp: read_fetched_def split: prod.splits\<close>)
qed

lemma read_loop_read_ok:
  assumes inv: "bio_inv s" and q: "bio_quiet s" and rq: "rq_ok (sy_torn s) (sy_disk s) rq" and b0: "bio_bufs b0 = bio_bufs (sy_bio s)"
    and run: "read_loop b0 rq = (p, b)"
  shows "read_ok (sy_torn s) (sy_disk s) (paused rq p)"
proof -
  have "bufs_ok (sy_torn s) (sy_disk s) (bio_bufs b0)" using bio_invD(1) [OF inv] quiet_settled [OF q] b0 by simp
  from read_loop_ok [OF this subset_refl rq run] show ?thesis by (intro pause_read_ok) blast
qed

lemma quiet_step_reads:
  assumes "quiet_step s s'" "bio_inv s" "reads_ok s"
  shows "reads_ok s' \<and> sy_disk s' = sy_disk s \<and> sy_torn s' = sy_torn s"
proof -
  have st: "bio_step True s s'" and q: "bio_quiet s" using assms(1) by (auto simp: quiet_step_def)
  have now: "read_ok (sy_torn s) (sy_disk s) (sy_pc s t)" for t using assms(3) by (simp add: reads_ok_def)
  have no: "\<not> writes (sy_pc s t)" for t using q by (simp add: bio_quiet_def)
  have one: "reads_ok (at_pc t p (s\<lparr>sy_bio := b\<rparr>)) \<and> sy_disk (at_pc t p (s\<lparr>sy_bio := b\<rparr>)) = sy_disk s \<and> sy_torn (at_pc t p (s\<lparr>sy_bio := b\<rparr>)) = sy_torn s"
    if "read_ok (sy_torn s) (sy_disk s) p" for t p b using reads_ok_upd [OF assms(3), of "at_pc t p (s\<lparr>sy_bio := b\<rparr>)"] that by simp
  have pconly: "reads_ok (at_pc t p s) \<and> sy_disk (at_pc t p s) = sy_disk s \<and> sy_torn (at_pc t p s) = sy_torn s"
    if "read_ok (sy_torn s) (sy_disk s) p" for t p using reads_ok_upd [OF assms(3), of "at_pc t p s"] that by simp
  show ?thesis using st
  proof (cases rule: bio_step.cases)
    case (read_direct t lba n d)
    then show ?thesis using pconly new_read_ok [of lba n "sy_torn s" "sy_disk s" d] by (simp add: new_read_def)
  next
    case (read_direct_answer t rq answer)
    then show ?thesis using pconly now [of t] by (auto simp: disk_read_def rq_ok_def)
  next
    case (read_start t n lba rq d p b)
    show ?thesis unfolding read_start(1)
      by (rule one, rule read_loop_read_ok [OF assms(2) q, of _ "(sy_bio s)\<lparr>bio_n_req := add64 (bio_n_req (sy_bio s)) 1\<rparr>" p b])
        (use read_start new_read_ok in \<open>auto simp: bio_read_start_def\<close>)
  next
    case (read_again t rq p b)
    show ?thesis unfolding read_again(1)
      by (rule one, rule read_loop_read_ok [OF assms(2) q, of _ "sy_bio s" p b]) (use read_again now [of t] in auto)
  next
    case (read_fetched t i answer rq r b)
    show ?thesis unfolding read_fetched(1)
      by (rule one, rule fetched_read_ok [OF assms(2) q read_fetched(2)]) (use read_fetched now [of t] in auto)
  next
    case (device_read t i rq answer)
    then show ?thesis using pconly now [of t] by simp
  next
    case (sync t)
    then show ?thesis using assms(3) by (simp add: reads_ok_def)
  next
    case (read_none t lba d)
    then show ?thesis using pconly [of "Read_returned (new_read d lba 0) (Some [])" t] by (simp add: rq_ok_def new_read_def)
  next
    case (write_start t lba secs d)
    then show ?thesis using pconly by simp
  next
    case (raw_start t d lba secs)
    then show ?thesis using pconly by simp
  next
    case (return t rq answer d lba secs ok)
    then show ?thesis using pconly by simp
  qed (use no in \<open>metis writes.simps\<close>)+
qed

end
