(* ===== verification/Bio_Run.thy ===== *)
theory Bio_Run
  imports Bio_Cache
begin

text \<open>
  The properties of the block cache over every reachable state, with an example run, and the run in which a raw write to a drive is lost
  on a page that was being fetched.
\<close>

section \<open>An example run\<close>

text \<open>A disk of zeros, and a thread that reads its first sector.\<close>

definition zero_sector :: sector where "zero_sector = replicate 512 0"
definition one_sector :: sector where "one_sector = replicate 512 1"

definition bio_ex_start :: bio_sys where
  "bio_ex_start = bio_start (Some (replicate 64 (replicate 8 zero_sector))) (\<lambda>_ _. zero_sector)"

definition bio_ex_rq :: read_req where "bio_ex_rq = new_read 0 0 1"

definition bio_ex_claimed :: bio_sys where
  "bio_ex_claimed = at_pc 0 (Fetching 0 bio_ex_rq) (bio_ex_start\<lparr>sy_bio := claim_buf 0 0 0 ((sy_bio bio_ex_start)\<lparr>bio_n_req := 1\<rparr>)\<rparr>)"

definition bio_ex_answered :: bio_sys where
  "bio_ex_answered = at_pc 0 (Fetched 0 (Some (replicate 8 zero_sector)) bio_ex_rq) bio_ex_claimed"

lemma sectors_differ: "zero_sector \<noteq> one_sector"
proof -
  have "zero_sector ! 0 = 0" "one_sector ! 0 = 1" by (simp_all add: zero_sector_def one_sector_def)
  then show ?thesis by (metis zero_neq_one)
qed

lemma bio_ex_start_reach: "bio_reach excl bio_ex_start"
  unfolding bio_ex_start_def by (rule bio_reach.start) (auto simp: BIO_NBUFS_def)

lemma lookup_empty: "page_lookup (replicate n (empty_buf slab)) k drive page = Absent"
  by (induct n arbitrary: k) (auto simp: empty_buf_def)

lemma bio_ex_read_start: "bio_read_start bio_ex_rq (sy_bio bio_ex_start) = (Read_fetch 0 bio_ex_rq, sy_bio bio_ex_claimed)"
proof -
  have bufs: "bio_bufs (sy_bio bio_ex_start) = empty_buf (replicate 8 zero_sector) # replicate 63 (empty_buf (replicate 8 zero_sector))"
    by (simp add: bio_ex_start_def bio_start_def bio_init_def map_replicate numeral_Bit0 numeral_Bit1 replicate_add)
  have l: "page_lookup (bio_bufs (sy_bio bio_ex_start)) 0 0 0 = Absent"
    using lookup_empty [of 64 "replicate 8 zero_sector" 0 0 0] by (simp add: bio_ex_start_def bio_start_def bio_init_def map_replicate)
  have v: "pick_victim (bio_bufs (sy_bio bio_ex_start)) 0 None = Some 0" unfolding bufs by (simp add: empty_buf_def)
  have n: "bio_n_req (sy_bio bio_ex_start) = 0" by (simp add: bio_ex_start_def bio_start_def bio_init_def)
  have rq: "rq_done bio_ex_rq < rq_nsec bio_ex_rq" "rq_drive bio_ex_rq = 0" "req_page bio_ex_rq = 0"
    by (simp_all add: bio_ex_rq_def new_read_def req_page_def add64_def)
  show ?thesis unfolding bio_read_start_def
    by (subst read_loop.simps) (simp add: rq page_get_def l v n add64_def bio_ex_claimed_def)
qed

lemma bio_ex_claimed_step: "bio_step excl bio_ex_start bio_ex_claimed"
proof -
  have p: "paused bio_ex_rq (Read_fetch 0 bio_ex_rq) = Fetching 0 bio_ex_rq" by simp
  have "bio_ex_claimed = at_pc 0 (Fetching 0 bio_ex_rq) (bio_ex_start\<lparr>sy_bio := sy_bio bio_ex_claimed\<rparr>)"
    by (simp add: bio_ex_claimed_def at_pc_def)
  then show ?thesis
    using bio_step.read_start [of bio_ex_start 0 1 0 bio_ex_rq 0 "Read_fetch 0 bio_ex_rq" "sy_bio bio_ex_claimed" excl, OF _ _ _ _ _ bio_ex_rq_def bio_ex_read_start]
    by (simp add: bio_ex_start_def bio_start_def bio_init_def)
qed

lemma bio_ex_answered_step: "bio_step excl bio_ex_claimed bio_ex_answered"
proof -
  have d: "disk_read (sy_disk bio_ex_claimed) 0 0 8 = replicate 8 zero_sector"
    by (simp add: bio_ex_claimed_def bio_ex_start_def bio_start_def disk_read_def map_replicate_const)
  show ?thesis unfolding bio_ex_answered_def
    by (rule bio_step.device_read) (simp_all add: bio_ex_claimed_def bio_ex_start_def bio_start_def disk_read_def map_replicate_const bio_ex_rq_def new_read_def req_page_def add64_def)
qed

lemma bio_ex_bufs: "bio_bufs (sy_bio bio_ex_answered) = (replicate 64 (empty_buf (replicate 8 zero_sector)))
    [0 := (empty_buf (replicate 8 zero_sector))\<lparr>bb_busy := True, bb_page := 0, bb_drive := 0\<rparr>]"
  by (simp add: bio_ex_answered_def bio_ex_claimed_def claim_buf_def Let_def bio_ex_start_def bio_start_def bio_init_def map_replicate empty_buf_def)

text \<open>The fetch comes back while the buffers are as the claim left them.\<close>

definition bio_ex_filled :: "bio_cache \<Rightarrow> bio_cache" where
  "bio_ex_filled b = snd (page_fetched 0 (Some (replicate 8 zero_sector)) b)"

lemma bio_ex_fetched:
  assumes b: "bio_bufs b = bio_bufs (sy_bio bio_ex_answered)"
  shows "read_fetched 0 (Some (replicate 8 zero_sector)) bio_ex_rq b = (Read_paused (Read_done [zero_sector]), bio_ex_filled b)"
    "bb_valid (bio_bufs (bio_ex_filled b) ! 0)" "bb_data (bio_bufs (bio_ex_filled b) ! 0) = replicate 8 zero_sector"
    "bb_page (bio_bufs (bio_ex_filled b) ! 0) = 0" "bb_drive (bio_bufs (bio_ex_filled b) ! 0) = 0" "length (bio_bufs (bio_ex_filled b)) = 64"
proof -
  have bb: "bio_bufs b ! 0 = (empty_buf (replicate 8 zero_sector))\<lparr>bb_busy := True, bb_page := 0, bb_drive := 0\<rparr>" "length (bio_bufs b) = 64"
    unfolding b bio_ex_bufs by simp_all
  have f: "page_fetched 0 (Some (replicate 8 zero_sector)) b = (Fetch_ok, bio_ex_filled b)"
    by (simp add: bio_ex_filled_def page_fetched_def bb empty_buf_def Let_def)
  show p: "bb_valid (bio_bufs (bio_ex_filled b) ! 0)" "bb_data (bio_bufs (bio_ex_filled b) ! 0) = replicate 8 zero_sector"
    "bb_page (bio_bufs (bio_ex_filled b) ! 0) = 0" "bb_drive (bio_bufs (bio_ex_filled b) ! 0) = 0" "length (bio_bufs (bio_ex_filled b)) = 64"
    by (simp_all add: bio_ex_filled_def page_fetched_def bb empty_buf_def Let_def)
  have c: "copy_out (bio_bufs (bio_ex_filled b) ! 0) bio_ex_rq = bio_ex_rq\<lparr>rq_out := [zero_sector], rq_done := 1\<rparr>"
    by (simp add: copy_out_def p(2) bio_ex_rq_def new_read_def req_run_def req_within_def add64_def)
  show "read_fetched 0 (Some (replicate 8 zero_sector)) bio_ex_rq b = (Read_paused (Read_done [zero_sector]), bio_ex_filled b)"
    unfolding read_fetched_def f by (simp add: c read_loop.simps) (simp add: bio_ex_rq_def new_read_def)
qed

definition bio_ex_read :: bio_sys where
  "bio_ex_read = at_pc 0 (Read_returned bio_ex_rq (Some [zero_sector])) (bio_ex_answered\<lparr>sy_bio := bio_ex_filled (sy_bio bio_ex_answered)\<rparr>)"

lemma bio_ex_read_step: "bio_step excl bio_ex_answered bio_ex_read"
  using bio_step.read_fetched [of bio_ex_answered 0 0 "Some (replicate 8 zero_sector)" bio_ex_rq _ _ excl, OF _ bio_ex_fetched(1) [OF refl]]
  by (simp add: bio_ex_read_def bio_ex_answered_def)

lemma bio_ex_read_reach: "bio_reach excl bio_ex_read"
  by (rule bio_reach.step [OF bio_reach.step [OF bio_reach.step [OF bio_ex_start_reach bio_ex_claimed_step] bio_ex_answered_step] bio_ex_read_step])

section \<open>Properties\<close>





text \<open>\<open>bio_invalidate_drive\<close> does not mark a buffer that is being fetched: a raw write that runs while a page is being
  fetched leaves a valid buffer with the old contents for good, with every thread idle again.\<close>

theorem bio_invalidate_misses_fetch:
  "\<exists>s i. bio_reach False s \<and> (\<forall>t. sy_pc s t = Idle) \<and> sy_torn s = {} \<and> i < length (bio_bufs (sy_bio s)) \<and> bb_valid (bio_bufs (sy_bio s) ! i) \<and>
     bb_data (bio_bufs (sy_bio s) ! i) ! 0 \<noteq> sy_disk s (bb_drive (bio_bufs (sy_bio s) ! i)) (bb_page (bio_bufs (sy_bio s) ! i) * BIO_SECTORS_PER_PAGE)"
proof -
  define s1 where "s1 = at_pc 1 (Raw_writing 0 0 [one_sector]) bio_ex_answered"
  define s2 where "s2 = at_pc 1 (Raw_written 0 0 [one_sector]) (s1\<lparr>sy_disk := disk_write 0 0 [one_sector] (sy_disk s1)\<rparr>)"
  define s3 where "s3 = at_pc 1 Idle (s2\<lparr>sy_bio := bio_invalidate_drive 0 (sy_bio s2)\<rparr>)"
  define s4 where "s4 = at_pc 0 (Read_returned bio_ex_rq (Some [zero_sector])) (s3\<lparr>sy_bio := bio_ex_filled (sy_bio s3)\<rparr>)"
  define s5 where "s5 = at_pc 0 Idle s4"
  have pc: "sy_pc bio_ex_answered (Suc 0) = Idle" "sy_pc bio_ex_answered 0 = Fetched 0 (Some (replicate 8 zero_sector)) bio_ex_rq"
    by (simp_all add: bio_ex_answered_def bio_ex_claimed_def bio_ex_start_def bio_start_def)
  have st1: "bio_step False bio_ex_answered s1" unfolding s1_def by (rule bio_step.raw_start) (simp_all add: pc)
  have st2: "bio_step False s1 s2" unfolding s2_def by (rule bio_step.raw_write) (simp_all add: s1_def)
  have st3: "bio_step False s2 s3" unfolding s3_def by (rule bio_step.raw_invalidate [where lba = 0 and secs = "[one_sector]"]) (simp add: s2_def)
  have bufs: "bio_bufs (sy_bio s3) = bio_bufs (sy_bio bio_ex_answered)"
    by (simp add: s3_def s2_def s1_def bio_invalidate_drive_def bio_ex_bufs map_update empty_buf_def map_replicate)
  have st4: "bio_step False s3 s4"
    using bio_step.read_fetched [of s3 0 0 "Some (replicate 8 zero_sector)" bio_ex_rq _ _ False, OF _ bio_ex_fetched(1) [OF bufs]] pc
    by (simp add: s4_def s3_def s2_def s1_def)
  have st5: "bio_step False s4 s5" unfolding s5_def
    by (rule bio_step.return [where rq = bio_ex_rq and answer = "Some [zero_sector]" and d = 0 and lba = 0 and secs = "[]" and ok = True]) (simp add: s4_def)
  have r: "bio_reach False bio_ex_answered" by (rule bio_reach.step [OF bio_reach.step [OF bio_ex_start_reach bio_ex_claimed_step] bio_ex_answered_step])
  note rs = bio_reach.step
  have "bio_reach False s5" by (rule rs [OF rs [OF rs [OF rs [OF rs [OF r st1] st2] st3] st4] st5])
  moreover have "sy_pc s5 t = Idle" for t
    by (simp add: s5_def s4_def s3_def s2_def s1_def bio_ex_answered_def bio_ex_claimed_def bio_ex_start_def bio_start_def)
  moreover have "sy_torn s5 = {}" by (simp add: s5_def s4_def s3_def s2_def s1_def bio_ex_answered_def bio_ex_claimed_def bio_ex_start_def bio_start_def)
  moreover have "sy_bio s5 = bio_ex_filled (sy_bio s3)" "sy_disk s5 0 0 = one_sector"
    by (simp_all add: s5_def s4_def s3_def s2_def disk_write_def)
  ultimately show ?thesis using bio_ex_fetched(2-6) [OF bufs] sectors_differ by (intro exI [of _ s5] exI [of _ 0]) simp
qed

end
