(* ===== verification/Apfs_Block.thy ===== *)
theory Apfs_Block
  imports Kern_Prelude
begin

text \<open>
  Blocks of an APFS container (src/fs/apfs/apfs.c): the Fletcher-64 sum, sealing and checking a block, and reading and writing one, with
  the log of recent writes. The disk is a map from sector numbers to blocks; a command may fail, a failed write having stored any number of the
  eight sectors. The re-reads that \<open>block_autopsy\<close> does to print a report are left out.
\<close>

unbundle bit_operations_syntax

section \<open>The checksum\<close>

text \<open>A block is its 1024 little-endian 32-bit words; the first two are \<open>o_cksum\<close>.\<close>

type_synonym apfs_block = "32 word list"

definition APFS_BLOCK_SIZE :: nat where "APFS_BLOCK_SIZE = 4096"

definition block_words :: nat where "block_words = APFS_BLOCK_SIZE div 4"

definition fletcher_mod :: nat where "fletcher_mod = 0xFFFFFFFF"

fun fletcher_sums :: "32 word list \<Rightarrow> nat \<times> nat \<Rightarrow> nat \<times> nat" where
  "fletcher_sums [] (sum1, sum2) = (sum1, sum2)"
| "fletcher_sums (w # ws) (sum1, sum2) =
     (let s1 = (sum1 + unat w) mod fletcher_mod; s2 = (sum2 + s1) mod fletcher_mod in fletcher_sums ws (s1, s2))"

text \<open>The two halves of the sum, low word first; \<open>~\<close> is taken in 32 bits.\<close>

definition fs_apfs_fletcher64 :: "32 word list \<Rightarrow> 32 word \<times> 32 word" where
  "fs_apfs_fletcher64 ws =
     (case fletcher_sums ws (0, 0) of (sum1, sum2) \<Rightarrow>
        let c1 = NOT (of_nat ((sum1 + sum2) mod fletcher_mod)) :: 32 word;
            c2 = NOT (of_nat ((sum1 + unat c1) mod fletcher_mod)) :: 32 word
        in (c1, c2))"

definition o_cksum :: "apfs_block \<Rightarrow> 32 word \<times> 32 word" where
  "o_cksum blk = (blk ! 0, blk ! 1)"

definition block_cksum :: "apfs_block \<Rightarrow> 32 word \<times> 32 word" where
  "block_cksum blk = fs_apfs_fletcher64 (drop 2 blk)"

definition seal :: "apfs_block \<Rightarrow> apfs_block" where
  "seal blk = (case block_cksum blk of (c1, c2) \<Rightarrow> c1 # c2 # drop 2 blk)"

section \<open>Blocks of the volume\<close>

datatype apfs_err = FS_APFS_E_OK | FS_APFS_E_NOMOUNT | FS_APFS_E_IO | FS_APFS_E_NOMEM | FS_APFS_E_INVAL | FS_APFS_E_CKSUM | FS_APFS_E_NOTFOUND
  | FS_APFS_E_TOOBIG | FS_APFS_E_NOALLOC | FS_APFS_E_EXIST | FS_APFS_E_ISDIR | FS_APFS_E_SPREAD | FS_APFS_E_NOTDIR | FS_APFS_E_NOTEMPTY | FS_APFS_E_GONE

record wlog_ent =
  w_bno :: nat
  w_seq :: nat
  w_sealed :: bool

definition WLOG_N :: nat where "WLOG_N = 512"

text \<open>
  The volume as the block layer sees it, a block by the number of its first sector. The outcome of the next command to the device is the head of \<open>vol_fate\<close>: it succeeds, or it
  fails having transferred some of the eight sectors of the block. \<open>vol_kmem\<close> says in the same way whether the next allocation succeeds, and
  \<open>vol_view\<close> whether a read-only view is entered.
\<close>

record volume =
  vol_blocks :: "nat \<Rightarrow> apfs_block"
  vol_fate :: "nat \<Rightarrow> nat option"
  vol_cmds :: nat
  vol_kmem :: "nat \<Rightarrow> bool"
  vol_allocs :: nat
  vol_view :: bool
  view_n_forbid :: nat
  wlog :: "wlog_ent list"
  wlog_next :: nat
  wlog_seq :: nat

definition APFS_SECTORS_PER_BLOCK :: nat where "APFS_SECTORS_PER_BLOCK = 8"

definition block_lba :: "nat \<Rightarrow> nat" where
  "block_lba bno = bno * APFS_SECTORS_PER_BLOCK mod 2 ^ 64"

definition view_forbids :: "volume \<Rightarrow> bool \<times> volume" where
  "view_forbids v = (if \<not> vol_view v then (False, v) else (True, v\<lparr>view_n_forbid := add64 (view_n_forbid v) 1\<rparr>))"

definition read_block_raw :: "nat \<Rightarrow> volume \<Rightarrow> apfs_err \<times> apfs_block \<times> volume" where
  "read_block_raw bno v =
     (let v1 = v\<lparr>vol_cmds := Suc (vol_cmds v)\<rparr>
      in (if vol_fate v (vol_cmds v) = None then FS_APFS_E_OK else FS_APFS_E_IO, vol_blocks v (block_lba bno), v1))"

definition wlog_note :: "nat \<Rightarrow> bool \<Rightarrow> volume \<Rightarrow> volume" where
  "wlog_note bno sealed v =
     (let q = add64 (wlog_seq v) 1
      in v\<lparr>wlog := (wlog v)[wlog_next v := \<lparr>w_bno = bno, w_seq = q, w_sealed = sealed\<rparr>], wlog_seq := q,
           wlog_next := (wlog_next v + 1) mod WLOG_N\<rparr>)"

definition wlog_seal_last :: "volume \<Rightarrow> volume" where
  "wlog_seal_last v =
     (let prev = (wlog_next v + WLOG_N - 1) mod WLOG_N
      in v\<lparr>wlog := (wlog v)[prev := (wlog v ! prev)\<lparr>w_sealed := True\<rparr>]\<rparr>)"

definition sector_words :: nat where "sector_words = 128"

definition write_block_raw :: "nat \<Rightarrow> apfs_block \<Rightarrow> volume \<Rightarrow> apfs_err \<times> volume" where
  "write_block_raw bno buf v =
     (case view_forbids v of (forbid, v0) \<Rightarrow>
        if forbid then (FS_APFS_E_IO, v0)
        else let v1 = v0\<lparr>vol_cmds := Suc (vol_cmds v0)\<rparr>; lba = block_lba bno; old = vol_blocks v0 lba
             in case vol_fate v0 (vol_cmds v0) of
                  None \<Rightarrow> (FS_APFS_E_OK, wlog_note bno False (v1\<lparr>vol_blocks := (vol_blocks v0)(lba := buf)\<rparr>))
                | Some k \<Rightarrow> (FS_APFS_E_IO,
                    v1\<lparr>vol_blocks := (vol_blocks v0)(lba := take (k * sector_words) buf @ drop (k * sector_words) old)\<rparr>))"

definition fs_apfs_read_block :: "nat \<Rightarrow> volume \<Rightarrow> apfs_err \<times> apfs_block \<times> volume" where
  "fs_apfs_read_block bno v =
     (case read_block_raw bno v of (rv, buf, v1) \<Rightarrow>
        if rv \<noteq> FS_APFS_E_OK then (rv, buf, v1)
        else if block_cksum buf \<noteq> o_cksum buf then (FS_APFS_E_CKSUM, buf, v1)
        else (FS_APFS_E_OK, buf, v1))"

text \<open>The buffer is sealed in place, so the caller sees the sealed block.\<close>

definition fs_apfs_write_block :: "nat \<Rightarrow> apfs_block \<Rightarrow> volume \<Rightarrow> apfs_err \<times> apfs_block \<times> volume" where
  "fs_apfs_write_block bno buf v =
     (let sealed = seal buf
      in case write_block_raw bno sealed v of (rv, v1) \<Rightarrow>
           (rv, sealed, if rv = FS_APFS_E_OK then wlog_seal_last v1 else v1))"

definition fs_apfs_read_block_raw :: "nat \<Rightarrow> volume \<Rightarrow> apfs_err \<times> apfs_block \<times> volume" where
  "fs_apfs_read_block_raw bno v = read_block_raw bno v"

definition fs_apfs_write_block_raw :: "nat \<Rightarrow> apfs_block \<Rightarrow> volume \<Rightarrow> apfs_err \<times> volume" where
  "fs_apfs_write_block_raw bno buf v = write_block_raw bno buf v"

section \<open>What the checksum detects\<close>

lemma fletcher_mod_pos [simp]: "0 < fletcher_mod"
  by (simp add: fletcher_mod_def)

lemma fletcher_sums_bound: "fletcher_sums ws (a, b) = (s1, s2) \<Longrightarrow> a < fletcher_mod \<Longrightarrow> b < fletcher_mod \<Longrightarrow> s1 < fletcher_mod \<and> s2 < fletcher_mod"
  by (induct ws "(a, b)" arbitrary: a b rule: fletcher_sums.induct) (auto simp: Let_def)

lemma fletcher_sums_first: "a < fletcher_mod \<Longrightarrow> fst (fletcher_sums ws (a, b)) = (a + sum_list (map unat ws)) mod fletcher_mod"
proof (induct ws arbitrary: a b)
  case (Cons w ws)
  then show ?case by (simp add: Let_def mod_add_left_eq add.assoc)
qed simp

lemma fletcher_sums_append: "fletcher_sums (xs @ ys) ab = fletcher_sums ys (fletcher_sums xs ab)"
  by (induct xs ab rule: fletcher_sums.induct) (auto simp: Let_def)

lemma mod_add_cancel: "(a + c) mod m = (b + c) mod m \<longleftrightarrow> a mod m = b mod m" "(c + a) mod m = (c + b) mod m \<longleftrightarrow> a mod m = b mod m" for a b c m :: nat
  by (simp_all add: nat_mod_eq_iff algebra_simps)

lemma not_mod_inj:
  assumes "NOT (of_nat (x mod fletcher_mod)) = (NOT (of_nat (y mod fletcher_mod)) :: 32 word)"
  shows "x mod fletcher_mod = y mod fletcher_mod"
proof -
  have lt: "z mod fletcher_mod < 2 ^ 32" for z using mod_less_divisor [OF fletcher_mod_pos, of z] by (simp add: fletcher_mod_def)
  have "of_nat (x mod fletcher_mod) = (of_nat (y mod fletcher_mod) :: 32 word)" using assms by (metis bit.double_compl)
  then have "unat (of_nat (x mod fletcher_mod) :: 32 word) = unat (of_nat (y mod fletcher_mod) :: 32 word)" by simp
  then show ?thesis using lt by (simp add: unat_of_nat take_bit_eq_mod)
qed

lemma fletcher64_sums:
  "fs_apfs_fletcher64 xs = fs_apfs_fletcher64 ys \<longleftrightarrow> fletcher_sums xs (0, 0) = fletcher_sums ys (0, 0)"
proof
  assume eq: "fs_apfs_fletcher64 xs = fs_apfs_fletcher64 ys"
  obtain s1 s2 where s: "fletcher_sums xs (0, 0) = (s1, s2)" by fastforce
  obtain t1 t2 where t: "fletcher_sums ys (0, 0) = (t1, t2)" by fastforce
  have lt: "s1 < fletcher_mod" "s2 < fletcher_mod" "t1 < fletcher_mod" "t2 < fletcher_mod"
    using fletcher_sums_bound [OF s] fletcher_sums_bound [OF t] by auto
  define c :: "32 word" where "c = NOT (of_nat ((s1 + s2) mod fletcher_mod))"
  define e :: "32 word" where "e = NOT (of_nat ((t1 + t2) mod fletcher_mod))"
  have ce: "c = e" and d': "NOT (of_nat ((s1 + unat c) mod fletcher_mod)) = (NOT (of_nat ((t1 + unat e) mod fletcher_mod)) :: 32 word)"
    using eq unfolding fs_apfs_fletcher64_def s t prod.case Let_def prod.inject c_def [symmetric] e_def [symmetric] by blast+
  have c: "c = NOT (of_nat ((t1 + t2) mod fletcher_mod))" using ce by (simp only: e_def)
  have d: "NOT (of_nat ((s1 + unat c) mod fletcher_mod)) = (NOT (of_nat ((t1 + unat c) mod fletcher_mod)) :: 32 word)" using d' by (simp only: ce)
  have 1: "(s1 + s2) mod fletcher_mod = (t1 + t2) mod fletcher_mod" using not_mod_inj c c_def by metis
  have "s1 mod fletcher_mod = t1 mod fletcher_mod" using not_mod_inj [OF d] by (simp add: mod_add_cancel)
  then have s1: "s1 = t1" using lt by simp
  then have "s2 mod fletcher_mod = t2 mod fletcher_mod" using 1 by (simp add: mod_add_cancel)
  then show "fletcher_sums xs (0, 0) = fletcher_sums ys (0, 0)" using s1 lt s t by simp
qed (simp add: fs_apfs_fletcher64_def)

lemma word_mod_same:
  fixes w w' :: "32 word"
  shows "unat w mod fletcher_mod = unat w' mod fletcher_mod \<longleftrightarrow> w = w' \<or> {w, w'} = {0, 0xFFFFFFFF}"
proof -
  have lt: "unat x < 2 ^ 32" for x :: "32 word" by (rule order_less_le_trans [OF unsigned_less]) simp
  have m: "unat x mod fletcher_mod = (if unat x = fletcher_mod then 0 else unat x)" for x :: "32 word"
    using lt [of x] by (auto simp: fletcher_mod_def)
  have u: "unat x = fletcher_mod \<longleftrightarrow> x = 0xFFFFFFFF" "unat x = 0 \<longleftrightarrow> x = 0" for x :: "32 word"
    by (simp_all add: fletcher_mod_def word_unat_eq_iff)
  have e: "unat w = unat w' \<longleftrightarrow> w = w'" by (simp only: word_unat_eq_iff)
  have z: "(0::32 word) \<noteq> 0xFFFFFFFF" by simp
  show ?thesis unfolding m doubleton_eq_iff using u(1) [of w] u(1) [of w'] u(2) [of w] u(2) [of w'] e z by (cases "w = 0xFFFFFFFF"; cases "w' = 0xFFFFFFFF"; auto)
qed

theorem fletcher64_detects:
  assumes "i < length ws"
  shows "fs_apfs_fletcher64 (ws[i := w]) = fs_apfs_fletcher64 ws \<longleftrightarrow> w = ws ! i \<or> {w, ws ! i} = {0, 0xFFFFFFFF}"
proof -
  define xs ys where "xs = take i ws" and "ys = drop (Suc i) ws"
  have ws: "ws = xs @ ws ! i # ys" "ws[i := w] = xs @ w # ys" using assms by (simp_all add: xs_def ys_def id_take_nth_drop upd_conv_take_nth_drop)
  obtain a b where ab: "fletcher_sums xs (0, 0) = (a, b)" by fastforce
  have lt: "a < fletcher_mod" "b < fletcher_mod" using fletcher_sums_bound [OF ab] by auto
  have "fletcher_sums (xs @ w # ys) (0, 0) = fletcher_sums (xs @ ws ! i # ys) (0, 0) \<longleftrightarrow> unat w mod fletcher_mod = unat (ws ! i) mod fletcher_mod"
  proof
    assume "fletcher_sums (xs @ w # ys) (0, 0) = fletcher_sums (xs @ ws ! i # ys) (0, 0)"
    then have "fst (fletcher_sums (w # ys) (a, b)) = fst (fletcher_sums (ws ! i # ys) (a, b))" by (simp add: fletcher_sums_append ab)
    then show "unat w mod fletcher_mod = unat (ws ! i) mod fletcher_mod"
      unfolding fletcher_sums_first [OF lt(1)] by (simp add: mod_add_cancel)
  next
    assume "unat w mod fletcher_mod = unat (ws ! i) mod fletcher_mod"
    then have "(a + unat w) mod fletcher_mod = (a + unat (ws ! i)) mod fletcher_mod" by (simp add: mod_add_cancel)
    then show "fletcher_sums (xs @ w # ys) (0, 0) = fletcher_sums (xs @ ws ! i # ys) (0, 0)" by (simp add: fletcher_sums_append ab)
  qed
  then show ?thesis unfolding ws(2) fletcher64_sums using ws(1) word_mod_same by metis
qed

section \<open>Sealed blocks\<close>

lemma seal_length: "2 \<le> length blk \<Longrightarrow> length (seal blk) = length blk"
  by (simp add: seal_def split: prod.splits)

lemma seal_verifies: "block_cksum (seal blk) = o_cksum (seal blk)"
  by (simp add: seal_def block_cksum_def o_cksum_def split: prod.splits)

end
