(* ===== verification/Fs_Txn.thy ===== *)
theory Fs_Txn
  imports Apfs_Block
begin

text \<open>
  Metadata transactions (src/fs/fs_txn.c): the blocks one operation changes are collected and written together. \<open>txn_run\<close> is what a
  caller does between begin and commit; \<open>pending_run\<close> is the same as a map from block numbers, which the slots refine.
\<close>

unbundle bit_operations_syntax

section \<open>Transactions\<close>

datatype txn_err = FS_TXN_E_OK | FS_TXN_E_IO | FS_TXN_E_NOMEM | FS_TXN_E_FULL

definition FS_TXN_MAX_BLOCKS :: nat where "FS_TXN_MAX_BLOCKS = 12"

text \<open>The slots in use; \<open>tx_n\<close> is their number. A buffer is named by the slot that owns it.\<close>

record fs_txn_slot =
  ts_bno :: nat
  ts_buf :: apfs_block
  ts_dirty :: bool
  ts_raw :: bool

record fs_txn =
  tx_slot :: "fs_txn_slot list"
  tx_failed :: bool

record txn_counts =
  txn_n_commit :: nat
  txn_n_blocks :: nat
  txn_n_abort :: nat

definition fs_txn_begin :: fs_txn where
  "fs_txn_begin = \<lparr>tx_slot = [], tx_failed = False\<rparr>"

definition release :: "fs_txn \<Rightarrow> fs_txn" where
  "release t = t\<lparr>tx_slot := []\<rparr>"

fun find_bno :: "fs_txn_slot list \<Rightarrow> nat \<Rightarrow> nat \<Rightarrow> nat option" where
  "find_bno [] bno i = None"
| "find_bno (s # ss) bno i = (if ts_bno s = bno then Some i else find_bno ss bno (Suc i))"

definition fail :: "fs_txn \<Rightarrow> fs_txn" where
  "fail t = t\<lparr>tx_failed := True\<rparr>"

definition txn_get :: "nat \<Rightarrow> bool \<Rightarrow> fs_txn \<Rightarrow> volume \<Rightarrow> txn_err \<times> nat option \<times> fs_txn \<times> volume" where
  "txn_get bno raw t v =
     (if tx_failed t then (FS_TXN_E_IO, None, t, v)
      else case find_bno (tx_slot t) bno 0 of
        Some i \<Rightarrow> if ts_raw (tx_slot t ! i) \<noteq> raw then (FS_TXN_E_IO, None, fail t, v) else (FS_TXN_E_OK, Some i, t, v)
      | None \<Rightarrow>
          if length (tx_slot t) \<ge> FS_TXN_MAX_BLOCKS then (FS_TXN_E_FULL, None, fail t, v)
          else let v1 = v\<lparr>vol_allocs := Suc (vol_allocs v)\<rparr>
               in if \<not> vol_kmem v (vol_allocs v) then (FS_TXN_E_NOMEM, None, fail t, v1)
                  else case (if raw then fs_apfs_read_block_raw bno v1 else fs_apfs_read_block bno v1) of (rv, buf, v2) \<Rightarrow>
                    if rv \<noteq> FS_APFS_E_OK then (FS_TXN_E_IO, None, fail t, v2)
                    else (FS_TXN_E_OK, Some (length (tx_slot t)),
                          t\<lparr>tx_slot := tx_slot t @ [\<lparr>ts_bno = bno, ts_buf = buf, ts_dirty = False, ts_raw = raw\<rparr>]\<rparr>, v2))"

definition fs_txn_get :: "nat \<Rightarrow> fs_txn \<Rightarrow> volume \<Rightarrow> txn_err \<times> nat option \<times> fs_txn \<times> volume" where
  "fs_txn_get bno t v = txn_get bno False t v"

definition fs_txn_get_raw :: "nat \<Rightarrow> fs_txn \<Rightarrow> volume \<Rightarrow> txn_err \<times> nat option \<times> fs_txn \<times> volume" where
  "fs_txn_get_raw bno t v = txn_get bno True t v"

definition fs_txn_dirty :: "nat \<Rightarrow> fs_txn \<Rightarrow> fs_txn" where
  "fs_txn_dirty bno t =
     (case find_bno (tx_slot t) bno 0 of
        Some i \<Rightarrow> t\<lparr>tx_slot := (tx_slot t)[i := (tx_slot t ! i)\<lparr>ts_dirty := True\<rparr>]\<rparr>
      | None \<Rightarrow> fail t)"

definition slot_write :: "fs_txn_slot \<Rightarrow> volume \<Rightarrow> apfs_err \<times> volume" where
  "slot_write s v =
     (if ts_raw s then fs_apfs_write_block_raw (ts_bno s) (ts_buf s) v
      else case fs_apfs_write_block (ts_bno s) (ts_buf s) v of (e, _, v1) \<Rightarrow> (e, v1))"

fun commit_slots :: "fs_txn_slot list \<Rightarrow> txn_err \<Rightarrow> txn_counts \<Rightarrow> volume \<Rightarrow> txn_err \<times> txn_counts \<times> volume" where
  "commit_slots [] rv c v = (rv, c, v)"
| "commit_slots (s # ss) rv c v =
     (if \<not> ts_dirty s then commit_slots ss rv c v
      else case slot_write s v of (e, v1) \<Rightarrow>
             if e \<noteq> FS_APFS_E_OK then commit_slots ss FS_TXN_E_IO c v1
             else commit_slots ss rv (c\<lparr>txn_n_blocks := add64 (txn_n_blocks c) 1\<rparr>) v1)"

definition fs_txn_commit :: "fs_txn \<Rightarrow> txn_counts \<Rightarrow> volume \<Rightarrow> txn_err \<times> fs_txn \<times> txn_counts \<times> volume" where
  "fs_txn_commit t c v =
     (if tx_failed t then (FS_TXN_E_IO, release t, c\<lparr>txn_n_abort := add64 (txn_n_abort c) 1\<rparr>, v)
      else case commit_slots (tx_slot t) FS_TXN_E_OK c v of (rv, c1, v1) \<Rightarrow>
        (rv, release t, if rv = FS_TXN_E_OK then c1\<lparr>txn_n_commit := add64 (txn_n_commit c1) 1\<rparr> else c1, v1))"

definition fs_txn_abort :: "fs_txn \<Rightarrow> txn_counts \<Rightarrow> fs_txn \<times> txn_counts" where
  "fs_txn_abort t c =
     ((release t)\<lparr>tx_failed := False\<rparr>, if tx_slot t \<noteq> [] then c\<lparr>txn_n_abort := add64 (txn_n_abort c) 1\<rparr> else c)"

section \<open>Callers of a transaction\<close>

text \<open>What a caller does with a transaction: fetch a block, write through the pointer it was given, mark a block.\<close>

datatype txn_op = Get nat | Get_raw nat | Store nat apfs_block | Dirty nat

fun txn_op_run :: "txn_op \<Rightarrow> fs_txn \<times> volume \<Rightarrow> fs_txn \<times> volume" where
  "txn_op_run (Get bno) (t, v) = (case fs_txn_get bno t v of (_, _, t1, v1) \<Rightarrow> (t1, v1))"
| "txn_op_run (Get_raw bno) (t, v) = (case fs_txn_get_raw bno t v of (_, _, t1, v1) \<Rightarrow> (t1, v1))"
| "txn_op_run (Store bno blk) (t, v) =
     (case find_bno (tx_slot t) bno 0 of
        Some i \<Rightarrow> (t\<lparr>tx_slot := (tx_slot t)[i := (tx_slot t ! i)\<lparr>ts_buf := blk\<rparr>]\<rparr>, v)
      | None \<Rightarrow> (t, v))"
| "txn_op_run (Dirty bno) (t, v) = (fs_txn_dirty bno t, v)"

definition txn_run :: "txn_op list \<Rightarrow> fs_txn \<times> volume \<Rightarrow> fs_txn \<times> volume" where
  "txn_run ops s = fold txn_op_run ops s"

text \<open>What a transaction promises: the blocks fetched, each raw or not, marked or not, with its pending contents.\<close>

type_synonym pending = "nat \<rightharpoonup> bool \<times> bool \<times> apfs_block"

fun pending_op :: "(nat \<Rightarrow> apfs_block) \<Rightarrow> txn_op \<Rightarrow> pending \<Rightarrow> pending" where
  "pending_op d (Get bno) m = (if m bno = None then m(bno \<mapsto> (False, False, d bno)) else m)"
| "pending_op d (Get_raw bno) m = (if m bno = None then m(bno \<mapsto> (True, False, d bno)) else m)"
| "pending_op d (Store bno blk) m = (case m bno of Some (raw, dirty, _) \<Rightarrow> m(bno \<mapsto> (raw, dirty, blk)) | None \<Rightarrow> m)"
| "pending_op d (Dirty bno) m = (case m bno of Some (raw, _, blk) \<Rightarrow> m(bno \<mapsto> (raw, True, blk)) | None \<Rightarrow> m)"

definition pending_run :: "(nat \<Rightarrow> apfs_block) \<Rightarrow> txn_op list \<Rightarrow> pending" where
  "pending_run d ops = fold (pending_op d) ops Map.empty"

fun committed :: "apfs_block \<Rightarrow> (bool \<times> bool \<times> apfs_block) option \<Rightarrow> apfs_block" where
  "committed old (Some (raw, True, blk)) = (if raw then blk else seal blk)"
| "committed old _ = old"

definition block_of :: "volume \<Rightarrow> nat \<Rightarrow> apfs_block" where
  "block_of v bno = vol_blocks v (block_lba bno)"

definition txn_pending :: "fs_txn \<Rightarrow> pending" where
  "txn_pending t = map_of (map (\<lambda>s. (ts_bno s, (ts_raw s, ts_dirty s, ts_buf s))) (tx_slot t))"

section \<open>Slots\<close>

lemma find_bno_Some: "find_bno ss b k = Some i \<Longrightarrow> k \<le> i \<and> i - k < length ss \<and> ts_bno (ss ! (i - k)) = b"
  by (induct ss b k rule: find_bno.induct) (auto simp: nth_Cons' split: if_splits)

lemma find_bno_slot: "find_bno ss b 0 = Some i \<Longrightarrow> i < length ss \<and> ts_bno (ss ! i) = b"
  using find_bno_Some [of ss b 0 i] by simp

lemma find_bno_None: "find_bno ss b k = None \<longleftrightarrow> b \<notin> ts_bno ` set ss"
  by (induct ss b k rule: find_bno.induct) auto

lemma map_of_list_update:
  "distinct (map fst xs) \<Longrightarrow> i < length xs \<Longrightarrow> fst p = fst (xs ! i) \<Longrightarrow> map_of (xs[i := p]) = (map_of xs)(fst p \<mapsto> snd p)"
proof (induct xs arbitrary: i)
  case (Cons x xs)
  show ?case
  proof (cases i)
    case (Suc j)
    then have "fst x \<noteq> fst p" using Cons.prems by (auto dest: nth_mem)
    then show ?thesis using Suc Cons by (auto simp: fun_upd_twist)
  qed (use Cons in auto)
qed simp

definition slots_ok :: "fs_txn \<Rightarrow> bool" where
  "slots_ok t \<longleftrightarrow> distinct (map ts_bno (tx_slot t)) \<and> length (tx_slot t) \<le> FS_TXN_MAX_BLOCKS"

lemma txn_pending_None: "txn_pending t b = None \<longleftrightarrow> find_bno (tx_slot t) b 0 = None"
  by (auto simp: txn_pending_def find_bno_None map_of_eq_None_iff image_iff)

lemma txn_pending_slot:
  assumes "slots_ok t" "find_bno (tx_slot t) b 0 = Some i"
  shows "txn_pending t b = Some (ts_raw (tx_slot t ! i), ts_dirty (tx_slot t ! i), ts_buf (tx_slot t ! i))"
proof -
  have i: "i < length (tx_slot t)" "ts_bno (tx_slot t ! i) = b" using find_bno_slot assms(2) by auto
  have "distinct (map fst (map (\<lambda>s. (ts_bno s, (ts_raw s, ts_dirty s, ts_buf s))) (tx_slot t)))"
    using assms(1) by (simp add: slots_ok_def o_def)
  then show ?thesis unfolding txn_pending_def by (rule map_of_is_SomeI) (use i in \<open>auto simp: image_iff intro!: bexI [of _ "tx_slot t ! i"]\<close>)
qed

lemma slot_update:
  assumes "slots_ok t" "find_bno (tx_slot t) b 0 = Some i" "ts_bno s = b"
  shows "slots_ok (t\<lparr>tx_slot := (tx_slot t)[i := s]\<rparr>)"
    and "txn_pending (t\<lparr>tx_slot := (tx_slot t)[i := s]\<rparr>) = (txn_pending t)(b \<mapsto> (ts_raw s, ts_dirty s, ts_buf s))"
proof -
  have i: "i < length (tx_slot t)" "ts_bno (tx_slot t ! i) = b" using find_bno_slot assms(2) by auto
  have same: "map ts_bno ((tx_slot t)[i := s]) = map ts_bno (tx_slot t)"
    using i assms(3) by (metis list_update_id map_update nth_map)
  then show "slots_ok (t\<lparr>tx_slot := (tx_slot t)[i := s]\<rparr>)" using assms(1) by (simp add: slots_ok_def)
  show "txn_pending (t\<lparr>tx_slot := (tx_slot t)[i := s]\<rparr>) = (txn_pending t)(b \<mapsto> (ts_raw s, ts_dirty s, ts_buf s))"
    unfolding txn_pending_def using i assms(1,3)
    by (simp add: map_update map_of_list_update slots_ok_def o_def)
qed

lemma slot_append:
  assumes "slots_ok t" "find_bno (tx_slot t) b 0 = None" "length (tx_slot t) < FS_TXN_MAX_BLOCKS" "ts_bno s = b"
  shows "slots_ok (t\<lparr>tx_slot := tx_slot t @ [s]\<rparr>)"
    and "txn_pending (t\<lparr>tx_slot := tx_slot t @ [s]\<rparr>) = (txn_pending t)(b \<mapsto> (ts_raw s, ts_dirty s, ts_buf s))"
proof -
  have new: "b \<notin> ts_bno ` set (tx_slot t)" using assms(2) by (simp add: find_bno_None)
  then show "slots_ok (t\<lparr>tx_slot := tx_slot t @ [s]\<rparr>)" using assms by (auto simp: slots_ok_def)
  have "map_of (map (\<lambda>s. (ts_bno s, (ts_raw s, ts_dirty s, ts_buf s))) (tx_slot t)) b = None"
    using new by (simp add: map_of_eq_None_iff image_image)
  then show "txn_pending (t\<lparr>tx_slot := tx_slot t @ [s]\<rparr>) = (txn_pending t)(b \<mapsto> (ts_raw s, ts_dirty s, ts_buf s))"
    using assms(4) by (auto simp: txn_pending_def fun_eq_iff map_add_def split: option.splits)
qed

section \<open>Building a transaction\<close>

lemma read_block_raw_simps:
  assumes "read_block_raw b v = (rv, buf, v1)"
  shows "buf = block_of v b" "vol_blocks v1 = vol_blocks v" "vol_fate v1 = vol_fate v" "vol_view v1 = vol_view v"
  using assms by (auto simp: read_block_raw_def block_of_def Let_def)

lemma fs_apfs_read_block_simps:
  assumes "(if raw then fs_apfs_read_block_raw b v else fs_apfs_read_block b v) = (rv, buf, v1)"
  shows "buf = block_of v b" "vol_blocks v1 = vol_blocks v" "vol_fate v1 = vol_fate v" "vol_view v1 = vol_view v"
proof -
  obtain r where r: "read_block_raw b v = (r, buf, v1)"
    using assms by (auto simp: fs_apfs_read_block_raw_def fs_apfs_read_block_def split: if_splits prod.splits)
  show "buf = block_of v b" "vol_blocks v1 = vol_blocks v" "vol_fate v1 = vol_fate v" "vol_view v1 = vol_view v"
    using read_block_raw_simps [OF r] by simp_all
qed

definition same_disk :: "volume \<Rightarrow> volume \<Rightarrow> bool" where
  "same_disk v v1 \<longleftrightarrow> vol_blocks v1 = vol_blocks v \<and> vol_fate v1 = vol_fate v \<and> vol_view v1 = vol_view v"

lemma txn_get_ok:
  assumes "txn_get b raw t v = (rv, p, t1, v1)" "slots_ok t"
  shows "slots_ok t1 \<and> same_disk v v1 \<and> (tx_failed t \<longrightarrow> tx_failed t1) \<and>
    (\<not> tx_failed t1 \<longrightarrow> txn_pending t1 = (if txn_pending t b = None then (txn_pending t)(b \<mapsto> (raw, False, block_of v b)) else txn_pending t))"
proof (cases "tx_failed t \<or> find_bno (tx_slot t) b 0 \<noteq> None")
  case True
  then have "v1 = v" "tx_slot t1 = tx_slot t" "tx_failed t \<longrightarrow> tx_failed t1"
    "\<not> tx_failed t1 \<longrightarrow> find_bno (tx_slot t) b 0 \<noteq> None"
    using assms(1) by (auto simp: txn_get_def fail_def split: if_splits)
  then show ?thesis using assms(2) by (simp add: slots_ok_def same_disk_def txn_pending_def [of t1] txn_pending_None) (auto simp: txn_pending_def)
next
  case False
  define v' where "v' = v\<lparr>vol_allocs := Suc (vol_allocs v)\<rparr>"
  have v': "same_disk v v'" "block_of v' b = block_of v b" by (simp_all add: v'_def same_disk_def block_of_def)
  obtain r buf v2 where rd: "(if raw then fs_apfs_read_block_raw b v' else fs_apfs_read_block b v') = (r, buf, v2)" by (metis prod_cases3)
  have v2: "same_disk v v2" "buf = block_of v b" using fs_apfs_read_block_simps [OF rd] v' by (simp_all add: same_disk_def)
  have new: "find_bno (tx_slot t) b 0 = None" "\<not> tx_failed t" using False by simp_all
  define s where "s = \<lparr>ts_bno = b, ts_buf = buf, ts_dirty = False, ts_raw = raw\<rparr>"
  have s: "ts_bno s = b" "ts_raw s = raw" "ts_dirty s = False" "ts_buf s = block_of v b" by (simp_all add: s_def v2)
  consider "t1 = fail t" "same_disk v v1" | "length (tx_slot t) < FS_TXN_MAX_BLOCKS" "t1 = t\<lparr>tx_slot := tx_slot t @ [s]\<rparr>" "v1 = v2"
    using assms(1) new v'(1) v2(1) unfolding txn_get_def
    by (auto simp: rd Let_def same_disk_def not_le simp flip: v'_def s_def split: if_splits)
  then show ?thesis
  proof cases
    case 1
    then show ?thesis using assms(2) by (simp add: fail_def slots_ok_def)
  next
    case 2
    then show ?thesis using slot_append [OF assms(2) new(1) 2(1) s(1)] s v2(1) new txn_pending_None [of t b] by simp
  qed
qed

lemma txn_op_ok:
  assumes "txn_op_run op (t, v) = (t1, v1)" "slots_ok t"
  shows "slots_ok t1 \<and> same_disk v v1 \<and> (tx_failed t \<longrightarrow> tx_failed t1) \<and>
    (\<not> tx_failed t1 \<longrightarrow> txn_pending t1 = pending_op (block_of v) op (txn_pending t))"
proof (cases op)
  case (Get b)
  then obtain rv p where "txn_get b False t v = (rv, p, t1, v1)" using assms(1) by (auto simp: fs_txn_get_def split: prod.splits)
  from txn_get_ok [OF this assms(2)] show ?thesis by (simp add: Get)
next
  case (Get_raw b)
  then obtain rv p where "txn_get b True t v = (rv, p, t1, v1)" using assms(1) by (auto simp: fs_txn_get_raw_def split: prod.splits)
  from txn_get_ok [OF this assms(2)] show ?thesis by (simp add: Get_raw)
next
  case (Store b blk)
  show ?thesis
  proof (cases "find_bno (tx_slot t) b 0")
    case None
    then show ?thesis using assms Store txn_pending_None [of t b] by (simp add: same_disk_def)
  next
    case (Some i)
    then show ?thesis using assms Store find_bno_slot [OF Some] slot_update [OF assms(2) Some] txn_pending_slot [OF assms(2) Some] by (auto simp: same_disk_def)
  qed
next
  case (Dirty b)
  show ?thesis
  proof (cases "find_bno (tx_slot t) b 0")
    case None
    then show ?thesis using assms Dirty by (auto simp: same_disk_def fs_txn_dirty_def fail_def slots_ok_def)
  next
    case (Some i)
    then show ?thesis using assms Dirty find_bno_slot [OF Some] slot_update [OF assms(2) Some] txn_pending_slot [OF assms(2) Some]
      by (auto simp: same_disk_def fs_txn_dirty_def)
  qed
qed

lemma txn_run_ok:
  assumes "txn_run ops (fs_txn_begin, v) = (t, v1)"
  shows "slots_ok t \<and> same_disk v v1 \<and> (\<not> tx_failed t \<longrightarrow> txn_pending t = pending_run (block_of v) ops)"
  using assms
proof (induct ops arbitrary: t v1 rule: rev_induct)
  case Nil
  then show ?case by (auto simp: txn_run_def fs_txn_begin_def slots_ok_def same_disk_def pending_run_def txn_pending_def)
next
  case (snoc op ops)
  obtain t0 v0 where r: "txn_run ops (fs_txn_begin, v) = (t0, v0)" by fastforce
  then have s: "txn_op_run op (t0, v0) = (t, v1)" using snoc.prems by (simp add: txn_run_def)
  have I: "slots_ok t0" "same_disk v v0" "\<not> tx_failed t0 \<Longrightarrow> txn_pending t0 = pending_run (block_of v) ops" using snoc.hyps [OF r] by auto
  have b: "block_of v0 = block_of v" using I(2) by (simp add: block_of_def same_disk_def fun_eq_iff)
  show ?case using txn_op_ok [OF s I(1)] I(2,3) b by (auto simp: pending_run_def same_disk_def)
qed

section \<open>Committing\<close>

definition MAX_BNO :: nat where "MAX_BNO = 2 ^ 61"

lemma block_lba_inj: "b < MAX_BNO \<Longrightarrow> b' < MAX_BNO \<Longrightarrow> block_lba b = block_lba b' \<longleftrightarrow> b = b'"
  by (simp add: block_lba_def APFS_SECTORS_PER_BLOCK_def MAX_BNO_def)

lemma wlog_keeps [simp]:
  "vol_blocks (wlog_note b f v) = vol_blocks v" "vol_fate (wlog_note b f v) = vol_fate v" "vol_view (wlog_note b f v) = vol_view v"
  "vol_blocks (wlog_seal_last v) = vol_blocks v" "vol_fate (wlog_seal_last v) = vol_fate v" "vol_view (wlog_seal_last v) = vol_view v"
  by (simp_all add: wlog_note_def wlog_seal_last_def Let_def)

definition slot_image :: "fs_txn_slot \<Rightarrow> apfs_block" where
  "slot_image s = (if ts_raw s then ts_buf s else seal (ts_buf s))"

lemma write_block_raw_cases:
  assumes "write_block_raw b blk v = (e, v1)"
  shows "vol_fate v1 = vol_fate v \<and> vol_view v1 = vol_view v \<and> (\<forall>l. l \<noteq> block_lba b \<longrightarrow> vol_blocks v1 l = vol_blocks v l)"
    and "e = FS_APFS_E_OK \<Longrightarrow> vol_blocks v1 (block_lba b) = blk"
    and "\<not> vol_view v \<Longrightarrow> vol_fate v = (\<lambda>_. None) \<Longrightarrow> e = FS_APFS_E_OK"
  using assms by (auto simp: write_block_raw_def view_forbids_def Let_def split: if_splits option.splits)

lemma slot_write_cases:
  assumes "slot_write s v = (e, v1)"
  shows "vol_fate v1 = vol_fate v \<and> vol_view v1 = vol_view v \<and> (\<forall>l. l \<noteq> block_lba (ts_bno s) \<longrightarrow> vol_blocks v1 l = vol_blocks v l)"
    and "e = FS_APFS_E_OK \<Longrightarrow> vol_blocks v1 (block_lba (ts_bno s)) = slot_image s"
    and "\<not> vol_view v \<Longrightarrow> vol_fate v = (\<lambda>_. None) \<Longrightarrow> e = FS_APFS_E_OK"
proof -
  obtain v2 where w: "write_block_raw (ts_bno s) (slot_image s) v = (e, v2)" and v2: "vol_fate v1 = vol_fate v2" "vol_view v1 = vol_view v2" "vol_blocks v1 = vol_blocks v2"
    using assms by (auto simp: slot_write_def slot_image_def fs_apfs_write_block_raw_def fs_apfs_write_block_def Let_def split: if_splits prod.splits)
  show "vol_fate v1 = vol_fate v \<and> vol_view v1 = vol_view v \<and> (\<forall>l. l \<noteq> block_lba (ts_bno s) \<longrightarrow> vol_blocks v1 l = vol_blocks v l)"
    "e = FS_APFS_E_OK \<Longrightarrow> vol_blocks v1 (block_lba (ts_bno s)) = slot_image s"
    "\<not> vol_view v \<Longrightarrow> vol_fate v = (\<lambda>_. None) \<Longrightarrow> e = FS_APFS_E_OK"
    using write_block_raw_cases [OF w] v2 by simp_all
qed

lemma commit_slots_keeps_failure: "rv \<noteq> FS_TXN_E_OK \<Longrightarrow> fst (commit_slots ss rv c v) \<noteq> FS_TXN_E_OK"
  by (induct ss arbitrary: rv c v) (auto split: prod.splits)

lemma commit_slots_frame:
  "commit_slots ss rv c v = (rv', c', v') \<Longrightarrow> \<forall>s\<in>set ss. ts_dirty s \<longrightarrow> block_lba (ts_bno s) \<noteq> l \<Longrightarrow> vol_blocks v' l = vol_blocks v l"
proof (induct ss arbitrary: rv c v)
  case (Cons s ss)
  obtain e v1 where w: "slot_write s v = (e, v1)" by fastforce
  show ?case
  proof (cases "ts_dirty s")
    case False
    then show ?thesis using Cons by simp
  next
    case True
    then obtain rv1 c1 where "commit_slots ss rv1 c1 v1 = (rv', c', v')" using Cons.prems(1) w by (auto split: if_splits)
    from Cons.hyps [OF this] show ?thesis using Cons.prems(2) slot_write_cases(1) [OF w] True by auto
  qed
qed simp

lemma commit_slots_writes:
  "commit_slots ss rv c v = (FS_TXN_E_OK, c', v') \<Longrightarrow> distinct (map ts_bno ss) \<Longrightarrow> \<forall>s\<in>set ss. ts_bno s < MAX_BNO \<Longrightarrow>
   s \<in> set ss \<Longrightarrow> ts_dirty s \<Longrightarrow> vol_blocks v' (block_lba (ts_bno s)) = slot_image s"
proof (induct ss arbitrary: rv c v)
  case (Cons x ss)
  obtain e v1 where w: "slot_write x v = (e, v1)" by fastforce
  show ?case
  proof (cases "ts_dirty x")
    case False
    then show ?thesis using Cons by auto
  next
    case True
    then have e: "e = FS_APFS_E_OK" using Cons.prems(1) w commit_slots_keeps_failure [of FS_TXN_E_IO ss c v1] by (auto split: if_splits)
    then obtain c1 where r: "commit_slots ss rv c1 v1 = (FS_TXN_E_OK, c', v')" using Cons.prems(1) w True by auto
    show ?thesis
    proof (cases "s = x")
      case True
      have "block_lba (ts_bno s') \<noteq> block_lba (ts_bno x)" if "s' \<in> set ss" for s'
      proof -
        have "ts_bno s' \<noteq> ts_bno x" using that Cons.prems(2) by (metis distinct.simps(2) image_eqI list.simps(9) set_map)
        then show ?thesis using that Cons.prems(3) by (subst block_lba_inj) auto
      qed
      then show ?thesis using commit_slots_frame [OF r, of "block_lba (ts_bno x)"] slot_write_cases(2) [OF w e] True by simp
    qed (use Cons.hyps [OF r] Cons.prems in auto)
  qed
qed simp

lemma commit_slots_succeeds:
  "\<not> vol_view v \<Longrightarrow> vol_fate v = (\<lambda>_. None) \<Longrightarrow> fst (commit_slots ss rv c v) = rv"
proof (induct ss arbitrary: c v)
  case (Cons s ss)
  obtain e v1 where w: "slot_write s v = (e, v1)" by fastforce
  then show ?case using slot_write_cases [OF w] Cons by auto
qed simp

lemma commit_slots_effect:
  assumes r: "commit_slots ss rv c v = (FS_TXN_E_OK, c', v')" and d: "distinct (map ts_bno ss)" and lt: "\<forall>s\<in>set ss. ts_bno s < MAX_BNO" "b < MAX_BNO"
  shows "block_of v' b = committed (block_of v b) (map_of (map (\<lambda>s. (ts_bno s, (ts_raw s, ts_dirty s, ts_buf s))) ss) b)"
proof (cases "\<exists>s\<in>set ss. ts_bno s = b")
  case True
  then obtain s where s: "s \<in> set ss" "ts_bno s = b" by blast
  have m: "map_of (map (\<lambda>s. (ts_bno s, (ts_raw s, ts_dirty s, ts_buf s))) ss) b = Some (ts_raw s, ts_dirty s, ts_buf s)"
    by (rule map_of_is_SomeI) (use d s in \<open>auto simp: o_def image_iff\<close>)
  show ?thesis
  proof (cases "ts_dirty s")
    case True
    then show ?thesis using commit_slots_writes [OF r d lt(1) s(1)] s m by (simp add: block_of_def slot_image_def)
  next
    case False
    have "block_lba (ts_bno x) \<noteq> block_lba b" if "x \<in> set ss" "ts_dirty x" for x
    proof -
      have "x \<noteq> s" using that False by auto
      then have "ts_bno x \<noteq> b" using d s that(1) by (auto simp: distinct_map inj_on_def)
      then show ?thesis using lt that block_lba_inj by auto
    qed
    then show ?thesis using commit_slots_frame [OF r, of "block_lba b"] m False by (simp add: block_of_def)
  qed
next
  case False
  then have "map_of (map (\<lambda>s. (ts_bno s, (ts_raw s, ts_dirty s, ts_buf s))) ss) b = None" by (auto simp: map_of_eq_None_iff)
  moreover have "\<forall>x\<in>set ss. ts_dirty x \<longrightarrow> block_lba (ts_bno x) \<noteq> block_lba b" using False lt block_lba_inj by auto
  ultimately show ?thesis using commit_slots_frame [OF r] by (simp add: block_of_def)
qed

section \<open>A whole transaction\<close>

fun op_bno :: "txn_op \<Rightarrow> nat" where
  "op_bno (Get b) = b" | "op_bno (Get_raw b) = b" | "op_bno (Store b _) = b" | "op_bno (Dirty b) = b"

lemma txn_get_bnos:
  assumes "txn_get b raw t v = (rv, p, t1, v1)"
  shows "ts_bno ` set (tx_slot t1) \<subseteq> insert b (ts_bno ` set (tx_slot t))"
proof -
  define v' where "v' = v\<lparr>vol_allocs := Suc (vol_allocs v)\<rparr>"
  obtain r buf v2 where rd: "(if raw then fs_apfs_read_block_raw b v' else fs_apfs_read_block b v') = (r, buf, v2)" by (metis prod_cases3)
  have "tx_slot t1 = tx_slot t \<or> (\<exists>s. tx_slot t1 = tx_slot t @ [s] \<and> ts_bno s = b)"
    using assms unfolding txn_get_def Let_def v'_def [symmetric] rd by (auto simp: fail_def split: if_splits option.splits)
  then show ?thesis by auto
qed

lemma update_bnos:
  assumes "find_bno ss b 0 = Some i" "ts_bno s = b"
  shows "ts_bno ` set (ss[i := s]) \<subseteq> ts_bno ` set ss"
proof -
  have i: "i < length ss" "ts_bno (ss ! i) = b" using find_bno_slot [OF assms(1)] by auto
  have "ts_bno ` set (ss[i := s]) \<subseteq> ts_bno ` insert s (set ss)" by (rule image_mono) (rule set_update_subset_insert)
  also have "\<dots> = ts_bno ` set ss"
  proof -
    have "b \<in> ts_bno ` set ss" using imageI [OF nth_mem [OF i(1)], of ts_bno] i(2) by simp
    then show ?thesis using assms(2) by (simp add: insert_absorb)
  qed
  finally show ?thesis .
qed

lemma txn_op_bnos:
  assumes "txn_op_run op (t, v) = (t1, v1)"
  shows "ts_bno ` set (tx_slot t1) \<subseteq> insert (op_bno op) (ts_bno ` set (tx_slot t))"
proof (cases op)
  case (Store b blk)
  show ?thesis
  proof (cases "find_bno (tx_slot t) b 0")
    case (Some i)
    then have "tx_slot t1 = (tx_slot t)[i := (tx_slot t ! i)\<lparr>ts_buf := blk\<rparr>]" using assms Store by auto
    moreover have "ts_bno ((tx_slot t ! i)\<lparr>ts_buf := blk\<rparr>) = b" using find_bno_slot [OF Some] by simp
    ultimately show ?thesis using subset_insertI2 [OF update_bnos [OF Some]] by simp
  qed (use assms Store in auto)
next
  case (Dirty b)
  show ?thesis
  proof (cases "find_bno (tx_slot t) b 0")
    case (Some i)
    then have "tx_slot t1 = (tx_slot t)[i := (tx_slot t ! i)\<lparr>ts_dirty := True\<rparr>]" using assms Dirty by (auto simp: fs_txn_dirty_def)
    moreover have "ts_bno ((tx_slot t ! i)\<lparr>ts_dirty := True\<rparr>) = b" using find_bno_slot [OF Some] by simp
    ultimately show ?thesis using subset_insertI2 [OF update_bnos [OF Some]] by simp
  qed (use assms Dirty in \<open>auto simp: fs_txn_dirty_def fail_def\<close>)
next
  case (Get b)
  then obtain rv p where "txn_get b False t v = (rv, p, t1, v1)" using assms by (auto simp: fs_txn_get_def split: prod.splits)
  from txn_get_bnos [OF this] show ?thesis by (simp only: Get op_bno.simps)
next
  case (Get_raw b)
  then obtain rv p where "txn_get b True t v = (rv, p, t1, v1)" using assms by (auto simp: fs_txn_get_raw_def split: prod.splits)
  from txn_get_bnos [OF this] show ?thesis by (simp only: Get_raw op_bno.simps)
qed

lemma txn_run_bnos:
  "txn_run ops (fs_txn_begin, v) = (t, v1) \<Longrightarrow> ts_bno ` set (tx_slot t) \<subseteq> op_bno ` set ops"
proof (induct ops arbitrary: t v1 rule: rev_induct)
  case Nil
  then show ?case by (auto simp: txn_run_def fs_txn_begin_def)
next
  case (snoc op ops)
  obtain t0 v0 where r: "txn_run ops (fs_txn_begin, v) = (t0, v0)" by fastforce
  then have s: "txn_op_run op (t0, v0) = (t, v1)" using snoc.prems by (simp add: txn_run_def)
  have "ts_bno ` set (tx_slot t) \<subseteq> insert (op_bno op) (ts_bno ` set (tx_slot t0))" by (rule txn_op_bnos [OF s])
  also have "\<dots> \<subseteq> insert (op_bno op) (op_bno ` set ops)" by (rule insert_mono) (rule snoc.hyps [OF r])
  also have "\<dots> = op_bno ` set (ops @ [op])" by simp
  finally show ?case .
qed

lemma pending_run_dirty: "pending_run d ops b = Some (raw, True, blk) \<Longrightarrow> Dirty b \<in> set ops"
proof (induct ops arbitrary: raw blk rule: rev_induct)
  case Nil
  then show ?case by (simp add: pending_run_def)
next
  case (snoc op ops)
  have "pending_op d op (pending_run d ops) b = Some (raw, True, blk)" using snoc.prems by (simp add: pending_run_def)
  then have "op = Dirty b \<or> (\<exists>raw' blk'. pending_run d ops b = Some (raw', True, blk'))"
    by (cases op) (auto split: if_splits option.splits)
  then show ?case using snoc.hyps by auto
qed

lemma slot_pending: "slots_ok t \<Longrightarrow> s \<in> set (tx_slot t) \<Longrightarrow> txn_pending t (ts_bno s) = Some (ts_raw s, ts_dirty s, ts_buf s)"
  unfolding txn_pending_def by (rule map_of_is_SomeI) (auto simp: slots_ok_def o_def image_iff)

text \<open>C13. Nothing a caller does to a transaction before the commit touches the volume. The commit of a transaction in which any call failed changes
  nothing and reports it. A commit that succeeds has stored, for every block marked dirty, its last contents, sealed unless the block is raw, and left every
  other block as it was; blocks not marked are unchanged even if a write fails; and with no disk error and no view entered it does succeed. A
  transaction never holds more than twelve blocks.\<close>

theorem fs_txn_refines:
  assumes run: "txn_run ops (fs_txn_begin, v) = (t, v1)" and lt: "\<forall>op\<in>set ops. op_bno op < MAX_BNO"
    and commit: "fs_txn_commit t c v1 = (rv, t', c', v2)"
  shows "vol_blocks v1 = vol_blocks v \<and> length (tx_slot t) \<le> FS_TXN_MAX_BLOCKS \<and> tx_slot t' = [] \<and>
    (tx_failed t \<longrightarrow> rv = FS_TXN_E_IO \<and> vol_blocks v2 = vol_blocks v) \<and>
    (rv = FS_TXN_E_OK \<longrightarrow> (\<forall>b<MAX_BNO. block_of v2 b = committed (block_of v b) (pending_run (block_of v) ops b))) \<and>
    (\<forall>b<MAX_BNO. Dirty b \<notin> set ops \<longrightarrow> block_of v2 b = block_of v b) \<and>
    (\<not> tx_failed t \<and> \<not> vol_view v \<and> vol_fate v = (\<lambda>_. None) \<longrightarrow> rv = FS_TXN_E_OK)"
proof (cases "tx_failed t")
  case True
  then show ?thesis using txn_run_ok [OF run] commit by (auto simp: fs_txn_commit_def release_def slots_ok_def same_disk_def block_of_def)
next
  case False
  have ok: "slots_ok t" "same_disk v v1" "txn_pending t = pending_run (block_of v) ops" using txn_run_ok [OF run] False by auto
  have bnos: "\<forall>s\<in>set (tx_slot t). ts_bno s < MAX_BNO" using txn_run_bnos [OF run] lt by (metis imageE image_eqI subsetD)
  have d: "distinct (map ts_bno (tx_slot t))" using ok(1) by (simp add: slots_ok_def)
  have same: "block_of v1 = block_of v" using ok(2) by (simp add: same_disk_def block_of_def fun_eq_iff)
  obtain c1 where r: "commit_slots (tx_slot t) FS_TXN_E_OK c v1 = (rv, c1, v2)" and t': "t' = release t"
    using commit False by (auto simp: fs_txn_commit_def split: prod.splits)
  have 1: "block_of v2 b = committed (block_of v b) (pending_run (block_of v) ops b)" if "rv = FS_TXN_E_OK" "b < MAX_BNO" for b
    using commit_slots_effect [OF r [unfolded that(1)] d bnos that(2)] ok(3) same by (simp add: txn_pending_def)
  have 2: "block_of v2 b = block_of v b" if b: "b < MAX_BNO" "Dirty b \<notin> set ops" for b
  proof -
    have "block_lba (ts_bno s) \<noteq> block_lba b" if s: "s \<in> set (tx_slot t)" "ts_dirty s" for s
      using slot_pending [OF ok(1) s(1)] s b bnos ok(3) pending_run_dirty by (subst block_lba_inj) auto
    then show ?thesis using commit_slots_frame [OF r, of "block_lba b"] same by (simp add: block_of_def fun_eq_iff)
  qed
  have 3: "rv = FS_TXN_E_OK" if "\<not> vol_view v" "vol_fate v = (\<lambda>_. None)"
    using commit_slots_succeeds [of v1 "tx_slot t" FS_TXN_E_OK c] that ok(2) r by (simp add: same_disk_def)
  show ?thesis using ok(1,2) False 1 2 3 t' by (simp add: slots_ok_def same_disk_def release_def)
qed

text \<open>A volume of sealed blocks, and a transaction on two of them.\<close>

definition txn_ex_blk :: apfs_block where
  "txn_ex_blk = replicate block_words 7"

definition txn_ex_vol :: volume where
  "txn_ex_vol = \<lparr>vol_blocks = \<lambda>_. seal txn_ex_blk, vol_fate = \<lambda>_. None, vol_cmds = 0, vol_kmem = \<lambda>_. True, vol_allocs = 0, vol_view = False,
     view_n_forbid = 0, wlog = replicate WLOG_N \<lparr>w_bno = 0, w_seq = 0, w_sealed = False\<rparr>, wlog_next = 0, wlog_seq = 0\<rparr>"

definition txn_ex_ops :: "txn_op list" where
  "txn_ex_ops = [Get 3, Get_raw 5, Store 3 txn_ex_blk, Dirty 3, Get 3, Store 5 txn_ex_blk]"

definition txn_ex_counts :: txn_counts where
  "txn_ex_counts = \<lparr>txn_n_commit = 0, txn_n_blocks = 0, txn_n_abort = 0\<rparr>"

lemma txn_ex_read: "fs_apfs_read_block b (txn_ex_vol\<lparr>vol_cmds := m, vol_allocs := n\<rparr>) = (FS_APFS_E_OK, seal txn_ex_blk, txn_ex_vol\<lparr>vol_cmds := Suc m, vol_allocs := n\<rparr>)"
  by (simp add: fs_apfs_read_block_def read_block_raw_def txn_ex_vol_def seal_verifies Let_def)

lemma txn_ex_run:
  "txn_run txn_ex_ops (fs_txn_begin, txn_ex_vol) =
     (\<lparr>tx_slot = [\<lparr>ts_bno = 3, ts_buf = txn_ex_blk, ts_dirty = True, ts_raw = False\<rparr>, \<lparr>ts_bno = 5, ts_buf = txn_ex_blk, ts_dirty = False, ts_raw = True\<rparr>],
       tx_failed = False\<rparr>, txn_ex_vol\<lparr>vol_cmds := 2, vol_allocs := 2\<rparr>)"
proof -
  have v: "txn_ex_vol\<lparr>vol_allocs := Suc 0\<rparr> = txn_ex_vol\<lparr>vol_cmds := 0, vol_allocs := 1\<rparr>" by (simp add: txn_ex_vol_def)
  have f: "vol_kmem txn_ex_vol n" "vol_allocs txn_ex_vol = 0" "vol_fate txn_ex_vol n = None" "vol_blocks txn_ex_vol l = seal txn_ex_blk" for n l by (simp_all add: txn_ex_vol_def)
  show ?thesis
    by (simp add: txn_run_def txn_ex_ops_def fs_txn_get_def fs_txn_get_raw_def txn_get_def fs_txn_begin_def FS_TXN_MAX_BLOCKS_def v f txn_ex_read
        fs_apfs_read_block_raw_def read_block_raw_def fs_txn_dirty_def)
qed

theorem fs_txn_refines_witness:
  "\<exists>t v1 rv t' c' v2. txn_run txn_ex_ops (fs_txn_begin, txn_ex_vol) = (t, v1) \<and> (\<forall>op\<in>set txn_ex_ops. op_bno op < MAX_BNO) \<and>
     fs_txn_commit t txn_ex_counts v1 = (rv, t', c', v2) \<and> \<not> tx_failed t \<and> rv = FS_TXN_E_OK \<and>
     block_of v2 3 = seal txn_ex_blk \<and> block_of v2 5 = block_of txn_ex_vol 5"
proof -
  obtain t v1 where r: "txn_run txn_ex_ops (fs_txn_begin, txn_ex_vol) = (t, v1)" by fastforce
  obtain rv t' c' v2 where c: "fs_txn_commit t txn_ex_counts v1 = (rv, t', c', v2)" by (metis prod_cases4)
  have lt: "\<forall>op\<in>set txn_ex_ops. op_bno op < MAX_BNO" by (simp add: txn_ex_ops_def MAX_BNO_def)
  have f: "\<not> tx_failed t" using r txn_ex_run by auto
  have e: "\<not> vol_view txn_ex_vol" "vol_fate txn_ex_vol = (\<lambda>_. None)" by (simp_all add: txn_ex_vol_def)
  note R = fs_txn_refines [OF r lt c]
  have rv: "rv = FS_TXN_E_OK" using R f e by blast
  have m: "(3::nat) < MAX_BNO" "(5::nat) < MAX_BNO" by (simp_all add: MAX_BNO_def)
  have p: "pending_run (block_of txn_ex_vol) txn_ex_ops 3 = Some (False, True, txn_ex_blk)" by (simp add: pending_run_def txn_ex_ops_def)
  have "block_of v2 3 = seal txn_ex_blk" using R rv m p by simp
  moreover have "block_of v2 5 = block_of txn_ex_vol 5" using R m(2) by (simp add: txn_ex_ops_def)
  ultimately show ?thesis using r lt c f rv by blast
qed

section \<open>Reading back\<close>

lemma seal_nth:
  assumes "2 \<le> i" "i < length blk"
  shows "seal blk ! i = blk ! i"
proof -
  obtain j where "i = Suc (Suc j)" using assms(1) by (metis add_2_eq_Suc le_iff_add)
  then show ?thesis using assms(2) by (simp add: seal_def split: prod.splits)
qed

lemma damaged_cksum:
  assumes len: "2 \<le> length blk" and i: "i < length blk"
  shows "block_cksum ((seal blk)[i := w]) = o_cksum ((seal blk)[i := w]) \<longleftrightarrow> w = seal blk ! i \<or> (2 \<le> i \<and> {w, seal blk ! i} = {0, 0xFFFFFFFF})"
proof (cases "i < 2")
  case True
  have "block_cksum ((seal blk)[i := w]) = block_cksum (seal blk)" using True by (simp add: block_cksum_def drop_update_cancel)
  moreover have "o_cksum ((seal blk)[i := w]) = o_cksum (seal blk) \<longleftrightarrow> w = seal blk ! i"
    using True len i seal_length [OF len] by (auto simp: o_cksum_def nth_list_update less_2_cases_iff)
  ultimately show ?thesis using True seal_verifies [of blk] by auto
next
  case False
  have "o_cksum ((seal blk)[i := w]) = o_cksum (seal blk)" using False by (auto simp: o_cksum_def)
  moreover have "block_cksum ((seal blk)[i := w]) = fs_apfs_fletcher64 ((drop 2 (seal blk))[i - 2 := w])"
    using False by (simp add: block_cksum_def drop_update_swap)
  moreover have "i - 2 < length (drop 2 (seal blk))" "drop 2 (seal blk) ! (i - 2) = seal blk ! i" using False i seal_length [OF len] by (simp_all del: add_2_eq_Suc)
  ultimately show ?thesis using fletcher64_detects [of "i - 2" "drop 2 (seal blk)" w] False seal_verifies [of blk] by (simp add: block_cksum_def)
qed

text \<open>C14. A block written by \<open>fs_apfs_write_block\<close> reads back with its body unchanged. If one of its 1024 words is then damaged, the
  read fails, except that the sum does not tell a body word 0 from 0xFFFFFFFF.\<close>

theorem apfs_block_read_back:
  assumes len: "length buf = block_words" and wr: "fs_apfs_write_block b buf v = (FS_APFS_E_OK, buf', v1)"
    and fate: "vol_fate v1 (vol_cmds v1) = None" and i: "i < block_words"
    and bad: "bad = v1\<lparr>vol_blocks := (vol_blocks v1)(block_lba b := (vol_blocks v1 (block_lba b))[i := w])\<rparr>"
  shows "fs_apfs_read_block b v1 = (FS_APFS_E_OK, buf', v1\<lparr>vol_cmds := Suc (vol_cmds v1)\<rparr>) \<and> length buf' = block_words \<and> drop 2 buf' = drop 2 buf \<and>
    (fst (fs_apfs_read_block b bad) = FS_APFS_E_OK \<longleftrightarrow> w = buf' ! i \<or> (2 \<le> i \<and> {w, buf' ! i} = {0, 0xFFFFFFFF}))"
proof -
  obtain v2 where w: "write_block_raw b (seal buf) v = (FS_APFS_E_OK, v2)" and v1: "v1 = wlog_seal_last v2" and buf': "buf' = seal buf"
    using wr by (auto simp: fs_apfs_write_block_def Let_def split: prod.splits if_splits)
  have stored: "vol_blocks v1 (block_lba b) = seal buf" using write_block_raw_cases(2) [OF w] v1 by simp
  have l: "2 \<le> length buf" "i < length buf" using len i by (simp_all add: block_words_def APFS_BLOCK_SIZE_def)
  show ?thesis using damaged_cksum [OF l] seal_verifies [of buf] seal_length [OF l(1)] stored fate len
    by (simp add: fs_apfs_read_block_def read_block_raw_def Let_def bad buf') (simp add: seal_def split: prod.splits)
qed

theorem apfs_block_read_back_witness:
  "\<exists>buf' v1 bad. fs_apfs_write_block 9 txn_ex_blk txn_ex_vol = (FS_APFS_E_OK, buf', v1) \<and> vol_fate v1 (vol_cmds v1) = None \<and>
     bad = v1\<lparr>vol_blocks := (vol_blocks v1)(block_lba 9 := (vol_blocks v1 (block_lba 9))[100 := 8])\<rparr> \<and>
     fst (fs_apfs_read_block 9 v1) = FS_APFS_E_OK \<and> fst (fs_apfs_read_block 9 bad) \<noteq> FS_APFS_E_OK"
proof -
  obtain buf' v1 where w: "fs_apfs_write_block 9 txn_ex_blk txn_ex_vol = (FS_APFS_E_OK, buf', v1)" and f: "vol_fate v1 (vol_cmds v1) = None" and b: "buf' = seal txn_ex_blk"
    by (simp add: fs_apfs_write_block_def write_block_raw_def view_forbids_def txn_ex_vol_def Let_def wlog_note_def wlog_seal_last_def)
  have len: "length txn_ex_blk = block_words" and i: "(100::nat) < block_words" by (simp_all add: txn_ex_blk_def block_words_def APFS_BLOCK_SIZE_def)
  have n: "buf' ! 100 = 7" using i by (simp add: b seal_nth len txn_ex_blk_def)
  define bad where "bad = v1\<lparr>vol_blocks := (vol_blocks v1)(block_lba 9 := (vol_blocks v1 (block_lba 9))[100 := 8])\<rparr>"
  show ?thesis using apfs_block_read_back [OF len w f i bad_def] w f n bad_def by (auto simp: doubleton_eq_iff)
qed

end
