(* ===== verification/Mutex.thy ===== *)
theory Mutex
  imports Kern_Prelude
begin

text \<open>
  The sleeping mutex (src/kern/mutex.c) with the part of the scheduler it rests on: parking and waking a thread (block_release, thread_wake
  in src/kern/sched.c) and leaving a waiter list on exit (src/kern/thread.c). The waiter list is the linked list of the code. What runs under the guard
  of the mutex, from where it is taken to where it is dropped, is one step; the wake of an unlock comes outside it, and a parked thread that was woken takes
  the guard again. \<open>mutex_step\<close> interleaves any number of threads that lock, try, unlock, are woken from elsewhere and are killed. Which processor runs a
  thread is left open: any thread that is ready or running may take the next step. A thread calls \<open>mutex_lock\<close> with preemption enabled.
\<close>

section \<open>Threads and the mutex\<close>

datatype thread_state = THREAD_INIT | THREAD_READY | THREAD_RUNNING | THREAD_BLOCKED | THREAD_ZOMBIE

text \<open>The fields of \<open>struct thread\<close> that waiting uses. \<open>th_wait_qlock\<close> says whether the thread is noted on the list of the mutex;
  \<open>t_killed\<close> is the flag of its task.\<close>

record thread =
  th_state :: thread_state
  th_wait_link :: "nat option"
  th_wait_qlock :: bool
  th_wake_hold :: nat
  th_wake_pending :: bool
  th_mutex_depth :: nat
  t_killed :: bool

text \<open>The mutex, with the threads that use it and the two counters of the file.\<close>

record mutex =
  mtx_owner :: "nat option"
  mtx_waiters_head :: "nat option"
  mtx_waiters_tail :: "nat option"
  threads :: "nat \<Rightarrow> thread"
  mutex_n_acquire :: nat
  mutex_n_slept :: nat

definition set_thread :: "nat \<Rightarrow> thread \<Rightarrow> mutex \<Rightarrow> mutex" where
  "set_thread t th m = m\<lparr>threads := (threads m)(t := th)\<rparr>"

section \<open>The list of waiters\<close>

definition waiter_push :: "nat \<Rightarrow> mutex \<Rightarrow> mutex" where
  "waiter_push t m =
     (let m1 = set_thread t ((threads m t)\<lparr>th_wait_link := None\<rparr>) m;
          m2 = (case mtx_waiters_tail m1 of
                  Some p \<Rightarrow> set_thread p ((threads m1 p)\<lparr>th_wait_link := Some t\<rparr>) m1
                | None \<Rightarrow> m1\<lparr>mtx_waiters_head := Some t\<rparr>)
      in m2\<lparr>mtx_waiters_tail := Some t\<rparr>)"

definition waiter_pop :: "mutex \<Rightarrow> nat option \<times> mutex" where
  "waiter_pop m =
     (case mtx_waiters_head m of
        None \<Rightarrow> (None, m)
      | Some t \<Rightarrow>
          (let m1 = m\<lparr>mtx_waiters_head := th_wait_link (threads m t)\<rparr>;
               m2 = (if mtx_waiters_head m1 = None then m1\<lparr>mtx_waiters_tail := None\<rparr> else m1)
           in (Some t, set_thread t ((threads m2 t)\<lparr>th_wait_link := None\<rparr>) m2)))"

text \<open>\<open>*pp\<close> is the head of the list if there is no previous thread, and the link of the previous thread otherwise.\<close>

definition set_link :: "nat option \<Rightarrow> nat option \<Rightarrow> mutex \<Rightarrow> mutex" where
  "set_link prev v m =
     (case prev of
        None \<Rightarrow> m\<lparr>mtx_waiters_head := v\<rparr>
      | Some p \<Rightarrow> set_thread p ((threads m p)\<lparr>th_wait_link := v\<rparr>) m)"

text \<open>The walk over the list; on a list that ran in a circle it would not end.\<close>

partial_function (option) unbind_loop :: "nat \<Rightarrow> nat option \<Rightarrow> nat option \<Rightarrow> mutex \<Rightarrow> mutex option" where
  "unbind_loop t prev cur m =
     (case cur of
        None \<Rightarrow> Some m
      | Some c \<Rightarrow>
          if c = t
          then (let m1 = set_link prev (th_wait_link (threads m t)) m;
                    m2 = (if mtx_waiters_tail m1 = Some t then m1\<lparr>mtx_waiters_tail := prev\<rparr> else m1)
                in Some (set_thread t ((threads m2 t)\<lparr>th_wait_link := None\<rparr>) m2))
          else unbind_loop t (Some c) (th_wait_link (threads m c)) m)"

definition waiter_unbind :: "nat \<Rightarrow> mutex \<Rightarrow> mutex option" where
  "waiter_unbind t m = unbind_loop t None (mtx_waiters_head m) m"

definition thread_wait_note :: "nat \<Rightarrow> mutex \<Rightarrow> mutex kres" where
  "thread_wait_note t m =
     KASSERT (\<not> th_wait_qlock (threads m t)) ''thread_wait_note: still noted on another list''
       (Ret (set_thread t ((threads m t)\<lparr>th_wait_qlock := True\<rparr>) m))"

definition thread_wait_forget :: "nat \<Rightarrow> mutex \<Rightarrow> mutex" where
  "thread_wait_forget t m = set_thread t ((threads m t)\<lparr>th_wait_qlock := False\<rparr>) m"

definition thread_wait_unbind_locked :: "nat \<Rightarrow> mutex \<Rightarrow> mutex kres option" where
  "thread_wait_unbind_locked t m =
     (if \<not> th_wait_qlock (threads m t) then Some (Panic ''thread_wait_unbind_locked: nothing noted'')
      else map_option (\<lambda>m1. Ret (thread_wait_forget t m1)) (unbind_loop t None (mtx_waiters_head m) m))"

section \<open>Parking and waking\<close>

definition kill_due :: "nat \<Rightarrow> mutex \<Rightarrow> bool" where
  "kill_due t m \<longleftrightarrow> th_mutex_depth (threads m t) = 0 \<and> t_killed (threads m t)"

datatype lock_outcome = Acquired | Parked_now | Declined | Killed

text \<open>\<open>block_release\<close> up to the switch: the guard of the mutex is dropped when it returns.\<close>

definition block_release :: "nat \<Rightarrow> mutex \<Rightarrow> (lock_outcome \<times> mutex) kres option" where
  "block_release t m =
     (if kill_due t m
      then (if th_wait_qlock (threads m t)
            then map_option (\<lambda>r. kbind r (\<lambda>m1. Ret (Killed, m1))) (thread_wait_unbind_locked t m)
            else Some (Ret (Killed, m)))
      else if th_wake_pending (threads m t)
      then Some (Ret (Declined, set_thread t ((threads m t)\<lparr>th_wake_pending := False\<rparr>) m))
      else Some (Ret (Parked_now, set_thread t ((threads m t)\<lparr>th_state := THREAD_BLOCKED\<rparr>) m)))"

text \<open>What it does once the thread has been switched to again: \<open>False\<close> if the thread is to exit.\<close>

definition block_resumed :: "nat \<Rightarrow> mutex \<Rightarrow> bool \<times> mutex" where
  "block_resumed t m = (\<not> kill_due t m, set_thread t ((threads m t)\<lparr>th_state := THREAD_RUNNING\<rparr>) m)"

definition thread_wake :: "nat \<Rightarrow> mutex \<Rightarrow> mutex" where
  "thread_wake t m =
     (let th = threads m t
      in if th_state th \<noteq> THREAD_BLOCKED
         then (if th_state th = THREAD_READY \<or> th_state th = THREAD_RUNNING
               then set_thread t (th\<lparr>th_wake_pending := True\<rparr>) m else m)
         else set_thread t (th\<lparr>th_wake_pending := False, th_state := THREAD_READY\<rparr>) m)"

definition thread_hold :: "nat \<Rightarrow> mutex \<Rightarrow> mutex" where
  "thread_hold t m = set_thread t ((threads m t)\<lparr>th_wake_hold := th_wake_hold (threads m t) + 1\<rparr>) m"

definition thread_unhold :: "nat \<Rightarrow> mutex \<Rightarrow> mutex kres" where
  "thread_unhold t m =
     KASSERT (th_wake_hold (threads m t) \<noteq> 0) ''thread_unhold: releasing a hold never taken''
       (Ret (set_thread t ((threads m t)\<lparr>th_wake_hold := th_wake_hold (threads m t) - 1\<rparr>) m))"

definition thread_exit :: "nat \<Rightarrow> mutex \<Rightarrow> mutex kres option" where
  "thread_exit t m =
     (if th_mutex_depth (threads m t) \<noteq> 0 then Some (Panic ''thread_exit: dying with a mutex still held'')
      else map_option (\<lambda>r. kbind r (\<lambda>m1. Ret (set_thread t ((threads m1 t)\<lparr>th_state := THREAD_ZOMBIE\<rparr>) m1)))
             (if th_wait_qlock (threads m t) then thread_wait_unbind_locked t m else Some (Ret m)))"

section \<open>Locking and unlocking\<close>

definition mutex_take :: "nat \<Rightarrow> mutex \<Rightarrow> mutex" where
  "mutex_take t m =
     set_thread t ((threads m t)\<lparr>th_mutex_depth := th_mutex_depth (threads m t) + 1\<rparr>) (m\<lparr>mtx_owner := Some t\<rparr>)"

text \<open>The loop of \<open>mutex_lock\<close> from its test, with the guard held, to where it drops the guard.\<close>

definition mutex_lock :: "nat \<Rightarrow> mutex \<Rightarrow> (lock_outcome \<times> mutex) kres option" where
  "mutex_lock t m =
     (if mtx_owner m = None
      then (let m1 = mutex_take t m in Some (Ret (Acquired, m1\<lparr>mutex_n_acquire := add64 (mutex_n_acquire m1) 1\<rparr>)))
      else if mtx_owner m = Some t then Some (Panic ''recursive mutex_lock'')
      else case thread_wait_note t (waiter_push t (m\<lparr>mutex_n_slept := add64 (mutex_n_slept m) 1\<rparr>)) of
             Panic e \<Rightarrow> Some (Panic e)
           | Ret m1 \<Rightarrow> block_release t m1)"

text \<open>A thread that was parked, or declined to park, takes the guard again, leaves the list and goes round.\<close>

definition mutex_lock_again :: "nat \<Rightarrow> mutex \<Rightarrow> (lock_outcome \<times> mutex) kres option" where
  "mutex_lock_again t m = Option.bind (waiter_unbind t m) (\<lambda>m1. mutex_lock t (thread_wait_forget t m1))"

definition mutex_trylock :: "nat \<Rightarrow> mutex \<Rightarrow> bool \<times> mutex" where
  "mutex_trylock t m = (let got = (mtx_owner m = None) in (got, if got then mutex_take t m else m))"

definition mutex_unlock :: "nat \<Rightarrow> mutex \<Rightarrow> (nat option \<times> mutex) kres" where
  "mutex_unlock t m =
     KASSERT (mtx_owner m = Some t) ''mutex_unlock by a thread that does not hold it''
     (KASSERT (th_mutex_depth (threads m t) > 0) ''mutex_unlock: the held-mutex count is already zero''
      (case waiter_pop (set_thread t ((threads m t)\<lparr>th_mutex_depth := th_mutex_depth (threads m t) - 1\<rparr>) (m\<lparr>mtx_owner := None\<rparr>)) of
         (None, m1) \<Rightarrow> Ret (None, m1)
       | (Some w, m1) \<Rightarrow> Ret (Some w, thread_hold w m1)))"

text \<open>The wake of \<open>mutex_unlock\<close>, outside the guard.\<close>

definition mutex_unlock_wake :: "nat \<Rightarrow> mutex \<Rightarrow> mutex kres" where
  "mutex_unlock_wake w m = thread_unhold w (thread_wake w m)"

section \<open>Threads that use the mutex\<close>

datatype mutex_pc = Outside | Entering | Parked | Rechecking | Holding | Waking nat | Exiting | Gone

text \<open>\<open>calls\<close> is how many more calls each thread will make; \<open>strays\<close> and \<open>kills\<close> how many more wakes come from elsewhere and how many tasks
  are still to be killed.\<close>

record mutex_sys =
  sy_mtx :: mutex
  mx_pc :: "nat \<Rightarrow> mutex_pc"
  calls :: "nat \<Rightarrow> nat"
  strays :: nat
  kills :: nat

fun after_lock :: "lock_outcome \<Rightarrow> mutex_pc" where
  "after_lock Acquired = Holding"
| "after_lock Parked_now = Parked"
| "after_lock Declined = Rechecking"
| "after_lock Killed = Exiting"

definition goes :: "nat \<Rightarrow> mutex_pc \<Rightarrow> mutex \<Rightarrow> mutex_sys \<Rightarrow> mutex_sys" where
  "goes t p m s = s\<lparr>sy_mtx := m, mx_pc := (mx_pc s)(t := p)\<rparr>"

definition one_call :: "nat \<Rightarrow> mutex_sys \<Rightarrow> mutex_sys" where
  "one_call t s = s\<lparr>calls := (calls s)(t := calls s t - 1)\<rparr>"

inductive mutex_step :: "nat \<Rightarrow> mutex_sys \<Rightarrow> mutex_sys \<Rightarrow> bool" for n where
  enter: "\<lbrakk>t < n; mx_pc s t = Outside; 0 < calls s t\<rbrakk> \<Longrightarrow> mutex_step n s (goes t Entering (sy_mtx s) (one_call t s))"
| lock: "\<lbrakk>t < n; mx_pc s t = Entering; mutex_lock t (sy_mtx s) = Some (Ret (r, m))\<rbrakk> \<Longrightarrow> mutex_step n s (goes t (after_lock r) m s)"
| resume: "\<lbrakk>t < n; mx_pc s t = Parked; th_state (threads (sy_mtx s) t) = THREAD_READY; block_resumed t (sy_mtx s) = (stay, m)\<rbrakk> \<Longrightarrow>
     mutex_step n s (goes t (if stay then Rechecking else Exiting) m s)"
| again: "\<lbrakk>t < n; mx_pc s t = Rechecking; mutex_lock_again t (sy_mtx s) = Some (Ret (r, m))\<rbrakk> \<Longrightarrow> mutex_step n s (goes t (after_lock r) m s)"
| trylock: "\<lbrakk>t < n; mx_pc s t = Outside; 0 < calls s t; mutex_trylock t (sy_mtx s) = (got, m)\<rbrakk> \<Longrightarrow>
     mutex_step n s (goes t (if got then Holding else Outside) m (one_call t s))"
| unlock: "\<lbrakk>t < n; mx_pc s t = Holding; mutex_unlock t (sy_mtx s) = Ret (w, m)\<rbrakk> \<Longrightarrow>
     mutex_step n s (goes t (case w of None \<Rightarrow> Outside | Some u \<Rightarrow> Waking u) m s)"
| wake: "\<lbrakk>t < n; mx_pc s t = Waking w; mutex_unlock_wake w (sy_mtx s) = Ret m\<rbrakk> \<Longrightarrow> mutex_step n s (goes t Outside m s)"
| retire: "\<lbrakk>t < n; mx_pc s t = Outside; kill_due t (sy_mtx s)\<rbrakk> \<Longrightarrow> mutex_step n s (goes t Exiting (sy_mtx s) s)"
| exit: "\<lbrakk>t < n; mx_pc s t = Exiting; thread_exit t (sy_mtx s) = Some (Ret m)\<rbrakk> \<Longrightarrow> mutex_step n s (goes t Gone m s)"
| stray: "\<lbrakk>t < n; 0 < strays s\<rbrakk> \<Longrightarrow> mutex_step n s (s\<lparr>sy_mtx := thread_wake t (sy_mtx s), strays := strays s - 1\<rparr>)"
| kill: "\<lbrakk>t < n; 0 < kills s\<rbrakk> \<Longrightarrow>
     mutex_step n s (s\<lparr>sy_mtx := set_thread t ((threads (sy_mtx s) t)\<lparr>t_killed := True\<rparr>) (sy_mtx s), kills := kills s - 1\<rparr>)"

text \<open>After \<open>mutex_init\<close>: \<open>d t\<close> is the number of other mutexes thread \<open>t\<close> holds.\<close>

definition mutex_init :: "(nat \<Rightarrow> nat) \<Rightarrow> mutex" where
  "mutex_init d =
     \<lparr>mtx_owner = None, mtx_waiters_head = None, mtx_waiters_tail = None,
      threads = (\<lambda>t. \<lparr>th_state = THREAD_RUNNING, th_wait_link = None, th_wait_qlock = False, th_wake_hold = 0, th_wake_pending = False,
                      th_mutex_depth = d t, t_killed = False\<rparr>),
      mutex_n_acquire = 0, mutex_n_slept = 0\<rparr>"

definition mutex_start :: "(nat \<Rightarrow> nat) \<Rightarrow> (nat \<Rightarrow> nat) \<Rightarrow> nat \<Rightarrow> nat \<Rightarrow> mutex_sys" where
  "mutex_start d cs ss ks = \<lparr>sy_mtx = mutex_init d, mx_pc = (\<lambda>_. Outside), calls = cs, strays = ss, kills = ks\<rparr>"

end
