(* ===== verification/Mutex_Inv.thy ===== *)
theory Mutex_Inv
  imports Mutex
begin

text \<open>
  The invariant of the mutex. The linked list is the list of the waiting threads in order (\<open>waiters\<close>); the owner is the one thread that holds the mutex;
  a blocked waiter is on the list or about to be woken; and as long as no thread is killed, a mutex that is free while threads wait has one of them on
  its way to it (\<open>baton\<close>). Every step keeps it, and without kills every step lowers \<open>sys_weight\<close>.
\<close>

section \<open>The list of waiters as a list\<close>

fun wseg :: "(nat \<Rightarrow> thread) \<Rightarrow> nat option \<Rightarrow> nat list \<Rightarrow> nat option \<Rightarrow> bool" where
  "wseg f h [] k \<longleftrightarrow> h = k"
| "wseg f h (x # xs) k \<longleftrightarrow> h = Some x \<and> wseg f (th_wait_link (f x)) xs k"

lemma wseg_append: "wseg f h (xs @ ys) k \<longleftrightarrow> (\<exists>j. wseg f h xs j \<and> wseg f j ys k)"
  by (induct xs arbitrary: h) auto

lemma wseg_cong: "\<forall>x \<in> set xs. th_wait_link (g x) = th_wait_link (f x) \<Longrightarrow> wseg g h xs k = wseg f h xs k"
  by (induct xs arbitrary: h) auto

lemma wseg_keep: "wseg f h xs k \<Longrightarrow> (\<And>x. x \<in> set xs \<Longrightarrow> th_wait_link (g x) = th_wait_link (f x)) \<Longrightarrow> wseg g h xs k"
  using wseg_cong by blast

definition last_opt :: "'a list \<Rightarrow> 'a option" where
  "last_opt xs = (if xs = [] then None else Some (last xs))"

lemma last_opt_snoc [simp]: "last_opt (xs @ [x]) = Some x" "last_opt [] = None"
  by (simp_all add: last_opt_def)

lemma last_opt_in: "last_opt xs = Some x \<Longrightarrow> x \<in> set xs"
  by (auto simp: last_opt_def split: if_splits)

definition waiters :: "mutex \<Rightarrow> nat list \<Rightarrow> bool" where
  "waiters m ws \<longleftrightarrow> wseg (threads m) (mtx_waiters_head m) ws None \<and> mtx_waiters_tail m = last_opt ws \<and> distinct ws"

text \<open>Only links, the head and the tail differ.\<close>

definition same_but_links :: "mutex \<Rightarrow> mutex \<Rightarrow> bool" where
  "same_but_links m m' \<longleftrightarrow> mtx_owner m' = mtx_owner m \<and>
     (\<forall>t. (threads m' t)\<lparr>th_wait_link := None\<rparr> = (threads m t)\<lparr>th_wait_link := None\<rparr>)"

lemma thread_update_inject:
  "x\<lparr>th_wait_link := None\<rparr> = y\<lparr>th_wait_link := None\<rparr> \<longleftrightarrow>
     th_state x = th_state y \<and> th_wait_qlock x = th_wait_qlock y \<and> th_wake_hold x = th_wake_hold y \<and> th_wake_pending x = th_wake_pending y \<and>
     th_mutex_depth x = th_mutex_depth y \<and> t_killed x = t_killed y" for x y :: thread
  by (cases x; cases y) auto

lemma same_but_linksD:
  assumes "same_but_links m m'"
  shows "mtx_owner m' = mtx_owner m" "th_state (threads m' t) = th_state (threads m t)" "th_wait_qlock (threads m' t) = th_wait_qlock (threads m t)"
    "th_wake_hold (threads m' t) = th_wake_hold (threads m t)" "th_wake_pending (threads m' t) = th_wake_pending (threads m t)"
    "th_mutex_depth (threads m' t) = th_mutex_depth (threads m t)" "t_killed (threads m' t) = t_killed (threads m t)"
  using assms by (simp_all add: same_but_links_def thread_update_inject)

lemma same_but_linksI:
  assumes "mtx_owner m' = mtx_owner m" "\<And>t. \<exists>l. threads m' t = (threads m t)\<lparr>th_wait_link := l\<rparr>"
  shows "same_but_links m m'"
proof -
  have "(threads m' t)\<lparr>th_wait_link := None\<rparr> = (threads m t)\<lparr>th_wait_link := None\<rparr>" for t
    using assms(2) [of t] by auto
  then show ?thesis using assms(1) by (simp add: same_but_links_def)
qed

lemma set_thread_simps [simp]:
  "mtx_owner (set_thread t th m) = mtx_owner m" "mtx_waiters_head (set_thread t th m) = mtx_waiters_head m"
  "mtx_waiters_tail (set_thread t th m) = mtx_waiters_tail m" "threads (set_thread t th m) = (threads m)(t := th)"
  by (simp_all add: set_thread_def)

lemma own_link: "\<exists>l. th = th\<lparr>th_wait_link := l\<rparr>" for th :: thread
  by (rule exI [of _ "th_wait_link th"]) simp

lemma waiter_push_ok:
  assumes w: "waiters m ws" and t: "t \<notin> set ws"
  shows "waiters (waiter_push t m) (ws @ [t])" "same_but_links m (waiter_push t m)"
proof -
  show "same_but_links m (waiter_push t m)"
    by (rule same_but_linksI) (auto simp: waiter_push_def Let_def own_link split: option.splits)
  show "waiters (waiter_push t m) (ws @ [t])"
  proof (cases ws rule: rev_cases)
    case Nil
    then show ?thesis using w by (simp add: waiters_def waiter_push_def last_opt_def Let_def)
  next
    case (snoc ys p)
    have d: "p \<notin> set ys" "t \<noteq> p" "t \<notin> set ys" "distinct ys" using w t snoc by (auto simp: waiters_def)
    have seg: "wseg (threads m) (mtx_waiters_head m) ys (Some p)" using w snoc by (auto simp: waiters_def wseg_append)
    define m' where "m' = waiter_push t m"
    have T: "threads m' = (threads m)(t := (threads m t)\<lparr>th_wait_link := None\<rparr>, p := (threads m p)\<lparr>th_wait_link := Some t\<rparr>)"
      "mtx_waiters_head m' = mtx_waiters_head m" "mtx_waiters_tail m' = Some t"
      using w snoc d by (simp_all add: m'_def waiters_def waiter_push_def Let_def)
    have "wseg (threads m') (mtx_waiters_head m') ys (Some p)" 
      unfolding T by (rule wseg_keep [OF seg]) (use d in auto)
    then show ?thesis using snoc d by (auto simp: waiters_def wseg_append T last_opt_def m'_def [symmetric])
  qed
qed

lemma waiter_pop_ok:
  assumes w: "waiters m ws"
  shows "case ws of [] \<Rightarrow> waiter_pop m = (None, m)
    | t # ys \<Rightarrow> \<exists>m'. waiter_pop m = (Some t, m') \<and> waiters m' ys \<and> same_but_links m m'"
proof (cases ws)
  case Nil
  then show ?thesis using w by (simp add: waiters_def waiter_pop_def)
next
  case (Cons t ys)
  define m' where "m' = snd (waiter_pop m)"
  have h: "mtx_waiters_head m = Some t" "wseg (threads m) (th_wait_link (threads m t)) ys None" "t \<notin> set ys" "distinct ys" "mtx_waiters_tail m = last_opt (t # ys)"
    using w Cons by (auto simp: waiters_def)
  have p: "waiter_pop m = (Some t, m')" by (simp add: m'_def waiter_pop_def h Let_def)
  have T: "threads m' = (threads m)(t := (threads m t)\<lparr>th_wait_link := None\<rparr>)" "mtx_waiters_head m' = th_wait_link (threads m t)"
    "mtx_waiters_tail m' = (if th_wait_link (threads m t) = None then None else mtx_waiters_tail m)"
    by (simp_all add: m'_def waiter_pop_def h Let_def)
  have e: "th_wait_link (threads m t) = None \<longleftrightarrow> ys = []" using h(2) by (cases ys) auto
  have "wseg (threads m') (th_wait_link (threads m t)) ys None" using h(2,3) wseg_cong [of ys "threads m'" "threads m"] by (simp add: T(1))
  then have "waiters m' ys" using h(4,5) e by (auto simp: waiters_def T(2,3) last_opt_def)
  moreover have "same_but_links m m'"
    by (rule same_but_linksI) (auto simp: m'_def waiter_pop_def h Let_def own_link)
  ultimately show ?thesis using p Cons by simp
qed

lemma set_link_simps [simp]:
  "mtx_owner (set_link prev v m) = mtx_owner m" "mtx_waiters_tail (set_link prev v m) = mtx_waiters_tail m"
  by (simp_all add: set_link_def split: option.splits)

lemma unbind_found:
  assumes w: "waiters m (pre @ t # ys)"
  shows "\<exists>m'. unbind_loop t (last_opt pre) (Some t) m = Some m' \<and> waiters m' (pre @ ys) \<and> same_but_links m m'"
proof -
  define l where "l = th_wait_link (threads m t)"
  have d: "t \<notin> set pre" "t \<notin> set ys" "distinct pre" "distinct ys" "set pre \<inter> set ys = {}" using w by (auto simp: waiters_def)
  have segs: "wseg (threads m) (mtx_waiters_head m) pre (Some t)" "wseg (threads m) l ys None" using w by (auto simp: waiters_def wseg_append l_def)
  have tl: "mtx_waiters_tail m = last_opt (t # ys)" using w by (auto simp: waiters_def last_opt_def)
  define m1 where "m1 = set_link (last_opt pre) l m"
  define m2 where "m2 = (if mtx_waiters_tail m1 = Some t then m1\<lparr>mtx_waiters_tail := last_opt pre\<rparr> else m1)"
  define m' where "m' = set_thread t ((threads m2 t)\<lparr>th_wait_link := None\<rparr>) m2"
  have u: "unbind_loop t (last_opt pre) (Some t) m = Some m'"
    by (subst unbind_loop.simps) (simp add: m1_def m2_def m'_def l_def Let_def)
  have tail: "mtx_waiters_tail m' = last_opt (pre @ ys)"
    using tl d(2) by (auto simp: m'_def m2_def m1_def last_opt_def)
  have s: "same_but_links m m'"
    by (rule same_but_linksI) (auto simp: m'_def m2_def m1_def set_link_def own_link split: option.splits)
  have links: "th_wait_link (threads m' x) = (if x = t then None else if last_opt pre = Some x then l else th_wait_link (threads m x))" for x
    using d(1) by (auto simp: m'_def m2_def m1_def set_link_def last_opt_def)
  have hd: "mtx_waiters_head m' = (if pre = [] then l else mtx_waiters_head m)"
    by (auto simp: m'_def m2_def m1_def set_link_def last_opt_def)
  have ys: "wseg (threads m') l ys None"
    by (rule wseg_keep [OF segs(2)]) (use d in \<open>auto simp: links dest: last_opt_in\<close>)
  have "wseg (threads m') (mtx_waiters_head m') pre l"
  proof (cases pre rule: rev_cases)
    case (snoc zs q)
    then have q: "q \<notin> set zs" "q \<noteq> t" "t \<notin> set zs" using d by auto
    have "wseg (threads m) (mtx_waiters_head m) zs (Some q)" using segs(1) snoc by (auto simp: wseg_append)
    then have "wseg (threads m') (mtx_waiters_head m) zs (Some q)" by (rule wseg_keep) (use q snoc in \<open>auto simp: links\<close>)
    then show ?thesis using snoc q by (auto simp: wseg_append links hd)
  qed (simp add: hd)
  then have "waiters m' (pre @ ys)" using ys tail d by (auto simp: waiters_def wseg_append)
  then show ?thesis using u s by blast
qed

lemma unbind_loop_ok:
  "waiters m (pre @ rest) \<Longrightarrow> t \<notin> set pre \<Longrightarrow>
   \<exists>m'. unbind_loop t (last_opt pre) (case rest of [] \<Rightarrow> None | x # _ \<Rightarrow> Some x) m = Some m' \<and> waiters m' (pre @ remove1 t rest) \<and> same_but_links m m'"
proof (induct rest arbitrary: pre)
  case Nil
  then show ?case by (subst unbind_loop.simps) (auto simp: same_but_links_def)
next
  case (Cons x rest)
  show ?case
  proof (cases "x = t")
    case True
    then show ?thesis using unbind_found [of m pre t rest] Cons.prems by simp
  next
    case False
    have l: "th_wait_link (threads m x) = (case rest of [] \<Rightarrow> None | x # _ \<Rightarrow> Some x)"
      using Cons.prems(1) by (cases rest) (auto simp: waiters_def wseg_append)
    show ?thesis using Cons.hyps [of "pre @ [x]"] Cons.prems False by (subst unbind_loop.simps) (simp add: l)
  qed
qed

lemma unbind_ok:
  assumes "waiters m ws"
  shows "\<exists>m'. unbind_loop t None (mtx_waiters_head m) m = Some m' \<and> waiters m' (remove1 t ws) \<and> same_but_links m m'"
proof -
  have "mtx_waiters_head m = (case ws of [] \<Rightarrow> None | x # _ \<Rightarrow> Some x)" using assms by (cases ws) (auto simp: waiters_def)
  then show ?thesis using unbind_loop_ok [of m "[]" ws t] assms by simp
qed

lemma waiters_cong:
  assumes "waiters m ws" "mtx_waiters_head m' = mtx_waiters_head m" "mtx_waiters_tail m' = mtx_waiters_tail m"
    "\<And>t. th_wait_link (threads m' t) = th_wait_link (threads m t)"
  shows "waiters m' ws"
  using assms wseg_cong [of ws "threads m'" "threads m"] by (simp add: waiters_def)

section \<open>What the operations do\<close>

text \<open>The fields of a thread other than its link, and that an operation of thread \<open>t\<close> leaves those of the other threads alone.\<close>

definition same_thread :: "thread \<Rightarrow> thread \<Rightarrow> bool" where
  "same_thread x y \<longleftrightarrow> th_state y = th_state x \<and> th_wait_qlock y = th_wait_qlock x \<and> th_wake_hold y = th_wake_hold x \<and>
     th_wake_pending y = th_wake_pending x \<and> th_mutex_depth y = th_mutex_depth x \<and> t_killed y = t_killed x"

definition others :: "nat \<Rightarrow> mutex \<Rightarrow> mutex \<Rightarrow> bool" where
  "others t m m' \<longleftrightarrow> (\<forall>u. u \<noteq> t \<longrightarrow> same_thread (threads m u) (threads m' u)) \<and> th_wake_hold (threads m' t) = th_wake_hold (threads m t) \<and>
     t_killed (threads m' t) = t_killed (threads m t)"

lemma same_but_links_thread: "same_but_links m m' \<Longrightarrow> same_thread (threads m u) (threads m' u)"
  by (simp add: same_thread_def same_but_linksD)

lemma same_thread_refl [simp]: "same_thread x x"
  by (simp add: same_thread_def)

lemma same_thread_trans: "same_thread x y \<Longrightarrow> same_thread y z \<Longrightarrow> same_thread x z"
  by (simp add: same_thread_def)

lemma others_trans: "others t m m1 \<Longrightarrow> others t m1 m2 \<Longrightarrow> others t m m2"
  by (auto simp: others_def intro: same_thread_trans)

lemma same_but_links_others: "same_but_links m m' \<Longrightarrow> others t m m'"
  using same_but_links_thread by (auto simp: others_def same_but_linksD)

lemma others_own:
  assumes "\<And>u. u \<noteq> t \<Longrightarrow> threads m' u = threads m u" "th_wake_hold (threads m' t) = th_wake_hold (threads m t)" "t_killed (threads m' t) = t_killed (threads m t)"
  shows "others t m m'"
  using assms by (simp add: others_def)

definition thread_ok :: "nat \<Rightarrow> mutex_pc \<Rightarrow> thread \<Rightarrow> bool" where
  "thread_ok d p th \<longleftrightarrow>
     th_mutex_depth th = d + (if p = Holding then 1 else 0) \<and>
     (th_wait_qlock th \<longrightarrow> p \<in> {Parked, Rechecking, Exiting}) \<and> (p \<in> {Parked, Rechecking} \<longrightarrow> th_wait_qlock th) \<and>
     th_state th \<in> (if p = Parked then {THREAD_BLOCKED, THREAD_READY} else if p = Gone then {THREAD_ZOMBIE} else {THREAD_RUNNING}) \<and>
     (p \<in> {Exiting, Gone} \<longrightarrow> d = 0 \<and> t_killed th)"

lemma thread_wait_unbind_locked_ok:
  assumes "waiters m ws" "th_wait_qlock (threads m t)"
  shows "\<exists>m'. thread_wait_unbind_locked t m = Some (Ret m') \<and> waiters m' (remove1 t ws) \<and> others t m m' \<and> mtx_owner m' = mtx_owner m \<and>
    same_thread ((threads m t)\<lparr>th_wait_qlock := False\<rparr>) (threads m' t)"
proof -
  obtain m1 where u: "unbind_loop t None (mtx_waiters_head m) m = Some m1" "waiters m1 (remove1 t ws)" "same_but_links m m1" using unbind_ok [OF assms(1)] by blast
  have "waiters (thread_wait_forget t m1) (remove1 t ws)" by (rule waiters_cong [OF u(2)]) (simp_all add: thread_wait_forget_def)
  moreover have "others t m (thread_wait_forget t m1)"
    by (rule others_trans [OF same_but_links_others [OF u(3)] others_own]) (simp_all add: thread_wait_forget_def)
  moreover have "same_thread ((threads m t)\<lparr>th_wait_qlock := False\<rparr>) (threads (thread_wait_forget t m1) t)"
    using same_but_linksD [OF u(3)] by (simp add: thread_wait_forget_def same_thread_def)
  ultimately show ?thesis using u assms(2) same_but_linksD(1) [OF u(3)] by (simp add: thread_wait_unbind_locked_def thread_wait_forget_def)
qed

definition lock_effect :: "nat \<Rightarrow> nat \<Rightarrow> lock_outcome \<Rightarrow> nat list \<Rightarrow> mutex \<Rightarrow> nat list \<Rightarrow> mutex \<Rightarrow> bool" where
  "lock_effect d t r ws m ws' m' \<longleftrightarrow>
     waiters m' ws' \<and> set ws' = (if r = Parked_now \<or> r = Declined then insert t (set ws) else set ws) \<and> others t m m' \<and>
     thread_ok d (after_lock r) (threads m' t) \<and> (r = Parked_now \<longrightarrow> \<not> th_wake_pending (threads m' t) \<and> th_state (threads m' t) = THREAD_BLOCKED) \<and>
     (r = Declined \<longrightarrow> th_wake_pending (threads m t) \<and> \<not> th_wake_pending (threads m' t)) \<and>
     (r \<noteq> Declined \<longrightarrow> th_wake_pending (threads m' t) = th_wake_pending (threads m t)) \<and>
     (if r = Acquired then mtx_owner m = None \<and> mtx_owner m' = Some t else mtx_owner m \<noteq> None \<and> mtx_owner m' = mtx_owner m)"

lemma mutex_lock_ok:
  assumes w: "waiters m ws" "t \<notin> set ws" and th: "\<not> th_wait_qlock (threads m t)" "th_state (threads m t) = THREAD_RUNNING" "th_mutex_depth (threads m t) = d"
    and own: "mtx_owner m \<noteq> Some t"
  shows "\<exists>r m' ws'. mutex_lock t m = Some (Ret (r, m')) \<and> lock_effect d t r ws m ws' m'"
proof (cases "mtx_owner m")
  case None
  define m' where "m' = (mutex_take t m)\<lparr>mutex_n_acquire := add64 (mutex_n_acquire (mutex_take t m)) 1\<rparr>"
  have "waiters m' ws" by (rule waiters_cong [OF w(1)]) (simp_all add: m'_def mutex_take_def)
  moreover have "others t m m'" by (rule others_own) (simp_all add: m'_def mutex_take_def)
  ultimately have "lock_effect d t Acquired ws m ws m'" using th None by (simp add: lock_effect_def m'_def mutex_take_def thread_ok_def)
  then show ?thesis using None by (auto simp: mutex_lock_def m'_def Let_def)
next
  case (Some o')
  define m0 where "m0 = waiter_push t (m\<lparr>mutex_n_slept := add64 (mutex_n_slept m) 1\<rparr>)"
  define m1 where "m1 = set_thread t ((threads m0 t)\<lparr>th_wait_qlock := True\<rparr>) m0"
  have w': "waiters (m\<lparr>mutex_n_slept := add64 (mutex_n_slept m) 1\<rparr>) ws" by (rule waiters_cong [OF w(1)]) simp_all
  note p = waiter_push_ok [OF w' w(2), folded m0_def]
  have "same_but_links m m0" using p(2) by (simp add: same_but_links_def)
  note s0 = same_but_linksD [OF this] and o0 = same_but_links_others [OF this, of t]
  have w1: "waiters m1 (ws @ [t])" by (rule waiters_cong [OF p(1)]) (simp_all add: m1_def)
  have o1: "others t m m1" by (rule others_trans [OF o0 others_own]) (simp_all add: m1_def)
  have t1: "th_wait_qlock (threads m1 t)" "th_state (threads m1 t) = THREAD_RUNNING" "th_mutex_depth (threads m1 t) = d" "mtx_owner m1 = mtx_owner m"
    "th_wake_pending (threads m1 t) = th_wake_pending (threads m t)" using th s0 by (simp_all add: m1_def)
  have noted: "thread_wait_note t m0 = Ret m1" using th(1) s0(3) by (simp add: thread_wait_note_def m1_def)
  have l: "mutex_lock t m = block_release t m1" unfolding mutex_lock_def m0_def [symmetric] noted using Some own by simp
  show ?thesis
  proof (cases "kill_due t m1")
    case True
    obtain m2 where u: "thread_wait_unbind_locked t m1 = Some (Ret m2)" "waiters m2 (remove1 t (ws @ [t]))" "others t m1 m2" "mtx_owner m2 = mtx_owner m1"
      "same_thread ((threads m1 t)\<lparr>th_wait_qlock := False\<rparr>) (threads m2 t)" using thread_wait_unbind_locked_ok [OF w1 t1(1)] by blast
    have "lock_effect d t Killed ws m ws m2"
      using u w(2) others_trans [OF o1 u(3)] t1 True Some by (simp add: lock_effect_def remove1_append same_thread_def thread_ok_def kill_due_def others_def)
    then show ?thesis using True t1(1) u(1) by (auto simp: l block_release_def)
  next
    case nk: False
    show ?thesis
    proof (cases "th_wake_pending (threads m1 t)")
      case True
      define m2 where "m2 = set_thread t ((threads m1 t)\<lparr>th_wake_pending := False\<rparr>) m1"
      have "waiters m2 (ws @ [t])" by (rule waiters_cong [OF w1]) (simp_all add: m2_def)
      moreover have "others t m m2" by (rule others_trans [OF o1 others_own]) (simp_all add: m2_def)
      ultimately have "lock_effect d t Declined ws m (ws @ [t]) m2" using t1 True Some by (simp add: lock_effect_def m2_def thread_ok_def)
      then show ?thesis using nk True by (auto simp: l block_release_def m2_def)
    next
      case False
      define m2 where "m2 = set_thread t ((threads m1 t)\<lparr>th_state := THREAD_BLOCKED\<rparr>) m1"
      have "waiters m2 (ws @ [t])" by (rule waiters_cong [OF w1]) (simp_all add: m2_def)
      moreover have "others t m m2" by (rule others_trans [OF o1 others_own]) (simp_all add: m2_def)
      ultimately have "lock_effect d t Parked_now ws m (ws @ [t]) m2" using t1 False Some by (simp add: lock_effect_def m2_def thread_ok_def)
      then show ?thesis using nk False by (auto simp: l block_release_def m2_def)
    qed
  qed
qed

lemma mutex_lock_again_ok:
  assumes w: "waiters m ws" and th: "th_state (threads m t) = THREAD_RUNNING" "th_mutex_depth (threads m t) = d"
    and own: "mtx_owner m \<noteq> Some t"
  shows "\<exists>r m' ws'. mutex_lock_again t m = Some (Ret (r, m')) \<and> lock_effect d t r (remove1 t ws) m ws' m'"
proof -
  obtain m1 where u: "unbind_loop t None (mtx_waiters_head m) m = Some m1" "waiters m1 (remove1 t ws)" "same_but_links m m1" using unbind_ok [OF w] by blast
  define m2 where "m2 = thread_wait_forget t m1"
  have w2: "waiters m2 (remove1 t ws)" by (rule waiters_cong [OF u(2)]) (simp_all add: m2_def thread_wait_forget_def)
  have o2: "others t m m2"
    by (rule others_trans [OF same_but_links_others [OF u(3)] others_own]) (simp_all add: m2_def thread_wait_forget_def)
  have t2: "\<not> th_wait_qlock (threads m2 t)" "th_state (threads m2 t) = THREAD_RUNNING" "th_mutex_depth (threads m2 t) = d" "mtx_owner m2 = mtx_owner m"
    "th_wake_pending (threads m2 t) = th_wake_pending (threads m t)"
    using th same_but_linksD [OF u(3)] by (simp_all add: m2_def thread_wait_forget_def)
  have n: "t \<notin> set (remove1 t ws)" using w by (simp add: waiters_def)
  obtain r m' ws' where l: "mutex_lock t m2 = Some (Ret (r, m'))" "lock_effect d t r (remove1 t ws) m2 ws' m'"
    using mutex_lock_ok [OF w2 n t2(1-3)] own t2(4) by auto
  have "lock_effect d t r (remove1 t ws) m ws' m'" using l(2) others_trans [OF o2, of m'] t2(4,5) by (cases "r = Acquired") (simp_all add: lock_effect_def)
  then show ?thesis using l(1) u(1) by (auto simp: mutex_lock_again_def waiter_unbind_def m2_def)
qed

lemma mutex_unlock_ok:
  assumes w: "waiters m ws" and own: "mtx_owner m = Some t" and dep: "th_mutex_depth (threads m t) = Suc d"
  shows "case ws of
      [] \<Rightarrow> \<exists>m'. mutex_unlock t m = Ret (None, m') \<and> waiters m' [] \<and> mtx_owner m' = None \<and> others t m m' \<and>
        same_thread ((threads m t)\<lparr>th_mutex_depth := d\<rparr>) (threads m' t)
    | u # us \<Rightarrow> \<exists>m' m0. mutex_unlock t m = Ret (Some u, m') \<and> waiters m' us \<and> mtx_owner m' = None \<and> m' = thread_hold u m0 \<and> others t m m0 \<and>
        same_thread ((threads m t)\<lparr>th_mutex_depth := d\<rparr>) (threads m0 t)"
proof -
  define m1 where "m1 = set_thread t ((threads m t)\<lparr>th_mutex_depth := d\<rparr>) (m\<lparr>mtx_owner := None\<rparr>)"
  have w1: "waiters m1 ws" by (rule waiters_cong [OF w]) (simp_all add: m1_def)
  have o1: "others t m m1" by (rule others_own) (simp_all add: m1_def)
  have t1: "same_thread ((threads m t)\<lparr>th_mutex_depth := d\<rparr>) (threads m1 t)" "mtx_owner m1 = None" by (simp_all add: m1_def)
  have u: "mutex_unlock t m = (case waiter_pop m1 of (None, m1) \<Rightarrow> Ret (None, m1) | (Some w, m1) \<Rightarrow> Ret (Some w, thread_hold w m1))"
    using own dep by (simp add: mutex_unlock_def m1_def)
  show ?thesis
  proof (cases ws)
    case Nil
    then show ?thesis using waiter_pop_ok [OF w1] w1 o1 t1 by (simp add: u)
  next
    case (Cons v vs)
    then obtain m2 where p: "waiter_pop m1 = (Some v, m2)" "waiters m2 vs" "same_but_links m1 m2" using waiter_pop_ok [OF w1] by auto
    have "waiters (thread_hold v m2) vs" by (rule waiters_cong [OF p(2)]) (simp_all add: thread_hold_def)
    moreover have "same_thread ((threads m t)\<lparr>th_mutex_depth := d\<rparr>) (threads m2 t)" by (rule same_thread_trans [OF t1(1) same_but_links_thread [OF p(3)]])
    ultimately show ?thesis using Cons p(1) others_trans [OF o1 same_but_links_others [OF p(3)]] t1(2) same_but_linksD(1) [OF p(3)]
      by (simp add: u thread_hold_def) blast
  qed
qed

section \<open>The invariant\<close>

definition waking_of :: "nat \<Rightarrow> (nat \<Rightarrow> mutex_pc) \<Rightarrow> nat \<Rightarrow> nat set" where
  "waking_of n pc t = {u. u < n \<and> pc u = Waking t}"

definition waiting_pc :: "mutex_pc set" where
  "waiting_pc = {Parked, Rechecking, Exiting}"

definition minv :: "nat \<Rightarrow> (nat \<Rightarrow> nat) \<Rightarrow> mutex \<Rightarrow> (nat \<Rightarrow> mutex_pc) \<Rightarrow> nat list \<Rightarrow> bool" where
  "minv n d m pc ws \<longleftrightarrow>
     waiters m ws \<and> (\<forall>t \<in> set ws. t < n \<and> pc t \<in> waiting_pc \<and> th_wait_qlock (threads m t)) \<and>
     (\<forall>t. mtx_owner m = Some t \<longleftrightarrow> t < n \<and> pc t = Holding) \<and>
     (\<forall>t < n. thread_ok (d t) (pc t) (threads m t)) \<and>
     (\<forall>t < n. pc t = Parked \<and> th_state (threads m t) = THREAD_BLOCKED \<longrightarrow> t \<in> set ws \<or> (\<exists>u < n. pc u = Waking t)) \<and>
     (\<forall>t < n. th_wake_hold (threads m t) = card (waking_of n pc t)) \<and>
     (\<forall>u < n. \<forall>w. pc u = Waking w \<longrightarrow> w < n)"

lemma minvD:
  assumes "minv n d m pc ws"
  shows "waiters m ws" "\<And>t. t \<in> set ws \<Longrightarrow> t < n \<and> pc t \<in> waiting_pc \<and> th_wait_qlock (threads m t)"
    "\<And>t. mtx_owner m = Some t \<longleftrightarrow> t < n \<and> pc t = Holding" "\<And>t. t < n \<Longrightarrow> thread_ok (d t) (pc t) (threads m t)"
    "\<And>t. t < n \<Longrightarrow> pc t = Parked \<Longrightarrow> th_state (threads m t) = THREAD_BLOCKED \<Longrightarrow> t \<in> set ws \<or> (\<exists>u < n. pc u = Waking t)"
    "\<And>t. t < n \<Longrightarrow> th_wake_hold (threads m t) = card (waking_of n pc t)" "\<And>u w. u < n \<Longrightarrow> pc u = Waking w \<Longrightarrow> w < n"
  using assms unfolding minv_def by blast+

definition same_core :: "thread \<Rightarrow> thread \<Rightarrow> bool" where
  "same_core x y \<longleftrightarrow> th_state y = th_state x \<and> th_wait_qlock y = th_wait_qlock x \<and> th_mutex_depth y = th_mutex_depth x \<and> t_killed y = t_killed x"

lemma same_thread_core: "same_thread x y \<Longrightarrow> same_core x y"
  by (simp add: same_thread_def same_core_def)

lemma thread_ok_core: "same_core x y \<Longrightarrow> thread_ok d p y = thread_ok d p x"
  by (simp add: same_core_def thread_ok_def)

lemma others_core: "others t m m' \<Longrightarrow> u \<noteq> t \<Longrightarrow> same_core (threads m u) (threads m' u)"
  by (simp add: others_def same_thread_core)

lemma minv_step:
  assumes I: "minv n d m pc ws" and t: "t < n" and W: "waiters m' ws'"
    and S: "\<And>u. u \<in> set ws' \<Longrightarrow> u \<noteq> t \<Longrightarrow> u \<in> set ws" "t \<in> set ws' \<Longrightarrow> p' \<in> waiting_pc \<and> th_wait_qlock (threads m' t)"
    and C: "\<And>u. u \<noteq> t \<Longrightarrow> same_core (threads m u) (threads m' u)"
    and Ow: "mtx_owner m' = (if p' = Holding then Some t else if pc t = Holding then None else mtx_owner m)"
      "p' = Holding \<Longrightarrow> mtx_owner m = None"
    and T: "thread_ok (d t) p' (threads m' t)"
    and B: "\<And>u. u < n \<Longrightarrow> u \<noteq> t \<Longrightarrow> pc u = Parked \<Longrightarrow> th_state (threads m u) = THREAD_BLOCKED \<Longrightarrow>
        (u \<in> set ws \<longrightarrow> u \<in> set ws' \<or> p' = Waking u) \<and> pc t \<noteq> Waking u"
      "p' = Parked \<Longrightarrow> th_state (threads m' t) = THREAD_BLOCKED \<Longrightarrow> t \<in> set ws'"
    and H: "\<And>u. u < n \<Longrightarrow> th_wake_hold (threads m' u) = card (waking_of n (pc(t := p')) u)"
    and P: "\<And>w. p' = Waking w \<Longrightarrow> w < n"
  shows "minv n d m' (pc(t := p')) ws'"
proof -
  note J = minvD [OF I]
  have 1: "u < n \<and> (pc(t := p')) u \<in> waiting_pc \<and> th_wait_qlock (threads m' u)" if "u \<in> set ws'" for u
    using S that t J(2) [of u] C [of u] by (cases "u = t") (auto simp: same_core_def)
  have 2: "mtx_owner m' = Some u \<longleftrightarrow> u < n \<and> (pc(t := p')) u = Holding" for u
    using Ow J(3) [of u] J(3) [of t] t by (cases "u = t"; cases "p' = Holding") auto
  have 3: "thread_ok (d u) ((pc(t := p')) u) (threads m' u)" if "u < n" for u
    using T J(4) [OF that] thread_ok_core [OF C] by (cases "u = t") auto
  have 4: "u \<in> set ws' \<or> (\<exists>v < n. (pc(t := p')) v = Waking u)" if u: "u < n" "(pc(t := p')) u = Parked" "th_state (threads m' u) = THREAD_BLOCKED" for u
  proof (cases "u = t")
    case True
    then show ?thesis using B(2) u by simp
  next
    case False
    then have p: "pc u = Parked" "th_state (threads m u) = THREAD_BLOCKED" using u C [OF False] by (simp_all add: same_core_def)
    consider "u \<in> set ws" | v where "v < n" "pc v = Waking u" using J(5) [OF u(1) p] by blast
    then show ?thesis
    proof cases
      case 1
      then show ?thesis using B(1) [OF u(1) False p] t by auto
    next
      case 2
      then show ?thesis using B(1) [OF u(1) False p] by (metis fun_upd_other)
    qed
  qed
  have 5: "w < n" if "u < n" "(pc(t := p')) u = Waking w" for u w using that P J(7) by (cases "u = t") auto
  show ?thesis unfolding minv_def using W 1 2 3 4 H 5 by blast
qed

lemma waking_of_other: "(\<And>w. pc t \<noteq> Waking w) \<Longrightarrow> (\<And>w. p' \<noteq> Waking w) \<Longrightarrow> waking_of n (pc(t := p')) u = waking_of n pc u"
  by (auto simp: waking_of_def)

lemma finite_waking_of [simp]: "finite (waking_of n pc u)"
  by (simp add: waking_of_def)

lemma hold_other:
  assumes "minv n d m pc ws" "t < n" "others t m m'" "\<And>w. pc t \<noteq> Waking w" "\<And>w. p' \<noteq> Waking w" "u < n"
  shows "th_wake_hold (threads m' u) = card (waking_of n (pc(t := p')) u)"
proof -
  have "th_wake_hold (threads m' u) = th_wake_hold (threads m u)" using assms(3) by (cases "u = t") (auto simp: others_def same_thread_def)
  then show ?thesis using minvD(6) [OF assms(1,6)] waking_of_other [of pc t p'] assms(4,5) by simp
qed

section \<open>The baton\<close>

text \<open>While the mutex is free and threads wait for it, one of them is on its way to take it.\<close>

definition baton :: "nat \<Rightarrow> mutex \<Rightarrow> (nat \<Rightarrow> mutex_pc) \<Rightarrow> nat list \<Rightarrow> bool" where
  "baton n m pc ws \<longleftrightarrow> mtx_owner m = None \<and> ws \<noteq> [] \<longrightarrow>
     (\<exists>t < n. pc t = Rechecking \<or> pc t = Parked \<and> (th_state (threads m t) = THREAD_READY \<or> (\<exists>u < n. pc u = Waking t)))"

definition no_kill :: "nat \<Rightarrow> mutex \<Rightarrow> bool" where
  "no_kill n m \<longleftrightarrow> (\<forall>t < n. \<not> t_killed (threads m t))"

lemma baton_keep:
  assumes b: "baton n m pc ws" and s: "mtx_owner m' = mtx_owner m" "ws' = ws" "\<And>u. u \<noteq> t \<Longrightarrow> th_state (threads m' u) = th_state (threads m u)"
    and p: "pc t \<notin> {Rechecking, Parked}" "\<And>w. pc t \<noteq> Waking w"
  shows "baton n m' (pc(t := p')) ws'"
  unfolding baton_def
proof
  assume "mtx_owner m' = None \<and> ws' \<noteq> []"
  then obtain v where v: "v < n" "pc v = Rechecking \<or> pc v = Parked \<and> (th_state (threads m v) = THREAD_READY \<or> (\<exists>u < n. pc u = Waking v))"
    using b s(1,2) by (auto simp: baton_def)
  have "v \<noteq> t" using v p by auto
  then have e: "(pc(t := p')) v = pc v" "th_state (threads m' v) = th_state (threads m v)" using s(3) by simp_all
  have w: "(\<exists>u < n. pc u = Waking v) \<longrightarrow> (\<exists>u < n. (pc(t := p')) u = Waking v)" using p(2) by (metis fun_upd_other)
  show "\<exists>t'<n. (pc(t := p')) t' = Rechecking \<or> (pc(t := p')) t' = Parked \<and>
      (th_state (threads m' t') = THREAD_READY \<or> (\<exists>u<n. (pc(t := p')) u = Waking t'))"
    by (rule exI [of _ v], unfold e) (use v w in blast)
qed

lemma thread_wake_simps [simp]:
  "mtx_owner (thread_wake w m) = mtx_owner m" "mtx_waiters_head (thread_wake w m) = mtx_waiters_head m" "mtx_waiters_tail (thread_wake w m) = mtx_waiters_tail m"
  "th_wait_link (threads (thread_wake w m) u) = th_wait_link (threads m u)" "th_wait_qlock (threads (thread_wake w m) u) = th_wait_qlock (threads m u)"
  "th_wake_hold (threads (thread_wake w m) u) = th_wake_hold (threads m u)" "th_mutex_depth (threads (thread_wake w m) u) = th_mutex_depth (threads m u)"
  "t_killed (threads (thread_wake w m) u) = t_killed (threads m u)"
  "th_state (threads (thread_wake w m) u) = (if u = w \<and> th_state (threads m u) = THREAD_BLOCKED then THREAD_READY else th_state (threads m u))"
  by (auto simp: thread_wake_def Let_def)

lemma minv_wake:
  assumes I: "minv n d m pc ws"
  shows "minv n d (thread_wake w m) pc ws"
proof -
  note J = minvD [OF I]
  have "waiters (thread_wake w m) ws" by (rule waiters_cong [OF J(1)]) simp_all
  moreover have "thread_ok (d t) (pc t) (threads (thread_wake w m) t)" if "t < n" for t
    using J(4) [OF that] by (auto simp: thread_ok_def split: if_splits)
  moreover have "t \<in> set ws \<or> (\<exists>u < n. pc u = Waking t)" if "t < n" "pc t = Parked" "th_state (threads (thread_wake w m) t) = THREAD_BLOCKED" for t
    using J(5) [OF that(1,2)] that(3) by (simp split: if_splits)
  ultimately show ?thesis unfolding minv_def using J(2,3,6,7) by simp
qed

lemma baton_wake: "baton n m pc ws \<Longrightarrow> baton n (thread_wake w m) pc ws"
  by (auto simp: baton_def)

section \<open>Every step keeps the invariant\<close>

lemma not_on_list: "minv n d m pc ws \<Longrightarrow> pc t \<notin> waiting_pc \<Longrightarrow> t \<notin> set ws"
  using minvD(2) by blast

lemma minv_move:
  assumes I: "minv n d m pc ws" and t: "t < n" "pc t = Outside" and p: "p' = Entering \<or> p' = Exiting \<and> kill_due t m"
  shows "minv n d m (pc(t := p')) ws"
proof (rule minv_step [OF I t(1) minvD(1) [OF I]])
  have n: "t \<notin> set ws" by (rule not_on_list [OF I]) (simp add: t waiting_pc_def)
  show "\<And>u. u \<in> set ws \<Longrightarrow> u \<noteq> t \<Longrightarrow> u \<in> set ws" "t \<in> set ws \<Longrightarrow> p' \<in> waiting_pc \<and> th_wait_qlock (threads m t)" using n by auto
  show "thread_ok (d t) p' (threads m t)" using minvD(4) [OF I t(1)] t p by (auto simp: thread_ok_def kill_due_def)
  show "\<And>u. u < n \<Longrightarrow> th_wake_hold (threads m u) = card (waking_of n (pc(t := p')) u)"
    by (rule hold_other [OF I t(1)]) (use t p in \<open>auto simp: others_def\<close>)
qed (use t p in \<open>auto simp: same_core_def\<close>)

lemma minv_lock:
  assumes I: "minv n d m pc ws" and t: "t < n" "pc t = Entering \<or> pc t = Rechecking" and e: "lock_effect (d t) t r (remove1 t ws) m ws' m'"
  shows "minv n d m' (pc(t := after_lock r)) ws'"
proof (rule minv_step [OF I t(1)])
  have dist: "distinct ws" using minvD(1) [OF I] by (simp add: waiters_def)
  have set: "set (remove1 t ws) = set ws - {t}" using dist by simp
  have ws': "set ws' = (if r = Parked_now \<or> r = Declined then insert t (set ws) else set ws - {t})" using e by (auto simp: lock_effect_def set)
  have o: "others t m m'" and ok: "thread_ok (d t) (after_lock r) (threads m' t)" using e by (simp_all add: lock_effect_def)
  show "waiters m' ws'" using e by (simp add: lock_effect_def)
  show "u \<in> set ws" if "u \<in> set ws'" "u \<noteq> t" for u using that ws' by (auto split: if_splits)
  show "after_lock r \<in> waiting_pc \<and> th_wait_qlock (threads m' t)" if "t \<in> set ws'"
    using that ws' ok by (auto simp: waiting_pc_def thread_ok_def split: if_splits)
  show "same_core (threads m u) (threads m' u)" if "u \<noteq> t" for u using others_core [OF o that] .
  show "mtx_owner m' = (if after_lock r = Holding then Some t else if pc t = Holding then None else mtx_owner m)"
    using e t(2) by (cases r) (auto simp: lock_effect_def)
  show "mtx_owner m = None" if "after_lock r = Holding" using that e by (cases r) (auto simp: lock_effect_def)
  show "thread_ok (d t) (after_lock r) (threads m' t)" by (rule ok)
  show "(u \<in> set ws \<longrightarrow> u \<in> set ws' \<or> after_lock r = Waking u) \<and> pc t \<noteq> Waking u" if "u \<noteq> t" for u using that ws' t(2) by auto
  show "t \<in> set ws'" if "after_lock r = Parked" using that ws' by (cases r) auto
  show "th_wake_hold (threads m' u) = card (waking_of n (pc(t := after_lock r)) u)" if "u < n" for u
    by (rule hold_other [OF I t(1) o _ _ that]) (use t(2) in \<open>cases r; auto\<close>)+
  show "w < n" if "after_lock r = Waking w" for w using that by (cases r) auto
qed

lemma minv_resume:
  assumes I: "minv n d m pc ws" and t: "t < n" "pc t = Parked" and r: "block_resumed t m = (stay, m')"
  shows "minv n d m' (pc(t := if stay then Rechecking else Exiting)) ws"
proof (rule minv_step [OF I t(1)])
  have m': "m' = set_thread t ((threads m t)\<lparr>th_state := THREAD_RUNNING\<rparr>) m" "stay = (\<not> kill_due t m)" using r by (auto simp: block_resumed_def)
  show "waiters m' ws" by (rule waiters_cong [OF minvD(1) [OF I]]) (simp_all add: m')
  show "(if stay then Rechecking else Exiting) \<in> waiting_pc \<and> th_wait_qlock (threads m' t)"
    using minvD(4) [OF I t(1)] t(2) by (simp add: waiting_pc_def thread_ok_def m')
  show "thread_ok (d t) (if stay then Rechecking else Exiting) (threads m' t)"
    using minvD(4) [OF I t(1)] t(2) by (auto simp: thread_ok_def m' kill_due_def)
  show "th_wake_hold (threads m' u) = card (waking_of n (pc(t := if stay then Rechecking else Exiting)) u)" if "u < n" for u
    by (rule hold_other [OF I t(1) _ _ _ that]) (use t(2) in \<open>auto simp: others_def m' same_thread_def\<close>)
qed (use t r in \<open>auto simp: same_core_def block_resumed_def\<close>)

lemma minv_trylock:
  assumes I: "minv n d m pc ws" and t: "t < n" "pc t = Outside" and r: "mutex_trylock t m = (got, m')"
  shows "minv n d m' (pc(t := if got then Holding else Outside)) ws"
proof (cases got)
  case False
  then have "m' = m" "pc(t := Outside) = pc" using r t by (auto simp: mutex_trylock_def Let_def)
  then show ?thesis using I False by simp
next
  case True
  have m': "m' = mutex_take t m" "mtx_owner m = None" using r True by (auto simp: mutex_trylock_def Let_def split: if_splits)
  have n: "t \<notin> set ws" by (rule not_on_list [OF I]) (simp add: t waiting_pc_def)
  have "minv n d m' (pc(t := Holding)) ws"
  proof (rule minv_step [OF I t(1)])
    show "waiters m' ws" by (rule waiters_cong [OF minvD(1) [OF I]]) (simp_all add: m' mutex_take_def)
    show "thread_ok (d t) Holding (threads m' t)" using minvD(4) [OF I t(1)] t(2) by (simp add: thread_ok_def m' mutex_take_def)
    show "th_wake_hold (threads m' u) = card (waking_of n (pc(t := Holding)) u)" if "u < n" for u
      by (rule hold_other [OF I t(1) _ _ _ that]) (use t(2) in \<open>auto simp: others_def m' mutex_take_def same_thread_def\<close>)
  qed (use t n m' in \<open>auto simp: same_core_def mutex_take_def\<close>)
  then show ?thesis using True by simp
qed

lemma minv_unlock_none:
  assumes I: "minv n d m pc []" and t: "t < n" "pc t = Holding" and w: "waiters m' []" "mtx_owner m' = None" "others t m m'"
    and s: "same_thread ((threads m t)\<lparr>th_mutex_depth := d t\<rparr>) (threads m' t)"
  shows "minv n d m' (pc(t := Outside)) []"
proof (rule minv_step [OF I t(1) w(1)])
  show "same_core (threads m u) (threads m' u)" if "u \<noteq> t" for u using others_core [OF w(3) that] .
  show "thread_ok (d t) Outside (threads m' t)" using minvD(4) [OF I t(1)] t(2) s by (simp add: thread_ok_def same_thread_def)
  show "th_wake_hold (threads m' u) = card (waking_of n (pc(t := Outside)) u)" if "u < n" for u
    by (rule hold_other [OF I t(1) w(3) _ _ that]) (use t(2) in auto)
qed (use t w in auto)

lemma minv_unlock_some:
  assumes I: "minv n d m pc (u # us)" and t: "t < n" "pc t = Holding" and w: "waiters m' us" "mtx_owner m' = None" and m': "m' = thread_hold u m0" and o: "others t m m0"
    and s: "same_thread ((threads m t)\<lparr>th_mutex_depth := d t\<rparr>) (threads m0 t)"
  shows "minv n d m' (pc(t := Waking u)) us"
proof (rule minv_step [OF I t(1) w(1)])
  have u: "u < n" "u \<noteq> t" using minvD(2) [OF I, of u] t by (auto simp: waiting_pc_def)
  have nt: "t \<notin> set us" using not_on_list [OF I, of t] t by (simp add: waiting_pc_def)
  show "same_core (threads m v) (threads m' v)" if "v \<noteq> t" for v using others_core [OF o that] by (auto simp: m' thread_hold_def same_core_def)
  show "thread_ok (d t) (Waking u) (threads m' t)" using minvD(4) [OF I t(1)] t(2) s u(2) by (simp add: thread_ok_def same_thread_def m' thread_hold_def)
  show "th_wake_hold (threads m' v) = card (waking_of n (pc(t := Waking u)) v)" if v: "v < n" for v
  proof -
    have h: "th_wake_hold (threads m0 v) = card (waking_of n pc v)"
      using minvD(6) [OF I v] o by (cases "v = t") (auto simp: others_def same_thread_def)
    have "waking_of n (pc(t := Waking u)) v = (if v = u then insert t (waking_of n pc v) else waking_of n pc v)" "t \<notin> waking_of n pc v"
      using t by (auto simp: waking_of_def)
    then show ?thesis using h by (cases "v = u") (simp_all add: m' thread_hold_def)
  qed
  show "w < n" if "Waking u = Waking w" for w using that u by simp
  show "t \<in> set us \<Longrightarrow> Waking u \<in> waiting_pc \<and> th_wait_qlock (threads m' t)" using nt by simp
qed (use t w in auto)

lemma minv_unlock_wake:
  assumes I: "minv n d m pc ws" and t: "t < n" "pc t = Waking w"
  shows "\<exists>m'. mutex_unlock_wake w m = Ret m' \<and> minv n d m' (pc(t := Outside)) ws \<and> (\<forall>u. same_core (threads (thread_wake w m) u) (threads m' u)) \<and>
    mtx_owner m' = mtx_owner m \<and> (\<forall>u. th_wake_pending (threads m' u) = th_wake_pending (threads (thread_wake w m) u))"
proof -
  define m1 where "m1 = thread_wake w m"
  have I1: "minv n d m1 pc ws" unfolding m1_def by (rule minv_wake [OF I])
  have wn: "w < n" using minvD(7) [OF I t] .
  have tw: "t \<in> waking_of n pc w" using t by (simp add: waking_of_def)
  then have pos: "th_wake_hold (threads m1 w) \<noteq> 0" using minvD(6) [OF I1 wn] by (metis card_0_eq empty_iff finite_waking_of)
  define m' where "m' = set_thread w ((threads m1 w)\<lparr>th_wake_hold := th_wake_hold (threads m1 w) - 1\<rparr>) m1"
  have core: "same_core (threads m1 u) (threads m' u)" for u by (simp add: m'_def same_core_def)
  have nt: "t \<notin> set ws" by (rule not_on_list [OF I]) (simp add: t waiting_pc_def)
  have "minv n d m' (pc(t := Outside)) ws"
  proof (rule minv_step [OF I1 t(1)])
    show "waiters m' ws" by (rule waiters_cong [OF minvD(1) [OF I1]]) (simp_all add: m'_def)
    show "thread_ok (d t) Outside (threads m' t)" unfolding thread_ok_core [OF core] using minvD(4) [OF I1 t(1)] t(2) by (simp add: thread_ok_def)
    show "(u \<in> set ws \<longrightarrow> u \<in> set ws \<or> Outside = Waking u) \<and> pc t \<noteq> Waking u" if "th_state (threads m1 u) = THREAD_BLOCKED" for u
      using that t(2) by (auto simp: m1_def split: if_splits)
    show "th_wake_hold (threads m' v) = card (waking_of n (pc(t := Outside)) v)" if "v < n" for v
    proof -
      have "waking_of n (pc(t := Outside)) v = (if v = w then waking_of n pc v - {t} else waking_of n pc v)" using t by (auto simp: waking_of_def)
      then show ?thesis using minvD(6) [OF I1 that] tw by (cases "v = w") (simp_all add: m'_def)
    qed
  qed (use t nt core in \<open>auto simp: m'_def\<close>)
  moreover have "mutex_unlock_wake w m = Ret m'" using pos by (simp add: mutex_unlock_wake_def thread_unhold_def m1_def [symmetric] m'_def)
  ultimately show ?thesis using core by (auto simp: m'_def m1_def)
qed

lemma minv_exit:
  assumes I: "minv n d m pc ws" and t: "t < n" "pc t = Exiting"
  shows "\<exists>m' ws'. thread_exit t m = Some (Ret m') \<and> minv n d m' (pc(t := Gone)) ws' \<and> others t m m' \<and> th_wake_pending (threads m' t) = th_wake_pending (threads m t)"
proof -
  have ok: "thread_ok (d t) Exiting (threads m t)" using minvD(4) [OF I t(1)] t(2) by simp
  have "\<exists>m1 ws'. (if th_wait_qlock (threads m t) then thread_wait_unbind_locked t m else Some (Ret m)) = Some (Ret m1) \<and> waiters m1 ws' \<and> set ws' = set ws - {t} \<and>
      others t m m1 \<and> mtx_owner m1 = mtx_owner m \<and> same_thread ((threads m t)\<lparr>th_wait_qlock := False\<rparr>) (threads m1 t)"
  proof (cases "th_wait_qlock (threads m t)")
    case True
    obtain m1 where "thread_wait_unbind_locked t m = Some (Ret m1)" "waiters m1 (remove1 t ws)" "others t m m1" "mtx_owner m1 = mtx_owner m"
      "same_thread ((threads m t)\<lparr>th_wait_qlock := False\<rparr>) (threads m1 t)"
      using thread_wait_unbind_locked_ok [OF minvD(1) [OF I] True] by blast
    moreover have "set (remove1 t ws) = set ws - {t}" using minvD(1) [OF I] by (simp add: waiters_def)
    ultimately show ?thesis using True by (intro exI [of _ m1] exI [of _ "remove1 t ws"]) simp
  next
    case False
    then have "t \<notin> set ws" using minvD(2) [OF I, of t] by blast
    then show ?thesis using False minvD(1) [OF I] by (intro exI [of _ m] exI [of _ ws]) (auto simp: others_def same_thread_def)
  qed
  then obtain m1 ws' where u: "(if th_wait_qlock (threads m t) then thread_wait_unbind_locked t m else Some (Ret m)) = Some (Ret m1)" "waiters m1 ws'" "set ws' = set ws - {t}"
      "others t m m1" "mtx_owner m1 = mtx_owner m" "same_thread ((threads m t)\<lparr>th_wait_qlock := False\<rparr>) (threads m1 t)" by blast
  define m' where "m' = set_thread t ((threads m1 t)\<lparr>th_state := THREAD_ZOMBIE\<rparr>) m1"
  have o: "others t m m'" by (rule others_trans [OF u(4) others_own]) (simp_all add: m'_def)
  have "minv n d m' (pc(t := Gone)) ws'"
  proof (rule minv_step [OF I t(1)])
    show "waiters m' ws'" by (rule waiters_cong [OF u(2)]) (simp_all add: m'_def)
    show "same_core (threads m v) (threads m' v)" if "v \<noteq> t" for v using others_core [OF o that] .
    show "thread_ok (d t) Gone (threads m' t)" using ok u(6) by (simp add: thread_ok_def m'_def same_thread_def)
    show "th_wake_hold (threads m' v) = card (waking_of n (pc(t := Gone)) v)" if "v < n" for v
      by (rule hold_other [OF I t(1) o _ _ that]) (use t(2) in auto)
  qed (use t u(3,5) in \<open>auto simp: m'_def\<close>)
  moreover have "thread_exit t m = Some (Ret m')" using ok u(1) by (simp add: thread_exit_def thread_ok_def m'_def)
  ultimately show ?thesis using o u(6) by (auto simp: m'_def same_thread_def)
qed

lemma minv_kill:
  assumes I: "minv n d m pc ws"
  shows "minv n d (set_thread t ((threads m t)\<lparr>t_killed := True\<rparr>) m) pc ws"
proof -
  note J = minvD [OF I]
  define m' where "m' = set_thread t ((threads m t)\<lparr>t_killed := True\<rparr>) m"
  have w: "waiters m' ws" by (rule waiters_cong [OF J(1)]) (simp_all add: m'_def)
  have f: "th_wait_qlock (threads m' u) = th_wait_qlock (threads m u)" "th_state (threads m' u) = th_state (threads m u)" "mtx_owner m' = mtx_owner m"
    "th_wake_hold (threads m' u) = th_wake_hold (threads m u)" for u by (simp_all add: m'_def)
  have "thread_ok (d u) (pc u) (threads m' u)" if "u < n" for u using J(4) [OF that] by (auto simp: m'_def thread_ok_def)
  then show ?thesis unfolding minv_def m'_def [symmetric] using w J(2,3,5,6,7) by (simp add: f)
qed

section \<open>Reachable states\<close>

inductive mutex_reach :: "nat \<Rightarrow> mutex_sys \<Rightarrow> mutex_sys \<Rightarrow> bool" for n s0 where
  start: "mutex_reach n s0 s0"
| step: "\<lbrakk>mutex_reach n s0 s; mutex_step n s s'\<rbrakk> \<Longrightarrow> mutex_reach n s0 s'"

definition sys_inv :: "nat \<Rightarrow> (nat \<Rightarrow> nat) \<Rightarrow> mutex_sys \<Rightarrow> nat list \<Rightarrow> bool" where
  "sys_inv n d s ws \<longleftrightarrow> minv n d (sy_mtx s) (mx_pc s) ws \<and> (no_kill n (sy_mtx s) \<longrightarrow> baton n (sy_mtx s) (mx_pc s) ws)"

lemma goes_simps [simp]:
  "sy_mtx (goes t p m s) = m" "mx_pc (goes t p m s) = (mx_pc s)(t := p)" "calls (goes t p m s) = calls s" "strays (goes t p m s) = strays s" "kills (goes t p m s) = kills s"
  "sy_mtx (one_call t s) = sy_mtx s" "mx_pc (one_call t s) = mx_pc s" "strays (one_call t s) = strays s" "kills (one_call t s) = kills s"
  by (simp_all add: goes_def one_call_def)

lemma baton_owned: "mtx_owner m \<noteq> None \<Longrightarrow> baton n m pc ws"
  by (auto simp: baton_def)

lemma no_kill_others: "others t m m' \<Longrightarrow> no_kill n m' \<Longrightarrow> no_kill n m"
  unfolding no_kill_def others_def same_thread_def by metis

lemma lock_effect_owned: "lock_effect d t r ws m ws' m' \<Longrightarrow> mtx_owner m' \<noteq> None"
  by (auto simp: lock_effect_def split: if_splits)

lemma lock_returns:
  assumes I: "minv n d m pc ws" and t: "t < n" "pc t = Entering"
  shows "\<exists>r m' ws'. mutex_lock t m = Some (Ret (r, m')) \<and> lock_effect (d t) t r (remove1 t ws) m ws' m'"
proof -
  have n: "t \<notin> set ws" by (rule not_on_list [OF I]) (simp add: t waiting_pc_def)
  have ok: "thread_ok (d t) Entering (threads m t)" using minvD(4) [OF I t(1)] t(2) by simp
  have "mtx_owner m \<noteq> Some t" using minvD(3) [OF I, of t] t by simp
  then show ?thesis using mutex_lock_ok [OF minvD(1) [OF I] n _ _ _, of "d t"] ok n by (simp add: thread_ok_def remove1_idem)
qed

lemma again_returns:
  assumes I: "minv n d m pc ws" and t: "t < n" "pc t = Rechecking"
  shows "\<exists>r m' ws'. mutex_lock_again t m = Some (Ret (r, m')) \<and> lock_effect (d t) t r (remove1 t ws) m ws' m'"
proof -
  have ok: "thread_ok (d t) Rechecking (threads m t)" using minvD(4) [OF I t(1)] t(2) by simp
  have "mtx_owner m \<noteq> Some t" using minvD(3) [OF I, of t] t by simp
  then show ?thesis using mutex_lock_again_ok [OF minvD(1) [OF I], of t "d t"] ok by (simp add: thread_ok_def)
qed

lemma unlock_returns:
  assumes I: "minv n d m pc ws" and t: "t < n" "pc t = Holding"
  shows "\<exists>w m' ws'. mutex_unlock t m = Ret (w, m') \<and> minv n d m' (pc(t := case w of None \<Rightarrow> Outside | Some u \<Rightarrow> Waking u)) ws' \<and>
    (no_kill n m' \<longrightarrow> baton n m' (pc(t := case w of None \<Rightarrow> Outside | Some u \<Rightarrow> Waking u)) ws')"
proof -
  have ok: "thread_ok (d t) Holding (threads m t)" using minvD(4) [OF I t(1)] t(2) by simp
  have own: "mtx_owner m = Some t" using minvD(3) [OF I] t by simp
  have dep: "th_mutex_depth (threads m t) = Suc (d t)" using ok by (simp add: thread_ok_def)
  note U = mutex_unlock_ok [OF minvD(1) [OF I] own dep]
  show ?thesis
  proof (cases ws)
    case Nil
    then obtain m' where m': "mutex_unlock t m = Ret (None, m')" "waiters m' []" "mtx_owner m' = None" "others t m m'"
        "same_thread ((threads m t)\<lparr>th_mutex_depth := d t\<rparr>) (threads m' t)" using U by auto
    show ?thesis using m'(1) minv_unlock_none [OF I [unfolded Nil] t m'(2-5)] by (intro exI [of _ None] exI [of _ m'] exI [of _ "[]"]) (simp add: baton_def)
  next
    case (Cons u us)
    then obtain m' m0 where m': "mutex_unlock t m = Ret (Some u, m')" "waiters m' us" "mtx_owner m' = None" "m' = thread_hold u m0" "others t m m0"
        "same_thread ((threads m t)\<lparr>th_mutex_depth := d t\<rparr>) (threads m0 t)" using U by auto
    note M = minv_unlock_some [OF I [unfolded Cons] t m'(2-6)]
    have u: "u < n" "pc u \<in> waiting_pc" "u \<noteq> t" using minvD(2) [OF I, of u] t Cons by (auto simp: waiting_pc_def)
    have "baton n m' (pc(t := Waking u)) us" if nk: "no_kill n m'"
    proof -
      have "pc u \<noteq> Exiting"
      proof
        assume "pc u = Exiting"
        then have "t_killed (threads m' u)" using minvD(4) [OF M u(1)] u(3) by (simp add: thread_ok_def)
        then show False using nk u(1) by (simp add: no_kill_def)
      qed
      then have "pc u = Parked \<or> pc u = Rechecking" using u(2) by (simp add: waiting_pc_def)
      moreover have "\<exists>v < n. (pc(t := Waking u)) v = Waking u" using t(1) by (intro exI [of _ t]) simp
      ultimately show ?thesis unfolding baton_def using u by (intro impI exI [of _ u]) auto
    qed
    then show ?thesis using m'(1) M by (intro exI [of _ "Some u"] exI [of _ m'] exI [of _ us]) simp
  qed
qed

lemma baton_unlock_wake:
  assumes I: "minv n d m pc ws" and t: "t < n" "pc t = Waking w" and b: "baton n m pc ws"
    and core: "\<forall>u. same_core (threads (thread_wake w m) u) (threads m' u)" "mtx_owner m' = mtx_owner m"
  shows "baton n m' (pc(t := Outside)) ws"
  unfolding baton_def
proof
  assume "mtx_owner m' = None \<and> ws \<noteq> []"
  then obtain v where v: "v < n" "pc v = Rechecking \<or> pc v = Parked \<and> (th_state (threads m v) = THREAD_READY \<or> (\<exists>u < n. pc u = Waking v))"
    using b core(2) by (auto simp: baton_def)
  have vt: "v \<noteq> t" using v t by auto
  have st: "th_state (threads m' v) = th_state (threads (thread_wake w m) v)" using core(1) by (simp add: same_core_def)
  show "\<exists>v<n. (pc(t := Outside)) v = Rechecking \<or> (pc(t := Outside)) v = Parked \<and>
      (th_state (threads m' v) = THREAD_READY \<or> (\<exists>u<n. (pc(t := Outside)) u = Waking v))"
  proof (cases "pc v = Rechecking \<or> th_state (threads m' v) = THREAD_READY")
    case True
    then show ?thesis using v vt by (intro exI [of _ v]) auto
  next
    case False
    then have p: "pc v = Parked" using v by auto
    have "th_state (threads m v) \<noteq> THREAD_READY" using False st by (auto split: if_splits)
    then obtain u where u: "u < n" "pc u = Waking v" using v p by auto
    have "th_state (threads m v) = THREAD_BLOCKED" using minvD(4) [OF I v(1)] p \<open>th_state (threads m v) \<noteq> THREAD_READY\<close> by (simp add: thread_ok_def)
    then have "v \<noteq> w" using False st by auto
    then have "u \<noteq> t" using u t by auto
    then show ?thesis using v(1) vt p u by (intro exI [of _ v]) auto
  qed
qed

theorem mutex_step_inv:
  assumes "mutex_step n s s'" "sys_inv n d s ws"
  shows "\<exists>ws'. sys_inv n d s' ws'"
proof -
  have I: "minv n d (sy_mtx s) (mx_pc s) ws" and B: "no_kill n (sy_mtx s) \<Longrightarrow> baton n (sy_mtx s) (mx_pc s) ws" using assms(2) by (simp_all add: sys_inv_def)
  from assms(1) show ?thesis
  proof cases
    case (enter t)
    have "minv n d (sy_mtx s) ((mx_pc s)(t := Entering)) ws" by (rule minv_move [OF I enter(2,3)]) simp
    moreover have "baton n (sy_mtx s) ((mx_pc s)(t := Entering)) ws" if "no_kill n (sy_mtx s)" by (rule baton_keep [OF B [OF that]]) (use enter in auto)
    ultimately show ?thesis using enter(1) by (auto simp: sys_inv_def)
  next
    case (lock t r m)
    obtain ws' where e: "lock_effect (d t) t r (remove1 t ws) (sy_mtx s) ws' m" using lock_returns [OF I lock(2,3)] lock(4) by auto
    have "minv n d m ((mx_pc s)(t := after_lock r)) ws'" by (rule minv_lock [OF I lock(2) _ e]) (simp add: lock(3))
    then show ?thesis using lock(1) baton_owned [OF lock_effect_owned [OF e]] by (auto simp: sys_inv_def)
  next
    case (resume t stay m)
    note M = minv_resume [OF I resume(2,3,5)]
    have o: "others t (sy_mtx s) m" using resume(5) by (auto simp: block_resumed_def others_def)
    have "baton n m ((mx_pc s)(t := if stay then Rechecking else Exiting)) ws" if nk: "no_kill n m"
    proof -
      have "\<not> t_killed (threads (sy_mtx s) t)" using no_kill_others [OF o nk] resume(2) by (simp add: no_kill_def)
      then have "stay" using resume(5) by (auto simp: block_resumed_def kill_due_def)
      then show ?thesis using resume(2) by (auto simp: baton_def intro!: exI [of _ t])
    qed
    then show ?thesis using M resume(1) by (auto simp: sys_inv_def)
  next
    case (again t r m)
    obtain ws' where e: "lock_effect (d t) t r (remove1 t ws) (sy_mtx s) ws' m" using again_returns [OF I again(2,3)] again(4) by auto
    have "minv n d m ((mx_pc s)(t := after_lock r)) ws'" by (rule minv_lock [OF I again(2) _ e]) (simp add: again(3))
    then show ?thesis using again(1) baton_owned [OF lock_effect_owned [OF e]] by (auto simp: sys_inv_def)
  next
    case (trylock t got m)
    note M = minv_trylock [OF I trylock(2,3,5)]
    have "baton n m ((mx_pc s)(t := if got then Holding else Outside)) ws"
      using trylock(5) by (cases got) (auto simp: mutex_trylock_def Let_def mutex_take_def baton_def split: if_splits)
    then show ?thesis using M trylock(1) by (auto simp: sys_inv_def)
  next
    case (unlock t w m)
    then show ?thesis using unlock_returns [OF I unlock(2,3)] by (auto simp: sys_inv_def)
  next
    case (wake t w m)
    obtain m' where m': "mutex_unlock_wake w (sy_mtx s) = Ret m'" "minv n d m' ((mx_pc s)(t := Outside)) ws"
      "\<forall>u. same_core (threads (thread_wake w (sy_mtx s)) u) (threads m' u)" "mtx_owner m' = mtx_owner (sy_mtx s)" using minv_unlock_wake [OF I wake(2,3)] by blast
    have "baton n m' ((mx_pc s)(t := Outside)) ws" if "no_kill n m'"
    proof (rule baton_unlock_wake [OF I wake(2,3) B m'(3,4)])
      show "no_kill n (sy_mtx s)" using that m'(3) by (simp add: no_kill_def same_core_def)
    qed
    then show ?thesis using m'(1,2) wake(1,4) by (auto simp: sys_inv_def)
  next
    case (retire t)
    have "minv n d (sy_mtx s) ((mx_pc s)(t := Exiting)) ws" by (rule minv_move [OF I retire(2,3)]) (simp add: retire(4))
    moreover have "\<not> no_kill n (sy_mtx s)" using retire(2,4) by (auto simp: no_kill_def kill_due_def)
    ultimately show ?thesis using retire(1) by (auto simp: sys_inv_def)
  next
    case (exit t m)
    obtain m' ws' where m': "thread_exit t (sy_mtx s) = Some (Ret m')" "minv n d m' ((mx_pc s)(t := Gone)) ws'" "others t (sy_mtx s) m'"
      using minv_exit [OF I exit(2,3)] by blast
    have "t_killed (threads (sy_mtx s) t)" using minvD(4) [OF I exit(2)] exit(3) by (simp add: thread_ok_def)
    then have "\<not> no_kill n m'" using no_kill_others [OF m'(3)] exit(2) by (auto simp: no_kill_def)
    then show ?thesis using m' exit(1,4) by (auto simp: sys_inv_def)
  next
    case (stray t)
    have "sys_inv n d s' ws" using minv_wake [OF I, of t] baton_wake [OF B, of t] stray(1) by (simp add: sys_inv_def no_kill_def)
    then show ?thesis by blast
  next
    case (kill t)
    then show ?thesis using minv_kill [OF I] by (auto simp: sys_inv_def no_kill_def)
  qed
qed

lemma mutex_start_inv: "sys_inv n d (mutex_start d cs ss ks) []"
  by (auto simp: sys_inv_def mutex_start_def mutex_init_def minv_def waiters_def thread_ok_def waking_of_def baton_def)

lemma mutex_reach_inv: "mutex_reach n (mutex_start d cs ss ks) s \<Longrightarrow> \<exists>ws. sys_inv n d s ws"
  by (induct rule: mutex_reach.induct) (use mutex_start_inv mutex_step_inv in blast)+

section \<open>Every run ends\<close>

fun pc_weight :: "mutex_pc \<Rightarrow> thread_state \<Rightarrow> nat" where
  "pc_weight Entering st = 6"
| "pc_weight Rechecking st = 6"
| "pc_weight Parked st = (if st = THREAD_BLOCKED then 5 else 7)"
| "pc_weight Holding st = 4"
| "pc_weight (Waking w) st = 3"
| "pc_weight _ st = 0"

definition thread_weight :: "mutex \<Rightarrow> (nat \<Rightarrow> mutex_pc) \<Rightarrow> (nat \<Rightarrow> nat) \<Rightarrow> nat \<Rightarrow> nat" where
  "thread_weight m pc cs t = pc_weight (pc t) (th_state (threads m t)) + (if th_wake_pending (threads m t) then 1 else 0) + 7 * cs t"

definition sys_weight :: "nat \<Rightarrow> mutex_sys \<Rightarrow> nat" where
  "sys_weight n s = (\<Sum>t<n. thread_weight (sy_mtx s) (mx_pc s) (calls s) t) + 3 * strays s"

lemma sum_less_one:
  fixes f f' :: "nat \<Rightarrow> nat"
  assumes "t < n" "f' t < f t" "\<And>u. u \<noteq> t \<Longrightarrow> f' u = f u"
  shows "(\<Sum>t<n. f' t) < (\<Sum>t<n. f t)"
proof (rule sum_strict_mono_ex1)
  show "\<forall>x\<in>{..<n}. f' x \<le> f x" using assms(2,3) by (metis less_imp_le order_refl)
qed (use assms(1,2) in auto)

lemma sum_grow_one:
  fixes f f' :: "nat \<Rightarrow> nat"
  assumes "f' t \<le> f t + k" "\<And>u. u \<noteq> t \<Longrightarrow> f' u = f u"
  shows "(\<Sum>t<n. f' t) \<le> (\<Sum>t<n. f t) + k"
proof -
  have "(\<Sum>t<n. f' t) \<le> (\<Sum>u<n. f u + (if u = t then k else 0))" by (rule sum_mono) (use assms in auto)
  also have "\<dots> \<le> (\<Sum>u<n. f u) + k" by (simp add: sum.distrib)
  finally show ?thesis .
qed

lemma own_step_weight:
  assumes t: "t < n" and o: "others t m m'" and less: "thread_weight m' (pc(t := p)) cs' t < thread_weight m pc cs t" and cs: "\<And>u. u \<noteq> t \<Longrightarrow> cs' u = cs u"
  shows "(\<Sum>u<n. thread_weight m' (pc(t := p)) cs' u) < (\<Sum>u<n. thread_weight m pc cs u)"
proof (rule sum_less_one [where t = t])
  show "t < n" "thread_weight m' (pc(t := p)) cs' t < thread_weight m pc cs t" by (rule t, rule less)
  show "thread_weight m' (pc(t := p)) cs' u = thread_weight m pc cs u" if "u \<noteq> t" for u
    using o cs [OF that] that by (simp add: thread_weight_def others_def same_thread_def)
qed

lemma wake_weight:
  "(\<Sum>u<n. thread_weight (thread_wake w m) pc cs u) \<le> (\<Sum>u<n. thread_weight m pc cs u) + 2"
proof (rule sum_grow_one [of _ w])
  show "thread_weight (thread_wake w m) pc cs w \<le> thread_weight m pc cs w + 2"
    by (cases "pc w") (auto simp: thread_weight_def thread_wake_def Let_def)
qed (simp add: thread_weight_def thread_wake_def Let_def)

lemma lock_weight:
  assumes "lock_effect d t r ws m ws' m'" "pc t = Entering \<or> pc t = Rechecking"
  shows "thread_weight m' (pc(t := after_lock r)) cs t < thread_weight m pc cs t"
  using assms by (cases r) (auto simp: thread_weight_def lock_effect_def)

lemma unlock_keeps:
  "mutex_unlock t m = Ret (w, m') \<Longrightarrow> th_state (threads m' u) = th_state (threads m u) \<and> th_wake_pending (threads m' u) = th_wake_pending (threads m u) \<and>
     t_killed (threads m' u) = t_killed (threads m u)"
  by (auto simp: mutex_unlock_def waiter_pop_def thread_hold_def Let_def split: option.splits if_splits)

lemma mutex_step_weight:
  assumes "mutex_step n s s'" "sys_inv n d s ws" "no_kill n (sy_mtx s)" "kills s = 0"
  shows "sys_weight n s' < sys_weight n s \<and> no_kill n (sy_mtx s') \<and> kills s' = 0"
proof -
  have I: "minv n d (sy_mtx s) (mx_pc s) ws" using assms(2) by (simp add: sys_inv_def)
  have nk: "no_kill n m'" if "others t (sy_mtx s) m'" for t m' using that assms(3) unfolding no_kill_def others_def same_thread_def by metis
  note W = own_step_weight [of _ n "sy_mtx s" _ "mx_pc s"]
  from assms(1) show ?thesis
  proof cases
    case (enter t)
    have "(\<Sum>u<n. thread_weight (sy_mtx s) ((mx_pc s)(t := Entering)) (calls (one_call t s)) u) < (\<Sum>u<n. thread_weight (sy_mtx s) (mx_pc s) (calls s) u)"
      by (rule W [OF enter(2)]) (use enter in \<open>auto simp: others_def thread_weight_def one_call_def\<close>)
    then show ?thesis using enter(1) assms(3,4) by (simp add: sys_weight_def)
  next
    case (lock t r m)
    obtain ws' where e: "lock_effect (d t) t r (remove1 t ws) (sy_mtx s) ws' m" using lock_returns [OF I lock(2,3)] lock(4) by auto
    then have o: "others t (sy_mtx s) m" by (simp add: lock_effect_def)
    have "(\<Sum>u<n. thread_weight m ((mx_pc s)(t := after_lock r)) (calls s) u) < (\<Sum>u<n. thread_weight (sy_mtx s) (mx_pc s) (calls s) u)"
      by (rule W [OF lock(2) o lock_weight [OF e]]) (simp_all add: lock)
    then show ?thesis using lock(1) nk [OF o] assms(4) by (simp add: sys_weight_def)
  next
    case (resume t stay m)
    have o: "others t (sy_mtx s) m" using resume(5) by (auto simp: block_resumed_def others_def)
    have "(\<Sum>u<n. thread_weight m ((mx_pc s)(t := if stay then Rechecking else Exiting)) (calls s) u) < (\<Sum>u<n. thread_weight (sy_mtx s) (mx_pc s) (calls s) u)"
      by (rule W [OF resume(2) o]) (use resume in \<open>auto simp: thread_weight_def block_resumed_def\<close>)
    then show ?thesis using resume(1) nk [OF o] assms(4) by (simp add: sys_weight_def)
  next
    case (again t r m)
    obtain ws' where e: "lock_effect (d t) t r (remove1 t ws) (sy_mtx s) ws' m" using again_returns [OF I again(2,3)] again(4) by auto
    then have o: "others t (sy_mtx s) m" by (simp add: lock_effect_def)
    have "(\<Sum>u<n. thread_weight m ((mx_pc s)(t := after_lock r)) (calls s) u) < (\<Sum>u<n. thread_weight (sy_mtx s) (mx_pc s) (calls s) u)"
      by (rule W [OF again(2) o lock_weight [OF e]]) (simp_all add: again)
    then show ?thesis using again(1) nk [OF o] assms(4) by (simp add: sys_weight_def)
  next
    case (trylock t got m)
    have o: "others t (sy_mtx s) m" using trylock(5) by (auto simp: mutex_trylock_def Let_def mutex_take_def others_def split: if_splits)
    have "(\<Sum>u<n. thread_weight m ((mx_pc s)(t := if got then Holding else Outside)) (calls (one_call t s)) u) < (\<Sum>u<n. thread_weight (sy_mtx s) (mx_pc s) (calls s) u)"
      by (rule W [OF trylock(2) o]) (use trylock in \<open>auto simp: thread_weight_def mutex_trylock_def Let_def mutex_take_def one_call_def split: if_splits\<close>)
    then show ?thesis using trylock(1) nk [OF o] assms(4) by (simp add: sys_weight_def)
  next
    case (unlock t w m)
    have st: "th_state (threads m u) = th_state (threads (sy_mtx s) u) \<and> th_wake_pending (threads m u) = th_wake_pending (threads (sy_mtx s) u) \<and>
        t_killed (threads m u) = t_killed (threads (sy_mtx s) u)" for u
      by (rule unlock_keeps [OF unlock(4)])
    have "(\<Sum>u<n. thread_weight m ((mx_pc s)(t := case w of None \<Rightarrow> Outside | Some u \<Rightarrow> Waking u)) (calls s) u) < (\<Sum>u<n. thread_weight (sy_mtx s) (mx_pc s) (calls s) u)"
      by (rule sum_less_one [where t = t]) (use unlock(2,3) st in \<open>auto simp: thread_weight_def split: option.splits\<close>)
    then show ?thesis using unlock(1) assms(3,4) st by (simp add: sys_weight_def no_kill_def)
  next
    case (wake t w m)
    define m1 where "m1 = thread_wake w (sy_mtx s)"
    obtain m' where m': "mutex_unlock_wake w (sy_mtx s) = Ret m'" "\<forall>u. same_core (threads m1 u) (threads m' u)"
      "\<forall>u. th_wake_pending (threads m' u) = th_wake_pending (threads m1 u)" using minv_unlock_wake [OF I wake(2,3)] unfolding m1_def by blast
    have pos: "3 \<le> thread_weight m1 (mx_pc s) (calls s) t" using wake(3) by (simp add: thread_weight_def)
    have e: "thread_weight m' ((mx_pc s)(t := Outside)) (calls s) u = (if u = t then thread_weight m1 (mx_pc s) (calls s) u - 3 else thread_weight m1 (mx_pc s) (calls s) u)" for u
      using m'(2,3) wake(3) by (auto simp: thread_weight_def same_core_def)
    have "(\<Sum>u<n. thread_weight m1 (mx_pc s) (calls s) u) = (\<Sum>u<n. thread_weight m' ((mx_pc s)(t := Outside)) (calls s) u) + 3"
    proof -
      have f: "finite {..<n}" "t \<in> {..<n}" using wake(2) by simp_all
      show ?thesis unfolding sum.remove [OF f] using pos by (simp add: e)
    qed
    then have "(\<Sum>u<n. thread_weight m' ((mx_pc s)(t := Outside)) (calls s) u) < (\<Sum>u<n. thread_weight (sy_mtx s) (mx_pc s) (calls s) u)"
      using wake_weight [of w "sy_mtx s" "mx_pc s" "calls s" n] by (simp add: m1_def)
    then show ?thesis using wake(1,4) m'(1,2) assms(3,4) by (simp add: sys_weight_def no_kill_def same_core_def m1_def)
  next
    case (retire t)
    then show ?thesis using assms(3) by (auto simp: no_kill_def kill_due_def)
  next
    case (exit t m)
    then show ?thesis using minvD(4) [OF I exit(2)] assms(3) by (auto simp: no_kill_def thread_ok_def)
  next
    case (stray t)
    then show ?thesis using wake_weight [of t "sy_mtx s" "mx_pc s" "calls s" n] assms(3,4) by (simp add: sys_weight_def no_kill_def)
  next
    case (kill t)
    then show ?thesis using assms(4) by simp
  qed
qed

end
