(* ===== verification/Mutex_Run.thy ===== *)
theory Mutex_Run
  imports Mutex_Inv
begin

text \<open>
  The properties of the mutex: mutual exclusion with no failed assertion, and that every call completes. Two runs are executed: one in which a kill swallows
  the wake of an unlock, and one in which a waiter is overtaken again and again.
\<close>

section \<open>Properties\<close>

text \<open>The piece of the mutex that a thread runs next returns: no assertion fails and no walk over the list goes on for ever.\<close>

definition next_returns :: "mutex \<Rightarrow> nat \<Rightarrow> mutex_pc \<Rightarrow> bool" where
  "next_returns m t p =
     (case p of
        Entering \<Rightarrow> (\<exists>r m'. mutex_lock t m = Some (Ret (r, m')))
      | Rechecking \<Rightarrow> (\<exists>r m'. mutex_lock_again t m = Some (Ret (r, m')))
      | Holding \<Rightarrow> (\<exists>w m'. mutex_unlock t m = Ret (w, m'))
      | Waking w \<Rightarrow> (\<exists>m'. mutex_unlock_wake w m = Ret m')
      | Exiting \<Rightarrow> (\<exists>m'. thread_exit t m = Some (Ret m'))
      | _ \<Rightarrow> True)"

lemma minv_next_returns:
  assumes I: "minv n d m pc ws" and t: "t < n"
  shows "next_returns m t (pc t)"
  unfolding next_returns_def
proof (cases "pc t")
  case (Waking w)
  then show "case pc t of Entering \<Rightarrow> \<exists>r m'. mutex_lock t m = Some (Ret (r, m')) | Rechecking \<Rightarrow> \<exists>r m'. mutex_lock_again t m = Some (Ret (r, m'))
      | Holding \<Rightarrow> \<exists>w m'. mutex_unlock t m = Ret (w, m') | Waking w \<Rightarrow> \<exists>m'. mutex_unlock_wake w m = Ret m' | Exiting \<Rightarrow> \<exists>m'. thread_exit t m = Some (Ret m') | _ \<Rightarrow> True"
    using minv_unlock_wake [OF I t] by fastforce
qed (use lock_returns [OF I t] again_returns [OF I t] unlock_returns [OF I t] minv_exit [OF I t] in \<open>auto\<close>)

text \<open>C4. Whatever the interleaving of threads, wakes and kills: the owner of the mutex is exactly the thread that holds it, so no two do; no assertion
  of the locking, unlocking, waking and exiting code fails and no walk over the waiter list runs for ever; each thread's count of held mutexes is exact; and
  only live threads that are waiting, or leaving, are on the list.\<close>

theorem mutex_safe:
  assumes "mutex_reach n (mutex_start d cs ss ks) s"
  shows "(\<forall>t. mtx_owner (sy_mtx s) = Some t \<longleftrightarrow> t < n \<and> mx_pc s t = Holding) \<and>
    (\<forall>t < n. next_returns (sy_mtx s) t (mx_pc s t) \<and> th_mutex_depth (threads (sy_mtx s) t) = d t + (if mx_pc s t = Holding then 1 else 0)) \<and>
    (\<exists>ws. waiters (sy_mtx s) ws \<and> (\<forall>t \<in> set ws. t < n \<and> mx_pc s t \<in> {Parked, Rechecking, Exiting}))"
proof -
  obtain ws where "sys_inv n d s ws" using mutex_reach_inv [OF assms] by blast
  then have I: "minv n d (sy_mtx s) (mx_pc s) ws" by (simp add: sys_inv_def)
  show ?thesis using minvD(1-4) [OF I] minv_next_returns [OF I] unfolding thread_ok_def waiting_pc_def by blast
qed

lemma stuck_is_done:
  assumes inv: "sys_inv n d s ws" and nk: "no_kill n (sy_mtx s)" and stuck: "\<And>s'. \<not> mutex_step n s s'"
  shows "(\<forall>t < n. mx_pc s t = Outside \<and> calls s t = 0) \<and> mtx_owner (sy_mtx s) = None \<and> mtx_waiters_head (sy_mtx s) = None"
proof -
  have I: "minv n d (sy_mtx s) (mx_pc s) ws" and B: "baton n (sy_mtx s) (mx_pc s) ws" using inv nk by (simp_all add: sys_inv_def)
  have live: "mx_pc s t \<notin> {Exiting, Gone}" if "t < n" for t using minvD(4) [OF I that] nk that by (auto simp: thread_ok_def no_kill_def)
  have idle: "mx_pc s t = Outside \<and> calls s t = 0 \<or> mx_pc s t = Parked \<and> th_state (threads (sy_mtx s) t) = THREAD_BLOCKED" if t: "t < n" for t
  proof -
    have r: "next_returns (sy_mtx s) t (mx_pc s t)" by (rule minv_next_returns [OF I t])
    have ok: "thread_ok (d t) (mx_pc s t) (threads (sy_mtx s) t)" by (rule minvD(4) [OF I t])
    show ?thesis
    proof (cases "mx_pc s t")
      case Outside
      then show ?thesis using stuck mutex_step.enter [OF t Outside] by auto
    next
      case Parked
      then have "th_state (threads (sy_mtx s) t) \<in> {THREAD_BLOCKED, THREAD_READY}" using ok by (simp add: thread_ok_def)
      then show ?thesis using Parked stuck mutex_step.resume [OF t Parked] by (cases "block_resumed t (sy_mtx s)") auto
    next
      case Entering
      then show ?thesis using r stuck mutex_step.lock [OF t Entering] by (auto simp: next_returns_def)
    next
      case Rechecking
      then show ?thesis using r stuck mutex_step.again [OF t Rechecking] by (auto simp: next_returns_def)
    next
      case Holding
      then show ?thesis using r stuck mutex_step.unlock [OF t Holding] by (auto simp: next_returns_def)
    next
      case (Waking w)
      then show ?thesis using r stuck mutex_step.wake [OF t Waking] by (auto simp: next_returns_def)
    qed (use live [OF t] in auto)
  qed
  have own: "mtx_owner (sy_mtx s) = None"
  proof (cases "mtx_owner (sy_mtx s)")
    case (Some t)
    then show ?thesis using minvD(3) [OF I, of t] idle [of t] by auto
  qed simp
  have nb: "\<not> (\<exists>t < n. mx_pc s t = Rechecking \<or> mx_pc s t = Parked \<and> (th_state (threads (sy_mtx s) t) = THREAD_READY \<or> (\<exists>u < n. mx_pc s u = Waking t)))"
    using idle by fastforce
  then have ws: "ws = []" using B own unfolding baton_def by blast
  have "mx_pc s t = Outside \<and> calls s t = 0" if "t < n" for t using idle [OF that] minvD(5) [OF I that] nb that ws by auto
  moreover have "mtx_waiters_head (sy_mtx s) = None" using minvD(1) [OF I] ws by (simp add: waiters_def)
  ultimately show ?thesis using own by blast
qed

lemma quiet_reach:
  assumes "mutex_reach n (mutex_start d cs ss 0) s"
  shows "(\<exists>ws. sys_inv n d s ws) \<and> no_kill n (sy_mtx s) \<and> kills s = 0"
  using assms
proof induct
  case start
  then show ?case using mutex_start_inv [of n d cs ss 0] by (auto simp: no_kill_def mutex_start_def mutex_init_def)
next
  case (step s s')
  then show ?case using mutex_step_weight mutex_step_inv by blast
qed

text \<open>C3. If no thread is killed, every call completes: with any number of threads that each make any number of calls and unlock what they
  lock, and any number of stray wakes, there is no infinite run; and when nothing more can happen every thread has made all its calls, the mutex is free
  and nobody waits. In particular no wake is lost.\<close>

theorem mutex_calls_complete:
  shows "(\<nexists>f. f 0 = mutex_start d cs ss 0 \<and> (\<forall>i. mutex_step n (f i) (f (Suc i)))) \<and>
    (\<forall>s. mutex_reach n (mutex_start d cs ss 0) s \<and> (\<forall>s'. \<not> mutex_step n s s') \<longrightarrow>
       (\<forall>t < n. mx_pc s t = Outside \<and> calls s t = 0) \<and> mtx_owner (sy_mtx s) = None \<and> mtx_waiters_head (sy_mtx s) = None)"
proof (intro conjI notI allI impI)
  assume "\<exists>f. f 0 = mutex_start d cs ss 0 \<and> (\<forall>i. mutex_step n (f i) (f (Suc i)))"
  then obtain f where f: "f 0 = mutex_start d cs ss 0" "\<And>i. mutex_step n (f i) (f (Suc i))" by blast
  have r: "mutex_reach n (mutex_start d cs ss 0) (f i)" for i
    by (induct i) (use f mutex_reach.intros [of n "mutex_start d cs ss 0"] in metis)+
  have "sys_weight n (f (Suc i)) < sys_weight n (f i)" for i using quiet_reach [OF r] mutex_step_weight [OF f(2)] by blast
  then have "(f (Suc i), f i) \<in> measure (sys_weight n)" for i by simp
  then show False using wf_measure [of "sys_weight n"] unfolding wf_iff_no_infinite_down_chain by blast
next
  fix s t
  assume s: "mutex_reach n (mutex_start d cs ss 0) s \<and> (\<forall>s'. \<not> mutex_step n s s')"
  note Q = stuck_is_done [of n d s] 
  show "t < n \<Longrightarrow> mx_pc s t = Outside" "t < n \<Longrightarrow> calls s t = 0" "mtx_owner (sy_mtx s) = None" "mtx_waiters_head (sy_mtx s) = None"
    using Q quiet_reach s by blast+
qed

lemma some_run_ends:
  "\<exists>s. mutex_reach n (mutex_start d cs ss 0) s \<and> (\<forall>s'. \<not> mutex_step n s s')"
proof -
  have "\<exists>s. mutex_reach n (mutex_start d cs ss 0) s \<and> (\<forall>s'. \<not> mutex_step n s s')" if "mutex_reach n (mutex_start d cs ss 0) s" for s
    using that
  proof (induct "sys_weight n s" arbitrary: s rule: less_induct)
    case less
    show ?case
    proof (cases "\<exists>s'. mutex_step n s s'")
      case True
      then obtain s' where s': "mutex_step n s s'" by blast
      have "sys_weight n s' < sys_weight n s" using quiet_reach [OF less.prems] mutex_step_weight [OF s'] by blast
      then show ?thesis using less.hyps mutex_reach.step [OF less.prems s'] by blast
    qed (use less.prems in blast)
  qed
  then show ?thesis using mutex_reach.start by blast
qed

theorem mutex_calls_complete_witness:
  "\<exists>s. mutex_reach 2 (mutex_start (\<lambda>_. 0) (\<lambda>_. 3) 1 0) s \<and> (\<forall>s'. \<not> mutex_step 2 s s') \<and> calls s 0 = 0 \<and> calls s 1 = 0 \<and> mx_pc s 1 = Outside"
proof -
  obtain s where s: "mutex_reach 2 (mutex_start (\<lambda>_. 0) (\<lambda>_. 3) 1 0) s" "\<forall>s'. \<not> mutex_step 2 s s'" using some_run_ends by blast
  then show ?thesis using mutex_calls_complete [of "\<lambda>_. 0" "\<lambda>_. 3" 1 2] by (intro exI [of _ s]) auto
qed

theorem mutex_safe_witness:
  "\<exists>s. mutex_reach 2 (mutex_start (\<lambda>_. 0) (\<lambda>_. 3) 1 1) s \<and> mx_pc s 0 = Entering \<and> next_returns (sy_mtx s) 0 (mx_pc s 0) \<and> mtx_owner (sy_mtx s) \<noteq> Some 0"
proof -
  define s0 where "s0 = mutex_start (\<lambda>_. 0) (\<lambda>_. 3) 1 1"
  define s where "s = goes 0 Entering (sy_mtx s0) (one_call 0 s0)"
  have "mutex_step 2 s0 s" unfolding s_def by (rule mutex_step.enter) (simp_all add: s0_def mutex_start_def)
  then have r: "mutex_reach 2 (mutex_start (\<lambda>_. 0) (\<lambda>_. 3) 1 1) s" using mutex_reach.step [OF mutex_reach.start] by (simp add: s0_def)
  have pc: "mx_pc s 0 = Entering" by (simp add: s_def)
  have "(0::nat) < 2" by simp
  then show ?thesis using mutex_safe [OF r] r pc by (intro exI [of _ s] conjI) (blast, blast, blast, metis mutex_pc.distinct)
qed

section \<open>Two runs\<close>

text \<open>A run as a list of moves, to be executed.\<close>

datatype move = Enter nat | Lock nat | Resume nat | Again nat | Unlock nat | Wake nat | Exit nat | Kill nat

fun mutex_exec :: "move \<Rightarrow> mutex_sys \<Rightarrow> mutex_sys option" where
  "mutex_exec (Enter t) s = (if mx_pc s t = Outside \<and> 0 < calls s t then Some (goes t Entering (sy_mtx s) (one_call t s)) else None)"
| "mutex_exec (Lock t) s =
     (case mutex_lock t (sy_mtx s) of Some (Ret (r, m)) \<Rightarrow> if mx_pc s t = Entering then Some (goes t (after_lock r) m s) else None | _ \<Rightarrow> None)"
| "mutex_exec (Resume t) s =
     (case block_resumed t (sy_mtx s) of (stay, m) \<Rightarrow>
        if mx_pc s t = Parked \<and> th_state (threads (sy_mtx s) t) = THREAD_READY then Some (goes t (if stay then Rechecking else Exiting) m s) else None)"
| "mutex_exec (Again t) s =
     (case mutex_lock_again t (sy_mtx s) of Some (Ret (r, m)) \<Rightarrow> if mx_pc s t = Rechecking then Some (goes t (after_lock r) m s) else None | _ \<Rightarrow> None)"
| "mutex_exec (Unlock t) s =
     (case mutex_unlock t (sy_mtx s) of
        Ret (w, m) \<Rightarrow> if mx_pc s t = Holding then Some (goes t (case w of None \<Rightarrow> Outside | Some u \<Rightarrow> Waking u) m s) else None | _ \<Rightarrow> None)"
| "mutex_exec (Wake t) s =
     (case mx_pc s t of
        Waking w \<Rightarrow> (case mutex_unlock_wake w (sy_mtx s) of Ret m \<Rightarrow> Some (goes t Outside m s) | _ \<Rightarrow> None) | _ \<Rightarrow> None)"
| "mutex_exec (Exit t) s =
     (case thread_exit t (sy_mtx s) of Some (Ret m) \<Rightarrow> if mx_pc s t = Exiting then Some (goes t Gone m s) else None | _ \<Rightarrow> None)"
| "mutex_exec (Kill t) s =
     (if 0 < kills s then Some (s\<lparr>sy_mtx := set_thread t ((threads (sy_mtx s) t)\<lparr>t_killed := True\<rparr>) (sy_mtx s), kills := kills s - 1\<rparr>) else None)"

fun mover :: "move \<Rightarrow> nat" where
  "mover (Enter t) = t" | "mover (Lock t) = t" | "mover (Resume t) = t" | "mover (Again t) = t" | "mover (Unlock t) = t" | "mover (Wake t) = t"
| "mover (Exit t) = t" | "mover (Kill t) = t"

fun mutex_run :: "move list \<Rightarrow> mutex_sys \<Rightarrow> mutex_sys option" where
  "mutex_run [] s = Some s"
| "mutex_run (mv # mvs) s = Option.bind (mutex_exec mv s) (mutex_run mvs)"

lemma mutex_exec_step: "mutex_exec mv s = Some s' \<Longrightarrow> mover mv < n \<Longrightarrow> mutex_step n s s'"
  by (cases mv) (auto split: if_splits option.splits kres.splits prod.splits mutex_pc.splits
    intro: mutex_step.intros mutex_step.resume [where stay = True, simplified] mutex_step.resume [where stay = False, simplified]
      mutex_step.unlock [where w = None, simplified] mutex_step.unlock [where w = "Some u" for u, simplified] mutex_step.kill [simplified])

lemma mutex_run_reach: "mutex_run mvs s = Some s' \<Longrightarrow> \<forall>mv \<in> set mvs. mover mv < n \<Longrightarrow> mutex_reach n s0 s \<Longrightarrow> mutex_reach n s0 s'"
proof (induct mvs arbitrary: s)
  case (Cons mv mvs)
  then obtain s1 where s1: "mutex_exec mv s = Some s1" "mutex_run mvs s1 = Some s'" by (auto simp: bind_eq_Some_conv)
  have "mutex_step n s s1" using mutex_exec_step [OF s1(1)] Cons.prems(2) by simp
  then show ?case using Cons.hyps [OF s1(2)] Cons.prems(2) mutex_reach.step [OF Cons.prems(3)] by simp
qed simp

lemma unbind_loop_simps:
  "unbind_loop t prev None m = Some m"
  "unbind_loop t prev (Some c) m =
     (if c = t then (let m1 = set_link prev (th_wait_link (threads m t)) m;
                         m2 = (if mtx_waiters_tail m1 = Some t then m1\<lparr>mtx_waiters_tail := prev\<rparr> else m1)
                     in Some (set_thread t ((threads m2 t)\<lparr>th_wait_link := None\<rparr>) m2))
      else unbind_loop t (Some c) (th_wait_link (threads m c)) m)"
  by (subst unbind_loop.simps, simp)+

lemmas mutex_run_defs = goes_def one_call_def mutex_lock_def mutex_take_def thread_wait_note_def waiter_push_def set_thread_def block_release_def kill_due_def
  mutex_unlock_def waiter_pop_def thread_hold_def mutex_unlock_wake_def thread_unhold_def thread_wake_def block_resumed_def thread_exit_def
  thread_wait_unbind_locked_def unbind_loop_simps set_link_def thread_wait_forget_def mutex_lock_again_def waiter_unbind_def Let_def add64_def

text \<open>Thread 0 holds the mutex, threads 1 and 2 wait for it. Thread 0 unlocks, and before it wakes thread 1 the task of thread 1 is killed.\<close>

definition kill_moves :: "move list" where
  "kill_moves = [Enter 0, Lock 0, Enter 1, Lock 1, Enter 2, Lock 2, Unlock 0, Kill 1, Wake 0, Resume 1, Exit 1]"

definition lost_wake :: "mutex_sys \<Rightarrow> bool" where
  "lost_wake s \<longleftrightarrow> mx_pc s 0 = Outside \<and> mx_pc s 1 = Gone \<and> mx_pc s 2 = Parked \<and> th_state (threads (sy_mtx s) 2) = THREAD_BLOCKED \<and>
     mtx_owner (sy_mtx s) = None \<and> mtx_waiters_head (sy_mtx s) = Some 2 \<and> calls s 0 = 0 \<and> calls s 2 = 0 \<and> strays s = 0 \<and> kills s = 0 \<and>
     \<not> t_killed (threads (sy_mtx s) 0) \<and> \<not> t_killed (threads (sy_mtx s) 2)"

lemma kill_moves_run: "case mutex_run kill_moves (mutex_start (\<lambda>_. 0) (\<lambda>_. 1) 0 1) of Some s \<Rightarrow> lost_wake s | None \<Rightarrow> False"
  by (simp add: kill_moves_def mutex_start_def mutex_init_def mutex_run_defs lost_wake_def)

text \<open>C5. A kill can lose the wake of an unlock. Thread 0 unlocks and takes thread 1 off the list to wake it; thread 1 is killed, wakes, and exits
  instead of taking the mutex. Thread 2, behind it on the list, sleeps for good although the mutex is free.\<close>

theorem mutex_wake_lost_to_kill:
  "\<exists>s. mutex_reach 3 (mutex_start (\<lambda>_. 0) (\<lambda>_. 1) 0 1) s \<and> (\<forall>s'. \<not> mutex_step 3 s s') \<and> mtx_owner (sy_mtx s) = None \<and> mx_pc s 2 = Parked \<and> \<not> t_killed (threads (sy_mtx s) 2)"
proof -
  obtain s where s: "mutex_run kill_moves (mutex_start (\<lambda>_. 0) (\<lambda>_. 1) 0 1) = Some s" "lost_wake s" using kill_moves_run by (auto split: option.splits)
  have r: "mutex_reach 3 (mutex_start (\<lambda>_. 0) (\<lambda>_. 1) 0 1) s" by (rule mutex_run_reach [OF s(1) _ mutex_reach.start]) (simp add: kill_moves_def)
  have t: "t = 0 \<or> t = 1 \<or> t = 2" if "t < 3" for t :: nat using that by arith
  have "\<not> mutex_step 3 s s'" for s'
  proof
    assume "mutex_step 3 s s'"
    then show False using s(2) unfolding lost_wake_def by cases (use t in \<open>force simp: kill_due_def\<close>)+
  qed
  then show ?thesis using r s(2) by (auto simp: lost_wake_def)
qed

text \<open>Thread 0 holds the mutex and thread 1 waits. Thread 0 unlocks, wakes thread 1 and locks again before thread 1 has run.\<close>

definition overtaking :: "nat \<Rightarrow> nat \<Rightarrow> nat \<Rightarrow> mutex_sys" where
  "overtaking k a b =
     \<lparr>sy_mtx = \<lparr>mtx_owner = Some 0, mtx_waiters_head = Some 1, mtx_waiters_tail = Some 1,
        threads = (threads (mutex_init (\<lambda>_. 0)))
          (0 := \<lparr>th_state = THREAD_RUNNING, th_wait_link = None, th_wait_qlock = False, th_wake_hold = 0, th_wake_pending = False, th_mutex_depth = 1, t_killed = False\<rparr>,
           1 := \<lparr>th_state = THREAD_BLOCKED, th_wait_link = None, th_wait_qlock = True, th_wake_hold = 0, th_wake_pending = False, th_mutex_depth = 0, t_killed = False\<rparr>),
        mutex_n_acquire = a, mutex_n_slept = b\<rparr>,
      mx_pc = (\<lambda>_. Outside)(0 := Holding, 1 := Parked), calls = (\<lambda>_. 0)(0 := k), strays = 0, kills = 0\<rparr>"

lemma overtaking_start:
  "mutex_run [Enter 0, Lock 0, Enter 1, Lock 1] (mutex_start (\<lambda>_. 0) ((\<lambda>_. 0)(0 := Suc k, 1 := 1)) 0 0) = Some (overtaking k 1 1)"
  by (simp add: mutex_start_def mutex_init_def mutex_run_defs overtaking_def fun_eq_iff)

lemma overtaking_round:
  "mutex_run [Unlock 0, Wake 0, Enter 0, Lock 0, Resume 1, Again 1] (overtaking (Suc k) a b) = Some (overtaking k (add64 a 1) (add64 b 1))"
  by (simp add: mutex_init_def mutex_run_defs overtaking_def fun_eq_iff)

lemma overtaking_reach: "mutex_reach 2 s0 (overtaking k a b) \<Longrightarrow> \<exists>a b. mutex_reach 2 s0 (overtaking 0 a b)"
proof (induct k arbitrary: a b)
  case (Suc k)
  show ?case by (rule Suc.hyps [OF mutex_run_reach [OF overtaking_round _ Suc.prems]]) simp
qed blast

text \<open>A waiter can be overtaken any number of times: while thread 1 waits with one call, thread 0 unlocks and locks again \<open>k\<close> times.\<close>

theorem mutex_waiter_overtaken:
  "\<exists>s1 s2. mutex_reach 2 (mutex_start (\<lambda>_. 0) ((\<lambda>_. 0)(0 := Suc k, 1 := 1)) 0 0) s1 \<and> mx_pc s1 1 = Parked \<and> calls s1 0 = k \<and>
     mutex_reach 2 s1 s2 \<and> mx_pc s2 1 = Parked \<and> calls s2 0 = 0 \<and> calls s1 1 = 0"
proof -
  have 1: "mutex_reach 2 (mutex_start (\<lambda>_. 0) ((\<lambda>_. 0)(0 := Suc k, 1 := 1)) 0 0) (overtaking k 1 1)"
    by (rule mutex_run_reach [OF overtaking_start _ mutex_reach.start]) simp
  obtain a b where "mutex_reach 2 (overtaking k 1 1) (overtaking 0 a b)" using overtaking_reach [OF mutex_reach.start] by blast
  then show ?thesis using 1 by (intro exI [of _ "overtaking k 1 1"] exI [of _ "overtaking 0 a b"]) (simp add: overtaking_def)
qed

end
